(* ===== verification/Ozd_Prelude.thy ===== *)
theory Ozd_Prelude
  imports Complex_Main "HOL-Library.Word" "HOL-Library.List_Lexorder"
begin

text \<open>
  Shared vocabulary of the development: bytes and machine words, little-endian codecs
  (the \<open>to_le_bytes\<close>/\<open>from_le_bytes\<close> of the Rust standard library), the sequencing of
  fallible state-passing operations (the \<open>?\<close> operator), and the generic list and map
  lemmas the component theories use.
\<close>

unbundle bit_operations_syntax

named_theorems codec_simps \<open>encoders, decoders and their lengths\<close>
named_theorems fallible_simps \<open>sequencing of fallible operations\<close>

section \<open>Types\<close>

type_synonym byte = "8 word"
type_synonym bytes = "8 word list"
type_synonym u8 = "8 word"
type_synonym u16 = "16 word"
type_synonym u32 = "32 word"
type_synonym u64 = "64 word"

section \<open>Little-endian codecs\<close>

text \<open>\<open>le_bytes n x\<close> is the \<open>n\<close>-byte little-endian image of \<open>x\<close>, \<open>le_nat\<close> its reading.\<close>

fun le_bytes :: "nat \<Rightarrow> nat \<Rightarrow> bytes" where
  "le_bytes 0 x = []"
| "le_bytes (Suc n) x = word_of_nat (x mod 256) # le_bytes n (x div 256)"

fun le_nat :: "bytes \<Rightarrow> nat" where
  "le_nat [] = 0"
| "le_nat (b # bs) = unat b + 256 * le_nat bs"

definition le16 :: "u16 \<Rightarrow> bytes" where "le16 w = le_bytes 2 (unat w)"
definition le32 :: "u32 \<Rightarrow> bytes" where "le32 w = le_bytes 4 (unat w)"
definition le64 :: "u64 \<Rightarrow> bytes" where "le64 w = le_bytes 8 (unat w)"
definition un_le16 :: "bytes \<Rightarrow> u16" where "un_le16 bs = word_of_nat (le_nat bs)"
definition un_le32 :: "bytes \<Rightarrow> u32" where "un_le32 bs = word_of_nat (le_nat bs)"
definition un_le64 :: "bytes \<Rightarrow> u64" where "un_le64 bs = word_of_nat (le_nat bs)"

text \<open>\<open>bslice xs i j\<close> is Rust's \<open>&xs[i..j]\<close> for indices in range.\<close>

definition bslice :: "'a list \<Rightarrow> nat \<Rightarrow> nat \<Rightarrow> 'a list" where
  "bslice xs i j = take (j - i) (drop i xs)"

definition starts_with :: "'a list \<Rightarrow> 'a list \<Rightarrow> bool" where
  "starts_with xs p \<longleftrightarrow> take (length p) xs = p"

text \<open>Rust's \<open>div_ceil\<close> on unsigned integers.\<close>

definition div_ceil :: "nat \<Rightarrow> nat \<Rightarrow> nat" where
  "div_ceil a b = (a div b) + (if a mod b = 0 then 0 else 1)"

section \<open>Fallible state-passing operations\<close>

text \<open>
  An operation on a state \<open>'s\<close> that may fail returns the new state and a sum: \<open>Inl\<close> the
  error, \<open>Inr\<close> the result. \<open>and_then\<close> is the \<open>?\<close> operator followed by the rest of the body:
  an error is returned at once, with the state the failed step left behind.
\<close>

fun and_then :: "'s \<times> ('e + 'a) \<Rightarrow> ('a \<Rightarrow> 's \<Rightarrow> 's \<times> ('e + 'b)) \<Rightarrow> 's \<times> ('e + 'b)" where
  "and_then (s, Inl e) f = (s, Inl e)"
| "and_then (s, Inr a) f = f a s"

text \<open>\<open>map_err\<close> rewrites the error of a result.\<close>

fun map_err :: "('e \<Rightarrow> 'f) \<Rightarrow> 's \<times> ('e + 'a) \<Rightarrow> 's \<times> ('f + 'a)" where
  "map_err g (s, Inl e) = (s, Inl (g e))"
| "map_err g (s, Inr a) = (s, Inr a)"

section \<open>Lemmas\<close>

lemma length_le_bytes [simp, codec_simps]: "length (le_bytes n x) = n"
  by (induction n arbitrary: x) auto

lemma le_nat_le_bytes: "le_nat (le_bytes n x) = x mod 256 ^ n"
proof (induction n arbitrary: x)
  case (Suc n)
  have "unat (word_of_nat (x mod 256) :: u8) = x mod 256"
    by (simp add: unat_of_nat)
  then show ?case
    using Suc.IH [of "x div 256"] by (simp add: mod_mult2_eq)
qed simp

lemma le_nat_less: "le_nat bs < 256 ^ length bs"
proof (induction bs)
  case (Cons b bs)
  have "unat b < 256" using unsigned_less [of b, where ?'a = nat] by simp
  with Cons show ?case by simp
qed simp

lemma le_bytes_le_nat [simp]: "le_bytes (length bs) (le_nat bs) = bs"
proof (induction bs)
  case (Cons b bs)
  have "unat b < 256" using unsigned_less [of b, where ?'a = nat] by simp
  then show ?case using Cons by simp
qed simp

lemma length_le [simp, codec_simps]:
  "length (le16 a) = 2" "length (le32 b) = 4" "length (le64 c) = 8"
  by (simp_all add: le16_def le32_def le64_def)

lemma un_le16_le16 [simp, codec_simps]: "un_le16 (le16 w) = w"
proof -
  have "unat w < 65536" using unsigned_less [of w, where ?'a = nat] by simp
  then show ?thesis by (simp add: un_le16_def le16_def le_nat_le_bytes)
qed

lemma un_le32_le32 [simp, codec_simps]: "un_le32 (le32 w) = w"
proof -
  have "unat w < 4294967296" using unsigned_less [of w, where ?'a = nat] by simp
  then show ?thesis by (simp add: un_le32_def le32_def le_nat_le_bytes)
qed

lemma un_le64_le64 [simp, codec_simps]: "un_le64 (le64 w) = w"
proof -
  have "unat w < 18446744073709551616" using unsigned_less [of w, where ?'a = nat] by simp
  then show ?thesis by (simp add: un_le64_def le64_def le_nat_le_bytes)
qed

lemma le16_un_le16 [simp]: "length bs = 2 \<Longrightarrow> le16 (un_le16 bs) = bs"
  using le_nat_less [of bs] le_bytes_le_nat [of bs]
  by (simp add: un_le16_def le16_def unat_of_nat)

lemma le32_un_le32 [simp]: "length bs = 4 \<Longrightarrow> le32 (un_le32 bs) = bs"
  using le_nat_less [of bs] le_bytes_le_nat [of bs]
  by (simp add: un_le32_def le32_def unat_of_nat)

lemma le64_un_le64 [simp]: "length bs = 8 \<Longrightarrow> le64 (un_le64 bs) = bs"
  using le_nat_less [of bs] le_bytes_le_nat [of bs]
  by (simp add: un_le64_def le64_def unat_of_nat)

lemma length_bslice [simp, codec_simps]: "length (bslice xs i j) = min (j - i) (length xs - i)"
  by (simp add: bslice_def)

lemma bslice_skip [codec_simps]: "length p \<le> i \<Longrightarrow> bslice (p @ xs) i j = bslice xs (i - length p) (j - length p)"
  by (simp add: bslice_def)

lemma bslice_hit [codec_simps]: "length p = j \<Longrightarrow> bslice (p @ xs) 0 j = p"
  by (simp add: bslice_def)

lemma bslice_whole [codec_simps]: "length p = j \<Longrightarrow> bslice p 0 j = p"
  by (simp add: bslice_def)

lemma unat_word_of_nat16: "n < 2 ^ 16 \<Longrightarrow> unat (word_of_nat n :: u16) = n"
  by (simp add: unat_of_nat)

lemma unat_word_of_nat32: "n < 2 ^ 32 \<Longrightarrow> unat (word_of_nat n :: u32) = n"
  by (simp add: unat_of_nat)

lemma unat_word_of_nat64: "n < 2 ^ 64 \<Longrightarrow> unat (word_of_nat n :: u64) = n"
  by (simp add: unat_of_nat)

lemma starts_with_append [simp]: "starts_with (p @ xs) p"
  by (simp add: starts_with_def)

lemma div_ceil_pos:
  assumes "0 < b"
  shows "a \<le> b * div_ceil a b"
proof (cases "a mod b = 0")
  case True
  then show ?thesis by (auto simp: div_ceil_def)
next
  case False
  have eq: "b * (a div b) + a mod b = a" by (rule mult_div_mod_eq)
  have m: "a mod b < b" using assms by simp
  have "b * div_ceil a b = b * (a div b) + b"
    using False by (simp add: div_ceil_def)
  with eq m show ?thesis by linarith
qed

lemma and_then_Inr [fallible_simps]:
  "and_then m f = (s', Inr b) \<longleftrightarrow> (\<exists>s a. m = (s, Inr a) \<and> f a s = (s', Inr b))"
  by (cases m; cases "snd m") auto

lemma and_then_Inl [fallible_simps]:
  "and_then m f = (s', Inl e) \<longleftrightarrow> m = (s', Inl e) \<or> (\<exists>s a. m = (s, Inr a) \<and> f a s = (s', Inl e))"
  by (cases m; cases "snd m") auto

lemma map_err_Inr [fallible_simps, simp]: "map_err g m = (s, Inr a) \<longleftrightarrow> m = (s, Inr a)"
  by (cases m; cases "snd m") auto

lemma map_err_Inl [fallible_simps, simp]: "map_err g m = (s, Inl f) \<longleftrightarrow> (\<exists>e. m = (s, Inl e) \<and> f = g e)"
  by (cases m; cases "snd m") auto

lemma fst_map_err [simp]: "fst (map_err g m) = fst m"
  by (cases m; cases "snd m") auto

text \<open>
  An assertion about a pair of state and result: \<open>post m Q R\<close> holds when a success of \<open>m\<close>
  satisfies \<open>Q\<close> and a failure satisfies \<open>R\<close>. The rule for \<open>and_then\<close> composes such
  assertions along the body of an operation.
\<close>

definition post :: "'s \<times> ('e + 'a) \<Rightarrow> ('s \<Rightarrow> 'a \<Rightarrow> bool) \<Rightarrow> ('s \<Rightarrow> 'e \<Rightarrow> bool) \<Rightarrow> bool" where
  "post m Q R \<longleftrightarrow> (case snd m of Inl e \<Rightarrow> R (fst m) e | Inr a \<Rightarrow> Q (fst m) a)"

lemma post_simps [simp]:
  "post (s, Inl e) Q R \<longleftrightarrow> R s e"
  "post (s, Inr a) Q R \<longleftrightarrow> Q s a"
  by (simp_all add: post_def)

lemma post_and_then:
  assumes "post m Q' R" and "\<And>s a. Q' s a \<Longrightarrow> post (f a s) Q R"
  shows "post (and_then m f) Q R"
  using assms by (cases m; cases "snd m") auto

lemma post_mono:
  assumes "post m Q R" and "\<And>s a. Q s a \<Longrightarrow> Q' s a" and "\<And>s e. R s e \<Longrightarrow> R' s e"
  shows "post m Q' R'"
  using assms by (cases m; cases "snd m") auto

lemma post_map_err: "post m Q (\<lambda>s e. R s (g e)) \<Longrightarrow> post (map_err g m) Q R"
  by (cases m; cases "snd m") auto

lemma postD1: "post m Q R \<Longrightarrow> m = (s, Inr a) \<Longrightarrow> Q s a"
  by simp

lemma postD2: "post m Q R \<Longrightarrow> m = (s, Inl e) \<Longrightarrow> R s e"
  by simp

end
