(* ===== verification/Domain.thy ===== *)
theory Domain
  imports Ozd_Prelude
begin

text \<open>
  The domain crate (\<open>ozd-domain\<close>): block keys, shard identifiers and statuses, the error
  type with its display text, the reports of the background operations, the \<open>ShardEngine\<close>
  port as a record of operations, and the self-describing header of an erasure-coded piece
  (\<open>piece.rs\<close>). A block key is its byte string; \<open>List_Lexorder\<close> orders keys the way
  \<open>Vec<u8>\<close>'s derived \<open>Ord\<close> does. Sizes that the code keeps in \<open>u64\<close>/\<open>usize\<close> are \<open>nat\<close>,
  serialized fields are words of their width.
\<close>

section \<open>Keys, shards, errors\<close>

type_synonym block_key = bytes
type_synonym shard_id = nat

datatype shard_status = Online | Suspect | Faulted

record capacity =
  total_bytes :: nat
  free_bytes :: nat

definition capacity_default :: capacity where
  "capacity_default = \<lparr>total_bytes = 0, free_bytes = 0\<rparr>"

datatype domain_error =
    NotFound
  | ShardUnavailable shard_id
  | IntegrityViolation string
  | QuorumNotReached nat nat
  | Timeout string
  | DiskFull string
  | Corrupt string
  | Config string
  | Shutdown
  | Io string

type_synonym 'a domain_result = "domain_error + 'a"

text \<open>Decimal text of a number, as \<open>Display\<close> of the integer types prints it.\<close>

fun show_nat :: "nat \<Rightarrow> string" where
  "show_nat n = (if n < 10 then [char_of (48 + n)] else show_nat (n div 10) @ [char_of (48 + n mod 10)])"

declare show_nat.simps [simp del]

text \<open>The \<open>#[error(..)]\<close> texts.\<close>

fun error_text :: "domain_error \<Rightarrow> string" where
  "error_text NotFound = ''block not found''"
| "error_text (ShardUnavailable i) = ''shard ShardId('' @ show_nat i @ '') unavailable''"
| "error_text (IntegrityViolation m) = ''integrity violation: '' @ m"
| "error_text (QuorumNotReached ok want) =
     ''write quorum not reached: '' @ show_nat ok @ '' < '' @ show_nat want"
| "error_text (Timeout m) = ''timeout: '' @ m"
| "error_text (DiskFull m) = ''disk full: '' @ m"
| "error_text (Corrupt m) = ''corrupt record: '' @ m"
| "error_text (Config m) = ''config: '' @ m"
| "error_text Shutdown = ''shutdown: writes rejected''"
| "error_text (Io m) = ''io: '' @ m"

section \<open>Reports\<close>

record gc_report =
  victim_seg :: "u32 option"
  live_moved :: nat
  reclaimed_bytes :: nat
  orphans_removed :: nat
  orphan_bytes :: nat

definition gc_report_default :: gc_report where
  "gc_report_default = \<lparr>victim_seg = None, live_moved = 0, reclaimed_bytes = 0,
     orphans_removed = 0, orphan_bytes = 0\<rparr>"

record scrub_step =
  ss_checked :: nat
  ss_bytes :: nat
  ss_corrupt :: "block_key list"
  ss_last_key :: "block_key option"
  ss_done :: bool

record structure_report =
  segments_referenced :: nat
  segments_missing :: "u32 list"
  keys_at_risk :: nat
  orphan_segments :: "u32 list"

definition is_healthy :: "structure_report \<Rightarrow> bool" where
  "is_healthy r \<longleftrightarrow> segments_missing r = []"

section \<open>The ShardEngine port\<close>

text \<open>
  A \<open>dyn ShardEngine\<close> is a record of operations over a shard state \<open>'s\<close>. Interior mutability
  is made explicit: every operation returns the new state with its result, reads included
  (a read consumes injected faults). The \<open>f64\<close> discard ratio of \<open>gc\<close> is a rational.
\<close>

type_synonym ('s, 'a) op = "'s \<times> 'a domain_result"

record 's shard_ops =
  so_put :: "'s \<Rightarrow> block_key \<Rightarrow> bytes \<Rightarrow> ('s, unit) op"
  so_put_meta :: "'s \<Rightarrow> block_key \<Rightarrow> bytes \<Rightarrow> u64 option \<Rightarrow> ('s, unit) op"
  so_get :: "'s \<Rightarrow> block_key \<Rightarrow> ('s, bytes) op"
  so_has :: "'s \<Rightarrow> block_key \<Rightarrow> ('s, bool) op"
  so_delete :: "'s \<Rightarrow> block_key \<Rightarrow> ('s, unit) op"
  so_list :: "'s \<Rightarrow> bytes \<Rightarrow> block_key option \<Rightarrow> nat \<Rightarrow> ('s, (block_key \<times> nat) list) op"
  so_usage :: "'s \<Rightarrow> ('s, capacity) op"
  so_flush :: "'s \<Rightarrow> ('s, unit) op"
  so_gc :: "'s \<Rightarrow> rat \<Rightarrow> ('s, gc_report) op"
  so_verify_structure :: "'s \<Rightarrow> ('s, structure_report) op"
  so_scrub_step :: "'s \<Rightarrow> block_key option \<Rightarrow> nat \<Rightarrow> ('s, scrub_step) op"
  so_stat :: "'s \<Rightarrow> block_key \<Rightarrow> ('s, nat) op"
  so_save_cursor :: "'s \<Rightarrow> string \<Rightarrow> block_key option \<Rightarrow> ('s, unit) op"
  so_load_cursor :: "'s \<Rightarrow> string \<Rightarrow> ('s, block_key option) op"
  so_ballast_released :: "'s \<Rightarrow> bool"
  so_release_ballast :: "'s \<Rightarrow> ('s, bool) op"
  so_stat_obj :: "'s \<Rightarrow> block_key \<Rightarrow> ('s, nat \<times> u64 option) op"
  so_set_obj_logical :: "'s \<Rightarrow> block_key \<Rightarrow> u64 \<Rightarrow> ('s, bool) op"
  so_data_bytes :: "'s \<Rightarrow> ('s, nat) op"
  so_evict_oldest_segment :: "'s \<Rightarrow> ('s, nat \<times> nat) op"

section \<open>Erasure-coded piece envelope\<close>

text \<open>\<open>"OZEC" | ver u8 | k u8 | m u8 | piece_idx u8 | logical_len u64 LE\<close>, then the stripe.\<close>

definition EC_MAGIC :: bytes where "EC_MAGIC = [0x4F, 0x5A, 0x45, 0x43]"
definition EC_VER :: u8 where "EC_VER = 1"
definition EC_HEADER_LEN :: nat where "EC_HEADER_LEN = 16"

record piece_header =
  ph_k :: u8
  ph_m :: u8
  ph_idx :: u8
  ph_logical_len :: u64

definition encode_piece_header :: "piece_header \<Rightarrow> bytes" where
  "encode_piece_header h =
     EC_MAGIC @ [EC_VER, ph_k h, ph_m h, ph_idx h] @ le64 (ph_logical_len h)"

text \<open>
  \<open>h.k + h.m\<close> is an addition of two \<open>u8\<close>: it wraps (release profile, no overflow checks)
  before the cast to \<open>usize\<close>.
\<close>

definition parse_piece_header :: "bytes \<Rightarrow> piece_header option" where
  "parse_piece_header body =
     (if length body < EC_HEADER_LEN \<or> bslice body 0 4 \<noteq> EC_MAGIC \<or> body ! 4 \<noteq> EC_VER then None
      else
        let h = \<lparr>ph_k = body ! 5, ph_m = body ! 6, ph_idx = body ! 7,
                 ph_logical_len = un_le64 (bslice body 8 16)\<rparr> in
        if ph_k h = 0 \<or> ph_m h = 0 \<or> unat (ph_k h + ph_m h) \<le> unat (ph_idx h) then None
        else
          let stripe = length body - EC_HEADER_LEN;
              want = div_ceil (unat (ph_logical_len h)) (unat (ph_k h)) in
          if stripe \<noteq> want then None else Some h)"

section \<open>Lemmas\<close>

lemma show_nat_nonempty [simp]: "show_nat n \<noteq> []"
  by (subst show_nat.simps) simp

lemma length_encode_piece_header [simp, codec_simps]:
  "length (encode_piece_header h) = EC_HEADER_LEN"
  by (simp add: encode_piece_header_def EC_MAGIC_def EC_HEADER_LEN_def)

lemma length_EC_MAGIC [simp, codec_simps]: "length EC_MAGIC = 4"
  by (simp add: EC_MAGIC_def)

definition piece_header_ok :: "piece_header \<Rightarrow> bool" where
  "piece_header_ok h \<longleftrightarrow>
     ph_k h \<noteq> 0 \<and> ph_m h \<noteq> 0 \<and> unat (ph_idx h) < unat (ph_k h + ph_m h)"

lemma parse_piece_header_encode:
  "parse_piece_header (encode_piece_header h @ stripe) =
     (if piece_header_ok h \<and> length stripe = div_ceil (unat (ph_logical_len h)) (unat (ph_k h))
      then Some h else None)"
proof -
  let ?b = "encode_piece_header h @ stripe"
  have idx: "bslice ?b 0 4 = EC_MAGIC" "?b ! 4 = EC_VER" "?b ! 5 = ph_k h" "?b ! 6 = ph_m h"
    "?b ! 7 = ph_idx h"
    by (simp_all add: encode_piece_header_def EC_MAGIC_def bslice_def)
  have len: "bslice ?b 8 16 = le64 (ph_logical_len h)"
    by (simp add: encode_piece_header_def EC_MAGIC_def bslice_def)
  show ?thesis
    unfolding parse_piece_header_def
    by (simp add: idx len piece_header_ok_def not_le not_less Let_def del: append_assoc)
qed

lemma parse_piece_header_Some:
  assumes "parse_piece_header body = Some h"
  shows "piece_header_ok h"
    and "length body = EC_HEADER_LEN + div_ceil (unat (ph_logical_len h)) (unat (ph_k h))"
  using assms
  by (auto simp: parse_piece_header_def piece_header_ok_def Let_def not_le not_less split: if_splits)

text \<open>The probe decides by content alone: what parses is exactly an encoded header and its stripe.\<close>

lemma parse_piece_header_body:
  assumes "parse_piece_header body = Some h"
  shows "body = encode_piece_header h @ drop EC_HEADER_LEN body"
proof -
  from assms have l: "EC_HEADER_LEN \<le> length body" and m: "bslice body 0 4 = EC_MAGIC"
    and v: "body ! 4 = EC_VER" and k: "ph_k h = body ! 5" "ph_m h = body ! 6" "ph_idx h = body ! 7"
    and ll: "ph_logical_len h = un_le64 (bslice body 8 16)"
    by (auto simp: parse_piece_header_def Let_def split: if_splits)
  have l16: "16 \<le> length body" using l by (simp add: EC_HEADER_LEN_def)
  have "le64 (ph_logical_len h) = bslice body 8 16"
    unfolding ll by (rule le64_un_le64) (use l16 in simp)
  moreover have "[body ! 4, body ! 5, body ! 6, body ! 7] = bslice body 4 8"
    using l16 by (simp add: bslice_def take_Suc_conv_app_nth numeral_eq_Suc)
  ultimately have "encode_piece_header h = bslice body 0 4 @ bslice body 4 8 @ bslice body 8 16"
    by (simp add: encode_piece_header_def m v [symmetric] k)
  also have "\<dots> = take 16 body"
    using take_add [where i = 4 and j = 4 and xs = body] take_add [where i = 8 and j = 8 and xs = body]
    by (simp add: bslice_def)
  finally show ?thesis by (simp add: EC_HEADER_LEN_def)
qed

end
