(* ===== verification/Segment.thy ===== *)
theory Segment
  imports Domain "HOL-Library.AList"
begin

text \<open>
  Pack segments (\<open>ozd-engine/src/segment.rs\<close>): append-only files of self-describing records,
  the writer with its recovery point, rotation and emergency failover, the tail recovery of
  \<open>SegmentWriter::open\<close>, the streaming scan and the verified read.

  The file system is part of the state: segment files by directory and segment id, the
  \<open>seg.meta\<close> file of each directory, the ballast file and \<open>statvfs\<close>. I/O errors are injected:
  every fallible call takes the next outcome of a stream (an empty stream means success), with
  one stream for appends to a segment, one for reads of a segment and one for all other calls.
  A failed append keeps a prefix of the bytes it was given, as \<open>write_all\<close> may.
  \<open>crc32fast\<close> is the parameter \<open>crc\<close>, applied to key and stored bytes in one string
  (its incremental \<open>update\<close> is the checksum of the concatenation). \<open>posix_fadvise\<close> is a hint
  without observable effect.
\<close>

section \<open>Record format\<close>

definition MAGIC :: bytes where "MAGIC = [0x4F, 0x5A, 0x42, 0x32]"
definition HEADER_LEN :: nat where "HEADER_LEN = 20"
definition FLAG_ZSTD :: u16 where "FLAG_ZSTD = 1"
definition KEEP_HOT_TAIL :: nat where "KEEP_HOT_TAIL = 8 * 1024 * 1024"

record record_addr =
  ra_seg_id :: u32
  ra_offset :: u64
  ra_stored_len :: u32
  ra_key_len :: u16

definition encode_header :: "u16 \<Rightarrow> u16 \<Rightarrow> u32 \<Rightarrow> u32 \<Rightarrow> u32 \<Rightarrow> bytes" where
  "encode_header key_len flags stored_len logical_len crc =
     MAGIC @ le16 key_len @ le16 flags @ le32 stored_len @ le32 logical_len @ le32 crc"

record parsed_header =
  hd_key_len :: nat
  hd_flags :: u16
  hd_stored_len :: nat
  hd_logical_len :: u32
  hd_crc :: u32

definition parse_header :: "bytes \<Rightarrow> parsed_header option" where
  "parse_header h =
     (if length h < HEADER_LEN \<or> bslice h 0 4 \<noteq> MAGIC then None
      else Some \<lparr>hd_key_len = unat (un_le16 (bslice h 4 6)), hd_flags = un_le16 (bslice h 6 8),
                 hd_stored_len = unat (un_le32 (bslice h 8 12)),
                 hd_logical_len = un_le32 (bslice h 12 16), hd_crc = un_le32 (bslice h 16 20)\<rparr>)"

record recovered_record =
  rr_key :: bytes
  rr_addr :: record_addr
  rr_crc :: u32
  rr_flags :: u16
  rr_logical_len :: u32
  rr_stored :: bytes

section \<open>The file system and the writer\<close>

datatype dir = Primary | Failover

datatype io_error = Enospc | InvalidData | UnexpectedEof | NoSuchFile | OtherIo string

text \<open>\<open>Fault e n\<close>: the call fails with \<open>e\<close>; an append has written \<open>n\<close> bytes before failing.\<close>

datatype outcome = Pass | Fault io_error nat

record seg_writer =
  sw_has_failover :: bool
  sw_active_dir :: dir
  sw_seg_id :: u32
  sw_len :: nat
  sw_flush_offset :: nat
  sw_unflushed_items :: nat
  sw_max_size :: nat
  sw_fsync_items :: nat
  sw_failed_over :: bool
  sw_drop_cache :: bool

record disk = seg_writer +
  fs_files :: "((dir \<times> u32) \<times> bytes) list"
  fs_meta :: "(dir \<times> bytes) list"
  fs_ballast :: "nat option"
  fs_statvfs :: "(nat \<times> nat \<times> nat) option"
  fs_append_faults :: "outcome list"
  fs_read_faults :: "outcome list"
  fs_faults :: "outcome list"

type_synonym 'a io = "disk \<times> (io_error + 'a)"

fun next_outcome :: "outcome list \<Rightarrow> outcome \<times> outcome list" where
  "next_outcome [] = (Pass, [])"
| "next_outcome (f # fs) = (f, fs)"

definition io_try :: "disk \<Rightarrow> unit io" where
  "io_try d = (case next_outcome (fs_faults d) of
     (Pass, fs) \<Rightarrow> (d\<lparr>fs_faults := fs\<rparr>, Inr ())
   | (Fault e n, fs) \<Rightarrow> (d\<lparr>fs_faults := fs\<rparr>, Inl e))"

definition read_try :: "disk \<Rightarrow> unit io" where
  "read_try d = (case next_outcome (fs_read_faults d) of
     (Pass, fs) \<Rightarrow> (d\<lparr>fs_read_faults := fs\<rparr>, Inr ())
   | (Fault e n, fs) \<Rightarrow> (d\<lparr>fs_read_faults := fs\<rparr>, Inl e))"

definition file_at :: "disk \<Rightarrow> dir \<Rightarrow> u32 \<Rightarrow> bytes option" where
  "file_at d dr i = map_of (fs_files d) (dr, i)"

definition set_file :: "dir \<Rightarrow> u32 \<Rightarrow> bytes \<Rightarrow> disk \<Rightarrow> disk" where
  "set_file dr i c d = d\<lparr>fs_files := AList.update (dr, i) c (fs_files d)\<rparr>"

definition remove_file :: "dir \<Rightarrow> u32 \<Rightarrow> disk \<Rightarrow> unit io" where
  "remove_file dr i d = and_then (io_try d) (\<lambda>_ d.
     case file_at d dr i of
       None \<Rightarrow> (d, Inl NoSuchFile)
     | Some c \<Rightarrow> (d\<lparr>fs_files := AList.delete (dr, i) (fs_files d)\<rparr>, Inr ()))"

definition active_file :: "disk \<Rightarrow> bytes" where
  "active_file d = (case file_at d (sw_active_dir d) (sw_seg_id d) of None \<Rightarrow> [] | Some c \<Rightarrow> c)"

definition append_bytes :: "bytes \<Rightarrow> disk \<Rightarrow> disk" where
  "append_bytes bs d = set_file (sw_active_dir d) (sw_seg_id d) (active_file d @ bs) d"

definition write_all :: "bytes \<Rightarrow> disk \<Rightarrow> unit io" where
  "write_all bs d = (case next_outcome (fs_append_faults d) of
     (Pass, fs) \<Rightarrow> (append_bytes bs (d\<lparr>fs_append_faults := fs\<rparr>), Inr ())
   | (Fault e n, fs) \<Rightarrow> (append_bytes (take n bs) (d\<lparr>fs_append_faults := fs\<rparr>), Inl e))"

definition drop_page_cache :: "nat \<Rightarrow> nat \<Rightarrow> disk \<Rightarrow> disk" where
  "drop_page_cache offset len d = d"

text \<open>\<open>open_active\<close>: create or open for appending; an existing file keeps its contents.\<close>

definition open_active :: "dir \<Rightarrow> u32 \<Rightarrow> disk \<Rightarrow> unit io" where
  "open_active dr i d = and_then (io_try d) (\<lambda>_ d.
     (case file_at d dr i of None \<Rightarrow> set_file dr i [] d | Some c \<Rightarrow> d, Inr ()))"

text \<open>\<open>write_meta\<close>: write a temporary file, then rename it over \<open>seg.meta\<close>.\<close>

definition write_meta :: "dir \<Rightarrow> u32 \<Rightarrow> nat \<Rightarrow> disk \<Rightarrow> unit io" where
  "write_meta dr seg flush_offset d = and_then (io_try d) (\<lambda>_ d. and_then (io_try d) (\<lambda>_ d.
     (d\<lparr>fs_meta := AList.update dr (le32 seg @ le64 (word_of_nat flush_offset)) (fs_meta d)\<rparr>, Inr ())))"

definition read_meta :: "dir \<Rightarrow> disk \<Rightarrow> disk \<times> (u32 \<times> nat) option" where
  "read_meta dr d = (case io_try d of
     (d, Inl e) \<Rightarrow> (d, None)
   | (d, Inr u) \<Rightarrow> (d, case map_of (fs_meta d) dr of
         None \<Rightarrow> None
       | Some buf \<Rightarrow> if length buf \<noteq> 12 then None
                     else Some (un_le32 (bslice buf 0 4), unat (un_le64 (bslice buf 4 12)))))"

section \<open>Scanning records\<close>

text \<open>
  The loop shared by tail recovery and \<open>scan_segment\<close>: parse a header, take key and stored
  bytes, verify the checksum; stop at the first short, unparsable or corrupt record. The
  result is the list of valid records and the offset at which the scan stopped.
\<close>

function scan_records :: "(bytes \<Rightarrow> u32) \<Rightarrow> u32 \<Rightarrow> nat \<Rightarrow> bytes \<Rightarrow> recovered_record list \<times> nat" where
  "scan_records crc seg pos buf =
     (if length buf < HEADER_LEN then ([], pos)
      else case parse_header (take HEADER_LEN buf) of
        None \<Rightarrow> ([], pos)
      | Some h \<Rightarrow>
          let total = HEADER_LEN + hd_key_len h + hd_stored_len h in
          if length buf < total then ([], pos)
          else
            let key = bslice buf HEADER_LEN (HEADER_LEN + hd_key_len h);
                data = bslice buf (HEADER_LEN + hd_key_len h) total in
            if crc (key @ data) \<noteq> hd_crc h then ([], pos)
            else
              let r = \<lparr>rr_key = key,
                       rr_addr = \<lparr>ra_seg_id = seg, ra_offset = word_of_nat pos,
                                  ra_stored_len = word_of_nat (hd_stored_len h),
                                  ra_key_len = word_of_nat (hd_key_len h)\<rparr>,
                       rr_crc = hd_crc h, rr_flags = hd_flags h,
                       rr_logical_len = hd_logical_len h, rr_stored = data\<rparr>;
                  rest = scan_records crc seg (pos + total) (drop total buf) in
              (r # fst rest, snd rest))"
  by pat_completeness auto
termination
  by (relation "measure (\<lambda>(crc, seg, pos, buf). length buf)") (auto simp: HEADER_LEN_def)

declare scan_records.simps [simp del]

section \<open>SegmentWriter\<close>

text \<open>
  The last part of \<open>open\<close>: size of the active file, scan of the tail past the recovery point,
  truncation of a torn tail. \<open>len = max pos flush_offset\<close> is the code's expression.
\<close>

definition recover_tail :: "(bytes \<Rightarrow> u32) \<Rightarrow> u32 \<Rightarrow> nat \<Rightarrow> disk \<Rightarrow> (recovered_record list \<times> nat) io" where
  "recover_tail crc seg flush_offset d = and_then (io_try d) (\<lambda>_ d.
     let file_len = length (active_file d);
         pos = min flush_offset file_len in
     if pos < file_len then
       and_then (io_try d) (\<lambda>_ d. and_then (io_try d) (\<lambda>_ d. and_then (read_try d) (\<lambda>_ d.
         let scan = scan_records crc seg pos (drop pos (active_file d)) in
         if snd scan < file_len then
           and_then (io_try d) (\<lambda>_ d.
             and_then (io_try (set_file (sw_active_dir d) (sw_seg_id d) (take (snd scan) (active_file d)) d))
               (\<lambda>_ d. (d, Inr scan)))
         else (d, Inr scan))))
     else (d, Inr ([], pos)))"

definition choose_active :: "(u32 \<times> nat) option \<Rightarrow> (u32 \<times> nat) option \<Rightarrow> dir \<times> u32 \<times> nat" where
  "choose_active pm fm = (case (pm, fm) of
     (Some (ps, po), Some (fs, fo)) \<Rightarrow> if ps < fs then (Failover, fs, fo) else (Primary, ps, po)
   | (Some (ps, po), None) \<Rightarrow> (Primary, ps, po)
   | (None, Some (fs, fo)) \<Rightarrow> (Failover, fs, fo)
   | (None, None) \<Rightarrow> (Primary, 0, 0))"

definition seg_open :: "(bytes \<Rightarrow> u32) \<Rightarrow> bool \<Rightarrow> nat \<Rightarrow> nat \<Rightarrow> bool \<Rightarrow> disk \<Rightarrow> recovered_record list io" where
  "seg_open crc failover max_size fsync_items drop_cache d =
     and_then (case io_try d of
                 (d, Inl e) \<Rightarrow> if failover then (d, Inr ()) else (d, Inl e)
               | (d, Inr u) \<Rightarrow> (d, Inr u))
       (\<lambda>_ d.
          let (d, pm) = read_meta Primary d;
              (d, fm) = (if failover then read_meta Failover d else (d, None));
              (active_dir, seg_id, flush_offset) = choose_active pm fm;
              d = d\<lparr>sw_has_failover := failover, sw_active_dir := active_dir, sw_seg_id := seg_id,
                    sw_max_size := max_size, sw_fsync_items := fsync_items, sw_drop_cache := drop_cache\<rparr> in
          and_then (open_active active_dir seg_id d) (\<lambda>_ d.
            and_then (recover_tail crc seg_id flush_offset d) (\<lambda>scan d.
              let len = max (snd scan) flush_offset in
              (d\<lparr>sw_len := len, sw_flush_offset := len, sw_unflushed_items := 0,
                 sw_failed_over := (active_dir \<noteq> Primary)\<rparr>, Inr (fst scan)))))"

definition seg_flush :: "disk \<Rightarrow> unit io" where
  "seg_flush d =
     (if sw_flush_offset d = sw_len d \<and> sw_unflushed_items d = 0 then (d, Inr ())
      else and_then (io_try d) (\<lambda>_ d.
        let d = d\<lparr>sw_flush_offset := sw_len d, sw_unflushed_items := 0\<rparr>;
            d = (if sw_drop_cache d \<and> KEEP_HOT_TAIL < sw_flush_offset d
                 then drop_page_cache 0 (sw_flush_offset d - KEEP_HOT_TAIL) d else d) in
        write_meta (sw_active_dir d) (sw_seg_id d) (sw_flush_offset d) d))"

definition install :: "dir \<Rightarrow> u32 \<Rightarrow> bool \<Rightarrow> disk \<Rightarrow> disk" where
  "install dr i failed_over d =
     d\<lparr>sw_active_dir := dr, sw_seg_id := i, sw_failed_over := failed_over,
       sw_len := 0, sw_flush_offset := 0, sw_unflushed_items := 0\<rparr>"

text \<open>\<open>let _ = self.file.sync_data()\<close>: the outcome is ignored.\<close>

definition sync_ignored :: "disk \<Rightarrow> disk" where
  "sync_ignored d = fst (io_try d)"

definition failover_rotate :: "disk \<Rightarrow> unit io" where
  "failover_rotate d =
     (if \<not> sw_has_failover d then (d, Inl (OtherIo ''no failover path configured''))
      else
        let d = sync_ignored d;
            d = (if sw_drop_cache d then drop_page_cache 0 0 d else d);
            next = sw_seg_id d + 1 in
        and_then (io_try d) (\<lambda>_ d.
          and_then (open_active Failover next d) (\<lambda>_ d.
            and_then (write_meta Failover next 0 d) (\<lambda>_ d.
              (install Failover next True d, Inr ())))))"

definition rotate_primary :: "disk \<Rightarrow> unit io" where
  "rotate_primary d =
     (let d = (if sw_drop_cache d then drop_page_cache 0 0 d else d);
          next = sw_seg_id d + 1 in
      case and_then (io_try d) (\<lambda>_ d. and_then (open_active Primary next d) (\<lambda>_ d. write_meta Primary next 0 d)) of
        (d, Inr u) \<Rightarrow> (install Primary next False d, Inr ())
      | (d, Inl e) \<Rightarrow> if \<not> sw_has_failover d then (d, Inl e) else failover_rotate d)"

definition seg_rotate :: "disk \<Rightarrow> unit io" where
  "seg_rotate d = (case seg_flush d of
     (d, Inl e) \<Rightarrow> if \<not> sw_has_failover d then (d, Inl e) else rotate_primary (sync_ignored d)
   | (d, Inr u) \<Rightarrow> rotate_primary d)"

definition write_record ::
  "(bytes \<Rightarrow> u32) \<Rightarrow> bytes \<Rightarrow> bytes \<Rightarrow> u32 \<Rightarrow> u16 \<Rightarrow> disk \<Rightarrow> (record_addr \<times> u32) io" where
  "write_record crc key stored logical_len flags d =
     (let c = crc (key @ stored);
          header = encode_header (word_of_nat (length key)) flags (word_of_nat (length stored)) logical_len c;
          offset = sw_len d in
      and_then (write_all header d) (\<lambda>_ d.
        and_then (write_all key d) (\<lambda>_ d.
          and_then (write_all stored d) (\<lambda>_ d.
            let d = d\<lparr>sw_len := sw_len d + (HEADER_LEN + length key + length stored),
                      sw_unflushed_items := sw_unflushed_items d + 1\<rparr> in
            and_then (if sw_fsync_items d \<le> sw_unflushed_items d then seg_flush d else (d, Inr ()))
              (\<lambda>_ d. (d, Inr (\<lparr>ra_seg_id = sw_seg_id d, ra_offset = word_of_nat offset,
                               ra_stored_len = word_of_nat (length stored),
                               ra_key_len = word_of_nat (length key)\<rparr>, c)))))))"

definition append_with_flags ::
  "(bytes \<Rightarrow> u32) \<Rightarrow> bytes \<Rightarrow> bytes \<Rightarrow> u32 \<Rightarrow> u16 \<Rightarrow> disk \<Rightarrow> (record_addr \<times> u32) io" where
  "append_with_flags crc key stored logical_len flags d =
     and_then (if sw_max_size d \<le> sw_len d then seg_rotate d else (d, Inr ())) (\<lambda>_ d.
       case write_record crc key stored logical_len flags d of
         (d, Inr r) \<Rightarrow> (d, Inr r)
       | (d, Inl e) \<Rightarrow>
           if sw_has_failover d \<and> \<not> sw_failed_over d then
             and_then (failover_rotate d) (\<lambda>_ d. write_record crc key stored logical_len flags d)
           else (d, Inl e))"

section \<open>Reading\<close>

text \<open>\<open>read_record\<close> on the contents of the file: bounds, then checksum of key and stored bytes.\<close>

definition read_at :: "(bytes \<Rightarrow> u32) \<Rightarrow> bytes \<Rightarrow> record_addr \<Rightarrow> u32 \<Rightarrow> io_error + bytes" where
  "read_at crc content a expect_crc =
     (let total = HEADER_LEN + unat (ra_key_len a) + unat (ra_stored_len a);
          off = unat (ra_offset a) in
      if length content < off + total then Inl UnexpectedEof
      else
        let buf = bslice content off (off + total);
            key = bslice buf HEADER_LEN (HEADER_LEN + unat (ra_key_len a));
            data = drop (HEADER_LEN + unat (ra_key_len a)) buf in
        if crc (key @ data) \<noteq> expect_crc then Inl InvalidData else Inr data)"

definition read_record :: "(bytes \<Rightarrow> u32) \<Rightarrow> dir \<Rightarrow> record_addr \<Rightarrow> u32 \<Rightarrow> disk \<Rightarrow> bytes io" where
  "read_record crc dr a expect_crc d = and_then (read_try d) (\<lambda>_ d.
     case file_at d dr (ra_seg_id a) of
       None \<Rightarrow> (d, Inl NoSuchFile)
     | Some content \<Rightarrow> and_then (read_try d) (\<lambda>_ d. (d, read_at crc content a expect_crc)))"

text \<open>
  The loop of \<open>scan_segment\<close> with its callback \<open>f\<close>, over the valid records of the file. \<open>rd\<close> is
  one buffered read: an error on a header read is returned (an \<open>UnexpectedEof\<close> ends the scan);
  an error on the key or the body ends the scan as if the file ended there.
\<close>

fun scan_fold ::
  "('s \<Rightarrow> 's \<times> (io_error + unit)) \<Rightarrow> (recovered_record \<Rightarrow> 's \<Rightarrow> 's \<times> (io_error + unit))
     \<Rightarrow> recovered_record list \<Rightarrow> 's \<Rightarrow> 's \<times> (io_error + unit)" where
  "scan_fold rd f [] s = (case rd s of
     (s, Inl e) \<Rightarrow> (s, if e = UnexpectedEof then Inr () else Inl e)
   | (s, Inr u) \<Rightarrow> (s, Inr ()))"
| "scan_fold rd f (r # rs) s = (case rd s of
     (s, Inl e) \<Rightarrow> (s, if e = UnexpectedEof then Inr () else Inl e)
   | (s, Inr u) \<Rightarrow> (case rd s of
        (s, Inl e) \<Rightarrow> (s, Inr ())
      | (s, Inr u) \<Rightarrow> and_then (f r s) (\<lambda>_ s. scan_fold rd f rs s)))"

section \<open>Records: encoding and scanning\<close>

text \<open>The bytes \<open>write_record\<close> appends, and the record a scan reads back from them.\<close>

definition enc_rec :: "(bytes \<Rightarrow> u32) \<Rightarrow> bytes \<Rightarrow> bytes \<Rightarrow> u32 \<Rightarrow> u16 \<Rightarrow> bytes" where
  "enc_rec crc key stored logical_len flags =
     encode_header (word_of_nat (length key)) flags (word_of_nat (length stored)) logical_len (crc (key @ stored))
       @ key @ stored"

definition rec_of :: "(bytes \<Rightarrow> u32) \<Rightarrow> u32 \<Rightarrow> nat \<Rightarrow> bytes \<Rightarrow> bytes \<Rightarrow> u32 \<Rightarrow> u16 \<Rightarrow> recovered_record" where
  "rec_of crc seg pos key stored logical_len flags =
     \<lparr>rr_key = key,
      rr_addr = \<lparr>ra_seg_id = seg, ra_offset = word_of_nat pos, ra_stored_len = word_of_nat (length stored),
                 ra_key_len = word_of_nat (length key)\<rparr>,
      rr_crc = crc (key @ stored), rr_flags = flags, rr_logical_len = logical_len, rr_stored = stored\<rparr>"

definition rec_fits :: "bytes \<Rightarrow> bytes \<Rightarrow> bool" where
  "rec_fits key stored \<longleftrightarrow> length key < 2 ^ 16 \<and> length stored < 2 ^ 32"

lemma length_encode_header [simp, codec_simps]: "length (encode_header kl fl sl ll c) = HEADER_LEN"
  by (simp add: encode_header_def HEADER_LEN_def MAGIC_def)

lemma length_enc_rec [simp, codec_simps]:
  "length (enc_rec crc key stored ll fl) = HEADER_LEN + length key + length stored"
  by (simp add: enc_rec_def)

lemma parse_header_encode [codec_simps]:
  "parse_header (encode_header kl fl sl ll c) =
     Some \<lparr>hd_key_len = unat kl, hd_flags = fl, hd_stored_len = unat sl, hd_logical_len = ll, hd_crc = c\<rparr>"
proof -
  let ?h = "encode_header kl fl sl ll c"
  have "bslice ?h 0 4 = MAGIC" "bslice ?h 4 6 = le16 kl" "bslice ?h 6 8 = le16 fl"
    "bslice ?h 8 12 = le32 sl" "bslice ?h 12 16 = le32 ll" "bslice ?h 16 20 = le32 c"
    by (simp_all add: encode_header_def MAGIC_def bslice_def)
  then show ?thesis by (simp add: parse_header_def)
qed

lemma parse_header_Some:
  assumes "parse_header h = Some p" and len: "length h = HEADER_LEN"
  shows "h = encode_header (word_of_nat (hd_key_len p)) (hd_flags p) (word_of_nat (hd_stored_len p)) (hd_logical_len p) (hd_crc p)"
    and "hd_key_len p < 2 ^ 16" and "hd_stored_len p < 2 ^ 32"
proof -
  have l: "length h = 20" using len by (simp add: HEADER_LEN_def)
  have ph: "bslice h 0 4 = MAGIC" "hd_key_len p = unat (un_le16 (bslice h 4 6))" "hd_flags p = un_le16 (bslice h 6 8)"
    "hd_stored_len p = unat (un_le32 (bslice h 8 12))" "hd_logical_len p = un_le32 (bslice h 12 16)"
    "hd_crc p = un_le32 (bslice h 16 20)"
    using assms(1) by (auto simp: parse_header_def split: if_splits)
  have "h = bslice h 0 4 @ bslice h 4 6 @ bslice h 6 8 @ bslice h 8 12 @ bslice h 12 16 @ bslice h 16 20"
    using l take_add [where i = 4 and j = 2 and xs = h] take_add [where i = 6 and j = 2 and xs = h]
      take_add [where i = 8 and j = 4 and xs = h] take_add [where i = 12 and j = 4 and xs = h]
      take_add [where i = 16 and j = 4 and xs = h]
    by (simp add: bslice_def)
  then show "h = encode_header (word_of_nat (hd_key_len p)) (hd_flags p) (word_of_nat (hd_stored_len p)) (hd_logical_len p) (hd_crc p)"
    using l by (simp add: encode_header_def ph)
  show "hd_key_len p < 2 ^ 16" unfolding ph(2)
    using unsigned_less [of "un_le16 (bslice h 4 6)", where ?'a = nat] by simp
  show "hd_stored_len p < 2 ^ 32" unfolding ph(4)
    using unsigned_less [of "un_le32 (bslice h 8 12)", where ?'a = nat] by simp
qed

lemma scan_records_enc:
  assumes "rec_fits key stored"
  shows "scan_records crc seg pos (enc_rec crc key stored ll fl @ rest) =
    (let tail = scan_records crc seg (pos + (HEADER_LEN + length key + length stored)) rest
     in (rec_of crc seg pos key stored ll fl # fst tail, snd tail))"
proof -
  let ?h = "encode_header (word_of_nat (length key)) fl (word_of_nat (length stored)) ll (crc (key @ stored))"
  have k: "unat (word_of_nat (length key) :: u16) = length key"
    and s: "unat (word_of_nat (length stored) :: u32) = length stored"
    using assms by (simp_all add: rec_fits_def unat_of_nat)
  have buf: "enc_rec crc key stored ll fl @ rest = ?h @ key @ stored @ rest"
    by (simp add: enc_rec_def)
  have hd: "take HEADER_LEN (?h @ key @ stored @ rest) = ?h" by simp
  have key: "bslice (?h @ key @ stored @ rest) HEADER_LEN (HEADER_LEN + length key) = key"
    by (simp add: bslice_def)
  have st: "bslice (?h @ key @ stored @ rest) (HEADER_LEN + length key) (HEADER_LEN + length key + length stored) = stored"
    by (simp add: bslice_def)
  have rest: "drop (HEADER_LEN + length key + length stored) (?h @ key @ stored @ rest) = rest"
    by simp
  show ?thesis
    unfolding buf
    by (subst scan_records.simps)
      (simp only: hd parse_header_encode option.case Let_def parsed_header.simps k s key st rest rec_of_def
        length_append length_encode_header not_less if_False, simp add: rec_of_def k s)
qed

lemma scan_records_Nil [simp]: "scan_records crc seg pos [] = ([], pos)"
  by (subst scan_records.simps) (simp add: HEADER_LEN_def)

lemma scan_records_short [simp]: "length buf < HEADER_LEN \<Longrightarrow> scan_records crc seg pos buf = ([], pos)"
  by (subst scan_records.simps) simp

text \<open>A torn record, any proper prefix of an encoded one, is not mistaken for a record.\<close>

lemma scan_records_torn:
  assumes fits: "rec_fits key stored" and n: "n < HEADER_LEN + length key + length stored"
  shows "scan_records crc seg pos (take n (enc_rec crc key stored ll fl)) = ([], pos)"
proof (cases "n < HEADER_LEN")
  case True
  then show ?thesis by simp
next
  case False
  let ?h = "encode_header (word_of_nat (length key)) fl (word_of_nat (length stored)) ll (crc (key @ stored))"
  let ?b = "take n (enc_rec crc key stored ll fl)"
  have k: "unat (word_of_nat (length key) :: u16) = length key"
    and s: "unat (word_of_nat (length stored) :: u32) = length stored"
    using fits by (simp_all add: rec_fits_def unat_of_nat)
  have len: "length ?b = n" using n by simp
  have hd: "take HEADER_LEN (enc_rec crc key stored ll fl) = ?h"
    by (simp add: enc_rec_def)
  show ?thesis
    by (subst scan_records.simps) (use False n len in \<open>simp add: hd parse_header_encode k s Let_def\<close>)
qed

text \<open>One unfolding step, as a case distinction: the scan stops, or it reads one record.\<close>

lemma scan_records_cases:
  obtains (stop) "scan_records crc seg pos buf = ([], pos)"
  | (step) key stored ll fl rest where "rec_fits key stored"
      "buf = enc_rec crc key stored ll fl @ rest"
proof (cases "length buf < HEADER_LEN")
  case True
  then show ?thesis by (intro stop) simp
next
  case False
  note long = False
  show ?thesis
  proof (cases "parse_header (take HEADER_LEN buf)")
    case None
    with long show ?thesis by (intro stop) (simp add: scan_records.simps [of crc seg pos buf])
  next
    case (Some h)
    let ?kl = "hd_key_len h" and ?sl = "hd_stored_len h"
    let ?total = "HEADER_LEN + ?kl + ?sl"
    let ?key = "bslice buf HEADER_LEN (HEADER_LEN + ?kl)"
    let ?st = "bslice buf (HEADER_LEN + ?kl) ?total"
    show ?thesis
    proof (cases "length buf < ?total \<or> crc (?key @ ?st) \<noteq> hd_crc h")
      case True
      with long Some show ?thesis
        by (intro stop) (auto simp: scan_records.simps [of crc seg pos buf] Let_def)
    next
      case False
      then have tot: "?total \<le> length buf" and c: "crc (?key @ ?st) = hd_crc h" by auto
      let ?h = "take HEADER_LEN buf"
      have lh: "length ?h = HEADER_LEN" using long by simp
      note hdr = parse_header_Some [OF Some lh]
      have lk: "length ?key = ?kl" and ls: "length ?st = ?sl" using tot by simp_all
      have fits: "rec_fits ?key ?st" using hdr(2,3) by (simp only: rec_fits_def lk ls)
      have "buf = ?h @ ?key @ ?st @ drop ?total buf"
        using take_add [where i = HEADER_LEN and j = ?kl and xs = buf]
          take_add [where i = "HEADER_LEN + ?kl" and j = ?sl and xs = buf]
          append_take_drop_id [of ?total buf]
        by (simp add: bslice_def)
      then have "buf = enc_rec crc ?key ?st (hd_logical_len h) (hd_flags h) @ drop ?total buf"
        using hdr(1) by (simp add: enc_rec_def lk ls c del: length_bslice)
      with fits show ?thesis by (rule step)
    qed
  qed
qed

lemma scan_records_bounds:
  "pos \<le> snd (scan_records crc seg pos buf) \<and> snd (scan_records crc seg pos buf) \<le> pos + length buf"
proof (induction "length buf" arbitrary: pos buf rule: less_induct)
  case less
  show ?case
  proof (cases rule: scan_records_cases [of crc seg pos buf])
    case (step key stored ll fl rest)
    then have "length rest < length buf" by (simp add: HEADER_LEN_def)
    from less [OF this, of "pos + (HEADER_LEN + length key + length stored)"] step show ?thesis
      by (simp add: scan_records_enc Let_def)
  qed simp
qed

text \<open>A scan that consumed its whole buffer continues into whatever is appended.\<close>

lemma scan_records_append:
  assumes "snd (scan_records crc seg pos buf) = pos + length buf"
  shows "scan_records crc seg pos (buf @ zs) =
    (fst (scan_records crc seg pos buf) @ fst (scan_records crc seg (pos + length buf) zs),
     snd (scan_records crc seg (pos + length buf) zs))"
  using assms
proof (induction "length buf" arbitrary: pos buf rule: less_induct)
  case less
  show ?case
  proof (cases rule: scan_records_cases [of crc seg pos buf])
    case stop
    then have "buf = []" using less.prems by simp
    then show ?thesis by simp
  next
    case (step key stored ll fl rest)
    let ?n = "HEADER_LEN + length key + length stored"
    have lt: "length rest < length buf" using step by (simp add: HEADER_LEN_def)
    have "snd (scan_records crc seg (pos + ?n) rest) = (pos + ?n) + length rest"
      using less.prems step by (simp add: scan_records_enc Let_def)
    from less.hyps [OF lt this] step show ?thesis
      by (simp add: scan_records_enc Let_def add.assoc)
  qed
qed

text \<open>Every scanned record is an encoded record of the buffer, at the offset it reports.\<close>

lemma scan_records_mem:
  assumes "r \<in> set (fst (scan_records crc seg pos buf))"
  shows "\<exists>key stored ll fl pre rest. rec_fits key stored \<and> buf = pre @ enc_rec crc key stored ll fl @ rest
    \<and> r = rec_of crc seg (pos + length pre) key stored ll fl"
  using assms
proof (induction "length buf" arbitrary: pos buf rule: less_induct)
  case less
  show ?case
  proof (cases rule: scan_records_cases [of crc seg pos buf])
    case stop
    with less.prems show ?thesis by simp
  next
    case (step key stored ll fl rest)
    let ?n = "HEADER_LEN + length key + length stored"
    have lt: "length rest < length buf" using step by (simp add: HEADER_LEN_def)
    from less.prems step consider "r = rec_of crc seg pos key stored ll fl"
      | "r \<in> set (fst (scan_records crc seg (pos + ?n) rest))"
      by (auto simp: scan_records_enc Let_def)
    then show ?thesis
    proof cases
      case 1
      with step show ?thesis by (metis add.right_neutral append_Nil list.size(3))
    next
      case 2
      from less.hyps [OF lt 2] obtain k s l f pre rest' where
        "rec_fits k s" "rest = pre @ enc_rec crc k s l f @ rest'" "r = rec_of crc seg (pos + ?n + length pre) k s l f"
        by blast
      with step show ?thesis
        by (metis (no_types, opaque_lifting) add.assoc append.assoc length_append length_enc_rec)
    qed
  qed
qed

lemma rec_of_sel [simp]:
  "rr_key (rec_of crc seg pos key stored ll fl) = key"
  "rr_crc (rec_of crc seg pos key stored ll fl) = crc (key @ stored)"
  "rr_flags (rec_of crc seg pos key stored ll fl) = fl"
  "rr_logical_len (rec_of crc seg pos key stored ll fl) = ll"
  "rr_stored (rec_of crc seg pos key stored ll fl) = stored"
  "ra_seg_id (rr_addr (rec_of crc seg pos key stored ll fl)) = seg"
  "ra_offset (rr_addr (rec_of crc seg pos key stored ll fl)) = word_of_nat pos"
  by (simp_all add: rec_of_def)

text \<open>Two records scanned from one file at the same offset are the same record.\<close>

lemma scan_records_same_offset:
  assumes "r \<in> set (fst (scan_records crc seg 0 buf))" and "r' \<in> set (fst (scan_records crc seg 0 buf))"
    and "ra_offset (rr_addr r) = ra_offset (rr_addr r')" and "length buf < 2 ^ 64"
  shows "r = r'"
proof -
  obtain k s l f pre rest where r: "rec_fits k s" "buf = pre @ enc_rec crc k s l f @ rest"
    "r = rec_of crc seg (length pre) k s l f"
    using scan_records_mem [OF assms(1)] by auto
  obtain k' s' l' f' pre' rest' where r': "rec_fits k' s'" "buf = pre' @ enc_rec crc k' s' l' f' @ rest'"
    "r' = rec_of crc seg (length pre') k' s' l' f'"
    using scan_records_mem [OF assms(2)] by auto
  have b: "length pre < 2 ^ 64" "length pre' < 2 ^ 64"
    using assms(4) r(2) r'(2) by (metis length_append not_add_less1 linorder_not_less order_le_less_trans le_add1)+
  have "(word_of_nat (length pre) :: u64) = word_of_nat (length pre')"
    using assms(3) r r' by simp
  then have "length pre = length pre'"
    using b by (metis unat_word_of_nat64)
  then have eq: "pre = pre'" "enc_rec crc k s l f @ rest = enc_rec crc k' s' l' f' @ rest'"
    using r(2) r'(2) by (metis append_eq_append_conv)+
  have "rec_of crc seg (length pre) k s l f = hd (fst (scan_records crc seg (length pre) (enc_rec crc k s l f @ rest)))"
    using r(1) by (simp add: scan_records_enc Let_def)
  also have "\<dots> = rec_of crc seg (length pre) k' s' l' f'"
    unfolding eq(2) using r'(1) by (simp add: scan_records_enc Let_def)
  finally show ?thesis using r r' eq by simp
qed

lemma read_at_enc:
  assumes fits: "rec_fits key stored" and len: "length pre < 2 ^ 64"
  shows "read_at crc (pre @ enc_rec crc key stored ll fl @ rest)
    (rr_addr (rec_of crc seg (length pre) key stored ll fl)) (crc (key @ stored)) = Inr stored"
proof -
  have k: "unat (word_of_nat (length key) :: u16) = length key"
    and s: "unat (word_of_nat (length stored) :: u32) = length stored"
    and o: "unat (word_of_nat (length pre) :: u64) = length pre"
    using fits len by (simp_all add: rec_fits_def unat_of_nat)
  have "bslice (pre @ enc_rec crc key stored ll fl @ rest) (length pre)
      (length pre + (HEADER_LEN + length key + length stored)) = enc_rec crc key stored ll fl"
    by (simp add: bslice_def)
  then show ?thesis
    by (simp add: read_at_def rec_of_def k s o Let_def) (simp add: enc_rec_def bslice_def)
qed

text \<open>What a scan returns, a read at the reported address returns too.\<close>

lemma scan_read:
  assumes "r \<in> set (fst (scan_records crc seg 0 buf))" and "length buf < 2 ^ 64"
  shows "read_at crc buf (rr_addr r) (rr_crc r) = Inr (rr_stored r)" and "ra_seg_id (rr_addr r) = seg"
    and "rec_fits (rr_key r) (rr_stored r)"
proof -
  obtain k s l f pre rest where r: "rec_fits k s" "buf = pre @ enc_rec crc k s l f @ rest"
    "r = rec_of crc seg (length pre) k s l f"
    using scan_records_mem [OF assms(1)] by auto
  have "length pre < 2 ^ 64" using assms(2) r(2) by simp
  from read_at_enc [OF r(1) this, of crc l f rest seg] r
  show "read_at crc buf (rr_addr r) (rr_crc r) = Inr (rr_stored r)" by simp
  show "ra_seg_id (rr_addr r) = seg" "rec_fits (rr_key r) (rr_stored r)" using r by simp_all
qed

end
