(* ===== verification/Engine.thy ===== *)
theory Engine
  imports Segment "HOL-Library.Product_Lexorder"
begin

text \<open>
  The disk engine (\<open>ozd-engine/src/lib.rs\<close>): index rows, \<open>DiskEngine::open\<close> with recovery, and
  every operation of its \<open>ShardEngine\<close> implementation, garbage collection included.

  \<open>redb\<close>, \<open>crc32fast\<close> and \<open>zstd\<close> are parameters, gathered in the record \<open>engine_env\<close>: an
  ordered key-value table is a record of operations \<open>kv_ops\<close> over an abstract table type.
  A write transaction takes one outcome of the general fault stream and either commits as a
  whole or leaves the index as it was; a read transaction takes one outcome of the stream
  \<open>en_index_faults\<close>. Tables exist once \<open>open\<close> has created them. Mutexes and atomics are the
  atomicity of the steps of the model; the points where the code releases them
  (between the phases of \<open>put\<close>, of \<open>get\<close> and of a garbage-collection pass) are separate
  definitions or take the actions of other threads as an argument.
\<close>

section \<open>Environment\<close>

record ('t, 'v) kv_ops =
  kv_empty :: 't
  kv_get :: "'t \<Rightarrow> bytes \<Rightarrow> 'v option"
  kv_insert :: "'t \<Rightarrow> bytes \<Rightarrow> 'v \<Rightarrow> 't"
  kv_remove :: "'t \<Rightarrow> bytes \<Rightarrow> 't"
  kv_range :: "'t \<Rightarrow> bytes \<Rightarrow> (bytes \<times> 'v) list"

record ('t, 'm) engine_env =
  ee_crc :: "bytes \<Rightarrow> u32"
  ee_compress :: "bytes \<Rightarrow> bytes option"
  ee_decompress :: "bytes \<Rightarrow> nat \<Rightarrow> bytes option"
  ee_kv :: "('t, bytes) kv_ops"
  ee_meta :: "('m, u64) kv_ops"

section \<open>Index rows\<close>

record addr_entry =
  ae_addr :: record_addr
  ae_crc :: u32
  ae_logical_len :: u32
  ae_flags :: u16
  ae_obj_logical :: "u64 option"

datatype lookup = LInline bytes | LAddr addr_entry | LMissing

definition encode_addr :: "addr_entry \<Rightarrow> bytes" where
  "encode_addr e =
     le32 (ra_seg_id (ae_addr e)) @ le64 (ra_offset (ae_addr e)) @ le32 (ra_stored_len (ae_addr e))
     @ le16 (ra_key_len (ae_addr e)) @ le32 (ae_crc e) @ le32 (ae_logical_len e) @ le16 (ae_flags e)
     @ (case ae_obj_logical e of None \<Rightarrow> [] | Some obj \<Rightarrow> le64 obj)"

definition decode_addr :: "bytes \<Rightarrow> addr_entry option" where
  "decode_addr v =
     (if length v \<noteq> 22 \<and> length v \<noteq> 28 \<and> length v \<noteq> 36 then None
      else
        let addr = \<lparr>ra_seg_id = un_le32 (bslice v 0 4), ra_offset = un_le64 (bslice v 4 12),
                    ra_stored_len = un_le32 (bslice v 12 16), ra_key_len = un_le16 (bslice v 16 18)\<rparr>;
            (logical_len, flags) =
              (if 28 \<le> length v then (un_le32 (bslice v 22 26), un_le16 (bslice v 26 28))
               else (ra_stored_len addr, 0));
            obj_logical = (if length v = 36 then Some (un_le64 (bslice v 28 36)) else None) in
        Some \<lparr>ae_addr = addr, ae_crc = un_le32 (bslice v 18 22), ae_logical_len = logical_len,
              ae_flags = flags, ae_obj_logical = obj_logical\<rparr>)"

section \<open>Configuration and state\<close>

text \<open>
  Paths are reduced to what the code asks of them: whether a failover directory is
  configured. \<open>index_path\<close> only selects the directory \<open>redb\<close> uses.
\<close>

record engine_config =
  ec_segment_max_size :: nat
  ec_inline_min :: u32
  ec_fsync_items :: nat
  ec_compress_zstd :: bool
  ec_compress_min :: nat
  ec_ballast_bytes :: nat
  ec_failover :: bool
  ec_fadvise_dontneed :: bool

definition engine_config_default :: engine_config where
  "engine_config_default =
     \<lparr>ec_segment_max_size = 2 * 1024 * 1024 * 1024, ec_inline_min = 4096, ec_fsync_items = 256,
      ec_compress_zstd = False, ec_compress_min = 512, ec_ballast_bytes = 0, ec_failover = False,
      ec_fadvise_dontneed = False\<rparr>"

record ('t, 'm) index =
  ix_addr :: 't
  ix_inline :: 't
  ix_meta :: 'm
  ix_cursor :: 't

record ('t, 'm) engine =
  en_cfg :: engine_config
  en_disk :: disk
  en_index :: "('t, 'm) index"
  en_index_faults :: "outcome list"
  en_ballast_present :: bool
  en_used_bytes :: nat
  en_gc_pass_count :: u32

type_synonym ('t, 'm, 'a) eng_op = "('t, 'm) engine \<times> 'a domain_result"

definition io_text :: "io_error \<Rightarrow> string" where
  "io_text e = (case e of
     Enospc \<Rightarrow> ''No space left on device (os error 28)''
   | InvalidData \<Rightarrow> ''segment record crc mismatch (bitrot?)''
   | UnexpectedEof \<Rightarrow> ''failed to fill whole buffer''
   | NoSuchFile \<Rightarrow> ''No such file or directory (os error 2)''
   | OtherIo m \<Rightarrow> m)"

definition io_err :: "io_error \<Rightarrow> domain_error" where
  "io_err e = Io (io_text e)"

definition is_enospc :: "io_error \<Rightarrow> bool" where
  "is_enospc e \<longleftrightarrow> e = Enospc"

text \<open>Run an operation of the segment layer on the engine's disk.\<close>

definition on_disk :: "(disk \<Rightarrow> 'a io) \<Rightarrow> ('t, 'm) engine \<Rightarrow> ('t, 'm) engine \<times> (io_error + 'a)" where
  "on_disk f e = (case f (en_disk e) of (d, r) \<Rightarrow> (e\<lparr>en_disk := d\<rparr>, r))"

text \<open>A read transaction, and a write transaction that commits atomically.\<close>

definition db_read :: "('t, 'm) engine \<Rightarrow> (('t, 'm) index \<Rightarrow> 'a) \<Rightarrow> ('t, 'm, 'a) eng_op" where
  "db_read e f = (case next_outcome (en_index_faults e) of
     (Pass, fs) \<Rightarrow> (e\<lparr>en_index_faults := fs\<rparr>, Inr (f (en_index e)))
   | (Fault er n, fs) \<Rightarrow> (e\<lparr>en_index_faults := fs\<rparr>, Inl (io_err er)))"

definition db_write :: "('t, 'm) engine \<Rightarrow> (('t, 'm) index \<Rightarrow> ('t, 'm) index \<times> 'a) \<Rightarrow> ('t, 'm, 'a) eng_op" where
  "db_write e f = and_then (map_err io_err (on_disk io_try e)) (\<lambda>_ e.
     case f (en_index e) of (ix, a) \<Rightarrow> (e\<lparr>en_index := ix\<rparr>, Inr a))"

definition seg_dir_of :: "disk \<Rightarrow> bool \<Rightarrow> u32 \<Rightarrow> dir" where
  "seg_dir_of d failover i =
     (if file_at d Primary i \<noteq> None then Primary
      else if failover \<and> file_at d Failover i \<noteq> None then Failover
      else Primary)"

section \<open>Capacity and ballast\<close>

definition fs_free_bytes :: "disk \<Rightarrow> nat option" where
  "fs_free_bytes d = map_option (\<lambda>(bsize, blocks, bavail). (bavail * bsize) mod 2 ^ 64) (fs_statvfs d)"

definition fs_total_bytes :: "disk \<Rightarrow> nat option" where
  "fs_total_bytes d = map_option (\<lambda>(bsize, blocks, bavail). (blocks * bsize) mod 2 ^ 64) (fs_statvfs d)"

definition unwrap_or :: "'a option \<Rightarrow> 'a \<Rightarrow> 'a" where
  "unwrap_or o' a = (case o' of None \<Rightarrow> a | Some b \<Rightarrow> b)"

definition remove_ballast :: "disk \<Rightarrow> unit io" where
  "remove_ballast d = and_then (io_try d) (\<lambda>_ d.
     case fs_ballast d of None \<Rightarrow> (d, Inl NoSuchFile) | Some n \<Rightarrow> (d\<lparr>fs_ballast := None\<rparr>, Inr ()))"

text \<open>
  Creating the ballast: create the file, write its pseudo-random contents (only the length is
  kept), sync. A failure removes what was written.
\<close>

definition create_ballast :: "nat \<Rightarrow> disk \<Rightarrow> disk \<times> bool" where
  "create_ballast n d =
     (case and_then (io_try d) (\<lambda>_ d. and_then (io_try (d\<lparr>fs_ballast := Some 0\<rparr>)) (\<lambda>_ d.
             io_try (d\<lparr>fs_ballast := Some n\<rparr>))) of
        (d, Inr u) \<Rightarrow> (d, True)
      | (d, Inl er) \<Rightarrow> (fst (remove_ballast d), False))"

definition ensure_ballast :: "engine_config \<Rightarrow> disk \<Rightarrow> disk \<times> bool" where
  "ensure_ballast cfg d =
     (if ec_ballast_bytes cfg = 0 then (fst (remove_ballast d), False)
      else case io_try d of
        (d, r) \<Rightarrow>
          (if r = Inr () \<and> fs_ballast d = Some (ec_ballast_bytes cfg) then (d, True)
           else
             let d = (if r = Inr () \<and> fs_ballast d \<noteq> None then fst (remove_ballast d) else d) in
             if unwrap_or (fs_free_bytes d) 0 < min (2 * ec_ballast_bytes cfg) (2 ^ 64 - 1) then (d, False)
             else create_ballast (ec_ballast_bytes cfg) d))"

definition release_ballast_file :: "('t, 'm) engine \<Rightarrow> ('t, 'm) engine \<times> bool" where
  "release_ballast_file e =
     (if ec_ballast_bytes (en_cfg e) = 0 then (e, False)
      else case on_disk remove_ballast e of
        (e, Inr u) \<Rightarrow> (e\<lparr>en_ballast_present := False\<rparr>, True)
      | (e, Inl er) \<Rightarrow> (e, False))"

definition ballast_released :: "('t, 'm) engine \<Rightarrow> bool" where
  "ballast_released e \<longleftrightarrow> 0 < ec_ballast_bytes (en_cfg e) \<and> \<not> en_ballast_present e"

definition release_ballast :: "('t, 'm) engine \<Rightarrow> ('t, 'm, bool) eng_op" where
  "release_ballast e = (case release_ballast_file e of (e, b) \<Rightarrow> (e, Inr b))"

section \<open>Opening and recovery\<close>

text \<open>
  The body of a stored record: decompressed when the flag says so. \<open>unpack\<close> is the read side
  of \<open>get\<close> (it checks the length), \<open>recovered_obj_logical\<close> the probe \<open>open\<close> makes of a tail record.
\<close>

definition is_zstd :: "u16 \<Rightarrow> bool" where
  "is_zstd flags \<longleftrightarrow> flags AND FLAG_ZSTD \<noteq> 0"

definition recovered_obj_logical :: "('t, 'm) engine_env \<Rightarrow> recovered_record \<Rightarrow> u64 option" where
  "recovered_obj_logical E r =
     (let raw = (if is_zstd (rr_flags r) then ee_decompress E (rr_stored r) (unat (rr_logical_len r))
                 else Some (rr_stored r)) in
      map_option ph_logical_len (Option.bind raw parse_piece_header))"

definition recovered_entry :: "('t, 'm) engine_env \<Rightarrow> recovered_record \<Rightarrow> addr_entry" where
  "recovered_entry E r =
     \<lparr>ae_addr = rr_addr r, ae_crc = rr_crc r, ae_logical_len = rr_logical_len r, ae_flags = rr_flags r,
      ae_obj_logical = recovered_obj_logical E r\<rparr>"

definition recover_index ::
  "('t, 'm) engine_env \<Rightarrow> recovered_record list \<Rightarrow> ('t, 'm) index \<Rightarrow> ('t, 'm) index" where
  "recover_index E rs ix =
     ix\<lparr>ix_addr := fold (\<lambda>r t. kv_insert (ee_kv E) t (rr_key r) (encode_addr (recovered_entry E r))) rs (ix_addr ix)\<rparr>"

definition empty_index :: "('t, 'm) engine_env \<Rightarrow> ('t, 'm) index" where
  "empty_index E = \<lparr>ix_addr = kv_empty (ee_kv E), ix_inline = kv_empty (ee_kv E),
     ix_meta = kv_empty (ee_meta E), ix_cursor = kv_empty (ee_kv E)\<rparr>"

text \<open>
  \<open>DiskEngine::open\<close> on what is on disk: the segment files and the stored index (\<open>empty_index\<close>
  on a fresh one). Outcomes: index directory, database, table creation, then the writer,
  the ballast, and the recovery transaction.
\<close>

definition engine_open ::
  "('t, 'm) engine_env \<Rightarrow> engine_config \<Rightarrow> disk \<Rightarrow> ('t, 'm) index \<Rightarrow> outcome list \<Rightarrow> ('t, 'm) engine \<times> unit domain_result" where
  "engine_open E cfg d ix index_faults =
     (let e = \<lparr>en_cfg = cfg, en_disk = d, en_index = ix, en_index_faults = index_faults,
               en_ballast_present = False, en_used_bytes = 0, en_gc_pass_count = 0\<rparr> in
      and_then (map_err io_err (on_disk io_try e)) (\<lambda>_ e.
      and_then (map_err io_err (on_disk io_try e)) (\<lambda>_ e.
      and_then (db_write e (\<lambda>ix. (ix, ()))) (\<lambda>_ e.
      and_then (map_err io_err (on_disk (seg_open (ee_crc E) (ec_failover cfg) (ec_segment_max_size cfg)
                  (ec_fsync_items cfg) (ec_fadvise_dontneed cfg)) e)) (\<lambda>recovered e.
        let (d, present) = ensure_ballast cfg (en_disk e);
            e = e\<lparr>en_disk := d, en_ballast_present := present\<rparr> in
        and_then (if recovered = [] then (e, Inr ())
                  else db_write e (\<lambda>ix. (recover_index E recovered ix, ())))
          (\<lambda>_ e. (e\<lparr>en_used_bytes := sw_len (en_disk e)\<rparr>, Inr ())))))))"

section \<open>Lookup\<close>

definition lookup_row :: "('t, 'm) engine_env \<Rightarrow> ('t, 'm) index \<Rightarrow> block_key \<Rightarrow> lookup domain_result" where
  "lookup_row E ix key = (case kv_get (ee_kv E) (ix_inline ix) key of
     Some v \<Rightarrow> Inr (LInline v)
   | None \<Rightarrow> (case kv_get (ee_kv E) (ix_addr ix) key of
        None \<Rightarrow> Inr LMissing
      | Some v \<Rightarrow> (case decode_addr v of
           None \<Rightarrow> Inl (Io ''bad addr entry'')
         | Some ae \<Rightarrow> Inr (LAddr ae))))"

definition lookup :: "('t, 'm) engine_env \<Rightarrow> ('t, 'm) engine \<Rightarrow> block_key \<Rightarrow> ('t, 'm, lookup) eng_op" where
  "lookup E e key = and_then (db_read e (\<lambda>ix. lookup_row E ix key)) (\<lambda>r e. (e, r))"

section \<open>Segments on disk\<close>

text \<open>\<open>read_dir\<close> of one directory, in the order of the file list; a failing \<open>metadata\<close> gives size 0.\<close>

fun sealed_in :: "dir \<Rightarrow> u32 \<Rightarrow> ((dir \<times> u32) \<times> bytes) list \<Rightarrow> disk \<Rightarrow> disk \<times> (u32 \<times> nat) list" where
  "sealed_in dr active [] d = (d, [])"
| "sealed_in dr active (((dr', i), c) # fs) d =
     (if dr' = dr \<and> i \<noteq> active then
        let (d, r) = io_try d;
            (d, rest) = sealed_in dr active fs d in
        (d, (i, if r = Inr () then length c else 0) # rest)
      else sealed_in dr active fs d)"

definition sealed_dir :: "dir \<Rightarrow> disk \<Rightarrow> disk \<times> (u32 \<times> nat) list" where
  "sealed_dir dr d = (case io_try d of
     (d, Inl er) \<Rightarrow> (d, [])
   | (d, Inr u) \<Rightarrow> sealed_in dr (sw_seg_id d) (fs_files d) d)"

definition sealed_segments :: "('t, 'm) engine \<Rightarrow> ('t, 'm) engine \<times> (u32 \<times> nat) list" where
  "sealed_segments e =
     (let (d, ps) = sealed_dir Primary (en_disk e);
          (d, fs) = (if ec_failover (en_cfg e) then sealed_dir Failover d else (d, [])) in
      (e\<lparr>en_disk := d\<rparr>, ps @ fs))"

definition ascii :: "string \<Rightarrow> bytes" where
  "ascii s = map (\<lambda>c. word_of_nat (of_char c)) s"

definition discard_key :: "u32 \<Rightarrow> bytes" where
  "discard_key i = ascii (''discard.'' @ show_nat (unat i))"

definition discard_row :: "('t, 'm) engine_env \<Rightarrow> ('t, 'm) index \<Rightarrow> u32 \<Rightarrow> u64" where
  "discard_row E ix i = unwrap_or (kv_get (ee_meta E) (ix_meta ix) (discard_key i)) 0"

definition discard_of :: "('t, 'm) engine_env \<Rightarrow> ('t, 'm) engine \<Rightarrow> u32 \<Rightarrow> ('t, 'm, u64) eng_op" where
  "discard_of E e i = db_read e (\<lambda>ix. discard_row E ix i)"

definition bump_in :: "('t, 'm) engine_env \<Rightarrow> u32 \<Rightarrow> u64 \<Rightarrow> ('t, 'm) index \<Rightarrow> ('t, 'm) index" where
  "bump_in E i n ix =
     ix\<lparr>ix_meta := kv_insert (ee_meta E) (ix_meta ix) (discard_key i) (discard_row E ix i + n)\<rparr>"

definition bump_old :: "('t, 'm) engine_env \<Rightarrow> bytes option \<Rightarrow> ('t, 'm) index \<Rightarrow> ('t, 'm) index" where
  "bump_old E old ix = (case Option.bind old decode_addr of
     None \<Rightarrow> ix
   | Some ae \<Rightarrow> bump_in E (ra_seg_id (ae_addr ae)) (ucast (ra_stored_len (ae_addr ae))) ix)"

fun ref_add :: "u32 \<Rightarrow> (u32 \<times> nat) list \<Rightarrow> (u32 \<times> nat) list" where
  "ref_add i [] = [(i, 1)]"
| "ref_add i ((j, n) # rs) =
     (if i = j then (j, n + 1) # rs else if i < j then (i, 1) # (j, n) # rs else (j, n) # ref_add i rs)"

definition ref_rows :: "(bytes \<times> bytes) list \<Rightarrow> (u32 \<times> nat) list" where
  "ref_rows rows = fold (\<lambda>(k, v) refs. case decode_addr v of
     None \<Rightarrow> refs | Some ae \<Rightarrow> ref_add (ra_seg_id (ae_addr ae)) refs) rows []"

definition referenced_segments :: "('t, 'm) engine_env \<Rightarrow> ('t, 'm) engine \<Rightarrow> ('t, 'm, (u32 \<times> nat) list) eng_op" where
  "referenced_segments E e = db_read e (\<lambda>ix. ref_rows (kv_range (ee_kv E) (ix_addr ix) []))"

section \<open>Writing\<close>

text \<open>The transaction of an inline write: body into the inline table, a former address row is dropped.\<close>

definition inline_txn :: "('t, 'm) engine_env \<Rightarrow> block_key \<Rightarrow> bytes \<Rightarrow> ('t, 'm) index \<Rightarrow> ('t, 'm) index" where
  "inline_txn E key data ix =
     (let old = kv_get (ee_kv E) (ix_addr ix) key;
          ix = ix\<lparr>ix_inline := kv_insert (ee_kv E) (ix_inline ix) key data,
                  ix_addr := kv_remove (ee_kv E) (ix_addr ix) key\<rparr> in
      bump_old E old ix)"

text \<open>The transaction of a segment write: the new address row, a former inline body is dropped.\<close>

definition addr_txn :: "('t, 'm) engine_env \<Rightarrow> block_key \<Rightarrow> addr_entry \<Rightarrow> ('t, 'm) index \<Rightarrow> ('t, 'm) index" where
  "addr_txn E key entry ix =
     (let old = kv_get (ee_kv E) (ix_addr ix) key;
          ix = ix\<lparr>ix_addr := kv_insert (ee_kv E) (ix_addr ix) key (encode_addr entry),
                  ix_inline := kv_remove (ee_kv E) (ix_inline ix) key\<rparr> in
      bump_old E old ix)"

text \<open>The stored bytes of a body and their flags: compressed only if that makes it shorter.\<close>

definition pack_body :: "('t, 'm) engine_env \<Rightarrow> engine_config \<Rightarrow> bytes \<Rightarrow> bytes \<times> u16" where
  "pack_body E cfg data =
     (if ec_compress_zstd cfg \<and> ec_compress_min cfg \<le> length data then
        (case ee_compress E data of
           None \<Rightarrow> (data, 0)
         | Some c \<Rightarrow> if length c < length data then (c, FLAG_ZSTD) else (data, 0))
      else (data, 0))"

text \<open>
  \<open>put_impl\<close> in its two phases. \<open>put_append\<close> appends the body under the writer lock (a full
  disk releases the ballast and retries once); \<open>put_index\<close> publishes it in the index.
\<close>

definition put_append ::
  "('t, 'm) engine_env \<Rightarrow> ('t, 'm) engine \<Rightarrow> block_key \<Rightarrow> bytes \<Rightarrow> u64 option \<Rightarrow> ('t, 'm, addr_entry) eng_op" where
  "put_append E e key data obj_logical =
     (let logical_len = word_of_nat (length data);
          (stored, flags) = pack_body E (en_cfg e) data;
          append = on_disk (append_with_flags (ee_crc E) key stored logical_len flags) in
      and_then (case append e of
                  (e, Inr r) \<Rightarrow> (e, Inr r)
                | (e, Inl er) \<Rightarrow>
                    if is_enospc er then
                      (case release_ballast_file e of
                         (e, released) \<Rightarrow> if released then map_err io_err (append e) else (e, Inl (io_err er)))
                    else (e, Inl (io_err er)))
        (\<lambda>(addr, c) e.
           (e\<lparr>en_used_bytes := (en_used_bytes e + length stored) mod 2 ^ 64\<rparr>,
            Inr \<lparr>ae_addr = addr, ae_crc = c, ae_logical_len = logical_len, ae_flags = flags,
                 ae_obj_logical = obj_logical\<rparr>)))"

definition put_index ::
  "('t, 'm) engine_env \<Rightarrow> ('t, 'm) engine \<Rightarrow> block_key \<Rightarrow> addr_entry \<Rightarrow> ('t, 'm, unit) eng_op" where
  "put_index E e key entry = db_write e (\<lambda>ix. (addr_txn E key entry ix, ()))"

definition put_impl ::
  "('t, 'm) engine_env \<Rightarrow> ('t, 'm) engine \<Rightarrow> block_key \<Rightarrow> bytes \<Rightarrow> u64 option \<Rightarrow> ('t, 'm, unit) eng_op" where
  "put_impl E e key data obj_logical =
     (if obj_logical = None \<and> (word_of_nat (length data) :: u32) < ec_inline_min (en_cfg e)
      then db_write e (\<lambda>ix. (inline_txn E key data ix, ()))
      else and_then (put_append E e key data obj_logical) (\<lambda>entry e. put_index E e key entry))"

definition engine_put :: "('t, 'm) engine_env \<Rightarrow> ('t, 'm) engine \<Rightarrow> block_key \<Rightarrow> bytes \<Rightarrow> ('t, 'm, unit) eng_op" where
  "engine_put E e key data = put_impl E e key data None"

definition engine_put_meta ::
  "('t, 'm) engine_env \<Rightarrow> ('t, 'm) engine \<Rightarrow> block_key \<Rightarrow> bytes \<Rightarrow> u64 option \<Rightarrow> ('t, 'm, unit) eng_op" where
  "engine_put_meta E e key data obj_logical = put_impl E e key data obj_logical"

definition delete_txn :: "('t, 'm) engine_env \<Rightarrow> block_key \<Rightarrow> ('t, 'm) index \<Rightarrow> ('t, 'm) index" where
  "delete_txn E key ix =
     (let old = kv_get (ee_kv E) (ix_addr ix) key;
          ix = ix\<lparr>ix_addr := kv_remove (ee_kv E) (ix_addr ix) key,
                  ix_inline := kv_remove (ee_kv E) (ix_inline ix) key\<rparr> in
      bump_old E old ix)"

definition engine_delete :: "('t, 'm) engine_env \<Rightarrow> ('t, 'm) engine \<Rightarrow> block_key \<Rightarrow> ('t, 'm, unit) eng_op" where
  "engine_delete E e key = db_write e (\<lambda>ix. (delete_txn E key ix, ()))"

definition engine_set_obj_logical ::
  "('t, 'm) engine_env \<Rightarrow> ('t, 'm) engine \<Rightarrow> block_key \<Rightarrow> u64 \<Rightarrow> ('t, 'm, bool) eng_op" where
  "engine_set_obj_logical E e key obj = db_write e (\<lambda>ix.
     case Option.bind (kv_get (ee_kv E) (ix_addr ix) key) decode_addr of
       None \<Rightarrow> (ix, False)
     | Some ae \<Rightarrow>
         if ae_obj_logical ae \<noteq> Some obj then
           (ix\<lparr>ix_addr := kv_insert (ee_kv E) (ix_addr ix) key (encode_addr (ae\<lparr>ae_obj_logical := Some obj\<rparr>))\<rparr>, True)
         else (ix, False))"

section \<open>Reading\<close>

definition unpack :: "('t, 'm) engine_env \<Rightarrow> addr_entry \<Rightarrow> bytes \<Rightarrow> bytes domain_result" where
  "unpack E ae stored =
     (if is_zstd (ae_flags ae) then
        (case ee_decompress E stored (unat (ae_logical_len ae)) of
           None \<Rightarrow> Inl (IntegrityViolation ''zstd: decompression failed'')
         | Some out \<Rightarrow>
             if length out \<noteq> unat (ae_logical_len ae) then Inl (IntegrityViolation ''zstd: logical length mismatch'')
             else Inr out)
      else Inr stored)"

definition read_entry :: "('t, 'm) engine_env \<Rightarrow> ('t, 'm) engine \<Rightarrow> addr_entry \<Rightarrow> ('t, 'm) engine \<times> (io_error + bytes)" where
  "read_entry E e ae =
     on_disk (\<lambda>d. read_record (ee_crc E) (seg_dir_of d (ec_failover (en_cfg e)) (ra_seg_id (ae_addr ae)))
                    (ae_addr ae) (ae_crc ae) d) e"

text \<open>The text of a key in an error message: its bytes as characters.\<close>

definition key_text :: "block_key \<Rightarrow> string" where
  "key_text k = map (\<lambda>b. char_of (unat b)) k"

text \<open>
  \<open>get\<close>: at most two attempts, the second only if the address has changed since the first.
  \<open>others\<close> gives, per attempt, what other threads do between the lookup and the read
  (a garbage collection that moves the record and unlinks its file, say).
\<close>

fun get_attempts ::
  "('t, 'm) engine_env \<Rightarrow> block_key \<Rightarrow> addr_entry option \<Rightarrow> (('t, 'm) engine \<Rightarrow> ('t, 'm) engine) list
     \<Rightarrow> ('t, 'm) engine \<Rightarrow> ('t, 'm, bytes) eng_op" where
  "get_attempts E key prev [] e = (e, Inl (Io ''record unreadable after re-lookup''))"
| "get_attempts E key prev (others # rest) e =
     and_then (lookup E e key) (\<lambda>l e. case l of
       LInline v \<Rightarrow> (e, Inr v)
     | LMissing \<Rightarrow> (e, Inl NotFound)
     | LAddr ae \<Rightarrow>
         if prev = Some ae then (e, Inl (Io ''record unreadable after re-lookup''))
         else case read_entry E (others e) ae of
           (e, Inr stored) \<Rightarrow> (e, unpack E ae stored)
         | (e, Inl er) \<Rightarrow>
             if er = InvalidData then (e, Inl (Corrupt (key_text key @ '': '' @ io_text er)))
             else get_attempts E key (Some ae) rest e)"

definition engine_get_racing ::
  "('t, 'm) engine_env \<Rightarrow> (('t, 'm) engine \<Rightarrow> ('t, 'm) engine) \<Rightarrow> (('t, 'm) engine \<Rightarrow> ('t, 'm) engine)
     \<Rightarrow> ('t, 'm) engine \<Rightarrow> block_key \<Rightarrow> ('t, 'm, bytes) eng_op" where
  "engine_get_racing E others1 others2 e key = get_attempts E key None [others1, others2] e"

definition engine_get :: "('t, 'm) engine_env \<Rightarrow> ('t, 'm) engine \<Rightarrow> block_key \<Rightarrow> ('t, 'm, bytes) eng_op" where
  "engine_get E e key = engine_get_racing E id id e key"

definition engine_has :: "('t, 'm) engine_env \<Rightarrow> ('t, 'm) engine \<Rightarrow> block_key \<Rightarrow> ('t, 'm, bool) eng_op" where
  "engine_has E e key = db_read e (\<lambda>ix.
     kv_get (ee_kv E) (ix_inline ix) key \<noteq> None \<or> kv_get (ee_kv E) (ix_addr ix) key \<noteq> None)"

definition engine_stat :: "('t, 'm) engine_env \<Rightarrow> ('t, 'm) engine \<Rightarrow> block_key \<Rightarrow> ('t, 'm, nat) eng_op" where
  "engine_stat E e key = and_then (lookup E e key) (\<lambda>l e. (e, case l of
     LInline v \<Rightarrow> Inr (length v)
   | LAddr ae \<Rightarrow> Inr (unat (ae_logical_len ae))
   | LMissing \<Rightarrow> Inl NotFound))"

definition engine_stat_obj ::
  "('t, 'm) engine_env \<Rightarrow> ('t, 'm) engine \<Rightarrow> block_key \<Rightarrow> ('t, 'm, nat \<times> u64 option) eng_op" where
  "engine_stat_obj E e key = and_then (lookup E e key) (\<lambda>l e. (e, case l of
     LInline v \<Rightarrow> Inr (length v, None)
   | LAddr ae \<Rightarrow> Inr (unat (ae_logical_len ae), ae_obj_logical ae)
   | LMissing \<Rightarrow> Inl NotFound))"

text \<open>
  \<open>list\<close>: the address table from the start key until the first key without the prefix or until
  \<open>limit\<close> keys are out, then the inline table until the first key without the prefix; sorted,
  one row per key, truncated.
\<close>

definition addr_row_size :: "bytes \<Rightarrow> nat" where
  "addr_row_size v = (case decode_addr v of
     None \<Rightarrow> 0
   | Some ae \<Rightarrow> (case ae_obj_logical ae of None \<Rightarrow> unat (ae_logical_len ae) | Some obj \<Rightarrow> unat obj))"

fun list_addr :: "bytes \<Rightarrow> nat \<Rightarrow> (block_key \<times> bytes) list \<Rightarrow> (block_key \<times> nat) list \<Rightarrow> (block_key \<times> nat) list" where
  "list_addr prefix limit [] out = out"
| "list_addr prefix limit ((k, v) # rows) out =
     (if \<not> starts_with k prefix then out
      else
        let out = out @ [(k, addr_row_size v)] in
        if length out < limit then list_addr prefix limit rows out else out)"

fun list_inline :: "bytes \<Rightarrow> (block_key \<times> bytes) list \<Rightarrow> (block_key \<times> nat) list \<Rightarrow> (block_key \<times> nat) list" where
  "list_inline prefix [] out = out"
| "list_inline prefix ((k, v) # rows) out =
     (if \<not> starts_with k prefix then out else list_inline prefix rows (out @ [(k, length v)]))"

text \<open>\<open>dedup_by\<close> on the key: of consecutive rows with one key the first stays.\<close>

fun dedup_keys :: "(block_key \<times> nat) list \<Rightarrow> (block_key \<times> nat) list" where
  "dedup_keys (a # b # xs) = (if fst a = fst b then dedup_keys (a # xs) else a # dedup_keys (b # xs))"
| "dedup_keys xs = xs"

definition list_start :: "bytes \<Rightarrow> block_key option \<Rightarrow> bytes" where
  "list_start prefix after = (case after of Some k \<Rightarrow> k @ [0] | None \<Rightarrow> prefix)"

definition list_rows ::
  "('t, 'm) engine_env \<Rightarrow> ('t, 'm) index \<Rightarrow> bytes \<Rightarrow> block_key option \<Rightarrow> nat \<Rightarrow> (block_key \<times> nat) list" where
  "list_rows E ix prefix after limit =
     (let start = list_start prefix after;
          out = list_addr prefix limit (kv_range (ee_kv E) (ix_addr ix) start) [];
          out = list_inline prefix (kv_range (ee_kv E) (ix_inline ix) start) out in
      take limit (dedup_keys (sort out)))"

definition engine_list ::
  "('t, 'm) engine_env \<Rightarrow> ('t, 'm) engine \<Rightarrow> bytes \<Rightarrow> block_key option \<Rightarrow> nat \<Rightarrow> ('t, 'm, (block_key \<times> nat) list) eng_op" where
  "engine_list E e prefix after limit = db_read e (\<lambda>ix. list_rows E ix prefix after limit)"

definition engine_usage :: "('t, 'm) engine \<Rightarrow> ('t, 'm, capacity) eng_op" where
  "engine_usage e = (e, Inr \<lparr>total_bytes = unwrap_or (fs_total_bytes (en_disk e)) 0,
                            free_bytes = unwrap_or (fs_free_bytes (en_disk e)) 0\<rparr>)"

definition engine_flush :: "('t, 'm) engine \<Rightarrow> ('t, 'm, unit) eng_op" where
  "engine_flush e = map_err io_err (on_disk seg_flush e)"

definition engine_data_bytes :: "('t, 'm) engine \<Rightarrow> ('t, 'm, nat) eng_op" where
  "engine_data_bytes e =
     (let active = sw_len (en_disk e);
          (e, sealed) = sealed_segments e in
      (e, Inr (sum_list (map snd sealed) + active)))"

definition engine_save_cursor ::
  "('t, 'm) engine_env \<Rightarrow> ('t, 'm) engine \<Rightarrow> string \<Rightarrow> block_key option \<Rightarrow> ('t, 'm, unit) eng_op" where
  "engine_save_cursor E e name pos = db_write e (\<lambda>ix.
     (ix\<lparr>ix_cursor := (case pos of
           Some k \<Rightarrow> kv_insert (ee_kv E) (ix_cursor ix) (ascii name) k
         | None \<Rightarrow> kv_remove (ee_kv E) (ix_cursor ix) (ascii name))\<rparr>, ()))"

definition engine_load_cursor ::
  "('t, 'm) engine_env \<Rightarrow> ('t, 'm) engine \<Rightarrow> string \<Rightarrow> ('t, 'm, block_key option) eng_op" where
  "engine_load_cursor E e name = db_read e (\<lambda>ix. kv_get (ee_kv E) (ix_cursor ix) (ascii name))"

section \<open>Verification\<close>

fun scrub_keys :: "('t, 'm) engine_env \<Rightarrow> block_key list \<Rightarrow> scrub_step \<Rightarrow> ('t, 'm) engine \<Rightarrow> ('t, 'm) engine \<times> scrub_step" where
  "scrub_keys E [] st e = (e, st)"
| "scrub_keys E (k # ks) st e = (case engine_get E e k of
     (e, Inr d) \<Rightarrow> scrub_keys E ks (st\<lparr>ss_checked := ss_checked st + 1, ss_bytes := ss_bytes st + length d\<rparr>) e
   | (e, Inl er) \<Rightarrow>
       if er = NotFound then scrub_keys E ks st e
       else scrub_keys E ks (st\<lparr>ss_corrupt := ss_corrupt st @ [k]\<rparr>) e)"

definition engine_scrub_step ::
  "('t, 'm) engine_env \<Rightarrow> ('t, 'm) engine \<Rightarrow> block_key option \<Rightarrow> nat \<Rightarrow> ('t, 'm, scrub_step) eng_op" where
  "engine_scrub_step E e after limit = and_then (engine_list E e [] after limit) (\<lambda>rows e.
     let keys = map fst rows;
         st = \<lparr>ss_checked = 0, ss_bytes = 0, ss_corrupt = [], ss_last_key = None, ss_done = (length keys < limit)\<rparr>;
         (e, st) = scrub_keys E keys st e in
     (e, Inr (st\<lparr>ss_last_key := (if keys = [] then None else Some (last keys))\<rparr>)))"

definition structure_of :: "(u32 \<times> nat) list \<Rightarrow> u32 \<Rightarrow> u32 list \<Rightarrow> structure_report" where
  "structure_of refs active files =
     (let missing = filter (\<lambda>(seg, n). seg \<notin> set files) refs in
      \<lparr>segments_referenced = length refs, segments_missing = map fst missing,
       keys_at_risk = sum_list (map snd missing),
       orphan_segments = filter (\<lambda>seg. seg \<noteq> active \<and> seg \<notin> fst ` set refs) files\<rparr>)"

definition engine_verify_structure :: "('t, 'm) engine_env \<Rightarrow> ('t, 'm) engine \<Rightarrow> ('t, 'm, structure_report) eng_op" where
  "engine_verify_structure E e = and_then (referenced_segments E e) (\<lambda>refs e.
     let active = sw_seg_id (en_disk e);
         (e, sealed) = sealed_segments e in
     (e, Inr (structure_of refs active (sort (remdups (active # map fst sealed))))))"

end
