(* ===== verification/Segment_Inv.thy ===== *)
theory Segment_Inv
  imports Segment
begin

text \<open>
  The invariant of a disk without failover directory and without failing appends, and what
  every writer operation keeps of it whatever else fails: segment files are sequences of
  complete records, the writer's length is the length of the active file, and files only grow.
\<close>

section \<open>Invariant\<close>

definition calm :: "outcome list \<Rightarrow> bool" where
  "calm fs \<longleftrightarrow> (\<forall>f \<in> set fs. f = Pass)"

text \<open>Largest segment a writer with \<open>max_size \<le> 2^63\<close> can produce; it keeps offsets below \<open>2^64\<close>.\<close>

definition SEG_LIMIT :: nat where "SEG_LIMIT = 2 ^ 63 + 2 ^ 33"

definition file_wf :: "(bytes \<Rightarrow> u32) \<Rightarrow> u32 \<Rightarrow> bytes \<Rightarrow> bool" where
  "file_wf crc i c \<longleftrightarrow> snd (scan_records crc i 0 c) = length c \<and> length c \<le> SEG_LIMIT"

definition disk_wf :: "(bytes \<Rightarrow> u32) \<Rightarrow> disk \<Rightarrow> bool" where
  "disk_wf crc d \<longleftrightarrow>
     \<not> sw_has_failover d \<and> sw_active_dir d = Primary \<and> sw_max_size d \<le> 2 ^ 63 \<and>
     calm (fs_append_faults d) \<and>
     (\<exists>c. file_at d Primary (sw_seg_id d) = Some c \<and> length c = sw_len d) \<and>
     (\<forall>i. file_at d Failover i = None) \<and>
     (\<forall>i c. file_at d Primary i = Some c \<longrightarrow> file_wf crc i c) \<and>
     (\<forall>i c. file_at d Primary i = Some c \<longrightarrow> sw_seg_id d < i \<longrightarrow> c = [])"

text \<open>Files only grow, at their end.\<close>

definition grows :: "disk \<Rightarrow> disk \<Rightarrow> bool" where
  "grows d d' \<longleftrightarrow> (\<forall>dr i c. file_at d dr i = Some c \<longrightarrow> (\<exists>ext. file_at d' dr i = Some (c @ ext)))"

text \<open>
  A step that moves only the recovery point, \<open>seg.meta\<close> and the stream of general faults;
  it cannot turn a fault-free stream into a faulty one.
\<close>

definition quiet_step :: "disk \<Rightarrow> disk \<Rightarrow> bool" where
  "quiet_step d d' \<longleftrightarrow> (\<exists>fo ui m f. d' = d\<lparr>sw_flush_offset := fo, sw_unflushed_items := ui,
     fs_meta := m, fs_faults := f\<rparr> \<and> (calm (fs_faults d) \<longrightarrow> calm f))"

section \<open>Quiet steps\<close>

lemma drop_page_cache_hint [simp]: "(if P then drop_page_cache off len d else d) = d"
  by (simp add: drop_page_cache_def)

lemma quietI:
  assumes "d' = d\<lparr>sw_flush_offset := fo, sw_unflushed_items := ui, fs_meta := m, fs_faults := f\<rparr>"
    and "calm (fs_faults d) \<Longrightarrow> calm f"
  shows "quiet_step d d'"
  unfolding quiet_step_def using assms by blast

lemma quietE:
  assumes "quiet_step d d'"
  obtains fo ui m f where "d' = d\<lparr>sw_flush_offset := fo, sw_unflushed_items := ui, fs_meta := m, fs_faults := f\<rparr>"
    and "calm (fs_faults d) \<Longrightarrow> calm f"
  using assms unfolding quiet_step_def by blast

lemma quiet_refl [simp, intro]: "quiet_step d d"
  by (rule quietI [where fo = "sw_flush_offset d" and ui = "sw_unflushed_items d" and m = "fs_meta d" and f = "fs_faults d"]) simp_all

lemma quiet_trans:
  assumes "quiet_step a b" and "quiet_step b c"
  shows "quiet_step a c"
  using assms by (elim quietE) (rule quietI; simp)

lemma quiet_sel:
  assumes "quiet_step d d'"
  shows "fs_files d' = fs_files d" "sw_has_failover d' = sw_has_failover d"
    "sw_active_dir d' = sw_active_dir d" "sw_seg_id d' = sw_seg_id d" "sw_len d' = sw_len d"
    "sw_max_size d' = sw_max_size d" "sw_fsync_items d' = sw_fsync_items d"
    "fs_append_faults d' = fs_append_faults d" "fs_ballast d' = fs_ballast d"
    "fs_statvfs d' = fs_statvfs d" "sw_failed_over d' = sw_failed_over d" "file_at d' = file_at d"
    "fs_read_faults d' = fs_read_faults d" "calm (fs_faults d) \<Longrightarrow> calm (fs_faults d')"
  using assms by (auto elim!: quietE simp: file_at_def fun_eq_iff)

lemma calm_next:
  assumes "calm fs"
  shows "next_outcome fs = (Pass, tl fs)" and "calm (tl fs)"
  using assms by (cases fs; simp add: calm_def)+

lemma quiet_io_try: "quiet_step d (fst (io_try d))"
proof -
  obtain o' fs where o: "next_outcome (fs_faults d) = (o', fs)" by (cases "next_outcome (fs_faults d)")
  have "fst (io_try d) = d\<lparr>fs_faults := fs\<rparr>" using o by (cases o') (simp_all add: io_try_def)
  moreover have "calm (fs_faults d) \<Longrightarrow> calm fs" using o calm_next by fastforce
  ultimately show ?thesis
    by (intro quietI [where fo = "sw_flush_offset d" and ui = "sw_unflushed_items d" and m = "fs_meta d" and f = fs]) simp_all
qed

lemma io_try_calm: "calm (fs_faults d) \<Longrightarrow> snd (io_try d) = Inr ()"
  by (simp add: io_try_def calm_next)

text \<open>
  The contract of the calls built from \<open>io_try\<close>: a quiet step from \<open>d\<close>, and an error only if a
  fault was pending in \<open>d\<close>.
\<close>

definition quiet_post :: "disk \<Rightarrow> 'a io \<Rightarrow> bool" where
  "quiet_post d m \<longleftrightarrow> post m (\<lambda>d' a. quiet_step d d') (\<lambda>d' e. quiet_step d d' \<and> \<not> calm (fs_faults d))"

lemma quiet_post_io_try:
  assumes "quiet_step d d1"
  shows "quiet_post d (io_try d1)"
  using quiet_trans [OF assms quiet_io_try] quiet_sel(14) [OF assms] io_try_calm [of d1]
  by (cases "io_try d1"; cases "snd (io_try d1)") (auto simp: quiet_post_def)

lemma quiet_post_and_then:
  assumes "quiet_post d m" and "\<And>d' a. quiet_step d d' \<Longrightarrow> quiet_post d (f a d')"
  shows "quiet_post d (and_then m f)"
  using assms unfolding quiet_post_def by (rule post_and_then)

lemma quiet_update:
  assumes "quiet_step d d1"
  shows "quiet_step d (d1\<lparr>fs_meta := m\<rparr>)"
    and "quiet_step d (d1\<lparr>sw_flush_offset := fo, sw_unflushed_items := ui\<rparr>)"
proof -
  obtain fo' ui' m' f where d1: "d1 = d\<lparr>sw_flush_offset := fo', sw_unflushed_items := ui', fs_meta := m', fs_faults := f\<rparr>"
    and c: "calm (fs_faults d) \<Longrightarrow> calm f"
    using assms by (rule quietE) blast
  show "quiet_step d (d1\<lparr>fs_meta := m\<rparr>)"
    by (rule quietI [where fo = fo' and ui = ui' and m = m and f = f]) (simp_all add: d1 c)
  show "quiet_step d (d1\<lparr>sw_flush_offset := fo, sw_unflushed_items := ui\<rparr>)"
    by (rule quietI [where fo = fo and ui = ui and m = m' and f = f]) (simp_all add: d1 c)
qed

lemma quiet_post_write_meta:
  assumes "quiet_step d d1"
  shows "quiet_post d (write_meta dr i off d1)"
  unfolding write_meta_def
  by (intro quiet_post_and_then quiet_post_io_try assms) (simp_all add: quiet_post_def quiet_update)

lemma quiet_post_flush:
  assumes "quiet_step d d1"
  shows "quiet_post d (seg_flush d1)"
proof (cases "sw_flush_offset d1 = sw_len d1 \<and> sw_unflushed_items d1 = 0")
  case True
  then show ?thesis using assms by (simp add: seg_flush_def quiet_post_def)
next
  case False
  then have eq: "seg_flush d1 = and_then (io_try d1) (\<lambda>_ d. write_meta (sw_active_dir d) (sw_seg_id d) (sw_len d)
      (d\<lparr>sw_flush_offset := sw_len d, sw_unflushed_items := 0\<rparr>))"
    by (auto simp: seg_flush_def Let_def)
  show ?thesis
    unfolding eq
    by (intro quiet_post_and_then quiet_post_io_try assms quiet_post_write_meta quiet_update)
qed

lemma disk_wf_quiet: "quiet_step d d' \<Longrightarrow> disk_wf crc d \<Longrightarrow> disk_wf crc d'"
  by (simp add: disk_wf_def quiet_sel)

lemma grows_quiet: "quiet_step d d' \<Longrightarrow> grows d d'"
  by (simp add: grows_def quiet_sel)

lemma grows_refl [simp, intro]: "grows d d"
  by (simp add: grows_def)

lemma grows_trans: "grows a b \<Longrightarrow> grows b c \<Longrightarrow> grows a c"
  unfolding grows_def by (metis append.assoc)

section \<open>Files\<close>

lemma file_at_set_file [simp]:
  "file_at (set_file dr i c d) dr' i' = (if dr' = dr \<and> i' = i then Some c else file_at d dr' i')"
  by (auto simp: file_at_def set_file_def update_conv')

lemma set_file_sel [simp]:
  "sw_has_failover (set_file dr i c d) = sw_has_failover d" "sw_active_dir (set_file dr i c d) = sw_active_dir d"
  "sw_seg_id (set_file dr i c d) = sw_seg_id d" "sw_len (set_file dr i c d) = sw_len d"
  "sw_max_size (set_file dr i c d) = sw_max_size d" "fs_append_faults (set_file dr i c d) = fs_append_faults d"
  "sw_fsync_items (set_file dr i c d) = sw_fsync_items d" "sw_unflushed_items (set_file dr i c d) = sw_unflushed_items d"
  "fs_faults (set_file dr i c d) = fs_faults d"
  by (simp_all add: set_file_def)

lemma file_wf_Nil [simp]: "file_wf crc i []"
  by (simp add: file_wf_def SEG_LIMIT_def)

lemma file_wf_snoc:
  assumes "file_wf crc i c" and "rec_fits key stored" and "length c \<le> 2 ^ 63"
  shows "file_wf crc i (c @ enc_rec crc key stored ll fl)"
    and "fst (scan_records crc i 0 (c @ enc_rec crc key stored ll fl)) =
         fst (scan_records crc i 0 c) @ [rec_of crc i (length c) key stored ll fl]"
proof -
  have s: "snd (scan_records crc i 0 c) = 0 + length c" using assms(1) by (simp add: file_wf_def)
  have one: "scan_records crc i (length c) (enc_rec crc key stored ll fl) =
      ([rec_of crc i (length c) key stored ll fl], length c + length (enc_rec crc key stored ll fl))"
    using scan_records_enc [OF assms(2), of crc i "length c" ll fl "[]"] by (simp add: Let_def)
  have "HEADER_LEN + length key + length stored \<le> 2 ^ 33"
    using assms(2) by (simp add: rec_fits_def HEADER_LEN_def)
  then show "file_wf crc i (c @ enc_rec crc key stored ll fl)"
    using assms(3) scan_records_append [OF s, of "enc_rec crc key stored ll fl"] one
    by (simp add: file_wf_def SEG_LIMIT_def)
  show "fst (scan_records crc i 0 (c @ enc_rec crc key stored ll fl)) =
         fst (scan_records crc i 0 c) @ [rec_of crc i (length c) key stored ll fl]"
    using scan_records_append [OF s, of "enc_rec crc key stored ll fl"] one by simp
qed

lemma scan_grows:
  assumes "file_wf crc i c"
  shows "set (fst (scan_records crc i 0 c)) \<subseteq> set (fst (scan_records crc i 0 (c @ ext)))"
  using scan_records_append [of crc i 0 c ext] assms by (auto simp: file_wf_def)

lemma SEG_LIMIT_less: "n \<le> SEG_LIMIT \<Longrightarrow> n < 2 ^ 64"
  by (simp add: SEG_LIMIT_def)

section \<open>Writing\<close>

definition holds_rec :: "(bytes \<Rightarrow> u32) \<Rightarrow> disk \<Rightarrow> recovered_record \<Rightarrow> bool" where
  "holds_rec crc d r \<longleftrightarrow> (\<exists>c. file_at d Primary (ra_seg_id (rr_addr r)) = Some c \<and>
     r \<in> set (fst (scan_records crc (ra_seg_id (rr_addr r)) 0 c)))"

lemma disk_wfD:
  assumes "disk_wf crc d"
  shows "\<not> sw_has_failover d" "sw_active_dir d = Primary" "sw_max_size d \<le> 2 ^ 63"
    "calm (fs_append_faults d)" "file_at d Primary (sw_seg_id d) = Some (active_file d)"
    "length (active_file d) = sw_len d" "file_at d Failover i = None"
    "file_at d Primary i = Some c \<Longrightarrow> file_wf crc i c"
    "file_at d Primary i = Some c \<Longrightarrow> sw_seg_id d < i \<Longrightarrow> c = []"
  using assms by (auto simp: disk_wf_def active_file_def)

lemma holds_rec_grows:
  assumes "holds_rec crc d r" and "disk_wf crc d" and "grows d d'"
  shows "holds_rec crc d' r"
proof -
  obtain c where c: "file_at d Primary (ra_seg_id (rr_addr r)) = Some c"
    and r: "r \<in> set (fst (scan_records crc (ra_seg_id (rr_addr r)) 0 c))"
    using assms(1) by (auto simp: holds_rec_def)
  obtain ext where "file_at d' Primary (ra_seg_id (rr_addr r)) = Some (c @ ext)"
    using assms(3) c unfolding grows_def by blast
  moreover have "file_wf crc (ra_seg_id (rr_addr r)) c"
    using assms(2) c by (rule disk_wfD)
  ultimately show ?thesis using r scan_grows by (fastforce simp: holds_rec_def)
qed

lemma holds_rec_quiet: "quiet_step d d' \<Longrightarrow> holds_rec crc d' r = holds_rec crc d r"
  by (simp add: holds_rec_def quiet_sel)

text \<open>The state after the three \<open>write_all\<close> calls of \<open>write_record\<close> and the counter updates.\<close>

definition after_write :: "(bytes \<Rightarrow> u32) \<Rightarrow> bytes \<Rightarrow> bytes \<Rightarrow> u32 \<Rightarrow> u16 \<Rightarrow> disk \<Rightarrow> disk" where
  "after_write crc key stored ll fl d =
     set_file (sw_active_dir d) (sw_seg_id d) (active_file d @ enc_rec crc key stored ll fl)
       (d\<lparr>fs_append_faults := tl (tl (tl (fs_append_faults d))),
          sw_len := sw_len d + (HEADER_LEN + length key + length stored),
          sw_unflushed_items := sw_unflushed_items d + 1\<rparr>)"

lemma write_all_calm:
  assumes "calm (fs_append_faults d)"
  shows "write_all bs d = (append_bytes bs (d\<lparr>fs_append_faults := tl (fs_append_faults d)\<rparr>), Inr ())"
  using assms by (simp add: write_all_def calm_next)

lemma append_bytes_append:
  "append_bytes bs' (append_bytes bs d) = append_bytes (bs @ bs') d"
  by (simp add: append_bytes_def set_file_def active_file_def file_at_def update_conv')

lemma write_record_calm:
  assumes "calm (fs_append_faults d)"
  shows "write_record crc key stored ll fl d =
    and_then (let d' = after_write crc key stored ll fl d in
              if sw_fsync_items d' \<le> sw_unflushed_items d' then seg_flush d' else (d', Inr ()))
      (\<lambda>_ d'. (d', Inr (\<lparr>ra_seg_id = sw_seg_id d', ra_offset = word_of_nat (sw_len d),
         ra_stored_len = word_of_nat (length stored), ra_key_len = word_of_nat (length key)\<rparr>, crc (key @ stored))))"
proof -
  let ?f = "fs_append_faults d"
  let ?h = "encode_header (word_of_nat (length key)) fl (word_of_nat (length stored)) ll (crc (key @ stored))"
  have ab: "fs_append_faults (append_bytes bs e) = fs_append_faults e"
    "(append_bytes bs e)\<lparr>fs_append_faults := f\<rparr> = append_bytes bs (e\<lparr>fs_append_faults := f\<rparr>)" for bs e f
    by (simp_all add: append_bytes_def set_file_def active_file_def file_at_def)
  have fin: "(append_bytes bs e)\<lparr>sw_len := n, sw_unflushed_items := u\<rparr> =
      append_bytes bs (e\<lparr>sw_len := n, sw_unflushed_items := u\<rparr>)"
    "sw_len (append_bytes bs e) = sw_len e" "sw_unflushed_items (append_bytes bs e) = sw_unflushed_items e"
    "sw_fsync_items (append_bytes bs e) = sw_fsync_items e" for bs e n u
    by (simp_all add: append_bytes_def set_file_def active_file_def file_at_def)
  have aw: "after_write crc key stored ll fl d = append_bytes (?h @ key @ stored)
      (d\<lparr>fs_append_faults := tl (tl (tl ?f)), sw_len := sw_len d + (HEADER_LEN + length key + length stored),
         sw_unflushed_items := sw_unflushed_items d + 1\<rparr>)"
    by (simp add: after_write_def append_bytes_def enc_rec_def active_file_def file_at_def)
  show ?thesis
    unfolding write_record_def
    by (simp add: Let_def write_all_calm calm_next assms ab append_bytes_append fin aw)
qed

lemma after_write_wf:
  assumes wf: "disk_wf crc d" and fits: "rec_fits key stored" and len: "sw_len d \<le> 2 ^ 63"
  shows "disk_wf crc (after_write crc key stored ll fl d)"
    and "grows d (after_write crc key stored ll fl d)"
    and "holds_rec crc (after_write crc key stored ll fl d) (rec_of crc (sw_seg_id d) (sw_len d) key stored ll fl)"
proof -
  note w = disk_wfD [OF wf]
  have fw: "file_wf crc (sw_seg_id d) (active_file d)" using w(5) by (rule w(8))
  have sn: "file_wf crc (sw_seg_id d) (active_file d @ enc_rec crc key stored ll fl)"
    "fst (scan_records crc (sw_seg_id d) 0 (active_file d @ enc_rec crc key stored ll fl)) =
      fst (scan_records crc (sw_seg_id d) 0 (active_file d)) @ [rec_of crc (sw_seg_id d) (sw_len d) key stored ll fl]"
    using file_wf_snoc [OF fw fits, of ll fl] len by (simp_all add: w(6))
  have fa: "file_at (d\<lparr>fs_append_faults := f, sw_len := n, sw_unflushed_items := u\<rparr>) = file_at d" for f n u
    by (simp add: file_at_def fun_eq_iff)
  show "grows d (after_write crc key stored ll fl d)"
    using w(2,5) by (auto simp: grows_def after_write_def fa)
  show "holds_rec crc (after_write crc key stored ll fl d) (rec_of crc (sw_seg_id d) (sw_len d) key stored ll fl)"
    using w(2) sn by (simp add: holds_rec_def after_write_def)
  show "disk_wf crc (after_write crc key stored ll fl d)"
    using w(1-4,6) sn(1) disk_wfD(7-9) [OF wf]
    by (auto simp: disk_wf_def after_write_def fa calm_next split: if_splits)
qed

text \<open>
  \<open>advances crc n d d'\<close>: from a well-formed \<open>d\<close> the disk reached a well-formed \<open>d'\<close>, files only
  grew, sealed files (below the active one) stayed as they were, and at most \<open>n\<close> rotations took place. \<open>adv_post\<close> is the contract of an operation that
  advances the disk whatever its result is, fails only if a fault was pending, and on success
  satisfies \<open>Q\<close>.
\<close>

definition sealed_kept :: "disk \<Rightarrow> disk \<Rightarrow> bool" where
  "sealed_kept d d' \<longleftrightarrow> unat (sw_seg_id d) \<le> unat (sw_seg_id d') \<and>
     (\<forall>i. i < sw_seg_id d \<longrightarrow> file_at d' Primary i = file_at d Primary i)"

definition advances :: "(bytes \<Rightarrow> u32) \<Rightarrow> nat \<Rightarrow> disk \<Rightarrow> disk \<Rightarrow> bool" where
  "advances crc n d d' \<longleftrightarrow> disk_wf crc d' \<and> grows d d' \<and> fs_read_faults d' = fs_read_faults d \<and>
     (calm (fs_faults d) \<longrightarrow> calm (fs_faults d')) \<and>
     sealed_kept d d' \<and> unat (sw_seg_id d') \<le> unat (sw_seg_id d) + n"

definition adv_post :: "(bytes \<Rightarrow> u32) \<Rightarrow> nat \<Rightarrow> disk \<Rightarrow> 'a io \<Rightarrow> (disk \<Rightarrow> 'a \<Rightarrow> bool) \<Rightarrow> bool" where
  "adv_post crc n d m Q \<longleftrightarrow> post m (\<lambda>d' a. advances crc n d d' \<and> Q d' a)
     (\<lambda>d' e. advances crc n d d' \<and> \<not> calm (fs_faults d))"

lemma sealed_kept_refl [simp]: "sealed_kept d d"
  by (simp add: sealed_kept_def)

lemma sealed_kept_trans: "sealed_kept a b \<Longrightarrow> sealed_kept b c \<Longrightarrow> sealed_kept a c"
  unfolding sealed_kept_def by (metis (no_types, lifting) order_less_le_trans order_trans word_le_nat_alt)

lemma sealed_kept_quiet: "quiet_step d d' \<Longrightarrow> sealed_kept d d'"
  by (simp add: sealed_kept_def quiet_sel)

lemma advances_trans: "advances crc m a b \<Longrightarrow> advances crc n b c \<Longrightarrow> advances crc (m + n) a c"
  unfolding advances_def using grows_trans sealed_kept_trans by fastforce

lemma advances_mono: "advances crc m a b \<Longrightarrow> m \<le> n \<Longrightarrow> advances crc n a b"
  by (auto simp: advances_def)

lemma advances_refl [simp]: "advances crc n d d \<longleftrightarrow> disk_wf crc d"
  by (auto simp: advances_def)

lemma advances_quiet:
  assumes "quiet_step d d'" and "disk_wf crc d"
  shows "advances crc n d d'"
  using assms disk_wf_quiet [OF assms] grows_quiet [OF assms(1)] quiet_sel [OF assms(1)] sealed_kept_quiet [OF assms(1)]
  by (auto simp: advances_def)

lemma adv_post_and_then:
  assumes "adv_post crc m d x Q'"
    and "\<And>d' a. advances crc m d d' \<Longrightarrow> Q' d' a \<Longrightarrow> adv_post crc n d' (f a d') Q"
  shows "adv_post crc (m + n) d (and_then x f) Q"
proof -
  have step: "adv_post crc (m + n) d (f a d') Q" if "advances crc m d d'" "Q' d' a" for d' a
  proof -
    have "calm (fs_faults d) \<Longrightarrow> calm (fs_faults d')" using that(1) by (simp add: advances_def)
    then show ?thesis
      using assms(2) [OF that] advances_trans [OF that(1)] unfolding adv_post_def
      by (elim post_mono) auto
  qed
  show ?thesis
    unfolding adv_post_def
  proof (rule post_and_then [where Q' = "\<lambda>d' a. advances crc m d d' \<and> Q' d' a"])
    show "post x (\<lambda>d' a. advances crc m d d' \<and> Q' d' a) (\<lambda>d' e. advances crc (m + n) d d' \<and> \<not> calm (fs_faults d))"
      using assms(1) unfolding adv_post_def by (elim post_mono) (auto intro: advances_mono)
  qed (use step in \<open>simp add: adv_post_def\<close>)
qed

lemma adv_post_quiet:
  assumes "quiet_post d m" and "disk_wf crc d"
  shows "adv_post crc n d m (\<lambda>d' a. quiet_step d d')"
  using assms(1) unfolding quiet_post_def adv_post_def
  by (elim post_mono) (auto intro: advances_quiet [OF _ assms(2)])

lemma adv_post_ret: "disk_wf crc d \<Longrightarrow> Q d a \<Longrightarrow> adv_post crc n d (d, Inr a) Q"
  by (simp add: adv_post_def)

lemma adv_post_mono: "adv_post crc m d x Q \<Longrightarrow> m \<le> n \<Longrightarrow> (\<And>d' a. advances crc m d d' \<Longrightarrow> Q d' a \<Longrightarrow> Q' d' a) \<Longrightarrow> adv_post crc n d x Q'"
  unfolding adv_post_def by (elim post_mono) (auto intro: advances_mono)

text \<open>\<open>appended\<close>: the record lies in the active segment at the returned address.\<close>

definition appended :: "(bytes \<Rightarrow> u32) \<Rightarrow> bytes \<Rightarrow> bytes \<Rightarrow> u32 \<Rightarrow> u16 \<Rightarrow> disk \<Rightarrow> record_addr \<Rightarrow> u32 \<Rightarrow> bool" where
  "appended crc key stored ll fl d a c \<longleftrightarrow> ra_seg_id a = sw_seg_id d \<and> holds_rec crc d
     \<lparr>rr_key = key, rr_addr = a, rr_crc = c, rr_flags = fl, rr_logical_len = ll, rr_stored = stored\<rparr>"

text \<open>
  \<open>write_record\<close>: success or a failed flush, the record is in the file and the writer is in
  step with it; the address returned is the one a scan of the file reports.
\<close>

lemma write_record_spec:
  assumes wf: "disk_wf crc d" and fits: "rec_fits key stored" and len: "sw_len d \<le> 2 ^ 63"
  shows "adv_post crc 0 d (write_record crc key stored ll fl d)
    (\<lambda>d' (a, c). appended crc key stored ll fl d' a c)"
proof -
  let ?w = "after_write crc key stored ll fl d"
  note w = disk_wfD [OF wf] and aw = after_write_wf [OF wf fits len, of ll fl]
  have sel: "sw_seg_id ?w = sw_seg_id d" "fs_read_faults ?w = fs_read_faults d" "fs_faults ?w = fs_faults d"
    by (simp_all add: after_write_def set_file_def)
  have "sealed_kept d ?w" using w(2) by (auto simp: sealed_kept_def after_write_def file_at_def set_file_def AList.update_conv')
  then have adv: "advances crc 0 d ?w" using aw sel by (simp add: advances_def)
  let ?f = "\<lambda>u d'. if sw_fsync_items d' \<le> sw_unflushed_items d' then seg_flush d' else (d', Inr ())"
  have f: "adv_post crc 0 ?w (?f () ?w) (\<lambda>d' a. quiet_step ?w d')"
    using adv_post_quiet [OF quiet_post_flush [OF quiet_refl] aw(1)] aw(1) by (auto intro: adv_post_ret)
  have "adv_post crc (0 + 0) d (and_then (?w, Inr ()) ?f) (\<lambda>d' a. quiet_step ?w d')"
  proof (rule adv_post_and_then [where Q' = "\<lambda>d' a. d' = ?w"])
    show "adv_post crc 0 d (?w, Inr ()) (\<lambda>d' a. d' = ?w)" by (simp add: adv_post_def adv)
  qed (use f in \<open>simp only: simp_thms\<close>)
  then have q: "adv_post crc 0 d (if sw_fsync_items ?w \<le> sw_unflushed_items ?w then seg_flush ?w else (?w, Inr ()))
      (\<lambda>d' a. quiet_step ?w d')" by simp
  have "adv_post crc (0 + 0) d (write_record crc key stored ll fl d)
    (\<lambda>d' (a, c). appended crc key stored ll fl d' a c)"
    unfolding write_record_calm [OF w(4)] Let_def
    by (rule adv_post_and_then [OF q], rule adv_post_ret)
      (use aw(3) sel in \<open>auto simp: appended_def advances_def holds_rec_quiet quiet_sel rec_of_def\<close>)
  then show ?thesis by simp
qed

lemma open_active_spec:
  assumes wf: "disk_wf crc d" and i: "sw_seg_id d < i"
  shows "adv_post crc 0 d (open_active Primary i d) (\<lambda>d' u. sw_seg_id d' = sw_seg_id d \<and> file_at d' Primary i = Some [])"
proof -
  have set: "advances crc 0 d' (set_file Primary i [] d')"
    if "disk_wf crc d'" "file_at d' Primary i = None" "sw_seg_id d' < i" for d'
  proof -
    have "i \<noteq> sw_seg_id d'" using that(3) by simp
    then have "disk_wf crc (set_file Primary i [] d')" using that(1) by (auto simp: disk_wf_def)
    moreover have "grows d' (set_file Primary i [] d')" using that(2) by (auto simp: grows_def)
    moreover have "sealed_kept d' (set_file Primary i [] d')" using that(3) by (auto simp: sealed_kept_def)
    ultimately show ?thesis by (simp add: advances_def) (simp add: set_file_def)
  qed
  have "adv_post crc (0 + 0) d (open_active Primary i d) (\<lambda>d' u. sw_seg_id d' = sw_seg_id d \<and> file_at d' Primary i = Some [])"
    unfolding open_active_def
  proof (rule adv_post_and_then [OF adv_post_quiet [OF quiet_post_io_try [OF quiet_refl] wf]])
    fix d' u
    assume adv: "advances crc 0 d d'" and q: "quiet_step d d'"
    then have wf': "disk_wf crc d'" by (simp add: advances_def)
    show "adv_post crc 0 d' (case file_at d' Primary i of None \<Rightarrow> set_file Primary i [] d' | Some c \<Rightarrow> d', Inr ())
       (\<lambda>d' u. sw_seg_id d' = sw_seg_id d \<and> file_at d' Primary i = Some [])"
      using wf' set [OF wf'] disk_wfD(9) [OF wf', of i] i
      by (cases "file_at d' Primary i") (auto simp: adv_post_def quiet_sel [OF q])
  qed
  then show ?thesis by simp
qed

lemma install_wf:
  assumes wf: "disk_wf crc d" and f: "file_at d Primary i = Some []" and i: "sw_seg_id d < i"
  shows "disk_wf crc (install Primary i False d)" and "grows d (install Primary i False d)"
proof -
  have fa: "file_at (install Primary i False d) = file_at d"
    by (simp add: install_def file_at_def fun_eq_iff)
  show "grows d (install Primary i False d)" by (simp add: grows_def fa)
  show "disk_wf crc (install Primary i False d)"
    unfolding disk_wf_def fa using disk_wfD [OF wf] f i
    by (auto simp: install_def)
qed

lemma unat_Suc32:
  assumes "unat (i :: u32) + 1 < 2 ^ 32"
  shows "unat (i + 1) = unat i + 1" and "i < i + 1"
proof -
  show u: "unat (i + 1) = unat i + 1" using assms by (simp add: unat_word_ariths)
  then show "i < i + 1" by (simp add: word_less_nat_alt)
qed

lemma rotate_primary_spec:
  assumes wf: "disk_wf crc d" and room: "unat (sw_seg_id d) + 1 < 2 ^ 32"
  shows "adv_post crc 1 d (rotate_primary d) (\<lambda>d' u. sw_len d' = 0)"
proof -
  let ?i = "sw_seg_id d + 1"
  note suc = unat_Suc32 [OF room]
  let ?body = "and_then (io_try d) (\<lambda>_ d. and_then (open_active Primary ?i d) (\<lambda>_ d. write_meta Primary ?i 0 d))"
  have "adv_post crc (0 + (0 + 0)) d ?body (\<lambda>d' u. sw_seg_id d' = sw_seg_id d \<and> file_at d' Primary ?i = Some [])"
  proof (rule adv_post_and_then [OF adv_post_quiet [OF quiet_post_io_try [OF quiet_refl] wf]], rule adv_post_and_then)
    fix d1 u assume a1: "advances crc 0 d d1" and q1: "quiet_step d d1"
    then have wf1: "disk_wf crc d1" by (simp add: advances_def)
    show "adv_post crc 0 d1 (open_active Primary ?i d1) (\<lambda>d' u. sw_seg_id d' = sw_seg_id d \<and> file_at d' Primary ?i = Some [])"
      using open_active_spec [OF wf1, of ?i] suc quiet_sel(4) [OF q1] by simp
    fix d2 v assume a2: "advances crc 0 d1 d2" and o: "sw_seg_id d2 = sw_seg_id d \<and> file_at d2 Primary ?i = Some []"
    then have wf2: "disk_wf crc d2" by (simp add: advances_def)
    show "adv_post crc 0 d2 (write_meta Primary ?i 0 d2) (\<lambda>d' u. sw_seg_id d' = sw_seg_id d \<and> file_at d' Primary ?i = Some [])"
      by (rule adv_post_mono [OF adv_post_quiet [OF quiet_post_write_meta [OF quiet_refl] wf2]])
        (use o in \<open>auto simp: quiet_sel\<close>)
  qed
  then have body: "adv_post crc 0 d ?body (\<lambda>d' u. sw_seg_id d' = sw_seg_id d \<and> file_at d' Primary ?i = Some [])"
    by simp
  obtain d1 x where b: "?body = (d1, x)" by (cases ?body)
  show ?thesis
  proof (cases x)
    case (Inl e)
    then have "advances crc 0 d d1" "\<not> calm (fs_faults d)" using body b by (simp_all add: adv_post_def)
    moreover from this have "\<not> sw_has_failover d1" by (simp add: advances_def disk_wf_def)
    ultimately show ?thesis
      by (auto simp: rotate_primary_def Let_def b Inl adv_post_def intro: advances_mono)
  next
    case (Inr u)
    then have a: "advances crc 0 d d1" and s: "sw_seg_id d1 = sw_seg_id d" and f: "file_at d1 Primary ?i = Some []"
      using body b by (simp_all add: adv_post_def)
    have wf1: "disk_wf crc d1" using a by (simp add: advances_def)
    have "sw_seg_id d1 < ?i" using s suc by simp
    note ins = install_wf [OF wf1 f this]
    have "sealed_kept d1 (install Primary ?i False d1)"
      using suc s by (auto simp: sealed_kept_def install_def file_at_def)
    then have "advances crc 1 d (install Primary ?i False d1)"
      using a ins grows_trans [OF _ ins(2), of d] suc s sealed_kept_trans [of d d1] by (auto simp: advances_def install_def)
    then show ?thesis
      by (simp add: rotate_primary_def Let_def b Inr adv_post_def install_def)
  qed
qed

lemma seg_rotate_spec:
  assumes wf: "disk_wf crc d" and room: "unat (sw_seg_id d) + 1 < 2 ^ 32"
  shows "adv_post crc 1 d (seg_rotate d) (\<lambda>d' u. sw_len d' = 0)"
proof -
  have "\<not> sw_has_failover (fst (seg_flush d))"
    using quiet_post_flush [OF quiet_refl, of d] wf
    by (cases "seg_flush d"; cases "snd (seg_flush d)") (auto simp: quiet_post_def quiet_sel disk_wf_def)
  then have eq: "seg_rotate d = and_then (seg_flush d) (\<lambda>_ d. rotate_primary d)"
    by (cases "seg_flush d"; cases "snd (seg_flush d)") (auto simp: seg_rotate_def)
  have "adv_post crc (0 + 1) d (seg_rotate d) (\<lambda>d' u. sw_len d' = 0)"
    unfolding eq
    by (rule adv_post_and_then [OF adv_post_quiet [OF quiet_post_flush [OF quiet_refl] wf]], rule rotate_primary_spec)
      (use room in \<open>auto simp: advances_def quiet_sel\<close>)
  then show ?thesis by simp
qed

text \<open>
  \<open>append_with_flags\<close> under the invariant: whatever fails, the disk stays well formed and every
  file keeps its records; a success has put the record on disk at the returned address.
\<close>

lemma append_spec:
  assumes wf: "disk_wf crc d" and fits: "rec_fits key stored" and room: "unat (sw_seg_id d) + 1 < 2 ^ 32"
  shows "adv_post crc 1 d (append_with_flags crc key stored ll fl d)
    (\<lambda>d' (a, c). appended crc key stored ll fl d' a c)"
proof -
  let ?Q = "\<lambda>d' (a, c). appended crc key stored ll fl d' a c"
  have rot: "adv_post crc 1 d (if sw_max_size d \<le> sw_len d then seg_rotate d else (d, Inr ())) (\<lambda>d' u. sw_len d' \<le> 2 ^ 63)"
  proof (cases "sw_max_size d \<le> sw_len d")
    case True
    then show ?thesis using adv_post_mono [OF seg_rotate_spec [OF wf room]] by simp
  next
    case False
    then show ?thesis using disk_wfD(3) [OF wf] wf by (auto intro: adv_post_ret)
  qed
  have "adv_post crc (1 + 0) d (append_with_flags crc key stored ll fl d) ?Q"
    unfolding append_with_flags_def
  proof (rule adv_post_and_then [OF rot])
    fix d' u
    assume "advances crc 1 d d'" and len: "sw_len d' \<le> 2 ^ 63"
    then have wf': "disk_wf crc d'" by (simp add: advances_def)
    note w = write_record_spec [OF wf' fits len, of ll fl]
    have "\<not> sw_has_failover (fst (write_record crc key stored ll fl d'))"
      using w by (cases "write_record crc key stored ll fl d'"; cases "snd (write_record crc key stored ll fl d')")
        (auto simp: adv_post_def advances_def disk_wf_def)
    then show "adv_post crc 0 d' (case write_record crc key stored ll fl d' of
         (d, Inl e) \<Rightarrow> if sw_has_failover d \<and> \<not> sw_failed_over d then
             and_then (failover_rotate d) (\<lambda>_ d. write_record crc key stored ll fl d) else (d, Inl e)
       | (d, Inr r) \<Rightarrow> (d, Inr r)) ?Q"
      using w by (cases "write_record crc key stored ll fl d'"; cases "snd (write_record crc key stored ll fl d')") auto
  qed
  then show ?thesis by simp
qed

section \<open>Tail recovery\<close>

text \<open>
  A buffer made of whole records followed by a proper prefix of one more: the shape a crash in
  the middle of an append leaves behind. The scan finds exactly the whole records and stops
  where the torn one begins.
\<close>

fun enc_all :: "(bytes \<Rightarrow> u32) \<Rightarrow> (bytes \<times> bytes \<times> u32 \<times> u16) list \<Rightarrow> bytes" where
  "enc_all crc [] = []"
| "enc_all crc ((key, stored, ll, fl) # rs) = enc_rec crc key stored ll fl @ enc_all crc rs"

fun recs_all :: "(bytes \<Rightarrow> u32) \<Rightarrow> u32 \<Rightarrow> nat \<Rightarrow> (bytes \<times> bytes \<times> u32 \<times> u16) list \<Rightarrow> recovered_record list" where
  "recs_all crc seg pos [] = []"
| "recs_all crc seg pos ((key, stored, ll, fl) # rs) =
     rec_of crc seg pos key stored ll fl # recs_all crc seg (pos + (HEADER_LEN + length key + length stored)) rs"

lemma scan_torn_tail:
  assumes "\<forall>(key, stored, ll, fl) \<in> set rs. rec_fits key stored"
    and "rec_fits key stored" and "n < HEADER_LEN + length key + length stored"
  shows "scan_records crc seg pos (enc_all crc rs @ take n (enc_rec crc key stored ll fl)) =
    (recs_all crc seg pos rs, pos + length (enc_all crc rs))"
  using assms(1)
proof (induction rs arbitrary: pos)
  case Nil
  then show ?case using scan_records_torn [OF assms(2,3)] by simp
next
  case (Cons r rs)
  obtain k s l f where r: "r = (k, s, l, f)" by (cases r)
  with Cons.prems have "rec_fits k s" by simp
  then show ?case
    using Cons.IH [of "pos + (HEADER_LEN + length k + length s)"] Cons.prems
    by (simp add: r scan_records_enc Let_def add.assoc)
qed

end
