(* ===== verification/Engine_Inv.thy ===== *)
theory Engine_Inv
  imports Engine Segment_Inv
begin

text \<open>
  The disk engine as an abstract map from keys to bodies. The laws of the parameters are two
  locales, \<open>kv_store\<close> (an ordered table) and \<open>engine_laws\<close> (two such tables and the compression
  round trip); \<open>engine_inv\<close> is the invariant and \<open>view\<close> the abstraction function. Inside
  \<open>engine_laws\<close> every operation is shown to keep the invariant and to act on the view as its
  name says, whatever faults occur outside the data appends.
\<close>

section \<open>Laws of the parameters\<close>

locale kv_store =
  fixes K :: "('t, 'v) kv_ops"
  assumes kv_get_empty: "kv_get K (kv_empty K) k = None"
    and kv_get_insert: "kv_get K (kv_insert K t k v) k' = (if k' = k then Some v else kv_get K t k')"
    and kv_get_remove: "kv_get K (kv_remove K t k) k' = (if k' = k then None else kv_get K t k')"
    and kv_range_sorted: "sorted_wrt (<) (map fst (kv_range K t s))"
    and kv_range_set: "(k, v) \<in> set (kv_range K t s) \<longleftrightarrow> s \<le> k \<and> kv_get K t k = Some v"

locale engine_laws =
  rows: kv_store "ee_kv E" + meta: kv_store "ee_meta E"
  for E :: "('t, 'm) engine_env" +
  assumes zstd_roundtrip: "ee_compress E data = Some c \<Longrightarrow> ee_decompress E c (length data) = Some data"

section \<open>Invariant and view\<close>

text \<open>\<open>entry_is E d k ae b\<close>: the row \<open>ae\<close> of key \<open>k\<close> addresses a record of \<open>k\<close> whose body is \<open>b\<close>.\<close>

definition entry_is :: "('t, 'm) engine_env \<Rightarrow> disk \<Rightarrow> block_key \<Rightarrow> addr_entry \<Rightarrow> bytes \<Rightarrow> bool" where
  "entry_is E d k ae b \<longleftrightarrow> (\<exists>r. holds_rec (ee_crc E) d r \<and> rr_key r = k \<and> rr_addr r = ae_addr ae \<and>
     rr_crc r = ae_crc ae \<and> rr_flags r = ae_flags ae \<and> rr_logical_len r = ae_logical_len ae \<and>
     unpack E ae (rr_stored r) = Inr b \<and> length b = unat (ae_logical_len ae))"

definition entry_body :: "('t, 'm) engine_env \<Rightarrow> disk \<Rightarrow> addr_entry \<Rightarrow> bytes option" where
  "entry_body E d ae = (case file_at d Primary (ra_seg_id (ae_addr ae)) of
     None \<Rightarrow> None
   | Some c \<Rightarrow> (case read_at (ee_crc E) c (ae_addr ae) (ae_crc ae) of
        Inl er \<Rightarrow> None
      | Inr stored \<Rightarrow> (case unpack E ae stored of Inl er \<Rightarrow> None | Inr b \<Rightarrow> Some b)))"

definition rows_ok ::
  "('t, 'm) engine_env \<Rightarrow> disk \<Rightarrow> (block_key \<rightharpoonup> bytes) \<Rightarrow> (block_key \<rightharpoonup> bytes) \<Rightarrow> bool" where
  "rows_ok E d A I \<longleftrightarrow>
     (\<forall>k v. A k = Some v \<longrightarrow> (\<exists>ae b. decode_addr v = Some ae \<and> entry_is E d k ae b)) \<and>
     (\<forall>k. I k \<noteq> None \<longrightarrow> A k = None)"

definition view_of ::
  "('t, 'm) engine_env \<Rightarrow> disk \<Rightarrow> (block_key \<rightharpoonup> bytes) \<Rightarrow> (block_key \<rightharpoonup> bytes) \<Rightarrow> block_key \<rightharpoonup> bytes" where
  "view_of E d A I k = (case I k of
     Some v \<Rightarrow> Some v
   | None \<Rightarrow> Option.bind (A k) (\<lambda>v. Option.bind (decode_addr v) (entry_body E d)))"

abbreviation addr_rows :: "('t, 'm) engine_env \<Rightarrow> ('t, 'm) index \<Rightarrow> block_key \<rightharpoonup> bytes" where
  "addr_rows E ix \<equiv> kv_get (ee_kv E) (ix_addr ix)"

abbreviation inline_rows :: "('t, 'm) engine_env \<Rightarrow> ('t, 'm) index \<Rightarrow> block_key \<rightharpoonup> bytes" where
  "inline_rows E ix \<equiv> kv_get (ee_kv E) (ix_inline ix)"

definition engine_inv :: "('t, 'm) engine_env \<Rightarrow> ('t, 'm) engine \<Rightarrow> bool" where
  "engine_inv E e \<longleftrightarrow> disk_wf (ee_crc E) (en_disk e) \<and> \<not> ec_failover (en_cfg e) \<and>
     rows_ok E (en_disk e) (addr_rows E (en_index e)) (inline_rows E (en_index e))"

definition view :: "('t, 'm) engine_env \<Rightarrow> ('t, 'm) engine \<Rightarrow> block_key \<rightharpoonup> bytes" where
  "view E e = view_of E (en_disk e) (addr_rows E (en_index e)) (inline_rows E (en_index e))"

text \<open>\<open>room e n\<close>: the segment counter can still advance \<open>n\<close> times without wrapping.\<close>

definition room :: "('t, 'm) engine \<Rightarrow> nat \<Rightarrow> bool" where
  "room e n \<longleftrightarrow> unat (sw_seg_id (en_disk e)) + n < 2 ^ 32"

section \<open>Row codec\<close>

lemma decode_encode_addr [simp, codec_simps]: "decode_addr (encode_addr ae) = Some ae"
proof -
  obtain seg off sl kl c ll fl obj where ae: "ae = \<lparr>ae_addr = \<lparr>ra_seg_id = seg, ra_offset = off,
      ra_stored_len = sl, ra_key_len = kl\<rparr>, ae_crc = c, ae_logical_len = ll, ae_flags = fl, ae_obj_logical = obj\<rparr>"
    by (metis addr_entry.cases record_addr.cases)
  let ?tail = "case obj of None \<Rightarrow> [] | Some x \<Rightarrow> le64 x"
  let ?v = "le32 seg @ le64 off @ le32 sl @ le16 kl @ le32 c @ le32 ll @ le16 fl @ ?tail"
  have v: "encode_addr ae = ?v" by (simp add: encode_addr_def ae)
  have len: "length ?v = 28 + length ?tail" by simp
  have sl: "bslice ?v 0 4 = le32 seg" "bslice ?v 4 12 = le64 off" "bslice ?v 12 16 = le32 sl"
    "bslice ?v 16 18 = le16 kl" "bslice ?v 18 22 = le32 c" "bslice ?v 22 26 = le32 ll"
    "bslice ?v 26 28 = le16 fl" "bslice ?v 28 36 = take 8 ?tail"
    by (simp_all add: bslice_def)
  show ?thesis
    unfolding v unfolding decode_addr_def sl len unfolding ae by (cases obj) simp_all
qed

lemma length_encode_addr: "length (encode_addr ae) = (if ae_obj_logical ae = None then 28 else 36)"
  by (simp add: encode_addr_def split: option.split)

section \<open>Entries and rows\<close>

lemma entry_is_body:
  assumes "entry_is E d k ae b" and "disk_wf (ee_crc E) d"
  shows "entry_body E d ae = Some b"
proof -
  obtain r where r: "holds_rec (ee_crc E) d r" "rr_addr r = ae_addr ae" "rr_crc r = ae_crc ae"
    "unpack E ae (rr_stored r) = Inr b"
    using assms(1) by (auto simp: entry_is_def)
  then obtain c where c: "file_at d Primary (ra_seg_id (ae_addr ae)) = Some c"
    "r \<in> set (fst (scan_records (ee_crc E) (ra_seg_id (ae_addr ae)) 0 c))"
    by (auto simp: holds_rec_def)
  have "length c < 2 ^ 64"
    using disk_wfD(8) [OF assms(2) c(1)] SEG_LIMIT_less by (auto simp: file_wf_def)
  from scan_read(1) [OF c(2) this] r c show ?thesis by (simp add: entry_body_def)
qed

lemma entry_is_grows: "entry_is E d k ae b \<Longrightarrow> disk_wf (ee_crc E) d \<Longrightarrow> grows d d' \<Longrightarrow> entry_is E d' k ae b"
  unfolding entry_is_def by (metis holds_rec_grows)

lemma rows_ok_grows: "rows_ok E d A I \<Longrightarrow> disk_wf (ee_crc E) d \<Longrightarrow> grows d d' \<Longrightarrow> rows_ok E d' A I"
  unfolding rows_ok_def by (blast intro: entry_is_grows)

lemma rows_ok_entry:
  assumes "rows_ok E d A I" and "disk_wf (ee_crc E) d" and "A k = Some v"
  obtains ae b where "decode_addr v = Some ae" "entry_is E d k ae b" "view_of E d A I k = Some b" "I k = None"
proof -
  from assms(1,3) obtain ae b where "decode_addr v = Some ae" "entry_is E d k ae b" "I k = None"
    unfolding rows_ok_def by (metis option.distinct(1))
  with assms(2,3) show thesis by (intro that) (simp_all add: view_of_def entry_is_body)
qed

lemma view_of_dom: "rows_ok E d A I \<Longrightarrow> disk_wf (ee_crc E) d \<Longrightarrow> view_of E d A I k \<noteq> None \<longleftrightarrow> I k \<noteq> None \<or> A k \<noteq> None"
  by (cases "A k"; cases "I k") (auto simp: view_of_def elim: rows_ok_entry)

lemma view_of_grows:
  assumes "rows_ok E d A I" and "disk_wf (ee_crc E) d" and "grows d d'" and "disk_wf (ee_crc E) d'"
  shows "view_of E d' A I = view_of E d A I"
proof
  fix k
  show "view_of E d' A I k = view_of E d A I k"
  proof (cases "I k = None \<and> A k \<noteq> None")
    case True
    then obtain v where v: "A k = Some v" by blast
    from rows_ok_entry [OF assms(1,2) v] obtain ae b where
      "decode_addr v = Some ae" "entry_is E d k ae b" "view_of E d A I k = Some b" by metis
    with v True assms show ?thesis
      by (simp add: view_of_def entry_is_body [OF entry_is_grows])
  next
    case False
    then show ?thesis by (auto simp: view_of_def split: option.split)
  qed
qed

text \<open>The three index updates, on rows and on the view.\<close>

lemma view_of_inline: "view_of E d (A(k := None)) (I(k \<mapsto> body)) = (view_of E d A I)(k \<mapsto> body)"
  by (rule ext) (auto simp: view_of_def split: option.split)

lemma view_of_delete: "view_of E d (A(k := None)) (I(k := None)) = (view_of E d A I)(k := None)"
  by (rule ext) (auto simp: view_of_def split: option.split)

lemma view_of_addr:
  assumes "decode_addr v = Some ae" and "entry_is E d k ae b" and "disk_wf (ee_crc E) d"
  shows "view_of E d (A(k \<mapsto> v)) (I(k := None)) = (view_of E d A I)(k \<mapsto> b)"
  by (rule ext) (auto simp: view_of_def assms entry_is_body [OF assms(2,3)] split: option.split)

lemma rows_ok_inline: "rows_ok E d A I \<Longrightarrow> rows_ok E d (A(k := None)) (I(k \<mapsto> body))"
  by (simp add: rows_ok_def)

lemma rows_ok_delete: "rows_ok E d A I \<Longrightarrow> rows_ok E d (A(k := None)) (I(k := None))"
  by (simp add: rows_ok_def)

lemma rows_ok_addr:
  "rows_ok E d A I \<Longrightarrow> decode_addr v = Some ae \<Longrightarrow> entry_is E d k ae b \<Longrightarrow> rows_ok E d (A(k \<mapsto> v)) (I(k := None))"
  by (auto simp: rows_ok_def)

section \<open>Engine steps\<close>

text \<open>
  \<open>engine_step E n V e e'\<close>: the invariant holds in \<open>e'\<close>, whose view is \<open>V\<close>; files only grow, sealed
  ones are untouched and no key starts to point into one; the segment counter moved at most \<open>n\<close> ahead,
  and fault-free streams stay fault-free.
\<close>

abbreviation row_entry :: "('t, 'm) engine_env \<Rightarrow> ('t, 'm) index \<Rightarrow> block_key \<Rightarrow> addr_entry option" where
  "row_entry E ix k \<equiv> Option.bind (addr_rows E ix k) decode_addr"

definition old_addrs :: "('t, 'm) engine_env \<Rightarrow> u32 \<Rightarrow> ('t, 'm) index \<Rightarrow> ('t, 'm) index \<Rightarrow> bool" where
  "old_addrs E i ix ix' \<longleftrightarrow> (\<forall>k ae. row_entry E ix' k = Some ae \<longrightarrow> ra_seg_id (ae_addr ae) < i \<longrightarrow>
     (\<exists>ae0. row_entry E ix k = Some ae0 \<and> ae_addr ae0 = ae_addr ae))"

lemma old_addrs_refl: "addr_rows E ix' = addr_rows E ix \<Longrightarrow> old_addrs E i ix ix'"
  by (auto simp: old_addrs_def)

lemma old_addrs_trans: "old_addrs E i a b \<Longrightarrow> old_addrs E j b c \<Longrightarrow> i \<le> j \<Longrightarrow> old_addrs E i a c"
proof -
  assume ab: "old_addrs E i a b" and bc: "old_addrs E j b c" and le: "i \<le> j"
  show ?thesis
    unfolding old_addrs_def
  proof (intro allI impI)
    fix k ae
    assume "row_entry E c k = Some ae" and lt: "ra_seg_id (ae_addr ae) < i"
    with bc le obtain ae1 where ae1: "row_entry E b k = Some ae1" "ae_addr ae1 = ae_addr ae"
      unfolding old_addrs_def using order_less_le_trans by blast
    with ab lt obtain ae0 where "row_entry E a k = Some ae0" "ae_addr ae0 = ae_addr ae1"
      unfolding old_addrs_def by fastforce
    with ae1 show "\<exists>ae0. row_entry E a k = Some ae0 \<and> ae_addr ae0 = ae_addr ae" by auto
  qed
qed

lemma old_addrs_remove: "addr_rows E ix' = (addr_rows E ix)(k := None) \<Longrightarrow> old_addrs E i ix ix'"
  by (auto simp: old_addrs_def)

lemma old_addrs_new:
  "addr_rows E ix' = (addr_rows E ix)(k \<mapsto> encode_addr ae) \<Longrightarrow> i \<le> ra_seg_id (ae_addr ae) \<Longrightarrow> old_addrs E i ix ix'"
  by (auto simp: old_addrs_def)

definition engine_step ::
  "('t, 'm) engine_env \<Rightarrow> nat \<Rightarrow> (block_key \<rightharpoonup> bytes) \<Rightarrow> ('t, 'm) engine \<Rightarrow> ('t, 'm) engine \<Rightarrow> bool" where
  "engine_step E n V e e' \<longleftrightarrow> engine_inv E e' \<and> view E e' = V \<and> en_cfg e' = en_cfg e \<and>
     sealed_kept (en_disk e) (en_disk e') \<and> grows (en_disk e) (en_disk e') \<and> old_addrs E (sw_seg_id (en_disk e)) (en_index e) (en_index e') \<and>
     (\<forall>m. room e (n + m) \<longrightarrow> room e' m) \<and>
     (calm (fs_faults (en_disk e)) \<longrightarrow> calm (fs_faults (en_disk e'))) \<and>
     (calm (fs_read_faults (en_disk e)) \<longrightarrow> calm (fs_read_faults (en_disk e'))) \<and>
     (calm (en_index_faults e) \<longrightarrow> calm (en_index_faults e'))"

lemma engine_step_refl: "engine_inv E e \<Longrightarrow> engine_step E n (view E e) e e"
  by (auto simp: engine_step_def room_def intro: old_addrs_refl)

lemma engine_step_trans:
  assumes "engine_step E m V e e1" and "engine_step E n V' e1 e2"
  shows "engine_step E (m + n) V' e e2"
proof -
  have "sw_seg_id (en_disk e) \<le> sw_seg_id (en_disk e1)"
    using assms(1) by (simp add: engine_step_def sealed_kept_def word_le_nat_alt)
  then have "old_addrs E (sw_seg_id (en_disk e)) (en_index e) (en_index e2)"
    using assms unfolding engine_step_def by (blast intro: old_addrs_trans)
  moreover have "sealed_kept (en_disk e) (en_disk e2)"
    using assms unfolding engine_step_def by (blast intro: sealed_kept_trans)
  moreover have "grows (en_disk e) (en_disk e2)"
    using assms unfolding engine_step_def by (blast intro: grows_trans)
  ultimately show ?thesis using assms by (simp add: engine_step_def add.assoc)
qed

lemma engine_step_mono: "engine_step E m V e e' \<Longrightarrow> m \<le> n \<Longrightarrow> engine_step E n V e e'"
  by (auto simp: engine_step_def room_def)

lemma engine_invD:
  assumes "engine_inv E e"
  shows "disk_wf (ee_crc E) (en_disk e)" "\<not> ec_failover (en_cfg e)"
    "rows_ok E (en_disk e) (addr_rows E (en_index e)) (inline_rows E (en_index e))"
  using assms by (simp_all add: engine_inv_def)

text \<open>A disk step that advances keeps everything; so does any change of the other tables.\<close>

lemma engine_step_disk:
  assumes inv: "engine_inv E e" and adv: "advances (ee_crc E) n (en_disk e) (en_disk e')"
    and same: "en_cfg e' = en_cfg e" "addr_rows E (en_index e') = addr_rows E (en_index e)"
      "inline_rows E (en_index e') = inline_rows E (en_index e)"
    and idx: "calm (en_index_faults e) \<Longrightarrow> calm (en_index_faults e')"
  shows "engine_step E n (view E e) e e'"
proof -
  note i = engine_invD [OF inv]
  have d: "disk_wf (ee_crc E) (en_disk e')" "grows (en_disk e) (en_disk e')"
    using adv by (simp_all add: advances_def)
  have "engine_inv E e'" using rows_ok_grows [OF i(3,1) d(2)] d(1) i(2) same by (simp add: engine_inv_def)
  moreover have "view E e' = view E e" using view_of_grows [OF i(3,1) d(2,1)] by (simp add: view_def same)
  ultimately show ?thesis
    using adv idx same by (auto simp: engine_step_def advances_def room_def intro: old_addrs_refl)
qed

lemmas engine_step_quiet = engine_step_disk [OF _ advances_quiet]

text \<open>An index update on top of a quiet disk step.\<close>

lemma engine_step_index:
  assumes inv: "engine_inv E e" and q: "quiet_step (en_disk e) d'"
    and rows: "rows_ok E (en_disk e) (addr_rows E ix) (inline_rows E ix)"
    and V: "view_of E (en_disk e) (addr_rows E ix) (inline_rows E ix) = V"
    and old: "old_addrs E (sw_seg_id (en_disk e)) (en_index e) ix"
  shows "engine_step E n V e (e\<lparr>en_disk := d', en_index := ix\<rparr>)"
proof -
  note i = engine_invD [OF inv] and g = grows_quiet [OF q]
  have d': "disk_wf (ee_crc E) d'" by (rule disk_wf_quiet [OF q i(1)])
  have "rows_ok E d' (addr_rows E ix) (inline_rows E ix)" by (rule rows_ok_grows [OF rows i(1) g])
  moreover have "view_of E d' (addr_rows E ix) (inline_rows E ix) = V"
    using view_of_grows [OF rows i(1) g d'] V by simp
  ultimately show ?thesis
    using d' i(2) old g quiet_sel [OF q] sealed_kept_quiet [OF q] by (auto simp: engine_step_def engine_inv_def view_def room_def)
qed

lemma on_disk_quiet_post:
  assumes "quiet_post (en_disk e) (f (en_disk e))"
  shows "post (on_disk f e) (\<lambda>e' a. \<exists>d'. quiet_step (en_disk e) d' \<and> e' = e\<lparr>en_disk := d'\<rparr>)
    (\<lambda>e' er. (\<exists>d'. quiet_step (en_disk e) d' \<and> e' = e\<lparr>en_disk := d'\<rparr>) \<and> \<not> calm (fs_faults (en_disk e)))"
  using assms by (cases "f (en_disk e)"; cases "snd (f (en_disk e))") (auto simp: on_disk_def quiet_post_def)

lemma db_write_post:
  "post (db_write e f)
     (\<lambda>e' a. \<exists>d'. quiet_step (en_disk e) d' \<and> e' = e\<lparr>en_disk := d', en_index := fst (f (en_index e))\<rparr> \<and> a = snd (f (en_index e)))
     (\<lambda>e' er. (\<exists>d'. quiet_step (en_disk e) d' \<and> e' = e\<lparr>en_disk := d'\<rparr>) \<and> \<not> calm (fs_faults (en_disk e)))"
  unfolding db_write_def
  by (rule post_and_then, rule post_map_err, rule on_disk_quiet_post, rule quiet_post_io_try, rule quiet_refl)
    (auto split: prod.split)

text \<open>A write transaction whose index change takes the view to \<open>V\<close>.\<close>

lemma db_write_spec:
  assumes inv: "engine_inv E e"
    and rows: "rows_ok E (en_disk e) (addr_rows E (fst (f (en_index e)))) (inline_rows E (fst (f (en_index e))))"
    and V: "view_of E (en_disk e) (addr_rows E (fst (f (en_index e)))) (inline_rows E (fst (f (en_index e)))) = V"
    and old: "old_addrs E (sw_seg_id (en_disk e)) (en_index e) (fst (f (en_index e)))"
  shows "post (db_write e f) (\<lambda>e' a. engine_step E n V e e' \<and> a = snd (f (en_index e)))
    (\<lambda>e' er. engine_step E n (view E e) e e' \<and> \<not> calm (fs_faults (en_disk e)))"
  using db_write_post [of e f]
proof (rule post_mono)
  fix e' er
  assume "(\<exists>d'. quiet_step (en_disk e) d' \<and> e' = e\<lparr>en_disk := d'\<rparr>) \<and> \<not> calm (fs_faults (en_disk e))"
  then show "engine_step E n (view E e) e e' \<and> \<not> calm (fs_faults (en_disk e))"
    using inv engine_invD(1) [OF inv] by (auto intro: engine_step_quiet)
qed (auto intro: engine_step_index [OF inv _ rows V old])

lemma db_read_post:
  "post (db_read e f) (\<lambda>e' a. \<exists>fs. e' = e\<lparr>en_index_faults := fs\<rparr> \<and> (calm (en_index_faults e) \<longrightarrow> calm fs) \<and> a = f (en_index e))
     (\<lambda>e' er. (\<exists>fs. e' = e\<lparr>en_index_faults := fs\<rparr>) \<and> \<not> calm (en_index_faults e) \<and> (\<exists>m. er = Io m))"
  using calm_next [of "en_index_faults e"]
  by (cases "next_outcome (en_index_faults e)"; cases "fst (next_outcome (en_index_faults e))")
    (auto simp: db_read_def io_err_def)

lemma engine_step_faults:
  assumes "engine_inv E e" and "calm (en_index_faults e) \<Longrightarrow> calm fs"
  shows "engine_step E n (view E e) e (e\<lparr>en_index_faults := fs\<rparr>)"
  by (rule engine_step_disk) (use assms engine_invD(1) [OF assms(1)] in simp_all)

lemma db_read_spec:
  assumes "engine_inv E e"
  shows "post (db_read e f) (\<lambda>e' a. engine_step E n (view E e) e e' \<and> a = f (en_index e) \<and> en_disk e' = en_disk e \<and> en_index e' = en_index e)
     (\<lambda>e' er. engine_step E n (view E e) e e' \<and> \<not> calm (en_index_faults e) \<and> (\<exists>m. er = Io m))"
  using db_read_post [of e f] by (rule post_mono) (auto intro: engine_step_faults [OF assms])

section \<open>The operations\<close>

lemma bump_old_rows [simp]: "ix_addr (bump_old E old ix) = ix_addr ix" "ix_inline (bump_old E old ix) = ix_inline ix"
  by (simp_all add: bump_old_def bump_in_def split: option.split)

context engine_laws
begin

lemma get_insert_fun: "kv_get (ee_kv E) (kv_insert (ee_kv E) t k v) = (kv_get (ee_kv E) t)(k \<mapsto> v)"
  by (rule ext) (simp add: rows.kv_get_insert)

lemma get_remove_fun: "kv_get (ee_kv E) (kv_remove (ee_kv E) t k) = (kv_get (ee_kv E) t)(k := None)"
  by (rule ext) (simp add: rows.kv_get_remove)

lemma inline_txn_rows:
  "addr_rows E (inline_txn E k body ix) = (addr_rows E ix)(k := None)"
  "inline_rows E (inline_txn E k body ix) = (inline_rows E ix)(k \<mapsto> body)"
  by (simp_all add: inline_txn_def Let_def get_insert_fun get_remove_fun)

lemma addr_txn_rows:
  "addr_rows E (addr_txn E k ae ix) = (addr_rows E ix)(k \<mapsto> encode_addr ae)"
  "inline_rows E (addr_txn E k ae ix) = (inline_rows E ix)(k := None)"
  by (simp_all add: addr_txn_def Let_def get_insert_fun get_remove_fun)

lemma delete_txn_rows:
  "addr_rows E (delete_txn E k ix) = (addr_rows E ix)(k := None)"
  "inline_rows E (delete_txn E k ix) = (inline_rows E ix)(k := None)"
  by (simp_all add: delete_txn_def Let_def get_remove_fun)

lemma delete_spec:
  assumes "engine_inv E e"
  shows "post (engine_delete E e k) (\<lambda>e' a. engine_step E n ((view E e)(k := None)) e e')
    (\<lambda>e' er. engine_step E n (view E e) e e' \<and> \<not> calm (fs_faults (en_disk e)))"
proof -
  note i = engine_invD [OF assms]
  show ?thesis unfolding engine_delete_def
    by (rule post_mono [OF db_write_spec [OF assms]])
      (use rows_ok_delete [OF i(3)] in \<open>auto simp: delete_txn_rows view_of_delete view_def intro: old_addrs_remove\<close>)
qed

text \<open>The stored form of a body unpacks to the body.\<close>

lemma unpack_pack_body:
  assumes "pack_body E cfg body = (stored, fl)" and "ae_flags ae = fl" and "ae_logical_len ae = word_of_nat (length body)"
    and "length body < 2 ^ 32"
  shows "unpack E ae stored = Inr body" and "length stored \<le> length body"
proof -
  have "unat (word_of_nat (length body) :: u32) = length body" using assms(4) by (rule unat_word_of_nat32)
  then show "unpack E ae stored = Inr body"
    using assms(1-3) zstd_roundtrip
    by (auto simp: pack_body_def unpack_def is_zstd_def FLAG_ZSTD_def split: if_splits option.splits)
  show "length stored \<le> length body"
    using assms(1) by (auto simp: pack_body_def split: if_splits option.splits)
qed

text \<open>An append on the engine's disk, the ballast release, and the two combined with the retry.\<close>

lemma append_step:
  assumes inv: "engine_inv E e" and room: "room e 1" and fits: "rec_fits k stored"
  shows "post (on_disk (append_with_flags (ee_crc E) k stored ll fl) e)
    (\<lambda>e' (a, c). engine_step E 1 (view E e) e e' \<and> en_index e' = en_index e \<and> appended (ee_crc E) k stored ll fl (en_disk e') a c)
    (\<lambda>e' er. engine_step E 1 (view E e) e e' \<and> en_index e' = en_index e \<and> \<not> calm (fs_faults (en_disk e)))"
proof -
  have r: "unat (sw_seg_id (en_disk e)) + 1 < 2 ^ 32" using room by (simp add: room_def)
  have st: "engine_step E 1 (view E e) e (e\<lparr>en_disk := d'\<rparr>)" if "advances (ee_crc E) 1 (en_disk e) d'" for d'
    by (rule engine_step_disk [OF inv]) (use that in simp_all)
  show ?thesis
    using append_spec [OF engine_invD(1) [OF inv] fits r, of ll fl] st
    by (cases "append_with_flags (ee_crc E) k stored ll fl (en_disk e)";
        cases "snd (append_with_flags (ee_crc E) k stored ll fl (en_disk e))")
      (auto simp: on_disk_def adv_post_def)
qed

lemma release_ballast_step:
  assumes inv: "engine_inv E e"
  shows "engine_step E n (view E e) e (fst (release_ballast_file e)) \<and> en_index (fst (release_ballast_file e)) = en_index e"
proof -
  have adv: "advances (ee_crc E) n (en_disk e) (d'\<lparr>fs_ballast := x\<rparr>)" if "quiet_step (en_disk e) d'" for d' x
  proof -
    have "advances (ee_crc E) n (en_disk e) d'" by (rule advances_quiet [OF that engine_invD(1) [OF inv]])
    then show ?thesis by (simp add: advances_def disk_wf_def grows_def file_at_def sealed_kept_def)
  qed
  have "\<exists>d' x. quiet_step (en_disk e) d' \<and> fst (remove_ballast (en_disk e)) = d'\<lparr>fs_ballast := x\<rparr>"
  proof -
    obtain d' r where t: "io_try (en_disk e) = (d', r)" by fastforce
    have q: "quiet_step (en_disk e) d'" using quiet_io_try [of "en_disk e"] by (simp add: t)
    have "\<exists>x. fst (remove_ballast (en_disk e)) = d'\<lparr>fs_ballast := x\<rparr>"
    proof (cases "r = Inr () \<and> fs_ballast d' \<noteq> None")
      case True
      then show ?thesis by (intro exI [of _ None]) (auto simp: remove_ballast_def t)
    next
      case False
      then have "fst (remove_ballast (en_disk e)) = d'"
        by (cases r) (auto simp: remove_ballast_def t)
      then show ?thesis by (intro exI [of _ "fs_ballast d'"]) simp
    qed
    with q show ?thesis by blast
  qed
  then obtain d' x where q: "quiet_step (en_disk e) d'" and f: "fst (remove_ballast (en_disk e)) = d'\<lparr>fs_ballast := x\<rparr>" by blast
  have "engine_step E n (view E e) e e'" if "en_disk e' = fst (remove_ballast (en_disk e))" "en_cfg e' = en_cfg e"
    "en_index e' = en_index e" "en_index_faults e' = en_index_faults e" for e'
    by (rule engine_step_disk [OF inv]) (use that adv [OF q] f in simp_all)
  then show ?thesis
    using engine_step_refl [OF inv]
    by (cases "remove_ballast (en_disk e)"; cases "snd (remove_ballast (en_disk e))")
      (auto simp: release_ballast_file_def on_disk_def)
qed

lemma append_retry_step:
  fixes ll fl
  assumes inv: "engine_inv E e" and room: "room e 2" and fits: "rec_fits k stored"
  defines "app \<equiv> on_disk (append_with_flags (ee_crc E) k stored ll fl)"
  shows "post (case app e of
      (e, Inr r) \<Rightarrow> (e, Inr r)
    | (e, Inl er) \<Rightarrow>
        if is_enospc er then
          (case release_ballast_file e of
             (e, released) \<Rightarrow> if released then map_err io_err (app e) else (e, Inl (io_err er)))
        else (e, Inl (io_err er)))
    (\<lambda>e' (a, c). engine_step E 2 (view E e) e e' \<and> en_index e' = en_index e \<and> appended (ee_crc E) k stored ll fl (en_disk e') a c)
    (\<lambda>e' er. engine_step E 2 (view E e) e e' \<and> en_index e' = en_index e \<and> \<not> calm (fs_faults (en_disk e)))"
proof -
  have r1: "room e 1" using room by (simp add: room_def)
  obtain e1 r where a: "app e = (e1, r)" by fastforce
  note first = append_step [OF inv r1 fits, of ll fl, folded app_def, unfolded a]
  show ?thesis
  proof (cases r)
    case (Inr ac)
    with first show ?thesis
      by (cases ac) (auto simp: a intro: engine_step_mono)
  next
    case (Inl er)
    with first have s1: "engine_step E 1 (view E e) e e1" and ix: "en_index e1 = en_index e"
      and nc: "\<not> calm (fs_faults (en_disk e))" by auto
    have inv1: "engine_inv E e1" and v1: "view E e1 = view E e" and rm: "room e1 1"
      using s1 room unfolding engine_step_def by (auto simp: numeral_2_eq_2)
    obtain e2 b where rel: "release_ballast_file e1 = (e2, b)" by fastforce
    from release_ballast_step [OF inv1, of 0] have s2: "engine_step E 0 (view E e) e1 e2" and ix2: "en_index e2 = en_index e"
      by (simp_all add: rel v1 ix)
    have s12: "engine_step E 1 (view E e) e e2" using engine_step_trans [OF s1 s2] by simp
    have inv2: "engine_inv E e2" and v2: "view E e2 = view E e" and rm2: "room e2 1"
      using s2 rm unfolding engine_step_def by auto
    have s22: "engine_step E 2 (view E e) e e'" if "engine_step E 1 (view E e) e2 e'" for e'
      using engine_step_trans [OF s12 that] by (simp add: numeral_2_eq_2)
    have "post (app e2)
      (\<lambda>e' (a, c). engine_step E 2 (view E e) e e' \<and> en_index e' = en_index e \<and> appended (ee_crc E) k stored ll fl (en_disk e') a c)
      (\<lambda>e' er. engine_step E 2 (view E e) e e' \<and> en_index e' = en_index e \<and> \<not> calm (fs_faults (en_disk e)))"
      using append_step [OF inv2 rm2 fits, of ll fl, folded app_def]
      by (rule post_mono) (auto simp: ix2 v2 nc intro: s22)
    then show ?thesis
      using s12 s1 ix ix2 nc by (auto simp: a Inl rel intro: engine_step_mono post_map_err)
  qed
qed

text \<open>A body appended to the active segment: the entry returned addresses a record with that body.\<close>

lemma put_append_spec:
  assumes inv: "engine_inv E e" and room: "room e 2" and k: "length k < 2 ^ 16" and b: "length body < 2 ^ 32"
  shows "post (put_append E e k body obj)
    (\<lambda>e' ae. engine_step E 2 (view E e) e e' \<and> en_index e' = en_index e \<and> entry_is E (en_disk e') k ae body \<and>
       ra_seg_id (ae_addr ae) = sw_seg_id (en_disk e'))
    (\<lambda>e' er. engine_step E 2 (view E e) e e' \<and> \<not> calm (fs_faults (en_disk e)))"
proof -
  obtain stored fl where p: "pack_body E (en_cfg e) body = (stored, fl)" by fastforce
  note u = unpack_pack_body [OF p _ _ b]
  have fits: "rec_fits k stored"
    using k b u(2) [of "\<lparr>ae_addr = undefined, ae_crc = 0, ae_logical_len = word_of_nat (length body), ae_flags = fl, ae_obj_logical = None\<rparr>"]
    by (simp add: rec_fits_def)
  have used: "engine_step E 2 (view E e) e (e'\<lparr>en_used_bytes := x\<rparr>)" if "engine_step E 2 (view E e) e e'" for e' x
    using that by (auto simp: engine_step_def engine_inv_def view_def room_def)
  have lb: "length body = unat (word_of_nat (length body) :: u32)" using unat_word_of_nat32 [OF b] by simp
  show ?thesis
    unfolding put_append_def p Let_def prod.case
    by (rule post_and_then [OF post_mono [OF append_retry_step [OF inv room fits]]], assumption)
      (use used u lb in \<open>auto simp: entry_is_def appended_def intro!: exI\<close>)
qed

lemma put_impl_spec:
  assumes inv: "engine_inv E e" and room: "room e 2" and k: "length k < 2 ^ 16" and b: "length body < 2 ^ 32"
  shows "post (put_impl E e k body obj) (\<lambda>e' a. engine_step E 2 ((view E e)(k \<mapsto> body)) e e')
    (\<lambda>e' er. engine_step E 2 (view E e) e e' \<and> \<not> calm (fs_faults (en_disk e)))"
proof -
  note i = engine_invD [OF inv]
  have inline: "post (db_write e (\<lambda>ix. (inline_txn E k body ix, ())))
    (\<lambda>e' a. engine_step E 2 ((view E e)(k \<mapsto> body)) e e')
    (\<lambda>e' er. engine_step E 2 (view E e) e e' \<and> \<not> calm (fs_faults (en_disk e)))"
    by (rule post_mono [OF db_write_spec [OF inv]])
      (use rows_ok_inline [OF i(3)] in \<open>auto simp: inline_txn_rows view_of_inline view_def intro: old_addrs_remove\<close>)
  have seg: "post (and_then (put_append E e k body obj) (\<lambda>ae e. put_index E e k ae))
    (\<lambda>e' a. engine_step E 2 ((view E e)(k \<mapsto> body)) e e')
    (\<lambda>e' er. engine_step E 2 (view E e) e e' \<and> \<not> calm (fs_faults (en_disk e)))"
  proof (rule post_and_then [OF post_mono [OF put_append_spec [OF inv room k b]]])
    fix e' ae
    assume "engine_step E 2 (view E e) e e' \<and> en_index e' = en_index e \<and> entry_is E (en_disk e') k ae body \<and> ra_seg_id (ae_addr ae) = sw_seg_id (en_disk e')"
    then have s: "engine_step E 2 (view E e) e e'" and ae: "entry_is E (en_disk e') k ae body"
      and seg: "ra_seg_id (ae_addr ae) = sw_seg_id (en_disk e')" by auto
    have inv': "engine_inv E e'" and v: "view E e' = view E e" using s by (auto simp: engine_step_def)
    note i' = engine_invD [OF inv']
    have c: "calm (fs_faults (en_disk e)) \<Longrightarrow> calm (fs_faults (en_disk e'))" using s by (simp add: engine_step_def)
    show "post (put_index E e' k ae) (\<lambda>e' a. engine_step E 2 ((view E e)(k \<mapsto> body)) e e')
      (\<lambda>e' er. engine_step E 2 (view E e) e e' \<and> \<not> calm (fs_faults (en_disk e)))"
      unfolding put_index_def
      by (rule post_mono [OF db_write_spec [OF inv', where n = 0]])
        (use rows_ok_addr [OF i'(3) _ ae] view_of_addr [OF _ ae i'(1)] v c seg engine_step_trans [OF s, where n = 0]
          in \<open>auto simp: addr_txn_rows view_def intro: old_addrs_new\<close>)
  qed auto
  show ?thesis unfolding put_impl_def using inline seg by simp
qed

end

end
