(* ===== verification/Engine_Read.thy ===== *)
theory Engine_Read
  imports Engine_Inv
begin

text \<open>
  The reading side of the disk engine: lookup, \<open>get\<close> with its re-lookup against a concurrent
  move of the record, \<open>has\<close>, \<open>stat\<close>, the in-place upgrade of a row, flush and cursors,
  the scrub step.
\<close>

section \<open>Reading a record\<close>

text \<open>What other threads may do to the files: let them grow, or remove them (garbage collection).\<close>

definition files_evolve :: "disk \<Rightarrow> disk \<Rightarrow> bool" where
  "files_evolve d d' \<longleftrightarrow> (\<forall>i c. file_at d Primary i = Some c \<longrightarrow>
     file_at d' Primary i = None \<or> (\<exists>ext. file_at d' Primary i = Some (c @ ext)))"

lemma files_evolve_grows: "grows d d' \<Longrightarrow> files_evolve d d'"
  by (auto simp: grows_def files_evolve_def)

text \<open>A read changes only the stream of read faults.\<close>

definition read_only :: "disk \<Rightarrow> disk \<Rightarrow> bool" where
  "read_only d d' \<longleftrightarrow> (\<exists>fs. d' = d\<lparr>fs_read_faults := fs\<rparr> \<and> (calm (fs_read_faults d) \<longrightarrow> calm fs))"

lemma file_at_read_faults [simp]: "file_at (d\<lparr>fs_read_faults := fs\<rparr>) = file_at d"
  by (intro ext) (simp add: file_at_def)

lemma read_onlyI: "(calm (fs_read_faults d) \<Longrightarrow> calm fs) \<Longrightarrow> read_only d (d\<lparr>fs_read_faults := fs\<rparr>)"
  unfolding read_only_def by blast

lemma read_only_refl [simp]: "read_only d d"
  using read_onlyI [of d "fs_read_faults d"] by simp

lemma read_only_trans: "read_only a b \<Longrightarrow> read_only b c \<Longrightarrow> read_only a c"
  unfolding read_only_def by auto

lemma read_only_sel:
  assumes "read_only d d'"
  shows "file_at d' = file_at d" "calm (fs_read_faults d) \<Longrightarrow> calm (fs_read_faults d')" "fs_faults d' = fs_faults d"
    "sw_seg_id d' = sw_seg_id d" "disk_wf crc d' = disk_wf crc d" "grows d d'"
  using assms by (auto simp: read_only_def disk_wf_def grows_def)

lemma advances_read_only: "read_only d d' \<Longrightarrow> disk_wf crc d \<Longrightarrow> disk_wf crc d' \<and> grows d d'"
  by (simp add: read_only_sel)

lemma read_try_post:
  "post (read_try d) (\<lambda>d' a. read_only d d') (\<lambda>d' er. read_only d d' \<and> \<not> calm (fs_read_faults d))"
proof (cases "fs_read_faults d")
  case Nil
  then show ?thesis by (simp add: read_try_def read_onlyI calm_def)
next
  case (Cons f fs)
  then have "read_only d (d\<lparr>fs_read_faults := fs\<rparr>)" by (intro read_onlyI) (simp add: calm_def)
  with Cons show ?thesis by (cases f) (simp_all add: read_try_def calm_def)
qed

lemma read_record_post:
  "post (read_record crc dr a c d)
     (\<lambda>d' st. read_only d d' \<and> (\<exists>f. file_at d dr (ra_seg_id a) = Some f \<and> read_at crc f a c = Inr st))
     (\<lambda>d' er. read_only d d' \<and> (calm (fs_read_faults d) \<longrightarrow> (case file_at d dr (ra_seg_id a) of
           None \<Rightarrow> er = NoSuchFile | Some f \<Rightarrow> read_at crc f a c = Inl er)))"
proof (cases "file_at d dr (ra_seg_id a)")
  case None
  show ?thesis unfolding read_record_def
    by (rule post_and_then [OF post_mono [OF read_try_post, where Q' = "\<lambda>d' a. read_only d d'"]])
      (auto simp: None read_only_sel)
next
  case (Some f)
  have two: "post (and_then (read_try d') (\<lambda>_ d. (d, read_at crc f a c)))
       (\<lambda>d'' st. read_only d d'' \<and> read_at crc f a c = Inr st)
       (\<lambda>d'' er. read_only d d'' \<and> (calm (fs_read_faults d) \<longrightarrow> read_at crc f a c = Inl er))" if q: "read_only d d'" for d'
  proof (rule post_and_then [where Q' = "\<lambda>d'' a. read_only d d''"])
    show "post (read_try d') (\<lambda>d'' a. read_only d d'') (\<lambda>d'' er. read_only d d'' \<and> (calm (fs_read_faults d) \<longrightarrow> read_at crc f a c = Inl er))"
      by (rule post_mono [OF read_try_post]) (use q in \<open>auto dest: read_only_sel(2) intro: read_only_trans\<close>)
    show "post (d'', read_at crc f a c) (\<lambda>d'' st. read_only d d'' \<and> read_at crc f a c = Inr st)
       (\<lambda>d'' er. read_only d d'' \<and> (calm (fs_read_faults d) \<longrightarrow> read_at crc f a c = Inl er))" if "read_only d d''" for d''
      using that by (cases "read_at crc f a c") auto
  qed
  show ?thesis unfolding read_record_def
    by (rule post_and_then [OF post_mono [OF read_try_post, where Q' = "\<lambda>d' a. read_only d d'"]])
      (use two in \<open>auto simp: Some read_only_sel\<close>)
qed

section \<open>Lookup\<close>

definition lookup_is :: "('t, 'm) engine_env \<Rightarrow> ('t, 'm) engine \<Rightarrow> block_key \<Rightarrow> lookup \<Rightarrow> bool" where
  "lookup_is E e k l = (case l of
     LInline v \<Rightarrow> view E e k = Some v \<and> inline_rows E (en_index e) k = Some v
   | LMissing \<Rightarrow> view E e k = None
   | LAddr ae \<Rightarrow> (\<exists>b v. entry_is E (en_disk e) k ae b \<and> view E e k = Some b \<and>
       addr_rows E (en_index e) k = Some v \<and> decode_addr v = Some ae))"

text \<open>Under the invariant a lookup fails only by a fault of the index, and its answer agrees with the view.\<close>

lemma lookup_row_spec:
  assumes "engine_inv E e"
  obtains l where "lookup_row E (en_index e) k = Inr l" "lookup_is E e k l"
proof -
  note i = engine_invD [OF assms]
  show thesis
  proof (cases "inline_rows E (en_index e) k")
    case (Some v)
    then show thesis by (intro that [of "LInline v"]) (simp_all add: lookup_row_def lookup_is_def view_def view_of_def)
  next
    case None
    note inl = None
    show thesis
    proof (cases "addr_rows E (en_index e) k")
      case None
      with inl show thesis by (intro that [of LMissing]) (simp_all add: lookup_row_def lookup_is_def view_def view_of_def)
    next
      case (Some v)
      from rows_ok_entry [OF i(3,1) Some] obtain ae b where
        "decode_addr v = Some ae" "entry_is E (en_disk e) k ae b"
        "view_of E (en_disk e) (addr_rows E (en_index e)) (inline_rows E (en_index e)) k = Some b" by metis
      with inl Some show thesis by (intro that [of "LAddr ae"]) (auto simp: lookup_row_def lookup_is_def view_def)
    qed
  qed
qed

lemma lookup_spec:
  assumes inv: "engine_inv E e"
  shows "post (lookup E e k) (\<lambda>e' l. engine_step E n (view E e) e e' \<and> en_disk e' = en_disk e \<and> en_index e' = en_index e \<and> lookup_is E e k l)
    (\<lambda>e' er. engine_step E n (view E e) e e' \<and> \<not> calm (en_index_faults e) \<and> (\<exists>m. er = Io m))"
proof -
  from lookup_row_spec [OF inv] obtain l where l: "lookup_row E (en_index e) k = Inr l" "lookup_is E e k l" by blast
  show ?thesis
    unfolding lookup_def
    by (rule post_and_then [OF post_mono [OF db_read_spec [OF inv]], where Q' = "\<lambda>e' r. engine_step E n (view E e) e e' \<and>
          en_disk e' = en_disk e \<and> en_index e' = en_index e \<and> r = Inr l"])
      (auto simp: l)
qed

lemma lookup_is_cong: "en_disk e' = en_disk e \<Longrightarrow> en_index e' = en_index e \<Longrightarrow> lookup_is E e' k l = lookup_is E e k l"
  by (simp add: lookup_is_def view_def split: lookup.split)

section \<open>get\<close>

lemma engine_step_read_only:
  assumes inv: "engine_inv E e" and r: "read_only (en_disk e) d'"
  shows "engine_step E n (view E e) e (e\<lparr>en_disk := d'\<rparr>)"
proof -
  note i = engine_invD [OF inv]
  have d: "disk_wf (ee_crc E) d'" "grows (en_disk e) d'" using advances_read_only [OF r i(1)] by auto
  show ?thesis
    using rows_ok_grows [OF i(3,1) d(2)] view_of_grows [OF i(3,1) d(2,1)] d i(2) read_only_sel [OF r]
    by (auto simp: engine_step_def engine_inv_def view_def room_def sealed_kept_def intro: old_addrs_refl)
qed

text \<open>
  Reading an entry that was valid in an earlier state \<open>e0\<close>: the body it had there, or the file is
  gone, or a read fault.
\<close>

lemma read_entry_spec:
  assumes ae: "entry_is E (en_disk e0) k ae b" and wf0: "disk_wf (ee_crc E) (en_disk e0)"
    and inv: "engine_inv E e" and ev: "files_evolve (en_disk e0) (en_disk e)"
  shows "post (read_entry E e ae) (\<lambda>e' st. engine_step E 0 (view E e) e e' \<and> en_index e' = en_index e \<and> unpack E ae st = Inr b)
    (\<lambda>e' er. engine_step E 0 (view E e) e e' \<and> en_index e' = en_index e \<and> file_at (en_disk e') = file_at (en_disk e) \<and>
       (calm (fs_read_faults (en_disk e)) \<longrightarrow> er = NoSuchFile \<and> file_at (en_disk e) Primary (ra_seg_id (ae_addr ae)) = None))"
proof -
  let ?d = "en_disk e" and ?i = "ra_seg_id (ae_addr ae)"
  have dir: "seg_dir_of ?d (ec_failover (en_cfg e)) ?i = Primary"
    using engine_invD(2) [OF inv] by (simp add: seg_dir_of_def)
  have present: "\<exists>st. read_at (ee_crc E) f (ae_addr ae) (ae_crc ae) = Inr st \<and> unpack E ae st = Inr b"
    if f: "file_at ?d Primary ?i = Some f" for f
  proof -
    obtain r where r: "holds_rec (ee_crc E) (en_disk e0) r" "rr_addr r = ae_addr ae" "rr_crc r = ae_crc ae"
      "unpack E ae (rr_stored r) = Inr b"
      using ae by (auto simp: entry_is_def)
    then obtain c where c: "file_at (en_disk e0) Primary ?i = Some c" "r \<in> set (fst (scan_records (ee_crc E) ?i 0 c))"
      by (auto simp: holds_rec_def)
    from ev c(1) f obtain ext where e: "f = c @ ext" unfolding files_evolve_def by (metis option.distinct(1) option.inject)
    have "r \<in> set (fst (scan_records (ee_crc E) ?i 0 f))"
      using scan_grows [OF disk_wfD(8) [OF wf0 c(1)]] c(2) by (auto simp: e)
    moreover have "length f < 2 ^ 64"
      using disk_wfD(8) [OF engine_invD(1) [OF inv] f] SEG_LIMIT_less by (auto simp: file_wf_def)
    ultimately show ?thesis using scan_read(1) r by metis
  qed
  have st: "engine_step E 0 (view E e) e (e\<lparr>en_disk := d'\<rparr>)" if "read_only ?d d'" for d'
    by (rule engine_step_read_only [OF inv that])
  let ?m = "read_record (ee_crc E) Primary (ae_addr ae) (ae_crc ae) ?d"
  have "post ?m (\<lambda>d' s. read_only ?d d' \<and> unpack E ae s = Inr b)
    (\<lambda>d' er. read_only ?d d' \<and> (calm (fs_read_faults ?d) \<longrightarrow> er = NoSuchFile \<and> file_at ?d Primary ?i = None))"
    using read_record_post [of "ee_crc E" Primary "ae_addr ae" "ae_crc ae" ?d]
    by (rule post_mono) (use present in \<open>auto split: option.splits\<close>)
  then show ?thesis
    using st by (cases ?m; cases "snd ?m") (auto simp: read_entry_def on_disk_def dir read_only_sel(1))
qed

lemma engine_stepD:
  assumes "engine_step E n V e e'"
  shows "engine_inv E e'" "view E e' = V" "en_cfg e' = en_cfg e"
    "calm (fs_read_faults (en_disk e)) \<Longrightarrow> calm (fs_read_faults (en_disk e'))"
    "calm (en_index_faults e) \<Longrightarrow> calm (en_index_faults e')"
    "calm (fs_faults (en_disk e)) \<Longrightarrow> calm (fs_faults (en_disk e'))"
    "room e (n + m) \<Longrightarrow> room e' m"
  using assms by (auto simp: engine_step_def)

lemma engine_step_trans0: "engine_step E 0 V e e1 \<Longrightarrow> engine_step E 0 V' e1 e2 \<Longrightarrow> engine_step E 0 V' e e2"
  using engine_step_trans [of E 0 V e e1 0 V' e2] by simp

text \<open>
  A read by a single thread: it returns the body in the view, \<open>NotFound\<close> exactly for a key
  that is not there, and any other error only on a fault.
\<close>

lemma get_spec:
  assumes inv: "engine_inv E e"
  shows "post (engine_get E e k) (\<lambda>e' b. engine_step E 0 (view E e) e e' \<and> view E e k = Some b)
    (\<lambda>e' er. engine_step E 0 (view E e) e e' \<and> (if er = NotFound then view E e k = None
       else \<not> calm (fs_read_faults (en_disk e)) \<or> \<not> calm (en_index_faults e)))"
proof -
  let ?Q = "\<lambda>e' b. engine_step E 0 (view E e) e e' \<and> view E e k = Some b"
  let ?R = "\<lambda>e' er. engine_step E 0 (view E e) e e' \<and> (if er = NotFound then view E e k = None
       else \<not> calm (fs_read_faults (en_disk e)) \<or> \<not> calm (en_index_faults e))"
  have attempt: "post (get_attempts E k prev (id # rest) e1) ?Q ?R"
    if s1: "engine_step E 0 (view E e) e e1" and ix: "en_index e1 = en_index e"
      and prev: "\<And>ae. prev = Some ae \<Longrightarrow> \<not> calm (fs_read_faults (en_disk e)) \<or> \<not> calm (en_index_faults e)"
      and rest: "\<And>e2 ae. engine_step E 0 (view E e) e e2 \<Longrightarrow> en_index e2 = en_index e \<Longrightarrow>
        \<not> calm (fs_read_faults (en_disk e)) \<or> \<not> calm (en_index_faults e) \<Longrightarrow> post (get_attempts E k (Some ae) rest e2) ?Q ?R"
    for prev rest e1
  proof -
    note d1 = engine_stepD [OF s1]
    show ?thesis
      unfolding get_attempts.simps
    proof (rule post_and_then [OF post_mono [OF lookup_spec [OF d1(1), where n = 0]]], assumption)
      fix e' er
      assume "engine_step E 0 (view E e1) e1 e' \<and> \<not> calm (en_index_faults e1) \<and> (\<exists>m. er = Io m)"
      then show "?R e' er" using engine_step_trans0 [OF s1] d1 by auto
    next
      fix e2 l
      assume "engine_step E 0 (view E e1) e1 e2 \<and> en_disk e2 = en_disk e1 \<and> en_index e2 = en_index e1 \<and> lookup_is E e1 k l"
      then have s12: "engine_step E 0 (view E e) e1 e2" and eq: "en_disk e2 = en_disk e1" "en_index e2 = en_index e1"
        and l: "lookup_is E e1 k l" by (auto simp: d1)
      have s2: "engine_step E 0 (view E e) e e2" by (rule engine_step_trans0 [OF s1 s12])
      note d2 = engine_stepD [OF s2]
      show "post (case l of LInline v \<Rightarrow> (e2, Inr v) | LMissing \<Rightarrow> (e2, Inl NotFound)
        | LAddr ae \<Rightarrow> if prev = Some ae then (e2, Inl (Io ''record unreadable after re-lookup''))
            else case read_entry E (id e2) ae of
              (e, Inr stored) \<Rightarrow> (e, unpack E ae stored)
            | (e, Inl er) \<Rightarrow> if er = InvalidData then (e, Inl (Corrupt (key_text k @ '': '' @ io_text er)))
                else get_attempts E k (Some ae) rest e) ?Q ?R"
      proof (cases l)
        case (LAddr ae)
        with l obtain b where b: "entry_is E (en_disk e1) k ae b" "view E e k = Some b" by (auto simp: lookup_is_def d1)
        have "post (read_entry E e2 ae) (\<lambda>e' st. engine_step E 0 (view E e) e e' \<and> en_index e' = en_index e \<and> unpack E ae st = Inr b)
          (\<lambda>e' er. engine_step E 0 (view E e) e e' \<and> en_index e' = en_index e \<and>
             (\<not> calm (fs_read_faults (en_disk e)) \<or> \<not> calm (en_index_faults e)))"
        proof (rule post_mono [OF read_entry_spec [OF b(1) engine_invD(1) [OF d1(1)] d2(1)]])
          show "files_evolve (en_disk e1) (en_disk e2)" by (simp add: eq files_evolve_grows)
          show "engine_step E 0 (view E e) e e' \<and> en_index e' = en_index e \<and> (\<not> calm (fs_read_faults (en_disk e)) \<or> \<not> calm (en_index_faults e))"
            if "engine_step E 0 (view E e2) e2 e' \<and> en_index e' = en_index e2 \<and> file_at (en_disk e') = file_at (en_disk e2) \<and>
               (calm (fs_read_faults (en_disk e2)) \<longrightarrow> er = NoSuchFile \<and> file_at (en_disk e2) Primary (ra_seg_id (ae_addr ae)) = None)" for e' er
            using that engine_step_trans0 [OF s2, of "view E e" e'] d2 b(1) eq ix
            by (auto simp: entry_is_def holds_rec_def)
        qed (use engine_step_trans0 [OF s2] d2 eq ix in auto)
        then show ?thesis
          using LAddr rest prev s2 b
          by (cases "read_entry E e2 ae"; cases "snd (read_entry E e2 ae)") auto
      qed (use l s2 d1 in \<open>auto simp: lookup_is_def\<close>)
    qed
  qed
  have last: "post (get_attempts E k (Some ae) [] e2) ?Q ?R"
    if "engine_step E 0 (view E e) e e2" "\<not> calm (fs_read_faults (en_disk e)) \<or> \<not> calm (en_index_faults e)" for e2 ae
    using that by simp
  have second: "post (get_attempts E k (Some ae) [id] e2) ?Q ?R"
    if "engine_step E 0 (view E e) e e2" "en_index e2 = en_index e"
      "\<not> calm (fs_read_faults (en_disk e)) \<or> \<not> calm (en_index_faults e)" for e2 ae
    by (rule attempt [OF that(1,2)]) (use that last in blast)+
  show ?thesis unfolding engine_get_def engine_get_racing_def
    by (rule attempt [OF engine_step_refl [OF inv]]) (use second in blast)+
qed

section \<open>get against a concurrent move\<close>

text \<open>
  What other threads may do between the lookup and the read of one attempt: keep the invariant,
  let files grow or disappear.
\<close>

definition race :: "('t, 'm) engine_env \<Rightarrow> ('t, 'm) engine \<Rightarrow> ('t, 'm) engine \<Rightarrow> bool" where
  "race E x y \<longleftrightarrow> engine_inv E y \<and> files_evolve (en_disk x) (en_disk y) \<and>
     (calm (fs_read_faults (en_disk x)) \<longrightarrow> calm (fs_read_faults (en_disk y))) \<and>
     (calm (en_index_faults x) \<longrightarrow> calm (en_index_faults y))"

definition read_result :: "bytes option \<Rightarrow> bytes domain_result" where
  "read_result v = (case v of None \<Rightarrow> Inl NotFound | Some b \<Rightarrow> Inr b)"

abbreviation next_read :: "('t, 'm) engine \<Rightarrow> ('t, 'm) engine" where
  "next_read e \<equiv> e\<lparr>en_index_faults := tl (en_index_faults e)\<rparr>"

lemma lookup_calm:
  "calm (en_index_faults e) \<Longrightarrow> lookup E e k = (next_read e, lookup_row E (en_index e) k)"
  by (simp add: lookup_def db_read_def calm_next)

lemma next_read_inv: "engine_inv E (next_read e) = engine_inv E e" "view E (next_read e) = view E e"
  by (simp_all add: engine_inv_def view_def)

text \<open>One attempt without faults: it answers from the view at its lookup, or the file is gone.\<close>

lemma get_attempt_calm:
  assumes inv: "engine_inv E e" and c: "calm (en_index_faults e)" "calm (fs_read_faults (en_disk e))" and r: "race E (next_read e) (f (next_read e))"
    and prev: "\<And>ae. prev = Some ae \<Longrightarrow> file_at (en_disk e) Primary (ra_seg_id (ae_addr ae)) = None"
  shows "snd (get_attempts E k prev (f # fs) e) = read_result (view E e k) \<or>
    (\<exists>e' ae. get_attempts E k prev (f # fs) e = get_attempts E k (Some ae) fs e' \<and>
       engine_step E 0 (view E (f (next_read e))) (f (next_read e)) e' \<and>
       file_at (en_disk e') = file_at (en_disk (f (next_read e))) \<and>
       file_at (en_disk e) Primary (ra_seg_id (ae_addr ae)) \<noteq> None \<and>
       file_at (en_disk e') Primary (ra_seg_id (ae_addr ae)) = None)"
proof -
  let ?n = "next_read e"
  from lookup_row_spec [OF inv, of k] obtain l where l: "lookup_row E (en_index e) k = Inr l" "lookup_is E e k l" by blast
  note look = lookup_calm [OF c(1), of E k, unfolded l(1)]
  show ?thesis
  proof (cases l)
    case (LAddr ae)
    with l obtain b where b: "entry_is E (en_disk e) k ae b" "view E e k = Some b" by (auto simp: lookup_is_def)
    then have fl: "file_at (en_disk e) Primary (ra_seg_id (ae_addr ae)) \<noteq> None"
      by (auto simp: entry_is_def holds_rec_def)
    then have "prev \<noteq> Some ae" using prev [of ae] by auto
    have rx: "engine_inv E (f ?n)" "files_evolve (en_disk e) (en_disk (f ?n))" "calm (fs_read_faults (en_disk (f ?n)))"
      using r [unfolded race_def] inv c by (simp_all add: next_read_inv)
    note re = read_entry_spec [OF b(1) engine_invD(1) [OF inv] rx(1,2)]
    show ?thesis
    proof (cases "snd (read_entry E (f ?n) ae)")
      case (Inr st)
      with re LAddr b \<open>prev \<noteq> Some ae\<close> show ?thesis
        by (cases "read_entry E (f ?n) ae") (simp add: look read_result_def)
    next
      case (Inl er)
      then obtain e' where e': "read_entry E (f ?n) ae = (e', Inl er)" by (cases "read_entry E (f ?n) ae") auto
      from re [unfolded e'] rx(3) have "engine_step E 0 (view E (f ?n)) (f ?n) e'" "er = NoSuchFile"
        "file_at (en_disk e') = file_at (en_disk (f ?n))" "file_at (en_disk e') Primary (ra_seg_id (ae_addr ae)) = None" by auto
      moreover from this e' LAddr \<open>prev \<noteq> Some ae\<close>
      have "get_attempts E k prev (f # fs) e = get_attempts E k (Some ae) fs e'" by (simp add: look)
      ultimately show ?thesis using fl by blast
    qed
  qed (use l look in \<open>auto simp: lookup_is_def read_result_def\<close>)
qed

text \<open>
  Two attempts suffice against one move: the answer is the one before or the one after what
  the other threads did during the first attempt.
\<close>

lemma get_racing:
  assumes inv: "engine_inv E e" and c: "calm (en_index_faults e)" "calm (fs_read_faults (en_disk e))"
    and r1: "race E (next_read e) (f1 (next_read e))"
    and r2: "\<And>x. engine_inv E x \<Longrightarrow> race E x (f2 x) \<and> grows (en_disk x) (en_disk (f2 x))"
  shows "snd (engine_get_racing E f1 f2 e k) \<in> {read_result (view E e k), read_result (view E (f1 (next_read e)) k)}"
proof -
  let ?n = "next_read e"
  have rx: "engine_inv E (f1 ?n)" "calm (fs_read_faults (en_disk (f1 ?n)))" "calm (en_index_faults (f1 ?n))"
    using r1 [unfolded race_def] inv c calm_next(2) by (auto simp: next_read_inv)
  from get_attempt_calm [where f = f1 and prev = None and k = k and fs = "[f2]", OF inv c r1] consider
      "snd (engine_get_racing E f1 f2 e k) = read_result (view E e k)"
    | e' ae where "engine_get_racing E f1 f2 e k = get_attempts E k (Some ae) [f2] e'"
       "engine_step E 0 (view E (f1 ?n)) (f1 ?n) e'" "file_at (en_disk e') Primary (ra_seg_id (ae_addr ae)) = None"
    unfolding engine_get_racing_def by blast
  then show ?thesis
  proof cases
    case 2
    note d = engine_stepD [OF 2(2)]
    have g: "race E (next_read e') (f2 (next_read e'))" "grows (en_disk e') (en_disk (f2 (next_read e')))"
      using r2 [of "next_read e'"] d(1) by (simp_all add: next_read_inv)
    from get_attempt_calm [where f = f2 and prev = "Some ae" and k = k and fs = "[]", OF d(1) d(5) [OF rx(3)] d(4) [OF rx(2)] g(1)] 2(3)
    have "snd (get_attempts E k (Some ae) [f2] e') = read_result (view E e' k)"
      using g(2) unfolding grows_def by (metis option.distinct(1) option.inject option.exhaust)
    then show ?thesis by (simp add: 2(1) d(2))
  qed simp
qed

section \<open>has, stat, row upgrade, flush\<close>

lemma has_spec:
  assumes inv: "engine_inv E e"
  shows "post (engine_has E e k) (\<lambda>e' b. engine_step E 0 (view E e) e e' \<and> b = (view E e k \<noteq> None))
    (\<lambda>e' er. engine_step E 0 (view E e) e e' \<and> \<not> calm (en_index_faults e))"
proof -
  note i = engine_invD [OF inv]
  show ?thesis unfolding engine_has_def
    by (rule post_mono [OF db_read_spec [OF inv]]) (use view_of_dom [OF i(3,1), of k] in \<open>auto simp: view_def\<close>)
qed

lemma stat_spec:
  assumes inv: "engine_inv E e"
  shows "post (engine_stat E e k) (\<lambda>e' n. engine_step E 0 (view E e) e e' \<and> (\<exists>b. view E e k = Some b \<and> n = length b))
    (\<lambda>e' er. engine_step E 0 (view E e) e e' \<and> (if er = NotFound then view E e k = None else \<not> calm (en_index_faults e)))"
  unfolding engine_stat_def
  by (rule post_and_then [OF post_mono [OF lookup_spec [OF inv, where n = 0]]], assumption)
    (auto simp: lookup_is_def entry_is_def split: lookup.split)

lemma entry_is_obj: "entry_is E d k (ae\<lparr>ae_obj_logical := o'\<rparr>) b = entry_is E d k ae b"
proof -
  have "unpack E (ae\<lparr>ae_obj_logical := o'\<rparr>) st = unpack E ae st" for st by (simp add: unpack_def split: option.split)
  then show ?thesis by (simp add: entry_is_def)
qed

context engine_laws
begin

text \<open>The upgrade of an address row to carry the object size leaves body and view alone.\<close>

lemma set_obj_logical_spec:
  assumes inv: "engine_inv E e"
  shows "post (engine_set_obj_logical E e k obj) (\<lambda>e' u. engine_step E 0 (view E e) e e')
    (\<lambda>e' er. engine_step E 0 (view E e) e e' \<and> \<not> calm (fs_faults (en_disk e)))"
proof -
  note i = engine_invD [OF inv]
  let ?A = "addr_rows E (en_index e)" and ?I = "inline_rows E (en_index e)" and ?d = "en_disk e"
  let ?f = "\<lambda>ix. case Option.bind (addr_rows E ix k) decode_addr of
       None \<Rightarrow> (ix, False)
     | Some ae \<Rightarrow> if ae_obj_logical ae \<noteq> Some obj then
           (ix\<lparr>ix_addr := kv_insert (ee_kv E) (ix_addr ix) k (encode_addr (ae\<lparr>ae_obj_logical := Some obj\<rparr>))\<rparr>, True)
         else (ix, False)"
  have "rows_ok E ?d (addr_rows E (fst (?f (en_index e)))) (inline_rows E (fst (?f (en_index e)))) \<and>
    view_of E ?d (addr_rows E (fst (?f (en_index e)))) (inline_rows E (fst (?f (en_index e)))) = view E e \<and>
    old_addrs E (sw_seg_id ?d) (en_index e) (fst (?f (en_index e)))"
  proof (cases "\<exists>v ae. ?A k = Some v \<and> decode_addr v = Some ae \<and> ae_obj_logical ae \<noteq> Some obj")
    case True
    then obtain v ae where v: "?A k = Some v" "decode_addr v = Some ae" "ae_obj_logical ae \<noteq> Some obj" by blast
    from rows_ok_entry [OF i(3,1) v(1)] v(2) obtain b where
      b: "entry_is E ?d k ae b" "view E e k = Some b" "?I k = None" by (auto simp: view_def)
    let ?ae = "ae\<lparr>ae_obj_logical := Some obj\<rparr>"
    have I: "?I(k := None) = ?I" using b(3) by auto
    have ae: "entry_is E ?d k ?ae b" using b(1) by (simp add: entry_is_obj)
    have "rows_ok E ?d (?A(k \<mapsto> encode_addr ?ae)) ?I"
      using rows_ok_addr [OF i(3) decode_encode_addr ae] unfolding I .
    moreover have "view_of E ?d (?A(k \<mapsto> encode_addr ?ae)) ?I = (view E e)(k \<mapsto> b)"
      using view_of_addr [OF decode_encode_addr ae i(1), of ?A ?I] unfolding I view_def .
    moreover have "(view E e)(k \<mapsto> b) = view E e" using b(2) by auto
    moreover have "old_addrs E (sw_seg_id ?d) (en_index e) (fst (?f (en_index e)))"
      using v by (auto simp: old_addrs_def get_insert_fun)
    ultimately show ?thesis using v by (simp add: get_insert_fun)
  next
    case False
    then have "fst (?f (en_index e)) = en_index e" by (auto split: option.split simp: bind_eq_Some_conv)
    then show ?thesis using i by (simp add: view_def old_addrs_refl)
  qed
  then show ?thesis unfolding engine_set_obj_logical_def
    by (intro post_mono [OF db_write_spec [OF inv, where f = ?f and V = "view E e" and n = 0]]) auto
qed

end

lemma flush_spec:
  assumes inv: "engine_inv E e"
  shows "post (engine_flush e) (\<lambda>e' u. engine_step E 0 (view E e) e e')
    (\<lambda>e' er. engine_step E 0 (view E e) e e' \<and> \<not> calm (fs_faults (en_disk e)))"
  unfolding engine_flush_def
  by (rule post_map_err, rule post_mono [OF on_disk_quiet_post], rule quiet_post_flush, rule quiet_refl)
    (auto intro!: engine_step_quiet [OF inv] simp: engine_invD(1) [OF inv])

section \<open>Scrub\<close>

text \<open>
  Without read faults a scrub batch finds every listed key intact: each present key is counted
  with its length, absent ones are skipped, nothing is reported corrupt.
\<close>

lemma scrub_keys_spec:
  assumes "engine_inv E e" and "calm (en_index_faults e)" and "calm (fs_read_faults (en_disk e))"
  shows "snd (scrub_keys E ks st e) =
    st\<lparr>ss_checked := ss_checked st + length (filter (\<lambda>k. view E e k \<noteq> None) ks),
       ss_bytes := ss_bytes st + sum_list (map (\<lambda>k. case view E e k of None \<Rightarrow> 0 | Some b \<Rightarrow> length b) ks)\<rparr>"
    and "engine_step E 0 (view E e) e (fst (scrub_keys E ks st e))"
  using assms
proof (induction ks arbitrary: st e)
  case Nil
  { case 1 then show ?case by simp }
  { case 2 then show ?case by (simp add: engine_step_refl) }
next
  case (Cons k ks)
  have step: "\<exists>e'. engine_step E 0 (view E e) e e' \<and> engine_get E e k = (e', read_result (view E e k))"
    if "engine_inv E e" "calm (en_index_faults e)" "calm (fs_read_faults (en_disk e))" for e
    using get_spec [OF that(1), of k] that(2,3)
    by (cases "engine_get E e k"; cases "snd (engine_get E e k)") (auto simp: read_result_def split: if_splits)
  { case 1
    from step [OF 1] obtain e' where s: "engine_step E 0 (view E e) e e'" and g: "engine_get E e k = (e', read_result (view E e k))" by blast
    note d = engine_stepD [OF s]
    show ?case
      using Cons.IH(1) [OF d(1) d(5) [OF 1(2)] d(4) [OF 1(3)]]
      by (cases "view E e k") (simp_all add: g read_result_def d(2)) }
  { case 2
    from step [OF 2] obtain e' where s: "engine_step E 0 (view E e) e e'" and g: "engine_get E e k = (e', read_result (view E e k))" by blast
    note d = engine_stepD [OF s]
    show ?case
      using engine_step_trans0 [OF s Cons.IH(2) [OF d(1) d(5) [OF 2(2)] d(4) [OF 2(3)], unfolded d(2)]]
      by (cases "view E e k") (simp_all add: g read_result_def) }
qed

end
