(* ===== verification/Engine_Gc.thy ===== *)
theory Engine_Gc
  imports Engine_Read
begin

text \<open>
  Garbage collection of the disk engine: victim selection by discard counters, the rewrite of
  live records with its compare-and-swap on the index, the sweep of unreferenced segments,
  and the segment-wise eviction the cache tier uses.

  A pass runs concurrently with writers. The schedule \<open>gr_sched\<close> says what they do: for every
  visited record, the operations other threads complete before its liveness check, and those they
  complete between the copy and the compare-and-swap. \<open>gr_log\<close> records each with its outcome.
  The theorem of this theory is that the pass is invisible: the view after it is the view
  after the logged operations alone.
\<close>

section \<open>Concurrent operations\<close>

datatype client_op = ClPut block_key bytes "u64 option" | ClDelete block_key

definition run_client :: "('t, 'm) engine_env \<Rightarrow> client_op \<Rightarrow> ('t, 'm) engine \<Rightarrow> ('t, 'm, unit) eng_op" where
  "run_client E c e = (case c of
     ClPut k body obj \<Rightarrow> put_impl E e k body obj
   | ClDelete k \<Rightarrow> engine_delete E e k)"

record ('t, 'm) gc_run =
  gr_eng :: "('t, 'm) engine"
  gr_moved :: nat
  gr_orphaned :: "(u32 \<times> u64) list"
  gr_sched :: "(client_op list \<times> client_op list) list"
  gr_log :: "(client_op \<times> bool) list"

fun run_clients :: "('t, 'm) engine_env \<Rightarrow> client_op list \<Rightarrow> ('t, 'm) gc_run \<Rightarrow> ('t, 'm) gc_run" where
  "run_clients E [] s = s"
| "run_clients E (c # cs) s = (case run_client E c (gr_eng s) of
     (e, r) \<Rightarrow> run_clients E cs (s\<lparr>gr_eng := e, gr_log := gr_log s @ [(c, \<not> isl r)]\<rparr>))"

text \<open>Run an engine operation in the state of a pass.\<close>

definition on_eng :: "(('t, 'm) engine \<Rightarrow> ('t, 'm) engine \<times> 'r) \<Rightarrow> ('t, 'm) gc_run \<Rightarrow> ('t, 'm) gc_run \<times> 'r" where
  "on_eng f s = (case f (gr_eng s) of (e, r) \<Rightarrow> (s\<lparr>gr_eng := e\<rparr>, r))"

section \<open>The pass\<close>

definition points_to :: "lookup domain_result \<Rightarrow> record_addr \<Rightarrow> bool" where
  "points_to l a = (case l of
     Inr (LAddr ae) \<Rightarrow> ra_seg_id (ae_addr ae) = ra_seg_id a \<and> ra_offset (ae_addr ae) = ra_offset a
   | _ \<Rightarrow> False)"

text \<open>The compare-and-swap transaction: the row moves only if it still has the old address.\<close>

definition gc_cas ::
  "('t, 'm) engine_env \<Rightarrow> recovered_record \<Rightarrow> record_addr \<Rightarrow> u32 \<Rightarrow> ('t, 'm) index \<Rightarrow> ('t, 'm) index \<times> bool" where
  "gc_cas E r new_addr new_crc ix =
     (case Option.bind (kv_get (ee_kv E) (ix_addr ix) (rr_key r)) decode_addr of
        None \<Rightarrow> (ix, False)
      | Some ae \<Rightarrow>
          if ra_seg_id (ae_addr ae) = ra_seg_id (rr_addr r) \<and> ra_offset (ae_addr ae) = ra_offset (rr_addr r) then
            (ix\<lparr>ix_addr := kv_insert (ee_kv E) (ix_addr ix) (rr_key r)
                  (encode_addr \<lparr>ae_addr = new_addr, ae_crc = new_crc, ae_logical_len = rr_logical_len r,
                     ae_flags = rr_flags r, ae_obj_logical = ae_obj_logical ae\<rparr>)\<rparr>, True)
          else (ix, False))"

text \<open>The end of the callback: the swap, after what other threads did since the copy.\<close>

definition gc_swap ::
  "('t, 'm) engine_env \<Rightarrow> recovered_record \<Rightarrow> client_op list \<Rightarrow> record_addr \<Rightarrow> u32 \<Rightarrow> ('t, 'm) gc_run
     \<Rightarrow> ('t, 'm) gc_run \<times> (io_error + unit)" where
  "gc_swap E r between new_addr new_crc s =
     (case on_eng (\<lambda>e. db_write e (gc_cas E r new_addr new_crc)) (run_clients E between s) of
        (s, Inr True) \<Rightarrow> (s\<lparr>gr_moved := gr_moved s + 1\<rparr>, Inr ())
      | (s, Inr False) \<Rightarrow>
          (s\<lparr>gr_orphaned := gr_orphaned s @ [(ra_seg_id new_addr, ucast (ra_stored_len new_addr))]\<rparr>, Inr ())
      | (s, Inl er) \<Rightarrow> (s, Inl (OtherIo (error_text er))))"

text \<open>The callback of \<open>scan_segment\<close> in \<open>gc_once\<close>.\<close>

definition gc_visit ::
  "('t, 'm) engine_env \<Rightarrow> recovered_record \<Rightarrow> ('t, 'm) gc_run \<Rightarrow> ('t, 'm) gc_run \<times> (io_error + unit)" where
  "gc_visit E r s =
     (let (before, between) = (case gr_sched s of [] \<Rightarrow> ([], []) | p # ps \<Rightarrow> p);
          s = run_clients E before (s\<lparr>gr_sched := tl (gr_sched s)\<rparr>);
          (s, l) = on_eng (\<lambda>e. lookup E e (rr_key r)) s in
      if \<not> points_to l (rr_addr r) then (run_clients E between s, Inr ())
      else and_then (on_eng (on_disk (append_with_flags (ee_crc E) (rr_key r) (rr_stored r) (rr_logical_len r) (rr_flags r))) s)
        (\<lambda>(new_addr, new_crc) s. gc_swap E r between new_addr new_crc s))"

text \<open>
  \<open>scan_segment\<close> on the engine: open, then the callback for each valid record. The file is
  sealed, so its contents are those found when it was opened.
\<close>

definition gc_scan ::
  "('t, 'm) engine_env \<Rightarrow> dir \<Rightarrow> u32 \<Rightarrow> ('t, 'm) gc_run \<Rightarrow> ('t, 'm) gc_run \<times> (io_error + unit)" where
  "gc_scan E dr i s = and_then (on_eng (on_disk read_try) s) (\<lambda>_ s.
     case file_at (en_disk (gr_eng s)) dr i of
       None \<Rightarrow> (s, Inl NoSuchFile)
     | Some c \<Rightarrow> scan_fold (on_eng (on_disk read_try)) (gc_visit E) (fst (scan_records (ee_crc E) i 0 c)) s)"

fun choose_victim ::
  "('t, 'm) engine_env \<Rightarrow> (u32 \<times> nat) list \<Rightarrow> (u32 \<times> nat \<times> u64) option \<Rightarrow> ('t, 'm) engine
     \<Rightarrow> ('t, 'm, (u32 \<times> nat \<times> u64) option) eng_op" where
  "choose_victim E [] v e = (e, Inr v)"
| "choose_victim E ((i, sz) # ss) v e = and_then (discard_of E e i) (\<lambda>d e.
     if d = 0 then choose_victim E ss v e
     else choose_victim E ss (if (case v of None \<Rightarrow> True | Some (_, _, vd) \<Rightarrow> vd < d) then Some (i, sz, d) else v) e)"

fun sweep_files ::
  "('t, 'm) engine_env \<Rightarrow> (u32 \<times> nat) list \<Rightarrow> (u32 \<times> nat) list \<Rightarrow> gc_report \<Rightarrow> u32 list \<Rightarrow> ('t, 'm) engine
     \<Rightarrow> ('t, 'm) engine \<times> gc_report \<times> u32 list" where
  "sweep_files E refs [] rep removed e = (e, rep, removed)"
| "sweep_files E refs ((i, sz) # ss) rep removed e =
     (if i \<in> fst ` set refs then sweep_files E refs ss rep removed e
      else case on_disk (remove_file (seg_dir_of (en_disk e) (ec_failover (en_cfg e)) i) i) e of
        (e, Inr u) \<Rightarrow> sweep_files E refs ss
           (rep\<lparr>orphans_removed := orphans_removed rep + 1, orphan_bytes := orphan_bytes rep + sz\<rparr>) (removed @ [i]) e
      | (e, Inl er) \<Rightarrow> sweep_files E refs ss rep removed e)"

definition drop_discards :: "('t, 'm) engine_env \<Rightarrow> u32 list \<Rightarrow> ('t, 'm) index \<Rightarrow> ('t, 'm) index" where
  "drop_discards E ids ix =
     ix\<lparr>ix_meta := fold (\<lambda>i t. kv_remove (ee_meta E) t (discard_key i)) ids (ix_meta ix)\<rparr>"

definition sweep_orphans :: "('t, 'm) engine_env \<Rightarrow> gc_report \<Rightarrow> ('t, 'm) engine \<Rightarrow> ('t, 'm, gc_report) eng_op" where
  "sweep_orphans E rep e = and_then (referenced_segments E e) (\<lambda>refs e.
     let (e, sealed) = sealed_segments e;
         (e, rep, removed) = sweep_files E refs sealed rep [] e in
     and_then (if removed = [] then (e, Inr ()) else db_write e (\<lambda>ix. (drop_discards E removed ix, ())))
       (\<lambda>_ e. (e, Inr rep)))"

definition sweep_if :: "('t, 'm) engine_env \<Rightarrow> bool \<Rightarrow> gc_report \<Rightarrow> ('t, 'm) engine \<Rightarrow> ('t, 'm, gc_report) eng_op" where
  "sweep_if E do_sweep rep e = (if do_sweep then sweep_orphans E rep e else (e, Inr rep))"

text \<open>The rewrite of a chosen victim: scan and move, account for lost races, flush, unlink, clear the counter.\<close>

definition gc_rewrite ::
  "('t, 'm) engine_env \<Rightarrow> u32 \<Rightarrow> nat \<Rightarrow> ('t, 'm) gc_run \<Rightarrow> ('t, 'm) gc_run \<times> nat domain_result" where
  "gc_rewrite E vid vsize s =
     (let vdir = seg_dir_of (en_disk (gr_eng s)) (ec_failover (en_cfg (gr_eng s))) vid in
      and_then (map_err io_err (gc_scan E vdir vid s)) (\<lambda>_ s.
      and_then (if gr_orphaned s = [] then (s, Inr ())
                else on_eng (\<lambda>e. db_write e (\<lambda>ix. (fold (\<lambda>(i, n). bump_in E i n) (gr_orphaned s) ix, ()))) s) (\<lambda>_ s.
      and_then (on_eng engine_flush s) (\<lambda>_ s.
      and_then (map_err io_err (on_eng (on_disk (remove_file vdir vid)) s)) (\<lambda>_ s.
      and_then (on_eng (\<lambda>e. db_write e (\<lambda>ix. (drop_discards E [vid] ix, ()))) s) (\<lambda>_ s.
        let e = gr_eng s in
        (s\<lparr>gr_eng := e\<lparr>en_used_bytes := en_used_bytes e - min vsize (en_used_bytes e)\<rparr>\<rparr>, Inr (gr_moved s))))))))"

definition gc_once ::
  "('t, 'm) engine_env \<Rightarrow> rat \<Rightarrow> ('t, 'm) gc_run \<Rightarrow> ('t, 'm) gc_run \<times> gc_report domain_result" where
  "gc_once E discard_ratio s =
     (let rep = gc_report_default;
          do_sweep = (en_gc_pass_count (gr_eng s) mod 5 = 0);
          s = s\<lparr>gr_eng := (gr_eng s)\<lparr>en_gc_pass_count := en_gc_pass_count (gr_eng s) + 1\<rparr>\<rparr>;
          (s, sealed) = on_eng sealed_segments s in
      and_then (on_eng (choose_victim E sealed None) s) (\<lambda>victim s.
        case victim of
          None \<Rightarrow> on_eng (sweep_if E do_sweep rep) s
        | Some (vid, vsize, vdiscard) \<Rightarrow>
            if 0 < vsize \<and> of_nat (unat vdiscard) < discard_ratio * of_nat vsize
            then on_eng (sweep_if E do_sweep rep) s
            else
              let rep = rep\<lparr>victim_seg := Some vid\<rparr> in
              and_then (gc_rewrite E vid vsize s) (\<lambda>moved s.
                on_eng (sweep_if E do_sweep (rep\<lparr>live_moved := moved, reclaimed_bytes := vsize\<rparr>)) s)))"

definition gc_start :: "(client_op list \<times> client_op list) list \<Rightarrow> ('t, 'm) engine \<Rightarrow> ('t, 'm) gc_run" where
  "gc_start sched e = \<lparr>gr_eng = e, gr_moved = 0, gr_orphaned = [], gr_sched = sched, gr_log = []\<rparr>"

definition engine_gc :: "('t, 'm) engine_env \<Rightarrow> ('t, 'm) engine \<Rightarrow> rat \<Rightarrow> ('t, 'm, gc_report) eng_op" where
  "engine_gc E e discard_ratio = (case gc_once E discard_ratio (gc_start [] e) of (s, r) \<Rightarrow> (gr_eng s, r))"

section \<open>Eviction\<close>

fun min_segment :: "(u32 \<times> nat) list \<Rightarrow> (u32 \<times> nat) option" where
  "min_segment [] = None"
| "min_segment ((i, n) # ss) = (case min_segment ss of
     None \<Rightarrow> Some (i, n)
   | Some (j, m) \<Rightarrow> if i \<le> j then Some (i, n) else Some (j, m))"

definition evict_visit ::
  "('t, 'm) engine_env \<Rightarrow> recovered_record \<Rightarrow> ('t, 'm) engine \<times> block_key list \<Rightarrow> (('t, 'm) engine \<times> block_key list) \<times> (io_error + unit)" where
  "evict_visit E r s = (case lookup E (fst s) (rr_key r) of
     (e, l) \<Rightarrow> ((e, if points_to l (rr_addr r) then snd s @ [rr_key r] else snd s), Inr ()))"

definition evict_read :: "('t, 'm) engine \<times> block_key list \<Rightarrow> (('t, 'm) engine \<times> block_key list) \<times> (io_error + unit)" where
  "evict_read s = (case on_disk read_try (fst s) of (e, r) \<Rightarrow> ((e, snd s), r))"

definition evict_scan ::
  "('t, 'm) engine_env \<Rightarrow> dir \<Rightarrow> u32 \<Rightarrow> ('t, 'm) engine \<Rightarrow> ('t, 'm) engine \<times> (io_error + block_key list)" where
  "evict_scan E dr i e = and_then (on_disk read_try e) (\<lambda>_ e.
     case file_at (en_disk e) dr i of
       None \<Rightarrow> (e, Inl NoSuchFile)
     | Some c \<Rightarrow> (case scan_fold evict_read (evict_visit E) (fst (scan_records (ee_crc E) i 0 c)) (e, []) of
         (s, Inl er) \<Rightarrow> (fst s, Inl er)
       | (s, Inr u) \<Rightarrow> (fst s, Inr (snd s))))"

definition evict_txn :: "('t, 'm) engine_env \<Rightarrow> u32 \<Rightarrow> block_key list \<Rightarrow> ('t, 'm) index \<Rightarrow> ('t, 'm) index" where
  "evict_txn E vid victims ix =
     drop_discards E [vid] (ix\<lparr>ix_addr := fold (\<lambda>k t. kv_remove (ee_kv E) t k) victims (ix_addr ix)\<rparr>)"

definition engine_evict_oldest_segment :: "('t, 'm) engine_env \<Rightarrow> ('t, 'm) engine \<Rightarrow> ('t, 'm, nat \<times> nat) eng_op" where
  "engine_evict_oldest_segment E e =
     (let (e, sealed) = sealed_segments e in
      case min_segment sealed of
        None \<Rightarrow> (e, Inr (0, 0))
      | Some (vid, vsize) \<Rightarrow>
          let vdir = seg_dir_of (en_disk e) (ec_failover (en_cfg e)) vid in
          and_then (map_err io_err (evict_scan E vdir vid e)) (\<lambda>victims e.
          and_then (db_write e (\<lambda>ix. (evict_txn E vid victims ix, ()))) (\<lambda>_ e.
          and_then (map_err io_err (on_disk (remove_file vdir vid) e)) (\<lambda>_ e.
            (e\<lparr>en_used_bytes := en_used_bytes e - min vsize (en_used_bytes e)\<rparr>, Inr (vsize, length victims))))))"

end
