(* ===== verification/Engine_List.thy ===== *)
theory Engine_List
  imports Engine_Inv
begin

text \<open>
  \<open>list\<close> returns the first \<open>limit\<close> keys of the view that have the prefix and follow the start-after
  key, in order and without duplicates, although it scans two tables and cuts the first one off
  early. The lemmas on sorted lists and on the byte order come first.
\<close>

section \<open>Sorted lists\<close>

lemma strict_sorted_take_mem:
  fixes xs :: "'a :: linorder list"
  assumes "sorted_wrt (<) xs"
  shows "x \<in> set (take n xs) \<longleftrightarrow> x \<in> set xs \<and> card {y \<in> set xs. y < x} < n"
  using assms
proof (induction xs arbitrary: n)
  case (Cons a xs)
  have lt: "\<And>y. y \<in> set xs \<Longrightarrow> a < y" using Cons.prems by simp
  show ?case
  proof (cases n)
    case (Suc m)
    show ?thesis
    proof (cases "x = a")
      case True
      have "{y \<in> set (a # xs). y < x} = {}" using lt True by (auto dest: order_less_trans)
      then have "card {y \<in> set (a # xs). y < x} < n" unfolding Suc by (simp only: card.empty zero_less_Suc)
      moreover have "x \<in> set (take n (a # xs))" "x \<in> set (a # xs)" using True Suc by simp_all
      ultimately show ?thesis by blast
    next
      case False
      have "x \<in> set xs \<Longrightarrow> {y \<in> set (a # xs). y < x} = insert a {y \<in> set xs. y < x}" using lt by auto
      moreover have "a \<notin> {y \<in> set xs. y < x}" using lt by auto
      ultimately show ?thesis using False Suc Cons by auto
    qed
  qed simp
qed simp

lemma strict_sorted_eqI:
  fixes xs :: "'a :: linorder list"
  assumes "sorted_wrt (<) xs" and "sorted_wrt (<) ys" and "set xs = set ys"
  shows "xs = ys"
  using assms by (simp add: strict_sorted_equal)

text \<open>Cutting one of two merged sorted lists at \<open>m \<ge> n\<close> does not change the first \<open>n\<close> elements.\<close>

lemma take_sort_cut:
  fixes as bs :: "'a :: linorder list"
  assumes as: "sorted_wrt (<) as" and bs: "sorted_wrt (<) bs" and disj: "set as \<inter> set bs = {}" and nm: "n \<le> m"
  shows "take n (sort (take m as @ bs)) = take n (sort (as @ bs))"
proof (rule strict_sorted_eqI)
  let ?A = "set as" and ?A' = "set (take m as)" and ?B = "set bs"
  have d: "distinct as" "distinct bs" using as bs by (simp_all add: strict_sorted_iff)
  have sub: "?A' \<subseteq> ?A" by (rule set_take_subset)
  have ss: "sorted_wrt (<) (sort (take m as @ bs))" "sorted_wrt (<) (sort (as @ bs))"
    using d disj sub by (auto simp: strict_sorted_iff)
  then show "sorted_wrt (<) (take n (sort (take m as @ bs)))" "sorted_wrt (<) (take n (sort (as @ bs)))"
    by (auto intro: sorted_wrt_take)
  have low: "{y \<in> ?A \<union> ?B. y < x} = {y \<in> ?A' \<union> ?B. y < x}"
    if x: "card {y \<in> ?A' \<union> ?B. y < x} < n" for x
  proof (rule ccontr)
    assume "\<not> ?thesis"
    then obtain y where y: "y \<in> ?A" "y \<notin> ?A'" "y < x" using sub by auto
    then have "m < length as" by (metis linorder_not_less take_all)
    then have "card ?A' = m" using d(1) by (simp add: distinct_card)
    moreover have "card ?A' \<le> card {y \<in> ?A' \<union> ?B. y < x}"
    proof (rule card_mono)
      show "?A' \<subseteq> {y \<in> ?A' \<union> ?B. y < x}"
    proof
      fix z assume z: "z \<in> ?A'"
      have "sorted_wrt (<) (take m as @ drop m as)" using as by simp
      moreover have "y \<in> set (drop m as)" using y(1,2) by (metis Un_iff append_take_drop_id set_append)
      ultimately have "z < y" using z unfolding sorted_wrt_append by blast
      with z y show "z \<in> {y \<in> ?A' \<union> ?B. y < x}" by auto
    qed
    qed simp
    ultimately show False using x nm by linarith
  qed
  have mem: "x \<in> ?A'" if "x \<in> ?A" "card {y \<in> ?A \<union> ?B. y < x} < n" for x
  proof -
    have "card {y \<in> ?A. y < x} \<le> card {y \<in> ?A \<union> ?B. y < x}" by (rule card_mono) auto
    with that nm show ?thesis by (simp add: strict_sorted_take_mem [OF as])
  qed
  have mono: "card {y \<in> ?A' \<union> ?B. y < x} \<le> card {y \<in> ?A \<union> ?B. y < x}" for x
    by (rule card_mono) (use sub in auto)
  show "set (take n (sort (take m as @ bs))) = set (take n (sort (as @ bs)))"
  proof (intro set_eqI)
    fix x
    show "x \<in> set (take n (sort (take m as @ bs))) \<longleftrightarrow> x \<in> set (take n (sort (as @ bs)))"
      unfolding strict_sorted_take_mem [OF ss(1)] strict_sorted_take_mem [OF ss(2)] set_sort set_append
      using low [of x] mem [of x] mono [of x] sub by auto
  qed
qed

section \<open>The order of byte strings\<close>

lemma snoc_zero_le: "a @ [0] \<le> k \<longleftrightarrow> a < (k :: bytes)"
proof (induction a arbitrary: k)
  case Nil
  then show ?case by (cases k) (auto simp: word_le_nat_alt order_less_le)
next
  case (Cons x a)
  then show ?case by (cases k) auto
qed

lemma starts_with_Cons [simp]: "starts_with (x # xs) (y # ys) \<longleftrightarrow> x = y \<and> starts_with xs ys"
  "starts_with xs []" "\<not> starts_with [] (y # ys)"
  by (auto simp: starts_with_def)

lemma starts_with_ge: "starts_with k p \<Longrightarrow> p \<le> (k :: bytes)"
proof (induction p arbitrary: k)
  case (Cons x p)
  then show ?case by (cases k) auto
qed simp

lemma starts_with_convex: "p \<le> a \<Longrightarrow> \<not> starts_with a p \<Longrightarrow> a < b \<Longrightarrow> \<not> starts_with b (p :: bytes)"
proof (induction p arbitrary: a b)
  case (Cons x p)
  then show ?case by (cases a; cases b) auto
qed simp

section \<open>list\<close>

lemma dedup_keys_distinct: "distinct (map fst xs) \<Longrightarrow> dedup_keys xs = xs"
  by (induction xs rule: dedup_keys.induct) auto

lemma list_inline_eq:
  "list_inline p rows out = out @ map (\<lambda>(k, v). (k, length v)) (takeWhile (\<lambda>(k, v). starts_with k p) rows)"
  by (induction p rows out rule: list_inline.induct) auto

lemma list_addr_eq:
  "list_addr p limit rows out =
     out @ map (\<lambda>(k, v). (k, addr_row_size v)) (take (max 1 (limit - length out)) (takeWhile (\<lambda>(k, v). starts_with k p) rows))"
proof (induction p limit rows out rule: list_addr.induct)
  case (2 p limit k v rows out)
  show ?case
  proof (cases "starts_with k p \<and> Suc (length out) < limit")
    case True
    then have "max 1 (limit - length out) = Suc (max 1 (limit - Suc (length out)))" by linarith
    then show ?thesis using True 2 by (simp add: Let_def)
  next
    case False
    then have "starts_with k p \<Longrightarrow> max 1 (limit - length out) = Suc 0" by simp
    then show ?thesis using False by (auto simp: Let_def)
  qed
qed simp

text \<open>In a sorted scan that starts at or after the prefix, the keys with the prefix come first.\<close>

lemma takeWhile_prefix:
  assumes "sorted_wrt (<) (map fst rows)" and "\<forall>r \<in> set rows. p \<le> fst r"
  shows "takeWhile (\<lambda>(k, v). starts_with k p) rows = filter (\<lambda>(k, v). starts_with k (p :: bytes)) rows"
  using assms
proof (induction rows)
  case (Cons r rows)
  obtain k v where r: "r = (k, v)" by fastforce
  show ?case
  proof (cases "starts_with k p")
    case False
    have "\<not> starts_with k' p" if "(k', v') \<in> set rows" for k' v'
      using starts_with_convex [OF _ False] Cons.prems that r by force
    then have "filter (\<lambda>(k, v). starts_with k p) rows = []" by (auto simp: filter_empty_conv)
    then show ?thesis using False by (simp add: r)
  qed (use Cons r in simp)
qed simp

lemma sorted_fst_tuples:
  fixes xs :: "('a :: linorder \<times> 'b :: linorder) list"
  shows "sorted_wrt (<) (map fst xs) \<Longrightarrow> sorted_wrt (<) xs"
  by (auto simp: sorted_wrt_map elim!: sorted_wrt_mono_rel [rotated] simp: less_prod_def')

lemma sorted_tuples_fst:
  fixes xs :: "('a :: linorder \<times> 'b :: linorder) list"
  assumes "sorted xs" and "distinct (map fst xs)"
  shows "sorted_wrt (<) (map fst xs)"
  using assms by (induction xs) (auto simp: less_eq_prod_def, force)

text \<open>What a listing has to return: the keys of \<open>V\<close> with the prefix, after the start-after key.\<close>

definition listed :: "(block_key \<rightharpoonup> bytes) \<Rightarrow> bytes \<Rightarrow> block_key option \<Rightarrow> block_key set" where
  "listed V p after = {k. V k \<noteq> None \<and> starts_with k p \<and> (case after of None \<Rightarrow> True | Some a \<Rightarrow> a < k)}"

definition list_size :: "('t, 'm) engine_env \<Rightarrow> ('t, 'm) engine \<Rightarrow> block_key \<Rightarrow> nat" where
  "list_size E e k = (case inline_rows E (en_index e) k of
     Some v \<Rightarrow> length v
   | None \<Rightarrow> (case addr_rows E (en_index e) k of None \<Rightarrow> 0 | Some v \<Rightarrow> addr_row_size v))"

context engine_laws
begin

definition scan_part :: "'t \<Rightarrow> bytes \<Rightarrow> block_key option \<Rightarrow> (bytes \<Rightarrow> nat) \<Rightarrow> (block_key \<times> nat) list" where
  "scan_part t p after sz =
     map (\<lambda>(k, v). (k, sz v)) (filter (\<lambda>(k, v). starts_with k p) (kv_range (ee_kv E) t (list_start p after)))"

lemma scan_part_props:
  shows "sorted_wrt (<) (map fst (scan_part t p after sz))"
    and "(k, n) \<in> set (scan_part t p after sz) \<longleftrightarrow>
      (\<exists>v. kv_get (ee_kv E) t k = Some v \<and> n = sz v \<and> starts_with k p \<and> (case after of None \<Rightarrow> True | Some a \<Rightarrow> a < k))"
proof -
  let ?r = "kv_range (ee_kv E) t (list_start p after)"
  have "map fst (scan_part t p after sz) = filter (\<lambda>k. starts_with k p) (map fst ?r)"
    by (simp add: scan_part_def filter_map comp_def case_prod_unfold)
  then show "sorted_wrt (<) (map fst (scan_part t p after sz))"
    using rows.kv_range_sorted [of t "list_start p after"] by (simp add: sorted_wrt_filter)
  have start: "starts_with k p \<Longrightarrow> list_start p after \<le> k \<longleftrightarrow> (case after of None \<Rightarrow> True | Some a \<Rightarrow> a < k)"
    by (auto simp: list_start_def snoc_zero_le starts_with_ge split: option.split)
  show "(k, n) \<in> set (scan_part t p after sz) \<longleftrightarrow>
      (\<exists>v. kv_get (ee_kv E) t k = Some v \<and> n = sz v \<and> starts_with k p \<and> (case after of None \<Rightarrow> True | Some a \<Rightarrow> a < k))"
    using start by (auto simp: scan_part_def rows.kv_range_set)
qed

lemma list_rows_eq:
  assumes start: "\<forall>a. after = Some a \<longrightarrow> p \<le> a" and disj: "\<forall>k. inline_rows E ix k \<noteq> None \<longrightarrow> addr_rows E ix k = None"
  defines "A \<equiv> scan_part (ix_addr ix) p after addr_row_size" and "I \<equiv> scan_part (ix_inline ix) p after length"
  shows "list_rows E ix p after limit = take limit (sort (A @ I))" and "sorted_wrt (<) (map fst (sort (A @ I)))"
proof -
  have ge': "p \<le> k" if "(k, v) \<in> set (kv_range (ee_kv E) t (list_start p after))" for t k v
  proof (cases after)
    case None
    with that show ?thesis by (simp add: rows.kv_range_set list_start_def)
  next
    case (Some a)
    with that have "a < k" by (simp add: rows.kv_range_set list_start_def snoc_zero_le)
    with start Some show ?thesis by force
  qed
  have ge: "p \<le> fst r" if "r \<in> set (kv_range (ee_kv E) t (list_start p after))" for t r
    using ge' [of "fst r" "snd r"] that by simp
  have tw: "takeWhile (\<lambda>(k, v). starts_with k p) (kv_range (ee_kv E) t (list_start p after)) =
    filter (\<lambda>(k, v). starts_with k p) (kv_range (ee_kv E) t (list_start p after))" for t
    by (rule takeWhile_prefix) (use rows.kv_range_sorted ge in auto)
  have keys: "fst ` set A \<inter> fst ` set I = {}"
    using disj by (auto simp: A_def I_def scan_part_props(2))
  have sA: "sorted_wrt (<) (map fst A)" and sI: "sorted_wrt (<) (map fst I)"
    by (simp_all add: A_def I_def scan_part_props(1))
  have dk: "distinct (map fst (A' @ I))" if "set A' \<subseteq> set A" "distinct (map fst A')" for A'
  proof -
    have "fst ` set A' \<inter> fst ` set I = {}" using keys image_mono [OF that(1), of fst] by blast
    moreover have "distinct (map fst I)" using sI by (simp add: strict_sorted_iff)
    ultimately show ?thesis using that(2) by simp
  qed
  have dks: "distinct (map fst (sort (A' @ I)))" if "set A' \<subseteq> set A" "distinct (map fst A')" for A'
    using dk [OF that] by (simp only: distinct_map distinct_sort set_sort)
  let ?m = "max 1 limit"
  have "list_rows E ix p after limit = take limit (dedup_keys (sort (take ?m A @ I)))"
    unfolding list_rows_def Let_def list_inline_eq list_addr_eq tw A_def I_def scan_part_def
    by (simp add: take_map)
  also have "dedup_keys (sort (take ?m A @ I)) = sort (take ?m A @ I)"
    by (rule dedup_keys_distinct, rule dks) (use sA in \<open>auto simp: strict_sorted_iff take_map [symmetric] dest: in_set_takeD\<close>)
  also have "take limit (sort (take ?m A @ I)) = take limit (sort (A @ I))"
    by (rule take_sort_cut [OF sorted_fst_tuples [OF sA] sorted_fst_tuples [OF sI]]) (use keys in auto)
  finally show "list_rows E ix p after limit = take limit (sort (A @ I))" .
  show "sorted_wrt (<) (map fst (sort (A @ I)))"
    by (rule sorted_tuples_fst) (use dks [of A] sA in \<open>auto simp: strict_sorted_iff\<close>)
qed

text \<open>
  The listing theorem. \<open>p \<le> a\<close> for the start-after key \<open>a\<close> holds in particular for a key that
  carries the prefix, and for the empty prefix.
\<close>

lemma list_rows_spec:
  assumes inv: "engine_inv E e" and start: "\<forall>a. after = Some a \<longrightarrow> p \<le> a"
  shows "\<exists>ks. sorted_wrt (<) ks \<and> set ks = listed (view E e) p after \<and>
    list_rows E (en_index e) p after limit = map (\<lambda>k. (k, list_size E e k)) (take limit ks)"
proof -
  let ?ix = "en_index e"
  note i = engine_invD [OF inv]
  have disj: "\<forall>k. inline_rows E ?ix k \<noteq> None \<longrightarrow> addr_rows E ?ix k = None" using i(3) by (simp add: rows_ok_def)
  let ?A = "scan_part (ix_addr ?ix) p after addr_row_size" and ?I = "scan_part (ix_inline ?ix) p after length"
  let ?ks = "map fst (sort (?A @ ?I))"
  note eq = list_rows_eq [OF start disj]
  have sz': "n = list_size E e k" if "(k, n) \<in> set (?A @ ?I)" for k n
    using that disj by (auto simp: scan_part_props(2) list_size_def split: option.split)
  have sz: "snd r = list_size E e (fst r)" if "r \<in> set (?A @ ?I)" for r
    using sz' [of "fst r" "snd r"] that by simp
  have "sort (?A @ ?I) = map (\<lambda>k. (k, list_size E e k)) ?ks"
    unfolding map_map by (rule map_idI [symmetric]) (use sz in \<open>auto simp: prod_eq_iff\<close>)
  then have "list_rows E ?ix p after limit = map (\<lambda>k. (k, list_size E e k)) (take limit ?ks)"
    unfolding eq(1) by (simp only: take_map [symmetric])
  moreover have "set ?ks = listed (view E e) p after"
  proof (rule set_eqI)
    fix k
    have "k \<in> set ?ks \<longleftrightarrow> (\<exists>n. (k, n) \<in> set ?A) \<or> (\<exists>n. (k, n) \<in> set ?I)" by (force simp: image_iff)
    also have "\<dots> \<longleftrightarrow> k \<in> listed (view E e) p after"
      using view_of_dom [OF i(3,1), of k] unfolding scan_part_props(2) listed_def view_def by auto
    finally show "k \<in> set ?ks \<longleftrightarrow> k \<in> listed (view E e) p after" .
  qed
  ultimately show ?thesis using eq(2) by blast
qed

end

end
