(* ===== verification/Reference_Env.thy ===== *)
theory Reference_Env
  imports Engine_Inv "HOL-Library.Code_Target_Nat"
begin

text \<open>
  A concrete environment in which the laws assumed of \<open>redb\<close>, \<open>crc32fast\<close> and \<open>zstd\<close> hold: tables
  are association lists with sorted range scans, the checksum is a polynomial sum, the compressor
  shortens runs of one byte. It shows that the laws are consistent, and the concrete runs of the
  development use it.
\<close>

definition list_kv :: "((bytes \<times> 'v) list, 'v) kv_ops" where
  "list_kv = \<lparr>kv_empty = [], kv_get = map_of,
     kv_insert = (\<lambda>t k v. (k, v) # filter (\<lambda>r. fst r \<noteq> k) t),
     kv_remove = (\<lambda>t k. filter (\<lambda>r. fst r \<noteq> k) t),
     kv_range = (\<lambda>t s. map (\<lambda>k. (k, the (map_of t k))) (sort (remdups (filter (\<lambda>k. s \<le> k) (map fst t)))))\<rparr>"

definition sum_crc :: "bytes \<Rightarrow> u32" where
  "sum_crc bs = word_of_nat (fold (\<lambda>b acc. acc * 31 + unat b + 1) bs 7)"

definition run_compress :: "bytes \<Rightarrow> bytes option" where
  "run_compress bs = (case bs of [] \<Rightarrow> None | b # r \<Rightarrow> if \<forall>x \<in> set r. x = b then Some [b] else None)"

definition run_decompress :: "bytes \<Rightarrow> nat \<Rightarrow> bytes option" where
  "run_decompress c n = (case c of [b] \<Rightarrow> Some (replicate n b) | _ \<Rightarrow> None)"

definition ref_env :: "((bytes \<times> bytes) list, (bytes \<times> u64) list) engine_env" where
  "ref_env = \<lparr>ee_crc = sum_crc, ee_compress = run_compress, ee_decompress = run_decompress,
     ee_kv = list_kv, ee_meta = list_kv\<rparr>"

lemma map_of_filter_neq: "map_of (filter (\<lambda>r. fst r \<noteq> k) t) k' = (if k' = k then None else map_of t k')"
  by (induction t) auto

lemma strict_sorted_sort_remdups: "sorted_wrt (<) (sort (remdups (xs :: bytes list)))"
  by (simp add: strict_sorted_iff)

interpretation list_kv: kv_store "list_kv :: ((bytes \<times> 'v) list, 'v) kv_ops"
proof
  fix t :: "(bytes \<times> 'v) list" and s k v
  show "sorted_wrt (<) (map fst (kv_range list_kv t s))"
    by (simp add: list_kv_def comp_def strict_sorted_sort_remdups)
  show "(k, v) \<in> set (kv_range list_kv t s) \<longleftrightarrow> s \<le> k \<and> kv_get list_kv t k = Some v"
  proof -
    have "(k, v) \<in> set (kv_range list_kv t s) \<longleftrightarrow> s \<le> k \<and> k \<in> fst ` set t \<and> v = the (map_of t k)"
      by (auto simp: list_kv_def)
    moreover have "k \<in> fst ` set t \<longleftrightarrow> map_of t k \<noteq> None" by (simp add: map_of_eq_None_iff)
    ultimately show ?thesis by (auto simp: list_kv_def)
  qed
qed (auto simp: list_kv_def map_of_filter_neq)

lemma run_roundtrip: "run_compress bs = Some c \<Longrightarrow> run_decompress c (length bs) = Some bs"
  by (cases bs) (auto simp: run_compress_def run_decompress_def replicate_length_same split: if_splits)

interpretation ref_env: engine_laws ref_env
proof -
  show "engine_laws ref_env"
    unfolding engine_laws_def engine_laws_axioms_def
    by (auto simp: ref_env_def list_kv.kv_store_axioms run_roundtrip)
qed

section \<open>A fresh engine\<close>

definition blank_disk :: disk where
  "blank_disk = \<lparr>sw_has_failover = False, sw_active_dir = Primary, sw_seg_id = 0, sw_len = 0, sw_flush_offset = 0,
     sw_unflushed_items = 0, sw_max_size = 0, sw_fsync_items = 0, sw_failed_over = False, sw_drop_cache = False,
     fs_files = [], fs_meta = [], fs_ballast = None, fs_statvfs = Some (512, 1000000, 900000),
     fs_append_faults = [], fs_read_faults = [], fs_faults = []\<rparr>"

text \<open>A small configuration: segments of 50 bytes, bodies below 4 bytes inline, compression on.\<close>

definition small_config :: engine_config where
  "small_config = \<lparr>ec_segment_max_size = 50, ec_inline_min = 4, ec_fsync_items = 2, ec_compress_zstd = True,
     ec_compress_min = 8, ec_ballast_bytes = 0, ec_failover = False, ec_fadvise_dontneed = False\<rparr>"

definition fresh_engine :: "((bytes \<times> bytes) list, (bytes \<times> u64) list) engine" where
  "fresh_engine = fst (engine_open ref_env small_config blank_disk (empty_index ref_env) [])"

lemma fresh_engine_eq [code]:
  "fresh_engine = \<lparr>en_cfg = small_config,
     en_disk = blank_disk\<lparr>sw_max_size := 50, sw_fsync_items := 2, fs_files := [((Primary, 0), [])]\<rparr>,
     en_index = \<lparr>ix_addr = [], ix_inline = [], ix_meta = [], ix_cursor = []\<rparr>,
     en_index_faults = [], en_ballast_present = False, en_used_bytes = 0, en_gc_pass_count = 0\<rparr>"
  unfolding fresh_engine_def by code_simp

lemma fresh_engine_inv: "engine_inv ref_env fresh_engine" "room fresh_engine 1000"
  by (simp_all add: fresh_engine_eq engine_inv_def rows_ok_def disk_wf_def blank_disk_def calm_def file_at_def
      ref_env_def list_kv_def small_config_def room_def)

lemma fresh_engine_view: "view ref_env fresh_engine = Map.empty"
  by (rule ext) (simp add: fresh_engine_eq view_def view_of_def ref_env_def list_kv_def)

end
