(* ===== verification/Shard.thy ===== *)
theory Shard
  imports Engine_Gc Engine_List Reference_Env
begin

text \<open>
  The \<open>ShardEngine\<close> port as a contract. The locale \<open>shard_contract\<close> states what the pool relies on:
  each operation acts on an abstract map from keys to bodies as its name says, an error of a
  write leaves the map as it was, and an error of a read other than \<open>NotFound\<close> says nothing about
  the map. \<open>ok n s\<close> is the implementation's invariant with a budget of \<open>n\<close> further writes.
  The disk engine satisfies the contract, for every environment that obeys \<open>engine_laws\<close>.
\<close>

section \<open>The disk engine as an implementation of the port\<close>

definition disk_ops :: "('t, 'm) engine_env \<Rightarrow> ('t, 'm) engine shard_ops" where
  "disk_ops E =
     \<lparr>so_put = engine_put E, so_put_meta = engine_put_meta E, so_get = engine_get E, so_has = engine_has E,
      so_delete = engine_delete E, so_list = engine_list E, so_usage = engine_usage, so_flush = engine_flush,
      so_gc = engine_gc E, so_verify_structure = engine_verify_structure E, so_scrub_step = engine_scrub_step E,
      so_stat = engine_stat E, so_save_cursor = engine_save_cursor E, so_load_cursor = engine_load_cursor E,
      so_ballast_released = ballast_released, so_release_ballast = release_ballast,
      so_stat_obj = engine_stat_obj E, so_set_obj_logical = engine_set_obj_logical E,
      so_data_bytes = engine_data_bytes, so_evict_oldest_segment = engine_evict_oldest_segment E\<rparr>"

section \<open>The contract\<close>

locale shard_contract =
  fixes Op :: "'s shard_ops" and ok :: "nat \<Rightarrow> 's \<Rightarrow> bool" and V :: "'s \<Rightarrow> block_key \<rightharpoonup> bytes"
  assumes ok_mono: "ok n s \<Longrightarrow> m \<le> n \<Longrightarrow> ok m s"
    and put_law: "ok (Suc n) s \<Longrightarrow> length k < 2 ^ 16 \<Longrightarrow> length body < 2 ^ 32 \<Longrightarrow>
      post (so_put Op s k body) (\<lambda>s' u. ok n s' \<and> V s' = (V s)(k \<mapsto> body)) (\<lambda>s' er. ok n s' \<and> V s' = V s)"
    and put_meta_law: "ok (Suc n) s \<Longrightarrow> length k < 2 ^ 16 \<Longrightarrow> length body < 2 ^ 32 \<Longrightarrow>
      post (so_put_meta Op s k body obj) (\<lambda>s' u. ok n s' \<and> V s' = (V s)(k \<mapsto> body)) (\<lambda>s' er. ok n s' \<and> V s' = V s)"
    and get_law: "ok n s \<Longrightarrow>
      post (so_get Op s k) (\<lambda>s' b. ok n s' \<and> V s' = V s \<and> V s k = Some b) (\<lambda>s' er. ok n s' \<and> V s' = V s \<and> (er = NotFound \<longrightarrow> V s k = None))"
    and has_law: "ok n s \<Longrightarrow>
      post (so_has Op s k) (\<lambda>s' b. ok n s' \<and> V s' = V s \<and> b = (V s k \<noteq> None)) (\<lambda>s' er. ok n s' \<and> V s' = V s)"
    and delete_law: "ok n s \<Longrightarrow>
      post (so_delete Op s k) (\<lambda>s' u. ok n s' \<and> V s' = (V s)(k := None)) (\<lambda>s' er. ok n s' \<and> V s' = V s)"
    and stat_law: "ok n s \<Longrightarrow>
      post (so_stat Op s k) (\<lambda>s' m. ok n s' \<and> V s' = V s \<and> (\<exists>b. V s k = Some b \<and> m = length b))
        (\<lambda>s' er. ok n s' \<and> V s' = V s \<and> (er = NotFound \<longrightarrow> V s k = None))"
    and stat_obj_law: "ok n s \<Longrightarrow>
      post (so_stat_obj Op s k) (\<lambda>s' m. ok n s' \<and> V s' = V s \<and> (\<exists>b. V s k = Some b \<and> fst m = length b))
        (\<lambda>s' er. ok n s' \<and> V s' = V s \<and> (er = NotFound \<longrightarrow> V s k = None))"
    and set_obj_law: "ok n s \<Longrightarrow>
      post (so_set_obj_logical Op s k osize) (\<lambda>s' u. ok n s' \<and> V s' = V s) (\<lambda>s' er. ok n s' \<and> V s' = V s)"
begin

text \<open>Write, then read: the body comes back, or the read fails for another reason than absence.\<close>

lemma put_get:
  assumes "ok (Suc n) s" and "length k < 2 ^ 16" and "length body < 2 ^ 32" and "so_put Op s k body = (s1, Inr u)"
    and "so_get Op s1 k = (s2, r)"
  shows "r = Inr body \<or> (\<exists>er. r = Inl er \<and> er \<noteq> NotFound)"
proof -
  from put_law [OF assms(1-3)] assms(4) have s1: "ok n s1" "V s1 = (V s)(k \<mapsto> body)" by auto
  from get_law [OF s1(1), of k] assms(5) s1(2) show ?thesis by (cases r) auto
qed

lemma delete_get:
  assumes "ok n s" and "so_delete Op s k = (s1, Inr u)" and "so_get Op s1 k = (s2, r)"
  shows "\<exists>er. r = Inl er"
proof -
  from delete_law [OF assms(1), of k] assms(2) have s1: "ok n s1" "V s1 = (V s)(k := None)" by auto
  from get_law [OF s1(1), of k] assms(3) s1(2) show ?thesis by (cases r) auto
qed

end

text \<open>
  The contract in full, with faults accounted for: \<open>shard_step m W s s'\<close> says that \<open>s'\<close> has the abstract
  map \<open>W\<close>, used at most \<open>m\<close> of the write budget, and is fault free (\<open>fine\<close>) if \<open>s\<close> was. On a fault-free
  shard no operation fails, except that a read finds its key absent.
\<close>

definition shard_step ::
  "(nat \<Rightarrow> 's \<Rightarrow> bool) \<Rightarrow> ('s \<Rightarrow> block_key \<rightharpoonup> bytes) \<Rightarrow> ('s \<Rightarrow> bool) \<Rightarrow> nat \<Rightarrow> (block_key \<rightharpoonup> bytes) \<Rightarrow> 's \<Rightarrow> 's \<Rightarrow> bool" where
  "shard_step ok V fine m W s s' \<longleftrightarrow> (\<forall>n. ok (m + n) s \<longrightarrow> ok n s') \<and> V s' = W \<and> (fine s \<longrightarrow> fine s')"

locale shard_port =
  fixes Op :: "'s shard_ops" and ok :: "nat \<Rightarrow> 's \<Rightarrow> bool" and V :: "'s \<Rightarrow> block_key \<rightharpoonup> bytes" and fine :: "'s \<Rightarrow> bool"
  assumes port_mono: "ok n s \<Longrightarrow> m \<le> n \<Longrightarrow> ok m s"
    and port_put: "ok 1 s \<Longrightarrow> length k < 2 ^ 16 \<Longrightarrow> length body < 2 ^ 32 \<Longrightarrow> post (so_put Op s k body)
      (\<lambda>s' u. shard_step ok V fine 1 ((V s)(k \<mapsto> body)) s s') (\<lambda>s' er. shard_step ok V fine 1 (V s) s s' \<and> \<not> fine s)"
    and port_put_meta: "ok 1 s \<Longrightarrow> length k < 2 ^ 16 \<Longrightarrow> length body < 2 ^ 32 \<Longrightarrow> post (so_put_meta Op s k body obj)
      (\<lambda>s' u. shard_step ok V fine 1 ((V s)(k \<mapsto> body)) s s') (\<lambda>s' er. shard_step ok V fine 1 (V s) s s' \<and> \<not> fine s)"
    and port_get: "ok 0 s \<Longrightarrow> post (so_get Op s k) (\<lambda>s' b. shard_step ok V fine 0 (V s) s s' \<and> V s k = Some b)
      (\<lambda>s' er. shard_step ok V fine 0 (V s) s s' \<and> (if er = NotFound then V s k = None else \<not> fine s))"
    and port_has: "ok 0 s \<Longrightarrow> post (so_has Op s k) (\<lambda>s' b. shard_step ok V fine 0 (V s) s s' \<and> b = (V s k \<noteq> None))
      (\<lambda>s' er. shard_step ok V fine 0 (V s) s s' \<and> \<not> fine s)"
    and port_delete: "ok 0 s \<Longrightarrow> post (so_delete Op s k) (\<lambda>s' u. shard_step ok V fine 0 ((V s)(k := None)) s s')
      (\<lambda>s' er. shard_step ok V fine 0 (V s) s s' \<and> \<not> fine s)"
    and port_stat: "ok 0 s \<Longrightarrow> post (so_stat Op s k)
      (\<lambda>s' m. shard_step ok V fine 0 (V s) s s' \<and> (\<exists>b. V s k = Some b \<and> m = length b))
      (\<lambda>s' er. shard_step ok V fine 0 (V s) s s' \<and> (if er = NotFound then V s k = None else \<not> fine s))"
    and port_stat_obj: "ok 0 s \<Longrightarrow> post (so_stat_obj Op s k)
      (\<lambda>s' m. shard_step ok V fine 0 (V s) s s' \<and> (\<exists>b. V s k = Some b \<and> fst m = length b))
      (\<lambda>s' er. shard_step ok V fine 0 (V s) s s' \<and> (if er = NotFound then V s k = None else \<not> fine s))"
    and port_set_obj: "ok 0 s \<Longrightarrow> post (so_set_obj_logical Op s k osize) (\<lambda>s' u. shard_step ok V fine 0 (V s) s s')
      (\<lambda>s' er. shard_step ok V fine 0 (V s) s s' \<and> \<not> fine s)"
    and port_list: "ok 0 s \<Longrightarrow> post (so_list Op s p after limit)
      (\<lambda>s' out. shard_step ok V fine 0 (V s) s s' \<and> ((\<forall>a. after = Some a \<longrightarrow> p \<le> a) \<longrightarrow>
         (\<exists>ks. sorted_wrt (<) ks \<and> set ks = listed (V s) p after \<and> map fst out = take limit ks)))
      (\<lambda>s' er. shard_step ok V fine 0 (V s) s s' \<and> \<not> fine s)"
    and port_usage: "ok 0 s \<Longrightarrow> post (so_usage Op s) (\<lambda>s' c. shard_step ok V fine 0 (V s) s s') (\<lambda>s' er. shard_step ok V fine 0 (V s) s s' \<and> \<not> fine s)"
    and port_flush: "ok 0 s \<Longrightarrow> post (so_flush Op s) (\<lambda>s' c. shard_step ok V fine 0 (V s) s s') (\<lambda>s' er. shard_step ok V fine 0 (V s) s s' \<and> \<not> fine s)"
    and port_save: "ok 0 s \<Longrightarrow> post (so_save_cursor Op s name pos) (\<lambda>s' c. shard_step ok V fine 0 (V s) s s') (\<lambda>s' er. shard_step ok V fine 0 (V s) s s' \<and> \<not> fine s)"
    and port_load: "ok 0 s \<Longrightarrow> post (so_load_cursor Op s name) (\<lambda>s' c. shard_step ok V fine 0 (V s) s s') (\<lambda>s' er. shard_step ok V fine 0 (V s) s s' \<and> \<not> fine s)"
    and port_scrub: "ok 0 s \<Longrightarrow> post (so_scrub_step Op s after limit) (\<lambda>s' c. shard_step ok V fine 0 (V s) s s') (\<lambda>s' er. shard_step ok V fine 0 (V s) s s' \<and> \<not> fine s)"

text \<open>The full contract gives the plain one.\<close>

sublocale shard_port \<subseteq> shard_contract Op ok V
proof (unfold_locales, goal_cases)
  case (1 n s m)
  then show ?case by (rule port_mono)
next
  case (2 n s k body)
  then show ?case by (intro post_mono [OF port_put]) (auto simp: shard_step_def intro: port_mono)
next
  case (3 n s k body obj)
  then show ?case by (intro post_mono [OF port_put_meta]) (auto simp: shard_step_def intro: port_mono)
next
  case (4 n s k)
  then have "ok 0 s" by (rule port_mono) simp
  from port_get [OF this] show ?case by (rule post_mono) (use 4 in \<open>auto simp: shard_step_def\<close>)
next
  case (5 n s k)
  then have "ok 0 s" by (rule port_mono) simp
  from port_has [OF this] show ?case by (rule post_mono) (use 5 in \<open>auto simp: shard_step_def\<close>)
next
  case (6 n s k)
  then have "ok 0 s" by (rule port_mono) simp
  from port_delete [OF this] show ?case by (rule post_mono) (use 6 in \<open>auto simp: shard_step_def\<close>)
next
  case (7 n s k)
  then have "ok 0 s" by (rule port_mono) simp
  from port_stat [OF this] show ?case by (rule post_mono) (use 7 in \<open>auto simp: shard_step_def\<close>)
next
  case (8 n s k)
  then have "ok 0 s" by (rule port_mono) simp
  from port_stat_obj [OF this] show ?case by (rule post_mono) (use 8 in \<open>auto simp: shard_step_def\<close>)
next
  case (9 n s k obj)
  then have "ok 0 s" by (rule port_mono) simp
  from port_set_obj [OF this] show ?case by (rule post_mono) (use 9 in \<open>auto simp: shard_step_def\<close>)
qed

section \<open>The disk engine satisfies it\<close>

definition engine_ok :: "('t, 'm) engine_env \<Rightarrow> nat \<Rightarrow> ('t, 'm) engine \<Rightarrow> bool" where
  "engine_ok E n e \<longleftrightarrow> engine_inv E e \<and> room e (2 * n)"

definition engine_fine :: "('t, 'm) engine \<Rightarrow> bool" where
  "engine_fine e \<longleftrightarrow> calm (fs_faults (en_disk e)) \<and> calm (fs_read_faults (en_disk e)) \<and> calm (en_index_faults e)"

lemma engine_shard_step:
  assumes "engine_step E (2 * m) W e e'"
  shows "shard_step (engine_ok E) (view E) engine_fine m W e e'"
proof -
  note d = engine_stepD [OF assms]
  have "engine_ok E n e'" if "engine_ok E (m + n) e" for n
    using that d(1) d(7) [of "2 * n"] by (simp add: engine_ok_def)
  then show ?thesis using d by (simp add: shard_step_def engine_fine_def)
qed

lemmas engine_shard_step0 = engine_shard_step [where m = 0, simplified]
  and engine_shard_step1 = engine_shard_step [where m = 1, simplified]

lemma stat_obj_spec:
  assumes inv: "engine_inv E e"
  shows "post (engine_stat_obj E e k) (\<lambda>e' m. engine_step E 0 (view E e) e e' \<and> (\<exists>b. view E e k = Some b \<and> fst m = length b))
    (\<lambda>e' er. engine_step E 0 (view E e) e e' \<and> (if er = NotFound then view E e k = None else \<not> calm (en_index_faults e)))"
  unfolding engine_stat_obj_def
  by (rule post_and_then [OF post_mono [OF lookup_spec [OF inv, where n = 0]]], assumption)
    (auto simp: lookup_is_def entry_is_def split: lookup.split)

lemma save_cursor_spec:
  assumes inv: "engine_inv E e"
  shows "post (engine_save_cursor E e name pos) (\<lambda>e' u. engine_step E 0 (view E e) e e')
    (\<lambda>e' er. engine_step E 0 (view E e) e e' \<and> \<not> calm (fs_faults (en_disk e)))"
  unfolding engine_save_cursor_def
  by (rule post_mono [OF db_write_spec [OF inv, where V = "view E e"]])
    (use engine_invD(3) [OF inv] in \<open>auto simp: view_def intro: old_addrs_refl\<close>)

lemma scrub_keys_step: "engine_inv E e \<Longrightarrow> engine_step E 0 (view E e) e (fst (scrub_keys E ks st e))"
proof (induction ks arbitrary: st e)
  case (Cons k ks)
  obtain e' r where g: "engine_get E e k = (e', r)" by fastforce
  have s: "engine_step E 0 (view E e) e e'" using get_spec [OF Cons.prems, of k] by (cases r) (simp_all add: g)
  note d = engine_stepD [OF s]
  show ?case using engine_step_trans0 [OF s Cons.IH [OF d(1), unfolded d(2)]] by (cases r) (simp_all add: g)
qed (simp add: engine_step_refl)

context engine_laws
begin

lemma engine_list_spec:
  assumes inv: "engine_inv E e"
  shows "post (engine_list E e p after limit) (\<lambda>e' out. engine_step E 0 (view E e) e e' \<and>
      ((\<forall>a. after = Some a \<longrightarrow> p \<le> a) \<longrightarrow> (\<exists>ks. sorted_wrt (<) ks \<and> set ks = listed (view E e) p after \<and> map fst out = take limit ks)))
    (\<lambda>e' er. engine_step E 0 (view E e) e e' \<and> \<not> calm (en_index_faults e))"
  unfolding engine_list_def
proof (rule post_mono [OF db_read_spec [OF inv, where n = 0]])
  fix e' out
  assume a: "engine_step E 0 (view E e) e e' \<and> out = list_rows E (en_index e) p after limit \<and> en_disk e' = en_disk e \<and> en_index e' = en_index e"
  have "\<exists>ks. sorted_wrt (<) ks \<and> set ks = listed (view E e) p after \<and> map fst out = take limit ks" if "\<forall>a. after = Some a \<longrightarrow> p \<le> a"
    using list_rows_spec [OF inv that, of limit] a by (auto simp: comp_def)
  with a show "engine_step E 0 (view E e) e e' \<and> ((\<forall>a. after = Some a \<longrightarrow> p \<le> a) \<longrightarrow>
      (\<exists>ks. sorted_wrt (<) ks \<and> set ks = listed (view E e) p after \<and> map fst out = take limit ks))" by blast
qed simp

lemma scrub_step_spec:
  assumes inv: "engine_inv E e"
  shows "post (engine_scrub_step E e after limit) (\<lambda>e' st. engine_step E 0 (view E e) e e')
    (\<lambda>e' er. engine_step E 0 (view E e) e e' \<and> \<not> calm (en_index_faults e))"
  unfolding engine_scrub_step_def
proof (rule post_and_then [OF post_mono [OF engine_list_spec [OF inv]]])
  fix e1 rows
  assume s: "engine_step E 0 (view E e) e e1"
  note d = engine_stepD [OF s]
  show "post (let keys = map fst rows;
         st = \<lparr>ss_checked = 0, ss_bytes = 0, ss_corrupt = [], ss_last_key = None, ss_done = (length keys < limit)\<rparr>;
         (e, st) = scrub_keys E keys st e1 in
     (e, Inr (st\<lparr>ss_last_key := (if keys = [] then None else Some (last keys))\<rparr>)))
     (\<lambda>e' st. engine_step E 0 (view E e) e e') (\<lambda>e' er. engine_step E 0 (view E e) e e' \<and> \<not> calm (en_index_faults e))"
    using engine_step_trans0 [OF s scrub_keys_step [OF d(1), unfolded d(2)]]
    by (auto simp: Let_def split_beta)
qed auto

end

sublocale engine_laws \<subseteq> disk: shard_port "disk_ops E" "engine_ok E" "view E" engine_fine
proof (unfold_locales, goal_cases)
  case (1 n s m)
  then show ?case by (auto simp: engine_ok_def room_def)
next
  case (2 s k body)
  then have i: "engine_inv E s" "room s 2" by (auto simp: engine_ok_def room_def)
  from put_impl_spec [OF i 2(2,3), of None] show ?case
    by (simp add: disk_ops_def engine_put_def, elim post_mono) (auto intro: engine_shard_step1 simp: engine_fine_def)
next
  case (3 s k body obj)
  then have i: "engine_inv E s" "room s 2" by (auto simp: engine_ok_def room_def)
  from put_impl_spec [OF i 3(2,3), of obj] show ?case
    by (simp add: disk_ops_def engine_put_meta_def, elim post_mono) (auto intro: engine_shard_step1 simp: engine_fine_def)
next
  case (4 s k)
  then have i: "engine_inv E s" by (simp add: engine_ok_def)
  from get_spec [OF i, of k] show ?case
    by (simp add: disk_ops_def, elim post_mono) (auto intro: engine_shard_step0 simp: engine_fine_def split: if_splits)
next
  case (5 s k)
  then have i: "engine_inv E s" by (simp add: engine_ok_def)
  from has_spec [OF i, of k] show ?case
    by (simp add: disk_ops_def, elim post_mono) (auto intro: engine_shard_step0 simp: engine_fine_def)
next
  case (6 s k)
  then have i: "engine_inv E s" by (simp add: engine_ok_def)
  from delete_spec [OF i, of k 0] show ?case
    by (simp add: disk_ops_def, elim post_mono) (auto intro: engine_shard_step0 simp: engine_fine_def)
next
  case (7 s k)
  then have i: "engine_inv E s" by (simp add: engine_ok_def)
  from stat_spec [OF i, of k] show ?case
    by (simp add: disk_ops_def, elim post_mono) (auto intro: engine_shard_step0 simp: engine_fine_def split: if_splits)
next
  case (8 s k)
  then have i: "engine_inv E s" by (simp add: engine_ok_def)
  from stat_obj_spec [OF i, of k] show ?case
    by (simp add: disk_ops_def, elim post_mono) (auto intro: engine_shard_step0 simp: engine_fine_def split: if_splits)
next
  case (9 s k obj)
  then have i: "engine_inv E s" by (simp add: engine_ok_def)
  from set_obj_logical_spec [OF i, of k obj] show ?case
    by (simp add: disk_ops_def, elim post_mono) (auto intro: engine_shard_step0 simp: engine_fine_def)
next
  case (10 s p after limit)
  then have i: "engine_inv E s" by (simp add: engine_ok_def)
  from engine_list_spec [OF i, of p after limit] show ?case
    by (simp add: disk_ops_def, elim post_mono) (auto intro: engine_shard_step0 simp: engine_fine_def)
next
  case (11 s)
  then have i: "engine_inv E s" by (simp add: engine_ok_def)
  show ?case using engine_shard_step0 [OF engine_step_refl [OF i]] by (simp add: disk_ops_def engine_usage_def)
next
  case (12 s)
  then have i: "engine_inv E s" by (simp add: engine_ok_def)
  from flush_spec [OF i] show ?case
    by (simp add: disk_ops_def, elim post_mono) (auto intro: engine_shard_step0 simp: engine_fine_def)
next
  case (13 s name pos)
  then have i: "engine_inv E s" by (simp add: engine_ok_def)
  from save_cursor_spec [OF i, of name pos] show ?case
    by (simp add: disk_ops_def, elim post_mono) (auto intro: engine_shard_step0 simp: engine_fine_def)
next
  case (14 s name)
  then have i: "engine_inv E s" by (simp add: engine_ok_def)
  from db_read_spec [OF i, where n = 0 and f = "\<lambda>ix. kv_get (ee_kv E) (ix_cursor ix) (ascii name)"] show ?case
    by (simp add: disk_ops_def engine_load_cursor_def, elim post_mono) (auto intro: engine_shard_step0 simp: engine_fine_def)
next
  case (15 s after limit)
  then have i: "engine_inv E s" by (simp add: engine_ok_def)
  from scrub_step_spec [OF i, of after limit] show ?case
    by (simp add: disk_ops_def, elim post_mono) (auto intro: engine_shard_step0 simp: engine_fine_def)
qed

end
