(* ===== verification/Health.thy ===== *)
theory Health
  imports Domain
begin

text \<open>
  The disk-health state machine (\<open>ozd-app/src/health.rs\<close>): one observation per monitor cycle, a status
  with hysteresis. The counters are \<open>u32\<close> in the code; \<open>fsm_bounds\<close> shows that they never exceed
  their thresholds, so they are plain numbers here.
\<close>

section \<open>The machine\<close>

datatype observation = Healthy | Degraded | Down

datatype fsm_state = SOnline | SSuspect | SFaulted | SReturning

record health_fsm =
  hf_state :: fsm_state
  hf_fails :: nat
  hf_oks :: nat
  hf_suspect_after :: nat
  hf_recover_after :: nat

definition health_new :: "nat \<Rightarrow> nat \<Rightarrow> health_fsm" where
  "health_new suspect_after recover_after =
     \<lparr>hf_state = SOnline, hf_fails = 0, hf_oks = 0, hf_suspect_after = max suspect_after 1,
      hf_recover_after = max recover_after 1\<rparr>"

definition health_reset :: "health_fsm \<Rightarrow> health_fsm" where
  "health_reset h = h\<lparr>hf_fails := 0, hf_oks := 0\<rparr>"

fun health_status_of :: "fsm_state \<Rightarrow> shard_status" where
  "health_status_of SOnline = Online"
| "health_status_of SSuspect = Suspect"
| "health_status_of SReturning = Suspect"
| "health_status_of SFaulted = Faulted"

definition health_status :: "health_fsm \<Rightarrow> shard_status" where
  "health_status h = health_status_of (hf_state h)"

definition health_step :: "health_fsm \<Rightarrow> observation \<Rightarrow> health_fsm" where
  "health_step h obs = (case (hf_state h, obs) of
     (SOnline, Healthy) \<Rightarrow> h\<lparr>hf_fails := 0\<rparr>
   | (SOnline, Degraded) \<Rightarrow>
       (let h = h\<lparr>hf_fails := hf_fails h + 1\<rparr> in
        if hf_suspect_after h \<le> hf_fails h then (health_reset h)\<lparr>hf_state := SSuspect\<rparr> else h)
   | (SOnline, Down) \<Rightarrow> (health_reset h)\<lparr>hf_state := SSuspect\<rparr>
   | (SSuspect, Healthy) \<Rightarrow>
       (let h = h\<lparr>hf_fails := 0, hf_oks := hf_oks h + 1\<rparr> in
        if hf_recover_after h \<le> hf_oks h then (health_reset h)\<lparr>hf_state := SOnline\<rparr> else h)
   | (SSuspect, Degraded) \<Rightarrow> h\<lparr>hf_oks := 0\<rparr>
   | (SSuspect, Down) \<Rightarrow>
       (let h = h\<lparr>hf_oks := 0, hf_fails := hf_fails h + 1\<rparr> in
        if hf_suspect_after h \<le> hf_fails h then (health_reset h)\<lparr>hf_state := SFaulted\<rparr> else h)
   | (SFaulted, Healthy) \<Rightarrow> (health_reset h)\<lparr>hf_oks := 1, hf_state := SReturning\<rparr>
   | (SFaulted, _) \<Rightarrow> h
   | (SReturning, Healthy) \<Rightarrow>
       (let h = h\<lparr>hf_oks := hf_oks h + 1\<rparr> in
        if hf_recover_after h \<le> hf_oks h then (health_reset h)\<lparr>hf_state := SOnline\<rparr> else h)
   | (SReturning, _) \<Rightarrow> (health_reset h)\<lparr>hf_state := SFaulted\<rparr>)"

definition health_observe :: "health_fsm \<Rightarrow> observation \<Rightarrow> health_fsm \<times> shard_status" where
  "health_observe h obs = (let h = health_step h obs in (h, health_status h))"

definition health_run :: "health_fsm \<Rightarrow> observation list \<Rightarrow> health_fsm" where
  "health_run h obs = fold (\<lambda>ob h. fst (health_observe h ob)) obs h"

section \<open>Reachable states\<close>

text \<open>States with the number of \<open>Down\<close> observations that led to them.\<close>

inductive fsm_reach :: "nat \<Rightarrow> nat \<Rightarrow> health_fsm \<Rightarrow> nat \<Rightarrow> bool" for s r where
  start: "fsm_reach s r (health_new s r) 0"
| step: "fsm_reach s r h n \<Longrightarrow> fsm_reach s r (health_step h ob) (n + (if ob = Down then 1 else 0))"

definition fsm_inv :: "nat \<Rightarrow> nat \<Rightarrow> health_fsm \<Rightarrow> nat \<Rightarrow> bool" where
  "fsm_inv s r h n \<longleftrightarrow> hf_suspect_after h = max s 1 \<and> hf_recover_after h = max r 1 \<and>
     hf_fails h < max s 1 \<and> hf_oks h \<le> max r 1 \<and>
     (hf_state h = SSuspect \<longrightarrow> hf_oks h < max r 1 \<and> hf_fails h \<le> n) \<and>
     (hf_state h = SFaulted \<longrightarrow> hf_fails h = 0 \<and> hf_oks h = 0 \<and> max s 1 \<le> n) \<and>
     (hf_state h = SReturning \<longrightarrow> hf_fails h = 0 \<and> 0 < hf_oks h \<and> max s 1 \<le> n) \<and>
     (hf_state h = SOnline \<longrightarrow> hf_oks h = 0)"

lemma fsm_inv_step: "fsm_inv s r h n \<Longrightarrow> fsm_inv s r (health_step h ob) (n + (if ob = Down then 1 else 0))"
  by (cases "hf_state h"; cases ob) (auto simp: fsm_inv_def health_step_def health_reset_def Let_def max_def)

lemma fsm_inv_reach: "fsm_reach s r h n \<Longrightarrow> fsm_inv s r h n"
proof (induction rule: fsm_reach.induct)
  case start
  then show ?case by (auto simp: fsm_inv_def health_new_def)
next
  case (step h n ob)
  from step.IH show ?case by (rule fsm_inv_step)
qed

lemma run_reach_gen:
  "fsm_reach s r h n \<Longrightarrow> fsm_reach s r (health_run h obs) (n + length (filter ((=) Down) obs))"
proof (induction obs arbitrary: h n)
  case Nil
  then show ?case by (simp add: health_run_def)
next
  case (Cons ob obs)
  from Cons.IH [OF fsm_reach.step [OF Cons.prems, of ob]] show ?case
    by (cases ob) (simp_all add: health_run_def health_observe_def Let_def)
qed

lemma run_reach: "fsm_reach s r (health_run (health_new s r) obs) (length (filter ((=) Down) obs))"
  using run_reach_gen [OF fsm_reach.start] by simp

section \<open>Properties\<close>

text \<open>In every state the machine can reach, the counters stay within their thresholds (so the \<open>u32\<close> additions of the
  code cannot overflow), and a \<open>Faulted\<close> or \<open>Returning\<close> disk has been seen \<open>Down\<close> at least
  \<open>suspect_after\<close> times.\<close>

theorem fsm_bounds:
  assumes "fsm_reach s r h n"
  shows "hf_fails h < max s 1 \<and> hf_oks h \<le> max r 1 \<and>
    (hf_state h = SFaulted \<or> hf_state h = SReturning \<longrightarrow> max s 1 \<le> n)"
  using fsm_inv_reach [OF assms] by (auto simp: fsm_inv_def)

theorem fsm_bounds_witness:
  "hf_fails (health_run (health_new 2 2) [Degraded, Degraded, Down, Down]) < 2 \<and>
   hf_state (health_run (health_new 2 2) [Degraded, Degraded, Down, Down]) = SFaulted \<and>
   2 \<le> length (filter ((=) Down) [Degraded, Degraded, Down, Down])"
proof -
  have "hf_state (health_run (health_new 2 2) [Degraded, Degraded, Down, Down]) = SFaulted" by code_simp
  with fsm_bounds [OF run_reach [of 2 2 "[Degraded, Degraded, Down, Down]"]] show ?thesis by simp
qed

text \<open>Hysteresis on the way down. A disk that is only ever seen healthy or degraded is never taken out of
  placement, however long it flaps.\<close>

theorem never_faulted_without_down:
  assumes "Down \<notin> set obs"
  shows "health_status (health_run (health_new s r) obs) \<noteq> Faulted"
proof -
  have "filter ((=) Down) obs = []" using assms by (auto simp: filter_empty_conv)
  with fsm_inv_reach [OF run_reach [of s r obs]] show ?thesis
    by (cases "hf_state (health_run (health_new s r) obs)") (auto simp: fsm_inv_def health_status_def)
qed

theorem never_faulted_without_down_witness:
  "health_status (health_run (health_new 1 1) [Degraded, Healthy, Degraded, Degraded]) \<noteq> Faulted"
  by (rule never_faulted_without_down) simp

lemma returning_run:
  assumes "hf_state h = SReturning" and "0 < hf_recover_after h" and "hf_fails h = 0"
  shows "hf_state (health_run h (replicate n Healthy)) = SOnline \<longleftrightarrow> 0 < n \<and> hf_recover_after h \<le> hf_oks h + n"
  using assms
proof (induction n arbitrary: h)
  case (Suc n)
  let ?h = "health_step h Healthy"
  have run: "health_run h (replicate (Suc n) Healthy) = health_run ?h (replicate n Healthy)"
    by (simp add: health_run_def health_observe_def Let_def)
  have online: "hf_state (health_run g (replicate m Healthy)) = SOnline" if "hf_state g = SOnline" for g m
    using that
  proof (induction m arbitrary: g)
    case (Suc m)
    from Suc.IH [of "health_step g Healthy"] Suc.prems show ?case
      by (simp add: health_run_def health_observe_def Let_def health_step_def)
  qed (simp add: health_run_def)
  show ?case
  proof (cases "hf_recover_after h \<le> hf_oks h + 1")
    case True
    then have "hf_state ?h = SOnline" using Suc.prems by (simp add: health_step_def health_reset_def Let_def)
    then show ?thesis using online True unfolding run by simp
  next
    case False
    then have h: "?h = h\<lparr>hf_oks := hf_oks h + 1\<rparr>" using Suc.prems by (simp add: health_step_def Let_def)
    show ?thesis using Suc.IH [of ?h] Suc.prems False unfolding run by (auto simp: h)
  qed
qed (simp add: health_run_def)

text \<open>Hysteresis on the way up. From \<open>Faulted\<close>, a run of healthy observations brings the disk back online exactly when
  it is at least two long and at least \<open>recover_after\<close> long.\<close>

theorem recovery_needs_probes:
  assumes "hf_state h = SFaulted" and "0 < hf_recover_after h"
  shows "health_status (health_run h (replicate n Healthy)) = Online \<longleftrightarrow> max 2 (hf_recover_after h) \<le> n"
proof (cases n)
  case 0
  then show ?thesis using assms by (simp add: health_run_def health_status_def)
next
  case (Suc m)
  let ?h = "health_step h Healthy"
  have h: "hf_state ?h = SReturning" "hf_oks ?h = 1" "hf_fails ?h = 0" "hf_recover_after ?h = hf_recover_after h"
    using assms by (simp_all add: health_step_def health_reset_def)
  have run: "health_run h (replicate n Healthy) = health_run ?h (replicate m Healthy)"
    by (simp add: Suc health_run_def health_observe_def Let_def)
  have st: "health_status g = Online \<longleftrightarrow> hf_state g = SOnline" for g by (cases "hf_state g") (simp_all add: health_status_def)
  have "0 < hf_recover_after ?h" using assms(2) h(4) by simp
  note r = returning_run [OF h(1) this h(3), of m, unfolded h(2,4)]
  show ?thesis unfolding run st r using Suc by auto
qed

theorem recovery_needs_probes_witness:
  "health_status (health_run (health_run (health_new 1 3) [Down, Down]) (replicate 3 Healthy)) = Online \<and>
   health_status (health_run (health_run (health_new 1 3) [Down, Down]) (replicate 2 Healthy)) \<noteq> Online"
proof -
  let ?h = "health_run (health_new 1 3) [Down, Down]"
  have h: "hf_state ?h = SFaulted" "hf_recover_after ?h = 3"
    by (simp_all add: health_run_def health_observe_def health_step_def health_reset_def health_new_def Let_def)
  then have "0 < hf_recover_after ?h" by simp
  note r = recovery_needs_probes [OF h(1) this, unfolded h(2)]
  show ?thesis unfolding r by simp
qed

end
