(* ===== verification/Monitor.thy ===== *)
theory Monitor
  imports Ozd_Prelude "HOL-Library.Log_Nat"
begin

text \<open>
  Latency monitoring: the per-shard moving average with its slow-disk verdict
  (\<open>ozd-app/src/diskslow.rs\<close>) and the rolling 99th percentile of read latencies that sets the hedge
  threshold (\<open>ozd-app/src/latency.rs\<close>). Latencies are microseconds; \<open>f64\<close> products are exact
  rationals, cast to \<open>u64\<close> by truncation with saturation. The atomics of one call are one step.
\<close>

section \<open>Slow disks\<close>

record disk_slow_config =
  ds_abs_floor_ms :: nat
  ds_rel_factor :: rat
  ds_min_samples :: nat

definition disk_slow_config_default :: disk_slow_config where
  "disk_slow_config_default = \<lparr>ds_abs_floor_ms = 250, ds_rel_factor = 4, ds_min_samples = 32\<rparr>"

record disk_slow_monitor =
  dm_ewma_us :: "u64 list"
  dm_counts :: "nat list"

definition disk_slow_new :: "nat \<Rightarrow> disk_slow_monitor" where
  "disk_slow_new n = \<lparr>dm_ewma_us = replicate n 0, dm_counts = replicate n 0\<rparr>"

definition ewma_next :: "u64 \<Rightarrow> u64 \<Rightarrow> u64" where
  "ewma_next old us = (old * (8 - 1) + us * 1) div 8"

definition disk_slow_record :: "disk_slow_monitor \<Rightarrow> nat \<Rightarrow> nat \<Rightarrow> disk_slow_monitor" where
  "disk_slow_record m shard lat_us =
     (if length (dm_ewma_us m) \<le> shard then m
      else
        let us = word_of_nat lat_us;
            n = dm_counts m ! shard in
        m\<lparr>dm_counts := (dm_counts m)[shard := n + 1],
          dm_ewma_us := (dm_ewma_us m)[shard := (if n = 0 then us else ewma_next (dm_ewma_us m ! shard) us)]\<rparr>)"

definition ewma_ms :: "disk_slow_monitor \<Rightarrow> nat \<Rightarrow> nat" where
  "ewma_ms m shard = (if shard < length (dm_ewma_us m) then unat (dm_ewma_us m ! shard div 1000) else 0)"

definition ds_samples :: "disk_slow_monitor \<Rightarrow> nat \<Rightarrow> nat" where
  "ds_samples m shard = (if shard < length (dm_counts m) then dm_counts m ! shard else 0)"

definition saturate64 :: "rat \<Rightarrow> nat" where
  "saturate64 x = min (nat \<lfloor>x\<rfloor>) (2 ^ 64 - 1)"

definition participating :: "disk_slow_monitor \<Rightarrow> disk_slow_config \<Rightarrow> nat list" where
  "participating m cfg = map (\<lambda>i. unat (dm_ewma_us m ! i))
     (filter (\<lambda>i. ds_min_samples cfg \<le> dm_counts m ! i) [0..<length (dm_ewma_us m)])"

definition slow_threshold :: "disk_slow_monitor \<Rightarrow> disk_slow_config \<Rightarrow> nat" where
  "slow_threshold m cfg =
     (let ps = sort (participating m cfg);
          median_us = (if length ps div 2 < length ps then ps ! (length ps div 2) else 0);
          floor_us = ds_abs_floor_ms cfg * 1000;
          rel_us = saturate64 (of_nat median_us * ds_rel_factor cfg) in
      max floor_us rel_us)"

definition verdicts :: "disk_slow_monitor \<Rightarrow> disk_slow_config \<Rightarrow> bool list" where
  "verdicts m cfg = map (\<lambda>i. ds_min_samples cfg \<le> dm_counts m ! i \<and> slow_threshold m cfg < unat (dm_ewma_us m ! i))
     [0..<length (dm_ewma_us m)]"

subsection \<open>Properties\<close>

lemma ewma_next_nat:
  assumes "unat old < 2 ^ 60" and "unat us < 2 ^ 60"
  shows "unat (ewma_next old us) = (7 * unat old + unat us) div 8"
proof -
  have "unat (old * 7) = unat old * 7" using assms(1) by (simp add: unat_word_ariths)
  then have "unat (old * 7 + us) = 7 * unat old + unat us" using assms by (simp add: unat_word_ariths)
  then show ?thesis by (simp add: ewma_next_def unat_div)
qed

lemma disk_slow_record_step:
  assumes "length (dm_ewma_us m) = 1" and "length (dm_counts m) = 1" and "0 < dm_counts m ! 0"
  shows "dm_ewma_us (disk_slow_record m 0 x) = [ewma_next (dm_ewma_us m ! 0) (word_of_nat x)]"
    and "dm_counts (disk_slow_record m 0 x) = [dm_counts m ! 0 + 1]"
  using assms by (auto simp: disk_slow_record_def Let_def length_Suc_conv)

text \<open>The moving average of samples within a range stays within the range (for latencies below \<open>2^60\<close> microseconds,
  where the \<open>u64\<close> arithmetic does not wrap), so one outlier cannot push it past the worst latency seen.\<close>

theorem ewma_bounded:
  assumes "\<forall>x \<in> set lats. lo \<le> x \<and> x \<le> hi" and "lats \<noteq> []" and "hi < 2 ^ 60"
  shows "let e = dm_ewma_us (fold (\<lambda>x m. disk_slow_record m 0 x) lats (disk_slow_new 1)) ! 0 in lo \<le> unat e \<and> unat e \<le> hi"
proof -
  have gen: "let m' = fold (\<lambda>x m. disk_slow_record m 0 x) xs m in
      length (dm_ewma_us m') = 1 \<and> length (dm_counts m') = 1 \<and> 0 < dm_counts m' ! 0 \<and> lo \<le> unat (dm_ewma_us m' ! 0) \<and> unat (dm_ewma_us m' ! 0) \<le> hi"
    if "\<forall>x \<in> set xs. lo \<le> x \<and> x \<le> hi" "length (dm_ewma_us m) = 1" "length (dm_counts m) = 1" "0 < dm_counts m ! 0"
      "lo \<le> unat (dm_ewma_us m ! 0)" "unat (dm_ewma_us m ! 0) \<le> hi" for xs m
    using that
  proof (induction xs arbitrary: m)
    case (Cons x xs)
    have x: "lo \<le> x" "x \<le> hi" "unat (word_of_nat x :: u64) = x"
      using Cons.prems(1) assms(3) by (auto simp: unat_of_nat)
    have "unat (ewma_next (dm_ewma_us m ! 0) (word_of_nat x)) = (7 * unat (dm_ewma_us m ! 0) + x) div 8"
      using Cons.prems(6) x assms(3) by (subst ewma_next_nat) simp_all
    then have "lo \<le> unat (ewma_next (dm_ewma_us m ! 0) (word_of_nat x))" "unat (ewma_next (dm_ewma_us m ! 0) (word_of_nat x)) \<le> hi"
      using Cons.prems(5,6) x by linarith+
    then show ?case using Cons.prems Cons.IH [of "disk_slow_record m 0 x"]
      by (simp add: disk_slow_record_step)
  qed simp
  obtain x xs where l: "lats = x # xs" using assms(2) by (cases lats) auto
  have x: "lo \<le> x" "x \<le> hi" "unat (word_of_nat x :: u64) = x" using assms(1,3) by (auto simp: l unat_of_nat)
  have first: "disk_slow_record (disk_slow_new 1) 0 x = \<lparr>dm_ewma_us = [word_of_nat x], dm_counts = [1]\<rparr>"
    by (simp add: disk_slow_record_def disk_slow_new_def)
  from gen [of xs "\<lparr>dm_ewma_us = [word_of_nat x], dm_counts = [1]\<rparr>"] assms(1) x show ?thesis
    by (simp add: l first [unfolded One_nat_def] Let_def)
qed

theorem ewma_bounded_witness:
  "let e = dm_ewma_us (fold (\<lambda>x m. disk_slow_record m 0 x) [100, 900, 400] (disk_slow_new 1)) ! 0 in 100 \<le> unat e \<and> unat e \<le> 900"
  by (rule ewma_bounded) simp_all

lemma above_median_minority:
  fixes xs :: "nat list"
  assumes "xs \<noteq> []" and "sort xs ! (length xs div 2) \<le> t"
  shows "2 * length (filter (\<lambda>x. t < x) xs) < length xs"
proof -
  let ?s = "sort xs" and ?n = "length xs div 2"
  have n: "?n < length xs" using assms(1) by (cases xs) auto
  have low: "\<not> t < x" if "x \<in> set (take (Suc ?n) ?s)" for x
  proof -
    from that obtain i where i: "i \<le> ?n" "x = ?s ! i" using n by (auto simp: in_set_conv_nth less_Suc_eq_le)
    have "?s ! i \<le> ?s ! ?n" using i(1) n by (intro sorted_nth_mono) simp_all
    with i assms(2) show ?thesis by simp
  qed
  have "length (filter (\<lambda>x. t < x) xs) = length (filter (\<lambda>x. t < x) ?s)"
    by (metis filter_sort length_sort)
  also have "\<dots> = length (filter (\<lambda>x. t < x) (take (Suc ?n) ?s @ drop (Suc ?n) ?s))" by simp
  also have "\<dots> = length (filter (\<lambda>x. t < x) (drop (Suc ?n) ?s))"
    unfolding filter_append using low by (simp add: filter_empty_conv)
  also have "\<dots> \<le> length xs - Suc ?n" by (metis length_drop length_filter_le length_sort)
  finally show ?thesis using n by linarith
qed

lemma count_verdicts:
  "length (filter id (verdicts m cfg)) = length (filter (\<lambda>x. slow_threshold m cfg < x) (participating m cfg))"
  by (simp add: verdicts_def participating_def filter_map comp_def conj_commute)

text \<open>The verdict compares a disk with its fleet: with a factor of at least one (and medians that fit \<open>u64\<close>), slow disks are always
  a strict minority of the disks with enough samples, so a uniformly slow fleet is not declared slow.\<close>

theorem slow_disks_minority:
  assumes "1 \<le> ds_rel_factor cfg" and "participating m cfg \<noteq> []"
  shows "2 * length (filter id (verdicts m cfg)) < length (participating m cfg)"
proof -
  let ?ps = "participating m cfg"
  let ?med = "sort ?ps ! (length ?ps div 2)"
  have n: "length ?ps div 2 < length ?ps" using assms(2) by (cases ?ps) auto
  have "?med \<in> set ?ps" using n by (metis length_sort nth_mem set_sort)
  then obtain w :: u64 where w: "?med = unat w" unfolding participating_def by auto
  have m64: "?med \<le> 2 ^ 64 - 1" using unsigned_less [of w, where 'a = nat] unfolding w by simp
  have "of_nat ?med * 1 \<le> of_nat ?med * ds_rel_factor cfg" using assms(1) by (intro mult_left_mono) simp_all
  then have "int ?med \<le> \<lfloor>of_nat ?med * ds_rel_factor cfg\<rfloor>" by (simp add: le_floor_iff)
  then have "?med \<le> nat \<lfloor>of_nat ?med * ds_rel_factor cfg\<rfloor>" by linarith
  then have "?med \<le> slow_threshold m cfg"
    using m64 n by (simp add: slow_threshold_def saturate64_def Let_def le_max_iff_disj)
  from above_median_minority [OF assms(2) this] show ?thesis by (simp add: count_verdicts)
qed

theorem slow_disks_minority_witness:
  "2 * length (filter id (verdicts \<lparr>dm_ewma_us = [9000000, 1000, 1000], dm_counts = [40, 40, 40]\<rparr> disk_slow_config_default)) < 3"
proof -
  let ?m = "\<lparr>dm_ewma_us = [9000000, 1000, 1000], dm_counts = [40, 40, 40]\<rparr> :: disk_slow_monitor"
  have p: "participating ?m disk_slow_config_default = [9000000, 1000, 1000]"
    by (simp add: participating_def disk_slow_config_default_def upt_rec)
  show ?thesis using slow_disks_minority [of disk_slow_config_default ?m] unfolding p by (simp add: disk_slow_config_default_def)
qed

section \<open>Rolling 99th percentile\<close>

definition latency_buckets :: nat where
  "latency_buckets = 22"

record rolling_p99 =
  rp_window_us :: nat
  rp_min_samples :: nat
  rp_cur :: nat
  rp_epoch_start_us :: nat
  rp_buckets :: "nat list list"
  rp_counts :: "nat list"

definition bucket_idx :: "nat \<Rightarrow> nat" where
  "bucket_idx us = min (floorlog 2 (max us 1) - 1) (latency_buckets - 1)"

definition rolling_new :: "nat \<Rightarrow> nat \<Rightarrow> rolling_p99" where
  "rolling_new window min_samples =
     \<lparr>rp_window_us = window, rp_min_samples = min_samples, rp_cur = 0, rp_epoch_start_us = 0,
      rp_buckets = replicate 2 (replicate latency_buckets 0), rp_counts = [0, 0]\<rparr>"

definition maybe_rotate :: "rolling_p99 \<Rightarrow> nat \<Rightarrow> rolling_p99" where
  "maybe_rotate h now_us =
     (let start = rp_epoch_start_us h in
      if now_us - start < rp_window_us h then h
      else
        let stale_both = rp_window_us h * 2 \<le> now_us - start;
            nxt = 1 - rp_cur h;
            zero = replicate latency_buckets 0;
            bs = (rp_buckets h)[nxt := zero];
            cs = (rp_counts h)[nxt := 0];
            old = 1 - nxt in
        h\<lparr>rp_cur := nxt,
          rp_buckets := (if stale_both then bs[old := zero] else bs),
          rp_counts := (if stale_both then cs[old := 0] else cs),
          rp_epoch_start_us := now_us\<rparr>)"

definition record_at :: "rolling_p99 \<Rightarrow> nat \<Rightarrow> nat \<Rightarrow> rolling_p99" where
  "record_at h lat_us now_us =
     (let h = maybe_rotate h now_us; e = rp_cur h; b = bucket_idx lat_us in
      h\<lparr>rp_buckets := (rp_buckets h)[e := (rp_buckets h ! e)[b := rp_buckets h ! e ! b + 1]],
        rp_counts := (rp_counts h)[e := rp_counts h ! e + 1]\<rparr>)"

fun p99_scan :: "nat \<Rightarrow> nat \<Rightarrow> nat \<Rightarrow> nat list \<Rightarrow> nat" where
  "p99_scan target i cum [] = 2 ^ latency_buckets"
| "p99_scan target i cum (b # bs) =
     (if target \<le> cum + b then 2 ^ (i + 1) else p99_scan target (i + 1) (cum + b) bs)"

definition p99_at :: "rolling_p99 \<Rightarrow> nat \<Rightarrow> rolling_p99 \<times> nat option" where
  "p99_at h now_us =
     (let h = maybe_rotate h now_us;
          n = rp_counts h ! 0 + rp_counts h ! 1 in
      (h, if n < rp_min_samples h then None
          else Some (p99_scan ((n * 99 + 99) div 100) 0 0 (map2 (+) (rp_buckets h ! 0) (rp_buckets h ! 1)))))"

subsection \<open>Invariant\<close>

definition rolling_inv :: "rolling_p99 \<Rightarrow> bool" where
  "rolling_inv h \<longleftrightarrow> rp_cur h < 2 \<and> length (rp_buckets h) = 2 \<and> length (rp_counts h) = 2 \<and>
     (\<forall>e < 2. length (rp_buckets h ! e) = latency_buckets \<and> rp_counts h ! e = sum_list (rp_buckets h ! e))"

lemma bucket_idx_bound [simp]: "bucket_idx us < latency_buckets"
  by (simp add: bucket_idx_def latency_buckets_def min_less_iff_disj)

lemma bucket_idx_le:
  assumes "us < 2 ^ latency_buckets" and "i < latency_buckets"
  shows "bucket_idx us \<le> i \<longleftrightarrow> us < 2 ^ (i + 1)"
proof -
  have "(1 :: nat) < 2 ^ (i + 1)" by (rule one_less_power) simp_all
  then have "max us 1 < 2 ^ (i + 1) \<longleftrightarrow> us < 2 ^ (i + 1)" unfolding max_less_iff_conj by blast
  then have "floorlog 2 (max us 1) \<le> i + 1 \<longleftrightarrow> us < 2 ^ (i + 1)" by (simp add: floorlog_le_iff)
  moreover have "bucket_idx us \<le> i \<longleftrightarrow> floorlog 2 (max us 1) \<le> i + 1 \<or> i = latency_buckets - 1"
    using assms(2) by (auto simp: bucket_idx_def min_def latency_buckets_def)
  ultimately show ?thesis using assms by (auto simp: latency_buckets_def)
qed

lemma sum_list_bump: "b < length xs \<Longrightarrow> sum_list (xs[b := xs ! b + 1]) = sum_list xs + (1 :: nat)"
  by (induction xs arbitrary: b) (auto split: nat.split)

lemma rolling_inv_new [simp]: "rolling_inv (rolling_new w n)"
  by (auto simp: rolling_inv_def rolling_new_def less_2_cases_iff sum_list_replicate)

lemma two_cases: "e < 2 \<Longrightarrow> e = 0 \<or> e = (1 :: nat)"
  by auto

lemma rolling_inv_rotate [simp]:
  assumes "rolling_inv h"
  shows "rolling_inv (maybe_rotate h now)"
proof -
  obtain a b c d where l: "rp_buckets h = [a, b]" "rp_counts h = [c, d]" "rp_cur h = 0 \<or> rp_cur h = 1"
    using assms by (auto simp: rolling_inv_def numeral_2_eq_2 length_Suc_conv less_Suc_eq)
  have "length a = latency_buckets" "c = sum_list a" "length b = latency_buckets" "d = sum_list b"
    using assms l unfolding rolling_inv_def by (auto simp: numeral_2_eq_2 All_less_Suc2)
  with l show ?thesis
    by (auto simp: rolling_inv_def maybe_rotate_def Let_def numeral_2_eq_2 All_less_Suc2 sum_list_replicate)
qed

lemma rolling_inv_record: 
  assumes "rolling_inv h"
  shows "rolling_inv (record_at h lat now)"
proof -
  have i: "rolling_inv (maybe_rotate h now)" using assms by simp
  let ?h = "maybe_rotate h now"
  have "bucket_idx lat < length (rp_buckets ?h ! rp_cur ?h)" using i by (simp add: rolling_inv_def)
  from sum_list_bump [OF this] i show ?thesis
    by (simp add: record_at_def Let_def rolling_inv_def nth_list_update)
qed

subsection \<open>The percentile is exact up to the bucket\<close>

lemma p99_scan_spec:
  assumes "target \<le> cum + sum_list bs" and "i + length bs = latency_buckets" and "cum < target \<or> i = 0" and "bs \<noteq> []"
  shows "\<exists>j < length bs. p99_scan target i cum bs = 2 ^ (i + j + 1) \<and> target \<le> cum + sum_list (take (Suc j) bs) \<and>
     (0 < i + j \<longrightarrow> cum + sum_list (take j bs) < target)"
  using assms
proof (induction bs arbitrary: i cum)
  case (Cons b bs)
  show ?case
  proof (cases "target \<le> cum + b")
    case True
    then show ?thesis using Cons.prems by (intro exI [of _ 0]) auto
  next
    case False
    then have ne: "bs \<noteq> []" using Cons.prems(1) by auto
    from Cons.IH [of "cum + b" "i + 1"] False Cons.prems ne obtain j where
      "j < length bs" "p99_scan target (i + 1) (cum + b) bs = 2 ^ (i + 1 + j + 1)"
      "target \<le> cum + b + sum_list (take (Suc j) bs)" "cum + b + sum_list (take j bs) < target"
      by (auto simp: add.assoc)
    with False show ?thesis by (intro exI [of _ "Suc j"]) (simp add: add.assoc)
  qed
qed simp

definition bucket_counts :: "nat list \<Rightarrow> nat list" where
  "bucket_counts lats = map (\<lambda>i. length (filter (\<lambda>x. bucket_idx x = i) lats)) [0..<latency_buckets]"

lemma sum_bucket_counts:
  "i \<le> latency_buckets \<Longrightarrow> sum_list (take i (bucket_counts lats)) = length (filter (\<lambda>x. bucket_idx x < i) lats)"
proof (induction i)
  case (Suc i)
  have "length (filter (\<lambda>x. bucket_idx x < Suc i) lats) =
      length (filter (\<lambda>x. bucket_idx x < i) lats) + length (filter (\<lambda>x. bucket_idx x = i) lats)"
    by (induction lats) auto
  with Suc show ?case by (simp add: take_Suc_conv_app_nth bucket_counts_def)
qed simp

lemma bucket_counts_snoc:
  "bucket_counts (lats @ [x]) = (bucket_counts lats)[bucket_idx x := bucket_counts lats ! bucket_idx x + 1]"
  by (rule nth_equalityI) (auto simp: bucket_counts_def nth_list_update)

lemma rotate_within_window: "now - rp_epoch_start_us h < rp_window_us h \<Longrightarrow> maybe_rotate h now = h"
  by (simp add: maybe_rotate_def)

lemma length_bucket_counts [simp]: "length (bucket_counts lats) = latency_buckets"
  by (simp add: bucket_counts_def)

lemma bucket_counts_Nil: "replicate latency_buckets 0 = bucket_counts []"
  by (rule nth_equalityI) (simp_all add: bucket_counts_def)

lemma bucket_counts_append: "map2 (+) (bucket_counts xs) (bucket_counts ys) = bucket_counts (xs @ ys)"
  by (rule nth_equalityI) (simp_all add: bucket_counts_def)

lemma bucket_counts_append': "map2 (+) (bucket_counts ys) (bucket_counts xs) = bucket_counts (xs @ ys)"
  by (rule nth_equalityI) (simp_all add: bucket_counts_def)

text \<open>A latency beyond the histogram counts as the greatest one it can tell apart, just under 4.2 seconds.\<close>

definition capped :: "nat \<Rightarrow> nat" where
  "capped us = min us (2 ^ latency_buckets - 1)"

lemma capped_less [simp]: "capped us < 2 ^ latency_buckets"
  by (simp add: capped_def min_less_iff_disj)

lemma bucket_idx_capped [simp]: "bucket_idx (capped us) = bucket_idx us"
proof (cases "us < 2 ^ latency_buckets")
  case True
  then have "capped us = us" unfolding capped_def by linarith
  then show ?thesis by simp
next
  case False
  have top: "\<not> bucket_idx x \<le> 20" if "2 ^ 21 \<le> x" for x
  proof -
    have "\<not> floorlog 2 (max x 1) \<le> 21" using that by (simp add: floorlog_le_iff)
    then show ?thesis by (simp add: bucket_idx_def latency_buckets_def)
  qed
  have "bucket_idx x = 21" if "2 ^ 21 \<le> x" for x
    using top [OF that] bucket_idx_bound [of x] by (simp add: latency_buckets_def)
  moreover have "2 ^ 21 \<le> us" "2 ^ 21 \<le> capped us" using False by (simp_all add: capped_def latency_buckets_def)
  ultimately show ?thesis by metis
qed

text \<open>The estimate over any list of samples.\<close>

lemma scan_bounds:
  fixes lats :: "nat list"
  defines "N \<equiv> length lats" and "d \<equiv> p99_scan ((length lats * 99 + 99) div 100) 0 0 (bucket_counts lats)"
  shows "99 * N \<le> 100 * length (filter (\<lambda>x. capped x < d) lats)" "2 < d \<Longrightarrow> 100 * length (filter (\<lambda>x. capped x < d div 2) lats) < 99 * N"
proof -
  let ?target = "(N * 99 + 99) div 100" and ?bs = "bucket_counts lats"
  have all: "sum_list ?bs = N" using sum_bucket_counts [of latency_buckets lats] by (simp add: N_def)
  have cnt: "sum_list (take (Suc j) ?bs) = length (filter (\<lambda>x. capped x < 2 ^ (j + 1)) lats)" if "j < latency_buckets" for j
  proof -
    have "bucket_idx x < Suc j \<longleftrightarrow> capped x < 2 ^ (j + 1)" for x
      using bucket_idx_le [OF capped_less that, of x] by (simp add: less_Suc_eq_le)
    then show ?thesis using sum_bucket_counts [of "Suc j" lats] that by simp
  qed
  obtain j where j: "j < latency_buckets" "d = 2 ^ (j + 1)" "?target \<le> sum_list (take (Suc j) ?bs)" "0 < j \<longrightarrow> sum_list (take j ?bs) < ?target"
  proof -
    have "?target \<le> 0 + sum_list ?bs" unfolding all by linarith
    moreover have "?bs \<noteq> []" using length_bucket_counts [of lats] by (auto simp: latency_buckets_def simp del: length_bucket_counts)
    ultimately show ?thesis using p99_scan_spec [of ?target 0 ?bs 0] that by (force simp: d_def N_def)
  qed
  show "99 * N \<le> 100 * length (filter (\<lambda>x. capped x < d) lats)" using j(3) cnt [OF j(1)] unfolding j(2) by linarith
  assume "2 < d"
  then obtain i where i: "j = Suc i" using j(2) by (cases j) auto
  show "100 * length (filter (\<lambda>x. capped x < d div 2) lats) < 99 * N"
    using j(1,4) cnt [of i] unfolding i j(2) by simp
qed

subsection \<open>Which samples are counted\<close>

text \<open>
  The histograms stand for lists of samples: a history of samples with their times falls into those that are forgotten, those of the previous
  epoch and those of the current one.
\<close>

definition stands_for :: "nat \<Rightarrow> nat \<Rightarrow> rolling_p99 \<Rightarrow> (nat \<times> nat) list \<Rightarrow> bool" where
  "stands_for w n h xs \<longleftrightarrow> rp_window_us h = w \<and> rp_min_samples h = n \<and> (\<exists>old prev cur. xs = old @ prev @ cur \<and>
     (rp_cur h = 0 \<and> rp_buckets h = [bucket_counts (map fst cur), bucket_counts (map fst prev)] \<and> rp_counts h = [length cur, length prev] \<or>
      rp_cur h = 1 \<and> rp_buckets h = [bucket_counts (map fst prev), bucket_counts (map fst cur)] \<and> rp_counts h = [length prev, length cur]) \<and>
     (\<forall>x \<in> set cur. rp_epoch_start_us h \<le> snd x \<and> snd x < rp_epoch_start_us h + w) \<and>
     (\<forall>x \<in> set prev. snd x < rp_epoch_start_us h \<and> rp_epoch_start_us h < snd x + 2 * w) \<and>
     (\<forall>x \<in> set old. snd x + w \<le> rp_epoch_start_us h))"

lemma stands_for_new: "stands_for w n (rolling_new w n) []"
  by (simp add: stands_for_def rolling_new_def numeral_2_eq_2 bucket_counts_Nil)

lemma stands_for_rotate:
  assumes h: "stands_for w n h xs" and w: "0 < w" and now: "rp_epoch_start_us h \<le> now"
  shows "stands_for w n (maybe_rotate h now) xs" "rp_epoch_start_us (maybe_rotate h now) \<le> now" "now < rp_epoch_start_us (maybe_rotate h now) + w"
proof -
  let ?s = "rp_epoch_start_us h"
  have hw: "rp_window_us h = w" "rp_min_samples h = n" using h by (simp_all add: stands_for_def)
  obtain old prev cur where x: "xs = old @ prev @ cur"
      "rp_cur h = 0 \<and> rp_buckets h = [bucket_counts (map fst cur), bucket_counts (map fst prev)] \<and> rp_counts h = [length cur, length prev] \<or>
       rp_cur h = 1 \<and> rp_buckets h = [bucket_counts (map fst prev), bucket_counts (map fst cur)] \<and> rp_counts h = [length prev, length cur]"
      "\<forall>x \<in> set cur. ?s \<le> snd x \<and> snd x < ?s + w" "\<forall>x \<in> set prev. snd x < ?s \<and> ?s < snd x + 2 * w" "\<forall>x \<in> set old. snd x + w \<le> ?s"
    using h unfolding stands_for_def by blast
  show start: "rp_epoch_start_us (maybe_rotate h now) \<le> now" "now < rp_epoch_start_us (maybe_rotate h now) + w"
    using now w by (auto simp: maybe_rotate_def hw Let_def)
  consider "now - ?s < w" | "w \<le> now - ?s" "now - ?s < 2 * w" | "2 * w \<le> now - ?s" by linarith
  then show "stands_for w n (maybe_rotate h now) xs"
  proof cases
    case 1
    then show ?thesis using h by (simp add: rotate_within_window hw)
  next
    case 2
    let ?h = "maybe_rotate h now"
    have t: "\<forall>x \<in> set cur. snd x < now \<and> now < snd x + 2 * w" "\<forall>x \<in> set (old @ prev). snd x + w \<le> now"
      using 2 x(3-5) by (fastforce simp: ball_Un)+
    have e: "?h = h\<lparr>rp_cur := 1 - rp_cur h, rp_buckets := (rp_buckets h)[1 - rp_cur h := replicate latency_buckets 0],
        rp_counts := (rp_counts h)[1 - rp_cur h := 0], rp_epoch_start_us := now\<rparr>"
      using 2 by (simp add: maybe_rotate_def hw Let_def mult.commute)
    have "rp_cur ?h = 0 \<and> rp_buckets ?h = [bucket_counts (map fst []), bucket_counts (map fst cur)] \<and> rp_counts ?h = [length [], length cur] \<or>
       rp_cur ?h = 1 \<and> rp_buckets ?h = [bucket_counts (map fst cur), bucket_counts (map fst [])] \<and> rp_counts ?h = [length cur, length []]"
      using x(2) unfolding e by (elim disjE conjE) (simp_all add: bucket_counts_Nil)
    then show ?thesis unfolding stands_for_def
      by (intro conjI exI [of _ "old @ prev"] exI [of _ cur] exI [of _ "[]"]) (use x(1) t in \<open>simp_all add: e hw\<close>)
  next
    case 3
    let ?h = "maybe_rotate h now"
    have t: "\<forall>x \<in> set (old @ prev @ cur). snd x + w \<le> now" using 3 x(3-5) w by (fastforce simp: ball_Un)
    have nw: "\<not> now - ?s < w" "w * 2 \<le> now - ?s" using 3 w by linarith+
    have e: "?h = h\<lparr>rp_cur := 1 - rp_cur h,
        rp_buckets := (rp_buckets h)[1 - rp_cur h := replicate latency_buckets 0, 1 - (1 - rp_cur h) := replicate latency_buckets 0],
        rp_counts := (rp_counts h)[1 - rp_cur h := 0, 1 - (1 - rp_cur h) := 0], rp_epoch_start_us := now\<rparr>"
      using nw by (simp add: maybe_rotate_def hw Let_def)
    have "rp_cur ?h = 0 \<and> rp_buckets ?h = [bucket_counts (map fst []), bucket_counts (map fst [])] \<and> rp_counts ?h = [length [], length []] \<or>
       rp_cur ?h = 1 \<and> rp_buckets ?h = [bucket_counts (map fst []), bucket_counts (map fst [])] \<and> rp_counts ?h = [length [], length []]"
      using x(2) unfolding e by (elim disjE conjE) (simp_all add: bucket_counts_Nil)
    then show ?thesis unfolding stands_for_def
      by (intro conjI exI [of _ "old @ prev @ cur"] exI [of _ "[]"]) (use x(1) t in \<open>simp_all add: e hw\<close>)
  qed
qed

lemma stands_for_record:
  assumes "stands_for w n h xs" and "0 < w" and "rp_epoch_start_us h \<le> t"
  shows "stands_for w n (record_at h lat t) (xs @ [(lat, t)])" "rp_epoch_start_us (record_at h lat t) \<le> t"
proof -
  let ?h = "maybe_rotate h t"
  note r = stands_for_rotate [OF assms]
  show "rp_epoch_start_us (record_at h lat t) \<le> t" using r(2) by (simp add: record_at_def Let_def)
  obtain old prev cur where x: "xs = old @ prev @ cur"
      "rp_cur ?h = 0 \<and> rp_buckets ?h = [bucket_counts (map fst cur), bucket_counts (map fst prev)] \<and> rp_counts ?h = [length cur, length prev] \<or>
       rp_cur ?h = 1 \<and> rp_buckets ?h = [bucket_counts (map fst prev), bucket_counts (map fst cur)] \<and> rp_counts ?h = [length prev, length cur]"
      "\<forall>x \<in> set cur. rp_epoch_start_us ?h \<le> snd x \<and> snd x < rp_epoch_start_us ?h + w"
      "\<forall>x \<in> set prev. snd x < rp_epoch_start_us ?h \<and> rp_epoch_start_us ?h < snd x + 2 * w" "\<forall>x \<in> set old. snd x + w \<le> rp_epoch_start_us ?h"
    using r(1) unfolding stands_for_def by blast
  let ?k = "record_at h lat t"
  have same: "rp_window_us ?k = rp_window_us ?h" "rp_min_samples ?k = rp_min_samples ?h" "rp_cur ?k = rp_cur ?h"
    "rp_epoch_start_us ?k = rp_epoch_start_us ?h"
    by (simp_all add: record_at_def Let_def)
  have "rp_cur ?k = 0 \<and> rp_buckets ?k = [bucket_counts (map fst (cur @ [(lat, t)])), bucket_counts (map fst prev)] \<and>
        rp_counts ?k = [length (cur @ [(lat, t)]), length prev] \<or>
      rp_cur ?k = 1 \<and> rp_buckets ?k = [bucket_counts (map fst prev), bucket_counts (map fst (cur @ [(lat, t)]))] \<and>
        rp_counts ?k = [length prev, length (cur @ [(lat, t)])]"
    using x(2) by (elim disjE conjE) (simp_all add: record_at_def Let_def bucket_counts_snoc)
  moreover have "\<forall>y \<in> set (cur @ [(lat, t)]). rp_epoch_start_us ?h \<le> snd y \<and> snd y < rp_epoch_start_us ?h + w"
    using x(3) r(2,3) by simp
  moreover have "rp_window_us ?h = w" "rp_min_samples ?h = n" using r(1) by (simp_all add: stands_for_def)
  ultimately show "stands_for w n ?k (xs @ [(lat, t)])"
    unfolding stands_for_def same
    by (intro conjI exI [of _ old] exI [of _ prev] exI [of _ "cur @ [(lat, t)]"]) (use x(1,4,5) in simp_all)
qed

lemma stands_for_history:
  assumes "0 < w" and "sorted (map snd xs)"
  shows "stands_for w n (fold (\<lambda>(lat, t) h. record_at h lat t) xs (rolling_new w n)) xs \<and>
    (\<forall>t. (\<forall>x \<in> set xs. snd x \<le> t) \<longrightarrow> rp_epoch_start_us (fold (\<lambda>(lat, t) h. record_at h lat t) xs (rolling_new w n)) \<le> t)"
  using assms(2)
proof (induction xs rule: rev_induct)
  case Nil
  have "rp_epoch_start_us (rolling_new w n) = 0" by (simp add: rolling_new_def)
  then show ?case by (simp add: stands_for_new)
next
  case (snoc x xs)
  obtain lat t where x: "x = (lat, t)" by fastforce
  let ?h = "fold (\<lambda>(lat, t) h. record_at h lat t) xs (rolling_new w n)"
  have "\<forall>y \<in> set xs. snd y \<le> t" "sorted (map snd xs)" using snoc.prems by (auto simp: x sorted_append)
  with snoc.IH have h: "stands_for w n ?h xs" "rp_epoch_start_us ?h \<le> t" by blast+
  from stands_for_record [OF h(1) assms(1) h(2), of lat] show ?case by (auto simp: x intro: order_trans)
qed

text \<open>C30: the estimate is the 99th percentile of the recent samples, rounded up to a power of two. For samples recorded in the order of their times and
  any later moment there is a suffix of the history that has every sample younger than the window and none older than three windows; with too few
  samples in it there is no estimate, and otherwise the estimate is above at least 99 percent of them and half of it is not. Latencies beyond
  4.2 seconds count as 4.2 seconds.\<close>

theorem p99_bounds:
  assumes "0 < w" and "sorted (map snd xs)" and "\<forall>x \<in> set xs. snd x \<le> now"
    and "p = snd (p99_at (fold (\<lambda>(lat, t) h. record_at h lat t) xs (rolling_new w n)) now)"
  shows "\<exists>old recent. xs = old @ recent \<and> (\<forall>x \<in> set old. snd x + w \<le> now) \<and> (\<forall>x \<in> set recent. now < snd x + 3 * w) \<and>
    (case p of
       None \<Rightarrow> length recent < n
     | Some d \<Rightarrow> n \<le> length recent \<and> 99 * length recent \<le> 100 * length (filter (\<lambda>x. capped (fst x) < d) recent) \<and>
         (2 < d \<longrightarrow> 100 * length (filter (\<lambda>x. capped (fst x) < d div 2) recent) < 99 * length recent))"
proof -
  let ?h0 = "fold (\<lambda>(lat, t) h. record_at h lat t) xs (rolling_new w n)"
  let ?h = "maybe_rotate ?h0 now"
  note h0 = conjunct1 [OF stands_for_history [OF assms(1,2)], of n] conjunct2 [OF stands_for_history [OF assms(1,2)], of n, THEN spec, THEN mp, OF assms(3)]
  note r = stands_for_rotate [OF h0(1) assms(1) h0(2)]
  obtain old prev cur where x: "xs = old @ prev @ cur"
      "rp_cur ?h = 0 \<and> rp_buckets ?h = [bucket_counts (map fst cur), bucket_counts (map fst prev)] \<and> rp_counts ?h = [length cur, length prev] \<or>
       rp_cur ?h = 1 \<and> rp_buckets ?h = [bucket_counts (map fst prev), bucket_counts (map fst cur)] \<and> rp_counts ?h = [length prev, length cur]"
      "\<forall>x \<in> set cur. rp_epoch_start_us ?h \<le> snd x \<and> snd x < rp_epoch_start_us ?h + w"
      "\<forall>x \<in> set prev. snd x < rp_epoch_start_us ?h \<and> rp_epoch_start_us ?h < snd x + 2 * w" "\<forall>x \<in> set old. snd x + w \<le> rp_epoch_start_us ?h"
    using r(1) unfolding stands_for_def by blast
  let ?recent = "prev @ cur"
  let ?lats = "map fst ?recent"
  let ?d = "p99_scan ((length ?lats * 99 + 99) div 100) 0 0 (bucket_counts ?lats)"
  have "rp_min_samples ?h = n" using r(1) by (simp add: stands_for_def)
  then have p: "p = (if length ?recent < n then None else Some ?d)"
    using x(2)
  proof (elim disjE conjE)
    assume "rp_buckets ?h = [bucket_counts (map fst cur), bucket_counts (map fst prev)]" "rp_counts ?h = [length cur, length prev]" and "rp_min_samples ?h = n"
    then show ?thesis
      by (simp add: assms(4) p99_at_def Let_def bucket_counts_append' add.commute [of "length cur"] add.commute [of "length cur * 99"])
  next
    assume "rp_buckets ?h = [bucket_counts (map fst prev), bucket_counts (map fst cur)]" "rp_counts ?h = [length prev, length cur]" and "rp_min_samples ?h = n"
    then show ?thesis by (simp add: assms(4) p99_at_def Let_def bucket_counts_append)
  qed
  have cnt: "length (filter (\<lambda>x. capped x < e) ?lats) = length (filter (\<lambda>x. capped (fst x) < e) ?recent)" for e
    by (simp add: filter_map comp_def)
  have "\<forall>x \<in> set old. snd x + w \<le> now" using x(5) r(2) by (meson order_trans)
  moreover have "\<forall>x \<in> set ?recent. now < snd x + 3 * w" using x(3,4) r(3) by (fastforce simp: ball_Un)
  ultimately show ?thesis using x(1) scan_bounds [of ?lats, unfolded cnt] p
    by (intro exI [of _ old] exI [of _ ?recent]) simp
qed

theorem p99_bounds_witness:
  "\<exists>d. snd (p99_at (fold (\<lambda>(lat, t) h. record_at h lat t) [(5, 0), (900, 50), (7, 70)] (rolling_new 60 2)) 100) = Some d \<and>
     list_all (\<lambda>x. x < d) [900, 7]"
proof -
  let ?xs = "[(5, 0), (900, 50), (7, 70)] :: (nat \<times> nat) list"
  let ?p = "snd (p99_at (fold (\<lambda>(lat, t) h. record_at h lat t) ?xs (rolling_new 60 2)) 100)"
  have "0 < (60 :: nat)" "sorted (map snd ?xs)" "\<forall>x \<in> set ?xs. snd x \<le> 100" by simp_all
  from p99_bounds [OF this refl, of 2] obtain old recent where s: "?xs = old @ recent" "\<forall>x \<in> set old. snd x + 60 \<le> 100"
    "case ?p of None \<Rightarrow> length recent < 2
     | Some d \<Rightarrow> 2 \<le> length recent \<and> 99 * length recent \<le> 100 * length (filter (\<lambda>x. capped (fst x) < d) recent) \<and>
         (2 < d \<longrightarrow> 100 * length (filter (\<lambda>x. capped (fst x) < d div 2) recent) < 99 * length recent)" by (elim exE conjE) (rule that)
  have "old = [] \<and> recent = ?xs \<or> old = [(5, 0)] \<and> recent = [(900, 50), (7, 70)]"
    using s(1,2) by (cases old; cases "tl old") (auto simp: Cons_eq_append_conv)
  then obtain d where d: "?p = Some d" "length recent \<le> 3" "99 * length recent \<le> 100 * length (filter (\<lambda>x. capped (fst x) < d) recent)"
    "{(900, 50), (7, 70)} \<subseteq> set recent"
    using s(3) by (cases ?p) auto
  have "length (filter (\<lambda>x. capped (fst x) < d) recent) = length recent"
    using d(2,3) length_filter_le [of "\<lambda>x. capped (fst x) < d" recent] by linarith
  then have "\<forall>x \<in> set recent. capped (fst x) < d" by (metis length_filter_less less_irrefl)
  then have "capped 900 < d" "capped 7 < d" using d(4) by auto
  then have "list_all (\<lambda>x. x < d) [900, 7]" by (simp add: capped_def latency_buckets_def)
  with d(1) show ?thesis by blast
qed

text \<open>Silence of two windows forgets everything: the estimate is withheld until new samples arrive.\<close>

theorem p99_stale:
  assumes "rolling_inv h" and "rp_epoch_start_us h + rp_window_us h * 2 \<le> now" and "0 < rp_window_us h" and "0 < rp_min_samples h"
  shows "snd (p99_at h now) = None"
proof -
  obtain a b c d where l: "rp_buckets h = [a, b]" "rp_counts h = [c, d]" "rp_cur h = 0 \<or> rp_cur h = 1"
    using assms(1) by (auto simp: rolling_inv_def numeral_2_eq_2 length_Suc_conv less_Suc_eq)
  have "\<not> now - rp_epoch_start_us h < rp_window_us h" "rp_window_us h * 2 \<le> now - rp_epoch_start_us h"
    using assms(2,3) by linarith+
  with l assms(4) show ?thesis by (auto simp: p99_at_def maybe_rotate_def Let_def)
qed

theorem p99_stale_witness:
  "snd (p99_at (rolling_new 60 3) 120) = None"
  by (rule p99_stale) (simp_all, simp_all add: rolling_new_def)

end
