(* ===== verification/Placement.thy ===== *)
theory Placement
  imports Domain "HOL-Library.Multiset"
begin

text \<open>
  Weighted rendezvous placement (\<open>ozd-app/src/placement.rs\<close>). The keyed hash
  \<open>xxh3_64_with_seed\<close> is a parameter; scores are exact reals where the code has \<open>f64\<close>. The
  descending stable sort is the library's stable ascending sort on negated scores.
\<close>

record rendezvous_hrw =
  fill_block :: real

definition rendezvous_default :: rendezvous_hrw where
  "rendezvous_default = \<lparr>fill_block = 95 / 100\<rparr>"

type_synonym topology = "(shard_id \<times> capacity \<times> shard_status) list"
type_synonym keyed_hash = "bytes \<Rightarrow> u64 \<Rightarrow> u64"

definition h01 :: "keyed_hash \<Rightarrow> bytes \<Rightarrow> shard_id \<Rightarrow> real" where
  "h01 xxh3 key shard = (real (unat (xxh3 key (word_of_nat shard + 1))) + 1) / (real (2 ^ 64 - 1) + 2)"

definition eligible :: "rendezvous_hrw \<Rightarrow> capacity \<Rightarrow> shard_status \<Rightarrow> bool" where
  "eligible p cap st \<longleftrightarrow>
     (if st = Faulted then False
      else if 0 < total_bytes cap then \<not> fill_block p \<le> 1 - real (free_bytes cap) / real (total_bytes cap)
      else True)"

definition weight :: "capacity \<Rightarrow> shard_status \<Rightarrow> real" where
  "weight cap st =
     (let w = (if 0 < free_bytes cap then real (free_bytes cap) else 1) in
      if st = Suspect then w * (1 / 100) else w)"

definition score :: "keyed_hash \<Rightarrow> block_key \<Rightarrow> shard_id \<times> capacity \<times> shard_status \<Rightarrow> real" where
  "score xxh3 key = (\<lambda>(shard, cap, st). - weight cap st / ln (h01 xxh3 key shard))"

definition ranking :: "rendezvous_hrw \<Rightarrow> keyed_hash \<Rightarrow> block_key \<Rightarrow> topology \<Rightarrow> topology" where
  "ranking p xxh3 key topology =
     sort_key (\<lambda>t. - score xxh3 key t) (filter (\<lambda>(_, cap, st). eligible p cap st) topology)"

definition select :: "rendezvous_hrw \<Rightarrow> keyed_hash \<Rightarrow> block_key \<Rightarrow> topology \<Rightarrow> nat \<Rightarrow> shard_id list" where
  "select p xxh3 key topology rf = map fst (take rf (ranking p xxh3 key topology))"

section \<open>Scores are positive\<close>

lemma h01_range: "0 < h01 xxh3 key shard" "h01 xxh3 key shard < 1"
proof -
  have "unat (xxh3 key (word_of_nat shard + 1)) < 2 ^ 64" using unsigned_less [of "xxh3 key (word_of_nat shard + 1)", where 'a = nat] by simp
  then have "real (unat (xxh3 key (word_of_nat shard + 1))) < 2 ^ 64"
    by (metis of_nat_less_iff of_nat_numeral of_nat_power)
  then show "h01 xxh3 key shard < 1" by (simp add: h01_def)
  show "0 < h01 xxh3 key shard"
    unfolding h01_def by (intro divide_pos_pos add_nonneg_pos of_nat_0_le_iff zero_less_one) simp
qed

text \<open>In exact arithmetic every score is a positive number: the hash is mapped strictly inside the unit interval and weights are positive. (The
  code computes in \<open>f64\<close>, where a hash that rounds to \<open>2^64\<close> gives 1 and its score is minus infinity.)\<close>

theorem score_pos: "0 < score xxh3 key t"
proof -
  obtain shard cap st where t: "t = (shard, cap, st)" by (cases t)
  have "ln (h01 xxh3 key shard) < 0" using h01_range [of xxh3 key shard] by (simp add: ln_less_zero)
  moreover have "0 < weight cap st" by (simp add: weight_def Let_def)
  ultimately show ?thesis by (simp add: t score_def divide_pos_neg)
qed

section \<open>What select returns\<close>

lemma set_ranking: "set (ranking p xxh3 key topology) = {t \<in> set topology. eligible p (fst (snd t)) (snd (snd t))}"
  by (auto simp: ranking_def)

lemma length_ranking:
  "length (ranking p xxh3 key topology) = length (filter (\<lambda>(_, cap, st). eligible p cap st) topology)"
  by (simp add: ranking_def)

lemma map_filter_distinct: "distinct (map f xs) \<Longrightarrow> distinct (map f (filter P xs))"
  by (induction xs) auto

lemma distinct_ranking:
  assumes "distinct (map fst topology)"
  shows "distinct (map fst (ranking p xxh3 key topology))"
proof -
  have "mset (map fst (ranking p xxh3 key topology)) = mset (map fst (filter (\<lambda>(_, cap, st). eligible p cap st) topology))"
    by (simp add: ranking_def)
  then show ?thesis using map_filter_distinct [OF assms] by (metis mset_eq_imp_distinct_iff)
qed

lemma sorted_ranking: "sorted (map (\<lambda>t. - score xxh3 key t) (ranking p xxh3 key topology))"
  by (simp add: ranking_def)

text \<open>C27: a selection names distinct shards of the topology, none of them faulted or filled up, and as many as asked for
  when enough shards are eligible; every selected shard outranks every eligible shard left out.\<close>

theorem select_correct:
  assumes "distinct (map fst topology)"
  shows "let chosen = select p xxh3 key topology rf in
     distinct chosen \<and>
     length chosen = min rf (length (filter (\<lambda>(_, cap, st). eligible p cap st) topology)) \<and>
     (\<forall>s \<in> set chosen. \<exists>cap st. (s, cap, st) \<in> set topology \<and> st \<noteq> Faulted \<and> eligible p cap st) \<and>
     (\<forall>t \<in> set topology. \<forall>u \<in> set topology. fst t \<in> set chosen \<longrightarrow> fst u \<notin> set chosen \<longrightarrow>
        eligible p (fst (snd u)) (snd (snd u)) \<longrightarrow> score xxh3 key u \<le> score xxh3 key t)"
  unfolding Let_def
proof (intro conjI ballI impI)
  let ?r = "ranking p xxh3 key topology"
  let ?chosen = "select p xxh3 key topology rf"
  show "distinct ?chosen" using distinct_ranking [OF assms] by (simp add: select_def take_map [symmetric])
  show "length ?chosen = min rf (length (filter (\<lambda>(_, cap, st). eligible p cap st) topology))"
    by (simp add: select_def length_ranking min.commute)
  show "\<exists>cap st. (s, cap, st) \<in> set topology \<and> st \<noteq> Faulted \<and> eligible p cap st" if "s \<in> set ?chosen" for s
  proof -
    from that obtain t where "t \<in> set ?r" "s = fst t" by (auto simp: select_def dest: in_set_takeD)
    then have "(s, fst (snd t), snd (snd t)) \<in> set topology" "eligible p (fst (snd t)) (snd (snd t))" "snd (snd t) \<noteq> Faulted"
      unfolding set_ranking by (auto simp: eligible_def)
    then show ?thesis by blast
  qed
  fix t u
  assume t: "t \<in> set topology" "fst t \<in> set ?chosen" and u: "u \<in> set topology" "fst u \<notin> set ?chosen" "eligible p (fst (snd u)) (snd (snd u))"
  obtain t' where t': "t' \<in> set (take rf ?r)" "fst t' = fst t" using t(2) by (auto simp: select_def)
  then have "t' \<in> set ?r" by (blast dest: in_set_takeD)
  then have "t' \<in> set topology" by (simp add: set_ranking)
  with t' t(1) assms have "t' = t" by (metis (no_types) eq_key_imp_eq_value prod.collapse)
  have "u \<in> set ?r" using u by (simp add: set_ranking)
  moreover have "u \<notin> set (take rf ?r)" using u(2) by (auto simp: select_def)
  ultimately have "u \<in> set (drop rf ?r)" by (metis Un_iff append_take_drop_id set_append)
  moreover have "sorted (map (\<lambda>t. - score xxh3 key t) (take rf ?r @ drop rf ?r))" by (simp add: sorted_ranking)
  ultimately show "score xxh3 key u \<le> score xxh3 key t"
    using t'(1) \<open>t' = t\<close> unfolding map_append sorted_append by fastforce
qed

definition sample_topology :: topology where
  "sample_topology = [(0, \<lparr>total_bytes = 100, free_bytes = 50\<rparr>, Online), (1, \<lparr>total_bytes = 100, free_bytes = 2\<rparr>, Online),
     (2, \<lparr>total_bytes = 100, free_bytes = 70\<rparr>, Faulted), (3, \<lparr>total_bytes = 0, free_bytes = 0\<rparr>, Suspect)]"

theorem select_correct_witness:
  "distinct (select rendezvous_default (\<lambda>_ s. s) [7] sample_topology 3) \<and>
   length (select rendezvous_default (\<lambda>_ s. s) [7] sample_topology 3) = 2"
  using select_correct [of sample_topology rendezvous_default "\<lambda>_ s. s" "[7]" 3]
  by (simp add: sample_topology_def eligible_def rendezvous_default_def Let_def)

section \<open>Stability under topology changes\<close>

text \<open>The replicas for a smaller factor are a prefix of those for a larger one, so mirrored copies and the pieces of an
  erasure-coded object share their leading shards.\<close>

theorem select_prefix: "select p xxh3 key topology rf = take rf (select p xxh3 key topology (rf + extra))"
  by (simp add: select_def take_map min_def)

lemma ranking_filter: "ranking p xxh3 key (filter P topology) = filter P (ranking p xxh3 key topology)"
proof -
  have "filter P (ranking p xxh3 key topology) =
      sort_key (\<lambda>t. - score xxh3 key t) (filter P (filter (\<lambda>(_, cap, st). eligible p cap st) topology))"
    by (simp add: ranking_def filter_sort)
  then show ?thesis by (simp add: ranking_def conj_commute)
qed

lemma take_filter_prefix: "set (take n xs) - S \<subseteq> set (take n (filter (\<lambda>x. x \<notin> S) xs))"
proof (induction xs arbitrary: n)
  case (Cons x xs)
  show ?case
  proof (cases n)
    case (Suc k)
    have "set (take k (filter (\<lambda>x. x \<notin> S) xs)) \<subseteq> set (take (Suc k) (filter (\<lambda>x. x \<notin> S) xs))"
      by (rule set_take_subset_set_take) simp
    with Cons [of k] show ?thesis by (auto simp: Suc)
  qed simp
qed simp

text \<open>C31: minimal disruption. Removing shards from the topology moves only the copies they held: every surviving shard
  selected before is selected after, and when none of the removed shards was selected the selection is unchanged. Read
  the other way, adding shards can only replace copies by copies on the added shards.\<close>

theorem select_minimal_disruption:
  "let before = select p xxh3 key topology rf;
       after = select p xxh3 key (filter (\<lambda>t. fst t \<notin> gone) topology) rf in
   set before - gone \<subseteq> set after \<and> (set before \<inter> gone = {} \<longrightarrow> after = before)"
proof -
  let ?r = "ranking p xxh3 key topology"
  let ?S = "{t. fst t \<in> gone}"
  have eq: "ranking p xxh3 key (filter (\<lambda>t. fst t \<notin> gone) topology) = filter (\<lambda>t. t \<notin> ?S) ?r"
    by (simp add: ranking_filter)
  have "set (take rf ?r) - ?S \<subseteq> set (take rf (filter (\<lambda>t. t \<notin> ?S) ?r))" by (rule take_filter_prefix)
  moreover have "take rf (filter (\<lambda>t. t \<notin> ?S) ?r) = take rf ?r" if keep: "\<forall>t \<in> set (take rf ?r). t \<notin> ?S"
  proof -
    have "take rf (filter (\<lambda>t. t \<notin> ?S) ?r) = take rf (filter (\<lambda>t. t \<notin> ?S) (take rf ?r @ drop rf ?r))" by simp
    also have "\<dots> = take rf (take rf ?r @ filter (\<lambda>t. t \<notin> ?S) (drop rf ?r))"
      unfolding filter_append using keep by simp
    also have "\<dots> = take rf ?r" by (cases "rf \<le> length ?r") simp_all
    finally show ?thesis .
  qed
  moreover have "\<forall>t \<in> set (take rf ?r). t \<notin> ?S" if "fst ` set (take rf ?r) \<inter> gone = {}" using that by auto
  ultimately show ?thesis unfolding select_def eq Let_def by (intro conjI impI) (auto simp del: mem_Collect_eq)
qed

theorem select_minimal_disruption_witness:
  "set (select rendezvous_default (\<lambda>_ s. s) [7] sample_topology 2) - {0} \<subseteq>
     set (select rendezvous_default (\<lambda>_ s. s) [7] (filter (\<lambda>t. fst t \<notin> {0}) sample_topology) 2)"
  using select_minimal_disruption [of rendezvous_default "\<lambda>_ s. s" "[7]" sample_topology 2 "{0}"] by (simp add: Let_def)

end
