(* ===== verification/Erasure.thy ===== *)
theory Erasure
  imports Domain
begin

text \<open>
  Erasure coding of bodies (\<open>ozd-app/src/erasure.rs\<close>): a body is cut into \<open>k\<close> zero-padded
  stripes, the Reed-Solomon code of the crate \<open>reed_solomon_erasure\<close> adds \<open>m\<close> parity stripes, and each stripe carries the
  self-describing header of \<open>piece.rs\<close>. The code is a parameter: whether \<open>ReedSolomon::new\<close> accepts
  \<open>k\<close> and \<open>m\<close>, \<open>encode\<close> and \<open>reconstruct\<close>, each \<open>None\<close> where the crate returns an error.
  Configurations have \<open>1 \<le> k\<close> (the code divides by \<open>k\<close>).
\<close>

record ec_config =
  ec_data :: nat
  ec_parity :: nat
  ec_min_size :: nat
  ec_write_quorum :: nat

definition ec_config_default :: ec_config where
  "ec_config_default = \<lparr>ec_data = 4, ec_parity = 2, ec_min_size = 64 * 1024, ec_write_quorum = 5\<rparr>"

definition ec_total :: "ec_config \<Rightarrow> nat" where
  "ec_total cfg = ec_data cfg + ec_parity cfg"

record rs_ops =
  rs_new :: "nat \<Rightarrow> nat \<Rightarrow> bool"
  rs_encode :: "nat \<Rightarrow> nat \<Rightarrow> bytes list \<Rightarrow> bytes list option"
  rs_reconstruct :: "nat \<Rightarrow> nat \<Rightarrow> bytes option list \<Rightarrow> bytes option list option"

definition resize_zero :: "nat \<Rightarrow> bytes \<Rightarrow> bytes" where
  "resize_zero n s = take n s @ replicate (n - length s) 0"

definition ec_stripe :: "bytes \<Rightarrow> nat \<Rightarrow> nat" where
  "ec_stripe data k = max (div_ceil (length data) k) 1"

definition data_stripes :: "bytes \<Rightarrow> nat \<Rightarrow> bytes list" where
  "data_stripes data k =
     (let stripe = ec_stripe data k in
      map (\<lambda>i. resize_zero stripe
            (bslice data (min (i * stripe) (length data)) (min ((i + 1) * stripe) (length data)))) [0..<k])"

definition ec_piece :: "nat \<Rightarrow> nat \<Rightarrow> nat \<Rightarrow> nat \<Rightarrow> bytes \<Rightarrow> bytes" where
  "ec_piece k m logical_len i s =
     encode_piece_header \<lparr>ph_k = word_of_nat k, ph_m = word_of_nat m, ph_idx = word_of_nat i,
       ph_logical_len = word_of_nat logical_len\<rparr> @ s"

definition ec_encode :: "rs_ops \<Rightarrow> bytes \<Rightarrow> ec_config \<Rightarrow> bytes list domain_result" where
  "ec_encode rs data cfg =
     (let k = ec_data cfg; m = ec_parity cfg;
          shards = data_stripes data k @ replicate m (replicate (ec_stripe data k) 0) in
      if \<not> rs_new rs k m then Inl (Io ''reed-solomon init'')
      else case rs_encode rs k m shards of
        None \<Rightarrow> Inl (Io ''rs encode'')
      | Some shards \<Rightarrow> Inr (map2 (ec_piece k m (length data)) [0..<length shards] shards))"

fun decode_slots :: "nat \<Rightarrow> u64 option \<Rightarrow> bytes option list \<Rightarrow> (u64 option \<times> bytes option list) domain_result" where
  "decode_slots i logical [] = Inr (logical, [])"
| "decode_slots i logical (None # slots) =
     (case decode_slots (i + 1) logical slots of
        Inl e \<Rightarrow> Inl e | Inr (l, stripes) \<Rightarrow> Inr (l, None # stripes))"
| "decode_slots i logical (Some p # slots) =
     (case parse_piece_header p of
        None \<Rightarrow> Inl (IntegrityViolation ''bad EC header'')
      | Some h \<Rightarrow>
          if unat (ph_idx h) \<noteq> i then Inl (IntegrityViolation ''piece slot holds another idx'')
          else case decode_slots (i + 1) (Some (ph_logical_len h)) slots of
            Inl e \<Rightarrow> Inl e
          | Inr (l, stripes) \<Rightarrow> Inr (l, Some (drop EC_HEADER_LEN p) # stripes))"

definition assemble :: "nat \<Rightarrow> nat \<Rightarrow> bytes option list \<Rightarrow> bytes" where
  "assemble k logical stripes = take logical (concat (List.map_filter id (take k stripes)))"

definition ec_decode :: "rs_ops \<Rightarrow> bytes option list \<Rightarrow> nat \<Rightarrow> nat \<Rightarrow> bytes domain_result" where
  "ec_decode rs slots k m =
     (if length slots \<noteq> k + m then Inl (Io ''ec decode: slot count'')
      else case decode_slots 0 None slots of
        Inl e \<Rightarrow> Inl e
      | Inr (None, stripes) \<Rightarrow> Inl NotFound
      | Inr (Some logical, stripes) \<Rightarrow>
          if length (filter (\<lambda>s. s \<noteq> None) stripes) < k then Inl (Io ''ec decode: too few pieces'')
          else if list_all (\<lambda>s. s \<noteq> None) (take k stripes) then Inr (assemble k (unat logical) stripes)
          else if \<not> rs_new rs k m then Inl (Io ''reed-solomon init'')
          else case rs_reconstruct rs k m stripes of
            None \<Rightarrow> Inl (Io ''rs reconstruct'')
          | Some stripes \<Rightarrow> Inr (assemble k (unat logical) stripes))"

definition ec_repair_pieces :: "rs_ops \<Rightarrow> bytes option list \<Rightarrow> nat \<Rightarrow> nat \<Rightarrow> bytes list domain_result" where
  "ec_repair_pieces rs slots k m =
     (case ec_decode rs slots k m of
        Inl e \<Rightarrow> Inl e
      | Inr body \<Rightarrow> ec_encode rs body (ec_config_default\<lparr>ec_data := k, ec_parity := m\<rparr>))"

section \<open>What the code library promises\<close>

text \<open>
  The documented contract of \<open>reed_solomon_erasure\<close> for \<open>k\<close> data and \<open>m\<close> parity shards: on shards of one
  positive length, \<open>encode\<close> keeps the data shards and fills in parity shards of the same length, and
  \<open>reconstruct\<close> restores a code word from any \<open>k\<close> of its shards.
\<close>

definition uniform :: "nat \<Rightarrow> bytes list \<Rightarrow> bool" where
  "uniform n shards \<longleftrightarrow> list_all (\<lambda>s. length s = n) shards"

definition slots_of :: "'a list \<Rightarrow> 'a option list \<Rightarrow> bool" where
  "slots_of xs slots \<longleftrightarrow> list_all2 (\<lambda>x s. s = None \<or> s = Some x) xs slots"

definition present :: "'a option list \<Rightarrow> nat" where
  "present slots = length (filter (\<lambda>s. s \<noteq> None) slots)"

definition rs_contract :: "rs_ops \<Rightarrow> nat \<Rightarrow> nat \<Rightarrow> bool" where
  "rs_contract rs k m \<longleftrightarrow> rs_new rs k m \<and>
     (\<forall>n shards. 0 < n \<longrightarrow> length shards = k + m \<longrightarrow> uniform n shards \<longrightarrow>
        (\<exists>parity. rs_encode rs k m shards = Some (take k shards @ parity) \<and> length parity = m \<and> uniform n parity \<and>
           (\<forall>slots. slots_of (take k shards @ parity) slots \<longrightarrow> k \<le> present slots \<longrightarrow>
              rs_reconstruct rs k m slots = Some (map Some (take k shards @ parity)))))"

section \<open>Stripes\<close>

lemma length_resize_zero [simp]: "length (resize_zero n s) = n"
  by (simp add: resize_zero_def)

lemma concat_chunks: "concat (map (\<lambda>i. take s (drop (i * s) p)) [0..<k]) = take (k * s) p"
  by (induction k) (simp_all add: take_add [symmetric] add.commute)

lemma stripe_covers: "0 < k \<Longrightarrow> length data \<le> k * ec_stripe data k"
  by (rule le_trans [OF div_ceil_pos mult_le_mono2]) (simp_all add: ec_stripe_def)

lemma length_data_stripes [simp]: "length (data_stripes data k) = k"
  by (simp add: data_stripes_def Let_def)

lemma uniform_data_stripes: "uniform (ec_stripe data k) (data_stripes data k)"
  by (auto simp: data_stripes_def Let_def uniform_def list_all_iff)

lemma resize_chunk:
  assumes "length data \<le> k * s" and "i < k"
  shows "resize_zero s (bslice data (min (i * s) (length data)) (min ((i + 1) * s) (length data))) =
    take s (drop (i * s) (data @ replicate (k * s - length data) 0))"
proof -
  have "(i + 1) * s \<le> k * s" using assms(2) by (intro mult_le_mono1) simp
  then show ?thesis using assms(1)
    by (auto simp: resize_zero_def bslice_def min_def drop_take)
qed

lemma concat_data_stripes:
  assumes "0 < k"
  shows "take (length data) (concat (data_stripes data k)) = data"
proof -
  let ?s = "ec_stripe data k" and ?p = "data @ replicate (k * ec_stripe data k - length data) 0"
  have "data_stripes data k = map (\<lambda>i. take ?s (drop (i * ?s) ?p)) [0..<k]"
    unfolding data_stripes_def Let_def using resize_chunk [OF stripe_covers [OF assms]] by (intro map_cong) auto
  then have "concat (data_stripes data k) = take (k * ?s) ?p" by (simp only: concat_chunks)
  then show ?thesis using stripe_covers [OF assms, of data] by (simp add: min_def)
qed

section \<open>Pieces and slots\<close>

lemma ec_stripe_pos [simp]: "0 < ec_stripe data k"
  by (simp add: ec_stripe_def)

lemma ec_stripe_nonempty:
  assumes "data \<noteq> []" and "0 < k"
  shows "ec_stripe data k = div_ceil (length data) k"
proof -
  have "1 \<le> div_ceil (length data) k"
    using div_ceil_pos [OF assms(2), of "length data"] assms(1) by (cases "div_ceil (length data) k") auto
  then show ?thesis by (simp add: ec_stripe_def)
qed

lemma drop_ec_piece [simp]: "drop EC_HEADER_LEN (ec_piece k m l i s) = s"
  by (simp add: ec_piece_def)

lemma parse_ec_piece:
  assumes "0 < k" and "0 < m" and "k + m < 256" and "i < k + m" and "l < 2 ^ 64" and "length s = div_ceil l k"
  shows "\<exists>h. parse_piece_header (ec_piece k m l i s) = Some h \<and> unat (ph_idx h) = i \<and> ph_logical_len h = word_of_nat l"
proof -
  have u: "unat (word_of_nat k :: u8) = k" "unat (word_of_nat m :: u8) = m" "unat (word_of_nat i :: u8) = i"
      "unat (word_of_nat l :: u64) = l"
    using assms by (simp_all add: unat_of_nat)
  then have km: "unat (word_of_nat k + word_of_nat m :: u8) = k + m" using assms(3) by (simp add: unat_word_ariths)
  have nz: "(word_of_nat k :: u8) \<noteq> 0" "(word_of_nat m :: u8) \<noteq> 0" using u assms(1,2) by auto
  show ?thesis
    unfolding ec_piece_def parse_piece_header_encode
    using assms nz by (simp add: piece_header_ok_def u km)
qed

lemma decode_slots_ok:
  assumes "\<forall>j < length slots. \<forall>p. slots ! j = Some p \<longrightarrow>
      (\<exists>h. parse_piece_header p = Some h \<and> unat (ph_idx h) = i + j \<and> ph_logical_len h = L)"
  shows "decode_slots i l slots =
    Inr (if present slots = 0 then l else Some L, map (map_option (drop EC_HEADER_LEN)) slots)"
  using assms
proof (induction i l slots rule: decode_slots.induct)
  case (2 i l slots)
  have "\<forall>j < length slots. \<forall>p. slots ! j = Some p \<longrightarrow>
      (\<exists>h. parse_piece_header p = Some h \<and> unat (ph_idx h) = i + 1 + j \<and> ph_logical_len h = L)"
    using "2.prems" by (auto simp: nth_Cons' dest: spec [of _ "Suc _"])
  from "2.IH" [OF this] show ?case by (simp add: present_def)
next
  case (3 i l p slots)
  obtain h where h: "parse_piece_header p = Some h" "unat (ph_idx h) = i" "ph_logical_len h = L"
    using "3.prems" [THEN spec, of 0] by auto
  have "\<forall>j < length slots. \<forall>p. slots ! j = Some p \<longrightarrow>
      (\<exists>h. parse_piece_header p = Some h \<and> unat (ph_idx h) = i + 1 + j \<and> ph_logical_len h = L)"
    using "3.prems" by (auto dest: spec [of _ "Suc _"])
  from "3.IH" [OF h(1) _ this] h show ?case by (simp add: present_def)
qed (simp add: present_def)

lemma slots_of_map:
  "slots_of (map f xs) slots \<Longrightarrow> (\<And>x. x \<in> set xs \<Longrightarrow> g (f x) = h x) \<Longrightarrow> slots_of (map h xs) (map (map_option g) slots)"
  by (auto simp: slots_of_def list_all2_conv_all_nth)

lemma present_map [simp]: "present (map (map_option g) slots) = present slots"
  by (induction slots) (simp_all add: present_def)

lemma slots_of_full:
  "slots_of xs slots \<Longrightarrow> list_all (\<lambda>s. s \<noteq> None) slots \<Longrightarrow> slots = map Some xs"
  unfolding slots_of_def by (induction xs slots rule: list_all2_induct) auto

lemma slots_of_take: "slots_of xs slots \<Longrightarrow> slots_of (take k xs) (take k slots)"
  by (simp add: slots_of_def list_all2_takeI)

lemma map_filter_Some [simp]: "List.map_filter id (map Some xs) = xs"
  by (induction xs) (simp_all add: List.map_filter_simps)

section \<open>Round trip\<close>

text \<open>The parameters for which a configuration encodes: positive counts that fit the header bytes together.\<close>

definition ec_params :: "nat \<Rightarrow> nat \<Rightarrow> bytes \<Rightarrow> bool" where
  "ec_params k m body \<longleftrightarrow> 0 < k \<and> 0 < m \<and> k + m < 256 \<and> body \<noteq> [] \<and> length body < 2 ^ 64"

lemma ec_encode_pieces:
  assumes "rs_contract rs (ec_data cfg) (ec_parity cfg)"
  defines "k \<equiv> ec_data cfg" and "m \<equiv> ec_parity cfg"
  obtains parity where
    "ec_encode rs body cfg = Inr (map2 (ec_piece k m (length body)) [0..<k + m] (data_stripes body k @ parity))"
    "length parity = m" "uniform (ec_stripe body k) (data_stripes body k @ parity)"
    "\<And>slots. slots_of (data_stripes body k @ parity) slots \<Longrightarrow> k \<le> present slots \<Longrightarrow>
       rs_reconstruct rs k m slots = Some (map Some (data_stripes body k @ parity))"
proof -
  let ?n = "ec_stripe body k"
  let ?shards = "data_stripes body k @ replicate m (replicate ?n 0)"
  have "uniform ?n ?shards" using uniform_data_stripes [of body k] by (auto simp: uniform_def list_all_iff)
  moreover have "length ?shards = k + m" by simp
  ultimately obtain parity where p: "rs_encode rs k m ?shards = Some (take k ?shards @ parity)" "length parity = m"
      "uniform ?n parity" and r: "\<forall>slots. slots_of (take k ?shards @ parity) slots \<longrightarrow> k \<le> present slots \<longrightarrow>
        rs_reconstruct rs k m slots = Some (map Some (take k ?shards @ parity))"
    using assms(1) ec_stripe_pos [of body k] unfolding rs_contract_def k_def m_def by blast
  have "rs_new rs k m" using assms(1) by (simp add: rs_contract_def k_def m_def)
  then have "ec_encode rs body cfg = Inr (map2 (ec_piece k m (length body)) [0..<k + m] (data_stripes body k @ parity))"
    using p by (simp add: ec_encode_def Let_def k_def [symmetric] m_def [symmetric])
  moreover have "uniform ?n (data_stripes body k @ parity)"
    using p(3) uniform_data_stripes [of body k] by (simp add: uniform_def)
  ultimately show ?thesis using that p(2) r by simp
qed

lemma ec_decode_pieces:
  assumes "rs_contract rs k m" and "ec_params k m body" and "ec_data cfg = k" and "ec_parity cfg = m"
    and "ec_encode rs body cfg = Inr pieces" and "slots_of pieces slots" and "k \<le> present slots"
  shows "ec_decode rs slots k m = Inr body"
proof -
  have par: "0 < k" "0 < m" "k + m < 256" "body \<noteq> []" "length body < 2 ^ 64" using assms(2) by (auto simp: ec_params_def)
  obtain parity where e: "pieces = map2 (ec_piece k m (length body)) [0..<k + m] (data_stripes body k @ parity)"
    and pl: "length parity = m" and un: "uniform (ec_stripe body k) (data_stripes body k @ parity)"
    and rec: "\<And>slots. slots_of (data_stripes body k @ parity) slots \<Longrightarrow> k \<le> present slots \<Longrightarrow>
       rs_reconstruct rs k m slots = Some (map Some (data_stripes body k @ parity))"
    using ec_encode_pieces [of rs cfg body] assms(1-5) by auto
  let ?code = "data_stripes body k @ parity"
  let ?stripes = "map (map_option (drop EC_HEADER_LEN)) slots"
  have lc: "length ?code = k + m" using pl by simp
  have ls: "length slots = k + m" using assms(6) lc by (auto simp: slots_of_def e dest: list_all2_lengthD)
  have hdr: "\<exists>h. parse_piece_header p = Some h \<and> unat (ph_idx h) = 0 + j \<and> ph_logical_len h = word_of_nat (length body)"
    if "j < length slots" "slots ! j = Some p" for j p
  proof -
    have "p = ec_piece k m (length body) j (?code ! j)"
      using that assms(6) ls lc by (auto simp: slots_of_def list_all2_conv_all_nth e nth_append)
    moreover have "length (?code ! j) = div_ceil (length body) k"
      using un that(1) ls lc ec_stripe_nonempty [OF par(4,1)] by (simp add: uniform_def list_all_length)
    ultimately show ?thesis using parse_ec_piece [of k m j "length body" "?code ! j"] par that(1) ls by simp
  qed
  then have dec: "decode_slots 0 None slots = Inr (Some (word_of_nat (length body)), ?stripes)"
    using decode_slots_ok [of slots 0 "word_of_nat (length body)" None] assms(7) par(1) by simp
  have st: "slots_of ?code ?stripes"
  proof -
    have "slots_of (map snd (zip [0..<k + m] ?code)) ?stripes"
      using assms(6) unfolding e by (intro slots_of_map [where f = "\<lambda>(i, s). ec_piece k m (length body) i s"]) auto
    then show ?thesis using lc by (simp del: upt.simps)
  qed
  have ul: "unat (word_of_nat (length body) :: u64) = length body" using par(5) by (simp add: unat_of_nat)
  have whole: "assemble k (length body) (map Some ?code) = body"
    using concat_data_stripes [OF par(1), of body] by (simp add: assemble_def)
  have fast: "assemble k (length body) ?stripes = body" if "list_all (\<lambda>s. s \<noteq> None) (take k ?stripes)"
    using slots_of_full [OF slots_of_take [OF st] that] whole
    by (simp only: assemble_def take_map)
  have ps: "k \<le> length (filter (\<lambda>s. s \<noteq> None) ?stripes)"
    using assms(7) present_map [of "drop EC_HEADER_LEN" slots] by (simp add: present_def)
  have "rs_new rs k m" using assms(1) by (simp add: rs_contract_def)
  then show ?thesis
    using rec [OF st] assms(7) ps fast whole
    by (auto simp: ec_decode_def ls dec ul)
qed

text \<open>C23: any \<open>k\<close> of the \<open>k + m\<close> pieces of a non-empty body give the body back, whichever \<open>m\<close> pieces are lost,
  and repair from them regenerates all pieces byte for byte.\<close>

theorem ec_roundtrip:
  assumes "rs_contract rs k m" and "ec_params k m body"
    and "ec_encode rs body (ec_config_default\<lparr>ec_data := k, ec_parity := m\<rparr>) = Inr pieces"
    and "slots_of pieces slots" and "k \<le> present slots"
  shows "ec_decode rs slots k m = Inr body \<and> ec_repair_pieces rs slots k m = Inr pieces"
  using ec_decode_pieces [OF assms(1,2) _ _ assms(3-5)] assms(3) by (simp add: ec_repair_pieces_def)

text \<open>The parity code with one parity shard over two data shards, for concrete runs.\<close>

definition xor_rs :: rs_ops where
  "xor_rs = \<lparr>rs_new = \<lambda>k m. k = 2 \<and> m = 1,
     rs_encode = \<lambda>k m shards. case shards of [a, b, _] \<Rightarrow> Some [a, b, map2 xor a b] | _ \<Rightarrow> None,
     rs_reconstruct = \<lambda>k m slots. case slots of
         [Some a, Some b, _] \<Rightarrow> Some [Some a, Some b, Some (map2 xor a b)]
       | [Some a, None, Some c] \<Rightarrow> Some [Some a, Some (map2 xor a c), Some c]
       | [None, Some b, Some c] \<Rightarrow> Some [Some (map2 xor b c), Some b, Some c]
       | _ \<Rightarrow> None\<rparr>"

lemma xor_cancel_left: "length a = length b \<Longrightarrow> map2 xor a (map2 xor a b) = (b :: bytes)"
  by (induction a b rule: list_induct2) (simp_all add: xor.assoc [symmetric])

lemma xor_cancel_right: "length a = length b \<Longrightarrow> map2 xor b (map2 xor a b) = (a :: bytes)"
  by (induction a b rule: list_induct2) (simp_all add: xor.left_commute)

lemma xor_rs_contract: "rs_contract xor_rs 2 1"
proof -
  have "\<exists>parity. rs_encode xor_rs 2 1 shards = Some (take 2 shards @ parity) \<and> length parity = 1 \<and> uniform n parity \<and>
      (\<forall>slots. slots_of (take 2 shards @ parity) slots \<longrightarrow> 2 \<le> present slots \<longrightarrow>
        rs_reconstruct xor_rs 2 1 slots = Some (map Some (take 2 shards @ parity)))"
    if l: "length shards = 2 + 1" and u: "uniform n shards" for n shards
  proof -
    obtain a b c where s: "shards = [a, b, c]" using l by (auto simp: length_Suc_conv numeral_2_eq_2)
    have ab: "length a = length b" "length b = n" using u by (auto simp: s uniform_def)
    have "rs_reconstruct xor_rs 2 1 slots = Some (map Some [a, b, map2 xor a b])"
      if "slots_of [a, b, map2 xor a b] slots" "2 \<le> present slots" for slots
      using that xor_cancel_left [OF ab(1)] xor_cancel_right [OF ab(1)]
      by (auto simp: slots_of_def list_all2_Cons1 xor_rs_def present_def)
    then show ?thesis using ab by (intro exI [of _ "[map2 xor a b]"]) (simp add: s xor_rs_def uniform_def)
  qed
  then show ?thesis by (auto simp: rs_contract_def xor_rs_def)
qed

theorem ec_roundtrip_witness:
  "let pieces = projr (ec_encode xor_rs [1, 2, 3] (ec_config_default\<lparr>ec_data := 2, ec_parity := 1\<rparr>));
       slots = [None, Some (pieces ! 1), Some (pieces ! 2)] in
   ec_decode xor_rs slots 2 1 = Inr [1, 2, 3] \<and> ec_repair_pieces xor_rs slots 2 1 = Inr pieces"
proof -
  let ?cfg = "ec_config_default\<lparr>ec_data := 2, ec_parity := 1\<rparr>"
  let ?pieces = "projr (ec_encode xor_rs [1, 2, 3] ?cfg)"
  have par: "ec_params 2 1 ([1, 2, 3] :: bytes)" by (simp add: ec_params_def)
  from ec_encode_pieces [of xor_rs ?cfg "[1, 2, 3]"] xor_rs_contract par obtain parity where
    e: "ec_encode xor_rs [1, 2, 3] ?cfg = Inr (map2 (ec_piece 2 1 3) [0..<3] (data_stripes [1, 2, 3] 2 @ parity))"
    and "length parity = 1" by (auto simp: numeral_3_eq_3)
  then have l: "length ?pieces = 3" by simp
  then obtain a b c where p: "?pieces = [a, b, c]" by (auto simp: length_Suc_conv numeral_3_eq_3)
  have e': "ec_encode xor_rs [1, 2, 3] ?cfg = Inr [a, b, c]" using e p by auto
  have "slots_of [a, b, c] [None, Some b, Some c]" "2 \<le> present [None, Some b, Some c]"
    by (simp_all add: slots_of_def present_def)
  from ec_roundtrip [OF xor_rs_contract par e' this] show ?thesis unfolding p Let_def by simp
qed

section \<open>Boundary inputs\<close>

text \<open>An empty body encodes into pieces that its own reader rejects: the stripe is padded to one byte while the
  header announces none, so no object of length zero can be read back from its pieces.\<close>

theorem ec_empty_unreadable:
  assumes "rs_contract rs (ec_data cfg) (ec_parity cfg)" and "0 < ec_data cfg" and "ec_encode rs [] cfg = Inr pieces"
  shows "list_all (\<lambda>p. parse_piece_header p = None) pieces"
  unfolding list_all_iff
proof
  fix p assume p: "p \<in> set pieces"
  obtain parity where "pieces = map2 (ec_piece (ec_data cfg) (ec_parity cfg) 0) [0..<ec_data cfg + ec_parity cfg]
      (data_stripes [] (ec_data cfg) @ parity)" "uniform (ec_stripe [] (ec_data cfg)) (data_stripes [] (ec_data cfg) @ parity)"
    using ec_encode_pieces [OF assms(1), of "[]"] assms(3) by auto
  moreover obtain i s where "p = ec_piece (ec_data cfg) (ec_parity cfg) 0 i s" "s \<in> set (data_stripes [] (ec_data cfg) @ parity)"
    using p calculation(1) by (auto dest: set_zip_rightD)
  ultimately have "p = ec_piece (ec_data cfg) (ec_parity cfg) 0 i s" "length s = 1"
    by (auto simp: uniform_def list_all_iff ec_stripe_def div_ceil_def)
  then show "parse_piece_header p = None" by (simp add: ec_piece_def parse_piece_header_encode div_ceil_def)
qed

theorem ec_empty_unreadable_witness:
  "list_all (\<lambda>p. parse_piece_header p = None) (projr (ec_encode xor_rs [] (ec_config_default\<lparr>ec_data := 2, ec_parity := 1\<rparr>)))"
proof -
  let ?cfg = "ec_config_default\<lparr>ec_data := 2, ec_parity := 1\<rparr>"
  have c: "rs_contract xor_rs (ec_data ?cfg) (ec_parity ?cfg)" using xor_rs_contract by simp
  from ec_encode_pieces [OF c, of "[]"] obtain pieces where e: "ec_encode xor_rs [] ?cfg = Inr pieces" by blast
  show ?thesis unfolding e using ec_empty_unreadable [OF c _ e] by simp
qed

text \<open>A layout of 256 pieces is accepted by the encoder and rejected by the parser: the header adds \<open>k\<close> and \<open>m\<close>
  as \<open>u8\<close>, the sum wraps to zero, and every piece index is out of range.\<close>

theorem ec_256_pieces_unreadable:
  assumes "k + m = 256"
  shows "parse_piece_header (ec_piece k m l i s) = None"
proof -
  have "(word_of_nat k + word_of_nat m :: u8) = word_of_nat (k + m)" by simp
  also have "\<dots> = 0" unfolding assms by simp
  finally show ?thesis by (simp add: ec_piece_def parse_piece_header_encode piece_header_ok_def)
qed

theorem ec_256_pieces_unreadable_witness:
  "parse_piece_header (ec_piece 200 56 1000 3 [1, 2, 3, 4, 5]) = None"
  by (rule ec_256_pieces_unreadable) simp

end
