(* ===== verification/Metrics.thy ===== *)
theory Metrics
  imports Domain
begin

text \<open>
  Operational counters (\<open>ozd-app/src/metrics.rs\<close>). Each \<open>AtomicU64\<close> field of \<open>OpsMetrics\<close> is one
  constructor of \<open>counter\<close>, its value a natural number (the counters stay below \<open>2^64\<close>); the two
  latency histograms are records. The exposition text is built as the code builds it.
\<close>

section \<open>Latency histograms\<close>

definition HIST_BUCKETS_US :: "nat list" where
  "HIST_BUCKETS_US = [1000, 5000, 10000, 25000, 50000, 100000, 250000, 500000, 1000000, 2500000, 5000000, 10000000]"

record histogram =
  hi_buckets :: "nat list"
  hi_count :: nat
  hi_sum_us :: nat

definition histogram_default :: histogram where
  "histogram_default = \<lparr>hi_buckets = replicate 12 0, hi_count = 0, hi_sum_us = 0\<rparr>"

fun hist_slot :: "nat \<Rightarrow> nat list \<Rightarrow> nat \<Rightarrow> nat option" where
  "hist_slot us [] i = None"
| "hist_slot us (bound # bounds) i = (if us \<le> bound then Some i else hist_slot us bounds (i + 1))"

definition bump_at :: "nat \<Rightarrow> nat list \<Rightarrow> nat list" where
  "bump_at i xs = xs[i := xs ! i + 1]"

definition observe :: "histogram \<Rightarrow> nat \<Rightarrow> histogram" where
  "observe h us =
     (let h = h\<lparr>hi_count := hi_count h + 1, hi_sum_us := hi_sum_us h + us\<rparr> in
      case hist_slot us HIST_BUCKETS_US 0 of
        Some i \<Rightarrow> h\<lparr>hi_buckets := bump_at i (hi_buckets h)\<rparr>
      | None \<Rightarrow> h\<lparr>hi_buckets := bump_at (length HIST_BUCKETS_US - 1) (hi_buckets h)\<rparr>)"

text \<open>The cumulative counts of the \<open>le\<close> lines, in their order, before the \<open>+Inf\<close> line.\<close>

fun cumulative :: "nat \<Rightarrow> nat list \<Rightarrow> nat list" where
  "cumulative cum [] = []"
| "cumulative cum (b # bs) = (cum + b) # cumulative (cum + b) bs"

text \<open>The bounds in seconds as \<open>Display\<close> of \<open>f64\<close> prints them, and \<open>\{:.6\}\<close> of microseconds over \<open>1e6\<close>.\<close>

definition hist_le :: "string list" where
  "hist_le = [''0.001'', ''0.005'', ''0.01'', ''0.025'', ''0.05'', ''0.1'', ''0.25'', ''0.5'', ''1'', ''2.5'', ''5'', ''10'']"

definition show_micros :: "nat \<Rightarrow> string" where
  "show_micros us =
     (let frac = show_nat (us mod 1000000) in
      show_nat (us div 1000000) @ ''.'' @ replicate (6 - length frac) (CHR ''0'') @ frac)"

definition newline :: string where
  "newline = [char_of (10 :: nat)]"

definition quoted :: "string \<Rightarrow> string" where
  "quoted s = [char_of (34 :: nat)] @ s @ [char_of (34 :: nat)]"

definition hist_prometheus :: "histogram \<Rightarrow> string \<Rightarrow> string" where
  "hist_prometheus h name =
     ''# TYPE '' @ name @ '' histogram'' @ newline @
     concat (map2 (\<lambda>le cum. name @ ''_bucket{le='' @ quoted le @ ''} '' @ show_nat cum @ newline)
       hist_le (cumulative 0 (hi_buckets h))) @
     name @ ''_bucket{le='' @ quoted ''+Inf'' @ ''} '' @ show_nat (hi_count h) @ newline @
     name @ ''_sum '' @ show_micros (hi_sum_us h) @ newline @
     name @ ''_count '' @ show_nat (hi_count h) @ newline"

section \<open>Counters\<close>

datatype counter =
    Puts | PutErrors | PutMicros | Gets | GetNotFound | GetErrors | GetMicros | Deletes
  | InflightPuts | InflightGets | BytesWritten
  | HedgedReads | HandoffWrites | MrfEnqueued | MrfHealed
  | ScrubChecked | ScrubCorrupt | ScrubRepaired | ScrubUnrepairable | ResilverRepaired | ResilverErrors
  | GcVictims | GcMoved | GcReclaimedBytes | GcOrphans | GcOrphanBytes
  | EcPuts | EcReconstructs | EcPiecesRepaired
  | MigrateMigrated | MigrateCanaryFailed | MigrateErrors | MigrateEraBackfilled
  | CacheHits | CacheMisses | CacheCoalesced | CacheSelfHeals | CachePopulatedBytes | CacheEvictedSegments | CacheEvictedBytes
  | BgThrottleWaits | BgThrottleBytes | BgRateBps | HedgeThresholdMs

record ops_metrics =
  om_counters :: "counter \<Rightarrow> nat"
  om_put_hist :: histogram
  om_get_hist :: histogram

definition ops_metrics_default :: ops_metrics where
  "ops_metrics_default = \<lparr>om_counters = (\<lambda>_. 0), om_put_hist = histogram_default, om_get_hist = histogram_default\<rparr>"

definition fetch_add :: "counter \<Rightarrow> nat \<Rightarrow> ops_metrics \<Rightarrow> ops_metrics" where
  "fetch_add c n m = m\<lparr>om_counters := (om_counters m)(c := om_counters m c + n)\<rparr>"

definition fetch_sub :: "counter \<Rightarrow> nat \<Rightarrow> ops_metrics \<Rightarrow> ops_metrics" where
  "fetch_sub c n m = m\<lparr>om_counters := (om_counters m)(c := om_counters m c - n)\<rparr>"

definition store :: "counter \<Rightarrow> nat \<Rightarrow> ops_metrics \<Rightarrow> ops_metrics" where
  "store c n m = m\<lparr>om_counters := (om_counters m)(c := n)\<rparr>"

definition record_gc :: "ops_metrics \<Rightarrow> gc_report \<Rightarrow> ops_metrics" where
  "record_gc m r =
     (let m = (if victim_seg r \<noteq> None then fetch_add GcVictims 1 m else m) in
      fetch_add GcOrphanBytes (orphan_bytes r) (fetch_add GcOrphans (orphans_removed r)
        (fetch_add GcReclaimedBytes (reclaimed_bytes r) (fetch_add GcMoved (live_moved r) m))))"

definition prom_counter :: "ops_metrics \<Rightarrow> string \<times> counter \<Rightarrow> string" where
  "prom_counter m = (\<lambda>(n, c). ''# TYPE '' @ n @ '' counter'' @ newline @ n @ '' '' @ show_nat (om_counters m c) @ newline)"

definition prom_seconds :: "ops_metrics \<Rightarrow> string \<Rightarrow> counter \<Rightarrow> string" where
  "prom_seconds m n c = ''# TYPE '' @ n @ '' counter'' @ newline @ n @ '' '' @ show_micros (om_counters m c) @ newline"

definition prom_gauge :: "ops_metrics \<Rightarrow> string \<Rightarrow> counter \<Rightarrow> string" where
  "prom_gauge m n c = ''# TYPE '' @ n @ '' gauge'' @ newline @ n @ '' '' @ show_nat (om_counters m c) @ newline"

definition prometheus :: "ops_metrics \<Rightarrow> string" where
  "prometheus m =
     concat (map (prom_counter m) [(''ozd_puts_total'', Puts), (''ozd_put_errors_total'', PutErrors)]) @
     prom_seconds m ''ozd_put_seconds_sum'' PutMicros @
     hist_prometheus (om_put_hist m) ''ozd_put_duration_seconds'' @
     concat (map (prom_counter m) [(''ozd_gets_total'', Gets), (''ozd_get_not_found_total'', GetNotFound), (''ozd_get_errors_total'', GetErrors)]) @
     prom_seconds m ''ozd_get_seconds_sum'' GetMicros @
     hist_prometheus (om_get_hist m) ''ozd_get_duration_seconds'' @
     concat (map (prom_counter m)
       [(''ozd_deletes_total'', Deletes), (''ozd_hedged_reads_total'', HedgedReads), (''ozd_handoff_writes_total'', HandoffWrites),
        (''ozd_mrf_enqueued_total'', MrfEnqueued), (''ozd_mrf_healed_total'', MrfHealed),
        (''ozd_scrub_checked_total'', ScrubChecked), (''ozd_scrub_corrupt_total'', ScrubCorrupt),
        (''ozd_scrub_repaired_total'', ScrubRepaired), (''ozd_scrub_unrepairable_total'', ScrubUnrepairable),
        (''ozd_resilver_repaired_total'', ResilverRepaired), (''ozd_resilver_errors_total'', ResilverErrors),
        (''ozd_ec_puts_total'', EcPuts), (''ozd_ec_reconstructs_total'', EcReconstructs), (''ozd_ec_pieces_repaired_total'', EcPiecesRepaired),
        (''ozd_migrate_migrated_total'', MigrateMigrated), (''ozd_migrate_canary_failed_total'', MigrateCanaryFailed),
        (''ozd_migrate_errors_total'', MigrateErrors), (''ozd_migrate_era_backfilled_total'', MigrateEraBackfilled),
        (''ozd_cache_hits_total'', CacheHits), (''ozd_cache_misses_total'', CacheMisses), (''ozd_cache_coalesced_total'', CacheCoalesced),
        (''ozd_cache_self_heals_total'', CacheSelfHeals), (''ozd_cache_populated_bytes_total'', CachePopulatedBytes),
        (''ozd_cache_evicted_segments_total'', CacheEvictedSegments), (''ozd_cache_evicted_bytes_total'', CacheEvictedBytes),
        (''ozd_bg_throttle_waits_total'', BgThrottleWaits), (''ozd_bg_throttle_bytes_total'', BgThrottleBytes)]) @
     prom_gauge m ''ozd_bg_rate_bps'' BgRateBps @
     prom_gauge m ''ozd_hedge_threshold_ms'' HedgeThresholdMs @
     concat (map (prom_counter m)
       [(''ozd_gc_victims_total'', GcVictims), (''ozd_gc_moved_total'', GcMoved), (''ozd_gc_reclaimed_bytes_total'', GcReclaimedBytes),
        (''ozd_gc_orphans_total'', GcOrphans), (''ozd_gc_orphan_bytes_total'', GcOrphanBytes)]) @
     prom_gauge m ''ozd_inflight_puts'' InflightPuts @
     prom_gauge m ''ozd_inflight_gets'' InflightGets @
     prom_counter m (''ozd_bytes_written_total'', BytesWritten)"

section \<open>Lemmas\<close>

lemma counters_simps [simp]:
  "om_counters (fetch_add c n m) d = om_counters m d + (if c = d then n else 0)"
  "om_counters (fetch_sub c n m) d = om_counters m d - (if c = d then n else 0)"
  "om_counters (store c n m) d = (if c = d then n else om_counters m d)"
  by (simp_all add: fetch_add_def fetch_sub_def store_def)

lemma hist_slot_Some:
  assumes "hist_slot us bounds i = Some j"
  shows "i \<le> j \<and> j < i + length bounds"
  using assms
proof (induction bounds arbitrary: i)
  case (Cons b bounds)
  show ?case using Cons.IH [of "i + 1"] Cons.prems by (cases "us \<le> b") auto
qed simp

lemma hist_slot_None: "hist_slot us bounds i = None \<longleftrightarrow> (\<forall>b \<in> set bounds. b < us)"
  by (induction bounds arbitrary: i) auto

lemma hist_slot_le:
  assumes "sorted bounds" and "hist_slot us bounds i = Some j" and "n < length bounds"
  shows "j \<le> i + n \<longleftrightarrow> us \<le> bounds ! n"
  using assms
proof (induction bounds arbitrary: i n)
  case (Cons b bounds)
  show ?case
  proof (cases n)
    case 0
    then show ?thesis using Cons.prems(2) hist_slot_Some [of us bounds "Suc i" j] by (auto split: if_splits)
  next
    case (Suc k)
    show ?thesis
    proof (cases "us \<le> b")
      case True
      moreover have "b \<le> bounds ! k" using Cons.prems(1,3) Suc by simp
      ultimately have "us \<le> bounds ! k" by simp
      then show ?thesis using True Cons.prems(2) Suc by simp
    next
      case False
      then show ?thesis using Cons.IH [of "i + 1" k] Cons.prems Suc by simp
    qed
  qed
qed simp

lemma length_bump [simp]: "length (bump_at i xs) = length xs"
  by (simp add: bump_at_def)

lemma sum_bump: "i < length xs \<Longrightarrow> sum_list (bump_at i xs) = Suc (sum_list xs)"
  by (induction xs arbitrary: i) (auto simp: bump_at_def split: nat.split)

lemma cumulative_nth: "i < length bs \<Longrightarrow> cumulative cum bs ! i = cum + sum_list (take (Suc i) bs)"
  by (induction bs arbitrary: cum i) (auto simp: nth_Cons' take_Cons' split: nat.split)

lemma length_cumulative [simp]: "length (cumulative cum bs) = length bs"
  by (induction bs arbitrary: cum) simp_all

text \<open>The slot of an observation and the slots below a bound.\<close>

definition slot_of :: "nat \<Rightarrow> nat" where
  "slot_of us = (case hist_slot us HIST_BUCKETS_US 0 of Some i \<Rightarrow> i | None \<Rightarrow> 11)"

lemma length_HIST_BUCKETS [simp]: "length HIST_BUCKETS_US = 12"
  by (simp add: HIST_BUCKETS_US_def)

lemma slot_of_bound: "slot_of us < 12"
  using hist_slot_Some [of us HIST_BUCKETS_US 0] by (auto simp: slot_of_def split: option.split)

lemma observe_fields:
  "hi_buckets (observe h us) = bump_at (slot_of us) (hi_buckets h)"
  "hi_count (observe h us) = Suc (hi_count h)" "hi_sum_us (observe h us) = hi_sum_us h + us"
  by (simp_all add: observe_def slot_of_def Let_def split: option.split)

lemma slot_of_le: "us \<le> 10000000 \<Longrightarrow> i < 12 \<Longrightarrow> slot_of us \<le> i \<longleftrightarrow> us \<le> HIST_BUCKETS_US ! i"
proof -
  assume us: "us \<le> 10000000" and i: "i < 12"
  have "10000000 \<in> set HIST_BUCKETS_US" by (simp add: HIST_BUCKETS_US_def)
  with us have "hist_slot us HIST_BUCKETS_US 0 \<noteq> None" unfolding hist_slot_None by force
  moreover have "sorted HIST_BUCKETS_US" by (simp add: HIST_BUCKETS_US_def)
  ultimately show ?thesis using i hist_slot_le [of HIST_BUCKETS_US us 0 _ i] by (auto simp: slot_of_def)
qed

lemma take_bump_sum: "i < length xs \<Longrightarrow> sum_list (take n (bump_at i xs)) = sum_list (take n xs) + (if i < n then 1 else 0)"
proof (induction xs arbitrary: i n)
  case (Cons x xs)
  then show ?case by (cases i; cases n) (auto simp: bump_at_def)
qed simp

text \<open>The histogram exposes what Prometheus expects: each \<open>le\<close> line counts the observations up to its bound (for
  latencies of at most ten seconds), and count and sum are exact.\<close>

theorem histogram_exact:
  assumes "\<forall>us \<in> set obs. us \<le> 10000000" and "i < 12"
  shows "let h = fold (\<lambda>us h. observe h us) obs histogram_default in
     cumulative 0 (hi_buckets h) ! i = length (filter (\<lambda>us. us \<le> HIST_BUCKETS_US ! i) obs) \<and>
     hi_count h = length obs \<and> hi_sum_us h = sum_list obs"
proof -
  let ?h = "\<lambda>obs. fold (\<lambda>us h. observe h us) obs histogram_default"
  have "length (hi_buckets (?h obs)) = 12 \<and> hi_count (?h obs) = length obs \<and> hi_sum_us (?h obs) = sum_list obs \<and>
      sum_list (take (Suc i) (hi_buckets (?h obs))) = length (filter (\<lambda>us. us \<le> HIST_BUCKETS_US ! i) obs)"
    using assms(1)
  proof (induction obs rule: rev_induct)
    case Nil
    show ?case by (simp add: histogram_default_def sum_list_replicate)
  next
    case (snoc us obs)
    then show ?case
      using slot_of_le [of us i] assms(2) slot_of_bound [of us]
      by (simp add: observe_fields take_bump_sum less_Suc_eq_le)
  qed
  then show ?thesis using assms(2) by (simp add: cumulative_nth Let_def)
qed

theorem histogram_exact_witness:
  "cumulative 0 (hi_buckets (fold (\<lambda>us h. observe h us) [400, 7000, 9999999] histogram_default)) ! 2 =
     length (filter (\<lambda>us. us \<le> 10000) [400, 7000, 9999999 :: nat])"
  using histogram_exact [of "[400, 7000, 9999999]" 2] by (simp add: Let_def HIST_BUCKETS_US_def)

text \<open>An observation beyond ten seconds is counted in the line \<open>le="10"\<close>, so that line overstates the fast
  requests; only \<open>+Inf\<close> should hold it.\<close>

theorem histogram_tail_misfiled:
  assumes "10000000 < us"
  shows "cumulative 0 (hi_buckets (observe histogram_default us)) ! 11 = 1"
proof -
  have "slot_of us = 11" using assms by (simp add: slot_of_def HIST_BUCKETS_US_def)
  then show ?thesis
    by (simp add: observe_fields cumulative_nth histogram_default_def sum_bump sum_list_replicate)
qed

theorem histogram_tail_misfiled_witness:
  "cumulative 0 (hi_buckets (observe histogram_default 60000000)) ! 11 = 1"
  by (rule histogram_tail_misfiled) simp

end
