(* ===== verification/Throttle.thy ===== *)
theory Throttle
  imports Metrics
begin

text \<open>
  The byte budget of background work (\<open>ozd-app/src/throttle.rs\<close>): a leaky bucket that is paid after each portion,
  with a rate adapted to the foreground load. Times are seconds and rates bytes per second, exact
  rationals where the code has \<open>Instant\<close> and \<open>f64\<close>.
\<close>

record bg_throttle_config =
  bc_max_bytes_per_sec :: nat
  bc_min_bytes_per_sec :: nat
  bc_fg_busy_ops_per_sec :: rat

definition bg_throttle_config_default :: bg_throttle_config where
  "bg_throttle_config_default =
     \<lparr>bc_max_bytes_per_sec = 64 * 1024 * 1024, bc_min_bytes_per_sec = 4 * 1024 * 1024, bc_fg_busy_ops_per_sec = 50\<rparr>"

record bg_throttle =
  bg_cfg :: bg_throttle_config
  bg_rate :: rat
  bg_tokens :: rat
  bg_last_refill :: rat
  bg_last_obs :: rat
  bg_last_fg_ops :: nat

definition fg_total_of :: "ops_metrics \<Rightarrow> nat" where
  "fg_total_of m = om_counters m Puts + om_counters m Gets"

definition bg_new :: "bg_throttle_config \<Rightarrow> ops_metrics \<Rightarrow> rat \<Rightarrow> bg_throttle \<times> ops_metrics" where
  "bg_new cfg m now =
     (\<lparr>bg_cfg = cfg, bg_rate = of_nat (bc_max_bytes_per_sec cfg), bg_tokens = of_nat (bc_max_bytes_per_sec cfg),
       bg_last_refill = now, bg_last_obs = now, bg_last_fg_ops = fg_total_of m\<rparr>,
      store BgRateBps (bc_max_bytes_per_sec cfg) m)"

definition rate_bps :: "bg_throttle \<Rightarrow> nat" where
  "rate_bps t = nat \<lfloor>bg_rate t\<rfloor>"

text \<open>The adaptive step of one observation window of at least a second.\<close>

definition adapt_rate :: "bg_throttle \<Rightarrow> ops_metrics \<Rightarrow> rat \<Rightarrow> nat \<Rightarrow> bg_throttle \<times> ops_metrics" where
  "adapt_rate t m now fg_total_ops =
     (let win = max 0 (now - bg_last_obs t) in
      if 1 \<le> win then
        let fg_rate = of_nat (fg_total_ops - bg_last_fg_ops t) / win;
            rate = (if bc_fg_busy_ops_per_sec (bg_cfg t) < fg_rate
                    then max (bg_rate t * (1 / 2)) (of_nat (bc_min_bytes_per_sec (bg_cfg t)))
                    else min (bg_rate t + 1 / 10 * of_nat (bc_max_bytes_per_sec (bg_cfg t)))
                           (of_nat (bc_max_bytes_per_sec (bg_cfg t))));
            t = t\<lparr>bg_rate := rate, bg_last_obs := now, bg_last_fg_ops := fg_total_ops\<rparr> in
        (t, store BgRateBps (rate_bps t) m)
      else (t, m))"

definition acquire_delay :: "bg_throttle \<Rightarrow> ops_metrics \<Rightarrow> nat \<Rightarrow> rat \<Rightarrow> nat \<Rightarrow> bg_throttle \<times> ops_metrics \<times> rat" where
  "acquire_delay t m bytes now fg_total_ops =
     (let (t, m) = adapt_rate t m now fg_total_ops;
          dt = max 0 (now - bg_last_refill t);
          tokens = min (bg_tokens t + bg_rate t * dt) (bg_rate t) - of_nat bytes;
          t = t\<lparr>bg_last_refill := now, bg_tokens := tokens\<rparr>;
          m = fetch_add BgThrottleBytes bytes m in
      (t, m, if 0 \<le> tokens then 0 else - tokens / bg_rate t))"

text \<open>\<open>acquire\<close> returns the time it sleeps.\<close>

definition acquire :: "bg_throttle \<Rightarrow> ops_metrics \<Rightarrow> nat \<Rightarrow> rat \<Rightarrow> bg_throttle \<times> ops_metrics \<times> rat" where
  "acquire t m bytes now =
     (if bc_max_bytes_per_sec (bg_cfg t) = 0 \<or> bytes = 0 then (t, m, 0)
      else
        let (t, m, d) = acquire_delay t m bytes now (fg_total_of m) in
        if d \<noteq> 0 then (t, fetch_add BgThrottleWaits 1 m, d) else (t, m, 0))"

definition update_config :: "bg_throttle \<Rightarrow> ops_metrics \<Rightarrow> bg_throttle_config \<Rightarrow> bg_throttle \<times> ops_metrics" where
  "update_config t m new =
     (let rate = max (of_nat (bc_min_bytes_per_sec new)) (min (of_nat (bc_max_bytes_per_sec new)) (bg_rate t));
          t = t\<lparr>bg_rate := rate\<rparr> in
      (t, store BgRateBps (rate_bps t) m))"

section \<open>Invariant\<close>

definition throttle_inv :: "bg_throttle \<Rightarrow> bool" where
  "throttle_inv t \<longleftrightarrow>
     0 < bc_min_bytes_per_sec (bg_cfg t) \<and> bc_min_bytes_per_sec (bg_cfg t) \<le> bc_max_bytes_per_sec (bg_cfg t) \<and>
     of_nat (bc_min_bytes_per_sec (bg_cfg t)) \<le> bg_rate t \<and> bg_rate t \<le> of_nat (bc_max_bytes_per_sec (bg_cfg t)) \<and>
     bg_tokens t \<le> of_nat (bc_max_bytes_per_sec (bg_cfg t))"

lemma throttle_inv_new:
  "0 < bc_min_bytes_per_sec cfg \<Longrightarrow> bc_min_bytes_per_sec cfg \<le> bc_max_bytes_per_sec cfg \<Longrightarrow> throttle_inv (fst (bg_new cfg m now))"
  by (simp add: throttle_inv_def bg_new_def)

lemma adapt_rate_inv:
  assumes "throttle_inv t"
  shows "throttle_inv (fst (adapt_rate t m now fg)) \<and> bg_cfg (fst (adapt_rate t m now fg)) = bg_cfg t \<and>
    bg_tokens (fst (adapt_rate t m now fg)) = bg_tokens t \<and> bg_last_refill (fst (adapt_rate t m now fg)) = bg_last_refill t"
  using assms
  by (auto simp: throttle_inv_def adapt_rate_def Let_def min_le_iff_disj le_max_iff_disj max_def min_def)

lemma acquire_delay_step:
  assumes "throttle_inv t" and "bg_last_refill t \<le> now" and "acquire_delay t m bytes now fg = (t', m', d)"
  shows "throttle_inv t'" "bg_cfg t' = bg_cfg t" "bg_last_refill t' = now" "0 \<le> d"
    "bg_tokens t' \<le> bg_tokens t + of_nat (bc_max_bytes_per_sec (bg_cfg t)) * (now - bg_last_refill t) - of_nat bytes"
    "- bg_tokens t' \<le> of_nat (bc_max_bytes_per_sec (bg_cfg t)) * d"
    "d * of_nat (bc_min_bytes_per_sec (bg_cfg t)) \<le> max 0 (- bg_tokens t')"
proof -
  obtain u n where a: "adapt_rate t m now fg = (u, n)" by fastforce
  have u: "throttle_inv u" "bg_cfg u = bg_cfg t" "bg_tokens u = bg_tokens t" "bg_last_refill u = bg_last_refill t"
    using adapt_rate_inv [OF assms(1), of m now fg] by (simp_all add: a)
  let ?dt = "now - bg_last_refill t"
  let ?tok = "min (bg_tokens t + bg_rate u * ?dt) (bg_rate u) - of_nat bytes"
  let ?max = "of_nat (bc_max_bytes_per_sec (bg_cfg t)) :: rat" and ?min = "of_nat (bc_min_bytes_per_sec (bg_cfg t)) :: rat"
  have dt: "0 \<le> ?dt" using assms(2) by simp
  have r: "0 < bg_rate u" "bg_rate u \<le> ?max" "?min \<le> bg_rate u"
    using u(1,2) by (auto simp: throttle_inv_def intro: less_le_trans [of 0 ?min])
  have t': "t' = u\<lparr>bg_last_refill := now, bg_tokens := ?tok\<rparr>" and d: "d = (if 0 \<le> ?tok then 0 else - ?tok / bg_rate u)"
  proof -
    have mx: "max 0 (now - bg_last_refill u) = ?dt" using dt by (simp add: u(4))
    show "t' = u\<lparr>bg_last_refill := now, bg_tokens := ?tok\<rparr>" "d = (if 0 \<le> ?tok then 0 else - ?tok / bg_rate u)"
      using assms(3) unfolding acquire_delay_def a Let_def prod.case mx u(3) by auto
  qed
  have "?tok \<le> ?max" using r(2) by (simp add: min_le_iff_disj)
  then show "throttle_inv t'" using u(1) by (simp add: throttle_inv_def t' u(2))
  show "bg_cfg t' = bg_cfg t" "bg_last_refill t' = now" by (simp_all add: t' u)
  show "0 \<le> d"
  proof (cases "0 \<le> ?tok")
    case False
    then have "d = - ?tok / bg_rate u" unfolding d by (rule if_not_P)
    moreover have "0 \<le> - ?tok" using False by (simp only: neg_0_le_iff_le not_le less_imp_le)
    ultimately show ?thesis using divide_nonneg_pos [of "- ?tok" "bg_rate u"] r(1) by (simp only:)
  qed (simp add: d)
  have "bg_rate u * ?dt \<le> ?max * ?dt" using r(2) dt by (rule mult_right_mono)
  then show "bg_tokens t' \<le> bg_tokens t + ?max * ?dt - of_nat bytes" by (simp add: t' min_def)
  have "bg_rate u * d = max 0 (- ?tok)" using r(1) by (auto simp: d max_def)
  moreover have "bg_rate u * d \<le> ?max * d" "?min * d \<le> bg_rate u * d" using r \<open>0 \<le> d\<close> by (auto intro: mult_right_mono)
  ultimately show "- bg_tokens t' \<le> ?max * d" "d * ?min \<le> max 0 (- bg_tokens t')"
    by (auto simp: t' mult.commute)
qed

text \<open>A run of portions: the byte counts with the times and foreground readings of their calls; the last component of the result
  is the last delay.\<close>

fun throttle_run :: "bg_throttle \<times> ops_metrics \<times> rat \<Rightarrow> (nat \<times> rat \<times> nat) list \<Rightarrow> bg_throttle \<times> ops_metrics \<times> rat" where
  "throttle_run st [] = st"
| "throttle_run (t, m, d) ((bytes, now, fg) # calls) = throttle_run (acquire_delay t m bytes now fg) calls"

text \<open>C32: pacing. Whatever the foreground load does to the rate, the bytes granted since the throttle was created never exceed
  the configured maximum rate times the time up to the end of the last requested sleep, plus one second of burst.\<close>

theorem throttle_pacing:
  assumes "0 < bc_min_bytes_per_sec cfg" and "bc_min_bytes_per_sec cfg \<le> bc_max_bytes_per_sec cfg"
    and "sorted (start # map (fst \<circ> snd) calls)" and "calls \<noteq> []"
    and "throttle_run (fst (bg_new cfg m start), snd (bg_new cfg m start), 0) calls = (t', m', d)"
  shows "of_nat (sum_list (map fst calls)) \<le>
    of_nat (bc_max_bytes_per_sec cfg) * (1 + (fst (snd (last calls)) + d - start))"
proof -
  have gen: "of_nat (sum_list (map fst calls)) \<le> bg_tokens t + of_nat (bc_max_bytes_per_sec (bg_cfg t)) * (fst (snd (last calls)) + d - bg_last_refill t)"
    if "throttle_inv t" "sorted (bg_last_refill t # map (fst \<circ> snd) calls)" "calls \<noteq> []" "throttle_run (t, m, d0) calls = (t', m', d)"
    for t m d0 calls
    using that
  proof (induction calls arbitrary: t m d0)
    case (Cons c calls)
    obtain bytes now fg where c: "c = (bytes, now, fg)" by (cases c)
    obtain t1 m1 d1 where a: "acquire_delay t m bytes now fg = (t1, m1, d1)" by (cases "acquire_delay t m bytes now fg")
    have "bg_last_refill t \<le> now" using Cons.prems(2) by (simp add: c)
    note step = acquire_delay_step [OF Cons.prems(1) this a]
    let ?M = "of_nat (bc_max_bytes_per_sec (bg_cfg t)) :: rat"
    show ?case
    proof (cases calls)
      case Nil
      then have "d = d1" using Cons.prems(4) by (simp add: c a)
      then show ?thesis using step(5,6) by (simp add: Nil c algebra_simps)
    next
      case (Cons c' calls')
      have "sorted (bg_last_refill t1 # map (fst \<circ> snd) calls)" using Cons.prems(2) step(3) by (simp add: c comp_def)
      from Cons.IH [OF step(1) this, of m1 d1] Cons.prems(4) step(5) Cons show ?thesis
        by (simp add: c a step(2,3) algebra_simps)
    qed
  qed simp
  from gen [of "fst (bg_new cfg m start)" calls "snd (bg_new cfg m start)" 0] throttle_inv_new [OF assms(1,2)] assms(3-5)
  show ?thesis by (simp add: bg_new_def algebra_simps)
qed

text \<open>Background work never starves: a delay is at most its debt at the configured minimum rate.\<close>

theorem throttle_floor:
  assumes "throttle_inv t" and "bg_last_refill t \<le> now" and "acquire_delay t m bytes now fg = (t', m', d)" and "0 \<le> bg_tokens t"
  shows "d * of_nat (bc_min_bytes_per_sec (bg_cfg t)) \<le> of_nat bytes"
proof -
  obtain u n where a: "adapt_rate t m now fg = (u, n)" by fastforce
  have u: "throttle_inv u" "bg_tokens u = bg_tokens t" "bg_last_refill u = bg_last_refill t"
    using adapt_rate_inv [OF assms(1), of m now fg] by (simp_all add: a)
  have "0 \<le> bg_rate u" using u(1) by (auto simp: throttle_inv_def intro: order_trans [of 0 "of_nat _"])
  then have "0 \<le> bg_rate u * max 0 (now - bg_last_refill t)" by simp
  then have "- of_nat bytes \<le> bg_tokens t'"
    using assms(3,4) \<open>0 \<le> bg_rate u\<close> by (auto simp: acquire_delay_def a u Let_def)
  then show ?thesis using acquire_delay_step(7) [OF assms(1-3)] by (auto simp: max_def split: if_splits)
qed

text \<open>A reloaded configuration is not kept: only the current rate is clamped to the new maximum, and one quiet window
  later the rate is above it again.\<close>

theorem update_config_forgotten:
  assumes "bc_min_bytes_per_sec new \<le> bc_max_bytes_per_sec new" and "bc_max_bytes_per_sec new < bc_max_bytes_per_sec (bg_cfg t)"
    and "of_nat (bc_max_bytes_per_sec new) \<le> bg_rate t" and "bg_last_obs t + 1 \<le> now" and "fg \<le> bg_last_fg_ops t"
    and "0 \<le> bc_fg_busy_ops_per_sec (bg_cfg t)"
  shows "let t' = fst (update_config t m new) in
    bg_rate t' = of_nat (bc_max_bytes_per_sec new) \<and>
    of_nat (bc_max_bytes_per_sec new) < bg_rate (fst (adapt_rate t' m' now fg))"
  using assms by (auto simp: update_config_def adapt_rate_def Let_def)

definition sample_throttle :: bg_throttle where
  "sample_throttle = fst (bg_new bg_throttle_config_default ops_metrics_default 0)"

lemma sample_throttle_inv: "throttle_inv sample_throttle" "bg_last_refill sample_throttle = 0" "0 \<le> bg_tokens sample_throttle"
  by (simp_all add: sample_throttle_def throttle_inv_new bg_throttle_config_default_def) (simp_all add: bg_new_def)

theorem throttle_pacing_witness:
  "\<exists>t' m' d. throttle_run (fst (bg_new bg_throttle_config_default ops_metrics_default 0), snd (bg_new bg_throttle_config_default ops_metrics_default 0), 0)
       [(50000000, 0, 0), (90000000, 1, 500)] = (t', m', d) \<and> 140000000 \<le> (64 * 1024 * 1024) * (2 + d)"
proof -
  let ?st = "(fst (bg_new bg_throttle_config_default ops_metrics_default 0), snd (bg_new bg_throttle_config_default ops_metrics_default 0), 0 :: rat)"
  let ?calls = "[(50000000, 0, 0), (90000000, 1, 500)] :: (nat \<times> rat \<times> nat) list"
  obtain t' m' d where r: "throttle_run ?st ?calls = (t', m', d)" by (cases "throttle_run ?st ?calls")
  from throttle_pacing [OF _ _ _ _ r] show ?thesis
    by (intro exI [of _ t'] exI [of _ m'] exI [of _ d] conjI r) (simp add: bg_throttle_config_default_def)
qed

theorem throttle_floor_witness:
  "\<exists>t' m' d. acquire_delay sample_throttle ops_metrics_default 900000000 2 10 = (t', m', d) \<and> d * (4 * 1024 * 1024) \<le> 900000000"
proof -
  obtain t' m' d where r: "acquire_delay sample_throttle ops_metrics_default 900000000 2 10 = (t', m', d)"
    by (cases "acquire_delay sample_throttle ops_metrics_default 900000000 2 10")
  from throttle_floor [OF sample_throttle_inv(1) _ r sample_throttle_inv(3)] r show ?thesis
    by (intro exI [of _ t'] exI [of _ m'] exI [of _ d] conjI r)
      (simp add: sample_throttle_inv(2), simp add: sample_throttle_def bg_new_def bg_throttle_config_default_def)
qed

theorem update_config_forgotten_witness:
  "20000000 < bg_rate (fst (adapt_rate (fst (update_config sample_throttle ops_metrics_default
     \<lparr>bc_max_bytes_per_sec = 20000000, bc_min_bytes_per_sec = 1, bc_fg_busy_ops_per_sec = 50\<rparr>)) ops_metrics_default 1 0))"
  using update_config_forgotten [of "\<lparr>bc_max_bytes_per_sec = 20000000, bc_min_bytes_per_sec = 1, bc_fg_busy_ops_per_sec = 50\<rparr>" sample_throttle 1 0
    ops_metrics_default ops_metrics_default]
  by (simp add: Let_def sample_throttle_def bg_new_def bg_throttle_config_default_def)

end
