(* ===== verification/Verified.thy ===== *)
theory Verified
  imports Domain "HOL-Library.Sublist"
begin

text \<open>
  Outboard records and verified range reads (\<open>ozd-app/src/verified.rs\<close>). The crate \<open>abao\<close> is a
  parameter: the outboard and the 32-byte root hash of a body, the extraction of a slice, and its verification against a
  root. Extraction and verification fail with \<open>None\<close>.
\<close>

definition OB_PREFIX :: bytes where
  "OB_PREFIX = map (\<lambda>c. word_of_nat (of_char c)) ''/ozd/ob3''"

record ob_config =
  ob_min_size :: nat

definition ob_config_default :: ob_config where
  "ob_config_default = \<lparr>ob_min_size = 256 * 1024\<rparr>"

record abao_ops =
  ab_outboard :: "bytes \<Rightarrow> bytes \<times> bytes"
  ab_extract :: "bytes \<Rightarrow> bytes \<Rightarrow> nat \<Rightarrow> nat \<Rightarrow> bytes option"
  ab_decode :: "bytes \<Rightarrow> bytes \<Rightarrow> nat \<Rightarrow> nat \<Rightarrow> bytes option"

definition ob_key :: "block_key \<Rightarrow> block_key" where
  "ob_key key = OB_PREFIX @ key"

definition is_ob_key :: "block_key \<Rightarrow> bool" where
  "is_ob_key key \<longleftrightarrow> prefix OB_PREFIX key"

definition make_outboard :: "abao_ops \<Rightarrow> bytes \<Rightarrow> bytes" where
  "make_outboard ab body = (let (outboard, hash) = ab_outboard ab body in hash @ outboard)"

definition verify_bao_slice :: "abao_ops \<Rightarrow> bytes \<Rightarrow> bytes \<Rightarrow> nat \<Rightarrow> nat \<Rightarrow> bytes domain_result" where
  "verify_bao_slice ab sl rt start n =
     (case ab_decode ab sl rt start n of
        None \<Rightarrow> Inl (IntegrityViolation ''bao slice verify'')
      | Some out \<Rightarrow> Inr out)"

definition verified_slice :: "abao_ops \<Rightarrow> bytes \<Rightarrow> bytes \<Rightarrow> nat \<Rightarrow> nat \<Rightarrow> bytes domain_result" where
  "verified_slice ab body ob_record start n =
     (if length ob_record < 32 then Inl (IntegrityViolation ''ob3: record too short'')
      else
        let rt = take 32 ob_record; outboard = drop 32 ob_record in
        case ab_extract ab body outboard start n of
          None \<Rightarrow> Inl (Io ''ob3 extract'')
        | Some sl \<Rightarrow> (case ab_decode ab sl rt start n of
              None \<Rightarrow> Inl (IntegrityViolation ''ob3 verify'')
            | Some out \<Rightarrow> Inr out))"

definition bao_slice :: "abao_ops \<Rightarrow> bytes \<Rightarrow> bytes \<Rightarrow> nat \<Rightarrow> nat \<Rightarrow> (bytes \<times> bytes) domain_result" where
  "bao_slice ab body ob_record start n =
     (if length ob_record < 32 then Inl (IntegrityViolation ''ob3: record too short'')
      else
        let rt = take 32 ob_record; outboard = drop 32 ob_record in
        case ab_extract ab body outboard start n of
          None \<Rightarrow> Inl (Io ''ob3 extract'')
        | Some sl \<Rightarrow> (case verify_bao_slice ab sl rt start n of
              Inl e \<Rightarrow> Inl e
            | Inr _ \<Rightarrow> Inr (sl, rt)))"

definition hex_digit :: "nat \<Rightarrow> char" where
  "hex_digit d = char_of (if d < 10 then 48 + d else 87 + d)"

definition hex32 :: "bytes \<Rightarrow> string" where
  "hex32 b = concat (map (\<lambda>x. [hex_digit (unat x div 16), hex_digit (unat x mod 16)]) b)"

section \<open>Properties\<close>

text \<open>
  The documented use of \<open>abao\<close>, for bodies of a set: roots have 32 bytes, and a slice extracted from a body with its own outboard
  verifies against its root to the bytes of the range. What a damaged body or a forged slice gives is not assumed.
\<close>

definition abao_contract :: "abao_ops \<Rightarrow> bytes set \<Rightarrow> bool" where
  "abao_contract ab B \<longleftrightarrow> (\<forall>body \<in> B. \<forall>start n.
     length (snd (ab_outboard ab body)) = 32 \<and>
     (\<exists>sl. ab_extract ab body (fst (ab_outboard ab body)) start n = Some sl \<and>
        ab_decode ab sl (snd (ab_outboard ab body)) start n = Some (bslice body start (start + n))))"

lemma make_outboard_parts:
  assumes "abao_contract ab B" and "body \<in> B"
  shows "take 32 (make_outboard ab body) = snd (ab_outboard ab body)" "drop 32 (make_outboard ab body) = fst (ab_outboard ab body)"
    "\<not> length (make_outboard ab body) < 32"
  using assms by (auto simp: abao_contract_def make_outboard_def split_beta)

text \<open>The record written with a body splits into its root and outboard again, so a verified read of the intact body succeeds with the range.\<close>

lemma verified_slice_intact:
  assumes "abao_contract ab B" and "body \<in> B"
  shows "verified_slice ab body (make_outboard ab body) start n = Inr (bslice body start (start + n))"
proof -
  from assms obtain sl where "ab_extract ab body (fst (ab_outboard ab body)) start n = Some sl"
      "ab_decode ab sl (snd (ab_outboard ab body)) start n = Some (bslice body start (start + n))"
    unfolding abao_contract_def by blast
  then show ?thesis by (simp add: verified_slice_def make_outboard_parts [OF assms] Let_def)
qed

text \<open>A slice handed out to a peer with its root verifies on the peer's side, and yields the bytes of the body.\<close>

lemma bao_slice_intact:
  assumes "abao_contract ab B" and "body \<in> B"
  shows "\<exists>sl. bao_slice ab body (make_outboard ab body) start n = Inr (sl, snd (ab_outboard ab body)) \<and>
    verify_bao_slice ab sl (snd (ab_outboard ab body)) start n = Inr (bslice body start (start + n))"
proof -
  from assms obtain sl where "ab_extract ab body (fst (ab_outboard ab body)) start n = Some sl"
      "ab_decode ab sl (snd (ab_outboard ab body)) start n = Some (bslice body start (start + n))"
    unfolding abao_contract_def by blast
  then show ?thesis
    by (intro exI [of _ sl]) (simp add: bao_slice_def verify_bao_slice_def make_outboard_parts [OF assms] Let_def)
qed

text \<open>A small instance: short bodies are their own hash, padded to 32 bytes, and a slice is the whole body.\<close>

definition tiny_hash :: "bytes \<Rightarrow> bytes" where
  "tiny_hash b = take 32 (word_of_nat (length b) # b @ replicate 31 0)"

definition tiny_abao :: abao_ops where
  "tiny_abao = \<lparr>ab_outboard = (\<lambda>b. ([], tiny_hash b)), ab_extract = (\<lambda>b ob start n. Some b),
     ab_decode = (\<lambda>sl rt start n. if length sl \<le> 31 \<and> tiny_hash sl = rt then Some (bslice sl start (start + n)) else None)\<rparr>"

lemma length_tiny_hash [simp]: "length (tiny_hash b) = 32"
  by (simp add: tiny_hash_def)

lemma tiny_contract: "abao_contract tiny_abao {b. length b \<le> 31}"
  unfolding abao_contract_def tiny_abao_def by auto

end
