(* ===== verification/Heal_Queue.thy ===== *)
theory Heal_Queue
  imports Domain "HOL-Library.AList" "HOL-Library.Code_Target_Nat"
begin

text \<open>
  The priority queue of pending repairs (\<open>HealQueue\<close> in \<open>ozd-app/src/pool.rs\<close>). \<open>BinaryHeap\<close> is a list from
  which the greatest item is taken, \<open>HashMap\<close> an association list with distinct keys.
\<close>

datatype heal_priority = Low | Normal | High | Urgent

fun prio_rank :: "heal_priority \<Rightarrow> nat" where
  "prio_rank Low = 0"
| "prio_rank Normal = 1"
| "prio_rank High = 2"
| "prio_rank Urgent = 3"

instantiation heal_priority :: linorder
begin

definition less_eq_heal_priority :: "heal_priority \<Rightarrow> heal_priority \<Rightarrow> bool" where
  "less_eq_heal_priority p q = (prio_rank p \<le> prio_rank q)"

definition less_heal_priority :: "heal_priority \<Rightarrow> heal_priority \<Rightarrow> bool" where
  "less_heal_priority p q = (prio_rank p < prio_rank q)"

instance
proof
  fix p q :: heal_priority
  show "p \<le> q \<Longrightarrow> q \<le> p \<Longrightarrow> p = q"
    by (cases p; cases q) (simp_all add: less_eq_heal_priority_def)
qed (auto simp: less_eq_heal_priority_def less_heal_priority_def)

end

record heal_item =
  hi_prio :: heal_priority
  hi_seq :: nat
  hi_key :: block_key

text \<open>\<open>HealItem::cmp\<close>: by priority, and the smaller sequence number is the greater item.\<close>

definition heal_le :: "heal_item \<Rightarrow> heal_item \<Rightarrow> bool" where
  "heal_le a b \<longleftrightarrow> hi_prio a < hi_prio b \<or> (hi_prio a = hi_prio b \<and> hi_seq b \<le> hi_seq a)"

record heal_queue =
  hq_heap :: "heal_item list"
  hq_dedup :: "(block_key \<times> heal_priority) list"
  hq_seq :: nat

definition heal_queue_default :: heal_queue where
  "heal_queue_default = \<lparr>hq_heap = [], hq_dedup = [], hq_seq = 0\<rparr>"

definition HEAL_CAP :: nat where
  "HEAL_CAP = 100000"

definition hq_push :: "heal_queue \<Rightarrow> block_key \<Rightarrow> heal_priority \<Rightarrow> heal_queue" where
  "hq_push q key prio =
     (if (case map_of (hq_dedup q) key of Some cur \<Rightarrow> prio \<le> cur | None \<Rightarrow> False) then q
      else if HEAL_CAP \<le> length (hq_dedup q) \<and> map_of (hq_dedup q) key = None then q
      else
        let s = hq_seq q + 1 in
        q\<lparr>hq_dedup := AList.update key prio (hq_dedup q), hq_seq := s,
          hq_heap := \<lparr>hi_prio = prio, hi_seq = s, hi_key = key\<rparr> # hq_heap q\<rparr>)"

fun heap_top :: "heal_item \<Rightarrow> heal_item list \<Rightarrow> heal_item" where
  "heap_top it [] = it"
| "heap_top it (x # xs) = heap_top (if heal_le it x then x else it) xs"

lemma heap_top_in: "heap_top it xs \<in> set (it # xs)"
  by (induction xs arbitrary: it) (auto split: if_splits)

lemma heal_le_trans: "heal_le a b \<Longrightarrow> heal_le b c \<Longrightarrow> heal_le a c"
  by (auto simp: heal_le_def)

lemma heal_le_total: "\<not> heal_le a b \<Longrightarrow> heal_le b a"
  by (auto simp: heal_le_def)

lemma heal_le_refl [simp]: "heal_le a a"
  by (simp add: heal_le_def)

lemma heap_top_max: "x \<in> set (it # xs) \<Longrightarrow> heal_le x (heap_top it xs)"
proof (induction xs arbitrary: it x)
  case (Cons y ys)
  let ?w = "if heal_le it y then y else it"
  have w: "heal_le ?w (heap_top ?w ys)" and rest: "\<And>z. z \<in> set ys \<Longrightarrow> heal_le z (heap_top ?w ys)"
    using Cons.IH by auto
  have "heal_le it ?w" "heal_le y ?w" using heal_le_total [of it y] by auto
  with w have "heal_le it (heap_top ?w ys)" "heal_le y (heap_top ?w ys)" using heal_le_trans by blast+
  with Cons.prems rest show ?case by auto
qed simp

text \<open>\<open>pop\<close> drops stale copies until the greatest item agrees with the deduplication map.\<close>

function hq_pop :: "heal_queue \<Rightarrow> heal_queue \<times> (block_key \<times> heal_priority) option" where
  "hq_pop q =
     (case hq_heap q of
        [] \<Rightarrow> (q, None)
      | x # xs \<Rightarrow>
          let it = heap_top x xs; q = q\<lparr>hq_heap := remove1 it (x # xs)\<rparr> in
          if map_of (hq_dedup q) (hi_key it) = Some (hi_prio it)
          then (q\<lparr>hq_dedup := AList.delete (hi_key it) (hq_dedup q)\<rparr>, Some (hi_key it, hi_prio it))
          else hq_pop q)"
  by pat_completeness auto

termination
proof (relation "measure (\<lambda>q. length (hq_heap q))", simp)
  fix q x xs it q'
  assume "hq_heap q = x # xs" "it = heap_top x xs" "q' = q\<lparr>hq_heap := remove1 it (x # xs)\<rparr>"
  then show "(q', q) \<in> measure (\<lambda>q. length (hq_heap q))"
    using heap_top_in [of x xs] length_remove1 [of it "x # xs"] by simp
qed

declare hq_pop.simps [simp del]

definition hq_len :: "heal_queue \<Rightarrow> nat" where
  "hq_len q = length (hq_dedup q)"

section \<open>Invariant\<close>

declare map_of_eq_Some_iff [simp del] Some_eq_map_of_iff [simp del]

definition hq_inv :: "heal_queue \<Rightarrow> bool" where
  "hq_inv q \<longleftrightarrow> distinct (map fst (hq_dedup q)) \<and> hq_len q \<le> HEAL_CAP \<and>
     (\<forall>k p. map_of (hq_dedup q) k = Some p \<longrightarrow> (\<exists>it \<in> set (hq_heap q). hi_key it = k \<and> hi_prio it = p))"

lemma hq_inv_default [simp]: "hq_inv heal_queue_default"
  by (simp add: hq_inv_def heal_queue_default_def hq_len_def)

lemma length_update_new: "map_of xs k = None \<Longrightarrow> length (AList.update k v xs) = Suc (length xs)"
  by (induction xs) (auto split: if_splits)

lemma length_update_old: "map_of xs k \<noteq> None \<Longrightarrow> length (AList.update k v xs) = length xs"
  by (induction xs) (auto split: if_splits)

text \<open>What a push does to the pending keys.\<close>

lemma hq_push_effect:
  assumes "hq_inv q"
  shows "hq_inv (hq_push q key prio) \<and>
    (hq_len q < HEAL_CAP \<or> map_of (hq_dedup q) key \<noteq> None \<longrightarrow>
       map_of (hq_dedup (hq_push q key prio)) =
         (map_of (hq_dedup q))(key \<mapsto> (case map_of (hq_dedup q) key of None \<Rightarrow> prio | Some cur \<Rightarrow> max cur prio)))"
proof (cases "map_of (hq_dedup q) key")
  case None
  have "length (AList.update key prio (hq_dedup q)) = Suc (hq_len q)"
    using length_update_new [OF None] by (simp add: hq_len_def)
  with None assms show ?thesis
    by (auto simp: hq_push_def hq_inv_def hq_len_def Let_def update_conv' distinct_update split: if_splits)
next
  case (Some cur)
  have "length (AList.update key prio (hq_dedup q)) = hq_len q"
    using length_update_old [of "hq_dedup q" key prio] Some by (simp add: hq_len_def)
  with Some assms show ?thesis
    by (auto simp: hq_push_def hq_inv_def hq_len_def Let_def update_conv' distinct_update max_def fun_upd_idem split: if_splits)
qed

text \<open>A push keeps the queue well formed and within its capacity, and records the key with the higher of its old and new
  priorities, unless the queue is full and the key is new.\<close>

theorem hq_push_spec:
  assumes "hq_inv q"
  shows "hq_inv (hq_push q key prio) \<and>
    (hq_len q < HEAL_CAP \<or> map_of (hq_dedup q) key \<noteq> None \<longrightarrow>
       map_of (hq_dedup (hq_push q key prio)) =
         (map_of (hq_dedup q))(key \<mapsto> (case map_of (hq_dedup q) key of None \<Rightarrow> prio | Some cur \<Rightarrow> max cur prio)))"
  using assms by (rule hq_push_effect)

lemma hq_pop_general:
  assumes "hq_inv q" and "hq_pop q = (q', r)"
  shows "hq_inv q' \<and> (case r of
      None \<Rightarrow> hq_dedup q = [] \<and> hq_dedup q' = []
    | Some (k, p) \<Rightarrow> map_of (hq_dedup q) k = Some p \<and> (\<forall>k' p'. map_of (hq_dedup q) k' = Some p' \<longrightarrow> p' \<le> p) \<and>
        hq_dedup q' = AList.delete k (hq_dedup q))"
  using assms
proof (induction q rule: hq_pop.induct)
  case (1 q)
  show ?case
  proof (cases "hq_heap q")
    case Nil
    then have "map_of (hq_dedup q) = Map.empty" using "1.prems"(1) by (fastforce simp: hq_inv_def)
    then have "hq_dedup q = []" by (cases "hq_dedup q") (auto simp: fun_eq_iff split: if_splits)
    then show ?thesis using "1.prems" Nil by (auto simp: hq_pop.simps [of q])
  next
    case (Cons x xs)
    let ?it = "heap_top x xs"
    let ?q = "q\<lparr>hq_heap := remove1 ?it (x # xs)\<rparr>"
    have top: "hi_prio it \<le> hi_prio ?it" if "it \<in> set (hq_heap q)" for it
      using heap_top_max [of it x xs] that Cons by (auto simp: heal_le_def)
    have kept: "it \<in> set (remove1 ?it (x # xs))" if "it \<in> set (hq_heap q)" "it \<noteq> ?it" for it
      using that Cons by (metis in_set_remove1)
    show ?thesis
    proof (cases "map_of (hq_dedup q) (hi_key ?it) = Some (hi_prio ?it)")
      case True
      then have q': "q' = ?q\<lparr>hq_dedup := AList.delete (hi_key ?it) (hq_dedup q)\<rparr>" and r: "r = Some (hi_key ?it, hi_prio ?it)"
        using "1.prems"(2) Cons by (simp_all add: hq_pop.simps [of q] Let_def)
      have "\<exists>it \<in> set (remove1 ?it (x # xs)). hi_key it = k \<and> hi_prio it = p"
        if "map_of (AList.delete (hi_key ?it) (hq_dedup q)) k = Some p" for k p
      proof -
        from that have k: "k \<noteq> hi_key ?it" "map_of (hq_dedup q) k = Some p" by (auto simp: delete_conv' split: if_splits)
        then obtain it where "it \<in> set (hq_heap q)" "hi_key it = k" "hi_prio it = p" using "1.prems"(1) by (auto simp: hq_inv_def)
        then show ?thesis using kept [of it] k(1) by blast
      qed
      moreover have "length (AList.delete (hi_key ?it) (hq_dedup q)) \<le> HEAL_CAP"
        using "1.prems"(1) length_delete_le [of "hi_key ?it" "hq_dedup q"] by (simp add: hq_inv_def hq_len_def)
      ultimately have "hq_inv q'"
        using "1.prems"(1) by (simp add: q' hq_inv_def hq_len_def distinct_delete del: remove1.simps)
      moreover have "p' \<le> hi_prio ?it" if "map_of (hq_dedup q) k' = Some p'" for k' p'
        using that "1.prems"(1) top by (fastforce simp: hq_inv_def)
      ultimately show ?thesis using True by (auto simp: r q')
    next
      case False
      have "\<exists>it \<in> set (remove1 ?it (x # xs)). hi_key it = k \<and> hi_prio it = p" if "map_of (hq_dedup q) k = Some p" for k p
        using that "1.prems"(1) kept False by (fastforce simp: hq_inv_def)
      then have inv: "hq_inv ?q" using "1.prems"(1) by (simp add: hq_inv_def hq_len_def del: remove1.simps)
      have pop: "hq_pop ?q = (q', r)"
        using "1.prems"(2) Cons False by (simp add: hq_pop.simps [of q] Let_def del: remove1.simps)
      have dd: "hq_dedup ?q = hq_dedup q" by simp
      then have "map_of (hq_dedup ?q) (hi_key ?it) \<noteq> Some (hi_prio ?it)" using False by simp
      from "1.IH" [OF Cons refl refl this inv pop] show ?thesis unfolding dd .
    qed
  qed
qed

text \<open>C26: a pop returns a pending key of the highest pending priority, once: stale copies left behind by upgrades are never
  returned, the key leaves the queue and the others stay; it returns nothing only when nothing is pending.\<close>

theorem hq_pop_spec:
  assumes "hq_inv q" and "hq_pop q = (q', r)"
  shows "hq_inv q' \<and> (case r of
      None \<Rightarrow> map_of (hq_dedup q) = Map.empty
    | Some (k, p) \<Rightarrow> map_of (hq_dedup q) k = Some p \<and> (\<forall>k' p'. map_of (hq_dedup q) k' = Some p' \<longrightarrow> p' \<le> p) \<and>
        map_of (hq_dedup q') = (map_of (hq_dedup q))(k := None))"
  using hq_pop_general [OF assms] by (auto simp: delete_conv' split: option.splits)

definition sample_queue :: heal_queue where
  "sample_queue = hq_push (hq_push (hq_push heal_queue_default [1] Low) [2] Normal) [1] Urgent"

lemma sample_queue_inv: "hq_inv sample_queue"
  unfolding sample_queue_def using hq_push_effect hq_inv_default by blast

theorem hq_push_spec_witness:
  "map_of (hq_dedup (hq_push sample_queue [2] High)) [2] = Some High"
  using hq_push_spec [OF sample_queue_inv, of "[2]" High]
  by (simp add: sample_queue_def hq_push_def heal_queue_default_def Let_def HEAL_CAP_def hq_len_def less_eq_heal_priority_def max_def)

theorem hq_pop_spec_witness:
  "\<exists>q'. hq_pop sample_queue = (q', Some ([1], Urgent)) \<and> map_of (hq_dedup q') [1] = None"
proof -
  have "snd (hq_pop sample_queue) = Some ([1], Urgent)" by code_simp
  then have "hq_pop sample_queue = (fst (hq_pop sample_queue), Some ([1], Urgent))" by (metis prod.collapse)
  from this hq_pop_spec [OF sample_queue_inv this] show ?thesis by (intro exI conjI) auto
qed

end
