(* ===== verification/Pool.thy ===== *)
theory Pool
  imports Shard Health Monitor Placement Erasure Metrics Throttle Verified Heal_Queue
begin

text \<open>
  The pool (\<open>ozd-app/src/pool.rs\<close>): shards combined into one block store with \<open>R\<close> copies or with
  erasure coding. This theory holds the state, the topology cache and the client operations; repair, scrub, resilver
  and migration are in \<open>Pool_Repair\<close> and \<open>Pool_Migrate\<close>.

  The pool state is explicit. \<open>pool_env\<close> collects what the pool is configured with and what it does not
  determine itself: the shard implementation, the placement policy (a trait object), the code library, the hash tree library, the
  time each metered call takes, the order in which the replies of parallel calls arrive, and the repair slots that concurrent
  repair workers hold on each shard. The last three are indexed by \<open>po_tick\<close>, which every use increments, so that each occasion is free to differ. \<open>po_clock\<close> is the time since the creation of the pool in microseconds. Threads writing to distinct
  shards in parallel are run one after the other in the order of their replies: they share no shard.
  Log lines are left out. A policy only returns shards of the topology it is given, so indexing stays in range.
\<close>

section \<open>Configuration and state\<close>

record pool_config =
  pc_replicas :: nat
  pc_write_quorum :: nat
  pc_free_space_cache_ttl :: nat
  pc_speculative_retry_after :: "nat option"
  pc_heal_parallelism :: nat
  pc_heal_max_per_shard :: nat
  pc_bg_throttle :: bg_throttle_config
  pc_ec :: "ec_config option"
  pc_outboard :: "ob_config option"
  pc_adaptive_hedge :: bool
  pc_disk_slow :: disk_slow_config

definition pool_config_default :: pool_config where
  "pool_config_default =
     \<lparr>pc_replicas = 2, pc_write_quorum = 2, pc_free_space_cache_ttl = 5000000, pc_speculative_retry_after = Some 100000,
      pc_heal_parallelism = 4, pc_heal_max_per_shard = 2, pc_bg_throttle = bg_throttle_config_default, pc_ec = None,
      pc_outboard = None, pc_adaptive_hedge = True, pc_disk_slow = disk_slow_config_default\<rparr>"

record 's pool =
  po_shards :: "'s list"
  po_topo :: "(nat \<times> topology) option"
  po_statuses :: "shard_status list"
  po_cap_overrides :: "capacity option list"
  po_mrf :: heal_queue
  po_metrics :: ops_metrics
  po_bg :: bg_throttle
  po_read_lat :: rolling_p99
  po_slow_mon :: disk_slow_monitor
  po_slow_flags :: "bool list"
  po_shutting_down :: bool
  po_clock :: nat
  po_tick :: nat

record 's pool_env =
  pe_ops :: "'s shard_ops"
  pe_cfg :: pool_config
  pe_select :: "block_key \<Rightarrow> topology \<Rightarrow> nat \<Rightarrow> shard_id list"
  pe_rs :: rs_ops
  pe_abao :: abao_ops
  pe_latency :: "nat \<Rightarrow> nat"
  pe_arrival :: "nat \<Rightarrow> nat list \<Rightarrow> nat list"
  pe_holds :: "nat \<Rightarrow> nat list"

text \<open>\<open>Pool::new\<close>; \<open>None\<close> is a failed assertion.\<close>

definition pool_new :: "'s list \<Rightarrow> pool_config \<Rightarrow> 's pool option" where
  "pool_new shards cfg =
     (if \<not> (1 \<le> pc_replicas cfg \<and> 1 \<le> pc_write_quorum cfg) \<or> \<not> pc_write_quorum cfg \<le> pc_replicas cfg \<or>
         \<not> pc_replicas cfg \<le> length shards then None
      else
        let n = length shards;
            (bg, metrics) = bg_new (pc_bg_throttle cfg) ops_metrics_default 0 in
        Some \<lparr>po_shards = shards, po_topo = None, po_statuses = replicate n Online, po_cap_overrides = replicate n None,
              po_mrf = heal_queue_default, po_metrics = metrics, po_bg = bg, po_read_lat = rolling_new 60000000 64,
              po_slow_mon = disk_slow_new n, po_slow_flags = replicate n False, po_shutting_down = False,
              po_clock = 0, po_tick = 0\<rparr>)"

definition tally :: "counter \<Rightarrow> nat \<Rightarrow> 's pool \<Rightarrow> 's pool" where
  "tally c n p = p\<lparr>po_metrics := fetch_add c n (po_metrics p)\<rparr>"

section \<open>Calls to a shard\<close>

definition shard_call :: "('s \<Rightarrow> ('s, 'a) op) \<Rightarrow> nat \<Rightarrow> 's pool \<Rightarrow> ('s pool, 'a) op" where
  "shard_call f i p = (let (s, r) = f (po_shards p ! i) in (p\<lparr>po_shards := (po_shards p)[i := s]\<rparr>, r))"

text \<open>\<open>MeteredShard\<close> times \<open>put\<close>, \<open>get\<close> and \<open>put_meta\<close>, and passes the other operations through.\<close>

definition metered :: "'s pool_env \<Rightarrow> ('s \<Rightarrow> ('s, 'a) op) \<Rightarrow> nat \<Rightarrow> 's pool \<Rightarrow> ('s pool, 'a) op" where
  "metered E f i p =
     (let (p, r) = shard_call f i p; lat = pe_latency E (po_tick p) in
      (p\<lparr>po_tick := po_tick p + 1, po_clock := po_clock p + lat, po_slow_mon := disk_slow_record (po_slow_mon p) i lat\<rparr>, r))"

definition sh_put :: "'s pool_env \<Rightarrow> nat \<Rightarrow> block_key \<Rightarrow> bytes \<Rightarrow> 's pool \<Rightarrow> ('s pool, unit) op" where
  "sh_put E i key data = metered E (\<lambda>s. so_put (pe_ops E) s key data) i"

definition sh_put_meta :: "'s pool_env \<Rightarrow> nat \<Rightarrow> block_key \<Rightarrow> bytes \<Rightarrow> u64 option \<Rightarrow> 's pool \<Rightarrow> ('s pool, unit) op" where
  "sh_put_meta E i key data obj = metered E (\<lambda>s. so_put_meta (pe_ops E) s key data obj) i"

definition sh_get :: "'s pool_env \<Rightarrow> nat \<Rightarrow> block_key \<Rightarrow> 's pool \<Rightarrow> ('s pool, bytes) op" where
  "sh_get E i key = metered E (\<lambda>s. so_get (pe_ops E) s key) i"

definition sh_has :: "'s pool_env \<Rightarrow> nat \<Rightarrow> block_key \<Rightarrow> 's pool \<Rightarrow> ('s pool, bool) op" where
  "sh_has E i key = shard_call (\<lambda>s. so_has (pe_ops E) s key) i"

definition sh_delete :: "'s pool_env \<Rightarrow> nat \<Rightarrow> block_key \<Rightarrow> 's pool \<Rightarrow> ('s pool, unit) op" where
  "sh_delete E i key = shard_call (\<lambda>s. so_delete (pe_ops E) s key) i"

definition sh_stat :: "'s pool_env \<Rightarrow> nat \<Rightarrow> block_key \<Rightarrow> 's pool \<Rightarrow> ('s pool, nat) op" where
  "sh_stat E i key = shard_call (\<lambda>s. so_stat (pe_ops E) s key) i"

definition sh_stat_obj :: "'s pool_env \<Rightarrow> nat \<Rightarrow> block_key \<Rightarrow> 's pool \<Rightarrow> ('s pool, nat \<times> u64 option) op" where
  "sh_stat_obj E i key = shard_call (\<lambda>s. so_stat_obj (pe_ops E) s key) i"

text \<open>\<open>has(key).unwrap_or(false)\<close>.\<close>

definition holds_key :: "'s pool_env \<Rightarrow> nat \<Rightarrow> block_key \<Rightarrow> 's pool \<Rightarrow> 's pool \<times> bool" where
  "holds_key E i key p = (case sh_has E i key p of (p, Inr b) \<Rightarrow> (p, b) | (p, Inl _) \<Rightarrow> (p, False))"

text \<open>The replies of parallel calls in their order of arrival.\<close>

definition arrivals :: "'s pool_env \<Rightarrow> nat list \<Rightarrow> 's pool \<Rightarrow> 's pool \<times> nat list" where
  "arrivals E legs p = (p\<lparr>po_tick := po_tick p + 1\<rparr>, pe_arrival E (po_tick p) legs)"

text \<open>Paying for background work: the caller sleeps for the delay.\<close>

definition bg_pay :: "nat \<Rightarrow> 's pool \<Rightarrow> 's pool" where
  "bg_pay bytes p =
     (let (bg, m, d) = acquire (po_bg p) (po_metrics p) bytes (of_nat (po_clock p) / 1000000) in
      p\<lparr>po_bg := bg, po_metrics := m, po_clock := po_clock p + nat \<lceil>d * 1000000\<rceil>\<rparr>)"

section \<open>Status and topology\<close>

definition disk_slow_verdicts :: "'s pool_env \<Rightarrow> 's pool \<Rightarrow> bool list" where
  "disk_slow_verdicts E p = verdicts (po_slow_mon p) (pc_disk_slow (pe_cfg E))"

definition shard_ewma_ms :: "'s pool \<Rightarrow> nat \<Rightarrow> nat" where
  "shard_ewma_ms p i = ewma_ms (po_slow_mon p) i"

definition shard_slow :: "'s pool \<Rightarrow> nat \<Rightarrow> bool" where
  "shard_slow p i = (if i < length (po_slow_flags p) then po_slow_flags p ! i else False)"

definition set_shard_slow :: "nat \<Rightarrow> bool \<Rightarrow> 's pool \<Rightarrow> 's pool" where
  "set_shard_slow idx slow p =
     (if idx < length (po_slow_flags p) \<and> po_slow_flags p ! idx \<noteq> slow
      then p\<lparr>po_slow_flags := (po_slow_flags p)[idx := slow], po_topo := None\<rparr> else p)"

definition set_shard_capacity :: "nat \<Rightarrow> capacity \<Rightarrow> 's pool \<Rightarrow> 's pool" where
  "set_shard_capacity idx cap p =
     (if idx < length (po_cap_overrides p) then p\<lparr>po_cap_overrides := (po_cap_overrides p)[idx := Some cap]\<rparr> else p)"

definition set_shard_status :: "nat \<Rightarrow> shard_status \<Rightarrow> 's pool \<Rightarrow> 's pool" where
  "set_shard_status idx st p =
     (if idx < length (po_statuses p) \<and> po_statuses p ! idx \<noteq> st
      then p\<lparr>po_statuses := (po_statuses p)[idx := st], po_topo := None\<rparr> else p)"

definition pool_shard_status :: "'s pool \<Rightarrow> nat \<Rightarrow> shard_status option" where
  "pool_shard_status p idx = (if idx < length (po_statuses p) then Some (po_statuses p ! idx) else None)"

definition shard_count :: "'s pool \<Rightarrow> nat" where
  "shard_count p = length (po_shards p)"

fun effective_status :: "shard_status \<Rightarrow> bool \<Rightarrow> shard_status" where
  "effective_status Online True = Suspect"
| "effective_status st _ = st"

definition shard_capacity :: "'s pool_env \<Rightarrow> nat \<Rightarrow> 's pool \<Rightarrow> 's pool \<times> capacity" where
  "shard_capacity E i p =
     (case po_cap_overrides p ! i of
        Some cap \<Rightarrow> (p, cap)
      | None \<Rightarrow> (case shard_call (so_usage (pe_ops E)) i p of
            (p, Inr cap) \<Rightarrow> (p, cap)
          | (p, Inl _) \<Rightarrow> (p, capacity_default)))"

fun scan_topology :: "'s pool_env \<Rightarrow> nat list \<Rightarrow> 's pool \<Rightarrow> 's pool \<times> topology" where
  "scan_topology E [] p = (p, [])"
| "scan_topology E (i # is) p =
     (let st = effective_status (po_statuses p ! i) (po_slow_flags p ! i);
          (p, cap) = shard_capacity E i p;
          (p, topo) = scan_topology E is p in
      (p, (i, cap, st) # topo))"

definition pool_topology :: "'s pool_env \<Rightarrow> 's pool \<Rightarrow> 's pool \<times> topology" where
  "pool_topology E p =
     (let refresh = (let (p, topo) = scan_topology E [0..<length (po_shards p)] p in
                     (p\<lparr>po_topo := Some (po_clock p, topo)\<rparr>, topo)) in
      case po_topo p of
        Some (since, topo) \<Rightarrow> if po_clock p - since < pc_free_space_cache_ttl (pe_cfg E) then (p, topo) else refresh
      | None \<Rightarrow> refresh)"

definition ranking_for :: "'s pool_env \<Rightarrow> block_key \<Rightarrow> nat \<Rightarrow> 's pool \<Rightarrow> 's pool \<times> shard_id list" where
  "ranking_for E key n p = (let (p, topo) = pool_topology E p in (p, pe_select E key topo n))"

definition replicas_for :: "'s pool_env \<Rightarrow> block_key \<Rightarrow> 's pool \<Rightarrow> 's pool \<times> shard_id list" where
  "replicas_for E key p = ranking_for E key (pc_replicas (pe_cfg E)) p"

definition hedge_threshold :: "'s pool_env \<Rightarrow> 's pool \<Rightarrow> 's pool \<times> nat option" where
  "hedge_threshold E p =
     (let static = pc_speculative_retry_after (pe_cfg E);
          (p, chosen) =
            (if pc_adaptive_hedge (pe_cfg E) then
               let (h, est) = p99_at (po_read_lat p) (po_clock p) in
               (p\<lparr>po_read_lat := h\<rparr>,
                case est of Some d \<Rightarrow> Some (max 10000 (min 2000000 d)) | None \<Rightarrow> static)
             else (p, static)) in
      (p\<lparr>po_metrics := store HedgeThresholdMs (case chosen of Some d \<Rightarrow> d div 1000 | None \<Rightarrow> 0) (po_metrics p)\<rparr>, chosen))"

definition enqueue_heal :: "block_key \<Rightarrow> heal_priority \<Rightarrow> 's pool \<Rightarrow> 's pool" where
  "enqueue_heal key prio p = (let p = tally MrfEnqueued 1 p in p\<lparr>po_mrf := hq_push (po_mrf p) key prio\<rparr>)"

definition mrf_len :: "'s pool \<Rightarrow> nat" where
  "mrf_len p = hq_len (po_mrf p)"

fun flush_shards :: "'s pool_env \<Rightarrow> nat list \<Rightarrow> 's pool \<Rightarrow> ('s pool, unit) op" where
  "flush_shards E [] p = (p, Inr ())"
| "flush_shards E (i # is) p = and_then (shard_call (so_flush (pe_ops E)) i p) (\<lambda>_. flush_shards E is)"

definition flush_all :: "'s pool_env \<Rightarrow> 's pool \<Rightarrow> ('s pool, unit) op" where
  "flush_all E p = flush_shards E [0..<length (po_shards p)] p"

definition pool_shutdown :: "'s pool \<Rightarrow> 's pool" where
  "pool_shutdown p = p\<lparr>po_shutting_down := True\<rparr>"

definition is_shutting_down :: "'s pool \<Rightarrow> bool" where
  "is_shutting_down p = po_shutting_down p"

definition seed_read_latency :: "nat \<Rightarrow> nat \<Rightarrow> 's pool \<Rightarrow> 's pool" where
  "seed_read_latency lat n p = p\<lparr>po_read_lat := ((\<lambda>h. record_at h lat (po_clock p)) ^^ n) (po_read_lat p)\<rparr>"

definition inflight_count :: "'s pool \<Rightarrow> nat" where
  "inflight_count p = om_counters (po_metrics p) InflightPuts + om_counters (po_metrics p) InflightGets"

section \<open>Writing\<close>

subsection \<open>Mirrored bodies\<close>

text \<open>The replies of the legs: how many succeeded, which failed, the last error.\<close>

fun put_legs :: "'s pool_env \<Rightarrow> block_key \<Rightarrow> bytes \<Rightarrow> shard_id list \<Rightarrow> nat \<times> shard_id list \<times> domain_error option \<Rightarrow> 's pool \<Rightarrow>
    's pool \<times> nat \<times> shard_id list \<times> domain_error option" where
  "put_legs E key data [] acc p = (p, acc)"
| "put_legs E key data (sid # order) (ok, failed, last_err) p =
     (case sh_put E sid key data p of
        (p, Inr _) \<Rightarrow> put_legs E key data order (ok + 1, failed, last_err) p
      | (p, Inl e) \<Rightarrow> put_legs E key data order (ok, failed @ [sid], Some e) p)"

text \<open>One failed leg: the next spare that takes the body; the spares are one iterator shared by all failed legs.\<close>

fun place_spare :: "'s pool_env \<Rightarrow> block_key \<Rightarrow> bytes \<Rightarrow> shard_id list \<Rightarrow> domain_error option \<Rightarrow> 's pool \<Rightarrow>
    's pool \<times> bool \<times> shard_id list \<times> domain_error option" where
  "place_spare E key data [] last_err p = (p, False, [], last_err)"
| "place_spare E key data (sp # spares) last_err p =
     (case sh_put E sp key data p of
        (p, Inr _) \<Rightarrow> (tally HandoffWrites 1 p, True, spares, last_err)
      | (p, Inl e) \<Rightarrow> place_spare E key data spares (Some e) p)"

fun handoff :: "'s pool_env \<Rightarrow> block_key \<Rightarrow> bytes \<Rightarrow> nat \<Rightarrow> shard_id list \<Rightarrow> nat \<times> domain_error option \<Rightarrow> 's pool \<Rightarrow>
    's pool \<times> nat \<times> domain_error option" where
  "handoff E key data 0 spares acc p = (p, acc)"
| "handoff E key data (Suc n) spares (ok, last_err) p =
     (case place_spare E key data spares last_err p of
        (p, True, spares, last_err) \<Rightarrow> handoff E key data n spares (ok + 1, last_err) p
      | (p, False, _, last_err) \<Rightarrow> (p, ok, last_err))"

definition quorum_result :: "nat \<Rightarrow> nat \<Rightarrow> nat \<Rightarrow> domain_error option \<Rightarrow> unit domain_result" where
  "quorum_result ok need want last_err =
     (if need \<le> ok then Inr ()
      else Inl (case last_err of Some e \<Rightarrow> e | None \<Rightarrow> QuorumNotReached ok want))"

definition put_mirror :: "'s pool_env \<Rightarrow> block_key \<Rightarrow> bytes \<Rightarrow> 's pool \<Rightarrow> ('s pool, unit) op" where
  "put_mirror E key data p =
     (let want = pc_write_quorum (pe_cfg E); (p, reps) = replicas_for E key p in
      if reps = [] then (p, Inl (QuorumNotReached 0 want))
      else
        let (p, order) = arrivals E reps p;
            (p, ok, failed, last_err) = put_legs E key data order (0, [], None) p;
            (p, ok, last_err) =
              (if failed \<noteq> [] then
                 let (p, rank) = ranking_for E key (length (po_shards p)) p;
                     spares = filter (\<lambda>s. s \<notin> set reps) rank;
                     (p, ok, last_err) = handoff E key data (length failed) spares (ok, last_err) p in
                 (enqueue_heal key Normal p, ok, last_err)
               else (p, ok, last_err)) in
        (p, quorum_result ok (min want (length reps)) want last_err))"

subsection \<open>Erasure-coded bodies\<close>

fun put_pieces :: "'s pool_env \<Rightarrow> block_key \<Rightarrow> shard_id list \<Rightarrow> bytes list \<Rightarrow> u64 \<Rightarrow> nat list \<Rightarrow>
    nat \<times> nat list \<times> domain_error option \<Rightarrow> 's pool \<Rightarrow> 's pool \<times> nat \<times> nat list \<times> domain_error option" where
  "put_pieces E key targets pieces obj [] acc p = (p, acc)"
| "put_pieces E key targets pieces obj (i # order) (ok, failed, last_err) p =
     (case sh_put_meta E (targets ! i) key (pieces ! i) (Some obj) p of
        (p, Inr _) \<Rightarrow> put_pieces E key targets pieces obj order (ok + 1, failed, last_err) p
      | (p, Inl e) \<Rightarrow> put_pieces E key targets pieces obj order (ok, failed @ [i], Some e) p)"

fun place_piece :: "'s pool_env \<Rightarrow> block_key \<Rightarrow> bytes \<Rightarrow> u64 \<Rightarrow> shard_id list \<Rightarrow> nat \<times> domain_error option \<Rightarrow> 's pool \<Rightarrow>
    's pool \<times> shard_id list \<times> nat \<times> domain_error option" where
  "place_piece E key piece obj [] acc p = (p, [], acc)"
| "place_piece E key piece obj (sp # spares) (ok, last_err) p =
     (case sh_put_meta E sp key piece (Some obj) p of
        (p, Inr _) \<Rightarrow> (tally HandoffWrites 1 p, spares, ok + 1, last_err)
      | (p, Inl e) \<Rightarrow> place_piece E key piece obj spares (ok, Some e) p)"

fun handoff_pieces :: "'s pool_env \<Rightarrow> block_key \<Rightarrow> bytes list \<Rightarrow> u64 \<Rightarrow> nat list \<Rightarrow> shard_id list \<Rightarrow> nat \<times> domain_error option \<Rightarrow> 's pool \<Rightarrow>
    's pool \<times> nat \<times> domain_error option" where
  "handoff_pieces E key pieces obj [] spares acc p = (p, acc)"
| "handoff_pieces E key pieces obj (i # failed) spares acc p =
     (let (p, spares, acc) = place_piece E key (pieces ! i) obj spares acc p in
      handoff_pieces E key pieces obj failed spares acc p)"

definition put_ec :: "'s pool_env \<Rightarrow> block_key \<Rightarrow> bytes \<Rightarrow> ec_config \<Rightarrow> 's pool \<Rightarrow> ('s pool, unit) op" where
  "put_ec E key data ec p =
     (let want = ec_write_quorum ec; (p, targets) = ranking_for E key (ec_total ec) p in
      if length targets < want then (p, Inl (QuorumNotReached 0 want))
      else case ec_encode (pe_rs E) data ec of
        Inl e \<Rightarrow> (p, Inl e)
      | Inr pieces \<Rightarrow>
          let obj = word_of_nat (length data);
              (p, order) = arrivals E [0..<length targets] p;
              (p, ok, failed, last_err) = put_pieces E key targets pieces obj order (0, [], None) p;
              (p, ok, last_err) =
                (if failed \<noteq> [] then
                   let (p, rank) = ranking_for E key (length (po_shards p)) p;
                       spares = filter (\<lambda>s. s \<notin> set targets) rank;
                       (p, ok, last_err) = handoff_pieces E key pieces obj failed spares (ok, last_err) p in
                   (enqueue_heal key Normal p, ok, last_err)
                 else (p, ok, last_err)) in
          (tally EcPuts 1 p, quorum_result ok want want last_err))"

definition put_body :: "'s pool_env \<Rightarrow> block_key \<Rightarrow> bytes \<Rightarrow> 's pool \<Rightarrow> ('s pool, unit) op" where
  "put_body E key data p =
     (case pc_ec (pe_cfg E) of
        Some ec \<Rightarrow> if ec_min_size ec \<le> length data then put_ec E key data ec p else put_mirror E key data p
      | None \<Rightarrow> put_mirror E key data p)"

definition put_inner :: "'s pool_env \<Rightarrow> block_key \<Rightarrow> bytes \<Rightarrow> 's pool \<Rightarrow> ('s pool, unit) op" where
  "put_inner E key data p =
     (case pc_outboard (pe_cfg E) of
        Some ob \<Rightarrow>
          if ob_min_size ob \<le> length data \<and> \<not> is_ob_key key then
            (case put_body E key data p of
               (p, Inr u) \<Rightarrow> (fst (put_body E (ob_key key) (make_outboard (pe_abao E) data) p), Inr u)
             | (p, Inl e) \<Rightarrow> (p, Inl e))
          else put_body E key data p
      | None \<Rightarrow> put_body E key data p)"

definition pool_put :: "'s pool_env \<Rightarrow> block_key \<Rightarrow> bytes \<Rightarrow> 's pool \<Rightarrow> ('s pool, unit) op" where
  "pool_put E key data p =
     (if is_shutting_down p then (p, Inl Shutdown)
      else
        let t0 = po_clock p;
            p = tally InflightPuts 1 p;
            (p, r) = put_inner E key data p;
            p = p\<lparr>po_metrics := fetch_sub InflightPuts 1 (po_metrics p)\<rparr>;
            el_us = po_clock p - t0;
            p = tally PutMicros el_us p;
            p = p\<lparr>po_metrics := (po_metrics p)\<lparr>om_put_hist := observe (om_put_hist (po_metrics p)) el_us\<rparr>\<rparr> in
        (case r of Inr _ \<Rightarrow> tally BytesWritten (length data) (tally Puts 1 p) | Inl _ \<Rightarrow> tally PutErrors 1 p, r))"

end
