(* ===== verification/Pool_Read.thy ===== *)
theory Pool_Read
  imports Pool
begin

text \<open>
  The reading half of \<open>Pool\<close> (\<open>ozd-app/src/pool.rs\<close>): hedged reads of mirrored bodies, gathering of
  erasure-coded pieces, and \<open>stat\<close>, \<open>has\<close>, \<open>delete\<close>, \<open>list\<close>. A shard index outside the targets
  is met by the scans that follow them.
\<close>

section \<open>Mirrored bodies\<close>

text \<open>\<open>handle\<close>: absence on one leg is not an error to report.\<close>

fun note_error :: "domain_error \<Rightarrow> domain_error \<Rightarrow> domain_error" where
  "note_error last_err NotFound = last_err"
| "note_error last_err e = e"

fun get_legs :: "'s pool_env \<Rightarrow> block_key \<Rightarrow> shard_id list \<Rightarrow> domain_error \<Rightarrow> 's pool \<Rightarrow> ('s pool, bytes) op" where
  "get_legs E key [] last_err p = (p, Inl last_err)"
| "get_legs E key (sid # reps) last_err p =
     (case sh_get E sid key p of
        (p, Inr v) \<Rightarrow> (p, Inr v)
      | (p, Inl e) \<Rightarrow> get_legs E key reps (note_error last_err e) p)"

text \<open>Every shard not yet asked, in index order; their errors are dropped.\<close>

fun get_any :: "'s pool_env \<Rightarrow> block_key \<Rightarrow> nat list \<Rightarrow> domain_error \<Rightarrow> 's pool \<Rightarrow> ('s pool, bytes) op" where
  "get_any E key [] last_err p = (p, Inl last_err)"
| "get_any E key (i # is) last_err p =
     (case sh_get E i key p of
        (p, Inr v) \<Rightarrow> (p, Inr v)
      | (p, Inl _) \<Rightarrow> get_any E key is last_err p)"

definition others :: "'s pool \<Rightarrow> shard_id list \<Rightarrow> nat list" where
  "others p reps = filter (\<lambda>i. i \<notin> set reps) [0..<length (po_shards p)]"

text \<open>
  Both legs of a hedged read run; the first successful reply in order of arrival is the answer, and the other leg
  finishes on its own.
\<close>

fun pick_reply :: "(bytes domain_result) list \<Rightarrow> domain_error \<Rightarrow> domain_error + bytes" where
  "pick_reply [] last_err = Inl last_err"
| "pick_reply (Inr v # rs) last_err = Inr v"
| "pick_reply (Inl e # rs) last_err = pick_reply rs (note_error last_err e)"

definition hedged_read ::
  "'s pool_env \<Rightarrow> block_key \<Rightarrow> shard_id list \<Rightarrow> nat \<Rightarrow> 's pool \<Rightarrow> 's pool \<times> nat \<times> (domain_error + bytes)" where
  "hedged_read E key reps hedge p =
     (let late = hedge < pe_latency E (po_tick p);
          (p, r0) = sh_get E (reps ! 0) key p in
      if \<not> late then (p, 1, pick_reply [r0] NotFound)
      else
        let p = tally HedgedReads 1 p;
            (p, r1) = sh_get E (reps ! 1) key p;
            (p, order) = arrivals E [0, 1] p in
        (p, 2, pick_reply (map (\<lambda>j. if j = 0 then r0 else r1) order) NotFound))"

definition get_mirror :: "'s pool_env \<Rightarrow> block_key \<Rightarrow> 's pool \<Rightarrow> ('s pool, bytes) op" where
  "get_mirror E key p =
     (let (p, reps) = replicas_for E key p;
          (p, hedge) = hedge_threshold E p;
          (p, tried, first) =
            (case hedge of
               Some h \<Rightarrow> if 2 \<le> length reps then hedged_read E key reps h p else (p, 0, Inl NotFound)
             | None \<Rightarrow> (p, 0, Inl NotFound)) in
      case first of
        Inr v \<Rightarrow> (p, Inr v)
      | Inl last_err \<Rightarrow>
          (case get_legs E key (drop tried reps) last_err p of
             (p, Inr v) \<Rightarrow> (p, Inr v)
           | (p, Inl last_err) \<Rightarrow> get_any E key (others p reps) last_err p))"

section \<open>Erasure-coded bodies\<close>

definition fill_slot :: "nat \<Rightarrow> bytes \<Rightarrow> bytes option list \<Rightarrow> bytes option list" where
  "fill_slot idx b slots = (if idx < length slots \<and> slots ! idx = None then slots[idx := Some b] else slots)"

definition piece_idx :: "piece_header \<Rightarrow> nat" where
  "piece_idx h = unat (ph_idx h)"

text \<open>Pieces read from shards in a given order fill the slots their headers name.\<close>

fun read_pieces :: "'s pool_env \<Rightarrow> block_key \<Rightarrow> shard_id list \<Rightarrow> bytes option list \<Rightarrow> 's pool \<Rightarrow> 's pool \<times> bytes option list" where
  "read_pieces E key [] slots p = (p, slots)"
| "read_pieces E key (sid # sids) slots p =
     (case sh_get E sid key p of
        (p, Inr b) \<Rightarrow> (case parse_piece_header b of
            Some h \<Rightarrow> read_pieces E key sids (fill_slot (piece_idx h) b slots) p
          | None \<Rightarrow> read_pieces E key sids slots p)
      | (p, Inl _) \<Rightarrow> read_pieces E key sids slots p)"

definition read_ranks :: "'s pool_env \<Rightarrow> block_key \<Rightarrow> shard_id list \<Rightarrow> nat list \<Rightarrow> bytes option list \<Rightarrow> 's pool \<Rightarrow>
    's pool \<times> bytes option list" where
  "read_ranks E key targets ranks slots p =
     (let (p, order) = arrivals E (filter (\<lambda>r. r < length targets) ranks) p in
      read_pieces E key (map (\<lambda>r. targets ! r) order) slots p)"

definition gather_ec :: "'s pool_env \<Rightarrow> block_key \<Rightarrow> shard_id list \<Rightarrow> nat \<Rightarrow> bytes \<Rightarrow> piece_header \<Rightarrow> 's pool \<Rightarrow> ('s pool, bytes) op" where
  "gather_ec E key targets probe_rank first h p =
     (let k = unat (ph_k h); m = unat (ph_m h);
          slots = (replicate (k + m) None)[piece_idx h := Some first];
          want = filter (\<lambda>r. r \<noteq> probe_rank \<and> slots ! r = None) [0..<k];
          (p, slots) = read_ranks E key targets want slots p in
      if list_all (\<lambda>s. s \<noteq> None) (take k slots) then (p, ec_decode (pe_rs E) slots k m)
      else
        let want = filter (\<lambda>r. r \<noteq> probe_rank \<and> slots ! r = None) [k..<k + m];
            (p, slots) = read_ranks E key targets want slots p;
            (p, slots) =
              (if present slots < k then read_pieces E key (others p targets) slots p else (p, slots)) in
        (tally EcReconstructs 1 p, ec_decode (pe_rs E) slots k m))"

text \<open>Outside the targets: a mirrored body is returned at once, pieces are collected.\<close>

fun scan_strays :: "'s pool_env \<Rightarrow> block_key \<Rightarrow> nat list \<Rightarrow> bytes option list \<Rightarrow> piece_header option \<Rightarrow> 's pool \<Rightarrow>
    's pool \<times> (bytes + bytes option list \<times> piece_header option)" where
  "scan_strays E key [] slots hdr p = (p, Inr (slots, hdr))"
| "scan_strays E key (i # is) slots hdr p =
     (case sh_get E i key p of
        (p, Inl _) \<Rightarrow> scan_strays E key is slots hdr p
      | (p, Inr body) \<Rightarrow> (case parse_piece_header body of
            None \<Rightarrow> (p, Inl body)
          | Some h \<Rightarrow>
              let t = unat (ph_k h + ph_m h);
                  slots = (if length slots \<noteq> t then replicate t None else slots) in
              scan_strays E key is (fill_slot (piece_idx h) body slots) (Some h) p))"

fun probe_targets :: "'s pool_env \<Rightarrow> block_key \<Rightarrow> shard_id list \<Rightarrow> nat \<Rightarrow> shard_id list \<Rightarrow> domain_error \<Rightarrow> 's pool \<Rightarrow>
    's pool \<times> (domain_error + domain_error + bytes)" where
  "probe_targets E key targets rank [] last_err p = (p, Inl last_err)"
| "probe_targets E key targets rank (sid # sids) last_err p =
     (case sh_get E sid key p of
        (p, Inr body) \<Rightarrow> (case parse_piece_header body of
            None \<Rightarrow> (p, Inr (Inr body))
          | Some h \<Rightarrow> (case gather_ec E key targets rank body h p of (p, r) \<Rightarrow> (p, Inr r)))
      | (p, Inl e) \<Rightarrow> probe_targets E key targets (rank + 1) sids (note_error last_err e) p)"

definition get_ec_aware :: "'s pool_env \<Rightarrow> block_key \<Rightarrow> ec_config \<Rightarrow> 's pool \<Rightarrow> ('s pool, bytes) op" where
  "get_ec_aware E key ec p =
     (let (p, targets) = ranking_for E key (max (ec_total ec) (pc_replicas (pe_cfg E))) p in
      case probe_targets E key targets 0 targets NotFound p of
        (p, Inr r) \<Rightarrow> (p, r)
      | (p, Inl last_err) \<Rightarrow> (case scan_strays E key (others p targets) [] None p of
            (p, Inl body) \<Rightarrow> (p, Inr body)
          | (p, Inr (slots, Some h)) \<Rightarrow>
              if unat (ph_k h) \<le> present slots
              then (tally EcReconstructs 1 p, ec_decode (pe_rs E) slots (unat (ph_k h)) (unat (ph_m h)))
              else (p, Inl last_err)
          | (p, Inr (_, None)) \<Rightarrow> (p, Inl last_err)))"

definition get_inner :: "'s pool_env \<Rightarrow> block_key \<Rightarrow> 's pool \<Rightarrow> ('s pool, bytes) op" where
  "get_inner E key p = (case pc_ec (pe_cfg E) of Some ec \<Rightarrow> get_ec_aware E key ec p | None \<Rightarrow> get_mirror E key p)"

definition pool_get :: "'s pool_env \<Rightarrow> block_key \<Rightarrow> 's pool \<Rightarrow> ('s pool, bytes) op" where
  "pool_get E key p =
     (let t0 = po_clock p;
          p = tally InflightGets 1 p;
          (p, r) = get_inner E key p;
          p = p\<lparr>po_metrics := fetch_sub InflightGets 1 (po_metrics p)\<rparr>;
          el_us = po_clock p - t0;
          p = tally GetMicros el_us p;
          p = p\<lparr>po_metrics := (po_metrics p)\<lparr>om_get_hist := observe (om_get_hist (po_metrics p)) el_us\<rparr>\<rparr> in
      (case r of
         Inr _ \<Rightarrow> tally Gets 1 (p\<lparr>po_read_lat := record_at (po_read_lat p) el_us (po_clock p)\<rparr>)
       | Inl NotFound \<Rightarrow> tally GetNotFound 1 p
       | Inl _ \<Rightarrow> tally GetErrors 1 p, r))"

section \<open>Metadata operations\<close>

fun first_stat :: "'s pool_env \<Rightarrow> block_key \<Rightarrow> nat list \<Rightarrow> 's pool \<Rightarrow> ('s pool, nat) op" where
  "first_stat E key [] p = (p, Inl NotFound)"
| "first_stat E key (i # is) p =
     (case sh_stat E i key p of (p, Inr sz) \<Rightarrow> (p, Inr sz) | (p, Inl _) \<Rightarrow> first_stat E key is p)"

fun first_stat_obj :: "'s pool_env \<Rightarrow> block_key \<Rightarrow> nat list \<Rightarrow> 's pool \<Rightarrow> ('s pool, nat) op" where
  "first_stat_obj E key [] p = (p, Inl NotFound)"
| "first_stat_obj E key (i # is) p =
     (case sh_stat_obj E i key p of
        (p, Inr (sz, obj)) \<Rightarrow> (p, Inr (case obj of Some n \<Rightarrow> unat n | None \<Rightarrow> sz))
      | (p, Inl _) \<Rightarrow> first_stat_obj E key is p)"

definition pool_stat :: "'s pool_env \<Rightarrow> block_key \<Rightarrow> 's pool \<Rightarrow> ('s pool, nat) op" where
  "pool_stat E key p =
     (if pc_ec (pe_cfg E) \<noteq> None then
        let (p, targets) = ranking_for E key (length (po_shards p)) p in first_stat_obj E key targets p
      else
        let (p, reps) = replicas_for E key p in
        (case first_stat E key reps p of
           (p, Inr sz) \<Rightarrow> (p, Inr sz)
         | (p, Inl _) \<Rightarrow> first_stat E key (others p reps) p))"

fun first_has :: "'s pool_env \<Rightarrow> block_key \<Rightarrow> nat list \<Rightarrow> 's pool \<Rightarrow> ('s pool, bool) op" where
  "first_has E key [] p = (p, Inr False)"
| "first_has E key (i # is) p =
     and_then (sh_has E i key p) (\<lambda>b p. if b then (p, Inr True) else first_has E key is p)"

definition pool_has :: "'s pool_env \<Rightarrow> block_key \<Rightarrow> 's pool \<Rightarrow> ('s pool, bool) op" where
  "pool_has E key p =
     (let (p, reps) = replicas_for E key p in
      and_then (first_has E key reps p) (\<lambda>b p. if b then (p, Inr True) else first_has E key (others p reps) p))"

fun delete_everywhere :: "'s pool_env \<Rightarrow> block_key \<Rightarrow> nat list \<Rightarrow> 's pool \<Rightarrow> 's pool" where
  "delete_everywhere E key [] p = p"
| "delete_everywhere E key (i # is) p = delete_everywhere E key is (fst (sh_delete E i key p))"

definition pool_delete :: "'s pool_env \<Rightarrow> block_key \<Rightarrow> 's pool \<Rightarrow> ('s pool, unit) op" where
  "pool_delete E key p =
     (let all_shards = [0..<length (po_shards p)]; p = delete_everywhere E key all_shards p in
      (if pc_outboard (pe_cfg E) \<noteq> None \<and> \<not> is_ob_key key then delete_everywhere E (ob_key key) all_shards p else p, Inr ()))"

text \<open>\<open>BTreeMap::entry(k).or_insert(sz)\<close> on a sorted association list.\<close>

fun or_insert :: "block_key \<Rightarrow> nat \<Rightarrow> (block_key \<times> nat) list \<Rightarrow> (block_key \<times> nat) list" where
  "or_insert k sz [] = [(k, sz)]"
| "or_insert k sz ((k', sz') # rows) =
     (if k < k' then (k, sz) # (k', sz') # rows
      else if k = k' then (k', sz') # rows
      else (k', sz') # or_insert k sz rows)"

fun list_shards :: "'s pool_env \<Rightarrow> bytes \<Rightarrow> block_key option \<Rightarrow> nat \<Rightarrow> nat list \<Rightarrow> (block_key \<times> nat) list \<Rightarrow> 's pool \<Rightarrow>
    ('s pool, (block_key \<times> nat) list) op" where
  "list_shards E pre after limit [] merged p = (p, Inr merged)"
| "list_shards E pre after limit (i # is) merged p =
     and_then (shard_call (\<lambda>s. so_list (pe_ops E) s pre after limit) i p)
       (\<lambda>rows. list_shards E pre after limit is (fold (\<lambda>(k, sz). or_insert k sz) rows merged))"

definition pool_list :: "'s pool_env \<Rightarrow> bytes \<Rightarrow> block_key option \<Rightarrow> nat \<Rightarrow> 's pool \<Rightarrow> ('s pool, (block_key \<times> nat) list) op" where
  "pool_list E pre after limit p =
     and_then (list_shards E pre after limit [0..<length (po_shards p)] [] p) (\<lambda>merged p. (p, Inr (take limit merged)))"

end
