(* ===== verification/Pool_Laws.thy ===== *)
theory Pool_Laws
  imports Pool_Read
begin

text \<open>
  What the pool relies on, as a locale over \<open>shard_port\<close>: a policy that returns distinct shards of the topology, replies
  that arrive in some order, each once. The lemmas give the effect of every call of the pool on the abstract maps of the
  shards: \<open>views V p ! i\<close> is the map of shard \<open>i\<close>.
\<close>

section \<open>Views, invariant, frame\<close>

definition views :: "('s \<Rightarrow> block_key \<rightharpoonup> bytes) \<Rightarrow> 's pool \<Rightarrow> (block_key \<rightharpoonup> bytes) list" where
  "views V p = map V (po_shards p)"

definition topo_ok :: "nat \<Rightarrow> topology \<Rightarrow> bool" where
  "topo_ok n topo \<longleftrightarrow> map fst topo = [0..<n]"

definition pool_ok :: "(nat \<Rightarrow> 's \<Rightarrow> bool) \<Rightarrow> nat \<Rightarrow> 's pool \<Rightarrow> bool" where
  "pool_ok ok n p \<longleftrightarrow> (\<forall>i < length (po_shards p). ok n (po_shards p ! i)) \<and>
     (\<forall>since topo. po_topo p = Some (since, topo) \<longrightarrow> topo_ok (length (po_shards p)) topo)"

text \<open>What no call to a shard changes: the number of shards, the repair queue, the shutdown flag, and fault-freeness.\<close>

definition frame :: "('s \<Rightarrow> bool) \<Rightarrow> 's pool \<Rightarrow> 's pool \<Rightarrow> bool" where
  "frame fine p p' \<longleftrightarrow> length (po_shards p') = length (po_shards p) \<and> po_mrf p' = po_mrf p \<and>
     po_shutting_down p' = po_shutting_down p \<and>
     (\<forall>i < length (po_shards p). fine (po_shards p ! i) \<longrightarrow> fine (po_shards p' ! i))"

text \<open>\<open>pool_step ok V fine m W p p'\<close>: from \<open>p\<close> to \<open>p'\<close> with at most \<open>m\<close> writes per shard, the shards' maps become \<open>W\<close>.\<close>

definition pool_step ::
  "(nat \<Rightarrow> 's \<Rightarrow> bool) \<Rightarrow> ('s \<Rightarrow> block_key \<rightharpoonup> bytes) \<Rightarrow> ('s \<Rightarrow> bool) \<Rightarrow> nat \<Rightarrow> (block_key \<rightharpoonup> bytes) list \<Rightarrow> 's pool \<Rightarrow> 's pool \<Rightarrow> bool" where
  "pool_step ok V fine m W p p' \<longleftrightarrow> (\<forall>n. pool_ok ok (m + n) p \<longrightarrow> pool_ok ok n p') \<and> views V p' = W \<and> frame fine p p'"

lemma length_views [simp]: "length (views V p) = length (po_shards p)"
  by (simp add: views_def)

lemma nth_views: "i < length (po_shards p) \<Longrightarrow> views V p ! i = V (po_shards p ! i)"
  by (simp add: views_def)

lemma frame_refl [simp]: "frame fine p p"
  by (simp add: frame_def)

lemma frame_trans: "frame fine p q \<Longrightarrow> frame fine q r \<Longrightarrow> frame fine p r"
  by (simp add: frame_def)

lemma frame_length: "frame fine p q \<Longrightarrow> length (po_shards q) = length (po_shards p)"
  by (simp add: frame_def)

lemma pool_step_trans:
  assumes "pool_step ok V fine m W p q" and "pool_step ok V fine n W' q r"
  shows "pool_step ok V fine (m + n) W' p r"
  using assms unfolding pool_step_def by (metis (no_types, lifting) add.assoc frame_trans)

lemma pool_step_frame: "pool_step ok V fine m W p q \<Longrightarrow> frame fine p q"
  by (simp add: pool_step_def)

lemma pool_step_views: "pool_step ok V fine m W p q \<Longrightarrow> views V q = W"
  by (simp add: pool_step_def)

lemma pool_step_ok: "pool_step ok V fine m W p q \<Longrightarrow> pool_ok ok (m + n) p \<Longrightarrow> pool_ok ok n q"
  by (simp add: pool_step_def)

lemma pool_step_ok0: "pool_step ok V fine 0 W p q \<Longrightarrow> pool_ok ok n p \<Longrightarrow> pool_ok ok n q"
  using pool_step_ok [where m = 0] by fastforce

definition fits :: "block_key \<Rightarrow> bytes \<Rightarrow> bool" where
  "fits k b \<longleftrightarrow> length k < 2 ^ 16 \<and> length b < 2 ^ 32"

text \<open>A change of the pool outside its shards and topology.\<close>

lemma pool_step_meta:
  assumes "po_shards q = po_shards p" and "po_topo q = po_topo p" and "po_mrf q = po_mrf p" and "po_shutting_down q = po_shutting_down p"
  shows "pool_step ok V fine 0 (views V p) p q"
  using assms by (simp add: pool_step_def pool_ok_def views_def frame_def)

lemma pool_step_refl: "pool_step ok V fine 0 (views V p) p p"
  by (rule pool_step_meta) simp_all

lemma pool_step_after:
  assumes "pool_step ok V fine m W p q" and "po_shards r = po_shards q" and "po_topo r = po_topo q" and "po_mrf r = po_mrf q"
    and "po_shutting_down r = po_shutting_down q"
  shows "pool_step ok V fine m W p r"
proof -
  have "pool_step ok V fine 0 (views V q) q r" using assms(2-5) by (rule pool_step_meta)
  from pool_step_trans [OF assms(1) this] show ?thesis using assms(1) by (simp add: pool_step_def)
qed

lemma tally_fields [simp]:
  "po_shards (tally c n p) = po_shards p" "po_topo (tally c n p) = po_topo p" "po_mrf (tally c n p) = po_mrf p"
  "po_shutting_down (tally c n p) = po_shutting_down p"
  by (simp_all add: tally_def)

section \<open>The locale\<close>

locale pool_laws = shard_port Op ok V fine
  for Op :: "'s shard_ops" and ok :: "nat \<Rightarrow> 's \<Rightarrow> bool" and V :: "'s \<Rightarrow> block_key \<rightharpoonup> bytes" and fine :: "'s \<Rightarrow> bool" +
  fixes E :: "'s pool_env"
  assumes port_ops: "pe_ops E = Op"
    and select_range: "distinct (map fst topo) \<Longrightarrow> set (pe_select E k topo n) \<subseteq> set (map fst topo)"
    and select_distinct: "distinct (map fst topo) \<Longrightarrow> distinct (pe_select E k topo n)"
    and select_length: "length (pe_select E k topo n) \<le> n"
    and arrival_once: "mset (pe_arrival E t legs) = mset legs"
begin

abbreviation "step \<equiv> pool_step ok V fine"

lemma shard_call_step:
  assumes "pool_ok ok m p" and "i < length (po_shards p)"
    and "ok m (po_shards p ! i) \<Longrightarrow> post (f (po_shards p ! i)) (\<lambda>s' a. shard_step ok V fine m (W (po_shards p ! i) a) (po_shards p ! i) s' \<and> Q a)
      (\<lambda>s' er. shard_step ok V fine m (V (po_shards p ! i)) (po_shards p ! i) s' \<and> R er)"
  shows "post (shard_call f i p) (\<lambda>p' a. step m ((views V p)[i := W (po_shards p ! i) a]) p p' \<and> Q a)
      (\<lambda>p' er. step m (views V p) p p' \<and> R er)"
proof -
  let ?s = "po_shards p ! i"
  obtain s' r where f: "f ?s = (s', r)" by fastforce
  have call: "shard_call f i p = (p\<lparr>po_shards := (po_shards p)[i := s']\<rparr>, r)" by (simp add: shard_call_def f)
  have lift: "step m ((views V p)[i := W']) p (p\<lparr>po_shards := (po_shards p)[i := s']\<rparr>)" if "shard_step ok V fine m W' ?s s'" for W'
    using that assms(2) by (auto simp: pool_step_def shard_step_def pool_ok_def views_def frame_def map_update nth_list_update intro: port_mono)
  have "ok m ?s" using assms(1,2) by (simp add: pool_ok_def)
  from assms(3) [OF this] show ?thesis
    using lift lift [of "V ?s"] assms(2)
    by (cases r) (simp_all add: f call views_def list_update_same_conv [THEN iffD2] map_update [symmetric])
qed

lemma metered_step:
  assumes "post (shard_call f i p) (\<lambda>p' a. step m (W a) p p' \<and> Q a) (\<lambda>p' er. step m (views V p) p p' \<and> R er)"
  shows "post (metered E f i p) (\<lambda>p' a. step m (W a) p p' \<and> Q a) (\<lambda>p' er. step m (views V p) p p' \<and> R er)"
proof -
  obtain q r where c: "shard_call f i p = (q, r)" by fastforce
  have lift: "step m W' p (q\<lparr>po_tick := t, po_clock := cl, po_slow_mon := mon\<rparr>)" if "step m W' p q" for W' t cl mon
    using that by (rule pool_step_after) simp_all
  show ?thesis using assms by (cases r) (simp_all add: metered_def c Let_def lift)
qed

lemma ok_weaken: "pool_ok ok n p \<Longrightarrow> m \<le> n \<Longrightarrow> pool_ok ok m p"
  by (auto simp: pool_ok_def intro: port_mono)

section \<open>The calls\<close>

lemma sh_put_step:
  assumes "pool_ok ok 1 p" and "i < length (po_shards p)" and "fits k b"
  shows "post (sh_put E i k b p) (\<lambda>p' u. step 1 ((views V p)[i := (views V p ! i)(k \<mapsto> b)]) p p')
    (\<lambda>p' er. step 1 (views V p) p p' \<and> \<not> fine (po_shards p ! i))"
  unfolding sh_put_def
  by (rule post_mono [OF metered_step [OF shard_call_step [OF assms(1,2), where W = "\<lambda>s u. (V s)(k \<mapsto> b)" and Q = "\<lambda>_. True"
      and R = "\<lambda>_. \<not> fine (po_shards p ! i)"]]])
    (use port_put [of "po_shards p ! i" k b] assms in \<open>auto simp: port_ops fits_def nth_views\<close>)

lemma sh_put_meta_step:
  assumes "pool_ok ok 1 p" and "i < length (po_shards p)" and "fits k b"
  shows "post (sh_put_meta E i k b obj p) (\<lambda>p' u. step 1 ((views V p)[i := (views V p ! i)(k \<mapsto> b)]) p p')
    (\<lambda>p' er. step 1 (views V p) p p' \<and> \<not> fine (po_shards p ! i))"
  unfolding sh_put_meta_def
  by (rule post_mono [OF metered_step [OF shard_call_step [OF assms(1,2), where W = "\<lambda>s u. (V s)(k \<mapsto> b)" and Q = "\<lambda>_. True"
      and R = "\<lambda>_. \<not> fine (po_shards p ! i)"]]])
    (use port_put_meta [of "po_shards p ! i" k b] assms in \<open>auto simp: port_ops fits_def nth_views\<close>)

lemma views_same: "i < length (po_shards p) \<Longrightarrow> (views V p)[i := V (po_shards p ! i)] = views V p"
  by (simp add: views_def list_update_same_conv)

text \<open>A call that reads: the law of the port for it, with what it says of the result.\<close>

lemma shard_read_step:
  assumes "pool_ok ok 0 p" and "i < length (po_shards p)"
    and "ok 0 (po_shards p ! i) \<Longrightarrow> post (f (po_shards p ! i)) (\<lambda>s' a. shard_step ok V fine 0 (V (po_shards p ! i)) (po_shards p ! i) s' \<and> Q a)
      (\<lambda>s' er. shard_step ok V fine 0 (V (po_shards p ! i)) (po_shards p ! i) s' \<and> R er)"
  shows "post (shard_call f i p) (\<lambda>p' a. step 0 (views V p) p p' \<and> Q a) (\<lambda>p' er. step 0 (views V p) p p' \<and> R er)"
  using shard_call_step [OF assms(1,2), where W = "\<lambda>s a. V s" and Q = Q and R = R and f = f] assms(3) views_same [OF assms(2)] by simp

lemma sh_get_step:
  assumes "pool_ok ok 0 p" and "i < length (po_shards p)"
  shows "post (sh_get E i k p) (\<lambda>p' b. step 0 (views V p) p p' \<and> (views V p ! i) k = Some b)
    (\<lambda>p' er. step 0 (views V p) p p' \<and> (if er = NotFound then (views V p ! i) k = None else \<not> fine (po_shards p ! i)))"
  unfolding sh_get_def
  by (rule metered_step, rule shard_read_step [OF assms]) (unfold port_ops nth_views [OF assms(2)], rule port_get)

lemma sh_has_step:
  assumes "pool_ok ok 0 p" and "i < length (po_shards p)"
  shows "post (sh_has E i k p) (\<lambda>p' b. step 0 (views V p) p p' \<and> b = ((views V p ! i) k \<noteq> None))
    (\<lambda>p' er. step 0 (views V p) p p' \<and> \<not> fine (po_shards p ! i))"
  unfolding sh_has_def
  by (rule shard_read_step [OF assms]) (use port_has [of "po_shards p ! i" k] assms(2) in \<open>simp add: port_ops nth_views\<close>)

lemma sh_delete_step:
  assumes "pool_ok ok 0 p" and "i < length (po_shards p)"
  shows "post (sh_delete E i k p) (\<lambda>p' u. step 0 ((views V p)[i := (views V p ! i)(k := None)]) p p')
    (\<lambda>p' er. step 0 (views V p) p p' \<and> \<not> fine (po_shards p ! i))"
  unfolding sh_delete_def
  by (rule post_mono [OF shard_call_step [OF assms, where W = "\<lambda>s u. (V s)(k := None)" and Q = "\<lambda>_. True"
      and R = "\<lambda>_. \<not> fine (po_shards p ! i)"]])
    (use port_delete [of "po_shards p ! i" k] assms in \<open>auto simp: port_ops nth_views\<close>)

lemma sh_stat_step:
  assumes "pool_ok ok 0 p" and "i < length (po_shards p)"
  shows "post (sh_stat E i k p) (\<lambda>p' m. step 0 (views V p) p p' \<and> (\<exists>b. (views V p ! i) k = Some b \<and> m = length b))
    (\<lambda>p' er. step 0 (views V p) p p' \<and> (if er = NotFound then (views V p ! i) k = None else \<not> fine (po_shards p ! i)))"
  unfolding sh_stat_def
  by (rule shard_read_step [OF assms]) (unfold port_ops nth_views [OF assms(2)], rule port_stat)

lemma usage_step:
  assumes "pool_ok ok 0 p" and "i < length (po_shards p)"
  shows "post (shard_call (so_usage (pe_ops E)) i p) (\<lambda>p' c. step 0 (views V p) p p') (\<lambda>p' er. step 0 (views V p) p p')"
  by (rule post_mono [OF shard_read_step [OF assms, where Q = "\<lambda>_. True" and R = "\<lambda>_. True"]])
    (use port_usage [of "po_shards p ! i"] in \<open>auto simp: port_ops elim!: post_mono\<close>)

lemma holds_key_step:
  assumes "pool_ok ok 0 p" and "i < length (po_shards p)" and "holds_key E i k p = (p', b)"
  shows "step 0 (views V p) p p'" "b \<Longrightarrow> (views V p ! i) k \<noteq> None" "\<not> b \<Longrightarrow> (views V p ! i) k \<noteq> None \<Longrightarrow> \<not> fine (po_shards p ! i)"
  using sh_has_step [OF assms(1,2), of k] assms(3)
  by (auto simp: holds_key_def split: prod.splits sum.splits)

section \<open>Topology\<close>

lemma shard_capacity_step:
  assumes "pool_ok ok 0 p" and "i < length (po_shards p)"
  shows "step 0 (views V p) p (fst (shard_capacity E i p))"
  using usage_step [OF assms] pool_step_refl
  by (auto simp: shard_capacity_def split: option.split prod.splits sum.split)

lemma scan_topology_step:
  assumes "pool_ok ok 0 p" and "\<forall>i \<in> set is. i < length (po_shards p)"
  shows "step 0 (views V p) p (fst (scan_topology E is p)) \<and> map fst (snd (scan_topology E is p)) = is"
  using assms
proof (induction "is" arbitrary: p)
  case (Cons i "is")
  obtain q cap where c: "shard_capacity E i p = (q, cap)" by fastforce
  have s: "step 0 (views V p) p q" using shard_capacity_step [OF Cons.prems(1), of i] Cons.prems(2) by (simp add: c)
  have "pool_ok ok 0 q" using pool_step_ok0 [OF s Cons.prems(1)] .
  from Cons.IH [OF this] Cons.prems(2) frame_length [OF pool_step_frame [OF s]]
  have "step 0 (views V q) q (fst (scan_topology E is q)) \<and> map fst (snd (scan_topology E is q)) = is" by simp
  with pool_step_trans [OF s, of 0 "views V q"] pool_step_views [OF s] show ?case by (simp add: c Let_def split_beta)
qed (simp add: pool_step_refl)

lemma topology_step:
  assumes "pool_ok ok 0 p"
  shows "step 0 (views V p) p (fst (pool_topology E p)) \<and> topo_ok (length (po_shards p)) (snd (pool_topology E p))"
proof -
  obtain q topo where s: "scan_topology E [0..<length (po_shards p)] p = (q, topo)" by fastforce
  have st: "step 0 (views V p) p q" "topo_ok (length (po_shards p)) topo"
    using scan_topology_step [OF assms, of "[0..<length (po_shards p)]"] by (simp_all add: s topo_ok_def)
  have "step 0 (views V p) p (q\<lparr>po_topo := Some (po_clock q, topo)\<rparr>)"
    using st by (simp add: pool_step_def pool_ok_def views_def frame_def)
  moreover have "topo_ok (length (po_shards p)) topo'" if "po_topo p = Some (t, topo')" for t topo'
    using assms that by (simp add: pool_ok_def)
  ultimately show ?thesis using st(2) pool_step_refl by (auto simp: pool_topology_def s Let_def split: option.split)
qed

lemma ranking_step:
  assumes "pool_ok ok 0 p" and "ranking_for E k n p = (q, rank)"
  shows "step 0 (views V p) p q" "distinct rank" "set rank \<subseteq> {0..<length (po_shards p)}" "length rank \<le> n"
proof -
  obtain topo where t: "pool_topology E p = (q, topo)" "rank = pe_select E k topo n"
    using assms(2) by (auto simp: ranking_for_def split: prod.splits)
  have "step 0 (views V p) p q \<and> topo_ok (length (po_shards p)) topo" using topology_step [OF assms(1)] by (simp add: t)
  then show "step 0 (views V p) p q" "distinct rank" "set rank \<subseteq> {0..<length (po_shards p)}" "length rank \<le> n"
    using select_distinct [of topo k n] select_range [of topo k n] select_length [of k topo n] by (auto simp: topo_ok_def t(2))
qed

lemma arrivals_step:
  assumes "arrivals E legs p = (q, order)"
  shows "step 0 (views V p) p q" "mset order = mset legs"
  using assms arrival_once by (auto simp: arrivals_def intro!: pool_step_meta)

end

end
