(* ===== verification/Pool_Put_Laws.thy ===== *)
theory Pool_Put_Laws
  imports Pool_Laws
begin

text \<open>
  What a write does to the shards: the body lands on a set of shards, as many as the count that the quorum is
  compared with, and no other key and no other shard changes.
\<close>

section \<open>Writing one body to a set of shards\<close>

definition write_at :: "nat set \<Rightarrow> block_key \<Rightarrow> bytes \<Rightarrow> (block_key \<rightharpoonup> bytes) list \<Rightarrow> (block_key \<rightharpoonup> bytes) list" where
  "write_at S k b vs = map (\<lambda>i. if i \<in> S then (vs ! i)(k \<mapsto> b) else vs ! i) [0..<length vs]"

lemma length_write_at [simp]: "length (write_at S k b vs) = length vs"
  by (simp add: write_at_def)

lemma nth_write_at [simp]: "i < length vs \<Longrightarrow> write_at S k b vs ! i = (if i \<in> S then (vs ! i)(k \<mapsto> b) else vs ! i)"
  by (simp add: write_at_def)

lemma write_at_empty [simp]: "write_at {} k b vs = vs"
  by (rule nth_equalityI) simp_all

lemma write_at_single: "i < length vs \<Longrightarrow> vs[i := (vs ! i)(k \<mapsto> b)] = write_at {i} k b vs"
  by (rule nth_equalityI) (auto simp: nth_list_update)

lemma write_at_Un [simp]: "write_at S k b (write_at T k b vs) = write_at (S \<union> T) k b vs"
  by (rule nth_equalityI) auto

section \<open>Steps that may also queue a repair\<close>

definition pool_stepq ::
  "(nat \<Rightarrow> 's \<Rightarrow> bool) \<Rightarrow> ('s \<Rightarrow> block_key \<rightharpoonup> bytes) \<Rightarrow> ('s \<Rightarrow> bool) \<Rightarrow> nat \<Rightarrow> (block_key \<rightharpoonup> bytes) list \<Rightarrow> 's pool \<Rightarrow> 's pool \<Rightarrow> bool" where
  "pool_stepq ok V fine m W p p' \<longleftrightarrow> pool_step ok V fine m W p (p'\<lparr>po_mrf := po_mrf p\<rparr>)"

lemma mrf_irrelevant [simp]:
  "pool_ok ok n (p\<lparr>po_mrf := q\<rparr>) = pool_ok ok n p" "views V (p\<lparr>po_mrf := q\<rparr>) = views V p"
  by (simp_all add: pool_ok_def views_def)

lemma pool_stepqD:
  assumes "pool_stepq ok V fine m W p p'"
  shows "pool_ok ok (m + n) p \<Longrightarrow> pool_ok ok n p'" "views V p' = W" "length (po_shards p') = length (po_shards p)"
    "po_shutting_down p' = po_shutting_down p" "i < length (po_shards p) \<Longrightarrow> fine (po_shards p ! i) \<Longrightarrow> fine (po_shards p' ! i)"
  using assms by (simp_all add: pool_stepq_def pool_step_def frame_def)

lemma pool_step_stepq: "pool_step ok V fine m W p p' \<Longrightarrow> pool_stepq ok V fine m W p p'"
  by (simp add: pool_stepq_def pool_step_def frame_def)

lemma pool_stepq_trans:
  assumes "pool_stepq ok V fine m W p q" and "pool_stepq ok V fine n W' q r"
  shows "pool_stepq ok V fine (m + n) W' p r"
proof -
  have "pool_step ok V fine n W' (q\<lparr>po_mrf := po_mrf p\<rparr>) (r\<lparr>po_mrf := po_mrf p\<rparr>)"
    using assms(2) by (simp add: pool_stepq_def pool_step_def frame_def)
  with assms(1) show ?thesis unfolding pool_stepq_def by (rule pool_step_trans)
qed

lemma pool_stepq_after:
  assumes "pool_stepq ok V fine m W p q" and "po_shards r = po_shards q" and "po_topo r = po_topo q"
    and "po_shutting_down r = po_shutting_down q"
  shows "pool_stepq ok V fine m W p r"
  using assms(1) unfolding pool_stepq_def by (rule pool_step_after) (use assms in simp_all)

lemma enqueue_heal_fields [simp]:
  "po_shards (enqueue_heal k pr p) = po_shards p" "po_topo (enqueue_heal k pr p) = po_topo p"
  "po_shutting_down (enqueue_heal k pr p) = po_shutting_down p" "po_mrf (enqueue_heal k pr p) = hq_push (po_mrf p) k pr"
  by (simp_all add: enqueue_heal_def Let_def)

context pool_laws
begin

abbreviation "stepq \<equiv> pool_stepq ok V fine"

lemma step_mono: "step m W p q \<Longrightarrow> m \<le> n \<Longrightarrow> step n W p q"
  unfolding pool_step_def using ok_weaken by (metis add_le_mono1)

lemma stepq_mono: "stepq m W p q \<Longrightarrow> m \<le> n \<Longrightarrow> stepq n W p q"
  unfolding pool_stepq_def by (rule step_mono)

lemma put_step_write:
  assumes "step 1 ((views V p)[i := (views V p ! i)(k \<mapsto> b)]) p q" and "i < length (po_shards p)"
    and "step n (write_at S k b (views V q)) q r"
  shows "step (Suc n) (write_at (insert i S) k b (views V p)) p r"
  using pool_step_trans [OF assms(1,3)] pool_step_views [OF assms(1)] assms(2) by (simp add: write_at_single)

section \<open>The legs of a mirrored write\<close>

lemma put_legs_step:
  assumes "pool_ok ok (length order) p" and "set order \<subseteq> {0..<length (po_shards p)}" and "fits k b" and "distinct order"
    and "put_legs E k b order (ok0, failed0, le0) p = (p', ok1, failed1, le1)"
  shows "\<exists>S \<subseteq> set order. step (length order) (write_at S k b (views V p)) p p' \<and> ok1 = ok0 + card S \<and>
    failed1 = failed0 @ filter (\<lambda>i. i \<notin> S) order \<and> (\<forall>i \<in> set order - S. \<not> fine (po_shards p ! i)) \<and>
    (le1 = None \<longleftrightarrow> le0 = None \<and> S = set order)"
  using assms
proof (induction order arbitrary: p ok0 failed0 le0)
  case Nil
  then show ?case using pool_step_refl by (intro exI [of _ "{}"]) simp
next
  case (Cons i order)
  have i: "i < length (po_shards p)" "i \<notin> set order" and ok1: "pool_ok ok 1 p" using Cons.prems ok_weaken [of "Suc (length order)" p 1] by auto
  obtain q r where c: "sh_put E i k b p = (q, r)" by fastforce
  note s = sh_put_step [OF ok1 i(1) Cons.prems(3), unfolded c]
  have "step 1 (views V q) p q" using s by (cases r) (auto simp: pool_step_def)
  then have q: "pool_ok ok (length order) q" "length (po_shards q) = length (po_shards p)"
    and fq: "\<And>j. j < length (po_shards p) \<Longrightarrow> fine (po_shards p ! j) \<Longrightarrow> fine (po_shards q ! j)"
    using Cons.prems(1) pool_step_ok [of ok V fine 1 _ p q "length order"] by (simp_all add: pool_step_def frame_def)
  have lt: "\<And>j. j \<in> set order \<Longrightarrow> j < length (po_shards p)" using Cons.prems(2) by auto
  have range: "set order \<subseteq> {0..<length (po_shards q)}" using Cons.prems(2) q(2) by auto
  show ?case
  proof (cases r)
    case (Inr u)
    then have "put_legs E k b order (ok0 + 1, failed0, le0) q = (p', ok1, failed1, le1)" using Cons.prems(5) by (simp add: c)
    from Cons.IH [OF q(1) range Cons.prems(3) _ this] Cons.prems(4) obtain S where S: "S \<subseteq> set order"
        "step (length order) (write_at S k b (views V q)) q p'" "ok1 = ok0 + 1 + card S"
        "failed1 = failed0 @ filter (\<lambda>i. i \<notin> S) order" "\<forall>i \<in> set order - S. \<not> fine (po_shards q ! i)"
        "le1 = None \<longleftrightarrow> le0 = None \<and> S = set order" by auto
    have "step (length (i # order)) (write_at (insert i S) k b (views V p)) p p'"
      using put_step_write [OF _ i(1) S(2)] s by (simp add: Inr)
    moreover have "card (insert i S) = Suc (card S)" using S(1) i(2) finite_subset [OF S(1)] by (auto simp: card_insert_if)
    moreover have "filter (\<lambda>j. j \<notin> insert i S) (i # order) = filter (\<lambda>j. j \<notin> S) order"
      using i(2) by (auto intro: filter_cong)
    moreover have "\<forall>j \<in> set (i # order) - insert i S. \<not> fine (po_shards p ! j)"
      using S(5) lt fq by auto
    moreover have "insert i S = set (i # order) \<longleftrightarrow> S = set order" using S(1) i(2) by auto
    moreover have "insert i S \<subseteq> set (i # order)" using S(1) by auto
    ultimately show ?thesis using S(3,4,6) by (intro exI [of _ "insert i S"]) simp
  next
    case (Inl e)
    then have "put_legs E k b order (ok0, failed0 @ [i], Some e) q = (p', ok1, failed1, le1)" using Cons.prems(5) by (simp add: c)
    from Cons.IH [OF q(1) range Cons.prems(3) _ this] Cons.prems(4) obtain S where S: "S \<subseteq> set order"
        "step (length order) (write_at S k b (views V q)) q p'" "ok1 = ok0 + card S"
        "failed1 = (failed0 @ [i]) @ filter (\<lambda>i. i \<notin> S) order" "\<forall>i \<in> set order - S. \<not> fine (po_shards q ! i)"
        "le1 \<noteq> None" by auto
    have e: "step 1 (views V p) p q" "\<not> fine (po_shards p ! i)" using s by (simp_all add: Inl)
    have "step (length (i # order)) (write_at S k b (views V p)) p p'"
      using pool_step_trans [OF e(1) S(2)] pool_step_views [OF e(1)] by simp
    moreover have "\<forall>j \<in> set (i # order) - S. \<not> fine (po_shards p ! j)"
      using S(5) e(2) lt fq by auto
    moreover have "S \<noteq> set (i # order)" "i \<notin> S" "S \<subseteq> set (i # order)" using S(1) i(2) by auto
    ultimately show ?thesis using S(3,4,6) by (intro exI [of _ S]) simp
  qed
qed

section \<open>Handoff\<close>

lemma place_spare_step:
  assumes "pool_ok ok (length spares) p" and "set spares \<subseteq> {0..<length (po_shards p)}" and "fits k b"
    and "place_spare E k b spares le0 p = (p', placed, rest, le1)"
  shows "\<exists>tried S. spares = tried @ rest \<and> S \<subseteq> set tried \<and> card S = (if placed then 1 else 0) \<and>
    step (length tried) (write_at S k b (views V p)) p p' \<and> (le0 \<noteq> None \<longrightarrow> le1 \<noteq> None)"
  using assms
proof (induction spares arbitrary: p le0)
  case Nil
  then show ?case using pool_step_refl by (intro exI [of _ "[]"] exI [of _ "{}"]) simp
next
  case (Cons i spares)
  have i: "i < length (po_shards p)" and ok1: "pool_ok ok 1 p" using Cons.prems ok_weaken [of "Suc (length spares)" p 1] by auto
  obtain q r where c: "sh_put E i k b p = (q, r)" by fastforce
  note s = sh_put_step [OF ok1 i(1) Cons.prems(3), unfolded c]
  show ?case
  proof (cases r)
    case (Inr u)
    then have e: "p' = tally HandoffWrites 1 q" "placed" "rest = spares" "le1 = le0" using Cons.prems(4) by (simp_all add: c)
    have "step 1 (write_at {i} k b (views V p)) p p'"
      by (rule pool_step_after [where q = q]) (use s i in \<open>simp_all add: Inr e write_at_single\<close>)
    then show ?thesis using e by (intro exI [of _ "[i]"] exI [of _ "{i}"]) simp
  next
    case (Inl er)
    then have c': "place_spare E k b spares (Some er) q = (p', placed, rest, le1)" using Cons.prems(4) by (simp add: c)
    have e: "step 1 (views V p) p q" using s by (simp add: Inl)
    have "pool_ok ok (length spares) q" using pool_step_ok [OF e, of "length spares"] Cons.prems(1) by simp
    moreover have "set spares \<subseteq> {0..<length (po_shards q)}" using Cons.prems(2) frame_length [OF pool_step_frame [OF e]] by auto
    ultimately obtain tried S where t: "spares = tried @ rest" "S \<subseteq> set tried" "card S = (if placed then 1 else 0)"
        "step (length tried) (write_at S k b (views V q)) q p'" "le1 \<noteq> None"
      using Cons.IH [OF _ _ Cons.prems(3) c'] by auto
    have "step (length (i # tried)) (write_at S k b (views V p)) p p'"
      using pool_step_trans [OF e t(4)] pool_step_views [OF e] by simp
    then show ?thesis using t by (intro exI [of _ "i # tried"] exI [of _ S]) auto
  qed
qed

lemma handoff_step:
  assumes "pool_ok ok (length spares) p" and "set spares \<subseteq> {0..<length (po_shards p)}" and "fits k b" and "distinct spares"
    and "handoff E k b n spares (ok0, le0) p = (p', ok1, le1)"
  shows "\<exists>S \<subseteq> set spares. step (length spares) (write_at S k b (views V p)) p p' \<and> ok1 = ok0 + card S \<and> (le0 \<noteq> None \<longrightarrow> le1 \<noteq> None)"
  using assms
proof (induction n arbitrary: spares p ok0 le0)
  case 0
  then show ?case using step_mono [OF pool_step_refl [of ok V fine p], of "length spares"] by (intro exI [of _ "{}"]) simp
next
  case (Suc n)
  obtain q placed rest le where c: "place_spare E k b spares le0 p = (q, placed, rest, le)" by (metis prod_cases4)
  from place_spare_step [OF Suc.prems(1-3) c] obtain tried S where t: "spares = tried @ rest" "S \<subseteq> set tried"
      "card S = (if placed then 1 else 0)" "step (length tried) (write_at S k b (views V p)) p q" "le0 \<noteq> None \<longrightarrow> le \<noteq> None"
    by (elim exE conjE) (rule that)
  show ?case
  proof (cases placed)
    case True
    have r1: "pool_ok ok (length rest) q" using pool_step_ok [OF t(4), of "length rest"] Suc.prems(1) by (simp add: t(1))
    have r2: "set rest \<subseteq> {0..<length (po_shards q)}" using Suc.prems(2) frame_length [OF pool_step_frame [OF t(4)]] by (auto simp: t(1))
    have r3: "distinct rest" using Suc.prems(4) by (simp add: t(1))
    have h: "handoff E k b n rest (ok0 + 1, le) q = (p', ok1, le1)" using Suc.prems(5) True by (simp add: c)
    from Suc.IH [OF r1 r2 Suc.prems(3) r3 h] obtain T where T: "T \<subseteq> set rest" "step (length rest) (write_at T k b (views V q)) q p'"
        "ok1 = ok0 + 1 + card T" "le \<noteq> None \<longrightarrow> le1 \<noteq> None"
      by (elim exE conjE) (rule that)
    have "S \<inter> T = {}" "finite S" "finite T" using t(2) T(1) Suc.prems(4) finite_subset by (auto simp: t(1))
    then have "card (T \<union> S) = Suc (card T)" using t(3) True by (simp add: card_Un_disjoint Int_commute)
    moreover have "step (length spares) (write_at (T \<union> S) k b (views V p)) p p'"
      using pool_step_trans [OF t(4) T(2)] pool_step_views [OF t(4)] by (simp add: t(1))
    moreover have "T \<union> S \<subseteq> set spares" using t(2) T(1) by (auto simp: t(1))
    ultimately show ?thesis using t(5) T(3,4) by (intro exI [of _ "T \<union> S"]) simp
  next
    case False
    then have e: "p' = q" "ok1 = ok0" "le1 = le" using Suc.prems(5) by (simp_all add: c)
    show ?thesis using t False step_mono [OF t(4), of "length spares"] by (intro exI [of _ S]) (auto simp: e)
  qed
qed

section \<open>A mirrored write\<close>

lemma disjoint_lengths:
  assumes "distinct xs" and "distinct ys" and "set xs \<inter> set ys = {}" and "set xs \<subseteq> {0..<n}" and "set ys \<subseteq> {0..<n}"
  shows "length xs + length ys \<le> n"
proof -
  have "length xs + length ys = card (set xs \<union> set ys)"
    using assms(1-3) by (simp add: card_Un_disjoint distinct_card)
  also have "\<dots> \<le> card {0..<n}" using assms(4,5) by (intro card_mono) auto
  finally show ?thesis by simp
qed

lemma put_mirror_step:
  assumes ok: "pool_ok ok (length (po_shards p)) p" and fit: "fits k b" and put: "put_mirror E k b p = (p', r)"
    and reps: "replicas_for E k p = (p0, reps)"
  shows "\<exists>S \<subseteq> {0..<length (po_shards p)}. stepq (length (po_shards p)) (write_at S k b (views V p)) p p' \<and>
    (isl r \<longleftrightarrow> reps = [] \<or> card S < min (pc_write_quorum (pe_cfg E)) (length reps)) \<and>
    po_mrf p' = (if set reps \<subseteq> S then po_mrf p else hq_push (po_mrf p) k Normal) \<and>
    (\<forall>i \<in> set reps - S. \<not> fine (po_shards p ! i))"
proof -
  let ?N = "length (po_shards p)" and ?W = "pc_write_quorum (pe_cfg E)"
  have ok0: "pool_ok ok 0 p" using ok by (rule ok_weaken) simp
  note s0 = ranking_step [OF ok0 reps [unfolded replicas_for_def]]
  show ?thesis
  proof (cases "reps = []")
    case True
    then have e: "p' = p0" "r = Inl (QuorumNotReached 0 ?W)" using put by (simp_all add: put_mirror_def reps Let_def)
    have "step ?N (views V p) p p0" by (rule step_mono [OF s0(1)]) simp
    then show ?thesis using True pool_step_frame [OF s0(1)] e by (intro exI [of _ "{}"]) (auto intro: pool_step_stepq simp: frame_def)
  next
    case False
    obtain p1 order where a: "arrivals E reps p0 = (p1, order)" by fastforce
    note s1 = arrivals_step [OF a]
    have ord: "distinct order" "set order = set reps" "length order = length reps"
      using s1(2) s0(2) mset_eq_setD mset_eq_imp_distinct_iff mset_eq_length by blast+
    have s01: "step 0 (views V p) p p1"
      using pool_step_trans [OF s0(1) s1(1)] pool_step_views [OF s0(1)] by simp
    have ok1: "pool_ok ok ?N p1" using pool_step_ok0 [OF s01 ok] .
    have N1: "length (po_shards p1) = ?N" using frame_length [OF pool_step_frame [OF s01]] .
    have lr: "length order \<le> ?N" using disjoint_lengths [of order "[]"] ord s0(3) by simp
    obtain p2 ok2 failed le2 where c: "put_legs E k b order (0, [], None) p1 = (p2, ok2, failed, le2)" by (metis prod_cases4)
    have r: "set order \<subseteq> {0..<length (po_shards p1)}" using s0(3) ord(2) N1 by auto
    from put_legs_step [OF ok_weaken [OF ok1 lr] r fit ord(1) c] obtain S where S: "S \<subseteq> set order"
        "step (length order) (write_at S k b (views V p1)) p1 p2" "ok2 = card S" "failed = filter (\<lambda>i. i \<notin> S) order"
        "\<forall>i \<in> set order - S. \<not> fine (po_shards p1 ! i)" by auto
    have s02: "step (length order) (write_at S k b (views V p)) p p2"
      using pool_step_trans [OF s01 S(2)] pool_step_views [OF s01] by simp
    have bad: "\<forall>i \<in> set reps - S. \<not> fine (po_shards p ! i)"
      using S(5) pool_step_frame [OF s01] s0(3) by (auto simp: frame_def ord(2) subset_iff)
    have all: "failed = [] \<longleftrightarrow> set reps \<subseteq> S" using S(4) by (auto simp: filter_empty_conv ord(2))
    have Sr: "S \<subseteq> {0..<?N}" using S(1) s0(3) ord(2) by auto
    show ?thesis
    proof (cases "failed = []")
      case True
      then have e: "p' = p2" "r = quorum_result ok2 (min ?W (length reps)) ?W le2"
        using put False by (simp_all add: put_mirror_def reps Let_def a c)
      have "stepq ?N (write_at S k b (views V p)) p p'" unfolding e(1) by (rule pool_step_stepq, rule step_mono [OF s02 lr])
      moreover have "po_mrf p' = po_mrf p" using pool_step_frame [OF s02] by (simp add: frame_def e)
      moreover have "isl r \<longleftrightarrow> card S < min ?W (length reps)" by (auto simp: e(2) quorum_result_def S(3) min_def)
      ultimately show ?thesis using Sr bad all True False by (intro exI [of _ S]) simp
    next
      case fail: False
      obtain p3 rank where rk: "ranking_for E k (length (po_shards p2)) p2 = (p3, rank)" by fastforce
      have N2: "length (po_shards p2) = ?N" using frame_length [OF pool_step_frame [OF s02]] .
      have "pool_ok ok (?N - length order) p2" using pool_step_ok [OF s02, of "?N - length order"] ok lr by simp
      note ok2 = this
      note s3 = ranking_step [OF ok_weaken [OF ok2 le0] rk]
      let ?spares = "filter (\<lambda>s. s \<notin> set reps) rank"
      have s03: "step (length order) (write_at S k b (views V p)) p p3"
        using pool_step_trans [OF s02 s3(1)] pool_step_views [OF s02] by simp
      have sp: "set ?spares \<subseteq> {0..<?N}" "distinct ?spares" using s3(2,3) N2 by auto
      have tot: "length order + length ?spares \<le> ?N"
        using disjoint_lengths [of order ?spares ?N] ord s0(3) sp by auto
      have N3: "length (po_shards p3) = ?N" using frame_length [OF pool_step_frame [OF s03]] .
      have ok3: "pool_ok ok (length ?spares) p3" using pool_step_ok [OF s03, of "length ?spares"] ok_weaken [OF ok tot] by simp
      obtain p4 ok4 le4 where h: "handoff E k b (length failed) ?spares (ok2, le2) p3 = (p4, ok4, le4)" by (metis prod_cases3)
      from handoff_step [OF ok3 _ fit sp(2) h] sp(1) N3 obtain T where T: "T \<subseteq> set ?spares"
          "step (length ?spares) (write_at T k b (views V p3)) p3 p4" "ok4 = ok2 + card T" by auto
      have s04: "step (length order + length ?spares) (write_at (T \<union> S) k b (views V p)) p p4"
        using pool_step_trans [OF s03 T(2)] pool_step_views [OF s03] by simp
      have e: "p' = enqueue_heal k Normal p4" "r = quorum_result ok4 (min ?W (length reps)) ?W le4"
        using put False fail by (simp_all add: put_mirror_def reps Let_def a c rk h)
      have "T \<inter> S = {}" using T(1) S(1) ord(2) by auto
      moreover have "finite T" "finite S" using T(1) S(1) by (auto intro: finite_subset [OF _ finite_set])
      ultimately have "card (T \<union> S) = ok4" using T(3) S(3) by (simp add: card_Un_disjoint)
      then have q: "isl r \<longleftrightarrow> card (T \<union> S) < min ?W (length reps)" by (auto simp: e(2) quorum_result_def min_def)
      have "stepq ?N (write_at (T \<union> S) k b (views V p)) p p4" by (rule pool_step_stepq, rule step_mono [OF s04 tot])
      then have "stepq ?N (write_at (T \<union> S) k b (views V p)) p p'" by (rule pool_stepq_after) (simp_all add: e(1))
      moreover have "po_mrf p' = hq_push (po_mrf p) k Normal" using pool_step_frame [OF s04] by (simp add: frame_def e)
      moreover have "set reps \<inter> (T \<union> S) = set reps \<inter> S" using T(1) by auto
      then have "set reps \<subseteq> T \<union> S \<longleftrightarrow> set reps \<subseteq> S" by auto
      ultimately show ?thesis using q bad all fail False Sr sp(1) T(1) by (intro exI [of _ "T \<union> S"]) auto
    qed
  qed
qed

end

end
