(* ===== verification/Pool_Get_Laws.thy ===== *)
theory Pool_Get_Laws
  imports Pool_Put_Laws
begin

text \<open>
  What a read of the pool returns: a body some shard holds, and a body whenever any fault-free shard holds one. Reads,
  \<open>stat\<close>, \<open>has\<close> and \<open>list\<close> change no map; \<open>delete\<close> removes its key from every fault-free shard.
\<close>

section \<open>Reading a list of shards\<close>

text \<open>\<open>found p is r k\<close>: what asking the shards \<open>is\<close> of \<open>p\<close> for \<open>k\<close> may answer.\<close>

definition held_by :: "('s \<Rightarrow> block_key \<rightharpoonup> bytes) \<Rightarrow> 's pool \<Rightarrow> nat set \<Rightarrow> block_key \<Rightarrow> bytes \<Rightarrow> bool" where
  "held_by V p S k v \<longleftrightarrow> (\<exists>i \<in> S. (views V p ! i) k = Some v)"

definition sure :: "('s \<Rightarrow> block_key \<rightharpoonup> bytes) \<Rightarrow> ('s \<Rightarrow> bool) \<Rightarrow> 's pool \<Rightarrow> nat set \<Rightarrow> block_key \<Rightarrow> bool" where
  "sure V fine p S k \<longleftrightarrow> (\<exists>i \<in> S. fine (po_shards p ! i) \<and> (views V p ! i) k \<noteq> None)"

definition answers :: "('s \<Rightarrow> block_key \<rightharpoonup> bytes) \<Rightarrow> ('s \<Rightarrow> bool) \<Rightarrow> 's pool \<Rightarrow> nat set \<Rightarrow> block_key \<Rightarrow> (domain_error + bytes) \<Rightarrow> bool" where
  "answers V fine p S k r \<longleftrightarrow> (case r of
      Inr v \<Rightarrow> held_by V p S k v
    | Inl e \<Rightarrow> \<not> sure V fine p S k)"

lemma answers_simps [simp]:
  "answers V fine p S k (Inr v) \<longleftrightarrow> held_by V p S k v"
  "answers V fine p S k (Inl e) \<longleftrightarrow> \<not> sure V fine p S k"
  by (simp_all add: answers_def)

lemma held_by_mono: "held_by V p S k v \<Longrightarrow> S \<subseteq> T \<Longrightarrow> held_by V p T k v"
  by (auto simp: held_by_def)

lemma held_by_views: "views V q = views V p \<Longrightarrow> held_by V q S k v = held_by V p S k v"
  by (simp add: held_by_def)

text \<open>A read step keeps what is held, and fault-free shards stay fault free.\<close>

lemma sure_step:
  assumes "pool_step ok V fine 0 (views V p) p q" and "S \<subseteq> {0..<length (po_shards p)}" and "sure V fine p S k"
  shows "sure V fine q S k"
  using assms unfolding sure_def pool_step_def frame_def by (metis atLeastLessThan_iff subsetD)

context pool_laws
begin

lemma sh_get_answers:
  assumes "pool_ok ok 0 p" and "i < length (po_shards p)" and "sh_get E i k p = (q, r)"
  shows "step 0 (views V p) p q \<and> answers V fine p {i} k r"
  using sh_get_step [OF assms(1,2), of k] assms(3)
  by (cases r) (auto simp: held_by_def sure_def split: if_splits)

lemma answers_later:
  assumes "step 0 (views V p) p q" and "S \<subseteq> {0..<length (po_shards p)}" and "\<not> sure V fine p T k" and "answers V fine q S k r"
  shows "answers V fine p (T \<union> S) k r"
proof (cases r)
  case (Inr v)
  then show ?thesis using assms(4) pool_step_views [OF assms(1)] by (auto simp: held_by_def)
next
  case (Inl e)
  then have "\<not> sure V fine p S k" using assms(4) sure_step [OF assms(1,2)] by auto
  with Inl assms(3) show ?thesis by (auto simp: sure_def)
qed

lemma get_legs_answers:
  assumes "pool_ok ok 0 p" and "set sids \<subseteq> {0..<length (po_shards p)}" and "get_legs E k sids le p = (q, r)"
  shows "step 0 (views V p) p q \<and> answers V fine p (set sids) k r"
  using assms
proof (induction sids arbitrary: p le)
  case Nil
  then show ?case using pool_step_refl by (auto simp: sure_def)
next
  case (Cons i sids)
  obtain p1 r1 where g: "sh_get E i k p = (p1, r1)" by fastforce
  from sh_get_answers [OF Cons.prems(1) _ g] Cons.prems(2)
  have s: "step 0 (views V p) p p1" "answers V fine p {i} k r1" by auto
  show ?case
  proof (cases r1)
    case (Inr v)
    then show ?thesis using s Cons.prems(3) by (auto simp: g intro: held_by_mono)
  next
    case (Inl e)
    have "set sids \<subseteq> {0..<length (po_shards p1)}" using Cons.prems(2) frame_length [OF pool_step_frame [OF s(1)]] by auto
    with Cons.IH [OF pool_step_ok0 [OF s(1) Cons.prems(1)], of "note_error le e"] Cons.prems(3)
    have "step 0 (views V p1) p1 q \<and> answers V fine p1 (set sids) k r" by (simp add: g Inl)
    then show ?thesis
      using pool_step_trans [OF s(1), of 0 _ q] pool_step_views [OF s(1)] answers_later [OF s(1), of "set sids" "{i}" k r] s(2) Cons.prems(2)
      by (simp add: Inl)
  qed
qed

lemma get_any_answers:
  assumes "pool_ok ok 0 p" and "set sids \<subseteq> {0..<length (po_shards p)}" and "get_any E k sids le p = (q, r)"
  shows "step 0 (views V p) p q \<and> answers V fine p (set sids) k r"
  using assms
proof (induction sids arbitrary: p)
  case Nil
  then show ?case using pool_step_refl by (auto simp: sure_def)
next
  case (Cons i sids)
  obtain p1 r1 where g: "sh_get E i k p = (p1, r1)" by fastforce
  from sh_get_answers [OF Cons.prems(1) _ g] Cons.prems(2)
  have s: "step 0 (views V p) p p1" "answers V fine p {i} k r1" by auto
  show ?case
  proof (cases r1)
    case (Inr v)
    then show ?thesis using s Cons.prems(3) by (auto simp: g intro: held_by_mono)
  next
    case (Inl e)
    have "set sids \<subseteq> {0..<length (po_shards p1)}" using Cons.prems(2) frame_length [OF pool_step_frame [OF s(1)]] by auto
    with Cons.IH [OF pool_step_ok0 [OF s(1) Cons.prems(1)]] Cons.prems(3)
    have "step 0 (views V p1) p1 q \<and> answers V fine p1 (set sids) k r" by (simp add: g Inl)
    then show ?thesis
      using pool_step_trans [OF s(1), of 0 _ q] pool_step_views [OF s(1)] answers_later [OF s(1), of "set sids" "{i}" k r] s(2) Cons.prems(2)
      by (simp add: Inl)
  qed
qed

section \<open>The hedged read\<close>

lemma pick_reply_cases:
  "pick_reply rs le = Inr v \<Longrightarrow> Inr v \<in> set rs"
  "pick_reply rs le = Inl e \<Longrightarrow> \<forall>r \<in> set rs. isl r"
  by (induction rs le rule: pick_reply.induct) auto

lemma hedged_read_answers:
  assumes ok: "pool_ok ok 0 p" and reps: "set reps \<subseteq> {0..<length (po_shards p)}" "2 \<le> length reps"
    and read: "hedged_read E k reps hedge p = (q, tried, r)"
  shows "step 0 (views V p) p q \<and> tried \<le> 2 \<and> answers V fine p (set (take tried reps)) k r"
proof -
  obtain i j rest where l: "reps = i # j # rest" using reps(2) by (auto simp: numeral_2_eq_2 Suc_le_length_iff)
  obtain p1 r0 where g0: "sh_get E i k p = (p1, r0)" by fastforce
  from sh_get_answers [OF ok _ g0] reps(1) have s0: "step 0 (views V p) p p1" "answers V fine p {i} k r0" by (auto simp: l)
  show ?thesis
  proof (cases "hedge < pe_latency E (po_tick p)")
    case False
    then have e: "q = p1" "tried = 1" "r = pick_reply [r0] NotFound" using read by (simp_all add: hedged_read_def l g0 Let_def)
    have "answers V fine p {i} k (pick_reply [r0] NotFound)" using s0(2) by (cases r0) simp_all
    with s0(1) show ?thesis by (simp add: e l)
  next
    case True
    let ?p1 = "tally HedgedReads 1 p1"
    have s1: "step 0 (views V p) p ?p1" by (rule pool_step_after [OF s0(1)]) simp_all
    obtain p2 r1 where g1: "sh_get E j k ?p1 = (p2, r1)" by fastforce
    have len: "length (po_shards ?p1) = length (po_shards p)" using frame_length [OF pool_step_frame [OF s1]] .
    from sh_get_answers [OF pool_step_ok0 [OF s1 ok] _ g1] reps(1) len
    have s2: "step 0 (views V ?p1) ?p1 p2" "answers V fine ?p1 {j} k r1" by (auto simp: l)
    obtain q' order where a: "arrivals E [0, 1] p2 = (q', order)" by fastforce
    note s3 = arrivals_step [OF a]
    have e: "q' = q" "tried = 2" "r = pick_reply (map (\<lambda>j. if j = 0 then r0 else r1) order) NotFound"
      using read True by (simp_all add: hedged_read_def l g0 g1 a Let_def del: One_nat_def)
    note s3 = s3 [unfolded e(1)]
    have "set order = {0, 1}" using mset_eq_setD [OF s3(2)] by simp
    then have rs: "set (map (\<lambda>j. if j = 0 then r0 else r1) order) = {r0, r1}" by auto
    have "step 0 (views V p) p q"
      using pool_step_trans [OF pool_step_trans [OF s1 s2(1)] s3(1)] pool_step_views [OF s1] pool_step_views [OF s2(1)] by simp
    moreover have "answers V fine p {i, j} k r"
    proof (cases r)
      case (Inr v)
      then have "Inr v \<in> {r0, r1}" using pick_reply_cases(1) rs e(3) by metis
      then show ?thesis using s0(2) s2(2) pool_step_views [OF s1] by (auto simp: Inr held_by_def)
    next
      case (Inl er)
      then have "isl r0" "isl r1" using pick_reply_cases(2) rs e(3) by (metis insertI1 insertI2)+
      have "j < length (po_shards p)" using reps(1) by (simp add: l)
      then have "\<not> sure V fine p {j} k" using s2(2) \<open>isl r1\<close> sure_step [OF s1, of "{j}" k] by (auto simp: isl_def)
      moreover have "\<not> sure V fine p {i} k" using s0(2) \<open>isl r0\<close> by (auto simp: isl_def)
      ultimately show ?thesis by (auto simp: Inl sure_def)
    qed
    ultimately show ?thesis by (simp add: e(2) l numeral_2_eq_2)
  qed
qed

lemma set_others: "set reps \<union> set (others p reps) = set reps \<union> {0..<length (po_shards p)}"
  by (auto simp: others_def)

lemma hedge_step: "hedge_threshold E p = (q, h) \<Longrightarrow> step 0 (views V p) p q"
  by (rule pool_step_meta) (auto simp: hedge_threshold_def Let_def split: if_splits prod.splits)

text \<open>The read of a mirrored body asks every shard before it gives up.\<close>

lemma get_mirror_answers:
  assumes ok: "pool_ok ok 0 p" and read: "get_mirror E k p = (q, r)"
  shows "step 0 (views V p) p q \<and> answers V fine p {0..<length (po_shards p)} k r"
proof -
  let ?N = "{0..<length (po_shards p)}"
  obtain p0 reps where rep: "replicas_for E k p = (p0, reps)" by fastforce
  note s0 = ranking_step [OF ok rep [unfolded replicas_for_def]]
  obtain p1 hedge where h: "hedge_threshold E p0 = (p1, hedge)" by fastforce
  have s1: "step 0 (views V p) p p1" using pool_step_trans [OF s0(1) hedge_step [OF h]] pool_step_views [OF s0(1)] by simp
  note ok1 = pool_step_ok0 [OF s1 ok]
  have N1: "length (po_shards p1) = length (po_shards p)" using frame_length [OF pool_step_frame [OF s1]] .
  have r1: "set reps \<subseteq> {0..<length (po_shards p1)}" using s0(3) N1 by simp
  obtain p2 tried first where t: "(case hedge of
       Some h \<Rightarrow> if 2 \<le> length reps then hedged_read E k reps h p1 else (p1, 0, Inl NotFound)
     | None \<Rightarrow> (p1, 0, Inl NotFound)) = (p2, tried, first)" by (metis prod_cases3)
  have s2: "step 0 (views V p1) p1 p2 \<and> answers V fine p1 (set (take tried reps)) k first"
  proof (cases "\<exists>h. hedge = Some h \<and> 2 \<le> length reps")
    case True
    then show ?thesis using hedged_read_answers [OF ok1 r1] t by auto
  next
    case False
    then show ?thesis using t pool_step_refl by (auto simp: sure_def split: option.splits if_splits)
  qed
  have s02: "step 0 (views V p) p p2" using pool_step_trans [OF s1, of 0 _ p2] s2 pool_step_views [OF s1] by simp
  have a2: "answers V fine p (set (take tried reps)) k first"
    using answers_later [OF s1, of "set (take tried reps)" "{}" k first] s2 s0(3) by (auto simp: sure_def dest: in_set_takeD)
  show ?thesis
  proof (cases first)
    case (Inr v)
    then have "q = p2" "r = Inr v" using read by (auto simp: get_mirror_def rep h t Let_def)
    moreover have "set (take tried reps) \<subseteq> ?N" using s0(3) by (auto dest: in_set_takeD)
    ultimately show ?thesis using s02 a2 Inr held_by_mono by (metis answers_simps(1))
  next
    case (Inl le)
    obtain p3 r3 where g: "get_legs E k (drop tried reps) le p2 = (p3, r3)" by fastforce
    have N2: "length (po_shards p2) = length (po_shards p)" using frame_length [OF pool_step_frame [OF s02]] .
    have d: "set (drop tried reps) \<subseteq> ?N" using s0(3) by (auto dest: in_set_dropD)
    with get_legs_answers [OF pool_step_ok0 [OF s02 ok] _ g] N2
    have s3: "step 0 (views V p2) p2 p3" "answers V fine p2 (set (drop tried reps)) k r3" by auto
    have s03: "step 0 (views V p) p p3" using pool_step_trans [OF s02 s3(1)] pool_step_views [OF s02] by simp
    have "answers V fine p (set (take tried reps) \<union> set (drop tried reps)) k r3"
      by (rule answers_later [OF s02 d _ s3(2)]) (use a2 Inl in simp)
    then have a3: "answers V fine p (set reps) k r3" by (metis append_take_drop_id set_append)
    show ?thesis
    proof (cases r3)
      case (Inr v)
      then have "q = p3" "r = Inr v" using read Inl by (auto simp: get_mirror_def rep h t g Let_def)
      then show ?thesis using s03 a3 Inr held_by_mono [OF _ s0(3)] by simp
    next
      case Inl3: (Inl le3)
      have o: "set (others p3 reps) \<subseteq> ?N" using frame_length [OF pool_step_frame [OF s03]] by (auto simp: others_def)
      have "get_any E k (others p3 reps) le3 p3 = (q, r)" using read Inl Inl3 by (simp add: get_mirror_def rep h t g Let_def)
      with get_any_answers [OF pool_step_ok0 [OF s03 ok]] o frame_length [OF pool_step_frame [OF s03]]
      have s4: "step 0 (views V p3) p3 q" "answers V fine p3 (set (others p3 reps)) k r" by auto
      have "answers V fine p (set reps \<union> set (others p3 reps)) k r"
        by (rule answers_later [OF s03 o _ s4(2)]) (use a3 Inl3 in simp)
      moreover have "set reps \<union> set (others p3 reps) = ?N"
        using s0(3) set_others [of reps p3] frame_length [OF pool_step_frame [OF s03]] by auto
      ultimately show ?thesis using pool_step_trans [OF s03 s4(1)] pool_step_views [OF s03] by simp
    qed
  qed
qed

end

end
