(* ===== verification/Pool_Meta_Laws.thy ===== *)
theory Pool_Meta_Laws
  imports Pool_Get_Laws
begin

text \<open>
  The metadata operations of the pool on the shards' maps: \<open>has\<close>, \<open>stat\<close>, \<open>delete\<close> and the merged
  \<open>list\<close>.
\<close>

section \<open>Deleting from a set of shards\<close>

definition remove_at :: "nat set \<Rightarrow> block_key \<Rightarrow> (block_key \<rightharpoonup> bytes) list \<Rightarrow> (block_key \<rightharpoonup> bytes) list" where
  "remove_at S k vs = map (\<lambda>i. if i \<in> S then (vs ! i)(k := None) else vs ! i) [0..<length vs]"

lemma length_remove_at [simp]: "length (remove_at S k vs) = length vs"
  by (simp add: remove_at_def)

lemma nth_remove_at [simp]: "i < length vs \<Longrightarrow> remove_at S k vs ! i = (if i \<in> S then (vs ! i)(k := None) else vs ! i)"
  by (simp add: remove_at_def)

lemma remove_at_empty [simp]: "remove_at {} k vs = vs"
  by (rule nth_equalityI) simp_all

lemma remove_at_single: "i < length vs \<Longrightarrow> vs[i := (vs ! i)(k := None)] = remove_at {i} k vs"
  by (rule nth_equalityI) (auto simp: nth_list_update)

lemma remove_at_Un [simp]: "remove_at S k (remove_at T k vs) = remove_at (S \<union> T) k vs"
  by (rule nth_equalityI) auto

section \<open>Merging sorted listings\<close>

lemma sorted_filter_eq:
  assumes "sorted_wrt (<) (xs :: bytes list)" and "sorted_wrt (<) ys" and "set xs \<subseteq> set ys"
  shows "xs = filter (\<lambda>y. y \<in> set xs) ys"
proof (rule sorted_distinct_set_unique)
  show "sorted xs" "distinct xs" using assms(1) by (simp_all add: strict_sorted_iff)
  show "sorted (filter (\<lambda>y. y \<in> set xs) ys)" "distinct (filter (\<lambda>y. y \<in> set xs) ys)"
    using assms(2) by (simp_all add: strict_sorted_iff sorted_filter [of "\<lambda>x. x", simplified])
  show "set xs = set (filter (\<lambda>y. y \<in> set xs) ys)" using assms(3) by auto
qed

lemma take_sub:
  assumes "sorted_wrt (<) (xs :: bytes list)" and "sorted_wrt (<) ys" and "set xs \<subseteq> set ys"
  shows "set (take l ys) \<inter> set xs \<subseteq> set (take l xs)"
proof -
  let ?P = "\<lambda>y. y \<in> set xs"
  have x: "xs = filter ?P (take l ys) @ filter ?P (drop l ys)"
    using sorted_filter_eq [OF assms] by (simp flip: filter_append)
  have "length (filter ?P (take l ys)) \<le> l" by (metis length_filter_le length_take min.bounded_iff)
  then have "set (filter ?P (take l ys)) \<subseteq> set (take l xs)" by (subst x) auto
  then show ?thesis by auto
qed

lemma take_merged:
  assumes "sorted_wrt (<) (m :: bytes list)" and "sorted_wrt (<) u" and "set (take l u) \<subseteq> set m" and "set m \<subseteq> set u"
  shows "take l m = take l u"
proof -
  let ?P = "\<lambda>y. y \<in> set m"
  have "m = filter ?P (take l u) @ filter ?P (drop l u)"
    using sorted_filter_eq [OF assms(1,2,4)] by (simp flip: filter_append)
  also have "filter ?P (take l u) = take l u" using assms(3) by (intro filter_True) auto
  finally have "take l m = take l (take l u @ filter ?P (drop l u))" by (rule arg_cong)
  then show ?thesis by (cases "l \<le> length u") simp_all
qed

text \<open>The first rows of a union of sorted listings are determined by the first rows of each.\<close>

lemma merged_take:
  assumes "\<forall>i < (n :: nat). sorted_wrt (<) (K i) \<and> set (K i) = A i" and "sorted_wrt (<) (m :: bytes list)"
    and "set m = (\<Union>i < n. set (take l (K i)))"
  shows "finite (\<Union>i < n. A i)" "take l m = take l (sorted_list_of_set (\<Union>i < n. A i))"
proof -
  show fin: "finite (\<Union>i < n. A i)" 
  proof (rule finite_UN_I)
    show "finite (A i)" if "i \<in> {..<n}" for i using assms(1) that by (metis List.finite_set lessThan_iff)
  qed simp
  let ?u = "sorted_list_of_set (\<Union>i < n. A i)"
  have u: "sorted_wrt (<) ?u" "set ?u = (\<Union>i < n. A i)" using fin by simp_all
  have "set (take l ?u) \<subseteq> set m"
  proof
    fix x assume x: "x \<in> set (take l ?u)"
    then have "x \<in> (\<Union>i < n. A i)" using u(2) by (metis in_set_takeD)
    then obtain i where i: "i < n" "x \<in> set (K i)" using assms(1) by auto
    have "set (K i) \<subseteq> set ?u" using assms(1) i(1) u(2) by auto
    from take_sub [OF _ u(1) this, of l] assms(1) i x have "x \<in> set (take l (K i))" by auto
    then show "x \<in> set m" using assms(3) i(1) by auto
  qed
  moreover have "set m \<subseteq> set ?u" unfolding u(2) assms(3) using assms(1) by (auto dest: in_set_takeD)
  ultimately show "take l m = take l ?u" by (rule take_merged [OF assms(2) u(1)])
qed

lemma set_or_insert: "fst ` set (or_insert k sz rows) = insert k (fst ` set rows)"
proof (induction rows)
  case (Cons r rows)
  then show ?case by (cases r) auto
qed simp

lemma sorted_or_insert: "sorted_wrt (<) (map fst rows) \<Longrightarrow> sorted_wrt (<) (map fst (or_insert k sz rows))"
proof (induction rows)
  case (Cons r rows)
  obtain k' sz' where r: "r = (k', sz')" by fastforce
  have "\<forall>x \<in> fst ` set (or_insert k sz rows). k' < x" if "k' < k" using Cons.prems that by (auto simp: set_or_insert r)
  with Cons show ?case by (auto simp: r)
qed simp

lemma fold_or_insert:
  "sorted_wrt (<) (map fst merged) \<Longrightarrow> sorted_wrt (<) (map fst (fold (\<lambda>(k, sz). or_insert k sz) rows merged)) \<and>
   fst ` set (fold (\<lambda>(k, sz). or_insert k sz) rows merged) = fst ` set merged \<union> fst ` set rows"
proof (induction rows arbitrary: merged)
  case (Cons r rows)
  obtain k sz where r: "r = (k, sz)" by fastforce
  show ?case using Cons.IH [OF sorted_or_insert [OF Cons.prems, of k sz]] by (simp add: r set_or_insert)
qed simp

context pool_laws
begin

lemma delete_everywhere_step:
  assumes "pool_ok ok 0 p" and "set sids \<subseteq> {0..<length (po_shards p)}"
  shows "\<exists>D \<subseteq> set sids. step 0 (remove_at D k (views V p)) p (delete_everywhere E k sids p) \<and>
    (\<forall>i \<in> set sids - D. \<not> fine (po_shards p ! i))"
  using assms
proof (induction sids arbitrary: p)
  case Nil
  then show ?case using pool_step_refl by (intro exI [of _ "{}"]) simp
next
  case (Cons i sids)
  obtain q r where c: "sh_delete E i k p = (q, r)" by fastforce
  have i: "i < length (po_shards p)" and lt: "\<And>j. j \<in> set sids \<Longrightarrow> j < length (po_shards p)" using Cons.prems(2) by auto
  note s = sh_delete_step [OF Cons.prems(1) i, of k, unfolded c]
  have q: "step 0 (views V q) p q" using s by (cases r) (auto simp: pool_step_def)
  have "set sids \<subseteq> {0..<length (po_shards q)}" using Cons.prems(2) frame_length [OF pool_step_frame [OF q]] by auto
  from Cons.IH [OF pool_step_ok0 [OF q Cons.prems(1)] this] obtain D where D: "D \<subseteq> set sids"
      "step 0 (remove_at D k (views V q)) q (delete_everywhere E k sids q)" "\<forall>i \<in> set sids - D. \<not> fine (po_shards q ! i)" by blast
  have bad: "\<forall>j \<in> set sids - D. \<not> fine (po_shards p ! j)" using D(3) lt pool_step_frame [OF q] by (auto simp: frame_def)
  show ?case
  proof (cases r)
    case (Inr u)
    have "step 0 (remove_at (insert i D) k (views V p)) p (delete_everywhere E k sids q)"
      using pool_step_trans [OF q D(2)] s i by (simp add: Inr pool_step_def remove_at_single)
    then show ?thesis using D(1) bad by (intro exI [of _ "insert i D"]) (auto simp: c)
  next
    case (Inl e)
    have "step 0 (remove_at D k (views V p)) p (delete_everywhere E k sids q)"
      using pool_step_trans [OF q D(2)] s by (simp add: Inl pool_step_def)
    then show ?thesis using D(1) bad s by (intro exI [of _ D]) (auto simp: c Inl)
  qed
qed

lemma first_has_step:
  assumes "pool_ok ok 0 p" and "set sids \<subseteq> {0..<length (po_shards p)}"
  shows "post (first_has E k sids p) (\<lambda>q b. step 0 (views V p) p q \<and> b = (\<exists>i \<in> set sids. (views V p ! i) k \<noteq> None))
    (\<lambda>q e. step 0 (views V p) p q \<and> (\<exists>i \<in> set sids. \<not> fine (po_shards p ! i)))"
  using assms
proof (induction sids arbitrary: p)
  case Nil
  then show ?case using pool_step_refl by simp
next
  case (Cons i sids)
  have i: "i < length (po_shards p)" and lt: "\<And>j. j \<in> set sids \<Longrightarrow> j < length (po_shards p)" using Cons.prems(2) by auto
  show ?case unfolding first_has.simps
  proof (rule post_and_then [OF post_mono [OF sh_has_step [OF Cons.prems(1) i]]])
    fix q b
    assume s: "step 0 (views V p) p q \<and> b = ((views V p ! i) k \<noteq> None)"
    then have st: "step 0 (views V p) p q" by simp
    show "post (if b then (q, Inr True) else first_has E k sids q)
      (\<lambda>q b. step 0 (views V p) p q \<and> b = (\<exists>i \<in> set (i # sids). (views V p ! i) k \<noteq> None))
      (\<lambda>q e. step 0 (views V p) p q \<and> (\<exists>i \<in> set (i # sids). \<not> fine (po_shards p ! i)))"
    proof (cases b)
      case True
      then show ?thesis using s by simp
    next
      case False
      have "set sids \<subseteq> {0..<length (po_shards q)}" using Cons.prems(2) frame_length [OF pool_step_frame [OF st]] by auto
      from Cons.IH [OF pool_step_ok0 [OF st Cons.prems(1)] this] show ?thesis
        using False s pool_step_trans [OF st] pool_step_views [OF st] lt pool_step_frame [OF st]
        by (auto simp: frame_def elim!: post_mono) metis+
    qed
  qed auto
qed

lemma list_shards_step:
  assumes "pool_ok ok 0 p" and "set sids \<subseteq> {0..<length (po_shards p)}" and "\<forall>a. after = Some a \<longrightarrow> pre \<le> a"
    and "sorted_wrt (<) (map fst merged)"
  shows "post (list_shards E pre after limit sids merged p)
    (\<lambda>q out. step 0 (views V p) p q \<and> sorted_wrt (<) (map fst out) \<and>
       (\<exists>K. (\<forall>i \<in> set sids. sorted_wrt (<) (K i) \<and> set (K i) = listed (views V p ! i) pre after) \<and>
          fst ` set out = fst ` set merged \<union> (\<Union>i \<in> set sids. set (take limit (K i)))))
    (\<lambda>q e. step 0 (views V p) p q \<and> (\<exists>i \<in> set sids. \<not> fine (po_shards p ! i)))"
  using assms
proof (induction sids arbitrary: p merged)
  case Nil
  then show ?case using pool_step_refl by simp
next
  case (Cons i sids)
  have i: "i < length (po_shards p)" and lt: "\<And>j. j \<in> set sids \<Longrightarrow> j < length (po_shards p)" using Cons.prems(2) by auto
  let ?Q = "\<lambda>out. \<exists>ks. sorted_wrt (<) ks \<and> set ks = listed (views V p ! i) pre after \<and> map fst out = take limit ks"
  have "post (shard_call (\<lambda>s. so_list (pe_ops E) s pre after limit) i p)
      (\<lambda>q out. step 0 (views V p) p q \<and> ?Q out) (\<lambda>q e. step 0 (views V p) p q \<and> \<not> fine (po_shards p ! i))"
    by (rule shard_read_step [OF Cons.prems(1) i])
      (use port_list [of "po_shards p ! i" pre after limit] Cons.prems(3) in \<open>auto simp: port_ops nth_views [OF i] elim!: post_mono\<close>)
  then show ?case unfolding list_shards.simps
  proof (rule post_and_then [OF post_mono])
    fix q and rows :: "(block_key \<times> nat) list"
    assume s: "step 0 (views V p) p q \<and> ?Q rows"
    then have st: "step 0 (views V p) p q" by simp
    obtain ks where ks: "sorted_wrt (<) ks" "set ks = listed (views V p ! i) pre after" "map fst rows = take limit ks" using s by blast
    let ?m = "fold (\<lambda>(k, sz). or_insert k sz) rows merged"
    note m = fold_or_insert [OF Cons.prems(4), of rows]
    have "set sids \<subseteq> {0..<length (po_shards q)}" using Cons.prems(2) frame_length [OF pool_step_frame [OF st]] by auto
    from Cons.IH [OF pool_step_ok0 [OF st Cons.prems(1)] this Cons.prems(3) conjunct1 [OF m]]
    show "post (list_shards E pre after limit sids ?m q)
      (\<lambda>q out. step 0 (views V p) p q \<and> sorted_wrt (<) (map fst out) \<and>
         (\<exists>K. (\<forall>i \<in> set (i # sids). sorted_wrt (<) (K i) \<and> set (K i) = listed (views V p ! i) pre after) \<and>
            fst ` set out = fst ` set merged \<union> (\<Union>i \<in> set (i # sids). set (take limit (K i)))))
      (\<lambda>q e. step 0 (views V p) p q \<and> (\<exists>i \<in> set (i # sids). \<not> fine (po_shards p ! i)))"
    proof (rule post_mono)
      fix q' out
      assume h: "step 0 (views V q) q q' \<and> sorted_wrt (<) (map fst out) \<and>
         (\<exists>K. (\<forall>i \<in> set sids. sorted_wrt (<) (K i) \<and> set (K i) = listed (views V q ! i) pre after) \<and>
            fst ` set out = fst ` set ?m \<union> (\<Union>i \<in> set sids. set (take limit (K i))))"
      then obtain K where K: "\<forall>i \<in> set sids. sorted_wrt (<) (K i) \<and> set (K i) = listed (views V p ! i) pre after"
          "fst ` set out = fst ` set ?m \<union> (\<Union>i \<in> set sids. set (take limit (K i)))" by (auto simp: pool_step_views [OF st])
      have rows: "fst ` set rows = set (take limit ks)" using ks(3) by (metis set_map)
      have same: "set (take limit ((K(i := ks)) j)) = set (take limit (K j))" if "j \<in> set sids" for j
        using K(1) that ks(1,2) by (cases "j = i") (metis fun_upd_same strict_sorted_equal, simp)
      have "(\<Union>j \<in> set sids. set (take limit ((K(i := ks)) j))) = (\<Union>j \<in> set sids. set (take limit (K j)))"
        using same by (intro SUP_cong) auto
      then have "fst ` set out = fst ` set merged \<union> (\<Union>j \<in> set (i # sids). set (take limit ((K(i := ks)) j)))"
        using K(2) m rows by auto
      moreover have "\<forall>j \<in> set (i # sids). sorted_wrt (<) ((K(i := ks)) j) \<and> set ((K(i := ks)) j) = listed (views V p ! j) pre after"
        using K(1) ks by auto
      ultimately show "step 0 (views V p) p q' \<and> sorted_wrt (<) (map fst out) \<and>
         (\<exists>K. (\<forall>i \<in> set (i # sids). sorted_wrt (<) (K i) \<and> set (K i) = listed (views V p ! i) pre after) \<and>
            fst ` set out = fst ` set merged \<union> (\<Union>i \<in> set (i # sids). set (take limit (K i))))"
        using h pool_step_trans [OF st, of 0 _ q'] pool_step_views [OF st] by (intro conjI exI [of _ "K(i := ks)"]) auto
    next
      fix q' e
      assume "step 0 (views V q) q q' \<and> (\<exists>i \<in> set sids. \<not> fine (po_shards q ! i))"
      then show "step 0 (views V p) p q' \<and> (\<exists>i \<in> set (i # sids). \<not> fine (po_shards p ! i))"
        using pool_step_trans [OF st, of 0 _ q'] pool_step_views [OF st] lt pool_step_frame [OF st] by (auto simp: frame_def)
    qed
  qed simp
qed

lemma pool_list_spec:
  assumes ok: "pool_ok ok 0 p" and after: "\<forall>a. after = Some a \<longrightarrow> pre \<le> a"
  shows "post (pool_list E pre after limit p)
    (\<lambda>q out. step 0 (views V p) p q \<and> finite (\<Union>i < length (po_shards p). listed (views V p ! i) pre after) \<and>
       map fst out = take limit (sorted_list_of_set (\<Union>i < length (po_shards p). listed (views V p ! i) pre after)))
    (\<lambda>q e. step 0 (views V p) p q \<and> (\<exists>i < length (po_shards p). \<not> fine (po_shards p ! i)))"
  unfolding pool_list_def
proof (rule post_and_then [OF post_mono [OF list_shards_step [OF ok _ after]]])
  let ?all = "[0..<length (po_shards p)]"
  fix q merged
  assume "step 0 (views V p) p q \<and> sorted_wrt (<) (map fst merged) \<and>
    (\<exists>K. (\<forall>i \<in> set ?all. sorted_wrt (<) (K i) \<and> set (K i) = listed (views V p ! i) pre after) \<and>
      fst ` set merged = fst ` set ([] :: (block_key \<times> nat) list) \<union> (\<Union>i \<in> set ?all. set (take limit (K i))))"
  then obtain K where K: "step 0 (views V p) p q" "sorted_wrt (<) (map fst merged)"
      "\<forall>i < length (po_shards p). sorted_wrt (<) (K i) \<and> set (K i) = listed (views V p ! i) pre after"
      "set (map fst merged) = (\<Union>i < length (po_shards p). set (take limit (K i)))" by (auto simp: atLeast0LessThan)
  from merged_take [OF K(3,2,4)] K(1)
  show "post (q, Inr (take limit merged))
    (\<lambda>q out. step 0 (views V p) p q \<and> finite (\<Union>i < length (po_shards p). listed (views V p ! i) pre after) \<and>
       map fst out = take limit (sorted_list_of_set (\<Union>i < length (po_shards p). listed (views V p ! i) pre after)))
    (\<lambda>q e. step 0 (views V p) p q \<and> (\<exists>i < length (po_shards p). \<not> fine (po_shards p ! i)))"
    by (simp add: take_map)
qed (use pool_step_views in auto)

lemma first_has_after:
  assumes "pool_ok ok 0 p" and s: "step 0 (views V p) p q" and "set sids \<subseteq> {0..<length (po_shards p)}"
  shows "post (first_has E k sids q) (\<lambda>q' b. step 0 (views V p) p q' \<and> b = (\<exists>i \<in> set sids. (views V p ! i) k \<noteq> None))
    (\<lambda>q' e. step 0 (views V p) p q' \<and> (\<exists>i < length (po_shards p). \<not> fine (po_shards p ! i)))"
proof (rule post_mono [OF first_has_step [OF pool_step_ok0 [OF s assms(1)]]])
  note f = pool_step_frame [OF s] and v = pool_step_views [OF s]
  show "set sids \<subseteq> {0..<length (po_shards q)}" using assms(3) frame_length [OF f] by simp
  fix q' x
  show "step 0 (views V q) q q' \<and> x = (\<exists>i \<in> set sids. (views V q ! i) k \<noteq> None) \<Longrightarrow>
    step 0 (views V p) p q' \<and> x = (\<exists>i \<in> set sids. (views V p ! i) k \<noteq> None)"
    using pool_step_trans [OF s, of 0 _ q'] by (simp add: v)
next
  fix q' e
  assume a: "step 0 (views V q) q q' \<and> (\<exists>i \<in> set sids. \<not> fine (po_shards q ! i))"
  then obtain i where "i \<in> set sids" "\<not> fine (po_shards q ! i)" by auto
  then have "i < length (po_shards p)" "\<not> fine (po_shards p ! i)" using assms(3) pool_step_frame [OF s] by (auto simp: frame_def)
  then show "step 0 (views V p) p q' \<and> (\<exists>i < length (po_shards p). \<not> fine (po_shards p ! i))"
    using a pool_step_trans [OF s, of 0 _ q'] pool_step_views [OF s] by auto
qed

lemma pool_has_spec:
  assumes ok: "pool_ok ok 0 p"
  shows "post (pool_has E k p) (\<lambda>q b. step 0 (views V p) p q \<and> b = (\<exists>i < length (po_shards p). (views V p ! i) k \<noteq> None))
    (\<lambda>q e. step 0 (views V p) p q \<and> (\<exists>i < length (po_shards p). \<not> fine (po_shards p ! i)))"
proof -
  obtain q reps where rep: "replicas_for E k p = (q, reps)" by fastforce
  note s0 = ranking_step [OF ok rep [unfolded replicas_for_def]]
  show ?thesis unfolding pool_has_def rep Let_def prod.case
  proof (rule post_and_then [OF post_mono [OF first_has_after [OF ok s0(1,3), of k]]])
    fix q1 b assume b: "step 0 (views V p) p q1 \<and> b = (\<exists>i \<in> set reps. (views V p ! i) k \<noteq> None)"
    then have N1: "length (po_shards q1) = length (po_shards p)" using frame_length pool_step_frame by blast
    have o: "set (others q1 reps) \<subseteq> {0..<length (po_shards p)}" by (auto simp: others_def N1)
    have "(\<exists>i \<in> set reps \<union> set (others q1 reps). (views V p ! i) k \<noteq> None) = (\<exists>i < length (po_shards p). (views V p ! i) k \<noteq> None)"
    proof -
      have "set reps \<union> set (others q1 reps) = {0..<length (po_shards p)}" using set_others [of reps q1] s0(3) N1 by auto
      then show ?thesis by (simp only:) auto
    qed
    then have all: "(\<exists>i < length (po_shards p). (views V p ! i) k \<noteq> None) = (b \<or> (\<exists>i \<in> set (others q1 reps). (views V p ! i) k \<noteq> None))"
      using b by blast
    show "post (if b then (q1, Inr True) else first_has E k (others q1 reps) q1)
      (\<lambda>q b. step 0 (views V p) p q \<and> b = (\<exists>i < length (po_shards p). (views V p ! i) k \<noteq> None))
      (\<lambda>q e. step 0 (views V p) p q \<and> (\<exists>i < length (po_shards p). \<not> fine (po_shards p ! i)))"
    proof (cases b)
      case False
      have "post (first_has E k (others q1 reps) q1) (\<lambda>q b. step 0 (views V p) p q \<and> b = (\<exists>i < length (po_shards p). (views V p ! i) k \<noteq> None))
        (\<lambda>q e. step 0 (views V p) p q \<and> (\<exists>i < length (po_shards p). \<not> fine (po_shards p ! i)))"
        by (rule post_mono [OF first_has_after [OF ok conjunct1 [OF b] o]]) (use False all in simp_all)
      with False show ?thesis by simp
    qed (use b all in simp)
  qed simp
qed

end

end
