(* ===== verification/Gc_Inv.thy ===== *)
theory Gc_Inv
  imports Engine_Gc
begin

text \<open>
  Garbage collection is invisible to readers: whatever writers do during a pass, and whichever
  write, flush, rename or unlink fails, the view afterwards is the view after the writers'
  operations alone.
\<close>

section \<open>The writers during a pass\<close>

fun client_ok :: "client_op \<Rightarrow> bool" where
  "client_ok (ClPut k body obj) \<longleftrightarrow> length k < 2 ^ 16 \<and> length body < 2 ^ 32"
| "client_ok (ClDelete k) \<longleftrightarrow> True"

definition sched_ok :: "(client_op list \<times> client_op list) list \<Rightarrow> bool" where
  "sched_ok sched \<longleftrightarrow> (\<forall>(b, m) \<in> set sched. (\<forall>c \<in> set b. client_ok c) \<and> (\<forall>c \<in> set m. client_ok c))"

definition sched_ops :: "(client_op list \<times> client_op list) list \<Rightarrow> nat" where
  "sched_ops sched = sum_list (map (\<lambda>(b, m). length b + length m) sched)"

text \<open>The abstract effect of a log.\<close>

fun apply_op :: "client_op \<times> bool \<Rightarrow> (block_key \<rightharpoonup> bytes) \<Rightarrow> (block_key \<rightharpoonup> bytes)" where
  "apply_op (c, False) V = V"
| "apply_op (ClPut k body obj, True) V = V(k \<mapsto> body)"
| "apply_op (ClDelete k, True) V = V(k := None)"

definition abs_run :: "(client_op \<times> bool) list \<Rightarrow> (block_key \<rightharpoonup> bytes) \<Rightarrow> (block_key \<rightharpoonup> bytes)" where
  "abs_run lg V = fold apply_op lg V"

lemma abs_run_snoc [simp]: "abs_run (lg @ [p]) V = apply_op p (abs_run lg V)" "abs_run [] V = V"
  by (simp_all add: abs_run_def)

section \<open>Quiet ingredients\<close>

lemma sealed_in_spec:
  "quiet_step d (fst (sealed_in dr a fs d)) \<and> (\<forall>(i, n) \<in> set (snd (sealed_in dr a fs d)). i \<noteq> a)"
proof (induction dr a fs d rule: sealed_in.induct)
  case (2 dr active dr' i c fs d)
  show ?case
  proof (cases "dr' = dr \<and> i \<noteq> active")
    case True
    obtain d1 r where t: "io_try d = (d1, r)" by fastforce
    obtain d2 rest where s: "sealed_in dr active fs d1 = (d2, rest)" by fastforce
    have "quiet_step d d1" using quiet_io_try [of d] by (simp add: t)
    moreover have "quiet_step d1 d2" "\<forall>(i, n) \<in> set rest. i \<noteq> active"
      using 2(1) [OF True t [symmetric]] by (simp_all add: s)
    ultimately show ?thesis using True quiet_trans by (auto simp: t s)
  qed (use 2 in auto)
qed simp

lemma sealed_segments_spec:
  assumes "\<not> ec_failover (en_cfg e)"
  obtains d' where "fst (sealed_segments e) = e\<lparr>en_disk := d'\<rparr>" "quiet_step (en_disk e) d'"
    "\<forall>(i, n) \<in> set (snd (sealed_segments e)). i \<noteq> sw_seg_id (en_disk e)"
proof -
  obtain d1 r where t: "io_try (en_disk e) = (d1, r)" by fastforce
  have q: "quiet_step (en_disk e) d1" using quiet_io_try [of "en_disk e"] by (simp add: t)
  have "quiet_step (en_disk e) (fst (sealed_dir Primary (en_disk e))) \<and>
    (\<forall>(i, n) \<in> set (snd (sealed_dir Primary (en_disk e))). i \<noteq> sw_seg_id (en_disk e))"
    using q sealed_in_spec [of d1 Primary "sw_seg_id d1" "fs_files d1"] quiet_trans [OF q]
    by (cases r) (auto simp: sealed_dir_def t quiet_sel(4) [OF q])
  then show thesis
    using assms that by (cases "sealed_dir Primary (en_disk e)") (auto simp: sealed_segments_def)
qed

lemma drop_discards_rows [simp]:
  "ix_addr (drop_discards E ids ix) = ix_addr ix" "ix_inline (drop_discards E ids ix) = ix_inline ix"
  by (simp_all add: drop_discards_def)

lemma bump_fold_rows [simp]:
  "ix_addr (fold (\<lambda>(i, n). bump_in E i n) xs ix) = ix_addr ix"
  "ix_inline (fold (\<lambda>(i, n). bump_in E i n) xs ix) = ix_inline ix"
  by (induction xs arbitrary: ix) (auto simp: bump_in_def)

text \<open>A transaction on the other tables.\<close>

lemma db_write_other:
  assumes inv: "engine_inv E e" and same: "\<And>ix. ix_addr (fst (f ix)) = ix_addr ix" "\<And>ix. ix_inline (fst (f ix)) = ix_inline ix"
  shows "post (db_write e f) (\<lambda>e' a. engine_step E 0 (view E e) e e' \<and> addr_rows E (en_index e') = addr_rows E (en_index e))
    (\<lambda>e' er. engine_step E 0 (view E e) e e' \<and> addr_rows E (en_index e') = addr_rows E (en_index e))"
  using db_write_post [of e f]
proof (rule post_mono)
  note i = engine_invD [OF inv]
  have st: "engine_step E 0 (view E e) e e'"
    if "quiet_step (en_disk e) (en_disk e')" "en_cfg e' = en_cfg e" "addr_rows E (en_index e') = addr_rows E (en_index e)"
      "inline_rows E (en_index e') = inline_rows E (en_index e)" "en_index_faults e' = en_index_faults e" for e'
    by (rule engine_step_quiet [OF inv that(1) i(1)]) (use that in auto)
  show "engine_step E 0 (view E e) e e' \<and> addr_rows E (en_index e') = addr_rows E (en_index e)"
    if "\<exists>d'. quiet_step (en_disk e) d' \<and> e' = e\<lparr>en_disk := d', en_index := fst (f (en_index e))\<rparr> \<and> a = snd (f (en_index e))" for e' a
    using that by (auto intro!: st simp: same)
  show "engine_step E 0 (view E e) e e' \<and> addr_rows E (en_index e') = addr_rows E (en_index e)"
    if "(\<exists>d'. quiet_step (en_disk e) d' \<and> e' = e\<lparr>en_disk := d'\<rparr>) \<and> \<not> calm (fs_faults (en_disk e))" for e' er
    using that by (auto intro!: st)
qed

section \<open>Unlinking a segment nobody points to\<close>

definition unreferenced :: "('t, 'm) engine_env \<Rightarrow> ('t, 'm) index \<Rightarrow> u32 \<Rightarrow> bool" where
  "unreferenced E ix i \<longleftrightarrow> (\<forall>k ae. row_entry E ix k = Some ae \<longrightarrow> ra_seg_id (ae_addr ae) \<noteq> i)"

lemma remove_file_spec:
  "(\<exists>d1. quiet_step d d1 \<and> (fst (remove_file Primary i d) = d1 \<or>
      fst (remove_file Primary i d) = d1\<lparr>fs_files := AList.delete (Primary, i) (fs_files d1)\<rparr>)) \<and>
   (\<forall>u. snd (remove_file Primary i d) = Inr u \<longrightarrow> file_at (fst (remove_file Primary i d)) Primary i = None)"
proof -
  obtain d1 r where t: "io_try d = (d1, r)" by fastforce
  have q: "quiet_step d d1" using quiet_io_try [of d] by (simp add: t)
  show ?thesis
    using q by (cases r; cases "file_at d1 Primary i") (auto simp: remove_file_def t file_at_def AList.delete_conv')
qed

lemma unlink_step:
  assumes inv: "engine_inv E e" and i: "i \<noteq> sw_seg_id (en_disk e)" and u: "unreferenced E (en_index e) i"
    and d': "fst (remove_file Primary i (en_disk e)) = d'"
  shows "engine_inv E (e\<lparr>en_disk := d'\<rparr>)" and "view E (e\<lparr>en_disk := d'\<rparr>) = view E e"
    and "sw_seg_id d' = sw_seg_id (en_disk e)" and "fs_read_faults d' = fs_read_faults (en_disk e)"
    and "file_at d' Primary j = file_at (en_disk e) Primary j \<or> file_at d' Primary j = None"
proof -
  let ?d = "en_disk e" and ?A = "addr_rows E (en_index e)" and ?I = "inline_rows E (en_index e)"
  note v = engine_invD [OF inv]
  obtain d1 where q: "quiet_step ?d d1" and or: "d' = d1 \<or> d' = d1\<lparr>fs_files := AList.delete (Primary, i) (fs_files d1)\<rparr>"
    using remove_file_spec [of ?d i] d' by auto
  have wf1: "disk_wf (ee_crc E) d1" by (rule disk_wf_quiet [OF q v(1)])
  show sel: "sw_seg_id d' = sw_seg_id ?d" "fs_read_faults d' = fs_read_faults ?d"
    using or quiet_sel [OF q] by auto
  have f: "\<And>dr j. (dr, j) \<noteq> (Primary, i) \<Longrightarrow> file_at d' dr j = file_at ?d dr j"
    using or quiet_sel(12) [OF q] by (auto simp: file_at_def AList.delete_conv' fun_eq_iff)
  show gone: "file_at d' Primary j = file_at ?d Primary j \<or> file_at d' Primary j = None" for j
    using f [of Primary j] or quiet_sel(12) [OF q] by (cases "j = i") (auto simp: file_at_def AList.delete_conv' fun_eq_iff)
  have wf: "disk_wf (ee_crc E) d'"
  proof -
    have "\<And>dr j c. file_at d' dr j = Some c \<Longrightarrow> file_at d1 dr j = Some c" "file_at d' Primary (sw_seg_id d1) = file_at d1 Primary (sw_seg_id d1)"
    proof -
      fix dr j c assume a: "file_at d' dr j = Some c"
      show "file_at d1 dr j = Some c"
        using a f [of dr j] gone [of i] quiet_sel(12) [OF q] by (cases "(dr, j) = (Primary, i)") auto
    next
      show "file_at d' Primary (sw_seg_id d1) = file_at d1 Primary (sw_seg_id d1)"
        using f [of Primary "sw_seg_id d1"] i quiet_sel(4,12) [OF q] by auto
    qed
    moreover have "sw_has_failover d' = sw_has_failover d1" "sw_active_dir d' = sw_active_dir d1" "sw_max_size d' = sw_max_size d1"
      "fs_append_faults d' = fs_append_faults d1" "sw_len d' = sw_len d1" "sw_seg_id d' = sw_seg_id d1"
      using or by auto
    moreover have "file_at d' Failover j = None" for j
      using f [of Failover j] disk_wfD(7) [OF v(1)] by simp
    ultimately show ?thesis using wf1 unfolding disk_wf_def by metis
  qed
  have ent: "entry_is E d' k ae b" if "entry_is E ?d k ae b" "ra_seg_id (ae_addr ae) \<noteq> i" for k ae b
  proof -
    from that(1) obtain r where r: "holds_rec (ee_crc E) ?d r" "rr_addr r = ae_addr ae"
      "rr_key r = k \<and> rr_crc r = ae_crc ae \<and> rr_flags r = ae_flags ae \<and> rr_logical_len r = ae_logical_len ae \<and>
       unpack E ae (rr_stored r) = Inr b \<and> length b = unat (ae_logical_len ae)" unfolding entry_is_def by blast
    have "file_at d' Primary (ra_seg_id (rr_addr r)) = file_at ?d Primary (ra_seg_id (rr_addr r))"
      using f that(2) r(2) by simp
    with r(1) have "holds_rec (ee_crc E) d' r" by (simp add: holds_rec_def)
    with r(2,3) show ?thesis unfolding entry_is_def by blast
  qed
  have rows: "rows_ok E d' ?A ?I"
    using v(3) u ent unfolding rows_ok_def unreferenced_def by (metis bind.bind_lunit)
  then show "engine_inv E (e\<lparr>en_disk := d'\<rparr>)" using wf v(2) by (simp add: engine_inv_def)
  have "view_of E d' ?A ?I k = view_of E ?d ?A ?I k" for k
  proof (cases "?A k")
    case (Some r)
    from rows_ok_entry [OF v(3,1) Some] obtain ae b where ae: "decode_addr r = Some ae" "entry_is E ?d k ae b"
      "view_of E ?d ?A ?I k = Some b" "?I k = None" by metis
    moreover have "ra_seg_id (ae_addr ae) \<noteq> i" using u [unfolded unreferenced_def, rule_format, of k ae] Some ae(1) by simp
    ultimately show ?thesis using Some entry_is_body [OF ent wf] by (simp add: view_of_def)
  qed (simp add: view_of_def split: option.split)
  then show "view E (e\<lparr>en_disk := d'\<rparr>) = view E e" by (simp add: view_def fun_eq_iff)
qed

section \<open>The state of a pass\<close>

text \<open>\<open>pass_ok E V s\<close>: the engine is consistent and shows the effect of the logged operations on \<open>V\<close>.\<close>

definition pass_ok :: "('t, 'm) engine_env \<Rightarrow> (block_key \<rightharpoonup> bytes) \<Rightarrow> ('t, 'm) gc_run \<Rightarrow> bool" where
  "pass_ok E V s \<longleftrightarrow> engine_inv E (gr_eng s) \<and> view E (gr_eng s) = abs_run (gr_log s) V \<and>
     calm (en_index_faults (gr_eng s)) \<and> calm (fs_read_faults (en_disk (gr_eng s))) \<and> sched_ok (gr_sched s)"

text \<open>
  \<open>scanning E c vid rs s\<close>: the scan of segment \<open>vid\<close> with contents \<open>c\<close> still has to visit \<open>rs\<close>;
  every row that points into the segment belongs to one of them.
\<close>

definition scanning ::
  "('t, 'm) engine_env \<Rightarrow> bytes \<Rightarrow> u32 \<Rightarrow> recovered_record list \<Rightarrow> ('t, 'm) gc_run \<Rightarrow> bool" where
  "scanning E c vid rs s \<longleftrightarrow>
     vid \<noteq> sw_seg_id (en_disk (gr_eng s)) \<and> (rs \<noteq> [] \<longrightarrow> vid < sw_seg_id (en_disk (gr_eng s))) \<and>
     file_at (en_disk (gr_eng s)) Primary vid = Some c \<and>
     set rs \<subseteq> set (fst (scan_records (ee_crc E) vid 0 c)) \<and>
     (\<forall>k ae. row_entry E (en_index (gr_eng s)) k = Some ae \<longrightarrow> ra_seg_id (ae_addr ae) = vid \<longrightarrow>
        (\<exists>r \<in> set rs. rr_key r = k \<and> rr_addr r = ae_addr ae))"

lemma room_mono: "room e n \<Longrightarrow> m \<le> n \<Longrightarrow> room e m"
  by (simp add: room_def)

text \<open>A step of the engine, below the active segment, keeps what remains to be visited.\<close>

lemma scanning_step:
  assumes sc: "scanning E c vid rs s" and st: "engine_step E n V (gr_eng s) (gr_eng s')"
    and lt: "vid < sw_seg_id (en_disk (gr_eng s))"
  shows "scanning E c vid rs s'" and "vid < sw_seg_id (en_disk (gr_eng s'))"
proof -
  let ?d = "en_disk (gr_eng s)" and ?d' = "en_disk (gr_eng s')"
  have k: "sealed_kept ?d ?d'" and old: "old_addrs E (sw_seg_id ?d) (en_index (gr_eng s)) (en_index (gr_eng s'))"
    using st by (simp_all add: engine_step_def)
  show lt': "vid < sw_seg_id ?d'" using lt k by (auto simp: sealed_kept_def word_less_nat_alt)
  have "\<exists>x \<in> set rs. rr_key x = k \<and> rr_addr x = ae_addr ae"
    if "row_entry E (en_index (gr_eng s')) k = Some ae" "ra_seg_id (ae_addr ae) = vid" for k ae
  proof -
    from old that lt obtain ae0 where "row_entry E (en_index (gr_eng s)) k = Some ae0" "ae_addr ae0 = ae_addr ae"
      unfolding old_addrs_def by blast
    moreover have "\<forall>k ae. row_entry E (en_index (gr_eng s)) k = Some ae \<longrightarrow> ra_seg_id (ae_addr ae) = vid \<longrightarrow>
        (\<exists>x \<in> set rs. rr_key x = k \<and> rr_addr x = ae_addr ae)" using sc unfolding scanning_def by blast
    ultimately show ?thesis using that(2) by metis
  qed
  then show "scanning E c vid rs s'"
    using sc lt' k lt unfolding scanning_def sealed_kept_def by simp
qed

lemma pass_ok_step:
  assumes "pass_ok E V s" and "engine_step E n (view E (gr_eng s)) (gr_eng s) (gr_eng s')"
    and "gr_log s' = gr_log s" and "sched_ok (gr_sched s')"
  shows "pass_ok E V s'"
  using assms engine_stepD [OF assms(2)] by (simp add: pass_ok_def)

context engine_laws
begin

lemma run_client_spec:
  assumes inv: "engine_inv E e" and room: "room e 2" and c: "client_ok c"
  shows "engine_step E 2 (apply_op (c, \<not> isl (snd (run_client E c e))) (view E e)) e (fst (run_client E c e))"
proof (cases c)
  case (ClPut k body obj)
  with c put_impl_spec [OF inv room, of k body obj] show ?thesis
    by (cases "put_impl E e k body obj"; cases "snd (put_impl E e k body obj)") (auto simp: run_client_def)
next
  case (ClDelete k)
  with delete_spec [OF inv, of k 2] show ?thesis
    by (cases "engine_delete E e k"; cases "snd (engine_delete E e k)") (auto simp: run_client_def)
qed

lemma run_clients_spec:
  assumes "pass_ok E V s" and "\<forall>c \<in> set cs. client_ok c" and "room (gr_eng s) (2 * length cs + n)"
  shows "engine_step E (2 * length cs) (view E (gr_eng (run_clients E cs s))) (gr_eng s) (gr_eng (run_clients E cs s)) \<and>
    pass_ok E V (run_clients E cs s) \<and> gr_sched (run_clients E cs s) = gr_sched s"
  using assms
proof (induction cs arbitrary: s)
  case Nil
  then show ?case using engine_step_refl [of E "gr_eng s" 0] by (simp add: pass_ok_def)
next
  case (Cons c cs)
  obtain e r where run: "run_client E c (gr_eng s) = (e, r)" by fastforce
  let ?s = "s\<lparr>gr_eng := e, gr_log := gr_log s @ [(c, \<not> isl r)]\<rparr>"
  have inv: "engine_inv E (gr_eng s)" using Cons.prems(1) by (simp add: pass_ok_def)
  have "room (gr_eng s) 2" using Cons.prems(3) by (rule room_mono) simp
  from run_client_spec [OF inv this, of c] Cons.prems(2)
  have st: "engine_step E 2 (apply_op (c, \<not> isl r) (view E (gr_eng s))) (gr_eng s) e" by (simp add: run)
  note d = engine_stepD [OF st]
  have ok: "pass_ok E V ?s" using Cons.prems(1) d by (simp add: pass_ok_def)
  have rm: "room (gr_eng ?s) (2 * length cs + n)" using d(7) [of "2 * length cs + n"] Cons.prems(3) by (simp add: add.assoc)
  have "engine_step E (2 * length cs) (view E (gr_eng (run_clients E cs ?s))) e (gr_eng (run_clients E cs ?s)) \<and>
    pass_ok E V (run_clients E cs ?s) \<and> gr_sched (run_clients E cs ?s) = gr_sched s"
    using Cons.IH [OF ok _ rm] Cons.prems(2) by simp
  then show ?case using engine_step_trans [OF st] by (simp add: run)
qed

text \<open>A row with the address of a scanned record is the row of that record.\<close>

lemma row_is_record:
  assumes inv: "engine_inv E e" and f: "file_at (en_disk e) Primary vid = Some c"
    and r: "r \<in> set (fst (scan_records (ee_crc E) vid 0 c))"
    and row: "row_entry E (en_index e) k = Some ae" and seg: "ra_seg_id (ae_addr ae) = ra_seg_id (rr_addr r)"
    and off: "ra_offset (ae_addr ae) = ra_offset (rr_addr r)"
  shows "rr_key r = k \<and> rr_addr r = ae_addr ae \<and> rr_flags r = ae_flags ae \<and> rr_logical_len r = ae_logical_len ae \<and>
    inline_rows E (en_index e) k = None \<and>
    (\<exists>b. unpack E ae (rr_stored r) = Inr b \<and> length b = unat (ae_logical_len ae) \<and> view E e k = Some b)"
proof -
  note i = engine_invD [OF inv]
  have c64: "length c < 2 ^ 64" using disk_wfD(8) [OF i(1) f] SEG_LIMIT_less by (auto simp: file_wf_def)
  have vid: "ra_seg_id (rr_addr r) = vid" by (rule scan_read(2) [OF r c64])
  from row obtain v where v: "addr_rows E (en_index e) k = Some v" "decode_addr v = Some ae"
    by (cases "addr_rows E (en_index e) k") auto
  from rows_ok_entry [OF i(3,1) v(1)] v(2) obtain b where
    ent: "entry_is E (en_disk e) k ae b" and b: "view E e k = Some b" and inl: "inline_rows E (en_index e) k = None"
    by (auto simp: view_def)
  from ent obtain r' where r': "holds_rec (ee_crc E) (en_disk e) r'" "rr_addr r' = ae_addr ae"
    "rr_key r' = k \<and> rr_flags r' = ae_flags ae \<and> rr_logical_len r' = ae_logical_len ae \<and>
     unpack E ae (rr_stored r') = Inr b \<and> length b = unat (ae_logical_len ae)" unfolding entry_is_def by blast
  then have "r' \<in> set (fst (scan_records (ee_crc E) vid 0 c))"
    using f seg vid by (auto simp: holds_rec_def)
  from scan_records_same_offset [OF r this _ c64] off r'(2) have "r' = r" by simp
  then show ?thesis using r' b inl by auto
qed

lemma gc_cas_spec:
  assumes inv: "engine_inv E e" and f: "file_at (en_disk e) Primary vid = Some c"
    and r: "r \<in> set (fst (scan_records (ee_crc E) vid 0 c))"
    and new: "holds_rec (ee_crc E) (en_disk e) \<lparr>rr_key = rr_key r, rr_addr = na, rr_crc = nc, rr_flags = rr_flags r,
       rr_logical_len = rr_logical_len r, rr_stored = rr_stored r\<rparr>" and seg: "ra_seg_id na \<noteq> vid"
  defines "ix' \<equiv> fst (gc_cas E r na nc (en_index e))"
  shows "rows_ok E (en_disk e) (addr_rows E ix') (inline_rows E ix')"
    and "view_of E (en_disk e) (addr_rows E ix') (inline_rows E ix') = view E e"
    and "row_entry E ix' k = Some ae \<Longrightarrow> ra_seg_id (ae_addr ae) = vid \<Longrightarrow>
      row_entry E (en_index e) k = Some ae \<and> \<not> (rr_key r = k \<and> rr_addr r = ae_addr ae)"
proof -
  let ?ix = "en_index e" and ?d = "en_disk e"
  note i = engine_invD [OF inv]
  have c64: "length c < 2 ^ 64" using disk_wfD(8) [OF i(1) f] SEG_LIMIT_less by (auto simp: file_wf_def)
  have vid: "ra_seg_id (rr_addr r) = vid" by (rule scan_read(2) [OF r c64])
  show "rows_ok E ?d (addr_rows E ix') (inline_rows E ix')"
    and "view_of E ?d (addr_rows E ix') (inline_rows E ix') = view E e"
    and "row_entry E ix' k = Some ae \<Longrightarrow> ra_seg_id (ae_addr ae) = vid \<Longrightarrow>
      row_entry E ?ix k = Some ae \<and> \<not> (rr_key r = k \<and> rr_addr r = ae_addr ae)"
  proof (atomize (full), cases "\<exists>ae0. row_entry E ?ix (rr_key r) = Some ae0 \<and> ra_seg_id (ae_addr ae0) = ra_seg_id (rr_addr r) \<and>
      ra_offset (ae_addr ae0) = ra_offset (rr_addr r)")
    case True
    then obtain ae0 where ae0: "row_entry E ?ix (rr_key r) = Some ae0" "ra_seg_id (ae_addr ae0) = ra_seg_id (rr_addr r)"
      "ra_offset (ae_addr ae0) = ra_offset (rr_addr r)" by blast
    let ?ne = "\<lparr>ae_addr = na, ae_crc = nc, ae_logical_len = rr_logical_len r, ae_flags = rr_flags r, ae_obj_logical = ae_obj_logical ae0\<rparr>"
    have rows': "addr_rows E ix' = (addr_rows E ?ix)(rr_key r \<mapsto> encode_addr ?ne)" "inline_rows E ix' = inline_rows E ?ix"
      unfolding ix'_def gc_cas_def using ae0 by (simp_all add: get_insert_fun)
    from row_is_record [OF inv f r ae0] obtain b where b: "unpack E ae0 (rr_stored r) = Inr b" "length b = unat (ae_logical_len ae0)"
      "view E e (rr_key r) = Some b" and eq: "rr_flags r = ae_flags ae0" "rr_logical_len r = ae_logical_len ae0"
      and inl: "inline_rows E ?ix (rr_key r) = None" by blast
    have "unpack E ?ne (rr_stored r) = unpack E ae0 (rr_stored r)" by (simp add: unpack_def eq split: option.split)
    then have "entry_is E ?d (rr_key r) ?ne b"
      unfolding entry_is_def using new b eq by (intro exI [of _ "\<lparr>rr_key = rr_key r, rr_addr = na, rr_crc = nc, rr_flags = rr_flags r,
       rr_logical_len = rr_logical_len r, rr_stored = rr_stored r\<rparr>"]) simp
    note ent = this
    have I: "(inline_rows E ?ix)(rr_key r := None) = inline_rows E ?ix" using inl by auto
    have "(view E e)(rr_key r \<mapsto> b) = view E e" using b(3) by auto
    with rows_ok_addr [OF i(3) decode_encode_addr ent] view_of_addr [OF decode_encode_addr ent i(1), of "addr_rows E ?ix" "inline_rows E ?ix"]
    have "rows_ok E ?d (addr_rows E ix') (inline_rows E ix')" "view_of E ?d (addr_rows E ix') (inline_rows E ix') = view E e"
      unfolding rows' I by (simp_all add: view_def)
    then show "rows_ok E ?d (addr_rows E ix') (inline_rows E ix') \<and> view_of E ?d (addr_rows E ix') (inline_rows E ix') = view E e \<and>
      (row_entry E ix' k = Some ae \<longrightarrow> ra_seg_id (ae_addr ae) = vid \<longrightarrow> row_entry E ?ix k = Some ae \<and> \<not> (rr_key r = k \<and> rr_addr r = ae_addr ae))"
      using seg by (auto simp: rows' split: if_splits)
  next
    case False
    then have "ix' = ?ix" unfolding ix'_def gc_cas_def by (auto split: option.split)
    then show "rows_ok E ?d (addr_rows E ix') (inline_rows E ix') \<and> view_of E ?d (addr_rows E ix') (inline_rows E ix') = view E e \<and>
      (row_entry E ix' k = Some ae \<longrightarrow> ra_seg_id (ae_addr ae) = vid \<longrightarrow> row_entry E ?ix k = Some ae \<and> \<not> (rr_key r = k \<and> rr_addr r = ae_addr ae))"
      using i(3) False by (auto simp: view_def)
  qed
qed

text \<open>Reads of the scan without faults.\<close>

definition scan_read_step :: "('t, 'm) gc_run \<Rightarrow> ('t, 'm) gc_run" where
  "scan_read_step s = s\<lparr>gr_eng := (gr_eng s)\<lparr>en_disk := (en_disk (gr_eng s))\<lparr>fs_read_faults := tl (fs_read_faults (en_disk (gr_eng s)))\<rparr>\<rparr>\<rparr>"

lemma scan_read_calm:
  "calm (fs_read_faults (en_disk (gr_eng s))) \<Longrightarrow> on_eng (on_disk read_try) s = (scan_read_step s, Inr ())"
  by (simp add: on_eng_def on_disk_def read_try_def calm_next scan_read_step_def)

lemma scan_read_step_ok:
  assumes ok: "pass_ok E V s"
  shows "engine_step E 0 (view E (gr_eng s)) (gr_eng s) (gr_eng (scan_read_step s))" and "pass_ok E V (scan_read_step s)"
proof -
  have inv: "engine_inv E (gr_eng s)" and c: "calm (fs_read_faults (en_disk (gr_eng s)))" using ok by (simp_all add: pass_ok_def)
  have "read_only (en_disk (gr_eng s)) ((en_disk (gr_eng s))\<lparr>fs_read_faults := tl (fs_read_faults (en_disk (gr_eng s)))\<rparr>)"
    by (rule read_onlyI) (use calm_next(2) in blast)
  from engine_step_read_only [OF inv this]
  show st: "engine_step E 0 (view E (gr_eng s)) (gr_eng s) (gr_eng (scan_read_step s))" by (simp add: scan_read_step_def)
  show "pass_ok E V (scan_read_step s)"
    by (rule pass_ok_step [OF ok st]) (use ok in \<open>simp_all add: scan_read_step_def pass_ok_def\<close>)
qed

text \<open>One visited record: afterwards no row points to it any more, and the view has not moved.\<close>

lemma gc_visit_dead:
  assumes ok: "pass_ok E V s" and sc: "scanning E c vid (r # rs) s"
    and l: "lookup_row E (en_index (gr_eng s)) (rr_key r) = l" "\<not> points_to l (rr_addr r)"
  shows "scanning E c vid rs s"
proof -
  have inv: "engine_inv E (gr_eng s)" using ok by (simp add: pass_ok_def)
  have dead: "\<not> (rr_key r = k \<and> rr_addr r = ae_addr ae)" if row: "row_entry E (en_index (gr_eng s)) k = Some ae" for k ae
  proof
    assume eq: "rr_key r = k \<and> rr_addr r = ae_addr ae"
    from row obtain v where v: "addr_rows E (en_index (gr_eng s)) k = Some v" "decode_addr v = Some ae"
      by (cases "addr_rows E (en_index (gr_eng s)) k") auto
    moreover from this have "inline_rows E (en_index (gr_eng s)) k = None"
      using engine_invD(3) [OF inv] unfolding rows_ok_def by (metis option.distinct(1))
    ultimately have "lookup_row E (en_index (gr_eng s)) k = Inr (LAddr ae)" by (simp add: lookup_row_def)
    with l eq show False by (auto simp: points_to_def)
  qed
  have "\<exists>x \<in> set rs. rr_key x = k \<and> rr_addr x = ae_addr ae"
    if "row_entry E (en_index (gr_eng s)) k = Some ae" "ra_seg_id (ae_addr ae) = vid" for k ae
    using sc that dead [OF that(1)] unfolding scanning_def by fastforce
  then show ?thesis using sc unfolding scanning_def by auto
qed

lemma scanning_clients:
  assumes ok: "pass_ok E V s" and sc: "scanning E c vid rs s" and cs: "\<forall>x \<in> set cs. client_ok x"
    and lt: "vid < sw_seg_id (en_disk (gr_eng s))" and rm: "room (gr_eng s) (2 * length cs + n)"
  defines "s' \<equiv> run_clients E cs s"
  shows "pass_ok E V s'" "scanning E c vid rs s'" "vid < sw_seg_id (en_disk (gr_eng s'))" "gr_sched s' = gr_sched s"
    "grows (en_disk (gr_eng s)) (en_disk (gr_eng s'))" "room (gr_eng s') n"
proof -
  from run_clients_spec [OF ok cs rm] have st: "engine_step E (2 * length cs) (view E (gr_eng s')) (gr_eng s) (gr_eng s')"
    and ok': "pass_ok E V s'" and sch: "gr_sched s' = gr_sched s" by (auto simp: s'_def)
  show "pass_ok E V s'" "gr_sched s' = gr_sched s" by (rule ok', rule sch)
  show "scanning E c vid rs s'" "vid < sw_seg_id (en_disk (gr_eng s'))" using scanning_step [OF sc st lt] by auto
  show "grows (en_disk (gr_eng s)) (en_disk (gr_eng s'))" using st by (simp add: engine_step_def)
  show "room (gr_eng s') n" by (rule engine_stepD(7) [OF st rm])
qed

text \<open>Copy made, others did something, then the swap.\<close>

lemma gc_swap_spec:
  assumes ok: "pass_ok E V s" and sc: "scanning E c vid (r # rs) s" and cs: "\<forall>x \<in> set btw. client_ok x"
    and lt: "vid < sw_seg_id (en_disk (gr_eng s))" and rm: "room (gr_eng s) (2 * length btw + n)"
    and new: "appended (ee_crc E) (rr_key r) (rr_stored r) (rr_logical_len r) (rr_flags r) (en_disk (gr_eng s)) na nc"
  shows "post (gc_swap E r btw na nc s)
    (\<lambda>s' u. pass_ok E V s' \<and> scanning E c vid rs s' \<and> room (gr_eng s') n \<and> gr_sched s' = gr_sched s) (\<lambda>s' er. pass_ok E V s')"
proof -
  let ?s1 = "run_clients E btw s"
  note s1 = scanning_clients [OF ok sc cs lt rm]
  let ?e = "gr_eng ?s1" and ?f = "gc_cas E r na nc"
  have inv: "engine_inv E ?e" using s1(1) by (simp add: pass_ok_def)
  have f: "file_at (en_disk ?e) Primary vid = Some c" and rin: "r \<in> set (fst (scan_records (ee_crc E) vid 0 c))"
    using s1(2) by (simp_all add: scanning_def)
  have wf: "disk_wf (ee_crc E) (en_disk (gr_eng s))" using ok engine_invD(1) by (auto simp: pass_ok_def)
  have seg: "ra_seg_id na \<noteq> vid" using new lt by (auto simp: appended_def)
  have held: "holds_rec (ee_crc E) (en_disk ?e) \<lparr>rr_key = rr_key r, rr_addr = na, rr_crc = nc, rr_flags = rr_flags r,
       rr_logical_len = rr_logical_len r, rr_stored = rr_stored r\<rparr>"
    using new holds_rec_grows [OF _ wf s1(5)] by (simp add: appended_def)
  note cas = gc_cas_spec [OF inv f rin held seg]
  have fin: "pass_ok E V s' \<and> room (gr_eng s') n"
    if "en_disk (gr_eng s') = d'" "quiet_step (en_disk ?e) d'" "en_index (gr_eng s') = ix"
      "rows_ok E (en_disk ?e) (addr_rows E ix) (inline_rows E ix)" "view_of E (en_disk ?e) (addr_rows E ix) (inline_rows E ix) = view E ?e"
      "gr_log s' = gr_log ?s1" "gr_sched s' = gr_sched ?s1" "en_cfg (gr_eng s') = en_cfg ?e" "en_index_faults (gr_eng s') = en_index_faults ?e" for s' d' ix
  proof -
    note q = quiet_sel [OF that(2)] and i = engine_invD [OF inv]
    have d': "disk_wf (ee_crc E) d'" "grows (en_disk ?e) d'" using disk_wf_quiet [OF that(2) i(1)] grows_quiet [OF that(2)] by auto
    have "rows_ok E d' (addr_rows E ix) (inline_rows E ix)" by (rule rows_ok_grows [OF that(4) i(1) d'(2)])
    moreover have "view_of E d' (addr_rows E ix) (inline_rows E ix) = view E ?e"
      using view_of_grows [OF that(4) i(1) d'(2,1)] that(5) by simp
    ultimately show ?thesis
      using that s1(1,6) d'(1) i(2) q by (auto simp: pass_ok_def engine_inv_def view_def room_def)
  qed
  have done1: "scanning E c vid rs s'" if "en_disk (gr_eng s') = d'" "quiet_step (en_disk ?e) d'"
    "en_index (gr_eng s') = fst (?f (en_index ?e))" for s' d'
  proof -
    have "\<exists>x \<in> set rs. rr_key x = k \<and> rr_addr x = ae_addr ae"
      if "row_entry E (fst (?f (en_index ?e))) k = Some ae" "ra_seg_id (ae_addr ae) = vid" for k ae
      using cas(3) [OF that] s1(2) that(2) unfolding scanning_def by fastforce
    then show ?thesis using s1(2,3) that quiet_sel [OF that(2)] unfolding scanning_def by auto
  qed
  obtain e' x where w: "db_write ?e ?f = (e', x)" by fastforce
  let ?g = "gc_swap E r btw na nc s"
  have g: "gr_eng (fst ?g) = e'" "gr_log (fst ?g) = gr_log ?s1" "gr_sched (fst ?g) = gr_sched ?s1" "isl (snd ?g) = isl x"
    by (cases x; auto simp: gc_swap_def on_eng_def w split: bool.split)+
  show ?thesis
  proof (cases x)
    case (Inl er)
    with db_write_post [of ?e ?f] w obtain d' where d': "quiet_step (en_disk ?e) d'" "e' = ?e\<lparr>en_disk := d'\<rparr>" by auto
    have "pass_ok E V (fst ?g)"
      by (rule conjunct1 [OF fin [OF _ d'(1) _ engine_invD(3) [OF inv] view_def [symmetric]]]) (simp_all add: g d'(2))
    then show ?thesis using g(4) Inl by (cases "snd ?g") (simp_all add: post_def)
  next
    case (Inr b)
    with db_write_post [of ?e ?f] w obtain d' where d': "quiet_step (en_disk ?e) d'"
      "e' = ?e\<lparr>en_disk := d', en_index := fst (?f (en_index ?e))\<rparr>" by auto
    have "pass_ok E V (fst ?g) \<and> room (gr_eng (fst ?g)) n"
      by (rule fin [OF _ d'(1) _ cas(1,2)]) (simp_all add: g d'(2))
    moreover have "scanning E c vid rs (fst ?g)" by (rule done1 [OF _ d'(1)]) (simp_all add: g d'(2))
    ultimately show ?thesis using g(3,4) s1(4) Inr by (cases "snd ?g") (simp_all add: post_def)
  qed
qed

text \<open>The visit of one record. An error leaves a consistent engine, too.\<close>

lemma gc_visit_spec:
  assumes ok: "pass_ok E V s" and sc: "scanning E c vid (r # rs) s" and rm: "room (gr_eng s) (Suc (2 * sched_ops (gr_sched s) + n))"
  shows "post (gc_visit E r s)
    (\<lambda>s' u. pass_ok E V s' \<and> scanning E c vid rs s' \<and> room (gr_eng s') (2 * sched_ops (gr_sched s') + n)) (\<lambda>s' er. pass_ok E V s')"
proof -
  obtain bef btw where bm: "(case gr_sched s of [] \<Rightarrow> ([], []) | p # ps \<Rightarrow> p) = (bef, btw)" by fastforce
  let ?s0 = "s\<lparr>gr_sched := tl (gr_sched s)\<rparr>" and ?s1 = "run_clients E bef (s\<lparr>gr_sched := tl (gr_sched s)\<rparr>)"
  let ?n = "2 * sched_ops (tl (gr_sched s)) + n"
  have cs: "\<forall>x \<in> set bef. client_ok x" "\<forall>x \<in> set btw. client_ok x" "sched_ok (tl (gr_sched s))"
    and ops: "sched_ops (gr_sched s) = length bef + length btw + sched_ops (tl (gr_sched s))"
    using ok bm by (cases "gr_sched s"; force simp: pass_ok_def sched_ok_def sched_ops_def)+
  have ok0: "pass_ok E V ?s0" using ok cs(3) by (simp add: pass_ok_def)
  have lt: "vid < sw_seg_id (en_disk (gr_eng ?s0))" and sc0: "scanning E c vid (r # rs) ?s0" using sc by (simp_all add: scanning_def)
  have rm0: "room (gr_eng ?s0) (2 * length bef + Suc (2 * length btw + ?n))" using rm ops by (simp add: algebra_simps)
  note s1 = scanning_clients [OF ok0 sc0 cs(1) lt rm0]
  have c1: "calm (en_index_faults (gr_eng ?s1))" using s1(1) by (simp add: pass_ok_def)
  let ?s2 = "?s1\<lparr>gr_eng := next_read (gr_eng ?s1)\<rparr>" and ?l = "lookup_row E (en_index (gr_eng ?s1)) (rr_key r)"
  have look: "on_eng (\<lambda>e. lookup E e (rr_key r)) ?s1 = (?s2, ?l)" by (simp add: on_eng_def lookup_calm [OF c1])
  have ok2: "pass_ok E V ?s2" using s1(1) calm_next(2) [OF c1] by (simp add: pass_ok_def next_read_inv)
  have sc2: "scanning E c vid (r # rs) ?s2" and lt2: "vid < sw_seg_id (en_disk (gr_eng ?s2))"
    and rm2: "room (gr_eng ?s2) (Suc (2 * length btw + ?n))" and sch2: "gr_sched ?s2 = tl (gr_sched s)"
    using s1(2,3,4,6) by (simp_all add: scanning_def room_def)
  have inv2: "engine_inv E (gr_eng ?s2)" using ok2 by (simp add: pass_ok_def)
  have rm2': "room (gr_eng ?s2) (2 * length btw + ?n)" and one: "room (gr_eng ?s2) 1" by (rule room_mono [OF rm2]; simp)+
  show ?thesis
  proof (cases "points_to ?l (rr_addr r)")
    case False
    have "scanning E c vid rs ?s2" by (rule gc_visit_dead [OF ok2 sc2, of ?l]) (use False in simp_all)
    from scanning_clients [OF ok2 this cs(2) lt2 rm2'] False sch2 show ?thesis
      by (simp add: gc_visit_def Let_def bm look)
  next
    case True
    have rin: "r \<in> set (fst (scan_records (ee_crc E) vid 0 c))" and f2: "file_at (en_disk (gr_eng ?s2)) Primary vid = Some c"
      using sc2 by (simp_all add: scanning_def)
    have fits: "rec_fits (rr_key r) (rr_stored r)"
      using scan_read(3) [OF rin] disk_wfD(8) [OF engine_invD(1) [OF inv2] f2] SEG_LIMIT_less by (auto simp: file_wf_def)
    let ?app = "on_disk (append_with_flags (ee_crc E) (rr_key r) (rr_stored r) (rr_logical_len r) (rr_flags r))"
    obtain e3 x where e3: "?app (gr_eng ?s2) = (e3, x)" by fastforce
    let ?s3 = "?s2\<lparr>gr_eng := e3\<rparr>"
    note ap = append_step [OF inv2 one fits, of "rr_logical_len r" "rr_flags r", unfolded e3]
    have st3: "engine_step E 1 (view E (gr_eng ?s2)) (gr_eng ?s2) (gr_eng ?s3)" using ap by (cases x) auto
    have ok3: "pass_ok E V ?s3" by (rule pass_ok_step [OF ok2 st3]) (use ok2 in \<open>simp_all add: pass_ok_def\<close>)
    have rm3: "room (gr_eng ?s3) (2 * length btw + ?n)" by (rule engine_stepD(7) [OF st3]) (use rm2 in simp)
    note sc3 = scanning_step [OF sc2 st3 lt2]
    have app: "on_eng ?app ?s2 = (?s3, x)" by (simp add: on_eng_def e3 [simplified])
    have swap: "post (gc_swap E r btw na nc ?s3) (\<lambda>s' u. pass_ok E V s' \<and> scanning E c vid rs s' \<and> room (gr_eng s') (2 * sched_ops (gr_sched s') + n)) (\<lambda>s' er. pass_ok E V s')"
      if "x = Inr (na, nc)" for na nc
      by (rule post_mono [OF gc_swap_spec [OF ok3 sc3(1) cs(2) sc3(2) rm3]]) (use ap that sch2 in auto)
    show ?thesis
      using True ok3 swap by (cases x) (auto simp: gc_visit_def Let_def bm look app)
  qed
qed

lemma gc_fold_spec:
  assumes "pass_ok E V s" and "scanning E c vid rs s" and "room (gr_eng s) (length rs + 2 * sched_ops (gr_sched s) + n)"
  shows "post (scan_fold (on_eng (on_disk read_try)) (gc_visit E) rs s)
    (\<lambda>s' u. pass_ok E V s' \<and> scanning E c vid [] s') (\<lambda>s' er. pass_ok E V s')"
  using assms
proof (induction rs arbitrary: s)
  case Nil
  have "scanning E c vid [] (scan_read_step s)" using Nil(2) by (simp add: scanning_def scan_read_step_def)
  with Nil scan_read_step_ok(2) [OF Nil(1)] show ?case
    by (simp add: scan_read_calm pass_ok_def)
next
  case (Cons r rs)
  let ?s1 = "scan_read_step s" and ?s2 = "scan_read_step (scan_read_step s)"
  have ok1: "pass_ok E V ?s1" and ok2: "pass_ok E V ?s2" using scan_read_step_ok(2) Cons.prems(1) by blast+
  have c: "calm (fs_read_faults (en_disk (gr_eng s)))" "calm (fs_read_faults (en_disk (gr_eng ?s1)))"
    using Cons.prems(1) ok1 by (simp_all add: pass_ok_def)
  have sc: "scanning E c vid (r # rs) ?s2" and rm: "room (gr_eng ?s2) (Suc (2 * sched_ops (gr_sched ?s2) + (length rs + n)))"
    using Cons.prems(2,3) by (simp_all add: scanning_def scan_read_step_def room_def)
  have "post (and_then (gc_visit E r ?s2) (\<lambda>_ s. scan_fold (on_eng (on_disk read_try)) (gc_visit E) rs s))
    (\<lambda>s' u. pass_ok E V s' \<and> scanning E c vid [] s') (\<lambda>s' er. pass_ok E V s')"
    by (rule post_and_then [OF gc_visit_spec [OF ok2 sc rm]]) (auto intro: Cons.IH simp: algebra_simps)
  then show ?case by (simp add: scan_read_calm c)
qed

lemma gc_scan_spec:
  assumes ok: "pass_ok E V s" and v: "vid \<noteq> sw_seg_id (en_disk (gr_eng s))"
    and rm: "\<And>c. file_at (en_disk (gr_eng s)) Primary vid = Some c \<Longrightarrow>
      room (gr_eng s) (length (fst (scan_records (ee_crc E) vid 0 c)) + 2 * sched_ops (gr_sched s))"
  shows "post (gc_scan E Primary vid s)
    (\<lambda>s' u. pass_ok E V s' \<and> vid \<noteq> sw_seg_id (en_disk (gr_eng s')) \<and> unreferenced E (en_index (gr_eng s')) vid)
    (\<lambda>s' er. pass_ok E V s')"
proof -
  let ?s1 = "scan_read_step s"
  have ok1: "pass_ok E V ?s1" by (rule scan_read_step_ok(2) [OF ok])
  have inv: "engine_inv E (gr_eng ?s1)" using ok1 by (simp add: pass_ok_def)
  note i = engine_invD [OF inv]
  have calm: "calm (fs_read_faults (en_disk (gr_eng s)))" using ok by (simp add: pass_ok_def)
  show ?thesis
  proof (cases "file_at (en_disk (gr_eng ?s1)) Primary vid")
    case None
    with ok1 show ?thesis by (simp add: gc_scan_def scan_read_calm [OF calm])
  next
    case (Some c)
    let ?rs = "fst (scan_records (ee_crc E) vid 0 c)"
    have "\<exists>r \<in> set ?rs. rr_key r = k \<and> rr_addr r = ae_addr ae"
      if row: "row_entry E (en_index (gr_eng ?s1)) k = Some ae" and seg: "ra_seg_id (ae_addr ae) = vid" for k ae
    proof -
      from row obtain x where x: "addr_rows E (en_index (gr_eng ?s1)) k = Some x" "decode_addr x = Some ae"
        by (cases "addr_rows E (en_index (gr_eng ?s1)) k") auto
      from rows_ok_entry [OF i(3,1) x(1)] x(2) obtain b where "entry_is E (en_disk (gr_eng ?s1)) k ae b" by auto
      then show ?thesis using Some seg unfolding entry_is_def holds_rec_def by auto
    qed
    moreover have "?rs \<noteq> [] \<longrightarrow> vid < sw_seg_id (en_disk (gr_eng ?s1))"
      using disk_wfD(9) [OF i(1) Some] v
      by (cases vid "sw_seg_id (en_disk (gr_eng s))" rule: linorder_cases) (auto simp: scan_read_step_def)
    ultimately have sc: "scanning E c vid ?rs ?s1"
      using v Some by (simp add: scanning_def) (simp add: scan_read_step_def)
    have "room (gr_eng ?s1) (length ?rs + 2 * sched_ops (gr_sched ?s1) + 0)"
      using rm [of c] Some by (simp add: scan_read_step_def room_def)
    from gc_fold_spec [OF ok1 sc this] show ?thesis
      by (simp add: gc_scan_def scan_read_calm [OF calm] Some, elim post_mono) (auto simp: scanning_def unreferenced_def)
  qed
qed

end

section \<open>After the scan\<close>

text \<open>\<open>tidy E e e'\<close>: nothing a reader sees has changed; files may have disappeared.\<close>

definition tidy :: "('t, 'm) engine_env \<Rightarrow> ('t, 'm) engine \<Rightarrow> ('t, 'm) engine \<Rightarrow> bool" where
  "tidy E e e' \<longleftrightarrow> engine_inv E e' \<and> view E e' = view E e \<and> addr_rows E (en_index e') = addr_rows E (en_index e) \<and>
     sw_seg_id (en_disk e') = sw_seg_id (en_disk e) \<and> (calm (en_index_faults e) \<longrightarrow> calm (en_index_faults e')) \<and>
     (calm (fs_read_faults (en_disk e)) \<longrightarrow> calm (fs_read_faults (en_disk e'))) \<and>
     (\<forall>j. file_at (en_disk e') Primary j = file_at (en_disk e) Primary j \<or> file_at (en_disk e') Primary j = None)"

lemma tidy_refl: "engine_inv E e \<Longrightarrow> tidy E e e"
  by (simp add: tidy_def)

lemma tidy_trans:
  assumes "tidy E a b" and "tidy E b c"
  shows "tidy E a c"
proof -
  have "file_at (en_disk c) Primary j = file_at (en_disk a) Primary j \<or> file_at (en_disk c) Primary j = None" for j
    using assms unfolding tidy_def by metis
  then show ?thesis using assms by (simp add: tidy_def)
qed

lemma tidy_quiet:
  assumes inv: "engine_inv E e" and q: "quiet_step (en_disk e) (en_disk e')" and "en_cfg e' = en_cfg e"
    and "addr_rows E (en_index e') = addr_rows E (en_index e)" "inline_rows E (en_index e') = inline_rows E (en_index e)"
    and "en_index_faults e' = en_index_faults e"
  shows "tidy E e e'"
proof -
  have "engine_step E 0 (view E e) e e'"
    by (rule engine_step_quiet [OF inv q engine_invD(1) [OF inv]]) (use assms in simp_all)
  from engine_stepD [OF this] show ?thesis using assms(3-6) quiet_sel [OF q] by (simp add: tidy_def)
qed

lemma tidy_db_write:
  assumes inv: "engine_inv E e" and same: "\<And>ix. ix_addr (fst (f ix)) = ix_addr ix" "\<And>ix. ix_inline (fst (f ix)) = ix_inline ix"
  shows "tidy E e (fst (db_write e f))"
  using db_write_post [of e f] inv
  by (cases "db_write e f"; cases "snd (db_write e f)") (auto intro!: tidy_quiet simp: same)

lemma tidy_unlink:
  assumes inv: "engine_inv E e" and "i \<noteq> sw_seg_id (en_disk e)" and "unreferenced E (en_index e) i"
  shows "tidy E e (fst (on_disk (remove_file Primary i) e))"
    and "snd (on_disk (remove_file Primary i) e) = Inr u \<Longrightarrow> file_at (en_disk (fst (on_disk (remove_file Primary i) e))) Primary i = None"
proof -
  note s = unlink_step [OF assms refl] and r = remove_file_spec [of "en_disk e" i]
  show "tidy E e (fst (on_disk (remove_file Primary i) e))"
    using s by (auto simp: tidy_def on_disk_def case_prod_unfold)
  show "file_at (en_disk (fst (on_disk (remove_file Primary i) e))) Primary i = None" if "snd (on_disk (remove_file Primary i) e) = Inr u"
    using r that by (simp add: on_disk_def case_prod_unfold)
qed

lemma tidy_flush: "engine_inv E e \<Longrightarrow> tidy E e (fst (engine_flush e))"
  using on_disk_quiet_post [of e seg_flush] quiet_post_flush [OF quiet_refl, of "en_disk e"]
  by (cases "on_disk seg_flush e"; cases "snd (on_disk seg_flush e)") (auto simp: engine_flush_def intro!: tidy_quiet)

lemma tidy_read: "engine_inv E e \<Longrightarrow> tidy E e (fst (db_read e f))"
  using db_read_post [of e f]
  by (cases "db_read e f"; cases "snd (db_read e f)") (auto simp: tidy_def engine_inv_def view_def)

lemma unreferenced_cong: "addr_rows E ix' = addr_rows E ix \<Longrightarrow> unreferenced E ix' i = unreferenced E ix i"
  by (simp add: unreferenced_def)

lemma ref_add_keys: "fst ` set (ref_add i refs) = insert i (fst ` set refs)"
  by (induction i refs rule: ref_add.induct) auto

lemma ref_rows_keys:
  "fst ` set (ref_rows rows) = {ra_seg_id (ae_addr ae) | ae. \<exists>k v. (k, v) \<in> set rows \<and> decode_addr v = Some ae}"
proof -
  let ?f = "\<lambda>(k, v) refs. case decode_addr v of None \<Rightarrow> refs | Some ae \<Rightarrow> ref_add (ra_seg_id (ae_addr ae)) refs"
  have "fst ` set (fold ?f rows refs) =
    fst ` set refs \<union> {ra_seg_id (ae_addr ae) | ae. \<exists>k v. (k, v) \<in> set rows \<and> decode_addr v = Some ae}" for refs
  proof (induction rows arbitrary: refs)
    case (Cons r rows)
    obtain k v where r: "r = (k, v)" by fastforce
    show ?case
      unfolding r by (simp add: Cons.IH, cases "decode_addr v") (auto simp: ref_add_keys)
  qed simp
  from this [of "[]"] show ?thesis by (simp add: ref_rows_def)
qed

context engine_laws
begin

lemma referenced_spec:
  assumes inv: "engine_inv E e"
  shows "post (referenced_segments E e) (\<lambda>e' refs. tidy E e e' \<and> en_cfg e' = en_cfg e \<and>
      (\<forall>i. i \<notin> fst ` set refs \<longrightarrow> unreferenced E (en_index e') i)) (\<lambda>e' er. tidy E e e')"
proof -
  have un: "unreferenced E ix i" if "i \<notin> fst ` set (ref_rows (kv_range (ee_kv E) (ix_addr ix) []))" for ix :: "('t, 'm) index" and i
    unfolding unreferenced_def
  proof (intro allI impI notI)
    fix k ae assume row: "row_entry E ix k = Some ae" and seg: "ra_seg_id (ae_addr ae) = i"
    then obtain v where "addr_rows E ix k = Some v" "decode_addr v = Some ae" by (cases "addr_rows E ix k") auto
    then have "\<exists>k v. (k, v) \<in> set (kv_range (ee_kv E) (ix_addr ix) []) \<and> decode_addr v = Some ae"
      by (auto simp: rows.kv_range_set)
    with that seg show False by (auto simp: ref_rows_keys)
  qed
  show ?thesis
    using tidy_read [OF inv, of "\<lambda>ix. ref_rows (kv_range (ee_kv E) (ix_addr ix) [])"] un
      db_read_post [of e "\<lambda>ix. ref_rows (kv_range (ee_kv E) (ix_addr ix) [])"]
    unfolding referenced_segments_def
    by (cases "db_read e (\<lambda>ix. ref_rows (kv_range (ee_kv E) (ix_addr ix) []))";
        cases "snd (db_read e (\<lambda>ix. ref_rows (kv_range (ee_kv E) (ix_addr ix) [])))") auto
qed

lemma sweep_files_spec:
  assumes "engine_inv E e" and "\<forall>(i, n) \<in> set ss. i \<noteq> sw_seg_id (en_disk e)"
    and "\<forall>i. i \<notin> fst ` set refs \<longrightarrow> unreferenced E (en_index e) i"
  shows "tidy E e (fst (sweep_files E refs ss rep removed e)) \<and> victim_seg (fst (snd (sweep_files E refs ss rep removed e))) = victim_seg rep"
  using assms
proof (induction E refs ss rep removed e rule: sweep_files.induct)
  case (1 E refs rep removed e)
  then show ?case by (simp add: tidy_refl)
next
  case (2 E refs i sz ss rep removed e)
  show ?case
  proof (cases "i \<in> fst ` set refs")
    case True
    have eq: "sweep_files E refs ((i, sz) # ss) rep removed e = sweep_files E refs ss rep removed e"
      unfolding sweep_files.simps(2) by (rule if_P [OF True])
    have "\<forall>(i, n) \<in> set ss. i \<noteq> sw_seg_id (en_disk e)" using 2(5) by auto
    then show ?thesis unfolding eq by (rule 2(1) [OF True 2(4) _ 2(6)])
  next
    case False
    have i: "i \<noteq> sw_seg_id (en_disk e)" and un: "unreferenced E (en_index e) i" using 2(6) 2(5) False by auto
    have dir: "seg_dir_of (en_disk e) (ec_failover (en_cfg e)) i = Primary"
      using engine_invD(2) [OF 2(4)] by (simp add: seg_dir_of_def)
    obtain e1 x where r: "on_disk (remove_file Primary i) e = (e1, x)" by fastforce
    have t: "tidy E e e1" using tidy_unlink(1) [OF 2(4) i un] by (simp add: r)
    then have pre: "engine_inv E e1" "\<forall>(i, n) \<in> set ss. i \<noteq> sw_seg_id (en_disk e1)"
      "\<forall>i. i \<notin> fst ` set refs \<longrightarrow> unreferenced E (en_index e1) i"
      using 2(5,6) unreferenced_cong [of E "en_index e1" "en_index e"] by (auto simp: tidy_def)
    show ?thesis
    proof (cases x)
      case (Inl er)
      have "tidy E e1 (fst (sweep_files E refs ss rep removed e1)) \<and>
          victim_seg (fst (snd (sweep_files E refs ss rep removed e1))) = victim_seg rep"
        by (rule 2(2) [OF False _ _ pre]) (use r dir Inl in auto)
      then show ?thesis using False Inl tidy_trans [OF t] by (simp add: dir r)
    next
      case (Inr u)
      let ?rep = "rep\<lparr>orphans_removed := orphans_removed rep + 1, orphan_bytes := orphan_bytes rep + sz\<rparr>"
      have "tidy E e1 (fst (sweep_files E refs ss ?rep (removed @ [i]) e1)) \<and>
          victim_seg (fst (snd (sweep_files E refs ss ?rep (removed @ [i]) e1))) = victim_seg ?rep"
        by (rule 2(3) [OF False _ _ pre]) (use r dir Inr in auto)
      then show ?thesis using False Inr tidy_trans [OF t] by (simp add: dir r)
    qed
  qed
qed

lemma sweep_spec:
  assumes inv: "engine_inv E e"
  shows "post (sweep_if E b rep e) (\<lambda>e' rep'. tidy E e e' \<and> victim_seg rep' = victim_seg rep) (\<lambda>e' er. tidy E e e')"
proof (cases b)
  case True
  have "post (sweep_orphans E rep e) (\<lambda>e' rep'. tidy E e e' \<and> victim_seg rep' = victim_seg rep) (\<lambda>e' er. tidy E e e')"
    unfolding sweep_orphans_def
  proof (rule post_and_then [OF post_mono [OF referenced_spec [OF inv]]], assumption, assumption)
    fix e1 :: "('t, 'm) engine" and refs :: "(u32 \<times> nat) list"
    assume "tidy E e e1 \<and> en_cfg e1 = en_cfg e \<and> (\<forall>i. i \<notin> fst ` set refs \<longrightarrow> unreferenced E (en_index e1) i)"
    then have t1: "tidy E e e1" and un: "\<forall>i. i \<notin> fst ` set refs \<longrightarrow> unreferenced E (en_index e1) i" by auto
    have inv1: "engine_inv E e1" using t1 by (simp add: tidy_def)
    obtain d2 where s: "fst (sealed_segments e1) = e1\<lparr>en_disk := d2\<rparr>" "quiet_step (en_disk e1) d2"
      "\<forall>(i, n) \<in> set (snd (sealed_segments e1)). i \<noteq> sw_seg_id (en_disk e1)"
      using sealed_segments_spec [OF engine_invD(2) [OF inv1]] by blast
    let ?e2 = "e1\<lparr>en_disk := d2\<rparr>"
    have t2: "tidy E e1 ?e2" by (rule tidy_quiet [OF inv1]) (use s in simp_all)
    obtain sealed where sg: "sealed_segments e1 = (?e2, sealed)" using s(1) by (cases "sealed_segments e1") simp
    obtain e3 rep3 removed where sf: "sweep_files E refs sealed rep [] ?e2 = (e3, rep3, removed)"
      by (metis prod.exhaust_sel)
    have pre: "engine_inv E ?e2" "\<forall>(i, n) \<in> set sealed. i \<noteq> sw_seg_id (en_disk ?e2)"
      "\<forall>i. i \<notin> fst ` set refs \<longrightarrow> unreferenced E (en_index ?e2) i"
      using t2 s sg un quiet_sel(4) [OF s(2)] by (auto simp: tidy_def)
    have t3: "tidy E ?e2 e3" and v: "victim_seg rep3 = victim_seg rep"
      using sweep_files_spec [OF pre, of rep "[]"] by (simp_all add: sf)
    have t: "tidy E e e3" using t1 t2 t3 tidy_trans by blast
    have inv3: "engine_inv E e3" using t3 by (simp add: tidy_def)
    have t4: "tidy E e3 (fst (db_write e3 (\<lambda>ix. (drop_discards E removed ix, ()))))" by (rule tidy_db_write [OF inv3]) simp_all
    show "post (let (e, sealed) = sealed_segments e1; (e, rep, removed) = sweep_files E refs sealed rep [] e
        in and_then (if removed = [] then (e, Inr ()) else db_write e (\<lambda>ix. (drop_discards E removed ix, ()))) (\<lambda>_ e. (e, Inr rep)))
       (\<lambda>e' rep'. tidy E e e' \<and> victim_seg rep' = victim_seg rep) (\<lambda>e' er. tidy E e e')"
      using t tidy_trans [OF t] t4 v
      by (cases "db_write e3 (\<lambda>ix. (drop_discards E removed ix, ()))"; cases "snd (db_write e3 (\<lambda>ix. (drop_discards E removed ix, ())))")
        (auto simp: sg sf)
  qed
  with True show ?thesis by (simp add: sweep_if_def)
qed (simp add: sweep_if_def tidy_refl [OF inv])

end

section \<open>The pass as a whole\<close>

text \<open>Room for a pass: every file's records and the writers' operations may each need a fresh segment.\<close>

definition gc_room :: "('t, 'm) engine_env \<Rightarrow> (client_op list \<times> client_op list) list \<Rightarrow> ('t, 'm) engine \<Rightarrow> bool" where
  "gc_room E sched e \<longleftrightarrow> (\<forall>i c. file_at (en_disk e) Primary i = Some c \<longrightarrow>
     room e (length (fst (scan_records (ee_crc E) i 0 c)) + 2 * sched_ops sched))"

lemma pass_ok_tidy:
  assumes "pass_ok E V s" and "tidy E (gr_eng s) (gr_eng s')" and "gr_log s' = gr_log s" and "gr_sched s' = gr_sched s"
  shows "pass_ok E V s'"
  using assms by (simp add: pass_ok_def tidy_def)

lemma on_eng_tidy:
  assumes "post (f (gr_eng s)) (\<lambda>e' a. tidy E (gr_eng s) e' \<and> Q e' a) (\<lambda>e' er. tidy E (gr_eng s) e')" and ok: "pass_ok E V s"
  shows "post (on_eng f s) (\<lambda>s' a. pass_ok E V s' \<and> tidy E (gr_eng s) (gr_eng s') \<and> Q (gr_eng s') a \<and> gr_sched s' = gr_sched s \<and>
      gr_orphaned s' = gr_orphaned s) (\<lambda>s' er. pass_ok E V s')"
  using assms pass_ok_tidy [OF ok]
  by (cases "f (gr_eng s)"; cases "snd (f (gr_eng s))") (auto simp: on_eng_def)

lemma on_eng_tidy_fst:
  assumes ok: "pass_ok E V s" and t: "tidy E (gr_eng s) (fst (f (gr_eng s)))"
  shows "post (on_eng f s) (\<lambda>s' a. pass_ok E V s' \<and> tidy E (gr_eng s) (gr_eng s')) (\<lambda>s' er. pass_ok E V s')"
  using t pass_ok_tidy [OF ok]
  by (cases "f (gr_eng s)"; cases "snd (f (gr_eng s))") (auto simp: on_eng_def)

lemma postI_fst: "P (fst m) \<Longrightarrow> post m (\<lambda>s a. P s) (\<lambda>s e. P s)"
  by (simp add: post_def split: sum.split)

lemma choose_victim_spec:
  assumes "engine_inv E e" and "\<forall>(i, n) \<in> set ss. P i" and "\<And>i n d. v = Some (i, n, d) \<Longrightarrow> P i"
  shows "post (choose_victim E ss v e) (\<lambda>e' x. tidy E e e' \<and> (\<forall>i n d. x = Some (i, n, d) \<longrightarrow> P i)) (\<lambda>e' er. tidy E e e')"
  using assms
proof (induction E ss v e rule: choose_victim.induct)
  case (1 E v e)
  then show ?case by (auto simp: tidy_refl)
next
  case (2 E i sz ss v e)
  show ?case
    unfolding choose_victim.simps
  proof (rule post_and_then [where Q' = "\<lambda>e1 d. tidy E e e1"])
    have "tidy E e (fst (discard_of E e i))" unfolding discard_of_def by (rule tidy_read [OF 2(3)])
    then show "post (discard_of E e i) (\<lambda>e1 d. tidy E e e1) (\<lambda>e' er. tidy E e e')" by (rule postI_fst)
    fix e1 d
    assume t: "tidy E e e1"
    have inv1: "engine_inv E e1" and ss: "\<forall>(i, n) \<in> set ss. P i" and Pi: "P i"
      using t 2(4) by (auto simp: tidy_def)
    have mono: "post m (\<lambda>e' x. tidy E e e' \<and> (\<forall>i n d. x = Some (i, n, d) \<longrightarrow> P i)) (\<lambda>e' er. tidy E e e')"
      if "post m (\<lambda>e' x. tidy E e1 e' \<and> (\<forall>i n d. x = Some (i, n, d) \<longrightarrow> P i)) (\<lambda>e' er. tidy E e1 e')" for m
      using that by (rule post_mono) (auto intro: tidy_trans [OF t])
    let ?v = "if (case v of None \<Rightarrow> True | Some (_, _, vd) \<Rightarrow> vd < d) then Some (i, sz, d) else v"
    have v': "\<And>j n x. ?v = Some (j, n, x) \<Longrightarrow> P j" using 2(5) Pi by (auto split: if_splits)
    show "post (if d = 0 then choose_victim E ss v e1 else choose_victim E ss ?v e1)
       (\<lambda>e' x. tidy E e e' \<and> (\<forall>i n d. x = Some (i, n, d) \<longrightarrow> P i)) (\<lambda>e' er. tidy E e e')"
      using mono [OF 2(1) [OF _ inv1 ss 2(5)]] mono [OF 2(2) [OF _ inv1 ss v']] by simp
  qed
qed

context engine_laws
begin

lemma gc_rewrite_spec:
  assumes ok: "pass_ok E V s" and v: "vid \<noteq> sw_seg_id (en_disk (gr_eng s))" and rm: "gc_room E (gr_sched s) (gr_eng s)"
  shows "post (gc_rewrite E vid vsize s)
    (\<lambda>s' n. pass_ok E V s' \<and> file_at (en_disk (gr_eng s')) Primary vid = None) (\<lambda>s' er. pass_ok E V s')"
proof -
  have inv: "engine_inv E (gr_eng s)" using ok by (simp add: pass_ok_def)
  have dir: "seg_dir_of (en_disk (gr_eng s)) (ec_failover (en_cfg (gr_eng s))) vid = Primary"
    using engine_invD(2) [OF inv] by (simp add: seg_dir_of_def)
  let ?un = "\<lambda>e. vid \<noteq> sw_seg_id (en_disk e) \<and> unreferenced E (en_index e) vid"
  have keep: "?un e'" if "?un e" "tidy E e e'" for e e'
    using that unreferenced_cong [of E "en_index e'" "en_index e"] by (simp add: tidy_def)
  have tidyP: "post (on_eng f s) (\<lambda>s' a. pass_ok E V s' \<and> ?un (gr_eng s')) (\<lambda>s' er. pass_ok E V s')"
    if "pass_ok E V s" "?un (gr_eng s)" "tidy E (gr_eng s) (fst (f (gr_eng s)))" for s and f :: "('t, 'm) engine \<Rightarrow> ('t, 'm) engine \<times> (domain_error + 'a)"
    using on_eng_tidy_fst [where f = f, OF that(1,3)] by (rule post_mono) (use keep [OF that(2)] in blast)+
  have inv': "engine_inv E (gr_eng s)" if "pass_ok E V s" for s using that by (simp add: pass_ok_def)
  let ?Q = "\<lambda>s' (n :: nat). pass_ok E V s' \<and> file_at (en_disk (gr_eng s')) Primary vid = None"
  let ?R = "\<lambda>s' (er :: domain_error). pass_ok E V s'"
  let ?k5 = "\<lambda>(u :: unit) s. and_then (on_eng (\<lambda>e. db_write e (\<lambda>ix. (drop_discards E [vid] ix, ()))) s) (\<lambda>_ s.
        (s\<lparr>gr_eng := (gr_eng s)\<lparr>en_used_bytes := en_used_bytes (gr_eng s) - min vsize (en_used_bytes (gr_eng s))\<rparr>\<rparr>, Inr (gr_moved s)))"
  have k5: "post (?k5 u s) ?Q ?R" if ok: "pass_ok E V s" and gone: "file_at (en_disk (gr_eng s)) Primary vid = None" for u s
  proof -
    let ?f = "\<lambda>ix. (drop_discards E [vid] ix, ())"
    have t: "tidy E (gr_eng s) (fst (db_write (gr_eng s) ?f))" by (rule tidy_db_write [OF inv' [OF ok]]) simp_all
    have "post (on_eng (\<lambda>e. db_write e ?f) s) (\<lambda>s' a. pass_ok E V s' \<and> file_at (en_disk (gr_eng s')) Primary vid = None) ?R"
      using on_eng_tidy_fst [where f = "\<lambda>e. db_write e ?f", OF ok t]
    proof (rule post_mono)
      show "pass_ok E V s' \<and> file_at (en_disk (gr_eng s')) Primary vid = None" if "pass_ok E V s' \<and> tidy E (gr_eng s) (gr_eng s')" for s'
        using that gone unfolding tidy_def by metis
    qed
    then show ?thesis
      by (rule post_and_then) (auto simp: pass_ok_def engine_inv_def view_def)
  qed
  let ?k4 = "\<lambda>(u :: unit) s. and_then (map_err io_err (on_eng (on_disk (remove_file Primary vid)) s)) ?k5"
  have k4: "post (?k4 u s) ?Q ?R" if ok: "pass_ok E V s" and un: "?un (gr_eng s)" for u s
  proof (rule post_and_then [where Q' = "\<lambda>s' u. pass_ok E V s' \<and> file_at (en_disk (gr_eng s')) Primary vid = None"], rule post_map_err)
    note tu = tidy_unlink [OF inv' [OF ok], of vid]
    have "post (on_disk (remove_file Primary vid) (gr_eng s)) (\<lambda>e' a. tidy E (gr_eng s) e' \<and> file_at (en_disk e') Primary vid = None) (\<lambda>e' er. tidy E (gr_eng s) e')"
      using tu un by (simp add: post_def split: sum.split)
    from on_eng_tidy [where f = "on_disk (remove_file Primary vid)" and Q = "\<lambda>e' a. file_at (en_disk e') Primary vid = None", OF this ok]
    show "post (on_eng (on_disk (remove_file Primary vid)) s)
      (\<lambda>s' u. pass_ok E V s' \<and> file_at (en_disk (gr_eng s')) Primary vid = None) (\<lambda>s' er. pass_ok E V s')" by (rule post_mono) auto
  qed (use k5 in blast)
  let ?k3 = "\<lambda>(u :: unit) s. and_then (on_eng engine_flush s) ?k4"
  have k3: "post (?k3 u s) ?Q ?R" if ok: "pass_ok E V s" and un: "?un (gr_eng s)" for u s
    by (rule post_and_then [OF tidyP [of s engine_flush, OF ok un tidy_flush [OF inv' [OF ok]]]]) (use k4 in blast)
  let ?k2 = "\<lambda>(u :: unit) s. and_then (if gr_orphaned s = [] then (s, Inr ())
      else on_eng (\<lambda>e. db_write e (\<lambda>ix. (fold (\<lambda>(i, n). bump_in E i n) (gr_orphaned s) ix, ()))) s) ?k3"
  have k2: "post (?k2 u s) ?Q ?R" if ok: "pass_ok E V s" and un: "?un (gr_eng s)" for u s
  proof (rule post_and_then [where Q' = "\<lambda>s' u. pass_ok E V s' \<and> ?un (gr_eng s')"])
    have "tidy E (gr_eng s) (fst (db_write (gr_eng s) (\<lambda>ix. (fold (\<lambda>(i, n). bump_in E i n) (gr_orphaned s) ix, ()))))"
      by (rule tidy_db_write [OF inv' [OF ok]]) simp_all
    from tidyP [OF ok un, of "\<lambda>e. db_write e (\<lambda>ix. (fold (\<lambda>(i, n). bump_in E i n) (gr_orphaned s) ix, ()))", OF this]
    show "post (if gr_orphaned s = [] then (s, Inr ())
      else on_eng (\<lambda>e. db_write e (\<lambda>ix. (fold (\<lambda>(i, n). bump_in E i n) (gr_orphaned s) ix, ()))) s)
      (\<lambda>s' u. pass_ok E V s' \<and> ?un (gr_eng s')) ?R" using ok un by simp
  qed (use k3 in blast)
  have "post (and_then (map_err io_err (gc_scan E Primary vid s)) ?k2) ?Q ?R"
  proof (rule post_and_then [where Q' = "\<lambda>s' u. pass_ok E V s' \<and> ?un (gr_eng s')"])
    show "post (map_err io_err (gc_scan E Primary vid s)) (\<lambda>s' u. pass_ok E V s' \<and> ?un (gr_eng s')) ?R"
      by (rule post_map_err, rule gc_scan_spec [OF ok v]) (use rm in \<open>simp add: gc_room_def\<close>)
  qed (use k2 in blast)
  then show ?thesis unfolding gc_rewrite_def dir Let_def .
qed

text \<open>
  A pass with arbitrary concurrent writers, and arbitrary failures of writes, flushes, renames,
  unlinks and index transactions: what readers see is what the writers did.
\<close>

lemma gc_once_spec:
  assumes inv: "engine_inv E e" and c: "calm (en_index_faults e)" "calm (fs_read_faults (en_disk e))"
    and sched: "sched_ok sched" and rm: "gc_room E sched e"
  shows "post (gc_once E ratio (gc_start sched e))
    (\<lambda>s' rep. pass_ok E (view E e) s' \<and> (\<forall>v. victim_seg rep = Some v \<longrightarrow> file_at (en_disk (gr_eng s')) Primary v = None))
    (\<lambda>s' er. pass_ok E (view E e) s')"
proof -
  let ?V = "view E e"
  let ?Q = "\<lambda>s' rep. pass_ok E ?V s' \<and> (\<forall>v. victim_seg rep = Some v \<longrightarrow> file_at (en_disk (gr_eng s')) Primary v = None)"
  let ?e0 = "e\<lparr>en_gc_pass_count := en_gc_pass_count e + 1\<rparr>"
  have inv0: "engine_inv E ?e0" using inv by (simp add: engine_inv_def)
  obtain d1 where s: "fst (sealed_segments ?e0) = ?e0\<lparr>en_disk := d1\<rparr>" "quiet_step (en_disk e) d1"
    "\<forall>(i, n) \<in> set (snd (sealed_segments ?e0)). i \<noteq> sw_seg_id (en_disk e)"
    using sealed_segments_spec [OF engine_invD(2) [OF inv0]] by auto
  obtain sealed where sg: "sealed_segments ?e0 = (?e0\<lparr>en_disk := d1\<rparr>, sealed)" using s(1) by (cases "sealed_segments ?e0") simp
  let ?s1 = "(gc_start sched e)\<lparr>gr_eng := ?e0\<lparr>en_disk := d1\<rparr>\<rparr>"
  have t1: "tidy E ?e0 (?e0\<lparr>en_disk := d1\<rparr>)" by (rule tidy_quiet [OF inv0]) (use s in simp_all)
  have ok1: "pass_ok E ?V ?s1"
    using t1 c sched quiet_sel [OF s(2)] by (simp add: pass_ok_def tidy_def gc_start_def view_def)
  have inv1: "engine_inv E (gr_eng ?s1)" using ok1 by (simp add: pass_ok_def)
  have rm1: "gc_room E sched (gr_eng ?s1)"
    using rm quiet_sel(4,12) [OF s(2)] by (simp add: gc_room_def room_def)
  have seg1: "sw_seg_id (en_disk (gr_eng ?s1)) = sw_seg_id (en_disk e)" using quiet_sel [OF s(2)] by simp
  have sweep: "post (on_eng (sweep_if E b rep) s) ?Q (\<lambda>s' er. pass_ok E ?V s')"
    if ok: "pass_ok E ?V s" and gone: "\<And>v. victim_seg rep = Some v \<Longrightarrow> file_at (en_disk (gr_eng s)) Primary v = None" for b rep s
  proof -
    have "engine_inv E (gr_eng s)" using ok by (simp add: pass_ok_def)
    note sw = sweep_spec [OF this, of b rep]
    show ?thesis
    proof (rule post_mono [OF on_eng_tidy [where f = "sweep_if E b rep" and Q = "\<lambda>e' rep'. victim_seg rep' = victim_seg rep", OF sw ok]])
      show "?Q s' rep'" if a: "pass_ok E ?V s' \<and> tidy E (gr_eng s) (gr_eng s') \<and> victim_seg rep' = victim_seg rep \<and>
        gr_sched s' = gr_sched s \<and> gr_orphaned s' = gr_orphaned s" for s' rep'
        using a gone unfolding tidy_def by metis
    qed
  qed
  have vic: "post (on_eng (choose_victim E sealed None) ?s1)
    (\<lambda>s' x. pass_ok E ?V s' \<and> tidy E (gr_eng ?s1) (gr_eng s') \<and> (\<forall>i n d. x = Some (i, n, d) \<longrightarrow> i \<noteq> sw_seg_id (en_disk e)) \<and>
       gr_sched s' = gr_sched ?s1 \<and> gr_orphaned s' = gr_orphaned ?s1) (\<lambda>s' er. pass_ok E ?V s')"
    by (rule on_eng_tidy [where f = "choose_victim E sealed None" and Q = "\<lambda>_ x. \<forall>i n d. x = Some (i, n, d) \<longrightarrow> i \<noteq> sw_seg_id (en_disk e)", OF _ ok1],
        rule choose_victim_spec [OF inv1]) (use s(3) sg in auto)
  have body: "post (case x of None \<Rightarrow> on_eng (sweep_if E b gc_report_default) s
     | Some (vid, vsize, vdiscard) \<Rightarrow>
         if 0 < vsize \<and> of_nat (unat vdiscard) < ratio * of_nat vsize then on_eng (sweep_if E b gc_report_default) s
         else let rep = gc_report_default\<lparr>victim_seg := Some vid\<rparr> in
           and_then (gc_rewrite E vid vsize s) (\<lambda>moved s.
             on_eng (sweep_if E b (rep\<lparr>live_moved := moved, reclaimed_bytes := vsize\<rparr>)) s)) ?Q (\<lambda>s' er. pass_ok E ?V s')"
    if ok: "pass_ok E ?V s" and t: "tidy E (gr_eng ?s1) (gr_eng s)" and x: "\<forall>i n d. x = Some (i, n, d) \<longrightarrow> i \<noteq> sw_seg_id (en_disk e)"
      and sch: "gr_sched s = sched" for x b s
  proof (cases x)
    case None
    then show ?thesis using sweep [OF ok, of gc_report_default b] by (simp add: gc_report_default_def)
  next
    case (Some p)
    obtain vid vsize vd where p: "p = (vid, vsize, vd)" by (metis prod.exhaust_sel)
    have v: "vid \<noteq> sw_seg_id (en_disk (gr_eng s))" using x Some p t seg1 by (simp add: tidy_def)
    have "gc_room E (gr_sched s) (gr_eng s)"
      using rm1 t sch unfolding gc_room_def tidy_def room_def by (metis option.distinct(1))
    note rw = gc_rewrite_spec [OF ok v this]
    have "post (and_then (gc_rewrite E vid vsize s) (\<lambda>moved s. on_eng (sweep_if E b
        (gc_report_default\<lparr>victim_seg := Some vid, live_moved := moved, reclaimed_bytes := vsize\<rparr>)) s)) ?Q (\<lambda>s' er. pass_ok E ?V s')"
      by (rule post_and_then [OF rw], rule sweep) auto
    then show ?thesis using sweep [OF ok, of gc_report_default b] by (simp add: Some p gc_report_default_def)
  qed
  have e0: "gr_eng (gc_start sched e) = e" by (simp add: gc_start_def)
  have st: "on_eng sealed_segments (gc_start sched e\<lparr>gr_eng := ?e0\<rparr>) = (?s1, sealed)" by (simp add: on_eng_def sg)
  show ?thesis
    unfolding gc_once_def Let_def e0 st prod.case
    by (rule post_and_then [OF vic], rule body [unfolded Let_def]) (auto simp: gc_start_def)
qed

end

end
