(* ===== verification/Recovery.thy ===== *)
theory Recovery
  imports Engine_Inv
begin

text \<open>
  Crash recovery. A crash in the middle of an append leaves the active segment as whole records
  followed by a torn one, the recovery point of \<open>seg.meta\<close> somewhere before. Opening the
  writer finds exactly the whole records past the recovery point, cuts the torn tail off and
  continues at the end of the last record; opening the engine indexes what was found.
\<close>

lemma io_try_calm_eq: "calm (fs_faults d) \<Longrightarrow> io_try d = (d\<lparr>fs_faults := tl (fs_faults d)\<rparr>, Inr ())"
  by (simp add: io_try_def calm_next)

lemma read_try_calm_eq: "calm (fs_read_faults d) \<Longrightarrow> read_try d = (d\<lparr>fs_read_faults := tl (fs_read_faults d)\<rparr>, Inr ())"
  by (simp add: read_try_def calm_next)

lemma enc_all_append: "enc_all crc (a @ b) = enc_all crc a @ enc_all crc b"
  by (induction crc a rule: enc_all.induct) simp_all

lemma enc_all_empty: "enc_all crc rs = [] \<longleftrightarrow> rs = []"
  by (induction crc rs rule: enc_all.induct) (simp_all add: enc_rec_def encode_header_def MAGIC_def)

definition recs_fit :: "(bytes \<times> bytes \<times> u32 \<times> u16) list \<Rightarrow> bool" where
  "recs_fit rs \<longleftrightarrow> (\<forall>(key, stored, ll, fl) \<in> set rs. rec_fits key stored)"

text \<open>The torn tail: a proper prefix of an encoded record (possibly empty).\<close>

definition torn :: "(bytes \<Rightarrow> u32) \<Rightarrow> bytes \<Rightarrow> bool" where
  "torn crc t \<longleftrightarrow> (\<exists>key stored ll fl n. rec_fits key stored \<and> n < HEADER_LEN + length key + length stored \<and>
     t = take n (enc_rec crc key stored ll fl))"

lemma scan_torn:
  assumes "recs_fit rs" and "torn crc t"
  shows "scan_records crc seg pos (enc_all crc rs @ t) = (recs_all crc seg pos rs, pos + length (enc_all crc rs))"
  using assms scan_torn_tail unfolding recs_fit_def torn_def by blast

lemma recover_tail_spec:
  assumes act: "sw_active_dir d = Primary" "sw_seg_id d = seg" and f: "file_at d Primary seg = Some (enc_all crc (rs1 @ rs2) @ t)"
    and fit: "recs_fit rs2" and t: "torn crc t" and calm: "calm (fs_faults d)" "calm (fs_read_faults d)"
  shows "\<exists>d'. recover_tail crc seg (length (enc_all crc rs1)) d =
      (d', Inr (recs_all crc seg (length (enc_all crc rs1)) rs2, length (enc_all crc (rs1 @ rs2)))) \<and>
    file_at d' Primary seg = Some (enc_all crc (rs1 @ rs2)) \<and>
    (\<forall>dr i. (dr, i) \<noteq> (Primary, seg) \<longrightarrow> file_at d' dr i = file_at d dr i) \<and>
    sw_seg_id d' = seg \<and> sw_active_dir d' = Primary \<and> calm (fs_faults d') \<and> calm (fs_read_faults d')"
proof -
  let ?o = "length (enc_all crc rs1)" and ?c = "enc_all crc (rs1 @ rs2) @ t"
  have dr: "drop ?o ?c = enc_all crc rs2 @ t" by (simp add: enc_all_append)
  note sc = scan_torn [OF fit t, of seg ?o]
  have len: "?o + length (enc_all crc rs2) = length (enc_all crc (rs1 @ rs2))" by (simp add: enc_all_append)
  have tk: "take (length (enc_all crc (rs1 @ rs2))) ?c = enc_all crc (rs1 @ rs2)" by simp
  have fa: "file_at (d\<lparr>fs_faults := x\<rparr>) = file_at d" "file_at (d\<lparr>fs_read_faults := y, fs_faults := x\<rparr>) = file_at d" "file_at (d\<lparr>fs_faults := x, fs_read_faults := y\<rparr>) = file_at d"
    "file_at (d\<lparr>fs_read_faults := y\<rparr>) = file_at d" "fs_read_faults (set_file dr i z d') = fs_read_faults d'" for x y dr i z and d' :: disk
    by (simp_all add: file_at_def fun_eq_iff set_file_def)
  have ac: "active_file d = ?c" "active_file (d\<lparr>fs_faults := x\<rparr>) = ?c" "active_file (d\<lparr>fs_read_faults := y, fs_faults := x\<rparr>) = ?c"
    "active_file (d\<lparr>fs_faults := x, fs_read_faults := y\<rparr>) = ?c" for x y
    using act f by (simp_all add: active_file_def fa)
  have c: "calm (tl (fs_faults d))" "calm (tl (tl (fs_faults d)))" "calm (tl (tl (tl (fs_faults d))))" "calm (tl (tl (tl (tl (fs_faults d)))))"
    "calm (tl (tl (tl (tl (tl (fs_faults d))))))" "calm (tl (fs_read_faults d))"
    using calm calm_next(2) by blast+
  have fs: "file_at (d'\<lparr>fs_faults := x\<rparr>) = file_at d'" for d' :: disk and x by (simp add: file_at_def fun_eq_iff)
  show ?thesis
  proof (cases "?o < length ?c")
    case False
    then have e: "t = []" "enc_all crc rs2 = []" by (simp_all add: enc_all_append)
    then have "rs2 = []" by (simp add: enc_all_empty)
    with False e calm ac act f c show ?thesis
      by (simp add: recover_tail_def io_try_calm_eq Let_def fa)
  next
    case True
    then show ?thesis
    proof (cases "t = []")
      case True
      with \<open>?o < length ?c\<close> calm c ac act f sc dr len show ?thesis
        by (simp add: recover_tail_def io_try_calm_eq read_try_calm_eq Let_def fa)
    next
      case False
      with \<open>?o < length ?c\<close> calm c ac act f sc dr len tk show ?thesis
        by (simp add: recover_tail_def io_try_calm_eq read_try_calm_eq Let_def fa fs)
    qed
  qed
qed

text \<open>What a crash leaves: whole records up to the recovery point, whole records after it, a torn tail.\<close>

definition crashed :: "(bytes \<Rightarrow> u32) \<Rightarrow> u32 \<Rightarrow> (bytes \<times> bytes \<times> u32 \<times> u16) list \<Rightarrow> (bytes \<times> bytes \<times> u32 \<times> u16) list \<Rightarrow> bytes \<Rightarrow> disk \<Rightarrow> bool" where
  "crashed crc seg rs1 rs2 t d \<longleftrightarrow> recs_fit rs2 \<and> torn crc t \<and> length (enc_all crc rs1) < 2 ^ 64 \<and>
     file_at d Primary seg = Some (enc_all crc (rs1 @ rs2) @ t) \<and>
     map_of (fs_meta d) Primary = Some (le32 seg @ le64 (word_of_nat (length (enc_all crc rs1)))) \<and>
     calm (fs_faults d) \<and> calm (fs_read_faults d)"

lemma seg_open_recovers:
  assumes "crashed crc seg rs1 rs2 t d"
  shows "\<exists>d'. seg_open crc False max_size fsync_items drop_cache d = (d', Inr (recs_all crc seg (length (enc_all crc rs1)) rs2)) \<and>
    file_at d' Primary seg = Some (enc_all crc (rs1 @ rs2)) \<and> sw_len d' = length (enc_all crc (rs1 @ rs2)) \<and>
    (\<forall>dr i. (dr, i) \<noteq> (Primary, seg) \<longrightarrow> file_at d' dr i = file_at d dr i) \<and>
    sw_seg_id d' = seg \<and> sw_active_dir d' = Primary \<and> calm (fs_faults d') \<and> calm (fs_read_faults d')"
proof -
  let ?o = "length (enc_all crc rs1)"
  have a: "recs_fit rs2" "torn crc t" "?o < 2 ^ 64" "file_at d Primary seg = Some (enc_all crc (rs1 @ rs2) @ t)"
    "map_of (fs_meta d) Primary = Some (le32 seg @ le64 (word_of_nat ?o))" "calm (fs_faults d)" "calm (fs_read_faults d)"
    using assms by (simp_all add: crashed_def)
  have c: "calm (tl (fs_faults d))" "calm (tl (tl (fs_faults d)))" "calm (tl (tl (tl (fs_faults d))))"
    using a(6) calm_next(2) by blast+
  have meta: "bslice (le32 seg @ le64 (word_of_nat ?o)) 0 4 = le32 seg" "bslice (le32 seg @ le64 (word_of_nat ?o)) 4 12 = le64 (word_of_nat ?o)"
    "unat (word_of_nat ?o :: u64) = ?o"
    using a(3) by (simp_all add: bslice_def unat_word_of_nat64)
  let ?d1 = "d\<lparr>sw_has_failover := False, sw_active_dir := Primary, sw_seg_id := seg, sw_max_size := max_size,
    sw_fsync_items := fsync_items, sw_drop_cache := drop_cache, fs_faults := tl (tl (tl (fs_faults d)))\<rparr>"
  have fa: "file_at ?d1 = file_at d" by (simp add: file_at_def fun_eq_iff)
  have "\<exists>d'. recover_tail crc seg ?o ?d1 = (d', Inr (recs_all crc seg ?o rs2, length (enc_all crc (rs1 @ rs2)))) \<and>
    file_at d' Primary seg = Some (enc_all crc (rs1 @ rs2)) \<and> (\<forall>dr i. (dr, i) \<noteq> (Primary, seg) \<longrightarrow> file_at d' dr i = file_at ?d1 dr i) \<and>
    sw_seg_id d' = seg \<and> sw_active_dir d' = Primary \<and> calm (fs_faults d') \<and> calm (fs_read_faults d')"
    by (rule recover_tail_spec [OF _ _ _ a(1,2)]) (use a c fa in simp_all)
  then obtain d' where d': "recover_tail crc seg ?o ?d1 = (d', Inr (recs_all crc seg ?o rs2, length (enc_all crc (rs1 @ rs2))))"
    "file_at d' Primary seg = Some (enc_all crc (rs1 @ rs2))" "\<forall>dr i. (dr, i) \<noteq> (Primary, seg) \<longrightarrow> file_at d' dr i = file_at d dr i"
    "sw_seg_id d' = seg" "sw_active_dir d' = Primary" "calm (fs_faults d')" "calm (fs_read_faults d')" unfolding fa by blast
  have max: "max (length (enc_all crc (rs1 @ rs2))) ?o = length (enc_all crc (rs1 @ rs2))" by (simp add: enc_all_append)
  have rm: "read_meta Primary (d\<lparr>fs_faults := tl (fs_faults d)\<rparr>) = (d\<lparr>fs_faults := tl (tl (fs_faults d))\<rparr>, Some (seg, ?o))"
    using a(5) c by (simp add: read_meta_def io_try_calm_eq meta)
  have fo: "file_at (d\<lparr>fs_faults := x, sw_has_failover := False, sw_active_dir := Primary, sw_seg_id := seg, sw_max_size := max_size,
    sw_fsync_items := fsync_items, sw_drop_cache := drop_cache\<rparr>) = file_at d" for x by (simp add: file_at_def fun_eq_iff)
  have fin: "file_at (d'\<lparr>sw_len := n, sw_flush_offset := m, sw_unflushed_items := 0, sw_failed_over := False\<rparr>) = file_at d'" for n m
    by (simp add: file_at_def fun_eq_iff)
  show ?thesis
    using a c d' fo fin fa max
    by (simp add: seg_open_def io_try_calm_eq rm choose_active_def Let_def open_active_def)
qed

section \<open>The index after recovery\<close>

context engine_laws
begin

text \<open>The last record of a key in the tail determines its row; other rows are as before.\<close>

lemma recover_index_rows:
  "addr_rows E (recover_index E rs ix) k =
    (case find (\<lambda>r. rr_key r = k) (rev rs) of Some r \<Rightarrow> Some (encode_addr (recovered_entry E r)) | None \<Rightarrow> addr_rows E ix k)"
  "inline_rows E (recover_index E rs ix) = inline_rows E ix"
proof -
  have "kv_get (ee_kv E) (fold (\<lambda>r t. kv_insert (ee_kv E) t (rr_key r) (encode_addr (recovered_entry E r))) rs tb) k =
    (case find (\<lambda>r. rr_key r = k) (rev rs) of Some r \<Rightarrow> Some (encode_addr (recovered_entry E r)) | None \<Rightarrow> kv_get (ee_kv E) tb k)" for tb
    by (induction rs arbitrary: tb rule: rev_induct) (auto simp: rows.kv_get_insert)
  then show "addr_rows E (recover_index E rs ix) k =
    (case find (\<lambda>r. rr_key r = k) (rev rs) of Some r \<Rightarrow> Some (encode_addr (recovered_entry E r)) | None \<Rightarrow> addr_rows E ix k)"
    by (simp add: recover_index_def)
  show "inline_rows E (recover_index E rs ix) = inline_rows E ix" by (simp add: recover_index_def)
qed

end

end
