(* ===== verification/Engine_Thms.thy ===== *)
theory Engine_Thms
  imports Shard Gc_Inv Engine_List Recovery
begin

text \<open>
  The properties of the disk engine, stated over the model's definitions, with runs of the
  concrete environment on which their hypotheses hold.
\<close>

section \<open>A concrete run\<close>

text \<open>Two records fill segment 0, the third goes to segment 1; then the first is overwritten.\<close>

definition body :: "u8 \<Rightarrow> bytes" where
  "body b = [b, 2, 3, 4, 5, 6, 7, 8]"

definition busy_puts :: "(block_key \<times> bytes) list" where
  "busy_puts = [([1], body 1), ([2], body 2), ([3], body 3), ([1], body 11)]"

definition busy_engine :: "((bytes \<times> bytes) list, (bytes \<times> u64) list) engine" where
  "busy_engine = fold (\<lambda>(k, b) e. fst (engine_put ref_env e k b)) busy_puts fresh_engine"

lemma busy_engine_eq [code]:
  "busy_engine =
     \<lparr>en_cfg = \<lparr>ec_segment_max_size = 50, ec_inline_min = 4, ec_fsync_items = 2,
     ec_compress_zstd = True, ec_compress_min = 8, ec_ballast_bytes = 0, ec_failover = False,
     ec_fadvise_dontneed = False\<rparr>, en_disk = \<lparr>sw_has_failover = False, sw_active_dir = Primary,
     sw_seg_id = 1, sw_len = 58, sw_flush_offset = 58, sw_unflushed_items = 0, sw_max_size = 50,
     sw_fsync_items = 2, sw_failed_over = False, sw_drop_cache = False, fs_files = [((Primary, 0), [79, 90,
     66, 50, 1, 0, 0, 0, 8, 0, 0, 0, 8, 0, 0, 0, 223, 174, 28, 76, 1, 1, 2, 3, 4, 5, 6, 7, 8, 79, 90, 66, 50,
     1, 0, 0, 0, 8, 0, 0, 0, 8, 0, 0, 0, 191, 74, 66, 72, 2, 2, 2, 3, 4, 5, 6, 7, 8]), ((Primary, 1), [79, 90,
     66, 50, 1, 0, 0, 0, 8, 0, 0, 0, 8, 0, 0, 0, 159, 230, 103, 68, 3, 3, 2, 3, 4, 5, 6, 7, 8, 79, 90, 66, 50,
     1, 0, 0, 0, 8, 0, 0, 0, 8, 0, 0, 0, 149, 111, 232, 90, 1, 11, 2, 3, 4, 5, 6, 7, 8])], fs_meta =
     [(Primary, [1, 0, 0, 0, 58, 0, 0, 0, 0, 0, 0, 0])], fs_ballast = None, fs_statvfs = Some (512, 1000000,
     900000), fs_append_faults = [], fs_read_faults = [], fs_faults = []\<rparr>, en_index = \<lparr>ix_addr =
     [([1], [1, 0, 0, 0, 29, 0, 0, 0, 0, 0, 0, 0, 8, 0, 0, 0, 1, 0, 149, 111, 232, 90, 8, 0, 0, 0, 0, 0]),
     ([3], [1, 0, 0, 0, 0, 0, 0, 0, 0, 0, 0, 0, 8, 0, 0, 0, 1, 0, 159, 230, 103, 68, 8, 0, 0, 0, 0, 0]), ([2],
     [0, 0, 0, 0, 29, 0, 0, 0, 0, 0, 0, 0, 8, 0, 0, 0, 1, 0, 191, 74, 66, 72, 8, 0, 0, 0, 0, 0])], ix_inline =
     [], ix_meta = [([100, 105, 115, 99, 97, 114, 100, 46, 48], 8)], ix_cursor = []\<rparr>, en_index_faults =
     [], en_ballast_present = False, en_used_bytes = 32, en_gc_pass_count = 0\<rparr>"
  unfolding busy_engine_def by code_simp

lemma puts_ok:
  assumes "engine_ok ref_env (length ps + n) e" and "\<forall>(k, b) \<in> set ps. length k < 2 ^ 16 \<and> length b < 2 ^ 32"
  shows "engine_ok ref_env n (fold (\<lambda>(k, b) e. fst (engine_put ref_env e k b)) ps e)"
  using assms
proof (induction ps arbitrary: e)
  case (Cons p ps)
  obtain k b where p: "p = (k, b)" by fastforce
  have "engine_ok ref_env (Suc (length ps + n)) e" using Cons.prems(1) by simp
  from ref_env.disk.put_law [OF this, of k b] Cons.prems(2)
  have "engine_ok ref_env (length ps + n) (fst (engine_put ref_env e k b))"
    by (cases "engine_put ref_env e k b"; cases "snd (engine_put ref_env e k b)") (auto simp: p disk_ops_def)
  from Cons.IH [OF this] Cons.prems(2) show ?case by (simp add: p)
qed simp

lemma busy_ok: "engine_ok ref_env 100 busy_engine"
proof -
  have "engine_ok ref_env (length busy_puts + 100) fresh_engine"
    using fresh_engine_inv by (simp add: engine_ok_def busy_puts_def room_def)
  then show ?thesis
    unfolding busy_engine_def by (rule puts_ok) (simp add: busy_puts_def body_def)
qed

lemma busy_inv: "engine_inv ref_env busy_engine" "room busy_engine 100"
  using busy_ok by (simp_all add: engine_ok_def room_def)

lemma busy_calm: "calm (en_index_faults busy_engine)" "calm (fs_read_faults (en_disk busy_engine))" "calm (fs_faults (en_disk busy_engine))"
proof -
  have "en_index_faults busy_engine = [] \<and> fs_read_faults (en_disk busy_engine) = [] \<and> fs_faults (en_disk busy_engine) = []"
    by code_simp
  then show "calm (en_index_faults busy_engine)" "calm (fs_read_faults (en_disk busy_engine))" "calm (fs_faults (en_disk busy_engine))"
    by (simp_all add: calm_def)
qed

section \<open>Writing and reading\<close>

text \<open>C2: on an engine without a failover directory, whichever rotation, metadata write, sync or index transaction fails (the data append itself
  does not), a put either succeeds and the view is updated at exactly its key, or it fails and the view is unchanged; it fails only if a fault
  was pending.\<close>

theorem put_refines:
  assumes "engine_laws E" and "engine_inv E e" and "room e 2" and "length k < 2 ^ 16" and "length b < 2 ^ 32"
  shows "case put_impl E e k b obj of
      (e', Inr u) \<Rightarrow> engine_inv E e' \<and> view E e' = (view E e)(k \<mapsto> b)
    | (e', Inl er) \<Rightarrow> engine_inv E e' \<and> view E e' = view E e \<and> \<not> calm (fs_faults (en_disk e))"
  using engine_laws.put_impl_spec [OF assms, of obj]
  by (cases "put_impl E e k b obj"; cases "snd (put_impl E e k b obj)") (auto simp: engine_step_def)

theorem put_refines_witness:
  "case put_impl ref_env busy_engine [9] (body 9) (Some 8) of
      (e', Inr u) \<Rightarrow> engine_inv ref_env e' \<and> view ref_env e' = (view ref_env busy_engine)([9] \<mapsto> body 9)
    | (e', Inl er) \<Rightarrow> engine_inv ref_env e' \<and> view ref_env e' = view ref_env busy_engine \<and> \<not> calm (fs_faults (en_disk busy_engine))"
  by (rule put_refines [OF ref_env.engine_laws_axioms busy_inv(1)])
    (use busy_inv(2) in \<open>simp_all add: room_def body_def\<close>)

text \<open>C3: a read returns the body in the view; it says \<open>NotFound\<close> exactly for a key the view does not have, never
  under a fault of a present key; any other error needs a fault of the index or of a segment read.\<close>

theorem get_refines:
  assumes "engine_inv E e"
  shows "case engine_get E e k of
      (e', Inr b) \<Rightarrow> view E e k = Some b \<and> engine_inv E e' \<and> view E e' = view E e
    | (e', Inl er) \<Rightarrow> engine_inv E e' \<and> view E e' = view E e \<and>
        (if er = NotFound then view E e k = None
         else \<not> calm (fs_read_faults (en_disk e)) \<or> \<not> calm (en_index_faults e))"
  using get_spec [OF assms, of k]
  by (cases "engine_get E e k"; cases "snd (engine_get E e k)") (auto simp: engine_step_def)

theorem get_refines_witness:
  "snd (engine_get ref_env busy_engine [1]) = Inr (body 11) \<and> view ref_env busy_engine [1] = Some (body 11)"
proof -
  have "snd (engine_get ref_env busy_engine [1]) = Inr (body 11)" by code_simp
  with get_refines [OF busy_inv(1), of "[1]"] show ?thesis
    by (cases "engine_get ref_env busy_engine [1]") auto
qed

text \<open>Without faults a put succeeds and the next read returns the body that was put, through inline
  storage, compression, rotation and all.\<close>

theorem put_get_roundtrip:
  assumes "engine_laws E" and "engine_inv E e" and "room e 2" and "length k < 2 ^ 16" and "length b < 2 ^ 32"
    and "calm (fs_faults (en_disk e))" and "calm (fs_read_faults (en_disk e))" and "calm (en_index_faults e)"
  shows "\<exists>e1 e2. put_impl E e k b obj = (e1, Inr ()) \<and> engine_get E e1 k = (e2, Inr b)"
proof -
  obtain e1 r where p: "put_impl E e k b obj = (e1, r)" by fastforce
  note s = engine_laws.put_impl_spec [OF assms(1-5), of obj, unfolded p]
  have r: "r = Inr ()" using s assms(6) by (cases r) auto
  then have st: "engine_step E 2 ((view E e)(k \<mapsto> b)) e e1" using s by simp
  note d = engine_stepD [OF st]
  have "snd (engine_get E e1 k) = Inr b"
    using get_spec [OF d(1), of k] d(2) d(4) [OF assms(7)] d(5) [OF assms(8)]
    by (cases "engine_get E e1 k"; cases "snd (engine_get E e1 k)") (auto split: if_splits)
  then show ?thesis using p r by (metis prod.collapse)
qed

theorem put_get_roundtrip_witness:
  "\<exists>e1 e2. put_impl ref_env busy_engine [7] (replicate 100 5) None = (e1, Inr ()) \<and> engine_get ref_env e1 [7] = (e2, Inr (replicate 100 5))"
  by (rule put_get_roundtrip [OF ref_env.engine_laws_axioms busy_inv(1)])
    (use busy_inv(2) busy_calm in \<open>simp_all add: room_def\<close>)

text \<open>C25: a delete removes exactly its key from the view, or fails and changes nothing.\<close>

theorem delete_refines:
  assumes "engine_laws E" and "engine_inv E e"
  shows "case engine_delete E e k of
      (e', Inr u) \<Rightarrow> engine_inv E e' \<and> view E e' = (view E e)(k := None)
    | (e', Inl er) \<Rightarrow> engine_inv E e' \<and> view E e' = view E e \<and> \<not> calm (fs_faults (en_disk e))"
  using engine_laws.delete_spec [OF assms, of k 0]
  by (cases "engine_delete E e k"; cases "snd (engine_delete E e k)") (auto simp: engine_step_def)

theorem delete_refines_witness:
  "case engine_delete ref_env busy_engine [3] of
      (e', Inr u) \<Rightarrow> engine_inv ref_env e' \<and> view ref_env e' = (view ref_env busy_engine)([3] := None)
    | (e', Inl er) \<Rightarrow> engine_inv ref_env e' \<and> view ref_env e' = view ref_env busy_engine \<and> \<not> calm (fs_faults (en_disk busy_engine))"
  by (rule delete_refines [OF ref_env.engine_laws_axioms busy_inv(1)])

text \<open>\<open>stat\<close> answers from the index with the length of the body a read would return.\<close>

theorem stat_exact:
  assumes "engine_inv E e" and "engine_stat E e k = (e', Inr n)"
  shows "\<exists>b. view E e k = Some b \<and> n = length b"
  using stat_spec [OF assms(1), of k] assms(2) by auto

theorem stat_exact_witness: "\<exists>b. view ref_env busy_engine [3] = Some b \<and> 8 = length b"
proof -
  have "snd (engine_stat ref_env busy_engine [3]) = Inr 8" by code_simp
  then have "engine_stat ref_env busy_engine [3] = (fst (engine_stat ref_env busy_engine [3]), Inr 8)" by (metis prod.collapse)
  from stat_exact [OF busy_inv(1) this] show ?thesis .
qed

section \<open>Listing\<close>

text \<open>C20: a listing whose start-after key, if any, is not before the prefix is the first \<open>limit\<close> keys, in order and without repetition,
  of those in the view that have the prefix and follow the start-after key, each with its size.\<close>

theorem list_complete:
  assumes "engine_laws E" and "engine_inv E e" and "\<forall>a. after = Some a \<longrightarrow> p \<le> a"
    and "engine_list E e p after limit = (e', Inr out)"
  shows "\<exists>ks. sorted_wrt (<) ks \<and> set ks = listed (view E e) p after \<and> out = map (\<lambda>k. (k, list_size E e k)) (take limit ks)"
proof -
  have "out = list_rows E (en_index e) p after limit"
    using assms(4) db_read_post [of e "\<lambda>ix. list_rows E ix p after limit"] by (auto simp: engine_list_def)
  with engine_laws.list_rows_spec [OF assms(1-3), of limit] show ?thesis by simp
qed

theorem list_complete_witness:
  "\<exists>ks. sorted_wrt (<) ks \<and> set ks = listed (view ref_env busy_engine) [] (Some [1]) \<and>
     [([2], 8), ([3], 8)] = map (\<lambda>k. (k, list_size ref_env busy_engine k)) (take 2 ks)"
proof -
  have "snd (engine_list ref_env busy_engine [] (Some [1]) 2) = Inr [([2], 8), ([3], 8)]" by code_simp
  then have "engine_list ref_env busy_engine [] (Some [1]) 2 = (fst (engine_list ref_env busy_engine [] (Some [1]) 2), Inr [([2], 8), ([3], 8)])"
    by (metis prod.collapse)
  from list_complete [OF ref_env.engine_laws_axioms busy_inv(1) _ this] show ?thesis by simp
qed

end
