(* ===== verification/Gc_Thms.thy ===== *)
theory Gc_Thms
  imports Engine_Thms
begin

text \<open>
  Properties of the disk engine under concurrency and after a crash: garbage collection with
  concurrent writers, a read that races with it, recovery of a torn segment, the scrub.
\<close>

section \<open>Garbage collection\<close>

text \<open>C1: a collection pass changes what the engine holds by nothing but the clients' own operations. Other threads put and delete, each
  operation as one atomic step (data append and index insert together), before the liveness check of any record or between its copy and the index
  swap; no client runs during the flush, the unlink or the orphan sweep. Rotations, the flush, the unlink and index commits may fail at any point
  (reads of disk and index do not, the data append does not, and there is no failover directory). The view after the pass is the old
  view with the successful client operations applied in order, and the victim that a successful pass reports is gone. The real-time race of
  the sweep with an append that is not indexed yet lies outside of this schedule.\<close>

theorem gc_transparent:
  assumes "engine_laws E" and "engine_inv E e" and "calm (en_index_faults e)" and "calm (fs_read_faults (en_disk e))"
    and "sched_ok sched" and "gc_room E sched e" and "gc_once E ratio (gc_start sched e) = (s, r)"
  shows "engine_inv E (gr_eng s) \<and> view E (gr_eng s) = abs_run (gr_log s) (view E e) \<and>
    (\<forall>rep v. r = Inr rep \<and> victim_seg rep = Some v \<longrightarrow> file_at (en_disk (gr_eng s)) Primary v = None)"
  using engine_laws.gc_once_spec [OF assms(1-6), of ratio] assms(7)
  by (cases r) (auto simp: pass_ok_def)

text \<open>A pass over the run of \<open>Engine_Thms\<close>: key 2 is overwritten just after its record was copied.\<close>

definition gc_sched :: "(client_op list \<times> client_op list) list" where
  "gc_sched = [([], []), ([], [ClPut [2] (body 22) None])]"

lemma busy_gc_room: "gc_room ref_env gc_sched busy_engine"
proof -
  have "length (fst (scan_records sum_crc i 0 c)) \<le> 2" if f: "file_at (en_disk busy_engine) Primary i = Some c" for i c
  proof -
    have two: "length (fst (scan_records sum_crc 0 0 (the (file_at (en_disk busy_engine) Primary 0)))) \<le> 2"
      "length (fst (scan_records sum_crc 1 0 (the (file_at (en_disk busy_engine) Primary 1)))) \<le> 2" by code_simp+
    have "i = 0 \<or> i = 1" using f by (auto simp: busy_engine_eq file_at_def split: if_splits)
    then show ?thesis using two f by auto
  qed
  then show ?thesis
    using busy_inv(2) by (fastforce simp: gc_room_def gc_sched_def sched_ops_def room_def ref_env_def)
qed

definition gc_result where
  "gc_result = gc_once ref_env (1 / 10) (gc_start gc_sched busy_engine)"

lemma gc_result_run:
  "(case gc_result of (s, r) \<Rightarrow> (r, gr_log s, file_at (en_disk (gr_eng s)) Primary 0, file_at (en_disk (gr_eng s)) Primary 1)) =
    (Inr \<lparr>victim_seg = Some 0, live_moved = 0, reclaimed_bytes = 58, orphans_removed = 0, orphan_bytes = 0\<rparr>,
     [(ClPut [2] (body 22) None, True)], None, file_at (en_disk busy_engine) Primary 1)"
  by code_simp

theorem gc_transparent_witness:
  "view ref_env (gr_eng (fst gc_result)) = (view ref_env busy_engine)([2] \<mapsto> body 22) \<and>
   file_at (en_disk (gr_eng (fst gc_result))) Primary 0 = None"
proof -
  have eq: "gc_once ref_env (1 / 10) (gc_start gc_sched busy_engine) = (fst gc_result, snd gc_result)"
    by (simp add: gc_result_def)
  have "sched_ok gc_sched" by (simp add: sched_ok_def gc_sched_def body_def)
  from gc_transparent [OF ref_env.engine_laws_axioms busy_inv(1) busy_calm(1,2) this busy_gc_room eq]
  show ?thesis using gc_result_run by (simp add: case_prod_unfold abs_run_def)
qed

section \<open>Reads that race with it\<close>

text \<open>C28: a read that loses its record to a concurrent move still answers: with no read faults its result is the one the
  key had when the read began, or the one it has after what the other threads did between the
  first lookup and the first read (files may have been removed there); the second attempt suffices
  as long as no file is removed during it.\<close>

theorem get_linearizes:
  assumes "engine_inv E e" and "calm (en_index_faults e)" and "calm (fs_read_faults (en_disk e))"
    and "race E (next_read e) (f1 (next_read e))"
    and "\<And>x. engine_inv E x \<Longrightarrow> race E x (f2 x) \<and> grows (en_disk x) (en_disk (f2 x))"
  shows "snd (engine_get_racing E f1 f2 e k) \<in> {read_result (view E e k), read_result (view E (f1 (next_read e)) k)}"
  by (rule get_racing) (use assms in auto)

lemma gc_result_ok: "pass_ok ref_env (view ref_env busy_engine) (fst gc_result)"
proof -
  have "sched_ok gc_sched" by (simp add: sched_ok_def gc_sched_def body_def)
  from engine_laws.gc_once_spec [OF ref_env.engine_laws_axioms busy_inv(1) busy_calm(1,2) this busy_gc_room, of "1 / 10"] show ?thesis
    by (cases gc_result; cases "snd gc_result") (auto simp: gc_result_def)
qed

lemma gc_result_race: "race ref_env (next_read busy_engine) (gr_eng (fst gc_result))"
proof -
  have "files_evolve (en_disk busy_engine) (en_disk (gr_eng (fst gc_result)))"
    unfolding files_evolve_def
  proof (intro allI impI)
    fix i c assume f: "file_at (en_disk busy_engine) Primary i = Some c"
    then have "i = 0 \<or> i = 1" by (auto simp: busy_engine_eq file_at_def split: if_splits)
    then show "file_at (en_disk (gr_eng (fst gc_result))) Primary i = None \<or>
        (\<exists>ext. file_at (en_disk (gr_eng (fst gc_result))) Primary i = Some (c @ ext))"
      using gc_result_run f by (auto simp: case_prod_unfold intro: exI [of _ "[]"])
  qed
  then show ?thesis using gc_result_ok by (simp add: race_def pass_ok_def)
qed

theorem get_linearizes_witness:
  "snd (engine_get_racing ref_env (\<lambda>x. gr_eng (fst gc_result)) id busy_engine [2]) \<in> {Inr (body 2), Inr (body 22)}"
proof -
  have r2: "race ref_env x (id x) \<and> grows (en_disk x) (en_disk (id x))" if "engine_inv ref_env x"
    for x :: "((bytes \<times> bytes) list, (bytes \<times> u64) list) engine"
    using that by (simp add: race_def files_evolve_grows)
  have v: "view ref_env busy_engine [2] = Some (body 2)" by code_simp
  have "view ref_env (gr_eng (fst gc_result)) [2] = Some (body 22)"
    using gc_result_ok gc_result_run by (simp add: pass_ok_def case_prod_unfold abs_run_def)
  then show ?thesis
    using get_linearizes [where ?f1.0 = "\<lambda>x. gr_eng (fst gc_result)" and ?f2.0 = id and k = "[2]", OF busy_inv(1) busy_calm(1,2) gc_result_race r2] v
    by (simp add: read_result_def)
qed

section \<open>Recovery\<close>

text \<open>C21: opening after a crash in the middle of an append: exactly the whole records behind the recovery point of
  \<open>seg.meta\<close> are found, at their addresses; the torn tail is cut off; the writer continues at
  the end of the last whole record; no other file is touched.\<close>

theorem open_recovers_torn_tail:
  assumes "crashed crc seg rs1 rs2 t d"
  shows "\<exists>d'. seg_open crc False max_size fsync_items drop_cache d = (d', Inr (recs_all crc seg (length (enc_all crc rs1)) rs2)) \<and>
    file_at d' Primary seg = Some (enc_all crc (rs1 @ rs2)) \<and> sw_len d' = length (enc_all crc (rs1 @ rs2)) \<and>
    (\<forall>dr i. (dr, i) \<noteq> (Primary, seg) \<longrightarrow> file_at d' dr i = file_at d dr i) \<and> sw_seg_id d' = seg"
  using seg_open_recovers [OF assms] by blast

definition crashed_disk :: disk where
  "crashed_disk = blank_disk\<lparr>fs_files := [((Primary, 3), enc_all sum_crc [([1], [7], 1, 0), ([2], [8, 9], 2, 0)]
      @ take 21 (enc_rec sum_crc [4] [5, 6] 2 0))], fs_meta := [(Primary, le32 3 @ le64 (word_of_nat (length (enc_all sum_crc [([1], [7], 1, 0)]))))]\<rparr>"

theorem open_recovers_torn_tail_witness:
  "\<exists>d'. seg_open sum_crc False 50 2 False crashed_disk =
      (d', Inr (recs_all sum_crc 3 (length (enc_all sum_crc [([1], [7], 1, 0)])) [([2], [8, 9], 2, 0)])) \<and>
    file_at d' Primary 3 = Some (enc_all sum_crc ([([1], [7], 1, 0)] @ [([2], [8, 9], 2, 0)])) \<and>
    sw_len d' = length (enc_all sum_crc ([([1], [7], 1, 0)] @ [([2], [8, 9], 2, 0)])) \<and>
    (\<forall>dr i. (dr, i) \<noteq> (Primary, 3) \<longrightarrow> file_at d' dr i = file_at crashed_disk dr i) \<and> sw_seg_id d' = 3"
proof (rule open_recovers_torn_tail)
  have "torn sum_crc (take 21 (enc_rec sum_crc [4] [5, 6] 2 0))"
    unfolding torn_def by (intro exI [of _ "[4]"] exI [of _ "[5, 6]"] exI [of _ 2] exI [of _ 0] exI [of _ 21])
      (simp add: rec_fits_def HEADER_LEN_def)
  then show "crashed sum_crc 3 [([1], [7], 1, 0)] [([2], [8, 9], 2, 0)] (take 21 (enc_rec sum_crc [4] [5, 6] 2 0)) crashed_disk"
    by (simp add: crashed_def crashed_disk_def recs_fit_def rec_fits_def file_at_def blank_disk_def calm_def HEADER_LEN_def)
qed

text \<open>The rows of the index after recovery: a key with records in the recovered tail gets the row of the last of them,
  with the object size read back from an erasure-coded piece's own header; other rows stay.\<close>

theorem recovery_rows:
  assumes "engine_laws E"
  shows "kv_get (ee_kv E) (ix_addr (recover_index E rs ix)) k =
    (case find (\<lambda>r. rr_key r = k) (rev rs) of
       Some r \<Rightarrow> Some (encode_addr (recovered_entry E r))
     | None \<Rightarrow> kv_get (ee_kv E) (ix_addr ix) k)"
  by (rule engine_laws.recover_index_rows(1) [OF assms])

theorem recovery_rows_witness:
  "kv_get list_kv (ix_addr (recover_index ref_env (recs_all sum_crc 3 29 [([2], [8, 9], 2, 0)]) (empty_index ref_env))) [2] =
    Some (encode_addr \<lparr>ae_addr = \<lparr>ra_seg_id = 3, ra_offset = 29, ra_stored_len = 2, ra_key_len = 1\<rparr>, ae_crc = sum_crc [2, 8, 9],
      ae_logical_len = 2, ae_flags = 0, ae_obj_logical = None\<rparr>)"
  using recovery_rows [OF ref_env.engine_laws_axioms, of "recs_all sum_crc 3 29 [([2], [8, 9], 2, 0)]" "empty_index ref_env" "[2]"]
  by (simp add: ref_env_def rec_of_def recovered_entry_def recovered_obj_logical_def is_zstd_def FLAG_ZSTD_def parse_piece_header_def EC_HEADER_LEN_def)

section \<open>Codecs and scrub\<close>

text \<open>An index row round-trips through its encoding, in the 28-byte and in the 36-byte form.\<close>

theorem addr_row_roundtrip:
  "decode_addr (encode_addr ae) = Some ae \<and> length (encode_addr ae) = (if ae_obj_logical ae = None then 28 else 36)"
  by (simp add: length_encode_addr)

text \<open>The scrub of a healthy engine, for any batch of keys: every present key is counted with the length of its body,
  keys deleted in between are skipped, none is reported corrupt.\<close>

theorem scrub_sound:
  assumes "engine_inv E e" and "calm (en_index_faults e)" and "calm (fs_read_faults (en_disk e))"
  shows "snd (scrub_keys E ks st e) =
    st\<lparr>ss_checked := ss_checked st + length (filter (\<lambda>k. view E e k \<noteq> None) ks),
       ss_bytes := ss_bytes st + sum_list (map (\<lambda>k. case view E e k of None \<Rightarrow> 0 | Some b \<Rightarrow> length b) ks)\<rparr>"
  by (rule scrub_keys_spec(1) [OF assms])

theorem scrub_sound_witness:
  "snd (scrub_keys ref_env [[1], [7], [3]] \<lparr>ss_checked = 0, ss_bytes = 0, ss_corrupt = [], ss_last_key = None, ss_done = True\<rparr> busy_engine) =
    \<lparr>ss_checked = 2, ss_bytes = 16, ss_corrupt = [], ss_last_key = None, ss_done = True\<rparr>"
proof -
  have "view ref_env busy_engine [1] = Some (body 11) \<and> view ref_env busy_engine [7] = None \<and> view ref_env busy_engine [3] = Some (body 3)"
    by code_simp
  then show ?thesis
    unfolding scrub_sound [OF busy_inv(1) busy_calm(1,2)] by (simp add: body_def)
qed

end
