(* ===== verification/Pool_Thms.thy ===== *)
theory Pool_Thms
  imports Pool_Meta_Laws Gc_Thms
begin

text \<open>
  The pool over disk engines with rendezvous placement: the composition satisfies \<open>pool_laws\<close>, and the properties of
  the client operations of a mirrored pool follow from the lemmas of the locale.
\<close>

section \<open>The composition\<close>

text \<open>
  \<open>disk_pool EE pol xxh3 PE\<close>: the pool environment \<open>PE\<close> runs on disk engines of the environment \<open>EE\<close> and
  places by weighted rendezvous hashing. Nothing is assumed of the latencies, and of the order of
  replies only that each reply arrives once.
\<close>

definition disk_pool ::
  "('t, 'm) engine_env \<Rightarrow> rendezvous_hrw \<Rightarrow> keyed_hash \<Rightarrow> ('t, 'm) engine pool_env \<Rightarrow> bool" where
  "disk_pool EE pol xxh3 PE \<longleftrightarrow> pe_ops PE = disk_ops EE \<and> pe_select PE = select pol xxh3 \<and>
     (\<forall>t legs. mset (pe_arrival PE t legs) = mset legs)"

lemma select_laws:
  "distinct (map fst topo) \<Longrightarrow> set (select pol xxh3 k topo n) \<subseteq> set (map fst topo)"
  "distinct (map fst topo) \<Longrightarrow> distinct (select pol xxh3 k topo n)"
  "length (select pol xxh3 k topo n) \<le> n"
proof -
  show "length (select pol xxh3 k topo n) \<le> n" by (simp add: select_def)
  assume "distinct (map fst topo)"
  from distinct_ranking [OF this] show "distinct (select pol xxh3 k topo n)" by (simp add: select_def take_map [symmetric])
  show "set (select pol xxh3 k topo n) \<subseteq> set (map fst topo)"
    by (auto simp: select_def set_ranking dest!: in_set_takeD)
qed

context engine_laws
begin

lemma disk_port: "shard_port (disk_ops E) (engine_ok E) (view E) engine_fine"
  by (rule disk.shard_port_axioms)

end

lemma disk_pool_laws:
  assumes "engine_laws EE" and "disk_pool EE pol xxh3 PE"
  shows "pool_laws (disk_ops EE) (engine_ok EE) (view EE) engine_fine PE"
  using assms(2)
  by (intro pool_laws.intro pool_laws_axioms.intro engine_laws.disk_port [OF assms(1)])
    (auto simp: disk_pool_def select_laws(2,3) dest: subsetD [OF select_laws(1)])

text \<open>Bookkeeping does not influence placement.\<close>

lemma topology_metrics:
  "pool_topology E (p\<lparr>po_metrics := m\<rparr>) = (let (q, t) = pool_topology E p in (q\<lparr>po_metrics := m\<rparr>, t))"
proof -
  have cap: "shard_capacity E i (p\<lparr>po_metrics := m\<rparr>) = (let (q, c) = shard_capacity E i p in (q\<lparr>po_metrics := m\<rparr>, c))" for i p
    by (auto simp: shard_capacity_def shard_call_def Let_def split: option.split prod.split sum.split)
  have stat: "po_statuses (fst (shard_capacity E i p)) = po_statuses p \<and> po_slow_flags (fst (shard_capacity E i p)) = po_slow_flags p" for i p
    by (auto simp: shard_capacity_def shard_call_def Let_def split: option.split prod.split sum.split)
  have "scan_topology E is (p\<lparr>po_metrics := m\<rparr>) = (let (q, t) = scan_topology E is p in (q\<lparr>po_metrics := m\<rparr>, t))" for "is" p
    by (induction "is" arbitrary: p) (auto simp: cap Let_def split: prod.split)
  then show ?thesis by (auto simp: pool_topology_def Let_def split: option.split prod.split)
qed

lemma replicas_tally: "snd (replicas_for E k (tally c n p)) = snd (replicas_for E k p)"
  by (simp add: replicas_for_def ranking_for_def tally_def topology_metrics Let_def split_beta)

lemma tally_irrelevant [simp]: "pool_ok ok n (tally c m p) = pool_ok ok n p" "views V (tally c m p) = views V p"
  by (simp_all add: pool_ok_def views_def)

text \<open>A pool whose bodies are mirrored without outboard records.\<close>

definition mirror_cfg :: "pool_config \<Rightarrow> bool" where
  "mirror_cfg cfg \<longleftrightarrow> pc_ec cfg = None \<and> pc_outboard cfg = None"

lemma pool_put_mirror:
  assumes "mirror_cfg (pe_cfg E)" and "\<not> po_shutting_down p" and "pool_put E k b p = (p', r)"
  obtains q where "put_mirror E k b (tally InflightPuts 1 p) = (q, r)" "po_shards p' = po_shards q" "po_topo p' = po_topo q"
    "po_mrf p' = po_mrf q" "po_shutting_down p' = po_shutting_down q"
proof -
  obtain q r' where q: "put_mirror E k b (tally InflightPuts 1 p) = (q, r')" by fastforce
  have "put_inner E k b (tally InflightPuts 1 p) = (q, r')" using assms(1) q by (simp add: put_inner_def put_body_def mirror_cfg_def)
  then show ?thesis using assms(2,3) that [of q] q by (cases r') (auto simp: pool_put_def is_shutting_down_def Let_def)
qed

lemma pool_get_mirror:
  assumes "mirror_cfg (pe_cfg E)" and "pool_get E k p = (p', r)"
  obtains q where "get_mirror E k (tally InflightGets 1 p) = (q, r)" "po_shards p' = po_shards q" "po_topo p' = po_topo q"
    "po_mrf p' = po_mrf q" "po_shutting_down p' = po_shutting_down q"
proof -
  obtain q r' where q: "get_mirror E k (tally InflightGets 1 p) = (q, r')" by fastforce
  have "get_inner E k (tally InflightGets 1 p) = (q, r')" using assms(1) q by (simp add: get_inner_def mirror_cfg_def)
  then show ?thesis using assms(2) that [of q] q
    by (cases r') (auto simp: pool_get_def Let_def split: domain_error.splits)
qed

section \<open>Writing\<close>

text \<open>What a mirrored put does to the maps of the shards.\<close>

lemma mirror_put_placed:
  assumes "engine_laws EE" and "disk_pool EE pol xxh3 PE" and "mirror_cfg (pe_cfg PE)" and "\<not> po_shutting_down p"
    and "pool_ok (engine_ok EE) (length (po_shards p)) p" and "fits k b" and "pool_put PE k b p = (p', r)"
  shows "let reps = snd (replicas_for PE k p) in \<exists>S \<subseteq> {0..<length (po_shards p)}.
     views (view EE) p' = write_at S k b (views (view EE) p) \<and>
     (isl r \<longleftrightarrow> reps = [] \<or> card S < min (pc_write_quorum (pe_cfg PE)) (length reps)) \<and>
     po_mrf p' = (if set reps \<subseteq> S then po_mrf p else hq_push (po_mrf p) k Normal) \<and>
     (\<forall>i \<in> set reps - S. \<not> engine_fine (po_shards p ! i)) \<and>
     pool_ok (engine_ok EE) 0 p' \<and> (\<forall>i < length (po_shards p). engine_fine (po_shards p ! i) \<longrightarrow> engine_fine (po_shards p' ! i))"
proof -
  note laws = disk_pool_laws [OF assms(1,2)]
  let ?p = "tally InflightPuts 1 p"
  obtain q where q: "put_mirror PE k b ?p = (q, r)" "po_shards p' = po_shards q" "po_topo p' = po_topo q" "po_mrf p' = po_mrf q"
      "po_shutting_down p' = po_shutting_down q" using pool_put_mirror [OF assms(3,4,7)] .
  obtain p0 reps where rep: "replicas_for PE k ?p = (p0, reps)" by fastforce
  have reps: "snd (replicas_for PE k p) = reps" using replicas_tally [of PE k InflightPuts 1 p] unfolding rep by simp
  have "pool_ok (engine_ok EE) (length (po_shards ?p)) ?p" using assms(5) by simp
  from pool_laws.put_mirror_step [OF laws this assms(6) q(1) rep] obtain S where S: "S \<subseteq> {0..<length (po_shards p)}"
      "pool_stepq (engine_ok EE) (view EE) engine_fine (length (po_shards p)) (write_at S k b (views (view EE) p)) ?p q"
      "isl r \<longleftrightarrow> reps = [] \<or> card S < min (pc_write_quorum (pe_cfg PE)) (length reps)"
      "po_mrf q = (if set reps \<subseteq> S then po_mrf p else hq_push (po_mrf p) k Normal)" "\<forall>i \<in> set reps - S. \<not> engine_fine (po_shards p ! i)"
    unfolding tally_irrelevant tally_fields by (elim exE conjE) (rule that)
  note d = pool_stepqD [OF S(2)]
  have "pool_ok (engine_ok EE) 0 q" using d(1) [of 0] assms(5) by simp
  then have "pool_ok (engine_ok EE) 0 p'" by (simp add: pool_ok_def q)
  moreover have "views (view EE) p' = write_at S k b (views (view EE) p)" using d(2) by (simp add: views_def q)
  moreover have "\<forall>i < length (po_shards p). engine_fine (po_shards p ! i) \<longrightarrow> engine_fine (po_shards p' ! i)" using d(5) by (simp add: q)
  ultimately show ?thesis unfolding Let_def reps using S by (intro exI [of _ S]) (simp add: q)
qed

text \<open>C4: a mirrored put (bodies without outboard records) writes the body to a set of shards and touches nothing else. It succeeds exactly when some
  replica was selected and the set has \<open>min W n\<close> shards, for the write quorum \<open>W\<close> and the \<open>n\<close> replicas that the ranking selected, handoff copies on spare shards included:
  with fewer eligible shards than \<open>W\<close> it succeeds on all of them. Every target that refused the write is one with a fault, and then the key is queued for repair.\<close>

theorem pool_put_quorum:
  assumes "engine_laws EE" and "disk_pool EE pol xxh3 PE" and "mirror_cfg (pe_cfg PE)" and "\<not> po_shutting_down p"
    and "pool_ok (engine_ok EE) (length (po_shards p)) p" and "fits k b" and "pool_put PE k b p = (p', r)"
  shows "let reps = snd (replicas_for PE k p) in \<exists>S \<subseteq> {0..<length (po_shards p)}.
     views (view EE) p' = write_at S k b (views (view EE) p) \<and>
     (isl r \<longleftrightarrow> reps = [] \<or> card S < min (pc_write_quorum (pe_cfg PE)) (length reps)) \<and>
     po_mrf p' = (if set reps \<subseteq> S then po_mrf p else hq_push (po_mrf p) k Normal) \<and>
     (\<forall>i \<in> set reps - S. \<not> engine_fine (po_shards p ! i)) \<and>
     pool_ok (engine_ok EE) 0 p' \<and> (\<forall>i < length (po_shards p). engine_fine (po_shards p ! i) \<longrightarrow> engine_fine (po_shards p' ! i))"
  using assms by (rule mirror_put_placed)

section \<open>Reading\<close>

text \<open>What a read of a mirrored pool answers.\<close>

lemma mirror_get_answers:
  assumes "engine_laws EE" and "disk_pool EE pol xxh3 PE" and "mirror_cfg (pe_cfg PE)"
    and "pool_ok (engine_ok EE) 0 p" and "pool_get PE k p = (p', r)"
  shows "views (view EE) p' = views (view EE) p \<and> pool_ok (engine_ok EE) 0 p' \<and>
    (case r of Inr v \<Rightarrow> \<exists>i < length (po_shards p). (views (view EE) p ! i) k = Some v
     | Inl e \<Rightarrow> \<forall>i < length (po_shards p). engine_fine (po_shards p ! i) \<longrightarrow> (views (view EE) p ! i) k = None)"
proof -
  note laws = disk_pool_laws [OF assms(1,2)]
  let ?p = "tally InflightGets 1 p"
  obtain q where q: "get_mirror PE k ?p = (q, r)" "po_shards p' = po_shards q" "po_topo p' = po_topo q" "po_mrf p' = po_mrf q"
      "po_shutting_down p' = po_shutting_down q" using pool_get_mirror [OF assms(3,5)] .
  have ok: "pool_ok (engine_ok EE) 0 ?p" using assms(4) by simp
  note g = pool_laws.get_mirror_answers [OF laws ok q(1)]
  have "pool_ok (engine_ok EE) 0 q" using pool_step_ok0 [OF conjunct1 [OF g] ok] .
  then have "pool_ok (engine_ok EE) 0 p'" by (simp add: pool_ok_def q)
  moreover have "views (view EE) p' = views (view EE) p" using pool_step_views [OF conjunct1 [OF g]] by (simp add: views_def q)
  ultimately show ?thesis using g by (cases r) (auto simp: held_by_def sure_def atLeast0LessThan)
qed

text \<open>C6: a read of a mirrored pool changes no map; a body it returns is one that a shard holds for the key, and it returns a body whenever any
  fault-free shard holds the key, wherever that shard ranks and whatever the other shards answer or when.\<close>

theorem pool_get_available:
  assumes "engine_laws EE" and "disk_pool EE pol xxh3 PE" and "mirror_cfg (pe_cfg PE)"
    and "pool_ok (engine_ok EE) 0 p" and "pool_get PE k p = (p', r)"
  shows "views (view EE) p' = views (view EE) p \<and> pool_ok (engine_ok EE) 0 p' \<and>
    (case r of Inr v \<Rightarrow> \<exists>i < length (po_shards p). (views (view EE) p ! i) k = Some v
     | Inl e \<Rightarrow> \<forall>i < length (po_shards p). engine_fine (po_shards p ! i) \<longrightarrow> (views (view EE) p ! i) k = None)"
  using assms by (rule mirror_get_answers)

text \<open>C5: durability of an acknowledged mirrored write of a key that had no other body on any shard (no stale copy of an overwrite). If the
  put succeeds, then while fewer shards have faults than the copies it was acknowledged with (\<open>min W n\<close>, for the write quorum \<open>W\<close> and \<open>n\<close> selected
  replicas), and the others keep what they stored, a read returns the body.\<close>

theorem pool_put_survives:
  assumes "engine_laws EE" and "disk_pool EE pol xxh3 PE" and "mirror_cfg (pe_cfg PE)" and "\<not> po_shutting_down p"
    and "pool_ok (engine_ok EE) (length (po_shards p)) p" and "fits k b" and "pool_put PE k b p = (p1, Inr u)"
    and fresh: "\<forall>i < length (po_shards p). (views (view EE) p ! i) k \<in> {None, Some b}"
    and later: "pool_ok (engine_ok EE) 0 p2" "views (view EE) p2 = views (view EE) p1"
    and failed: "card {i. i < length (po_shards p) \<and> \<not> engine_fine (po_shards p2 ! i)}
       < min (pc_write_quorum (pe_cfg PE)) (length (snd (replicas_for PE k p)))"
  shows "\<exists>p3. pool_get PE k p2 = (p3, Inr b)"
proof -
  let ?N = "length (po_shards p)"
  let ?bad = "{i. i < ?N \<and> \<not> engine_fine (po_shards p2 ! i)}"
  from mirror_put_placed [OF assms(1-7)] obtain S where S: "S \<subseteq> {0..<?N}" "views (view EE) p1 = write_at S k b (views (view EE) p)"
      "min (pc_write_quorum (pe_cfg PE)) (length (snd (replicas_for PE k p))) \<le> card S" by (auto simp: Let_def not_less)
  have "\<not> S \<subseteq> ?bad" using card_mono [of ?bad S] S(3) failed by auto
  then obtain i where i: "i \<in> S" "i < ?N" "engine_fine (po_shards p2 ! i)" using S(1) atLeastLessThan_iff by blast
  have N2: "length (po_shards p2) = ?N" using arg_cong [OF later(2), of length] arg_cong [OF S(2), of length] by simp
  obtain p3 r where g: "pool_get PE k p2 = (p3, r)" by fastforce
  have here: "(views (view EE) p2 ! i) k = Some b" using i by (simp add: later(2) S(2))
  have only: "(views (view EE) p2 ! j) k \<in> {None, Some b}" if "j < ?N" for j
    using that fresh by (simp add: later(2) S(2))
  note a = mirror_get_answers [OF assms(1-3) later(1) g]
  show ?thesis
  proof (cases r)
    case (Inr v)
    then obtain j where "j < ?N" "(views (view EE) p2 ! j) k = Some v" using a N2 by auto
    then have "v = b" using only [of j] by simp
    then show ?thesis using g Inr by auto
  next
    case (Inl e)
    then show ?thesis using a i here N2 by auto
  qed
qed

section \<open>Deleting, listing, presence\<close>

text \<open>A delete always reports success; it removes its key from every fault-free shard, leaves the other keys alone, and a shard
  where the removal failed keeps the old body.\<close>

theorem pool_delete_effect:
  assumes "engine_laws EE" and "disk_pool EE pol xxh3 PE" and "mirror_cfg (pe_cfg PE)" and "pool_ok (engine_ok EE) 0 p"
    and "pool_delete PE k p = (p', r)"
  shows "r = Inr () \<and> pool_ok (engine_ok EE) 0 p' \<and> (\<exists>D. views (view EE) p' = remove_at D k (views (view EE) p) \<and>
     (\<forall>i < length (po_shards p). engine_fine (po_shards p ! i) \<longrightarrow> i \<in> D))"
proof -
  note laws = disk_pool_laws [OF assms(1,2)]
  have e: "p' = delete_everywhere PE k [0..<length (po_shards p)] p" "r = Inr ()"
    using assms(3,5) by (simp_all add: pool_delete_def Let_def mirror_cfg_def)
  obtain D where D: "pool_step (engine_ok EE) (view EE) engine_fine 0 (remove_at D k (views (view EE) p)) p p'"
      "\<forall>i \<in> set [0..<length (po_shards p)] - D. \<not> engine_fine (po_shards p ! i)"
    using pool_laws.delete_everywhere_step [OF laws assms(4), of "[0..<length (po_shards p)]" k] e(1) by auto
  have "\<forall>i < length (po_shards p). engine_fine (po_shards p ! i) \<longrightarrow> i \<in> D" using D(2) by force
  then show ?thesis using e(2) pool_step_views [OF D(1)] pool_step_ok0 [OF D(1) assms(4)] by auto
qed

text \<open>C29: a listing of the pool whose start-after key, if any, is not before the prefix is the sorted, duplicate-free list of the keys
  under the prefix, past the start-after key, held by any shard, cut at the limit; it fails only when a shard has a fault.\<close>

theorem pool_list_complete:
  assumes "engine_laws EE" and "disk_pool EE pol xxh3 PE" and "pool_ok (engine_ok EE) 0 p"
    and "\<forall>a. after = Some a \<longrightarrow> pre \<le> a" and "pool_list PE pre after limit p = (p', r)"
  shows "views (view EE) p' = views (view EE) p \<and>
    (case r of
       Inr out \<Rightarrow> \<exists>ks. sorted_wrt (<) ks \<and> set ks = (\<Union>i < length (po_shards p). listed (views (view EE) p ! i) pre after) \<and>
         map fst out = take limit ks
     | Inl e \<Rightarrow> \<exists>i < length (po_shards p). \<not> engine_fine (po_shards p ! i))"
proof -
  from pool_laws.pool_list_spec [OF disk_pool_laws [OF assms(1,2)] assms(3,4), of limit]
  show ?thesis
    using sorted_list_of_set.strict_sorted_key_list_of_set pool_step_views unfolding assms(5)
    by (cases r) (auto intro!: exI [of _ "sorted_list_of_set (\<Union>i < length (po_shards p). listed (views (view EE) p ! i) pre after)"])
qed

text \<open>A presence check that succeeds is exact: true just when some shard holds the key.\<close>

theorem pool_has_exact:
  assumes "engine_laws EE" and "disk_pool EE pol xxh3 PE" and "pool_ok (engine_ok EE) 0 p" and "pool_has PE k p = (p', r)"
  shows "views (view EE) p' = views (view EE) p \<and>
    (case r of Inr b \<Rightarrow> b \<longleftrightarrow> (\<exists>i < length (po_shards p). (views (view EE) p ! i) k \<noteq> None)
     | Inl e \<Rightarrow> \<exists>i < length (po_shards p). \<not> engine_fine (po_shards p ! i))"
  using pool_laws.pool_has_spec [OF disk_pool_laws [OF assms(1,2)] assms(3), of k] pool_step_views unfolding assms(4)
  by (cases r) fastforce+

section \<open>A concrete pool\<close>

definition ref_pool_env :: "((bytes \<times> bytes) list, (bytes \<times> u64) list) engine pool_env" where
  "ref_pool_env =
     \<lparr>pe_ops = disk_ops ref_env, pe_cfg = pool_config_default, pe_select = select rendezvous_default (\<lambda>key seed. seed),
      pe_rs = xor_rs, pe_abao = tiny_abao, pe_latency = (\<lambda>t. t), pe_arrival = (\<lambda>t legs. rev legs), pe_holds = (\<lambda>t. [0, 0, 0])\<rparr>"

definition sample_shards :: topology where
  "sample_shards = [(0, capacity_default, Online), (1, capacity_default, Online), (2, capacity_default, Online)]"

definition ref_pool :: "((bytes \<times> bytes) list, (bytes \<times> u64) list) engine pool" where
  "ref_pool = (the (pool_new (replicate 3 fresh_engine) pool_config_default))\<lparr>po_topo := Some (0, sample_shards)\<rparr>"

lemma ref_disk_pool: "disk_pool ref_env rendezvous_default (\<lambda>key seed. seed) ref_pool_env"
  by (simp add: disk_pool_def ref_pool_env_def)

interpretation ref_pool: pool_laws "disk_ops ref_env" "engine_ok ref_env" "view ref_env" engine_fine ref_pool_env
  by (rule disk_pool_laws [OF ref_env.engine_laws_axioms ref_disk_pool])

lemma fresh_engine_fine: "engine_fine fresh_engine"
  by (simp add: engine_fine_def fresh_engine_eq blank_disk_def calm_def)

lemma ref_pool_fields:
  "po_shards ref_pool = replicate 3 fresh_engine" "po_topo ref_pool = Some (0, sample_shards)" "\<not> po_shutting_down ref_pool"
  "po_clock ref_pool = 0" "mirror_cfg (pe_cfg ref_pool_env)" "pc_write_quorum (pe_cfg ref_pool_env) = 2"
  by (simp_all add: ref_pool_def pool_new_def pool_config_default_def Let_def split_beta mirror_cfg_def ref_pool_env_def)

lemma ref_pool_ok: "pool_ok (engine_ok ref_env) n ref_pool" if "n \<le> 500"
  using that fresh_engine_inv by (simp add: pool_ok_def ref_pool_fields topo_ok_def sample_shards_def engine_ok_def room_def upt_rec)

lemma ref_pool_reps: "length (snd (replicas_for ref_pool_env k ref_pool)) = 2" "set (snd (replicas_for ref_pool_env k ref_pool)) \<subseteq> {0..<3}"
proof -
  have e: "replicas_for ref_pool_env k ref_pool = (ref_pool, select rendezvous_default (\<lambda>key seed. seed) k sample_shards 2)"
    by (simp add: replicas_for_def ranking_for_def pool_topology_def ref_pool_fields ref_pool_env_def pool_config_default_def)
  have d: "distinct (map fst sample_shards)" by (simp add: sample_shards_def)
  have "filter (\<lambda>(_, cap, st). eligible rendezvous_default cap st) sample_shards = sample_shards"
    by (simp add: sample_shards_def eligible_def capacity_default_def)
  then have "length (ranking rendezvous_default (\<lambda>key seed. seed) k sample_shards) = 3"
    unfolding length_ranking by (simp add: sample_shards_def)
  then show "length (snd (replicas_for ref_pool_env k ref_pool)) = 2" by (simp add: e select_def)
  have "set (map fst sample_shards) = {0..<3}" by (auto simp: sample_shards_def)
  then show "set (snd (replicas_for ref_pool_env k ref_pool)) \<subseteq> {0..<3}"
    using select_laws(1) [OF d, of rendezvous_default "\<lambda>key seed. seed" k 2] by (simp only: e snd_conv)
qed

lemma ref_pool_views: "i < 3 \<Longrightarrow> views (view ref_env) ref_pool ! i = Map.empty"
  by (simp add: views_def ref_pool_fields fresh_engine_view)

lemma ref_pool_all_fine: "i < length (po_shards ref_pool) \<Longrightarrow> engine_fine (po_shards ref_pool ! i)"
  by (simp add: ref_pool_fields fresh_engine_fine)

theorem pool_put_quorum_witness:
  "\<exists>p1 S. pool_put ref_pool_env [7] [1, 2, 3] ref_pool = (p1, Inr ()) \<and> 2 \<le> card S \<and>
     views (view ref_env) p1 = write_at S [7] [1, 2, 3] (views (view ref_env) ref_pool) \<and>
     pool_ok (engine_ok ref_env) 0 p1 \<and> (\<forall>i < 3. engine_fine (po_shards p1 ! i))"
proof -
  obtain p1 r where put: "pool_put ref_pool_env [7] [1, 2, 3] ref_pool = (p1, r)" by fastforce
  have ok: "pool_ok (engine_ok ref_env) (length (po_shards ref_pool)) ref_pool" by (rule ref_pool_ok) (simp add: ref_pool_fields)
  have fit: "fits [7] [1, 2, 3]" by (simp add: fits_def)
  from pool_put_quorum [OF ref_env.engine_laws_axioms ref_disk_pool ref_pool_fields(5,3) ok fit put, unfolded Let_def] obtain S where
    S0: "S \<subseteq> {0..<length (po_shards ref_pool)}" "views (view ref_env) p1 = write_at S [7] [1, 2, 3] (views (view ref_env) ref_pool)"
      "isl r \<longleftrightarrow> snd (replicas_for ref_pool_env [7] ref_pool) = [] \<or>
         card S < min (pc_write_quorum (pe_cfg ref_pool_env)) (length (snd (replicas_for ref_pool_env [7] ref_pool)))"
      "\<forall>i \<in> set (snd (replicas_for ref_pool_env [7] ref_pool)) - S. \<not> engine_fine (po_shards ref_pool ! i)"
      "pool_ok (engine_ok ref_env) 0 p1"
      "\<forall>i < length (po_shards ref_pool). engine_fine (po_shards ref_pool ! i) \<longrightarrow> engine_fine (po_shards p1 ! i)"
    by (elim exE conjE) (rule that)
  have N: "length (po_shards ref_pool) = 3" by (simp add: ref_pool_fields)
  have S: "S \<subseteq> {0..<3}" "views (view ref_env) p1 = write_at S [7] [1, 2, 3] (views (view ref_env) ref_pool)"
      "isl r \<longleftrightarrow> card S < 2" "\<forall>i \<in> set (snd (replicas_for ref_pool_env [7] ref_pool)) - S. \<not> engine_fine (po_shards ref_pool ! i)"
      "pool_ok (engine_ok ref_env) 0 p1" "\<forall>i < 3. engine_fine (po_shards p1 ! i)"
    using S0 ref_pool_reps(1) [of "[7]"] ref_pool_all_fine unfolding N by (auto simp: ref_pool_fields(6))
  have "distinct (snd (replicas_for ref_pool_env [7] ref_pool))"
    using ref_pool.ranking_step(2) [OF ref_pool_ok [of 0]] unfolding replicas_for_def by (metis le0 prod.collapse)
  then have "card (set (snd (replicas_for ref_pool_env [7] ref_pool))) = 2" using ref_pool_reps(1) distinct_card by metis
  moreover have "set (snd (replicas_for ref_pool_env [7] ref_pool)) \<subseteq> S"
    using S(4) ref_pool_all_fine ref_pool_reps(2) [of "[7]"] by (force simp: ref_pool_fields(1))
  ultimately have "2 \<le> card S" using card_mono [of S] S(1) finite_subset [OF S(1)] by (metis finite_atLeastLessThan)
  then have "r = Inr ()" using S(3) by (cases r) simp_all
  with put \<open>2 \<le> card S\<close> S(2,5,6) show ?thesis by blast
qed

lemma ref_pool_written:
  obtains p1 where "pool_put ref_pool_env [7] [1, 2, 3] ref_pool = (p1, Inr ())" "pool_ok (engine_ok ref_env) 0 p1"
    "\<forall>i < 3. engine_fine (po_shards p1 ! i)" "length (po_shards p1) = 3"
proof -
  obtain p1 r where put: "pool_put ref_pool_env [7] [1, 2, 3] ref_pool = (p1, r)" by fastforce
  obtain q where q: "put_mirror ref_pool_env [7] [1, 2, 3] (tally InflightPuts 1 ref_pool) = (q, r)" "po_shards p1 = po_shards q" "po_topo p1 = po_topo q"
    using pool_put_mirror [OF ref_pool_fields(5,3) put] .
  let ?p = "tally InflightPuts 1 ref_pool"
  obtain p0 reps where rep: "replicas_for ref_pool_env [7] ?p = (p0, reps)" by fastforce
  have reps: "snd (replicas_for ref_pool_env [7] ref_pool) = reps" using replicas_tally [of ref_pool_env "[7]" InflightPuts 1 ref_pool] unfolding rep by simp
  have "pool_ok (engine_ok ref_env) (length (po_shards ?p)) ?p" using ref_pool_ok [of 3] by (simp add: ref_pool_fields)
  from ref_pool.put_mirror_step [OF this _ q(1) rep] obtain S where S: "S \<subseteq> {0..<3}"
      "pool_stepq (engine_ok ref_env) (view ref_env) engine_fine 3 (write_at S [7] [1, 2, 3] (views (view ref_env) ref_pool)) ?p q"
      "isl r \<longleftrightarrow> reps = [] \<or> card S < min 2 (length reps)" "\<forall>i \<in> set reps - S. \<not> engine_fine (po_shards ref_pool ! i)"
    by (auto simp: fits_def ref_pool_fields(1,6))
  have d: "distinct reps" using ref_pool.ranking_step(2) [OF _ rep [unfolded replicas_for_def]] ref_pool_ok [of 0] by simp
  have "set reps \<subseteq> S" using S(4) ref_pool_all_fine ref_pool_reps(2) [of "[7]"] by (force simp: ref_pool_fields(1) reps)
  then have "2 \<le> card S" using card_mono [of S "set reps"] finite_subset [OF S(1)] d ref_pool_reps(1) [of "[7]"] by (simp add: distinct_card reps)
  then have r: "r = Inr ()" using S(3) ref_pool_reps(1) [of "[7]"] by (cases r) (auto simp: reps)
  note dd = pool_stepqD [OF S(2)]
  have "pool_ok (engine_ok ref_env) 0 q" using dd(1) [of 0] ref_pool_ok [of 3] by simp
  then have "pool_ok (engine_ok ref_env) 0 p1" by (simp add: pool_ok_def q)
  moreover have "\<forall>i < 3. engine_fine (po_shards p1 ! i)" using dd(5) ref_pool_all_fine by (simp add: q ref_pool_fields(1))
  moreover have "length (po_shards p1) = 3" using dd(3) by (simp add: q ref_pool_fields(1))
  ultimately show ?thesis using that [of p1] put r by simp
qed

theorem pool_put_survives_witness:
  "\<exists>p1 p3. pool_put ref_pool_env [7] [1, 2, 3] ref_pool = (p1, Inr ()) \<and> pool_get ref_pool_env [7] p1 = (p3, Inr [1, 2, 3])"
proof -
  obtain p1 where p1: "pool_put ref_pool_env [7] [1, 2, 3] ref_pool = (p1, Inr ())" "pool_ok (engine_ok ref_env) 0 p1"
    "\<forall>i < 3. engine_fine (po_shards p1 ! i)" by (rule ref_pool_written)
  have none: "{i. i < length (po_shards ref_pool) \<and> \<not> engine_fine (po_shards p1 ! i)} = {}" using p1(3) by (simp add: ref_pool_fields(1))
  have "\<exists>p3. pool_get ref_pool_env [7] p1 = (p3, Inr [1, 2, 3])"
  proof (rule pool_put_survives [OF ref_env.engine_laws_axioms ref_disk_pool ref_pool_fields(5,3) _ _ p1(1) _ p1(2) refl])
    show "pool_ok (engine_ok ref_env) (length (po_shards ref_pool)) ref_pool" by (rule ref_pool_ok) (simp add: ref_pool_fields)
    show "fits [7] [1, 2, 3]" by (simp add: fits_def)
    show "\<forall>i < length (po_shards ref_pool). (views (view ref_env) ref_pool ! i) [7] \<in> {None, Some [1, 2, 3]}"
      by (simp add: ref_pool_fields(1) ref_pool_views)
    show "card {i. i < length (po_shards ref_pool) \<and> \<not> engine_fine (po_shards p1 ! i)}
       < min (pc_write_quorum (pe_cfg ref_pool_env)) (length (snd (replicas_for ref_pool_env [7] ref_pool)))"
      unfolding none by (simp add: ref_pool_fields(6) ref_pool_reps(1))
  qed
  with p1(1) show ?thesis by blast
qed

text \<open>The disk of the sample pool after one put, and after two.\<close>

definition engine_with :: "block_key \<Rightarrow> bytes \<Rightarrow> ((bytes \<times> bytes) list, (bytes \<times> u64) list) engine" where
  "engine_with k b = fst (engine_put ref_env fresh_engine k b)"

definition engine_pair :: "block_key \<Rightarrow> bytes \<Rightarrow> block_key \<Rightarrow> bytes \<Rightarrow> ((bytes \<times> bytes) list, (bytes \<times> u64) list) engine" where
  "engine_pair k b k' b' = fst (engine_put ref_env (engine_with k b) k' b')"

lemma engine_put_alone:
  assumes "engine_ok ref_env (1 + n) e" and "engine_fine e" and "fits k b"
  shows "engine_ok ref_env n (fst (engine_put ref_env e k b)) \<and> view ref_env (fst (engine_put ref_env e k b)) = (view ref_env e)(k \<mapsto> b) \<and>
    engine_fine (fst (engine_put ref_env e k b))"
proof -
  obtain e' r where put: "engine_put ref_env e k b = (e', r)" by fastforce
  have "engine_ok ref_env 1 e" using assms(1) by (simp add: engine_ok_def room_def)
  then have "post (so_put (disk_ops ref_env) e k b)
      (\<lambda>s' u. shard_step (engine_ok ref_env) (view ref_env) engine_fine 1 ((view ref_env e)(k \<mapsto> b)) e s')
      (\<lambda>s' er. shard_step (engine_ok ref_env) (view ref_env) engine_fine 1 (view ref_env e) e s' \<and> \<not> engine_fine e)"
    by (intro ref_env.disk.port_put) (use assms(3) in \<open>simp_all add: fits_def\<close>)
  then have "shard_step (engine_ok ref_env) (view ref_env) engine_fine 1 ((view ref_env e)(k \<mapsto> b)) e e'"
    using assms(2) by (cases r) (simp_all add: disk_ops_def put)
  then show ?thesis using assms(1,2) by (simp add: put shard_step_def)
qed

lemma engine_with:
  assumes "fits k b"
  shows "engine_ok ref_env 400 (engine_with k b)" "view ref_env (engine_with k b) = [k \<mapsto> b]" "engine_fine (engine_with k b)"
  using engine_put_alone [of 400 fresh_engine, OF _ fresh_engine_fine assms] fresh_engine_inv
  by (simp_all add: engine_with_def engine_ok_def room_def fresh_engine_view)

lemma engine_pair:
  assumes "fits k b" and "fits k' b'"
  shows "engine_ok ref_env 399 (engine_pair k b k' b')" "view ref_env (engine_pair k b k' b') = [k \<mapsto> b, k' \<mapsto> b']" "engine_fine (engine_pair k b k' b')"
  using engine_put_alone [of 399 "engine_with k b", OF _ engine_with(3) [OF assms(1)] assms(2)] engine_with(1,2) [OF assms(1)]
  by (simp_all add: engine_pair_def)

text \<open>A pool with a body on shard 1 only, while the indexes of the other disks fail.\<close>

definition worn_engine :: "((bytes \<times> bytes) list, (bytes \<times> u64) list) engine" where
  "worn_engine = fresh_engine\<lparr>en_index_faults := replicate 4 (Fault NoSuchFile 0)\<rparr>"

definition worn_pool :: "((bytes \<times> bytes) list, (bytes \<times> u64) list) engine pool" where
  "worn_pool = ref_pool\<lparr>po_shards := [worn_engine, engine_with [7] [1, 2, 3], worn_engine]\<rparr>"

lemma sample_fits: "fits [7] [1, 2, 3]" "fits [8] [4]"
  by (simp_all add: fits_def)

lemma worn_pool:
  "pool_ok (engine_ok ref_env) 0 worn_pool" "views (view ref_env) worn_pool = [Map.empty, [[7] \<mapsto> [1, 2, 3]], Map.empty]"
  "engine_fine (po_shards worn_pool ! 1)" "\<not> engine_fine (po_shards worn_pool ! 0)" "\<not> engine_fine (po_shards worn_pool ! 2)"
proof -
  note w = engine_with [OF sample_fits(1)]
  have e: "engine_ok ref_env 0 worn_engine" "view ref_env worn_engine = Map.empty" "\<not> engine_fine worn_engine"
    using fresh_engine_inv fresh_engine_view
    by (simp_all add: worn_engine_def engine_ok_def engine_inv_def room_def view_def engine_fine_def calm_def)
  show "pool_ok (engine_ok ref_env) 0 worn_pool"
    using e(1) ref_env.disk.port_mono [OF w(1), of 0]
    by (auto simp: pool_ok_def worn_pool_def ref_pool_fields topo_ok_def sample_shards_def less_Suc_eq nth_Cons' upt_rec)
  show "views (view ref_env) worn_pool = [Map.empty, [[7] \<mapsto> [1, 2, 3]], Map.empty]" by (simp add: views_def worn_pool_def e(2) w(2))
  show "engine_fine (po_shards worn_pool ! 1)" "\<not> engine_fine (po_shards worn_pool ! 0)" "\<not> engine_fine (po_shards worn_pool ! 2)"
    using e(3) w(3) by (simp_all add: worn_pool_def)
qed

theorem pool_get_available_witness:
  "\<not> engine_fine (po_shards worn_pool ! 0) \<and> \<not> engine_fine (po_shards worn_pool ! 2) \<and>
   (\<exists>p'. pool_get ref_pool_env [7] worn_pool = (p', Inr [1, 2, 3]))"
proof -
  obtain p' r where g: "pool_get ref_pool_env [7] worn_pool = (p', r)" by fastforce
  have n: "length (po_shards worn_pool) = 3" by (simp add: worn_pool_def)
  note a = pool_get_available [OF ref_env.engine_laws_axioms ref_disk_pool ref_pool_fields(5) worn_pool(1) g, unfolded n worn_pool(2)]
  have "r = Inr [1, 2, 3]"
  proof (cases r)
    case (Inl e)
    then show ?thesis using a worn_pool(3) by (auto dest: spec [of _ 1])
  next
    case (Inr v)
    then show ?thesis using a by (auto simp: less_Suc_eq numeral_3_eq_3 split: if_splits)
  qed
  with g worn_pool(4,5) show ?thesis by blast
qed

theorem pool_delete_effect_witness:
  "\<exists>p' D. pool_delete ref_pool_env [7] ref_pool = (p', Inr ()) \<and> views (view ref_env) p' = remove_at D [7] (views (view ref_env) ref_pool) \<and> {0, 1, 2} \<subseteq> D"
proof -
  obtain p' r where g: "pool_delete ref_pool_env [7] ref_pool = (p', r)" by fastforce
  from pool_delete_effect [OF ref_env.engine_laws_axioms ref_disk_pool ref_pool_fields(5) ref_pool_ok g] show ?thesis
    using g ref_pool_all_fine by (auto simp: ref_pool_fields(1))
qed

text \<open>A pool whose shards hold two keys, one of them twice.\<close>

definition spread_pool :: "((bytes \<times> bytes) list, (bytes \<times> u64) list) engine pool" where
  "spread_pool = ref_pool\<lparr>po_shards := [engine_pair [8] [4] [7] [1, 2, 3], engine_with [7] [1, 2, 3], fresh_engine]\<rparr>"

lemma spread_pool:
  "pool_ok (engine_ok ref_env) 0 spread_pool" "i < 3 \<Longrightarrow> engine_fine (po_shards spread_pool ! i)"
  "views (view ref_env) spread_pool = [[[8] \<mapsto> [4], [7] \<mapsto> [1, 2, 3]], [[7] \<mapsto> [1, 2, 3]], Map.empty]"
proof -
  note w = engine_with [OF sample_fits(1)] and d = engine_pair [OF sample_fits(2,1)]
  have e: "engine_ok ref_env 0 fresh_engine" using fresh_engine_inv by (simp add: engine_ok_def room_def)
  show "pool_ok (engine_ok ref_env) 0 spread_pool"
    using e ref_env.disk.port_mono [OF w(1), of 0] ref_env.disk.port_mono [OF d(1), of 0]
    by (auto simp: pool_ok_def spread_pool_def ref_pool_fields topo_ok_def sample_shards_def less_Suc_eq nth_Cons' upt_rec)
  show "i < 3 \<Longrightarrow> engine_fine (po_shards spread_pool ! i)"
    using w(3) d(3) fresh_engine_fine by (auto simp: spread_pool_def nth_Cons')
  show "views (view ref_env) spread_pool = [[[8] \<mapsto> [4], [7] \<mapsto> [1, 2, 3]], [[7] \<mapsto> [1, 2, 3]], Map.empty]"
    by (simp add: views_def spread_pool_def w(2) d(2) fresh_engine_view)
qed

theorem pool_list_complete_witness:
  "\<exists>p1 rows p2 rows'. pool_list ref_pool_env [] None 10 spread_pool = (p1, Inr rows) \<and> map fst rows = [[7], [8]] \<and>
     pool_list ref_pool_env [] (Some [7]) 10 spread_pool = (p2, Inr rows') \<and> map fst rows' = [[8]]"
proof -
  have n: "length (po_shards spread_pool) = 3" by (simp add: spread_pool_def)
  have keys: "(\<Union>i < 3. listed (views (view ref_env) spread_pool ! i) [] None) = set [[7], [8]]"
    "(\<Union>i < 3. listed (views (view ref_env) spread_pool ! i) [] (Some [7])) = set [[8]]"
    unfolding spread_pool(3) by (auto simp: listed_def starts_with_def lessThan_Suc numeral_3_eq_3 split: if_splits)
  have ends: "\<exists>p1 rows. pool_list ref_pool_env [] after 10 spread_pool = (p1, Inr rows) \<and> map fst rows = ks"
    if "(\<Union>i < 3. listed (views (view ref_env) spread_pool ! i) [] after) = set ks" "sorted_wrt (<) ks" "length ks \<le> 10" for after ks
  proof -
    obtain p1 r where g: "pool_list ref_pool_env [] after 10 spread_pool = (p1, r)" by fastforce
    note a = pool_list_complete [OF ref_env.engine_laws_axioms ref_disk_pool spread_pool(1) _ g, unfolded n that(1)]
    show ?thesis
    proof (cases r)
      case (Inl e)
      then show ?thesis using a spread_pool(2) by auto
    next
      case (Inr rows)
      with a obtain us where "sorted_wrt (<) us" "set us = set ks" "map fst rows = take 10 us" by auto
      moreover from this have "us = ks" using strict_sorted_equal [OF that(2), of us] by simp
      ultimately show ?thesis using g Inr that(3) by simp
    qed
  qed
  from ends [OF keys(1)] ends [OF keys(2)] show ?thesis by simp
qed

theorem pool_has_exact_witness: "\<exists>p'. pool_has ref_pool_env [7] ref_pool = (p', Inr False)"
proof -
  obtain p' r where g: "pool_has ref_pool_env [7] ref_pool = (p', r)" by fastforce
  from pool_has_exact [OF ref_env.engine_laws_axioms ref_disk_pool ref_pool_ok g] show ?thesis
    using g ref_pool_all_fine by (cases r) (auto simp: ref_pool_fields(1) ref_pool_views)
qed

end
