(* ===== verification/Pool_Repair.thy ===== *)
theory Pool_Repair
  imports Pool_Read
begin

text \<open>
  The repairing half of \<open>Pool\<close> (\<open>ozd-app/src/pool.rs\<close>): repair of one key, the drain of the repair
  queue, the scrub step of a shard, and the resilver walk. The walk is a loop over the pool's listing; as nothing in its code
  bounds it, it is a partial function whose value is \<open>None\<close> when it does not end.
\<close>

section \<open>Repair of one key\<close>

text \<open>\<open>have\<close> and \<open>missing\<close> of a list of shards.\<close>

fun split_holders :: "'s pool_env \<Rightarrow> block_key \<Rightarrow> nat list \<Rightarrow> 's pool \<Rightarrow> 's pool \<times> nat list \<times> nat list" where
  "split_holders E key [] p = (p, [], [])"
| "split_holders E key (i # is) p =
     (let (p, b) = holds_key E i key p; (p, have_it, missing) = split_holders E key is p in
      if b then (p, i # have_it, missing) else (p, have_it, i # missing))"

definition read_for_repair :: "'s pool_env \<Rightarrow> block_key \<Rightarrow> nat list \<Rightarrow> 's pool \<Rightarrow> ('s pool, bytes) op" where
  "read_for_repair E key have_it p =
     (case get_any E key have_it NotFound p of
        (p, Inr d) \<Rightarrow> (p, Inr d)
      | (p, Inl _) \<Rightarrow> get_any E key [0..<length (po_shards p)] NotFound p)"

fun copy_to :: "'s pool_env \<Rightarrow> block_key \<Rightarrow> bytes \<Rightarrow> nat list \<Rightarrow> nat \<times> nat \<Rightarrow> 's pool \<Rightarrow> 's pool \<times> nat \<times> nat" where
  "copy_to E key data [] acc p = (p, acc)"
| "copy_to E key data (i # is) (repaired, left) p =
     (case sh_put E i key data p of
        (p, Inr _) \<Rightarrow> copy_to E key data is (repaired + 1, left) p
      | (p, Inl _) \<Rightarrow> copy_to E key data is (repaired, left + 1) p)"

definition repair_key_mirror :: "'s pool_env \<Rightarrow> block_key \<Rightarrow> bytes option \<Rightarrow> 's pool \<Rightarrow> ('s pool, nat \<times> nat) op" where
  "repair_key_mirror E key probe p =
     (let (p, desired) = replicas_for E key p; (p, have_it, missing) = split_holders E key desired p in
      if missing = [] then (p, Inr (0, 0))
      else
        and_then (case probe of Some d \<Rightarrow> (p, Inr d) | None \<Rightarrow> read_for_repair E key have_it p) (\<lambda>data p.
          let (p, repaired, left) = copy_to E key data missing (0, 0) p in
          (bg_pay (length data * (1 + repaired)) p, Inr (repaired, left))))"

text \<open>The slots of an erasure-coded object and the ranks (with their shards) whose own piece is not in place.\<close>

fun read_canonical :: "'s pool_env \<Rightarrow> block_key \<Rightarrow> nat \<Rightarrow> shard_id list \<Rightarrow> bytes option list \<Rightarrow> (nat \<times> nat) list \<Rightarrow> 's pool \<Rightarrow>
    's pool \<times> bytes option list \<times> (nat \<times> nat) list" where
  "read_canonical E key r [] slots missing p = (p, slots, missing)"
| "read_canonical E key r (i # sids) slots missing p =
     (case sh_get E i key p of
        (p, Inr b) \<Rightarrow> (case parse_piece_header b of
            Some h \<Rightarrow> read_canonical E key (r + 1) sids (fill_slot (piece_idx h) b slots)
              (if piece_idx h = r then missing else missing @ [(r, i)]) p
          | None \<Rightarrow> read_canonical E key (r + 1) sids slots (missing @ [(r, i)]) p)
      | (p, Inl _) \<Rightarrow> read_canonical E key (r + 1) sids slots (missing @ [(r, i)]) p)"

fun write_pieces :: "'s pool_env \<Rightarrow> block_key \<Rightarrow> bytes list \<Rightarrow> u64 \<Rightarrow> (nat \<times> nat) list \<Rightarrow> nat \<times> nat \<Rightarrow> 's pool \<Rightarrow> 's pool \<times> nat \<times> nat" where
  "write_pieces E key pieces obj [] acc p = (p, acc)"
| "write_pieces E key pieces obj ((r, i) # missing) (repaired, left) p =
     (case sh_put_meta E i key (pieces ! r) (Some obj) p of
        (p, Inr _) \<Rightarrow> write_pieces E key pieces obj missing (repaired + 1, left) p
      | (p, Inl _) \<Rightarrow> write_pieces E key pieces obj missing (repaired, left + 1) p)"

definition repair_key_ec :: "'s pool_env \<Rightarrow> block_key \<Rightarrow> piece_header \<Rightarrow> shard_id list \<Rightarrow> 's pool \<Rightarrow> ('s pool, nat \<times> nat) op" where
  "repair_key_ec E key h targets p =
     (let k = unat (ph_k h); m = unat (ph_m h);
          (p, slots, missing) = read_canonical E key 0 (take (k + m) targets) (replicate (k + m) None) [] p;
          (p, slots) = (if present slots < k then read_pieces E key (others p targets) slots p else (p, slots)) in
      if present slots < k then (p, Inl (Io ''ec repair: too few pieces''))
      else if missing = [] then (p, Inr (0, 0))
      else case ec_repair_pieces (pe_rs E) slots k m of
        Inl e \<Rightarrow> (p, Inl e)
      | Inr rebuilt \<Rightarrow>
          let (p, repaired, left) = write_pieces E key rebuilt (ph_logical_len h) missing (0, 0) p;
              p = tally EcPiecesRepaired repaired p in
          (bg_pay (length (rebuilt ! 0) * (k + repaired)) p, Inr (repaired, left)))"

fun missing_ranks :: "'s pool_env \<Rightarrow> block_key \<Rightarrow> nat \<Rightarrow> shard_id list \<Rightarrow> 's pool \<Rightarrow> 's pool \<times> nat list" where
  "missing_ranks E key r [] p = (p, [])"
| "missing_ranks E key r (sid # sids) p =
     (let (p, b) = holds_key E sid key p; (p, rest) = missing_ranks E key (r + 1) sids p in
      (p, if b then rest else r # rest))"

text \<open>The first readable body decides the era; \<open>None\<close> when no shard of the list answers.\<close>

fun probe_era :: "'s pool_env \<Rightarrow> block_key \<Rightarrow> shard_id list \<Rightarrow> nat list \<Rightarrow> 's pool \<Rightarrow> 's pool \<times> (nat \<times> nat) domain_result option" where
  "probe_era E key targets [] p = (p, None)"
| "probe_era E key targets (i # is) p =
     (case sh_get E i key p of
        (p, Inr b) \<Rightarrow>
          (case (case parse_piece_header b of
                   Some h \<Rightarrow> repair_key_ec E key h targets p
                 | None \<Rightarrow> repair_key_mirror E key (Some b) p) of (p, r) \<Rightarrow> (p, Some r))
      | (p, Inl _) \<Rightarrow> probe_era E key targets is p)"

definition repair_key :: "'s pool_env \<Rightarrow> block_key \<Rightarrow> 's pool \<Rightarrow> ('s pool, nat \<times> nat) op" where
  "repair_key E key p =
     (case pc_ec (pe_cfg E) of
        None \<Rightarrow> repair_key_mirror E key None p
      | Some ec \<Rightarrow>
          let n = ec_total ec;
              (p, targets) = ranking_for E key (max n (pc_replicas (pe_cfg E))) p;
              (p, missing) = missing_ranks E key 0 (take n targets) p in
          if missing = [] then (p, Inr (0, 0))
          else
            let r_legs = min (pc_replicas (pe_cfg E)) (length targets) in
            if list_all (\<lambda>r. r_legs \<le> r) missing \<and> length missing = n - r_legs then (p, Inr (0, 0))
            else (case probe_era E key targets targets p of
                (p, Some r) \<Rightarrow> (p, r)
              | (p, None) \<Rightarrow> (case probe_era E key targets (others p targets) p of
                    (p, Some r) \<Rightarrow> (p, r)
                  | (p, None) \<Rightarrow> (p, Inl (Io ''repair: no readable source'')))))"

section \<open>Drain of the repair queue\<close>

fun mrf_batch :: "nat \<Rightarrow> heal_queue \<Rightarrow> heal_queue \<times> (block_key \<times> heal_priority) list" where
  "mrf_batch 0 q = (q, [])"
| "mrf_batch (Suc n) q =
     (case hq_pop q of
        (q, None) \<Rightarrow> (q, [])
      | (q, Some it) \<Rightarrow> (let (q, its) = mrf_batch n q in (q, it # its)))"

text \<open>
  The bulkhead: a slot is taken on each desired shard in turn, and the item is put off at the first shard whose slots are
  all taken. The counters start from what the other workers hold; a worker frees what it took, so only they matter.
\<close>

fun bulkhead_busy :: "nat \<Rightarrow> nat list \<Rightarrow> nat list \<Rightarrow> bool" where
  "bulkhead_busy cap [] inflight = False"
| "bulkhead_busy cap (t # targets) inflight =
     (if cap \<le> inflight ! t then True else bulkhead_busy cap targets (inflight[t := inflight ! t + 1]))"

fun heal_items :: "'s pool_env \<Rightarrow> (block_key \<times> heal_priority) list \<Rightarrow> nat \<times> (block_key \<times> heal_priority) list \<Rightarrow> 's pool \<Rightarrow>
    's pool \<times> nat \<times> (block_key \<times> heal_priority) list" where
  "heal_items E [] acc p = (p, acc)"
| "heal_items E ((key, prio) # batch) (healed, deferred) p =
     (let (p, targets) = replicas_for E key p;
          busy = bulkhead_busy (max (pc_heal_max_per_shard (pe_cfg E)) 1) targets (pe_holds E (po_tick p));
          p = p\<lparr>po_tick := po_tick p + 1\<rparr> in
      if busy then heal_items E batch (healed, deferred @ [(key, prio)]) p
      else (case repair_key E key p of
          (p, Inr (_, 0)) \<Rightarrow> heal_items E batch (healed + 1, deferred) (tally MrfHealed 1 p)
        | (p, _) \<Rightarrow> heal_items E batch (healed, deferred @ [(key, prio)]) p))"

definition mrf_drain :: "'s pool_env \<Rightarrow> nat \<Rightarrow> 's pool \<Rightarrow> ('s pool, nat \<times> nat) op" where
  "mrf_drain E n p =
     (let (q, batch) = mrf_batch n (po_mrf p); p = p\<lparr>po_mrf := q\<rparr> in
      if batch = [] then (p, Inr (0, 0))
      else
        let (p, healed, deferred) = heal_items E batch (0, []) p in
        (p\<lparr>po_mrf := fold (\<lambda>(k, pr) q. hq_push q k pr) deferred (po_mrf p)\<rparr>, Inr (healed, length deferred)))"

section \<open>Scrub\<close>

record scrub_report =
  sr_checked :: nat
  sr_corrupt :: nat
  sr_repaired :: nat
  sr_unrepairable :: nat
  sr_last_key :: "block_key option"
  sr_done :: bool

fun scrub_heal :: "'s pool_env \<Rightarrow> nat \<Rightarrow> block_key list \<Rightarrow> scrub_report \<Rightarrow> 's pool \<Rightarrow> 's pool \<times> scrub_report" where
  "scrub_heal E shard [] rep p = (p, rep)"
| "scrub_heal E shard (key # keys) rep p =
     (let (p, _) = sh_delete E shard key p; (p, r) = repair_key E key p;
          fixed = (case r of Inr (n, l) \<Rightarrow> 0 < n \<and> l = 0 | Inl _ \<Rightarrow> False) in
      if fixed then scrub_heal E shard keys (rep\<lparr>sr_repaired := sr_repaired rep + 1\<rparr>) p
      else scrub_heal E shard keys (rep\<lparr>sr_unrepairable := sr_unrepairable rep + 1\<rparr>)
             (p\<lparr>po_mrf := hq_push (po_mrf p) key Urgent\<rparr>))"

definition scrub_shard_step :: "'s pool_env \<Rightarrow> nat \<Rightarrow> block_key option \<Rightarrow> nat \<Rightarrow> 's pool \<Rightarrow> ('s pool, scrub_report) op" where
  "scrub_shard_step E shard after limit p =
     and_then (shard_call (\<lambda>s. so_scrub_step (pe_ops E) s after limit) shard p) (\<lambda>st p.
       let p = bg_pay (ss_bytes st) p;
           rep = \<lparr>sr_checked = ss_checked st, sr_corrupt = length (ss_corrupt st), sr_repaired = 0, sr_unrepairable = 0,
                  sr_last_key = ss_last_key st, sr_done = ss_done st\<rparr>;
           (p, rep) = scrub_heal E shard (ss_corrupt st) rep p in
       (tally ScrubUnrepairable (sr_unrepairable rep) (tally ScrubRepaired (sr_repaired rep)
         (tally ScrubCorrupt (sr_corrupt rep) (tally ScrubChecked (sr_checked rep) p))), Inr rep))"

section \<open>Resilver\<close>

record resilver_report =
  rr_scanned :: nat
  rr_repaired :: nat
  rr_errors :: nat
  rr_last_key :: "block_key option"
  rr_done :: bool

definition resilver_report_default :: resilver_report where
  "resilver_report_default = \<lparr>rr_scanned = 0, rr_repaired = 0, rr_errors = 0, rr_last_key = None, rr_done = False\<rparr>"

fun resilver_keys :: "'s pool_env \<Rightarrow> block_key list \<Rightarrow> resilver_report \<Rightarrow> 's pool \<Rightarrow> 's pool \<times> resilver_report" where
  "resilver_keys E [] rep p = (p, rep)"
| "resilver_keys E (key # keys) rep p =
     (case repair_key E key p of
        (p, Inr (repaired, left)) \<Rightarrow>
          resilver_keys E keys (rep\<lparr>rr_repaired := rr_repaired rep + repaired, rr_errors := rr_errors rep + left\<rparr>) p
      | (p, Inl _) \<Rightarrow> resilver_keys E keys (rep\<lparr>rr_errors := rr_errors rep + 1\<rparr>) p)"

definition resilver_step :: "'s pool_env \<Rightarrow> block_key option \<Rightarrow> nat \<Rightarrow> 's pool \<Rightarrow> ('s pool, resilver_report) op" where
  "resilver_step E after batch p =
     and_then (pool_list E [] after batch p) (\<lambda>rows p.
       let keys = map fst rows;
           rep = resilver_report_default\<lparr>rr_scanned := length keys, rr_done := (length keys < batch)\<rparr>;
           (p, rep) = resilver_keys E keys rep p;
           p = tally ResilverErrors (rr_errors rep) (tally ResilverRepaired (rr_repaired rep) p) in
       (p, Inr (rep\<lparr>rr_last_key := (if keys = [] then None else Some (last keys))\<rparr>)))"

definition save_cursor0 :: "'s pool_env \<Rightarrow> string \<Rightarrow> block_key option \<Rightarrow> 's pool \<Rightarrow> 's pool" where
  "save_cursor0 E name pos p = fst (shard_call (\<lambda>s. so_save_cursor (pe_ops E) s name pos) 0 p)"

partial_function (option) resilver_loop ::
  "'s pool_env \<Rightarrow> nat \<Rightarrow> block_key option \<Rightarrow> resilver_report \<Rightarrow> 's pool \<Rightarrow> ('s pool, resilver_report) op option" where
  "resilver_loop E batch after acc p =
     (case resilver_step E after batch p of
        (p, Inl e) \<Rightarrow> Some (p, Inl e)
      | (p, Inr r) \<Rightarrow>
          let acc = acc\<lparr>rr_scanned := rr_scanned acc + rr_scanned r, rr_repaired := rr_repaired acc + rr_repaired r,
                        rr_errors := rr_errors acc + rr_errors r, rr_last_key := rr_last_key r\<rparr> in
          if rr_done r \<or> rr_last_key r = None
          then Some (save_cursor0 E ''resilver'' None p, Inr (acc\<lparr>rr_done := True\<rparr>))
          else resilver_loop E batch (rr_last_key r) acc (save_cursor0 E ''resilver'' (rr_last_key r) p))"

definition resilver_full :: "'s pool_env \<Rightarrow> nat \<Rightarrow> 's pool \<Rightarrow> ('s pool, resilver_report) op option" where
  "resilver_full E batch p =
     (case shard_call (\<lambda>s. so_load_cursor (pe_ops E) s ''resilver'') 0 p of
        (p, Inl e) \<Rightarrow> Some (p, Inl e)
      | (p, Inr after) \<Rightarrow>
          (case resilver_loop E batch after resilver_report_default p of
             None \<Rightarrow> None
           | Some res \<Rightarrow> Some (and_then res (\<lambda>rep p. and_then (flush_all E p) (\<lambda>_ p. (p, Inr rep))))))"

end
