(* ===== verification/Pool_Repair_Laws.thy ===== *)
theory Pool_Repair_Laws
  imports Pool_Meta_Laws Pool_Repair
begin

text \<open>
  What repair does to the shards of a mirrored pool: it copies a body that some shard holds to desired shards without one, so
  the keys of the pool stay the same; and the resilver walk ends, after it has repaired each key once.
\<close>

section \<open>Bodies and keys of a pool\<close>

definition all_fit :: "(block_key \<rightharpoonup> bytes) list \<Rightarrow> bool" where
  "all_fit vs \<longleftrightarrow> (\<forall>i < length vs. \<forall>k b. (vs ! i) k = Some b \<longrightarrow> fits k b)"

definition pool_keys :: "(block_key \<rightharpoonup> bytes) list \<Rightarrow> block_key set" where
  "pool_keys vs = (\<Union>i < length vs. dom (vs ! i))"

text \<open>A copy of a held body changes neither.\<close>

lemma write_held:
  assumes "\<exists>j < length vs. (vs ! j) k = Some d"
  shows "pool_keys (write_at S k d vs) = pool_keys vs" "all_fit vs \<Longrightarrow> all_fit (write_at S k d vs)"
proof -
  have "k' \<in> pool_keys (write_at S k d vs) \<longleftrightarrow> k' \<in> pool_keys vs" for k'
    using assms by (cases "k' = k") (auto simp: pool_keys_def split: if_splits)
  then show "pool_keys (write_at S k d vs) = pool_keys vs" by blast
  show "all_fit vs \<Longrightarrow> all_fit (write_at S k d vs)"
    using assms by (auto simp: all_fit_def split: if_splits)
qed

lemma bg_pay_fields [simp]:
  "po_shards (bg_pay n p) = po_shards p" "po_topo (bg_pay n p) = po_topo p" "po_mrf (bg_pay n p) = po_mrf p"
  "po_shutting_down (bg_pay n p) = po_shutting_down p"
  by (simp_all add: bg_pay_def Let_def split: prod.split)

lemma frame_fault: "frame fine p q \<Longrightarrow> i < length (po_shards p) \<Longrightarrow> \<not> fine (po_shards q ! i) \<Longrightarrow> \<not> fine (po_shards p ! i)"
  by (auto simp: frame_def)

context pool_laws
begin

section \<open>Who holds the key\<close>

lemma split_holders_step:
  assumes "pool_ok ok 0 p" and "set is \<subseteq> {0..<length (po_shards p)}" and "split_holders E k is p = (q, hs, ms)"
  shows "step 0 (views V p) p q \<and> set hs \<union> set ms = set is \<and> (distinct is \<longrightarrow> distinct ms) \<and> length ms \<le> length is \<and>
    (\<forall>i \<in> set hs. (views V p ! i) k \<noteq> None) \<and> (\<forall>i \<in> set ms. (views V p ! i) k \<noteq> None \<longrightarrow> \<not> fine (po_shards p ! i))"
  using assms
proof (induction "is" arbitrary: p hs ms)
  case Nil
  then show ?case using pool_step_refl by simp
next
  case (Cons i "is")
  have i: "i < length (po_shards p)" using Cons.prems(2) by simp
  obtain p1 b where h: "holds_key E i k p = (p1, b)" by fastforce
  note s = holds_key_step [OF Cons.prems(1) i h]
  obtain q' hs' ms' where sp: "split_holders E k is p1 = (q', hs', ms')" by (metis prod_cases3)
  have e: "q = q'" "hs = (if b then i # hs' else hs')" "ms = (if b then ms' else i # ms')"
    using Cons.prems(3) by (auto simp: h sp Let_def split: if_splits)
  note v = pool_step_views [OF s(1)] and f = pool_step_frame [OF s(1)]
  have "set is \<subseteq> {0..<length (po_shards p1)}" using Cons.prems(2) frame_length [OF f] by simp
  note ih = Cons.IH [OF pool_step_ok0 [OF s(1) Cons.prems(1)] this sp [folded e(1)], unfolded v]
  have lt: "j < length (po_shards p)" if "j \<in> set ms'" for j using ih that Cons.prems(2) by auto
  have "step 0 (views V p) p q" using pool_step_trans [OF s(1), of 0 _ q] ih by simp
  moreover have "\<forall>j \<in> set ms'. (views V p ! j) k \<noteq> None \<longrightarrow> \<not> fine (po_shards p ! j)"
    using ih frame_fault [OF f lt] by blast
  ultimately show ?case using ih s(2,3) by (auto simp: e(2,3))
qed

section \<open>Copying\<close>

lemma copy_to_step:
  assumes "pool_ok ok (length is) p" and "set is \<subseteq> {0..<length (po_shards p)}" and "fits k d" and "distinct is"
    and "copy_to E k d is (n0, l0) p = (q, n1, l1)"
  shows "\<exists>S \<subseteq> set is. step (length is) (write_at S k d (views V p)) p q \<and> n1 = n0 + card S \<and> l1 = l0 + card (set is - S) \<and>
    (\<forall>i \<in> set is - S. \<not> fine (po_shards p ! i))"
  using assms
proof (induction "is" arbitrary: p n0 l0)
  case Nil
  then show ?case using pool_step_refl by simp
next
  case (Cons i "is")
  have i: "i < length (po_shards p)" "i \<notin> set is" and ok1: "pool_ok ok 1 p" using Cons.prems ok_weaken [of "Suc (length is)" p 1] by auto
  obtain p1 r where c: "sh_put E i k d p = (p1, r)" by fastforce
  note s = sh_put_step [OF ok1 i(1) Cons.prems(3), unfolded c]
  define W where "W = (if isl r then {} else {i})"
  have st: "step 1 (write_at W k d (views V p)) p p1" "isl r \<longrightarrow> \<not> fine (po_shards p ! i)"
    using s i(1) by (cases r; simp add: W_def write_at_single)+
  have rest: "copy_to E k d is (if isl r then n0 else n0 + 1, if isl r then l0 + 1 else l0) p1 = (q, n1, l1)"
    using Cons.prems(5) by (cases r) (simp_all add: c)
  note f = pool_step_frame [OF st(1)]
  have "pool_ok ok (length is) p1" using pool_step_ok [OF st(1), of "length is"] Cons.prems(1) by simp
  moreover have "set is \<subseteq> {0..<length (po_shards p1)}" using Cons.prems(2) frame_length [OF f] by simp
  ultimately obtain S where S: "S \<subseteq> set is" "step (length is) (write_at S k d (views V p1)) p1 q"
      "n1 = (if isl r then n0 else n0 + 1) + card S" "l1 = (if isl r then l0 + 1 else l0) + card (set is - S)"
      "\<forall>j \<in> set is - S. \<not> fine (po_shards p1 ! j)"
    using Cons.IH [OF _ _ Cons.prems(3) _ rest] Cons.prems(4) by auto
  have fin: "finite S" using S(1) finite_subset by blast
  have "step (length (i # is)) (write_at (S \<union> W) k d (views V p)) p q"
    using pool_step_trans [OF st(1) S(2)] pool_step_views [OF st(1)] by simp
  moreover have "n1 = n0 + card (S \<union> W)" using S(1,3) i(2) fin by (auto simp: W_def card_insert_if)
  moreover have "set (i # is) - (S \<union> W) = (if isl r then insert i (set is - S) else set is - S)" using S(1) i(2) by (auto simp: W_def)
  then have "l1 = l0 + card (set (i # is) - (S \<union> W))" "\<forall>j \<in> set (i # is) - (S \<union> W). \<not> fine (po_shards p ! j)"
    using S(4,5) i(2) st(2) frame_fault [OF f] Cons.prems(2) by (auto split: if_splits)
  ultimately show ?case using S(1) by (intro exI [of _ "S \<union> W"]) (auto simp: W_def)
qed

lemma read_for_repair_answers:
  assumes ok: "pool_ok ok 0 p" and "set hs \<subseteq> {0..<length (po_shards p)}" and "read_for_repair E k hs p = (q, r)"
  shows "step 0 (views V p) p q \<and> answers V fine p {0..<length (po_shards p)} k r"
proof -
  obtain p1 r1 where g: "get_any E k hs NotFound p = (p1, r1)" by fastforce
  from get_any_answers [OF ok assms(2) g] have s: "step 0 (views V p) p p1" "answers V fine p (set hs) k r1" by auto
  show ?thesis
  proof (cases r1)
    case (Inr v)
    then show ?thesis using assms(2,3) s held_by_mono by (auto simp: read_for_repair_def g)
  next
    case (Inl e)
    note n = frame_length [OF pool_step_frame [OF s(1)]]
    have "get_any E k [0..<length (po_shards p1)] NotFound p1 = (q, r)" using assms(3) by (simp add: read_for_repair_def g Inl)
    from get_any_answers [OF pool_step_ok0 [OF s(1) ok] _ this] n
    have s2: "step 0 (views V p1) p1 q" "answers V fine p1 {0..<length (po_shards p)} k r" by simp_all
    then show ?thesis using answers_later [OF s(1) order_refl, of "set hs" k r] s(2) pool_step_trans [OF s(1) s2(1)]
        pool_step_views [OF s(1)] assms(2) by (simp add: Inl sup.absorb2)
  qed
qed

section \<open>Repair of a mirrored key\<close>

text \<open>
  The desired shards that do not report the key get a copy of a body some shard holds. Nothing is copied where a fault-free shard
  holds a body already, and a failure without a copy means that no fault-free shard holds the key.
\<close>

lemma repair_key_mirror_step:
  assumes ok: "pool_ok ok (length (po_shards p)) p" and fit: "all_fit (views V p)" and repair: "repair_key_mirror E k None p = (q, r)"
    and rep: "replicas_for E k p = (p0, desired)"
  shows "\<exists>S d. step (length (po_shards p)) (write_at S k d (views V p)) p q \<and>
    (S \<noteq> {} \<longrightarrow> held_by V p {0..<length (po_shards p)} k d) \<and> S \<subseteq> set desired \<and>
    (\<forall>i \<in> S. (views V p ! i) k \<noteq> None \<longrightarrow> \<not> fine (po_shards p ! i)) \<and>
    (case r of
       Inr (n, l) \<Rightarrow> n = card S \<and> (if l = 0 then \<forall>i \<in> set desired. (views V q ! i) k \<noteq> None else \<exists>i \<in> set desired. \<not> fine (po_shards p ! i)) \<and>
         (\<forall>i \<in> set desired. fine (po_shards p ! i) \<longrightarrow> (views V q ! i) k \<noteq> None)
     | Inl e \<Rightarrow> S = {} \<and> \<not> sure V fine p {0..<length (po_shards p)} k)"
proof -
  let ?N = "length (po_shards p)"
  have ok0: "pool_ok ok 0 p" using ok by (rule ok_weaken) simp
  note s0 = ranking_step [OF ok0 rep [unfolded replicas_for_def]]
  note v0 = pool_step_views [OF s0(1)] and f0 = pool_step_frame [OF s0(1)]
  obtain p1 hs ms where sp: "split_holders E k desired p0 = (p1, hs, ms)" by (metis prod_cases3)
  from split_holders_step [OF pool_step_ok0 [OF s0(1) ok0] _ sp] s0(2,3) frame_length [OF f0]
  have h: "step 0 (views V p) p0 p1" "set hs \<union> set ms = set desired" "distinct ms" "\<forall>i \<in> set hs. (views V p ! i) k \<noteq> None"
      "\<forall>i \<in> set ms. (views V p ! i) k \<noteq> None \<longrightarrow> \<not> fine (po_shards p0 ! i)" by (simp_all add: v0)
  have s1: "step 0 (views V p) p p1" using pool_step_trans [OF s0(1) h(1)] by simp
  note v1 = pool_step_views [OF s1] and f1 = pool_step_frame [OF s1]
  have msr: "set ms \<subseteq> {0..<?N}" using h(2) s0(3) by auto
  have mf: "\<forall>i \<in> set ms. (views V p ! i) k \<noteq> None \<longrightarrow> \<not> fine (po_shards p ! i)"
    using h(5) frame_fault [OF f0] msr by auto
  show ?thesis
  proof (cases "ms = []")
    case True
    then have "q = p1" "r = Inr (0, 0)" using repair by (simp_all add: repair_key_mirror_def rep sp)
    then show ?thesis using step_mono [OF s1, of ?N] h(2,4) True by (intro exI [of _ "{}"]) (auto simp: v1)
  next
    case False
    obtain p2 rd where rd: "read_for_repair E k hs p1 = (p2, rd)" by fastforce
    have hsr: "set hs \<subseteq> {0..<length (po_shards p1)}" using h(2) s0(3) frame_length [OF f1] by auto
    from read_for_repair_answers [OF pool_step_ok0 [OF s1 ok0] hsr rd] frame_length [OF f1]
    have s2: "step 0 (views V p) p1 p2" "answers V fine p1 {0..<?N} k rd" by (simp_all add: v1)
    have s02: "step 0 (views V p) p p2" using pool_step_trans [OF s1 s2(1)] by simp
    note f2 = pool_step_frame [OF s02]
    show ?thesis
    proof (cases rd)
      case (Inl e)
      then have e: "q = p2" "r = Inl e" using repair False by (simp_all add: repair_key_mirror_def rep sp rd)
      have "\<not> sure V fine p {0..<?N} k" using s2(2) sure_step [OF s1 order_refl] by (auto simp: Inl)
      then show ?thesis using step_mono [OF s02, of ?N] by (intro exI [of _ "{}"]) (simp add: e)
    next
      case (Inr d)
      have d: "held_by V p {0..<?N} k d" using s2(2) by (simp add: Inr held_by_def v1)
      then have "fits k d" using fit by (auto simp: held_by_def all_fit_def)
      obtain p3 n l where c: "copy_to E k d ms (0, 0) p2 = (p3, n, l)" by (metis prod_cases3)
      have e: "q = bg_pay (length d * (1 + n)) p3" "r = Inr (n, l)"
        using repair False by (simp_all add: repair_key_mirror_def rep sp rd Inr c)
      have lm: "length ms \<le> ?N" using disjoint_lengths [of ms "[]"] h(3) msr by simp
      have "pool_ok ok (length ms) p2" using ok_weaken [OF pool_step_ok0 [OF s02 ok] lm] .
      from copy_to_step [OF this _ \<open>fits k d\<close> h(3) c] msr frame_length [OF f2] obtain S where
        S: "S \<subseteq> set ms" "step (length ms) (write_at S k d (views V p)) p2 p3" "n = card S" "l = card (set ms - S)"
          "\<forall>i \<in> set ms - S. \<not> fine (po_shards p2 ! i)"
        by (auto simp: pool_step_views [OF s02])
      have "step (length ms) (write_at S k d (views V p)) p p3" using pool_step_trans [OF s02 S(2)] by simp
      then have st: "step ?N (write_at S k d (views V p)) p q"
        by (intro pool_step_after [OF step_mono [OF _ lm]]) (simp_all add: e)
      have vq: "(views V q ! i) k \<noteq> None" if "i \<in> S \<union> set hs" for i
      proof -
        have "i < ?N" using that S(1) msr h(2) s0(3) by auto
        then show ?thesis using that h(4) by (cases "i \<in> S") (simp_all add: pool_step_views [OF st])
      qed
      have all: "\<forall>i \<in> set desired. (views V q ! i) k \<noteq> None" if "l = 0"
        using that S(1,4) h(2) vq by auto
      have "\<not> fine (po_shards p ! i)" if "i \<in> set ms - S" for i
        using that S(5) frame_fault [OF f2] msr by auto
      moreover have "\<exists>i. i \<in> set ms - S" if "l \<noteq> 0" using that S(4) by (cases "set ms - S = {}") (auto simp del: Diff_eq_empty_iff)
      ultimately have faulty: "l \<noteq> 0 \<Longrightarrow> \<exists>i \<in> set desired. \<not> fine (po_shards p ! i)"
        "\<forall>i \<in> set desired. fine (po_shards p ! i) \<longrightarrow> (views V q ! i) k \<noteq> None"
        using h(2) vq by blast+
      show ?thesis
      proof (intro exI conjI)
        show "step ?N (write_at S k d (views V p)) p q" by (rule st)
        show "S \<noteq> {} \<longrightarrow> held_by V p {0..<?N} k d" using d by blast
        show "S \<subseteq> set desired" using S(1) h(2) by blast
        show "\<forall>i \<in> S. (views V p ! i) k \<noteq> None \<longrightarrow> \<not> fine (po_shards p ! i)" using mf S(1) by blast
      qed (use S(3) all faulty in \<open>simp add: e(2)\<close>)
    qed
  qed
qed

end

section \<open>The resilver walk\<close>

text \<open>The keys still ahead of a walk that has come to a cursor.\<close>

definition ahead :: "(block_key \<rightharpoonup> bytes) list \<Rightarrow> block_key option \<Rightarrow> block_key set" where
  "ahead vs after = {k \<in> pool_keys vs. case after of None \<Rightarrow> True | Some a \<Rightarrow> a < k}"

lemma ahead_listed: "ahead vs after = (\<Union>i < length vs. listed (vs ! i) [] after)"
  by (rule set_eqI) (cases after; auto simp: ahead_def listed_def pool_keys_def starts_with_def Bex_def)

lemma ahead_next:
  assumes "finite (ahead vs after)" and "ks = take n (sorted_list_of_set (ahead vs after))" and "ks \<noteq> []"
  shows "ahead vs (Some (last ks)) = ahead vs after - set ks" "card (ahead vs (Some (last ks))) = card (ahead vs after) - length ks"
    "set ks \<subseteq> ahead vs after" "length ks \<le> card (ahead vs after)"
proof -
  let ?L = "sorted_list_of_set (ahead vs after)"
  have L: "sorted_wrt (<) ?L" "set ?L = ahead vs after" "distinct ?L" using assms(1) by simp_all
  have split: "?L = ks @ drop n ?L" unfolding assms(2) by simp
  have part: "\<forall>x \<in> set ks. \<forall>y \<in> set (drop n ?L). x < y" using L(1) sorted_wrt_append [of "(<)" ks "drop n ?L"] split by metis
  have top: "\<forall>x \<in> set ks. x \<le> last ks"
  proof
    fix x assume x: "x \<in> set ks"
    have "sorted_wrt (<) (butlast ks @ [last ks])" using L(1) split assms(3) sorted_wrt_append by (metis append_butlast_last_id)
    moreover have "x \<in> set (butlast ks) \<or> x = last ks" using x assms(3) by (cases ks rule: rev_cases) auto
    ultimately show "x \<le> last ks" by (auto simp: sorted_wrt_append)
  qed
  show sub: "set ks \<subseteq> ahead vs after" using L(2) split by (metis Un_upper1 set_append)
  have lst: "last ks \<in> set ks" using assms(3) by simp
  show eq: "ahead vs (Some (last ks)) = ahead vs after - set ks"
  proof (intro set_eqI iffI)
    fix k assume "k \<in> ahead vs (Some (last ks))"
    then have k: "k \<in> pool_keys vs" "last ks < k" by (auto simp: ahead_def)
    have "k \<in> ahead vs after" using k sub lst by (auto simp: ahead_def split: option.splits dest: less_trans)
    then show "k \<in> ahead vs after - set ks" using top k(2) by force
  next
    fix k assume k: "k \<in> ahead vs after - set ks"
    then have "k \<in> set (drop n ?L)" using L(2) split by (metis DiffE Un_iff set_append)
    then show "k \<in> ahead vs (Some (last ks))" using part lst k by (auto simp: ahead_def)
  qed
  have d: "card (set ks) = length ks" using L(3) split by (metis distinct_append distinct_card)
  show "length ks \<le> card (ahead vs after)" using card_mono [OF assms(1) sub] d by simp
  show "card (ahead vs (Some (last ks))) = card (ahead vs after) - length ks"
    unfolding eq using card_Diff_subset [OF _ sub] d by simp
qed

context pool_laws
begin

lemma resilver_keys_step:
  assumes "pc_ec (pe_cfg E) = None" and "pool_ok ok (length (po_shards p) * length ks) p" and "all_fit (views V p)"
    and "resilver_keys E ks rep p = (q, rep')"
  shows "\<exists>W. step (length (po_shards p) * length ks) W p q \<and> pool_keys W = pool_keys (views V p) \<and> all_fit W \<and>
    rr_scanned rep' = rr_scanned rep \<and> rr_done rep' = rr_done rep"
  using assms(2-)
proof (induction ks arbitrary: p rep)
  case Nil
  then show ?case using pool_step_refl [of ok V fine p] by (intro exI [of _ "views V p"]) simp
next
  case (Cons k ks)
  let ?N = "length (po_shards p)"
  obtain p1 r where c: "repair_key_mirror E k None p = (p1, r)" by fastforce
  obtain p0 desired where rep: "replicas_for E k p = (p0, desired)" by fastforce
  have "pool_ok ok ?N p" using Cons.prems(1) ok_weaken by simp
  from repair_key_mirror_step [OF this Cons.prems(2) c rep] obtain S d where
    S: "step ?N (write_at S k d (views V p)) p p1" "S \<noteq> {} \<longrightarrow> held_by V p {0..<?N} k d" by auto
  note v = pool_step_views [OF S(1)] and n = frame_length [OF pool_step_frame [OF S(1)]]
  have same: "pool_keys (views V p1) = pool_keys (views V p)" "all_fit (views V p1)"
    using S(2) write_held [of "views V p" k d S] Cons.prems(2) unfolding v by (cases "S = {}"; auto simp: held_by_def)+
  have "pool_ok ok (length (po_shards p1) * length ks) p1" using pool_step_ok [OF S(1)] Cons.prems(1) by (simp add: n)
  moreover obtain rep1 where "resilver_keys E ks rep1 p1 = (q, rep')" "rr_scanned rep1 = rr_scanned rep" "rr_done rep1 = rr_done rep"
    using Cons.prems(3) assms(1) c by (cases r) (auto simp: repair_key_def)
  ultimately obtain W where W: "step (length (po_shards p1) * length ks) W p1 q" "pool_keys W = pool_keys (views V p1)" "all_fit W"
      "rr_scanned rep' = rr_scanned rep" "rr_done rep' = rr_done rep"
    using Cons.IH [of p1 rep1] same(2) by metis
  then show ?case using pool_step_trans [OF S(1) W(1)] same(1) by (intro exI [of _ W]) (simp add: n)
qed

lemma resilver_step_spec:
  assumes cfg: "pc_ec (pe_cfg E) = None" and ok: "pool_ok ok (length (po_shards p) * card (ahead (views V p) after)) p"
    and fit: "all_fit (views V p)"
  shows "post (resilver_step E after batch p)
    (\<lambda>q rep. finite (ahead (views V p) after) \<and> (\<exists>W. let ks = take batch (sorted_list_of_set (ahead (views V p) after)) in
       step (length (po_shards p) * length ks) W p q \<and> pool_keys W = pool_keys (views V p) \<and> all_fit W \<and>
       rr_scanned rep = length ks \<and> rr_done rep = (length ks < batch) \<and> rr_last_key rep = (if ks = [] then None else Some (last ks))))
    (\<lambda>q e. \<exists>i < length (po_shards p). \<not> fine (po_shards p ! i))"
  unfolding resilver_step_def
proof (rule post_and_then [OF post_mono [OF pool_list_spec [OF ok_weaken [OF ok le0]]]])
  fix p1 and rows :: "(block_key \<times> nat) list"
  let ?L = "sorted_list_of_set (ahead (views V p) after)" and ?ks = "map fst rows"
  assume "step 0 (views V p) p p1 \<and> finite (\<Union>i < length (po_shards p). listed (views V p ! i) [] after) \<and>
    map fst rows = take batch (sorted_list_of_set (\<Union>i < length (po_shards p). listed (views V p ! i) [] after))"
  then have s: "step 0 (views V p) p p1" and fin: "finite (ahead (views V p) after)" and ks: "?ks = take batch ?L"
    by (simp_all add: ahead_listed)
  note v = pool_step_views [OF s] and n = frame_length [OF pool_step_frame [OF s]]
  let ?rep = "resilver_report_default\<lparr>rr_scanned := length ?ks, rr_done := length ?ks < batch\<rparr>"
  obtain p2 rep2 where k: "resilver_keys E ?ks ?rep p1 = (p2, rep2)" by fastforce
  have "length ?ks \<le> card (ahead (views V p) after)" unfolding ks using fin by simp
  then have "pool_ok ok (length (po_shards p1) * length ?ks) p1" using pool_step_ok0 [OF s ok] ok_weaken by (metis mult_le_mono2 n)
  from resilver_keys_step [OF cfg this _ k] fit obtain W where
    W: "step (length (po_shards p) * length ?ks) W p1 p2" "pool_keys W = pool_keys (views V p)" "all_fit W"
      "rr_scanned rep2 = length ?ks" "rr_done rep2 = (length ?ks < batch)"
    by (auto simp: v n)
  have "step (length (po_shards p) * length ?ks) W p p2" using pool_step_trans [OF s W(1)] by simp
  then have "step (length (po_shards p) * length ?ks) W p (tally ResilverErrors (rr_errors rep2) (tally ResilverRepaired (rr_repaired rep2) p2))"
    by (rule pool_step_after) simp_all
  then show "post (let keys = ?ks; rep = resilver_report_default\<lparr>rr_scanned := length keys, rr_done := length keys < batch\<rparr>;
        (p, rep) = resilver_keys E keys rep p1; p = tally ResilverErrors (rr_errors rep) (tally ResilverRepaired (rr_repaired rep) p)
      in (p, Inr (rep\<lparr>rr_last_key := if keys = [] then None else Some (last keys)\<rparr>)))
    (\<lambda>q rep. finite (ahead (views V p) after) \<and> (\<exists>W. let ks = take batch (sorted_list_of_set (ahead (views V p) after)) in
       step (length (po_shards p) * length ks) W p q \<and> pool_keys W = pool_keys (views V p) \<and> all_fit W \<and>
       rr_scanned rep = length ks \<and> rr_done rep = (length ks < batch) \<and> rr_last_key rep = (if ks = [] then None else Some (last ks))))
    (\<lambda>q e. \<exists>i < length (po_shards p). \<not> fine (po_shards p ! i))"
    unfolding Let_def k prod.case post_simps ks [symmetric] using fin W(2-5) by (intro conjI exI [of _ W]) simp_all
qed simp_all

lemma save_cursor0_step:
  assumes "pool_ok ok 0 p" and "0 < length (po_shards p)"
  shows "step 0 (views V p) p (save_cursor0 E name pos p)"
proof -
  obtain q r where c: "shard_call (\<lambda>s. so_save_cursor (pe_ops E) s name pos) 0 p = (q, r)" by fastforce
  have "post (shard_call (\<lambda>s. so_save_cursor (pe_ops E) s name pos) 0 p) (\<lambda>p' a. step 0 (views V p) p p' \<and> True)
      (\<lambda>p' er. step 0 (views V p) p p' \<and> True)"
    by (rule shard_read_step [OF assms]) (rule post_mono [OF port_save [of "po_shards p ! 0" name pos, folded port_ops]], auto)
  then show ?thesis by (cases r) (simp_all add: save_cursor0_def c)
qed

lemma resilver_loop_ends:
  assumes "pc_ec (pe_cfg E) = None" and "0 < batch" and "0 < length (po_shards p)"
    and "pool_ok ok (length (po_shards p) * card (ahead (views V p) after)) p" and "all_fit (views V p)"
  shows "\<exists>q r. resilver_loop E batch after acc p = Some (q, r) \<and>
    (case r of Inr rep \<Rightarrow> pool_ok ok 0 q \<and> frame fine p q \<and> pool_keys (views V q) = pool_keys (views V p) \<and> rr_done rep \<and>
         rr_scanned rep = rr_scanned acc + card (ahead (views V p) after)
     | Inl e \<Rightarrow> \<exists>i < length (po_shards p). \<not> fine (po_shards p ! i))"
  using assms(3-)
proof (induction "card (ahead (views V p) after)" arbitrary: p after acc rule: less_induct)
  case less
  let ?N = "length (po_shards p)" and ?A = "ahead (views V p) after"
  define ks where "ks = take batch (sorted_list_of_set ?A)"
  obtain q r where st: "resilver_step E after batch p = (q, r)" by fastforce
  note sp = resilver_step_spec [OF assms(1) less.prems(2,3), of batch, unfolded st Let_def, folded ks_def]
  show ?case
  proof (cases r)
    case (Inl e)
    then show ?thesis using sp by (simp add: resilver_loop.simps st)
  next
    case (Inr rep)
    with sp obtain W where fin: "finite ?A" and W: "step (?N * length ks) W p q" "pool_keys W = pool_keys (views V p)" "all_fit W"
        and rep: "rr_scanned rep = length ks" "rr_done rep = (length ks < batch)" "rr_last_key rep = (if ks = [] then None else Some (last ks))"
      by auto
    note vq = pool_step_views [OF W(1)] and nq = frame_length [OF pool_step_frame [OF W(1)]]
    define acc' where "acc' = acc\<lparr>rr_scanned := rr_scanned acc + rr_scanned rep, rr_repaired := rr_repaired acc + rr_repaired rep,
      rr_errors := rr_errors acc + rr_errors rep, rr_last_key := rr_last_key rep\<rparr>"
    have lk: "length ks \<le> card ?A" "length ks = min batch (card ?A)" using fin by (simp_all add: ks_def)
    have okq: "pool_ok ok (?N * (card ?A - length ks)) q"
      using pool_step_ok [OF W(1), of "?N * (card ?A - length ks)"] less.prems(2) lk(1)
      by (simp add: distrib_left [symmetric])
    have okq0: "pool_ok ok 0 q" using okq by (rule ok_weaken) simp
    show ?thesis
    proof (cases "length ks < batch \<or> ks = []")
      case True
      note s = save_cursor0_step [OF okq0, of "''resilver''" None]
      have e: "resilver_loop E batch after acc p = Some (save_cursor0 E ''resilver'' None q, Inr (acc'\<lparr>rr_done := True\<rparr>))"
        using True by (subst resilver_loop.simps) (auto simp: st Inr rep(2,3) acc'_def Let_def)
      have "length ks = card ?A" using True lk assms(2) by auto
      then show ?thesis
        using s less.prems(1) pool_step_ok0 [OF s okq0] pool_step_views [OF s] pool_step_frame [OF s] pool_step_frame [OF W(1)] W(2)
        by (auto simp: e acc'_def rep(1) vq nq intro: frame_trans)
    next
      case False
      let ?p = "save_cursor0 E ''resilver'' (Some (last ks)) q"
      have s: "step 0 W q ?p" using save_cursor0_step [OF okq0, of "''resilver''" "Some (last ks)"] less.prems(1) by (simp add: nq vq)
      note vp = pool_step_views [OF s] and fp = frame_trans [OF pool_step_frame [OF W(1)] pool_step_frame [OF s]]
      have np: "length (po_shards ?p) = ?N" using frame_length [OF fp] .
      have e: "resilver_loop E batch after acc p = resilver_loop E batch (Some (last ks)) acc' ?p"
        using False by (subst resilver_loop.simps) (auto simp: st Inr rep(2,3) acc'_def Let_def)
      have ah: "ahead (views V ?p) (Some (last ks)) = ahead (views V p) (Some (last ks))" by (simp add: ahead_def vp W(2))
      have ca: "card (ahead (views V ?p) (Some (last ks))) = card ?A - length ks"
        using ahead_next(2) [OF fin ks_def] False by (simp add: ah)
      have "card ?A - length ks < card ?A" using False lk(1) by (cases ks) auto
      moreover have "pool_ok ok (?N * (card ?A - length ks)) ?p" using pool_step_ok0 [OF s okq] .
      ultimately obtain q' r' where l: "resilver_loop E batch (Some (last ks)) acc' ?p = Some (q', r')"
          "case r' of Inr rep \<Rightarrow> pool_ok ok 0 q' \<and> frame fine ?p q' \<and> pool_keys (views V q') = pool_keys (views V ?p) \<and> rr_done rep \<and>
             rr_scanned rep = rr_scanned acc' + (card ?A - length ks)
           | Inl e \<Rightarrow> \<exists>i < length (po_shards ?p). \<not> fine (po_shards ?p ! i)"
        using less.hyps [of ?p "Some (last ks)" acc'] less.prems(1) W(3) [folded vp] unfolding ca np by blast
      show ?thesis
      proof (cases r')
        case (Inl er)
        then show ?thesis using l frame_fault [OF fp] np by (auto simp: e)
      next
        case (Inr rep')
        then show ?thesis using l frame_trans [OF fp] W(2) lk(1) by (auto simp: e vp acc'_def rep(1))
      qed
    qed
  qed
qed


lemma flush_shards_step:
  assumes "pool_ok ok 0 p" and "\<forall>i \<in> set is. i < length (po_shards p)"
  shows "post (flush_shards E is p) (\<lambda>q u. step 0 (views V p) p q)
    (\<lambda>q e. step 0 (views V p) p q \<and> (\<exists>i < length (po_shards p). \<not> fine (po_shards p ! i)))"
  using assms
proof (induction "is" arbitrary: p)
  case (Cons i "is")
  have i: "i < length (po_shards p)" using Cons.prems(2) by simp
  obtain p1 r where c: "shard_call (so_flush (pe_ops E)) i p = (p1, r)" by fastforce
  have "post (shard_call (so_flush (pe_ops E)) i p) (\<lambda>p' a. step 0 (views V p) p p' \<and> True)
      (\<lambda>p' er. step 0 (views V p) p p' \<and> \<not> fine (po_shards p ! i))"
    by (rule shard_read_step [OF Cons.prems(1) i], rule post_mono [OF port_flush [of "po_shards p ! i", folded port_ops]], auto)
  then have s: "step 0 (views V p) p p1" "isl r \<longrightarrow> \<not> fine (po_shards p ! i)" by (cases r; simp add: c)+
  note f = pool_step_frame [OF s(1)]
  show ?case
  proof (cases r)
    case (Inl e)
    then show ?thesis using s i by (auto simp: c)
  next
    case (Inr u)
    have "\<forall>j \<in> set is. j < length (po_shards p1)" using Cons.prems(2) frame_length [OF f] by simp
    from Cons.IH [OF pool_step_ok0 [OF s(1) Cons.prems(1)] this]
    have "post (flush_shards E is p1) (\<lambda>q u. step 0 (views V p) p q)
        (\<lambda>q e. step 0 (views V p) p q \<and> (\<exists>i < length (po_shards p). \<not> fine (po_shards p ! i)))"
      by (rule post_mono) (use pool_step_trans [OF s(1), of 0] pool_step_views [OF s(1)] frame_fault [OF f] frame_length [OF f] in auto)
    then show ?thesis by (simp add: c Inr)
  qed
qed (simp add: pool_step_refl)

lemma load_cursor0_step:
  assumes "pool_ok ok 0 p" and "0 < length (po_shards p)"
  shows "post (shard_call (\<lambda>s. so_load_cursor (pe_ops E) s name) 0 p)
    (\<lambda>q after. step 0 (views V p) p q \<and> snd (so_load_cursor (pe_ops E) (po_shards p ! 0) name) = Inr after)
    (\<lambda>q e. \<not> fine (po_shards p ! 0))"
proof -
  have "post (shard_call (\<lambda>s. so_load_cursor (pe_ops E) s name) 0 p) (\<lambda>p' a. step 0 (views V p) p p' \<and> True)
      (\<lambda>p' er. step 0 (views V p) p p' \<and> \<not> fine (po_shards p ! 0))"
    by (rule shard_read_step [OF assms], rule post_mono [OF port_load [of "po_shards p ! 0" name, folded port_ops]], auto)
  then show ?thesis
    by (cases "so_load_cursor (pe_ops E) (po_shards p ! 0) name"; cases "snd (so_load_cursor (pe_ops E) (po_shards p ! 0) name)")
      (auto simp: shard_call_def)
qed

lemma resilver_full_ends:
  assumes "pc_ec (pe_cfg E) = None" and "0 < batch" and n: "0 < length (po_shards p)" and fin: "finite (pool_keys (views V p))"
    and ok: "pool_ok ok (length (po_shards p) * card (pool_keys (views V p))) p" and fit: "all_fit (views V p)"
  shows "\<exists>q r. resilver_full E batch p = Some (q, r) \<and>
    (case r of Inr rep \<Rightarrow> pool_keys (views V q) = pool_keys (views V p) \<and> rr_done rep \<and>
         (\<exists>after. snd (so_load_cursor (pe_ops E) (po_shards p ! 0) ''resilver'') = Inr after \<and>
            rr_scanned rep = card (ahead (views V p) after))
     | Inl e \<Rightarrow> \<exists>i < length (po_shards p). \<not> fine (po_shards p ! i))"
proof -
  have ok0: "pool_ok ok 0 p" using ok by (rule ok_weaken) simp
  obtain p1 r1 where c: "shard_call (\<lambda>s. so_load_cursor (pe_ops E) s ''resilver'') 0 p = (p1, r1)" by fastforce
  note lc = load_cursor0_step [OF ok0 n, of "''resilver''", unfolded c]
  show ?thesis
  proof (cases r1)
    case (Inl e)
    then show ?thesis using lc n by (auto simp: resilver_full_def c)
  next
    case (Inr after)
    then have s: "step 0 (views V p) p p1" and cur: "snd (so_load_cursor (pe_ops E) (po_shards p ! 0) ''resilver'') = Inr after" using lc by simp_all
    note v = pool_step_views [OF s] and f = pool_step_frame [OF s]
    have "card (ahead (views V p) after) \<le> card (pool_keys (views V p))" by (rule card_mono [OF fin]) (auto simp: ahead_def)
    then have "length (po_shards p) * card (ahead (views V p) after) \<le> length (po_shards p) * card (pool_keys (views V p))" by simp
    from ok_weaken [OF pool_step_ok0 [OF s ok] this]
    have "pool_ok ok (length (po_shards p1) * card (ahead (views V p1) after)) p1" by (simp add: v frame_length [OF f])
    from resilver_loop_ends [OF assms(1,2) _ this, of resilver_report_default] obtain q r where
      l: "resilver_loop E batch after resilver_report_default p1 = Some (q, r)"
      "case r of Inr rep \<Rightarrow> pool_ok ok 0 q \<and> frame fine p1 q \<and> pool_keys (views V q) = pool_keys (views V p1) \<and> rr_done rep \<and>
           rr_scanned rep = rr_scanned resilver_report_default + card (ahead (views V p1) after)
       | Inl e \<Rightarrow> \<exists>i < length (po_shards p1). \<not> fine (po_shards p1 ! i)"
      using n fit frame_length [OF f] by (auto simp: v)
    show ?thesis
    proof (cases r)
      case (Inl e)
      then show ?thesis using l frame_fault [OF f] frame_length [OF f] by (auto simp: resilver_full_def c Inr)
    next
      case (Inr rep)
      with l have q: "pool_ok ok 0 q" "frame fine p q" "pool_keys (views V q) = pool_keys (views V p)" "rr_done rep"
          "rr_scanned rep = card (ahead (views V p) after)"
        using frame_trans [OF f] by (auto simp: v resilver_report_default_def)
      obtain p2 r2 where fl: "flush_all E q = (p2, r2)" by fastforce
      have "post (flush_all E q) (\<lambda>q' u. step 0 (views V q) q q')
          (\<lambda>q' e. step 0 (views V q) q q' \<and> (\<exists>i < length (po_shards q). \<not> fine (po_shards q ! i)))"
        unfolding flush_all_def by (rule flush_shards_step [OF q(1)]) simp
      then have "case r2 of Inr _ \<Rightarrow> views V p2 = views V q | Inl _ \<Rightarrow> \<exists>i < length (po_shards p). \<not> fine (po_shards p ! i)"
        using frame_fault [OF q(2)] frame_length [OF q(2)] by (cases r2) (auto simp: fl dest: pool_step_views)
      moreover have "resilver_full E batch p = Some (case r2 of Inr _ \<Rightarrow> (p2, Inr rep) | Inl e \<Rightarrow> (p2, Inl e))"
        by (cases r2) (simp_all add: resilver_full_def c \<open>r1 = Inr after\<close> l(1) Inr fl)
      ultimately show ?thesis using q(3-5) cur by (cases r2) auto
    qed
  qed
qed

end

end
