(* ===== verification/Store.thy ===== *)
theory Store
  imports Pool_Thms Pool_Repair_Laws
begin

text \<open>
  The \<open>BlockStore\<close> port of the domain crate as a record of operations, what its clients (the cache tier, CAR import and export, the S3
  gateway) rely on as two locales, and the mirrored pool over disk engines as their provider.
\<close>

section \<open>The BlockStore port\<close>

record 'i block_store =
  bs_put :: "'i \<Rightarrow> block_key \<Rightarrow> bytes \<Rightarrow> ('i, unit) op"
  bs_get :: "'i \<Rightarrow> block_key \<Rightarrow> ('i, bytes) op"
  bs_stat :: "'i \<Rightarrow> block_key \<Rightarrow> ('i, nat) op"
  bs_has :: "'i \<Rightarrow> block_key \<Rightarrow> ('i, bool) op"
  bs_delete :: "'i \<Rightarrow> block_key \<Rightarrow> ('i, unit) op"
  bs_list :: "'i \<Rightarrow> bytes \<Rightarrow> block_key option \<Rightarrow> nat \<Rightarrow> ('i, (block_key \<times> nat) list) op"

text \<open>The pool as a block store.\<close>

definition pool_store :: "'s pool_env \<Rightarrow> 's pool block_store" where
  "pool_store E =
     \<lparr>bs_put = (\<lambda>p k b. pool_put E k b p), bs_get = (\<lambda>p k. pool_get E k p), bs_stat = (\<lambda>p k. pool_stat E k p),
      bs_has = (\<lambda>p k. pool_has E k p), bs_delete = (\<lambda>p k. pool_delete E k p),
      bs_list = (\<lambda>p pre after limit. pool_list E pre after limit p)\<rparr>"

section \<open>What its clients rely on\<close>

text \<open>
  \<open>H i k b\<close>: the store has the body \<open>b\<close> for \<open>k\<close> somewhere; \<open>L i k\<close>: the key is there to be read despite the present faults;
  \<open>fine i\<close>: no faults at all; \<open>ok n i\<close>: the store is consistent and has room for \<open>n\<close> more writes. \<open>store_kept\<close> says that
  an operation lost and gained nothing.
\<close>

definition store_kept :: "('i \<Rightarrow> block_key \<Rightarrow> bytes \<Rightarrow> bool) \<Rightarrow> ('i \<Rightarrow> block_key \<Rightarrow> bool) \<Rightarrow> ('i \<Rightarrow> bool) \<Rightarrow> 'i \<Rightarrow> 'i \<Rightarrow> bool" where
  "store_kept H L fine i i' \<longleftrightarrow> H i' = H i \<and> (\<forall>k. L i k \<longrightarrow> L i' k) \<and> (fine i \<longrightarrow> fine i')"

definition store_wrote ::
  "('i \<Rightarrow> block_key \<Rightarrow> bytes \<Rightarrow> bool) \<Rightarrow> ('i \<Rightarrow> block_key \<Rightarrow> bool) \<Rightarrow> ('i \<Rightarrow> bool) \<Rightarrow> block_key \<Rightarrow> bytes \<Rightarrow> 'i \<Rightarrow> 'i \<Rightarrow> bool" where
  "store_wrote H L fine k b i i' \<longleftrightarrow> (\<forall>k' b'. H i' k' b' \<longrightarrow> H i k' b' \<or> k' = k \<and> b' = b) \<and>
     (\<forall>k. L i k \<longrightarrow> L i' k) \<and> (fine i \<longrightarrow> fine i')"

definition store_removed ::
  "('i \<Rightarrow> block_key \<Rightarrow> bytes \<Rightarrow> bool) \<Rightarrow> ('i \<Rightarrow> block_key \<Rightarrow> bool) \<Rightarrow> ('i \<Rightarrow> bool) \<Rightarrow> block_key \<Rightarrow> 'i \<Rightarrow> 'i \<Rightarrow> bool" where
  "store_removed H L fine k i i' \<longleftrightarrow> (\<forall>k' b'. H i' k' b' \<longrightarrow> H i k' b') \<and>
     (\<forall>k'. k' \<noteq> k \<longrightarrow> L i k' \<longrightarrow> L i' k') \<and> (fine i \<longrightarrow> fine i')"

text \<open>A read may drop or copy bodies behind the scenes, but adds nothing new.\<close>

definition store_cached :: "('i \<Rightarrow> block_key \<Rightarrow> bytes \<Rightarrow> bool) \<Rightarrow> ('i \<Rightarrow> block_key \<Rightarrow> bool) \<Rightarrow> ('i \<Rightarrow> bool) \<Rightarrow> 'i \<Rightarrow> 'i \<Rightarrow> bool" where
  "store_cached H L fine i i' \<longleftrightarrow> (\<forall>k b. H i' k b \<longrightarrow> H i k b) \<and> (\<forall>k. L i k \<longrightarrow> L i' k) \<and> (fine i \<longrightarrow> fine i')"

locale block_store =
  fixes B :: "'i block_store" and ok :: "nat \<Rightarrow> 'i \<Rightarrow> bool" and H :: "'i \<Rightarrow> block_key \<Rightarrow> bytes \<Rightarrow> bool"
    and L :: "'i \<Rightarrow> block_key \<Rightarrow> bool" and fine :: "'i \<Rightarrow> bool"
  assumes store_mono: "ok n i \<Longrightarrow> m \<le> n \<Longrightarrow> ok m i"
    and store_fits: "ok n i \<Longrightarrow> H i k b \<Longrightarrow> fits k b"
    and store_put: "ok (Suc n) i \<Longrightarrow> fits k b \<Longrightarrow> post (bs_put B i k b)
      (\<lambda>i' u. ok n i' \<and> store_wrote H L fine k b i i' \<and> H i' k b) (\<lambda>i' e. ok n i' \<and> store_wrote H L fine k b i i')"
    and store_get: "ok (Suc n) i \<Longrightarrow> post (bs_get B i k)
      (\<lambda>i' b. ok n i' \<and> store_cached H L fine i i' \<and> H i k b) (\<lambda>i' e. ok n i' \<and> store_cached H L fine i i' \<and> \<not> L i k)"
    and store_delete: "ok n i \<Longrightarrow> post (bs_delete B i k)
      (\<lambda>i' u. ok n i' \<and> store_removed H L fine k i i' \<and> (fine i \<longrightarrow> (\<forall>b. \<not> H i' k b))) (\<lambda>i' e. ok n i' \<and> store_removed H L fine k i i')"

text \<open>A store whose presence checks and listings are exact, whose reads leave it as it is and whose writes keep the other keys.\<close>

definition stored_keys :: "('i \<Rightarrow> block_key \<Rightarrow> bytes \<Rightarrow> bool) \<Rightarrow> 'i \<Rightarrow> bytes \<Rightarrow> block_key option \<Rightarrow> block_key set" where
  "stored_keys H i pre after = {k. (\<exists>b. H i k b) \<and> starts_with k pre \<and> (case after of None \<Rightarrow> True | Some a \<Rightarrow> a < k)}"

locale listed_store = block_store +
  assumes store_live: "fine i \<Longrightarrow> H i k b \<Longrightarrow> L i k"
    and store_read: "ok n i \<Longrightarrow> post (bs_get B i k) (\<lambda>i' b. ok n i' \<and> store_kept H L fine i i') (\<lambda>i' e. ok n i' \<and> store_kept H L fine i i')"
    and store_others: "ok (Suc n) i \<Longrightarrow> fits k b \<Longrightarrow> k' \<noteq> k \<Longrightarrow> H i k' b' \<Longrightarrow> H (fst (bs_put B i k b)) k' b'"
    and store_has: "ok n i \<Longrightarrow> post (bs_has B i k)
      (\<lambda>i' b. ok n i' \<and> store_kept H L fine i i' \<and> b = (\<exists>v. H i k v)) (\<lambda>i' e. ok n i' \<and> store_kept H L fine i i' \<and> \<not> fine i)"
    and store_list: "ok n i \<Longrightarrow> \<forall>a. after = Some a \<longrightarrow> pre \<le> a \<Longrightarrow> post (bs_list B i pre after limit)
      (\<lambda>i' out. ok n i' \<and> store_kept H L fine i i' \<and> finite (stored_keys H i pre after) \<and>
         map fst out = take limit (sorted_list_of_set (stored_keys H i pre after)))
      (\<lambda>i' e. ok n i' \<and> store_kept H L fine i i' \<and> \<not> fine i)"

section \<open>The mirrored pool provides it\<close>

definition pool_holds :: "('t, 'm) engine_env \<Rightarrow> ('t, 'm) engine pool \<Rightarrow> block_key \<Rightarrow> bytes \<Rightarrow> bool" where
  "pool_holds EE p k b \<longleftrightarrow> (\<exists>i < length (po_shards p). (views (view EE) p ! i) k = Some b)"

definition pool_live :: "('t, 'm) engine_env \<Rightarrow> ('t, 'm) engine pool \<Rightarrow> block_key \<Rightarrow> bool" where
  "pool_live EE p k \<longleftrightarrow> (\<exists>i < length (po_shards p). engine_fine (po_shards p ! i) \<and> (views (view EE) p ! i) k \<noteq> None)"

definition pool_fine :: "('t, 'm) engine pool \<Rightarrow> bool" where
  "pool_fine p \<longleftrightarrow> (\<forall>i < length (po_shards p). engine_fine (po_shards p ! i))"

text \<open>Each write may touch every shard.\<close>

definition pool_room :: "('t, 'm) engine_env \<Rightarrow> nat \<Rightarrow> ('t, 'm) engine pool \<Rightarrow> bool" where
  "pool_room EE n p \<longleftrightarrow> pool_ok (engine_ok EE) (length (po_shards p) * n) p \<and> all_fit (views (view EE) p)"

lemma pool_step_kept:
  assumes "pool_step (engine_ok EE) (view EE) engine_fine 0 (views (view EE) p) p q"
  shows "store_kept (pool_holds EE) (pool_live EE) pool_fine p q" and "pool_room EE n p \<Longrightarrow> pool_room EE n q"
proof -
  note v = pool_step_views [OF assms] and f = pool_step_frame [OF assms]
  have e: "\<And>i. i < length (po_shards p) \<Longrightarrow> engine_fine (po_shards p ! i) \<Longrightarrow> engine_fine (po_shards q ! i)"
    using f by (simp add: frame_def)
  show "store_kept (pool_holds EE) (pool_live EE) pool_fine p q"
    using e by (auto simp: store_kept_def pool_holds_def pool_live_def pool_fine_def fun_eq_iff frame_length [OF f] v)
  show "pool_room EE n p \<Longrightarrow> pool_room EE n q"
    using pool_step_ok0 [OF assms] by (simp add: pool_room_def frame_length [OF f] v)
qed

lemma write_at_wrote:
  assumes v: "views (view EE) q = write_at S k b (views (view EE) p)"
    and f: "\<forall>i < length (po_shards p). engine_fine (po_shards p ! i) \<longrightarrow> engine_fine (po_shards q ! i)"
  shows "store_wrote (pool_holds EE) (pool_live EE) pool_fine k b p q"
proof -
  have n: "length (po_shards q) = length (po_shards p)" using arg_cong [OF v, of length] by simp
  have held: "(views (view EE) q ! i) k' = (if i \<in> S \<and> k' = k then Some b else (views (view EE) p ! i) k')" if "i < length (po_shards p)" for i k'
    using that by (simp add: v)
  have "\<exists>i < length (po_shards p). engine_fine (po_shards q ! i) \<and> (views (view EE) q ! i) k' \<noteq> None"
    if "i < length (po_shards p)" "engine_fine (po_shards p ! i)" "(views (view EE) p ! i) k' \<noteq> None" for i k'
    using that f held [OF that(1), of k'] by (intro exI [of _ i]) (auto split: if_splits)
  then show ?thesis
    using f held by (auto simp: store_wrote_def pool_holds_def pool_live_def pool_fine_def n split: if_splits)
qed


lemma pool_put_store:
  assumes laws: "engine_laws EE" "disk_pool EE pol xxh3 PE" and cfg: "mirror_cfg (pe_cfg PE)" "0 < pc_write_quorum (pe_cfg PE)"
    and room: "pool_room EE (Suc n) p" and fit: "fits k b" and put: "pool_put PE k b p = (p', r)"
  shows "pool_room EE n p' \<and> store_wrote (pool_holds EE) (pool_live EE) pool_fine k b p p' \<and> (isl r \<or> pool_holds EE p' k b) \<and>
    (\<forall>k' b'. k' \<noteq> k \<longrightarrow> pool_holds EE p k' b' \<longrightarrow> pool_holds EE p' k' b')"
proof (cases "po_shutting_down p")
  case True
  then have e: "po_shards p' = po_shards p" "po_topo p' = po_topo p" "isl r" "views (view EE) p' = views (view EE) p"
    using put by (auto simp: pool_put_def is_shutting_down_def Let_def tally_def views_def)
  have "pool_room EE n p" using room pool_laws.ok_weaken [OF disk_pool_laws [OF laws], of "length (po_shards p) * Suc n" p "length (po_shards p) * n"]
    by (simp add: pool_room_def)
  then show ?thesis using e by (auto simp: pool_room_def pool_ok_def store_wrote_def pool_holds_def pool_live_def pool_fine_def)
next
  case False
  let ?N = "length (po_shards p)" and ?p = "tally InflightPuts 1 p"
  have okN: "pool_ok (engine_ok EE) (?N + ?N * n) p" using room by (simp add: pool_room_def)
  then have ok: "pool_ok (engine_ok EE) ?N p" by (rule pool_laws.ok_weaken [OF disk_pool_laws [OF laws]]) simp
  from mirror_put_placed [OF laws cfg(1) False ok fit put] obtain S where
    S: "S \<subseteq> {0..<?N}" "views (view EE) p' = write_at S k b (views (view EE) p)"
      "isl r \<longleftrightarrow> snd (replicas_for PE k p) = [] \<or> card S < min (pc_write_quorum (pe_cfg PE)) (length (snd (replicas_for PE k p)))"
      "\<forall>i < ?N. engine_fine (po_shards p ! i) \<longrightarrow> engine_fine (po_shards p' ! i)" by (auto simp: Let_def)
  obtain q where q: "put_mirror PE k b ?p = (q, r)" "po_shards p' = po_shards q" "po_topo p' = po_topo q"
    using pool_put_mirror [OF cfg(1) False put] by metis
  obtain p0 reps where rep: "replicas_for PE k ?p = (p0, reps)" by fastforce
  have "pool_ok (engine_ok EE) (length (po_shards ?p)) ?p" using ok by simp
  from pool_laws.put_mirror_step [OF disk_pool_laws [OF laws] this fit q(1) rep] obtain W where
    "pool_stepq (engine_ok EE) (view EE) engine_fine ?N W ?p q" by auto
  from pool_stepqD(1) [OF this, of "?N * n"] okN have "pool_ok (engine_ok EE) (?N * n) q" by simp
  moreover have "length (po_shards q) = ?N" using arg_cong [OF S(2), of length] by (simp add: q)
  moreover have "all_fit (views (view EE) p')" using room fit by (auto simp: pool_room_def all_fit_def S(2) split: if_splits)
  ultimately have "pool_room EE n p'" by (simp add: pool_room_def pool_ok_def q)
  moreover have "pool_holds EE p' k b" if "\<not> isl r"
  proof -
    have "0 < card S" using that S(3) cfg(2) by (cases "snd (replicas_for PE k p)") auto
    then obtain i where "i \<in> S" by (cases "S = {}") auto
    then have "i < length (po_shards p)" using S(1) by auto
    moreover have "length (po_shards p') = length (po_shards p)" using arg_cong [OF S(2), of length] by simp
    ultimately show ?thesis using \<open>i \<in> S\<close> by (auto simp: pool_holds_def S(2) intro!: exI [of _ i])
  qed
  moreover have "pool_holds EE p' k' b'" if k: "k' \<noteq> k" and h: "pool_holds EE p k' b'" for k' b'
  proof -
    obtain i where i: "i < length (po_shards p)" "(views (view EE) p ! i) k' = Some b'" using h by (auto simp: pool_holds_def)
    have "length (po_shards p') = length (po_shards p)" using arg_cong [OF S(2), of length] by simp
    with i k have "(views (view EE) p' ! i) k' = Some b'" "i < length (po_shards p')" by (simp_all add: S(2))
    then show ?thesis unfolding pool_holds_def by blast
  qed
  ultimately show ?thesis using write_at_wrote [OF S(2,4)] by blast
qed

lemma pool_get_store:
  assumes laws: "engine_laws EE" "disk_pool EE pol xxh3 PE" and cfg: "mirror_cfg (pe_cfg PE)"
    and room: "pool_room EE n p" and get: "pool_get PE k p = (p', r)"
  shows "pool_room EE n p' \<and> store_kept (pool_holds EE) (pool_live EE) pool_fine p p' \<and>
    (case r of Inr b \<Rightarrow> pool_holds EE p k b | Inl e \<Rightarrow> \<not> pool_live EE p k)"
proof -
  let ?p = "tally InflightGets 1 p"
  obtain q where q: "get_mirror PE k ?p = (q, r)" "po_shards p' = po_shards q" "po_topo p' = po_topo q" "po_mrf p' = po_mrf q"
      "po_shutting_down p' = po_shutting_down q" using pool_get_mirror [OF cfg get] .
  have ok: "pool_ok (engine_ok EE) 0 ?p"
    using room pool_laws.ok_weaken [OF disk_pool_laws [OF laws], of "length (po_shards p) * n" p 0] by (simp add: pool_room_def)
  note g = pool_laws.get_mirror_answers [OF disk_pool_laws [OF laws] ok q(1)]
  have "pool_step (engine_ok EE) (view EE) engine_fine 0 (views (view EE) p) p ?p" by (rule pool_step_meta) simp_all
  from pool_step_trans [OF this conjunct1 [OF g]]
  have "pool_step (engine_ok EE) (view EE) engine_fine 0 (views (view EE) p) p q" unfolding tally_irrelevant add_0 .
  from pool_step_after [OF this q(2-5)]
  have "pool_step (engine_ok EE) (view EE) engine_fine 0 (views (view EE) p) p p'" .
  note s = pool_step_kept [OF this]
  have "case r of Inr b \<Rightarrow> pool_holds EE p k b | Inl e \<Rightarrow> \<not> pool_live EE p k"
    using conjunct2 [OF g] by (cases r) (auto simp: pool_holds_def pool_live_def held_by_def sure_def)
  then show ?thesis using s(1) s(2) [OF room] by blast
qed

lemma pool_delete_store:
  assumes laws: "engine_laws EE" "disk_pool EE pol xxh3 PE" and cfg: "mirror_cfg (pe_cfg PE)"
    and room: "pool_room EE n p" and del: "pool_delete PE k p = (p', r)"
  shows "pool_room EE n p' \<and> store_removed (pool_holds EE) (pool_live EE) pool_fine k p p' \<and>
    (pool_fine p \<longrightarrow> (\<forall>b. \<not> pool_holds EE p' k b))"
proof -
  have ok: "pool_ok (engine_ok EE) 0 p"
    using room pool_laws.ok_weaken [OF disk_pool_laws [OF laws], of "length (po_shards p) * n" p 0] by (simp add: pool_room_def)
  have e: "p' = delete_everywhere PE k [0..<length (po_shards p)] p"
    using cfg del by (simp_all add: pool_delete_def Let_def mirror_cfg_def)
  obtain D where D: "pool_step (engine_ok EE) (view EE) engine_fine 0 (remove_at D k (views (view EE) p)) p p'"
      "\<forall>i \<in> set [0..<length (po_shards p)] - D. \<not> engine_fine (po_shards p ! i)"
    using pool_laws.delete_everywhere_step [OF disk_pool_laws [OF laws] ok, of "[0..<length (po_shards p)]" k] e by auto
  note v = pool_step_views [OF D(1)] and f = pool_step_frame [OF D(1)]
  have held: "(views (view EE) p' ! i) k' = (if i \<in> D \<and> k' = k then None else (views (view EE) p ! i) k')" if "i < length (po_shards p)" for i k'
    using that by (simp add: v)
  have fin: "engine_fine (po_shards p' ! i)" if "i < length (po_shards p)" "engine_fine (po_shards p ! i)" for i
    using that f by (simp add: frame_def)
  have "store_removed (pool_holds EE) (pool_live EE) pool_fine k p p'"
    using held fin by (auto simp: store_removed_def pool_holds_def pool_live_def pool_fine_def frame_length [OF f] split: if_splits)
  moreover have "\<not> pool_holds EE p' k b" if "pool_fine p" for b
    using that held D(2) by (auto simp: pool_holds_def pool_fine_def frame_length [OF f])
  moreover have "all_fit (views (view EE) p')" using room by (auto simp: pool_room_def all_fit_def v split: if_splits)
  then have "pool_room EE n p'" using room pool_step_ok0 [OF D(1)] by (simp add: pool_room_def frame_length [OF f])
  ultimately show ?thesis by blast
qed

lemma pool_listed_store:
  assumes laws: "engine_laws EE" "disk_pool EE pol xxh3 PE" and cfg: "mirror_cfg (pe_cfg PE)" "0 < pc_write_quorum (pe_cfg PE)"
  shows "listed_store (pool_store PE) (pool_room EE) (pool_holds EE) (pool_live EE) pool_fine"
proof (unfold_locales, goal_cases)
  case (1 n p m)
  have "length (po_shards p) * m \<le> length (po_shards p) * n" using 1(2) by simp
  then show ?case using 1(1) pool_laws.ok_weaken [OF disk_pool_laws [OF laws]] unfolding pool_room_def by blast
next
  case (2 n p k b)
  then show ?case by (auto simp: pool_room_def pool_holds_def all_fit_def)
next
  case (3 n p k b)
  obtain p' r where "pool_put PE k b p = (p', r)" by fastforce
  with pool_put_store [OF laws cfg 3 this] show ?case by (cases r) (auto simp: pool_store_def)
next
  case (4 n p k)
  obtain p' r where g: "pool_get PE k p = (p', r)" by fastforce
  from 4 have "pool_room EE n p"
    using pool_laws.ok_weaken [OF disk_pool_laws [OF laws], of "length (po_shards p) * Suc n" p "length (po_shards p) * n"] by (simp add: pool_room_def)
  from pool_get_store [OF laws cfg(1) this g] show ?case
    using g by (cases r) (auto simp: pool_store_def store_kept_def store_cached_def)
next
  case (5 n p k)
  obtain p' r where "pool_delete PE k p = (p', r)" by fastforce
  with pool_delete_store [OF laws cfg(1) 5 this] show ?case by (cases r) (auto simp: pool_store_def)
next
  case (6 p k b)
  then show ?case by (auto simp: pool_fine_def pool_holds_def pool_live_def)
next
  case (7 n p k)
  obtain p' r where "pool_get PE k p = (p', r)" by fastforce
  with pool_get_store [OF laws cfg(1) 7 this] show ?case by (cases r) (auto simp: pool_store_def)
next
  case (8 n p k b k' b')
  obtain p' r where "pool_put PE k b p = (p', r)" by fastforce
  with pool_put_store [OF laws cfg 8(1,2) this] 8(3,4) show ?case by (auto simp: pool_store_def)
next
  case (9 n p k)
  have ok: "pool_ok (engine_ok EE) 0 p"
    using 9 pool_laws.ok_weaken [OF disk_pool_laws [OF laws], of "length (po_shards p) * n" p 0] by (simp add: pool_room_def)
  show ?case unfolding pool_store_def block_store.simps
    by (rule post_mono [OF pool_laws.pool_has_spec [OF disk_pool_laws [OF laws] ok]])
      (use pool_step_kept 9 in \<open>auto simp: pool_holds_def pool_fine_def\<close>)
next
  case (10 n p after pre limit)
  have ok: "pool_ok (engine_ok EE) 0 p"
    using 10(1) pool_laws.ok_weaken [OF disk_pool_laws [OF laws], of "length (po_shards p) * n" p 0] by (simp add: pool_room_def)
  have keys: "(\<Union>i < length (po_shards p). listed (views (view EE) p ! i) pre after) = stored_keys (pool_holds EE) p pre after"
    by (auto simp: listed_def stored_keys_def pool_holds_def)
  show ?case unfolding pool_store_def block_store.simps
    by (rule post_mono [OF pool_laws.pool_list_spec [OF disk_pool_laws [OF laws] ok 10(2), unfolded keys]])
      (use pool_step_kept 10(1) in \<open>auto simp: pool_fine_def\<close>)
qed

interpretation ref_store: listed_store "pool_store ref_pool_env" "pool_room ref_env" "pool_holds ref_env" "pool_live ref_env" pool_fine
  by (rule pool_listed_store [OF ref_env.engine_laws_axioms ref_disk_pool ref_pool_fields(5)]) (simp add: ref_pool_fields)

lemma ref_pool_store: "pool_room ref_env 100 ref_pool" "pool_fine ref_pool" "\<not> pool_holds ref_env ref_pool k b"
  using ref_pool_ok [of 300] ref_pool_all_fine ref_pool_views
  by (simp_all add: pool_room_def pool_fine_def pool_holds_def ref_pool_fields all_fit_def)

end
