(* ===== verification/Evict_Inv.thy ===== *)
theory Evict_Inv
  imports Gc_Inv Shard
begin

text \<open>
  Eviction of the oldest sealed segment: with readable files and a readable index, exactly the keys whose rows point into the
  segment leave the map, whatever fails in the writes.
\<close>

text \<open>An engine whose index and segment files read without faults.\<close>

definition readable :: "('t, 'm) engine \<Rightarrow> bool" where
  "readable e \<longleftrightarrow> calm (en_index_faults e) \<and> calm (fs_read_faults (en_disk e))"

text \<open>\<open>same_store e e'\<close>: only the streams of read outcomes have moved on.\<close>

definition same_store :: "('t, 'm) engine \<Rightarrow> ('t, 'm) engine \<Rightarrow> bool" where
  "same_store e e' \<longleftrightarrow> (\<exists>fs gs. e' = e\<lparr>en_disk := (en_disk e)\<lparr>fs_read_faults := fs\<rparr>, en_index_faults := gs\<rparr>) \<and> (readable e \<longrightarrow> readable e')"

lemma same_storeD:
  assumes "same_store e e'"
  shows "en_index e' = en_index e" "en_cfg e' = en_cfg e" "file_at (en_disk e') = file_at (en_disk e)" "sw_seg_id (en_disk e') = sw_seg_id (en_disk e)"
    "readable e \<Longrightarrow> readable e'" "en_used_bytes e' = en_used_bytes e"
  using assms by (auto simp: same_store_def file_at_def)

lemma same_store_trans: "same_store a b \<Longrightarrow> same_store b c \<Longrightarrow> same_store a c"
  unfolding same_store_def by fastforce

lemma same_store_refl: "same_store e e"
proof -
  have "e = e\<lparr>en_disk := (en_disk e)\<lparr>fs_read_faults := fs_read_faults (en_disk e)\<rparr>, en_index_faults := en_index_faults e\<rparr>" by simp
  then show ?thesis unfolding same_store_def by blast
qed

lemma restrict_map_UNIV [simp]: "m |` UNIV = m"
  by (rule ext) (simp add: restrict_map_def)

definition seg_keys :: "('t, 'm) engine_env \<Rightarrow> ('t, 'm) engine \<Rightarrow> u32 \<Rightarrow> block_key set" where
  "seg_keys E e i = {k. \<exists>ae. row_entry E (en_index e) k = Some ae \<and> ra_seg_id (ae_addr ae) = i}"


lemma evict_read_calm:
  assumes "readable e"
  obtains e' where "evict_read (e, vs) = ((e', vs), Inr ())" "same_store e e'"
proof
  let ?e = "e\<lparr>en_disk := (en_disk e)\<lparr>fs_read_faults := tl (fs_read_faults (en_disk e))\<rparr>\<rparr>"
  show "evict_read (e, vs) = ((?e, vs), Inr ())"
    using assms by (simp add: evict_read_def on_disk_def read_try_def readable_def calm_next)
  have "?e = e\<lparr>en_disk := (en_disk e)\<lparr>fs_read_faults := tl (fs_read_faults (en_disk e))\<rparr>, en_index_faults := en_index_faults e\<rparr>" by simp
  moreover have "readable e \<longrightarrow> readable ?e" by (simp add: readable_def calm_next)
  ultimately show "same_store e ?e" unfolding same_store_def by blast
qed

definition victim :: "('t, 'm) engine_env \<Rightarrow> ('t, 'm) engine \<Rightarrow> recovered_record \<Rightarrow> bool" where
  "victim E e r = points_to (lookup_row E (en_index e) (rr_key r)) (rr_addr r)"

lemma victim_cong: "same_store e e' \<Longrightarrow> victim E e' = victim E e"
  by (simp add: victim_def fun_eq_iff same_storeD)

lemma evict_visit_calm:
  assumes "readable e"
  obtains e' where "evict_visit E r (e, vs) = ((e', if victim E e r then vs @ [rr_key r] else vs), Inr ())" "same_store e e'"
proof
  show "evict_visit E r (e, vs) = ((next_read e, if victim E e r then vs @ [rr_key r] else vs), Inr ())"
    using assms by (simp add: evict_visit_def readable_def lookup_calm victim_def)
  have "next_read e = e\<lparr>en_disk := (en_disk e)\<lparr>fs_read_faults := fs_read_faults (en_disk e)\<rparr>, en_index_faults := tl (en_index_faults e)\<rparr>" by simp
  moreover have "readable e \<longrightarrow> readable (next_read e)" by (simp add: readable_def calm_next)
  ultimately show "same_store e (next_read e)" unfolding same_store_def by blast
qed

lemma evict_fold_calm:
  assumes "readable e"
  shows "\<exists>e'. scan_fold evict_read (evict_visit E) rs (e, vs) = ((e', vs @ map rr_key (filter (victim E e) rs)), Inr ()) \<and> same_store e e'"
  using assms
proof (induction rs arbitrary: e vs)
  case Nil
  obtain e' where "evict_read (e, vs) = ((e', vs), Inr ())" "same_store e e'" by (rule evict_read_calm [OF Nil])
  then show ?case by simp
next
  case (Cons r rs)
  obtain e1 where e1: "evict_read (e, vs) = ((e1, vs), Inr ())" "same_store e e1" by (rule evict_read_calm [OF Cons.prems])
  obtain e2 where e2: "evict_read (e1, vs) = ((e2, vs), Inr ())" "same_store e1 e2"
    using evict_read_calm same_storeD(5) [OF e1(2) Cons.prems] by blast
  note s2 = same_store_trans [OF e1(2) e2(2)]
  let ?vs = "if victim E e2 r then vs @ [rr_key r] else vs"
  obtain e3 where e3: "evict_visit E r (e2, vs) = ((e3, ?vs), Inr ())" "same_store e2 e3"
    using evict_visit_calm same_storeD(5) [OF s2 Cons.prems] by blast
  note s3 = same_store_trans [OF s2 e3(2)]
  obtain e' where "scan_fold evict_read (evict_visit E) rs (e3, ?vs) = ((e', ?vs @ map rr_key (filter (victim E e3) rs)), Inr ())" "same_store e3 e'"
    using Cons.IH [OF same_storeD(5) [OF s3 Cons.prems]] by blast
  then show ?case
    using e1(1) e2(1) e3(1) same_store_trans [OF s3] by (simp add: victim_cong [OF s2] victim_cong [OF s3])
qed

context engine_laws
begin

lemma victims_are_seg_keys:
  assumes inv: "engine_inv E e" and f: "file_at (en_disk e) Primary i = Some c"
  shows "rr_key ` {r \<in> set (fst (scan_records (ee_crc E) i 0 c)). victim E e r} = seg_keys E e i"
proof (intro equalityI subsetI)
  note v = engine_invD [OF inv]
  have c64: "length c < 2 ^ 64" using disk_wfD(8) [OF v(1) f] SEG_LIMIT_less by (auto simp: file_wf_def)
  fix k assume "k \<in> rr_key ` {r \<in> set (fst (scan_records (ee_crc E) i 0 c)). victim E e r}"
  then obtain r where r: "r \<in> set (fst (scan_records (ee_crc E) i 0 c))" "victim E e r" "k = rr_key r" by blast
  from lookup_row_spec [OF inv, of k] obtain l where l: "lookup_row E (en_index e) k = Inr l" "lookup_is E e k l" by blast
  then obtain ae where ae: "l = LAddr ae" "ra_seg_id (ae_addr ae) = ra_seg_id (rr_addr r)"
    using r(2,3) by (cases l) (auto simp: victim_def points_to_def)
  then show "k \<in> seg_keys E e i" using l(2) scan_read(2) [OF r(1) c64] by (auto simp: lookup_is_def seg_keys_def)
next
  fix k assume "k \<in> seg_keys E e i"
  then obtain ae where ae: "row_entry E (en_index e) k = Some ae" "ra_seg_id (ae_addr ae) = i" by (auto simp: seg_keys_def)
  then obtain row where row: "addr_rows E (en_index e) k = Some row" "decode_addr row = Some ae"
    by (cases "addr_rows E (en_index e) k") auto
  from rows_ok_entry [OF engine_invD(3) [OF inv] engine_invD(1) [OF inv] row(1)] row(2) obtain b where
    b: "entry_is E (en_disk e) k ae b" "inline_rows E (en_index e) k = None" by auto
  then obtain r where r: "holds_rec (ee_crc E) (en_disk e) r" "rr_key r = k" "rr_addr r = ae_addr ae" by (auto simp: entry_is_def)
  have "lookup_row E (en_index e) k = Inr (LAddr ae)" using b(2) row by (simp add: lookup_row_def)
  then have "victim E e r" by (simp add: victim_def points_to_def r)
  then show "k \<in> rr_key ` {r \<in> set (fst (scan_records (ee_crc E) i 0 c)). victim E e r}"
    using r f ae(2) by (auto simp: holds_rec_def)
qed

lemma fold_remove_rows: "kv_get (ee_kv E) (fold (\<lambda>k t. kv_remove (ee_kv E) t k) ks t) = kv_get (ee_kv E) t |` (- set ks)"
proof (induction ks arbitrary: t)
  case (Cons k ks)
  have "fold (\<lambda>k t. kv_remove (ee_kv E) t k) (k # ks) t = fold (\<lambda>k t. kv_remove (ee_kv E) t k) ks (kv_remove (ee_kv E) t k)" by simp
  then show ?case by (simp only: Cons.IH) (auto simp: get_remove_fun restrict_map_def fun_eq_iff)
qed (simp add: restrict_map_def)

lemma view_of_restrict:
  assumes "rows_ok E d A I" and "S \<subseteq> dom A"
  shows "rows_ok E d (A |` (- S)) I" and "view_of E d (A |` (- S)) I = view_of E d A I |` (- S)"
proof -
  show "rows_ok E d (A |` (- S)) I" using assms(1) by (auto simp: rows_ok_def restrict_map_def)
  have "I k = None" if "k \<in> S" for k using assms that by (fastforce simp: rows_ok_def)
  then show "view_of E d (A |` (- S)) I = view_of E d A I |` (- S)"
    by (auto simp: fun_eq_iff view_of_def restrict_map_def split: option.split)
qed

text \<open>The transaction that drops the rows of a segment.\<close>

lemma evict_txn_step:
  assumes inv: "engine_inv E e" and vs: "set vs = seg_keys E e i"
  shows "post (db_write e (\<lambda>ix. (evict_txn E i vs ix, ())))
    (\<lambda>e' u. engine_step E 0 (view E e |` (- set vs)) e e' \<and> unreferenced E (en_index e') i \<and> sw_seg_id (en_disk e') = sw_seg_id (en_disk e))
    (\<lambda>e' er. engine_step E 0 (view E e) e e' \<and> sw_seg_id (en_disk e') = sw_seg_id (en_disk e))"
proof -
  note v = engine_invD [OF inv]
  let ?A = "addr_rows E (en_index e)" and ?I = "inline_rows E (en_index e)"
  have rows: "addr_rows E (evict_txn E i vs ix) = addr_rows E ix |` (- set vs)" "inline_rows E (evict_txn E i vs ix) = inline_rows E ix" for ix
    by (simp_all add: evict_txn_def fold_remove_rows)
  have "set vs \<subseteq> dom ?A"
  proof
    fix k assume "k \<in> set vs"
    then show "k \<in> dom ?A" unfolding vs seg_keys_def by (cases "?A k") auto
  qed
  note r = view_of_restrict [OF v(3) this]
  have old: "old_addrs E j (en_index e) (evict_txn E i vs (en_index e))" for j
    by (auto simp: old_addrs_def rows restrict_map_def split: if_splits)
  have un: "unreferenced E (evict_txn E i vs (en_index e)) i"
  proof -
    have "ra_seg_id (ae_addr ae) \<noteq> i" if "row_entry E (evict_txn E i vs (en_index e)) k = Some ae" for k ae
    proof -
      have "k \<notin> set vs" "row_entry E (en_index e) k = Some ae"
        using that by (cases "k \<in> set vs"; simp add: rows)+
      then show ?thesis unfolding vs by (auto simp: seg_keys_def)
    qed
    then show ?thesis unfolding unreferenced_def by blast
  qed
  show ?thesis
    using db_write_post [of e "\<lambda>ix. (evict_txn E i vs ix, ())"]
  proof (rule post_mono)
    fix e' a
    assume "\<exists>d'. quiet_step (en_disk e) d' \<and> e' = e\<lparr>en_disk := d', en_index := fst (evict_txn E i vs (en_index e), ())\<rparr> \<and> a = snd (evict_txn E i vs (en_index e), ())"
    then obtain d' where d': "quiet_step (en_disk e) d'" "e' = e\<lparr>en_disk := d', en_index := evict_txn E i vs (en_index e)\<rparr>" by auto
    have "engine_step E 0 (view E e |` (- set vs)) e e'"
      unfolding d'(2) by (rule engine_step_index [OF inv d'(1)]) (use r old in \<open>simp_all add: rows view_def\<close>)
    then show "engine_step E 0 (view E e |` (- set vs)) e e' \<and> unreferenced E (en_index e') i \<and> sw_seg_id (en_disk e') = sw_seg_id (en_disk e)"
      using un quiet_sel(4) [OF d'(1)] by (simp add: d'(2))
  next
    fix e' er
    assume "(\<exists>d'. quiet_step (en_disk e) d' \<and> e' = e\<lparr>en_disk := d'\<rparr>) \<and> \<not> calm (fs_faults (en_disk e))"
    then obtain d' where d': "quiet_step (en_disk e) d'" "e' = e\<lparr>en_disk := d'\<rparr>" by blast
    then show "engine_step E 0 (view E e) e e' \<and> sw_seg_id (en_disk e') = sw_seg_id (en_disk e)"
      using engine_step_quiet [OF inv _ v(1), of e' 0] quiet_sel(4) [OF d'(1)] by simp
  qed
qed


lemma evict_scan_spec:
  assumes inv: "engine_inv E e" and r: "readable e"
  shows "post (evict_scan E Primary i e) (\<lambda>e' vs. same_store e e' \<and> set vs = seg_keys E e' i) (\<lambda>e' er. same_store e e')"
proof -
  let ?e1 = "e\<lparr>en_disk := (en_disk e)\<lparr>fs_read_faults := tl (fs_read_faults (en_disk e))\<rparr>\<rparr>"
  have rd: "on_disk read_try e = (?e1, Inr ())" using r by (simp add: on_disk_def read_try_def readable_def calm_next)
  obtain e1 where e1: "evict_read (e, []) = ((e1, []), Inr ())" "same_store e e1" by (rule evict_read_calm [OF r])
  then have s1: "same_store e ?e1" by (simp add: evict_read_def rd)
  show ?thesis
  proof (cases "file_at (en_disk ?e1) Primary i")
    case None
    then show ?thesis using s1 by (simp add: evict_scan_def rd)
  next
    case (Some c)
    let ?rs = "fst (scan_records (ee_crc E) i 0 c)"
    obtain e2 where f: "scan_fold evict_read (evict_visit E) ?rs (?e1, []) = ((e2, [] @ map rr_key (filter (victim E ?e1) ?rs)), Inr ())" "same_store ?e1 e2"
      using evict_fold_calm [OF same_storeD(5) [OF s1 r]] by blast
    note s2 = same_store_trans [OF s1 f(2)]
    have fe: "file_at (en_disk e) Primary i = Some c" using Some same_storeD(3) [OF s1] by simp
    have "set (map rr_key (filter (victim E ?e1) ?rs)) = seg_keys E e2 i"
      using victims_are_seg_keys [OF inv fe] by (auto simp: victim_cong [OF s1] seg_keys_def same_storeD(1) [OF s2])
    then show ?thesis using s2 f(1) by (simp add: evict_scan_def rd fe)
  qed
qed

end

lemma min_segment_least: "min_segment ss = Some (i, n) \<Longrightarrow> (i, n) \<in> set ss \<and> (\<forall>(j, m) \<in> set ss. i \<le> j)"
proof (induction ss arbitrary: i n rule: min_segment.induct)
  case (2 i0 n0 ss)
  show ?case
  proof (cases "min_segment ss")
    case None
    then have "ss = []" by (cases ss rule: min_segment.cases) (auto split: option.splits prod.splits if_splits)
    then show ?thesis using 2(2) by simp
  next
    case (Some p)
    obtain j m where p: "p = (j, m)" by fastforce
    from 2(1) [OF Some [unfolded p]] have ih: "(j, m) \<in> set ss" "\<forall>(j', m') \<in> set ss. j \<le> j'" by auto
    show ?thesis using 2(2) ih Some by (auto simp: p split: if_splits)
  qed
qed simp

text \<open>The engine after an eviction, complete or broken off: consistent, readable, no segment opened, and of the map nothing new.\<close>

definition evict_step :: "('t, 'm) engine_env \<Rightarrow> block_key set \<Rightarrow> ('t, 'm) engine \<Rightarrow> ('t, 'm) engine \<Rightarrow> bool" where
  "evict_step E S e e' \<longleftrightarrow> engine_inv E e' \<and> readable e' \<and> sw_seg_id (en_disk e') = sw_seg_id (en_disk e) \<and> view E e' = view E e |` (- S) \<and>
     (calm (fs_faults (en_disk e)) \<longrightarrow> calm (fs_faults (en_disk e')))"

lemma evict_step_refl: "engine_inv E e \<Longrightarrow> readable e \<Longrightarrow> evict_step E {} e e"
  by (simp add: evict_step_def)

lemma evict_step_store:
  assumes "evict_step E S e e1" and "same_store e1 e2"
  shows "evict_step E S e e2"
proof -
  from assms(1) have i: "engine_inv E e1" and r: "readable e1" by (simp_all add: evict_step_def)
  obtain fs gs where e2: "e2 = e1\<lparr>en_disk := (en_disk e1)\<lparr>fs_read_faults := fs\<rparr>, en_index_faults := gs\<rparr>"
    using assms(2) by (auto simp: same_store_def)
  have r2: "readable e2" using same_storeD(5) [OF assms(2) r] .
  have "read_only (en_disk e1) ((en_disk e1)\<lparr>fs_read_faults := fs\<rparr>)"
    using r2 by (intro read_onlyI) (simp add: readable_def e2)
  from engine_stepD(1,2) [OF engine_step_read_only [OF i this, of 0]]
  have "engine_inv E e2 \<and> view E e2 = view E e1" by (simp add: e2 engine_inv_def view_def)
  then show ?thesis using assms(1) r2 by (simp add: evict_step_def same_storeD [OF assms(2)]) (simp add: e2)
qed

context engine_laws
begin

lemma unlink_evicted:
  assumes st: "evict_step E S e e1" and un: "unreferenced E (en_index e1) i" and i: "i \<noteq> sw_seg_id (en_disk e)"
  shows "post (on_disk (remove_file Primary i) e1) (\<lambda>e' u. evict_step E S e e' \<and> file_at (en_disk e') Primary i = None)
    (\<lambda>e' er. evict_step E S e e')"
proof -
  obtain d' r where m: "remove_file Primary i (en_disk e1) = (d', r)" by fastforce
  have s: "engine_inv E e1" "readable e1" "sw_seg_id (en_disk e1) = sw_seg_id (en_disk e)" "view E e1 = view E e |` (- S)"
    using st by (simp_all add: evict_step_def)
  note u = unlink_step [OF s(1) _ un, of d'] and g = remove_file_spec [of "en_disk e1" i]
  obtain d1 where d1: "quiet_step (en_disk e1) d1" "d' = d1 \<or> d' = d1\<lparr>fs_files := AList.delete (Primary, i) (fs_files d1)\<rparr>"
    using g m by auto
  have "calm (fs_faults (en_disk e1)) \<longrightarrow> calm (fs_faults d')" using d1(2) quiet_sel(14) [OF d1(1)] by auto
  then have "evict_step E S e (e1\<lparr>en_disk := d'\<rparr>)"
    using u(1-4) s(2-4) i m st by (simp add: evict_step_def readable_def)
  then show ?thesis using g m by (cases r) (simp_all add: on_disk_def)
qed

lemma evict_spec:
  assumes inv: "engine_inv E e" and rd: "readable e"
  shows "post (engine_evict_oldest_segment E e)
    (\<lambda>e' (freed, n). (freed, n) = (0, 0) \<and> evict_step E {} e e' \<or>
       (\<exists>i. i \<noteq> sw_seg_id (en_disk e) \<and> evict_step E (seg_keys E e i) e e' \<and> file_at (en_disk e') Primary i = None))
    (\<lambda>e' er. \<exists>S. evict_step E S e e')" (is "post _ ?Q ?R")
proof -
  obtain d1 where sg: "fst (sealed_segments e) = e\<lparr>en_disk := d1\<rparr>" "quiet_step (en_disk e) d1"
    "\<forall>(i, n) \<in> set (snd (sealed_segments e)). i \<noteq> sw_seg_id (en_disk e)"
    using sealed_segments_spec [OF engine_invD(2) [OF inv]] by blast
  let ?e1 = "e\<lparr>en_disk := d1\<rparr>"
  obtain sealed where sl: "sealed_segments e = (?e1, sealed)" using sg(1) by (cases "sealed_segments e") simp
  have "tidy E e ?e1" by (rule tidy_quiet [OF inv]) (use sg(2) in simp_all)
  then have s1: "evict_step E {} e ?e1" and inv1: "engine_inv E ?e1" and rd1: "readable ?e1"
    using rd quiet_sel [OF sg(2)] by (simp_all add: evict_step_def tidy_def readable_def)
  show ?thesis
  proof (cases "min_segment sealed")
    case None
    then show ?thesis using s1 by (simp add: engine_evict_oldest_segment_def sl Let_def)
  next
    case (Some p)
    obtain i vsize where p: "p = (i, vsize)" by fastforce
    have i: "i \<noteq> sw_seg_id (en_disk e)" using min_segment_least [OF Some [unfolded p]] sg(3) sl by auto
    have dir: "seg_dir_of (en_disk ?e1) (ec_failover (en_cfg ?e1)) i = Primary"
      using engine_invD(2) [OF inv] by (simp add: seg_dir_of_def)
    let ?fin = "\<lambda>vs (u :: unit) e. (e\<lparr>en_used_bytes := en_used_bytes e - min vsize (en_used_bytes e)\<rparr>, Inr (vsize, length vs))"
    let ?rm = "\<lambda>vs (u :: unit) e. and_then (map_err io_err (on_disk (remove_file Primary i) e)) (?fin vs)"
    let ?txn = "\<lambda>vs e. and_then (db_write e (\<lambda>ix. (evict_txn E i vs ix, ()))) (?rm vs)"
    have rm: "post (?rm vs u e2) ?Q ?R" if st: "evict_step E (seg_keys E e i) e e2" and un: "unreferenced E (en_index e2) i" for vs :: "block_key list" and u e2
    proof (rule post_and_then [OF post_map_err])
      show "post (on_disk (remove_file Primary i) e2) (\<lambda>e' u. evict_step E (seg_keys E e i) e e' \<and> file_at (en_disk e') Primary i = None) (\<lambda>e' er. \<exists>S. evict_step E S e e')"
        by (rule post_mono [OF unlink_evicted [OF st un i]]) auto
      fix e3 u assume "evict_step E (seg_keys E e i) e e3 \<and> file_at (en_disk e3) Primary i = None"
      then show "post (?fin vs u e3) ?Q ?R" using i
        by (intro post_simps(2) [THEN iffD2], unfold prod.case, intro disjI2 exI [of _ i])
          (simp add: evict_step_def engine_inv_def readable_def view_def)
    qed
    have txn: "post (?txn vs e2) ?Q ?R" if st: "evict_step E {} e e2" and vs: "set vs = seg_keys E e2 i" and k: "seg_keys E e2 i = seg_keys E e i" for vs e2
    proof -
      have inv2: "engine_inv E e2" and v2: "view E e2 = view E e" "readable e2" "sw_seg_id (en_disk e2) = sw_seg_id (en_disk e)"
        "calm (fs_faults (en_disk e)) \<longrightarrow> calm (fs_faults (en_disk e2))"
        using st by (simp_all add: evict_step_def restrict_map_def)
      show ?thesis
      proof (rule post_and_then [OF post_mono [OF evict_txn_step [OF inv2 vs]]])
        fix e3 assume a: "engine_step E 0 (view E e2) e2 e3 \<and> sw_seg_id (en_disk e3) = sw_seg_id (en_disk e2)"
        note d = engine_stepD [OF conjunct1 [OF a]]
        show "\<exists>S. evict_step E S e e3" using a d(1,2,4,5,6) v2 by (intro exI [of _ "{}"]) (simp add: evict_step_def readable_def)
      next
        fix e3 u
        assume a: "engine_step E 0 (view E e2 |` (- set vs)) e2 e3 \<and> unreferenced E (en_index e3) i \<and> sw_seg_id (en_disk e3) = sw_seg_id (en_disk e2)"
        note d = engine_stepD [OF conjunct1 [OF a]]
        have "evict_step E (seg_keys E e i) e e3" using a d(1,2,4,5,6) v2 vs k by (simp add: evict_step_def readable_def)
        then show "post (?rm vs u e3) ?Q ?R" by (rule rm) (use a in simp)
      qed assumption
    qed
    have "post (and_then (map_err io_err (evict_scan E Primary i ?e1)) ?txn) ?Q ?R"
    proof (rule post_and_then [OF post_map_err [OF post_mono [OF evict_scan_spec [OF inv1 rd1]]]])
      fix e2 vs assume a: "same_store ?e1 e2 \<and> set vs = seg_keys E e2 i"
      have "seg_keys E e2 i = seg_keys E e i" using same_storeD(1) [OF conjunct1 [OF a]] by (simp add: seg_keys_def)
      then show "post (?txn vs e2) ?Q ?R" by (rule txn [OF evict_step_store [OF s1 conjunct1 [OF a]] conjunct2 [OF a]])
    qed (use evict_step_store [OF s1] in auto)
    then show ?thesis unfolding engine_evict_oldest_segment_def sl Let_def prod.case Some p option.case dir .
  qed
qed

end

end
