(* ===== verification/Cache.thy ===== *)
theory Cache
  imports Store Evict_Inv
begin

text \<open>
  The cache tier (\<open>ozd-app/src/cache.rs\<close>): a block store that reads through a bounded shard engine (the NVMe leg) in front of a
  durable block store. This theory has its state and the work of one thread; \<open>Cache_Flight\<close> has many threads and the
  coalescing of concurrent reads. The byte counter is an \<open>AtomicU64\<close>: an addition wraps.
\<close>

section \<open>State\<close>

record cache_config =
  cc_max_bytes :: nat
  cc_min_size :: nat

definition cache_config_default :: cache_config where
  "cache_config_default = \<lparr>cc_max_bytes = 0, cc_min_size = 4096\<rparr>"

record ('i, 'c) cache_env =
  ce_inner :: "'i block_store"
  ce_ops :: "'c shard_ops"
  ce_cfg :: cache_config

record ('i, 'c) cache_tier =
  ct_inner :: 'i
  ct_cache :: 'c
  ct_bytes :: nat
  ct_metrics :: ops_metrics

definition ct_tally :: "counter \<Rightarrow> nat \<Rightarrow> ('i, 'c) cache_tier \<Rightarrow> ('i, 'c) cache_tier" where
  "ct_tally c n t = t\<lparr>ct_metrics := fetch_add c n (ct_metrics t)\<rparr>"

text \<open>A call on either leg.\<close>

definition on_inner :: "('i \<Rightarrow> 'i \<times> 'r) \<Rightarrow> ('i, 'c) cache_tier \<Rightarrow> ('i, 'c) cache_tier \<times> 'r" where
  "on_inner f t = (case f (ct_inner t) of (i, r) \<Rightarrow> (t\<lparr>ct_inner := i\<rparr>, r))"

definition on_cache :: "('c \<Rightarrow> 'c \<times> 'r) \<Rightarrow> ('i, 'c) cache_tier \<Rightarrow> ('i, 'c) cache_tier \<times> 'r" where
  "on_cache f t = (case f (ct_cache t) of (c, r) \<Rightarrow> (t\<lparr>ct_cache := c\<rparr>, r))"

definition cache_new :: "('i, 'c) cache_env \<Rightarrow> 'i \<Rightarrow> 'c \<Rightarrow> ops_metrics \<Rightarrow> ('i, 'c) cache_tier" where
  "cache_new E i c m =
     (case so_data_bytes (ce_ops E) c of
        (c, Inr n) \<Rightarrow> \<lparr>ct_inner = i, ct_cache = c, ct_bytes = n, ct_metrics = m\<rparr>
      | (c, Inl _) \<Rightarrow> \<lparr>ct_inner = i, ct_cache = c, ct_bytes = 0, ct_metrics = m\<rparr>)"

definition cached_bytes :: "('i, 'c) cache_tier \<Rightarrow> nat" where
  "cached_bytes t = ct_bytes t"

section \<open>Eviction\<close>

definition low_water :: "cache_config \<Rightarrow> nat" where
  "low_water cfg = cc_max_bytes cfg - cc_max_bytes cfg div 10"

text \<open>
  The loop ends because an eviction that frees something lowers a counter above the budget, and one that frees nothing ends it.
\<close>

function evict_loop :: "('i, 'c) cache_env \<Rightarrow> ('i, 'c) cache_tier \<Rightarrow> ('i, 'c) cache_tier" where
  "evict_loop E t =
     (if ct_bytes t \<le> cc_max_bytes (ce_cfg E) then t
      else (case on_cache (so_evict_oldest_segment (ce_ops E)) t of
          (t, Inl e) \<Rightarrow> t
        | (t, Inr (freed, keys)) \<Rightarrow>
            if freed = 0 then t
            else
              let t = ct_tally CacheEvictedBytes freed (ct_tally CacheEvictedSegments 1 (t\<lparr>ct_bytes := ct_bytes t - freed\<rparr>)) in
              if ct_bytes t \<le> low_water (ce_cfg E) then t else evict_loop E t))"
  by pat_completeness auto

termination
  by (relation "measure (\<lambda>(E, t). ct_bytes t)") (auto simp: on_cache_def ct_tally_def split: prod.splits)

declare evict_loop.simps [simp del]

definition maybe_evict :: "('i, 'c) cache_env \<Rightarrow> ('i, 'c) cache_tier \<Rightarrow> ('i, 'c) cache_tier" where
  "maybe_evict E t = (if cc_max_bytes (ce_cfg E) = 0 then t else evict_loop E t)"

section \<open>Reading and writing through\<close>

definition populate :: "('i, 'c) cache_env \<Rightarrow> block_key \<Rightarrow> bytes \<Rightarrow> ('i, 'c) cache_tier \<Rightarrow> ('i, 'c) cache_tier" where
  "populate E k b t =
     (if length b < cc_min_size (ce_cfg E) then t
      else (case on_cache (\<lambda>c. so_put (ce_ops E) c k b) t of
          (t, Inr _) \<Rightarrow>
            maybe_evict E (ct_tally CachePopulatedBytes (length b) (t\<lparr>ct_bytes := (ct_bytes t + length b) mod 2 ^ 64\<rparr>))
        | (t, Inl _) \<Rightarrow> t))"

definition read_through :: "('i, 'c) cache_env \<Rightarrow> block_key \<Rightarrow> ('i, 'c) cache_tier \<Rightarrow> (('i, 'c) cache_tier, bytes) op" where
  "read_through E k t =
     (case on_cache (\<lambda>c. so_get (ce_ops E) c k) t of
        (t, Inr v) \<Rightarrow> (ct_tally CacheHits 1 t, Inr v)
      | (t, Inl e) \<Rightarrow>
          let t = (if e = NotFound then t
                   else ct_tally CacheSelfHeals 1 (fst (on_cache (\<lambda>c. so_delete (ce_ops E) c k) t)));
              t = ct_tally CacheMisses 1 t in
          and_then (on_inner (\<lambda>i. bs_get (ce_inner E) i k) t) (\<lambda>v t. (populate E k v t, Inr v)))"

text \<open>A get with no other read of its key in progress.\<close>

definition tier_get :: "('i, 'c) cache_env \<Rightarrow> ('i, 'c) cache_tier \<Rightarrow> block_key \<Rightarrow> (('i, 'c) cache_tier, bytes) op" where
  "tier_get E t k = read_through E k t"

definition tier_put :: "('i, 'c) cache_env \<Rightarrow> ('i, 'c) cache_tier \<Rightarrow> block_key \<Rightarrow> bytes \<Rightarrow> (('i, 'c) cache_tier, unit) op" where
  "tier_put E t k b =
     and_then (on_inner (\<lambda>i. bs_put (ce_inner E) i k b) t) (\<lambda>_ t. (populate E k b t, Inr ()))"

definition tier_stat :: "('i, 'c) cache_env \<Rightarrow> ('i, 'c) cache_tier \<Rightarrow> block_key \<Rightarrow> (('i, 'c) cache_tier, nat) op" where
  "tier_stat E t k = on_inner (\<lambda>i. bs_stat (ce_inner E) i k) t"

definition tier_has :: "('i, 'c) cache_env \<Rightarrow> ('i, 'c) cache_tier \<Rightarrow> block_key \<Rightarrow> (('i, 'c) cache_tier, bool) op" where
  "tier_has E t k = on_inner (\<lambda>i. bs_has (ce_inner E) i k) t"

definition tier_delete :: "('i, 'c) cache_env \<Rightarrow> ('i, 'c) cache_tier \<Rightarrow> block_key \<Rightarrow> (('i, 'c) cache_tier, unit) op" where
  "tier_delete E t k =
     and_then (on_inner (\<lambda>i. bs_delete (ce_inner E) i k) t) (\<lambda>_ t.
       (fst (on_cache (\<lambda>c. so_delete (ce_ops E) c k) t), Inr ()))"

definition tier_list ::
  "('i, 'c) cache_env \<Rightarrow> ('i, 'c) cache_tier \<Rightarrow> bytes \<Rightarrow> block_key option \<Rightarrow> nat \<Rightarrow> (('i, 'c) cache_tier, (block_key \<times> nat) list) op" where
  "tier_list E t pre after limit = on_inner (\<lambda>i. bs_list (ce_inner E) i pre after limit) t"

definition tier_store :: "('i, 'c) cache_env \<Rightarrow> ('i, 'c) cache_tier block_store" where
  "tier_store E = \<lparr>bs_put = tier_put E, bs_get = tier_get E, bs_stat = tier_stat E, bs_has = tier_has E, bs_delete = tier_delete E, bs_list = tier_list E\<rparr>"

section \<open>What the tier relies on, and what it provides\<close>

text \<open>The cache leg: a shard engine whose eviction removes keys and does nothing else; \<open>evicts\<close> says whether the tier evicts at all.\<close>

locale cache_leg =
  fixes C :: "'c shard_ops" and leg_ok :: "nat \<Rightarrow> 'c \<Rightarrow> bool" and V :: "'c \<Rightarrow> block_key \<rightharpoonup> bytes" and leg_fine :: "'c \<Rightarrow> bool" and evicts :: bool
  assumes leg_mono: "leg_ok n c \<Longrightarrow> m \<le> n \<Longrightarrow> leg_ok m c"
    and leg_put: "leg_ok (Suc n) c \<Longrightarrow> fits k b \<Longrightarrow> post (so_put C c k b)
      (\<lambda>c' u. leg_ok n c' \<and> V c' = (V c)(k \<mapsto> b) \<and> (leg_fine c \<longrightarrow> leg_fine c')) (\<lambda>c' e. leg_ok n c' \<and> V c' = V c \<and> (leg_fine c \<longrightarrow> leg_fine c'))"
    and leg_get: "leg_ok n c \<Longrightarrow> post (so_get C c k)
      (\<lambda>c' b. leg_ok n c' \<and> V c' = V c \<and> (leg_fine c \<longrightarrow> leg_fine c') \<and> V c k = Some b)
      (\<lambda>c' e. leg_ok n c' \<and> V c' = V c \<and> (leg_fine c \<longrightarrow> leg_fine c') \<and> (e = NotFound \<longrightarrow> V c k = None))"
    and leg_delete: "leg_ok n c \<Longrightarrow> post (so_delete C c k)
      (\<lambda>c' u. leg_ok n c' \<and> V c' = (V c)(k := None) \<and> (leg_fine c \<longrightarrow> leg_fine c'))
      (\<lambda>c' e. leg_ok n c' \<and> V c' = V c \<and> \<not> leg_fine c)"
    and leg_evict: "leg_ok n c \<Longrightarrow> evicts \<Longrightarrow> post (so_evict_oldest_segment C c)
      (\<lambda>c' r. leg_ok n c' \<and> (\<exists>S. V c' = V c |` S) \<and> (leg_fine c \<longrightarrow> leg_fine c'))
      (\<lambda>c' e. leg_ok n c' \<and> (\<exists>S. V c' = V c |` S) \<and> (leg_fine c \<longrightarrow> leg_fine c'))"
    and leg_data: "leg_ok n c \<Longrightarrow> post (so_data_bytes C c)
      (\<lambda>c' m. leg_ok n c' \<and> V c' = V c \<and> (leg_fine c \<longrightarrow> leg_fine c')) (\<lambda>c' e. leg_ok n c' \<and> V c' = V c \<and> (leg_fine c \<longrightarrow> leg_fine c'))"

text \<open>A disk engine provides it: with any faults when the tier never evicts, and with index and files that read without faults when it does.\<close>

definition disk_leg_ok :: "bool \<Rightarrow> ('t, 'm) engine_env \<Rightarrow> nat \<Rightarrow> ('t, 'm) engine \<Rightarrow> bool" where
  "disk_leg_ok evicts E n e \<longleftrightarrow> engine_ok E n e \<and> (evicts \<longrightarrow> readable e)"

lemma disk_leg_step:
  assumes "engine_step E (2 * m) W e e'"
  shows "(disk_leg_ok ev E (m + n) e \<longrightarrow> disk_leg_ok ev E n e') \<and> view E e' = W \<and> (engine_fine e \<longrightarrow> engine_fine e')"
  using engine_shard_step [OF assms] engine_stepD [OF assms] by (auto simp: disk_leg_ok_def shard_step_def readable_def)

lemma disk_leg_evict: "evict_step E S e e' \<Longrightarrow> disk_leg_ok ev E n e \<Longrightarrow> disk_leg_ok ev E n e' \<and> view E e' = view E e |` (- S) \<and> (engine_fine e \<longrightarrow> engine_fine e')"
  by (auto simp: evict_step_def disk_leg_ok_def engine_ok_def room_def engine_fine_def readable_def)

context engine_laws
begin

lemma disk_leg: "cache_leg (disk_ops E) (disk_leg_ok ev E) (view E) engine_fine ev"
proof (unfold_locales, goal_cases)
  case (1 n e m)
  then show ?case by (auto simp: disk_leg_ok_def engine_ok_def room_def)
next
  case (2 n e k b)
  then have "engine_inv E e" "room e 2" by (simp_all add: disk_leg_ok_def engine_ok_def room_def)
  from put_impl_spec [OF this, of k b None] 2 show ?case
    using disk_leg_step [where m = 1 and E = E and e = e] by (simp add: disk_ops_def engine_put_def fits_def, elim post_mono) auto
next
  case (3 n e k)
  then have "engine_inv E e" by (simp add: disk_leg_ok_def engine_ok_def)
  from get_spec [OF this, of k] 3 show ?case
    using disk_leg_step [where m = 0 and E = E and e = e] by (simp add: disk_ops_def, elim post_mono) (auto split: if_splits)
next
  case (4 n e k)
  then have "engine_inv E e" by (simp add: disk_leg_ok_def engine_ok_def)
  from delete_spec [OF this, of k 0] 4 show ?case
    using disk_leg_step [where m = 0 and E = E and e = e] by (simp add: disk_ops_def, elim post_mono) (auto simp: engine_fine_def)
next
  case (5 n e)
  then have "engine_inv E e" "readable e" by (simp_all add: disk_leg_ok_def engine_ok_def)
  from evict_spec [OF this] 5 show ?case
    using disk_leg_evict [of E _ e] by (simp add: disk_ops_def, elim post_mono) blast+
next
  case (6 n e)
  then have inv: "engine_inv E e" by (simp add: disk_leg_ok_def engine_ok_def)
  obtain d1 where d1: "fst (sealed_segments e) = e\<lparr>en_disk := d1\<rparr>" "quiet_step (en_disk e) d1"
    using sealed_segments_spec [OF engine_invD(2) [OF inv]] by blast
  have "engine_step E (2 * 0) (view E e) e (e\<lparr>en_disk := d1\<rparr>)"
    by (rule engine_step_quiet [OF inv _ engine_invD(1) [OF inv]]) (use d1(2) in simp_all)
  from disk_leg_step [OF this, where n = n] 6 d1(1) show ?case
    by (cases "sealed_segments e") (simp add: disk_ops_def engine_data_bytes_def Let_def)
qed

end

sublocale engine_laws \<subseteq> leg: cache_leg "disk_ops E" "disk_leg_ok True E" "view E" engine_fine True
  by (rule disk_leg)

section \<open>The tier is a block store\<close>

text \<open>
  A thread that has the tier for itself: whatever the durable store promises, the tier promises as well, with a body held by either leg.
\<close>

definition tier_ok :: "(nat \<Rightarrow> 'i \<Rightarrow> bool) \<Rightarrow> (nat \<Rightarrow> 'c \<Rightarrow> bool) \<Rightarrow> ('c \<Rightarrow> block_key \<rightharpoonup> bytes) \<Rightarrow> nat \<Rightarrow> ('i, 'c) cache_tier \<Rightarrow> bool" where
  "tier_ok ok leg_ok V n t \<longleftrightarrow> ok n (ct_inner t) \<and> leg_ok n (ct_cache t) \<and> (\<forall>k b. V (ct_cache t) k = Some b \<longrightarrow> fits k b)"

definition tier_holds :: "('i \<Rightarrow> block_key \<Rightarrow> bytes \<Rightarrow> bool) \<Rightarrow> ('c \<Rightarrow> block_key \<rightharpoonup> bytes) \<Rightarrow> ('i, 'c) cache_tier \<Rightarrow> block_key \<Rightarrow> bytes \<Rightarrow> bool" where
  "tier_holds H V t k b \<longleftrightarrow> H (ct_inner t) k b \<or> V (ct_cache t) k = Some b"

definition tier_live :: "('i \<Rightarrow> block_key \<Rightarrow> bool) \<Rightarrow> ('i, 'c) cache_tier \<Rightarrow> block_key \<Rightarrow> bool" where
  "tier_live L t k \<longleftrightarrow> L (ct_inner t) k"

definition tier_fine :: "('i \<Rightarrow> bool) \<Rightarrow> ('c \<Rightarrow> bool) \<Rightarrow> ('i, 'c) cache_tier \<Rightarrow> bool" where
  "tier_fine fine leg_fine t \<longleftrightarrow> fine (ct_inner t) \<and> leg_fine (ct_cache t)"

lemma ct_tally_fields [simp]:
  "ct_inner (ct_tally c n t) = ct_inner t" "ct_cache (ct_tally c n t) = ct_cache t" "ct_bytes (ct_tally c n t) = ct_bytes t"
  by (simp_all add: ct_tally_def)

locale cached_store = block_store B ok H L fine + cache_leg C leg_ok V leg_fine evicts
  for B :: "'i block_store" and ok H L fine and C :: "'c shard_ops" and leg_ok V leg_fine evicts +
  fixes E :: "('i, 'c) cache_env"
  assumes inner_ops: "ce_inner E = B" and leg_ops: "ce_ops E = C" and bounded: "0 < cc_max_bytes (ce_cfg E) \<Longrightarrow> evicts"
begin

text \<open>A step of the cache leg that may forget keys.\<close>

definition leg_step :: "nat \<Rightarrow> (block_key \<rightharpoonup> bytes) \<Rightarrow> ('i, 'c) cache_tier \<Rightarrow> ('i, 'c) cache_tier \<Rightarrow> bool" where
  "leg_step n W t t' \<longleftrightarrow> ct_inner t' = ct_inner t \<and> leg_ok n (ct_cache t') \<and> V (ct_cache t') \<subseteq>\<^sub>m W \<and> (leg_fine (ct_cache t) \<longrightarrow> leg_fine (ct_cache t'))"

lemma leg_step_tally: "leg_step n W t t' \<Longrightarrow> leg_step n W t (ct_tally c m t')"
  by (simp add: leg_step_def)

lemma restrict_sub: "m |` S \<subseteq>\<^sub>m m"
  by (auto simp: map_le_def restrict_map_def dom_def split: if_splits)

lemma evict_loop_step:
  assumes "0 < cc_max_bytes (ce_cfg E)"
  shows "leg_ok n (ct_cache t) \<Longrightarrow> leg_step n (V (ct_cache t)) t (evict_loop E t)"
proof (induction "ct_bytes t" arbitrary: t rule: less_induct)
  case less
  obtain c r where ev: "so_evict_oldest_segment C (ct_cache t) = (c, r)" by fastforce
  have oc: "on_cache (so_evict_oldest_segment (ce_ops E)) t = (t\<lparr>ct_cache := c\<rparr>, r)" by (simp add: on_cache_def leg_ops ev)
  from leg_evict [OF less.prems bounded [OF assms]] ev have s: "leg_step n (V (ct_cache t)) t (t\<lparr>ct_cache := c\<rparr>)"
    using restrict_sub by (cases r) (auto simp: leg_step_def)
  have id: "leg_step n (V (ct_cache t)) t t" using less.prems by (simp add: leg_step_def)
  show ?case
  proof (cases "\<exists>freed keys. cc_max_bytes (ce_cfg E) < ct_bytes t \<and> r = Inr (freed, keys) \<and> freed \<noteq> 0")
    case True
    then obtain freed keys where f: "cc_max_bytes (ce_cfg E) < ct_bytes t" "r = Inr (freed, keys)" "freed \<noteq> 0" by blast
    let ?t = "ct_tally CacheEvictedBytes freed (ct_tally CacheEvictedSegments 1 (t\<lparr>ct_cache := c, ct_bytes := ct_bytes t - freed\<rparr>))"
    have "leg_step n (V c) ?t (evict_loop E ?t)" using less.hyps [of ?t] s f by (simp add: leg_step_def)
    then have "leg_step n (V (ct_cache t)) t (evict_loop E ?t)" using s map_le_trans by (auto simp: leg_step_def)
    moreover have "leg_step n (V (ct_cache t)) t ?t" using s by (simp add: leg_step_def)
    ultimately show ?thesis using f by (subst evict_loop.simps) (simp add: oc Let_def)
  next
    case False
    then show ?thesis using s id by (subst evict_loop.simps) (auto simp: oc split: sum.split)
  qed
qed

lemma populate_step:
  assumes "leg_ok (Suc n) (ct_cache t)" and "fits k b"
  shows "leg_step n ((V (ct_cache t))(k \<mapsto> b)) t (populate E k b t) \<or> leg_step n (V (ct_cache t)) t (populate E k b t)"
proof -
  obtain c r where put: "so_put C (ct_cache t) k b = (c, r)" by fastforce
  have oc: "on_cache (\<lambda>c. so_put (ce_ops E) c k b) t = (t\<lparr>ct_cache := c\<rparr>, r)" by (simp add: on_cache_def leg_ops put)
  have id: "leg_step n (V (ct_cache t)) t t" using leg_mono [OF assms(1), of n] by (simp add: leg_step_def)
  show ?thesis
  proof (cases r)
    case (Inl e)
    then show ?thesis using leg_put [OF assms] put id by (simp add: populate_def oc leg_step_def)
  next
    case (Inr u)
    let ?t = "ct_tally CachePopulatedBytes (length b) (t\<lparr>ct_cache := c, ct_bytes := (ct_bytes t + length b) mod 2 ^ 64\<rparr>)"
    have s: "leg_step n ((V (ct_cache t))(k \<mapsto> b)) t ?t" "leg_ok n c" using leg_put [OF assms] put Inr by (simp_all add: leg_step_def)
    have "leg_step n (V c) ?t (maybe_evict E ?t)" using evict_loop_step [of n ?t] s by (simp add: maybe_evict_def leg_step_def)
    then have "leg_step n ((V (ct_cache t))(k \<mapsto> b)) t (maybe_evict E ?t)" using s(1) map_le_trans by (auto simp: leg_step_def)
    then show ?thesis using id by (simp add: populate_def oc Inr)
  qed
qed

text \<open>The same for the tier as a whole.\<close>

lemma populate_tier:
  assumes t: "tier_ok ok leg_ok V n t" and c: "leg_ok (Suc n) (ct_cache t)" and f: "fits k b"
  shows "tier_ok ok leg_ok V n (populate E k b t)" "ct_inner (populate E k b t) = ct_inner t"
    "V (ct_cache (populate E k b t)) k' = Some b' \<Longrightarrow> V (ct_cache t) k' = Some b' \<or> k' = k \<and> b' = b"
    "tier_fine fine leg_fine t \<Longrightarrow> tier_fine fine leg_fine (populate E k b t)"
proof -
  obtain W where W: "leg_step n W t (populate E k b t)" "W = V (ct_cache t) \<or> W = (V (ct_cache t))(k \<mapsto> b)"
    using populate_step [OF c f] by blast
  have new: "V (ct_cache t) k' = Some b' \<or> k' = k \<and> b' = b"
    if "V (ct_cache (populate E k b t)) k' = Some b'" for k' b'
  proof -
    have "W k' = Some b'" using that W(1) by (auto simp: leg_step_def map_le_def dom_def)
    then show ?thesis using W(2) by (auto split: if_splits)
  qed
  then show "V (ct_cache (populate E k b t)) k' = Some b' \<Longrightarrow> V (ct_cache t) k' = Some b' \<or> k' = k \<and> b' = b" .
  show "tier_ok ok leg_ok V n (populate E k b t)" "ct_inner (populate E k b t) = ct_inner t"
    "tier_fine fine leg_fine t \<Longrightarrow> tier_fine fine leg_fine (populate E k b t)"
    using W(1) t f by (auto simp: tier_ok_def leg_step_def tier_fine_def dest!: new)
qed

lemma tier_get_step:
  assumes t: "tier_ok ok leg_ok V (Suc n) t"
  shows "post (tier_get E t k)
    (\<lambda>t' b. tier_ok ok leg_ok V n t' \<and> store_cached (tier_holds H V) (tier_live L) (tier_fine fine leg_fine) t t' \<and> tier_holds H V t k b)
    (\<lambda>t' e. tier_ok ok leg_ok V n t' \<and> store_cached (tier_holds H V) (tier_live L) (tier_fine fine leg_fine) t t' \<and> \<not> tier_live L t k)"
proof -
  have okt: "ok (Suc n) (ct_inner t)" "leg_ok (Suc n) (ct_cache t)" "\<And>k b. V (ct_cache t) k = Some b \<Longrightarrow> fits k b"
    using t by (simp_all add: tier_ok_def)
  obtain c r where g: "so_get C (ct_cache t) k = (c, r)" by fastforce
  have og: "on_cache (\<lambda>c. so_get (ce_ops E) c k) t = (t\<lparr>ct_cache := c\<rparr>, r)" by (simp add: on_cache_def leg_ops g)
  note lg = leg_get [OF okt(2), of k, unfolded g]
  show ?thesis
  proof (cases r)
    case (Inr v)
    then show ?thesis using lg leg_mono [of "Suc n" c n] store_mono [OF okt(1), of n] okt(3)
      by (auto simp: tier_get_def read_through_def og tier_ok_def store_cached_def tier_holds_def tier_live_def tier_fine_def)
  next
    case (Inl e)
    obtain c2 where c2: "fst (on_cache (\<lambda>c. so_delete (ce_ops E) c k) (t\<lparr>ct_cache := c\<rparr>)) = t\<lparr>ct_cache := c2\<rparr>"
        "so_delete C c k = (c2, snd (so_delete C c k))"
      by (cases "so_delete C c k") (simp add: on_cache_def leg_ops)
    define t1 where "t1 = ct_tally CacheMisses 1 (if e = NotFound then t\<lparr>ct_cache := c\<rparr> else ct_tally CacheSelfHeals 1 (t\<lparr>ct_cache := c2\<rparr>))"
    have c1: "leg_ok (Suc n) c" "V c = V (ct_cache t)" "leg_fine (ct_cache t) \<longrightarrow> leg_fine c" using lg Inl by auto
    have d: "leg_ok (Suc n) c2 \<and> V c2 \<subseteq>\<^sub>m V c \<and> (leg_fine c \<longrightarrow> leg_fine c2)"
      using leg_delete [OF c1(1), of k] by (subst (asm) c2(2), cases "snd (so_delete C c k)") (auto simp: map_le_def)
    have t1: "ct_inner t1 = ct_inner t" "leg_ok (Suc n) (ct_cache t1)" "V (ct_cache t1) \<subseteq>\<^sub>m V (ct_cache t)"
        "leg_fine (ct_cache t) \<longrightarrow> leg_fine (ct_cache t1)"
      using c1 d by (auto simp: t1_def)
    obtain i ri where gi: "bs_get B (ct_inner t) k = (i, ri)" by fastforce
    have oi: "on_inner (\<lambda>i. bs_get (ce_inner E) i k) t1 = (t1\<lparr>ct_inner := i\<rparr>, ri)" by (simp add: on_inner_def inner_ops gi t1(1))
    note sg = store_get [OF okt(1), of k, unfolded gi]
    let ?t2 = "t1\<lparr>ct_inner := i\<rparr>"
    have sub: "V (ct_cache t1) k' = Some b' \<Longrightarrow> V (ct_cache t) k' = Some b'" for k' b'
      using t1(3) by (auto simp: map_le_def dom_def)
    have "tier_get E t k = and_then (on_inner (\<lambda>i. bs_get (ce_inner E) i k) t1) (\<lambda>v t. (populate E k v t, Inr v))"
      by (simp add: tier_get_def read_through_def og Inl Let_def c2(1) t1_def)
    then have get: "tier_get E t k = and_then (?t2, ri) (\<lambda>v t. (populate E k v t, Inr v))" unfolding oi .
    have ok2: "tier_ok ok leg_ok V n ?t2" "leg_ok (Suc n) (ct_cache ?t2)"
      using sg t1(2) leg_mono [OF t1(2), of n] sub okt(3) by (cases ri; auto simp: tier_ok_def)+
    show ?thesis
    proof (cases ri)
      case (Inl e')
      then show ?thesis using sg ok2 sub t1(4) unfolding get
        by (auto simp: store_cached_def tier_holds_def tier_live_def tier_fine_def)
    next
      case (Inr v)
      then have i: "ok n i" "store_cached H L fine (ct_inner t) i" "H (ct_inner t) k v" using sg by auto
      have "fits k v" using store_fits [OF okt(1) i(3)] .
      note p = populate_tier [OF ok2 this]
      have "store_cached (tier_holds H V) (tier_live L) (tier_fine fine leg_fine) t (populate E k v ?t2)"
        using i(2,3) p(2,4) sub t1(4)
        by (auto simp: store_cached_def tier_holds_def tier_live_def tier_fine_def dest!: p(3))
      then show ?thesis using p(1) i(3) unfolding get by (simp add: Inr tier_holds_def)
    qed
  qed
qed

lemma tier_put_step:
  assumes t: "tier_ok ok leg_ok V (Suc n) t" and f: "fits k b"
  shows "post (tier_put E t k b)
    (\<lambda>t' u. tier_ok ok leg_ok V n t' \<and> store_wrote (tier_holds H V) (tier_live L) (tier_fine fine leg_fine) k b t t' \<and> tier_holds H V t' k b)
    (\<lambda>t' e. tier_ok ok leg_ok V n t' \<and> store_wrote (tier_holds H V) (tier_live L) (tier_fine fine leg_fine) k b t t')"
proof -
  have okt: "ok (Suc n) (ct_inner t)" "leg_ok (Suc n) (ct_cache t)" "\<And>k b. V (ct_cache t) k = Some b \<Longrightarrow> fits k b"
    using t by (simp_all add: tier_ok_def)
  obtain i r where pi: "bs_put B (ct_inner t) k b = (i, r)" by fastforce
  let ?t = "t\<lparr>ct_inner := i\<rparr>"
  have oi: "on_inner (\<lambda>i. bs_put (ce_inner E) i k b) t = (?t, r)" by (simp add: on_inner_def inner_ops pi)
  note sp = store_put [OF okt(1) f, unfolded pi]
  have t1: "tier_ok ok leg_ok V n ?t" "leg_ok (Suc n) (ct_cache ?t)" "store_wrote H L fine k b (ct_inner t) i"
    using sp okt leg_mono [OF okt(2), of n] by (cases r; auto simp: tier_ok_def)+
  show ?thesis
  proof (cases r)
    case (Inl e)
    then show ?thesis using t1
      by (auto simp: tier_put_def oi store_wrote_def tier_holds_def tier_live_def tier_fine_def)
  next
    case (Inr u)
    note p = populate_tier [OF t1(1,2) f]
    have "H i k b" using sp Inr by simp
    moreover have "store_wrote (tier_holds H V) (tier_live L) (tier_fine fine leg_fine) k b t (populate E k b ?t)"
      using t1(3) p(2,4) by (auto simp: store_wrote_def tier_holds_def tier_live_def tier_fine_def dest!: p(3))
    ultimately show ?thesis using p(1,2) by (simp add: tier_put_def oi Inr tier_holds_def)
  qed
qed

lemma tier_delete_step:
  assumes t: "tier_ok ok leg_ok V n t"
  shows "post (tier_delete E t k)
    (\<lambda>t' u. tier_ok ok leg_ok V n t' \<and> store_removed (tier_holds H V) (tier_live L) (tier_fine fine leg_fine) k t t' \<and>
       (tier_fine fine leg_fine t \<longrightarrow> (\<forall>b. \<not> tier_holds H V t' k b)))
    (\<lambda>t' e. tier_ok ok leg_ok V n t' \<and> store_removed (tier_holds H V) (tier_live L) (tier_fine fine leg_fine) k t t')"
proof -
  have okt: "ok n (ct_inner t)" "leg_ok n (ct_cache t)" "\<And>k b. V (ct_cache t) k = Some b \<Longrightarrow> fits k b"
    using t by (simp_all add: tier_ok_def)
  obtain i r where di: "bs_delete B (ct_inner t) k = (i, r)" by fastforce
  have oi: "on_inner (\<lambda>i. bs_delete (ce_inner E) i k) t = (t\<lparr>ct_inner := i\<rparr>, r)" by (simp add: on_inner_def inner_ops di)
  note sd = store_delete [OF okt(1), of k, unfolded di]
  show ?thesis
  proof (cases r)
    case (Inl e)
    then show ?thesis using sd okt(2,3)
      by (auto simp: tier_delete_def oi tier_ok_def store_removed_def tier_holds_def tier_live_def tier_fine_def)
  next
    case (Inr u)
    obtain c rc where dc: "so_delete C (ct_cache t) k = (c, rc)" by fastforce
    have oc: "on_cache (\<lambda>c. so_delete (ce_ops E) c k) (t\<lparr>ct_inner := i\<rparr>) = (t\<lparr>ct_inner := i, ct_cache := c\<rparr>, rc)"
      by (simp add: on_cache_def leg_ops dc)
    have c: "leg_ok n c" "V c \<subseteq>\<^sub>m V (ct_cache t)" "leg_fine (ct_cache t) \<longrightarrow> leg_fine c \<and> V c k = None"
      using leg_delete [OF okt(2), of k, unfolded dc] by (cases rc; auto simp: map_le_def)+
    have sub: "V c k' = Some b' \<Longrightarrow> V (ct_cache t) k' = Some b'" for k' b'
      using c(2) by (auto simp: map_le_def dom_def)
    show ?thesis using sd c sub okt(3)
      by (auto simp: tier_delete_def oi Inr oc tier_ok_def store_removed_def tier_holds_def tier_live_def tier_fine_def)
  qed
qed

end

sublocale cached_store \<subseteq> tier: block_store "tier_store E" "tier_ok ok leg_ok V" "tier_holds H V" "tier_live L" "tier_fine fine leg_fine"
proof (unfold_locales, goal_cases)
  case (1 n t m)
  then show ?case using store_mono leg_mono by (auto simp: tier_ok_def)
next
  case (2 n t k b)
  then show ?case using store_fits by (auto simp: tier_ok_def tier_holds_def)
next
  case (3 n t k b)
  from tier_put_step [OF 3] show ?case by (simp add: tier_store_def)
next
  case (4 n t k)
  from tier_get_step [OF 4] show ?case by (simp add: tier_store_def)
next
  case (5 n t k)
  from tier_delete_step [OF 5] show ?case by (simp add: tier_store_def)
qed

text \<open>The tier the daemon builds: a disk engine in front of a mirrored pool.\<close>

lemma disk_cached_store:
  assumes "engine_laws EE" and "disk_pool EE pol xxh3 PE" and "mirror_cfg (pe_cfg PE)" and "0 < pc_write_quorum (pe_cfg PE)"
    and "engine_laws CE" and "ce_inner E = pool_store PE" and "ce_ops E = disk_ops CE"
  shows "cached_store (pool_store PE) (pool_room EE) (pool_holds EE) (pool_live EE) pool_fine (disk_ops CE)
    (disk_leg_ok (0 < cc_max_bytes (ce_cfg E)) CE) (view CE) engine_fine (0 < cc_max_bytes (ce_cfg E)) E"
  by (intro cached_store.intro cached_store_axioms.intro listed_store.axioms(1) [OF pool_listed_store [OF assms(1-4)]] engine_laws.disk_leg assms)

text \<open>A small tier over the sample pool and a fresh engine.\<close>

definition ref_cache_env :: "(((bytes \<times> bytes) list, (bytes \<times> u64) list) engine pool, ((bytes \<times> bytes) list, (bytes \<times> u64) list) engine) cache_env" where
  "ref_cache_env = \<lparr>ce_inner = pool_store ref_pool_env, ce_ops = disk_ops ref_env, ce_cfg = \<lparr>cc_max_bytes = 40, cc_min_size = 2\<rparr>\<rparr>"

definition ref_tier :: "(((bytes \<times> bytes) list, (bytes \<times> u64) list) engine pool, ((bytes \<times> bytes) list, (bytes \<times> u64) list) engine) cache_tier" where
  "ref_tier = \<lparr>ct_inner = ref_pool, ct_cache = fresh_engine, ct_bytes = 0, ct_metrics = ops_metrics_default\<rparr>"

interpretation ref_cache: cached_store "pool_store ref_pool_env" "pool_room ref_env" "pool_holds ref_env" "pool_live ref_env" pool_fine
    "disk_ops ref_env" "disk_leg_ok (0 < cc_max_bytes (ce_cfg ref_cache_env)) ref_env" "view ref_env" engine_fine
    "0 < cc_max_bytes (ce_cfg ref_cache_env)" ref_cache_env
  by (rule disk_cached_store [OF ref_env.engine_laws_axioms ref_disk_pool ref_pool_fields(5) _ ref_env.engine_laws_axioms])
    (simp_all add: ref_pool_fields ref_cache_env_def)

lemma fresh_engine_readable: "readable fresh_engine" "engine_fine fresh_engine"
  by (simp_all add: readable_def engine_fine_def fresh_engine_eq blank_disk_def calm_def)

lemma ref_tier_facts: "tier_ok (pool_room ref_env) (disk_leg_ok ev ref_env) (view ref_env) 100 ref_tier" "ct_inner ref_tier = ref_pool"
  "\<not> tier_holds (pool_holds ref_env) (view ref_env) ref_tier k b" "tier_fine pool_fine engine_fine ref_tier"
  using ref_pool_store fresh_engine_inv fresh_engine_readable
  by (simp_all add: tier_ok_def ref_tier_def disk_leg_ok_def engine_ok_def room_def fresh_engine_view tier_holds_def tier_fine_def)

end
