(* ===== verification/Cache_Flight.thy ===== *)
theory Cache_Flight
  imports Cache
begin

text \<open>
  The cache tier under many threads (\<open>ozd-app/src/cache.rs\<close>): concurrent reads of one key are coalesced into one flight. A thread is
  a program counter; a step is one access to a lock, an atomic or a leg. \<open>tick\<close> runs the next step of a thread; it is undefined for
  a thread without a call and for a waiter whose flight has no result yet. An operation of a leg is one step, and so is publishing a result
  together with waking its waiters (\<open>notify_all\<close>). \<open>reach\<close> are the states that calls and steps lead to.
\<close>

section \<open>Threads\<close>

text \<open>What follows a \<open>populate\<close>: the leader of a flight publishes the body, a put returns.\<close>

datatype after_populate = LeadNext nat block_key bytes | PutNext block_key

datatype call = CallGet block_key | CallPut block_key bytes | CallDelete block_key

datatype outcome = GotBody block_key "bytes domain_result" | WasPut block_key "unit domain_result" | WasDeleted block_key "unit domain_result"

datatype pc =
    Idle
  | Enter block_key
  | ReadCache nat block_key
  | HealCache nat block_key
  | ReadInner nat block_key
  | PopPut block_key bytes after_populate
  | PopCount nat after_populate
  | EvTest after_populate
  | EvCall after_populate
  | EvLoad nat after_populate
  | EvStore nat nat after_populate
  | EvLow after_populate
  | Publish nat block_key "bytes domain_result"
  | Retire nat block_key "bytes domain_result"
  | Waiting nat block_key
  | PutInner block_key bytes
  | DelInner block_key
  | DelCache block_key
  | Returned outcome

definition start_call :: "call \<Rightarrow> pc" where
  "start_call c = (case c of CallGet k \<Rightarrow> Enter k | CallPut k b \<Rightarrow> PutInner k b | CallDelete k \<Rightarrow> DelInner k)"

text \<open>
  \<open>sy_inflight\<close> is the map under its mutex, from keys to flights; a flight is a number, \<open>sy_done\<close> has the results, with errors as
  their text, and \<open>sy_next\<close> is the first unused number.
\<close>

record ('i, 'c) system =
  sy_tier :: "('i, 'c) cache_tier"
  sy_inflight :: "block_key \<rightharpoonup> nat"
  sy_done :: "nat \<Rightarrow> (string + bytes) option"
  sy_next :: nat
  sy_pcs :: "nat \<Rightarrow> pc"

definition system_start :: "('i, 'c) cache_tier \<Rightarrow> ('i, 'c) system" where
  "system_start t = \<lparr>sy_tier = t, sy_inflight = Map.empty, sy_done = (\<lambda>_. None), sy_next = 0, sy_pcs = (\<lambda>_. Idle)\<rparr>"

section \<open>Steps\<close>

definition goto :: "nat \<Rightarrow> pc \<Rightarrow> ('i, 'c) system \<Rightarrow> ('i, 'c) system" where
  "goto t p s = s\<lparr>sy_pcs := (sy_pcs s)(t := p)\<rparr>"

definition with_tier :: "('i, 'c) cache_tier \<Rightarrow> ('i, 'c) system \<Rightarrow> ('i, 'c) system" where
  "with_tier ti s = s\<lparr>sy_tier := ti\<rparr>"

fun populated :: "after_populate \<Rightarrow> pc" where
  "populated (LeadNext f k b) = Publish f k (Inr b)"
| "populated (PutNext k) = Returned (WasPut k (Inr ()))"

definition flight_result :: "bytes domain_result \<Rightarrow> string + bytes" where
  "flight_result r = (case r of Inr v \<Rightarrow> Inr v | Inl e \<Rightarrow> Inl (error_text e))"

text \<open>What a waiter makes of the leader's result.\<close>

definition waiter_result :: "string + bytes \<Rightarrow> bytes domain_result" where
  "waiter_result d = (case d of
     Inr v \<Rightarrow> Inr v
   | Inl m \<Rightarrow> Inl (if m = error_text NotFound then NotFound else Io (''coalesced read failed: '' @ m)))"

text \<open>\<open>populate\<close> returns at once for a small body.\<close>

definition enter_populate :: "('i, 'c) cache_env \<Rightarrow> block_key \<Rightarrow> bytes \<Rightarrow> after_populate \<Rightarrow> pc" where
  "enter_populate E k b a = (if length b < cc_min_size (ce_cfg E) then populated a else PopPut k b a)"

definition step_pc :: "('i, 'c) cache_env \<Rightarrow> nat \<Rightarrow> pc \<Rightarrow> ('i, 'c) system \<Rightarrow> ('i, 'c) system option" where
  "step_pc E t p s = (case p of
     Idle \<Rightarrow> None
   | Enter k \<Rightarrow> (case sy_inflight s k of
         Some f \<Rightarrow> Some (goto t (Waiting f k) (with_tier (ct_tally CacheCoalesced 1 (sy_tier s)) s))
       | None \<Rightarrow> Some (goto t (ReadCache (sy_next s) k)
           (s\<lparr>sy_inflight := (sy_inflight s)(k \<mapsto> sy_next s), sy_next := sy_next s + 1\<rparr>)))
   | ReadCache f k \<Rightarrow> (case on_cache (\<lambda>c. so_get (ce_ops E) c k) (sy_tier s) of
         (ti, Inr v) \<Rightarrow> Some (goto t (Publish f k (Inr v)) (with_tier (ct_tally CacheHits 1 ti) s))
       | (ti, Inl e) \<Rightarrow> Some (if e = NotFound then goto t (ReadInner f k) (with_tier (ct_tally CacheMisses 1 ti) s)
           else goto t (HealCache f k) (with_tier ti s)))
   | HealCache f k \<Rightarrow> (case on_cache (\<lambda>c. so_delete (ce_ops E) c k) (sy_tier s) of
         (ti, r) \<Rightarrow> Some (goto t (ReadInner f k) (with_tier (ct_tally CacheMisses 1 (ct_tally CacheSelfHeals 1 ti)) s)))
   | ReadInner f k \<Rightarrow> (case on_inner (\<lambda>i. bs_get (ce_inner E) i k) (sy_tier s) of
         (ti, Inr v) \<Rightarrow> Some (goto t (enter_populate E k v (LeadNext f k v)) (with_tier ti s))
       | (ti, Inl e) \<Rightarrow> Some (goto t (Publish f k (Inl e)) (with_tier ti s)))
   | PopPut k b a \<Rightarrow> (case on_cache (\<lambda>c. so_put (ce_ops E) c k b) (sy_tier s) of
         (ti, Inr _) \<Rightarrow> Some (goto t (PopCount (length b) a) (with_tier ti s))
       | (ti, Inl _) \<Rightarrow> Some (goto t (populated a) (with_tier ti s)))
   | PopCount n a \<Rightarrow>
       (let ti = sy_tier s in
        Some (goto t (EvTest a) (with_tier (ct_tally CachePopulatedBytes n (ti\<lparr>ct_bytes := (ct_bytes ti + n) mod 2 ^ 64\<rparr>)) s)))
   | EvTest a \<Rightarrow>
       Some (goto t (if cc_max_bytes (ce_cfg E) = 0 \<or> ct_bytes (sy_tier s) \<le> cc_max_bytes (ce_cfg E) then populated a else EvCall a) s)
   | EvCall a \<Rightarrow> (case on_cache (so_evict_oldest_segment (ce_ops E)) (sy_tier s) of
         (ti, Inr (freed, _)) \<Rightarrow> Some (goto t (if freed = 0 then populated a else EvLoad freed a) (with_tier ti s))
       | (ti, Inl _) \<Rightarrow> Some (goto t (populated a) (with_tier ti s)))
   | EvLoad freed a \<Rightarrow> Some (goto t (EvStore (ct_bytes (sy_tier s) - freed) freed a) s)
   | EvStore v freed a \<Rightarrow>
       Some (goto t (EvLow a) (with_tier (ct_tally CacheEvictedBytes freed (ct_tally CacheEvictedSegments 1 ((sy_tier s)\<lparr>ct_bytes := v\<rparr>))) s))
   | EvLow a \<Rightarrow> Some (goto t (if ct_bytes (sy_tier s) \<le> low_water (ce_cfg E) then populated a else EvTest a) s)
   | Publish f k r \<Rightarrow> Some (goto t (Retire f k r) (s\<lparr>sy_done := (sy_done s)(f := Some (flight_result r))\<rparr>))
   | Retire f k r \<Rightarrow> Some (goto t (Returned (GotBody k r)) (s\<lparr>sy_inflight := (sy_inflight s)(k := None)\<rparr>))
   | Waiting f k \<Rightarrow> (case sy_done s f of None \<Rightarrow> None | Some d \<Rightarrow> Some (goto t (Returned (GotBody k (waiter_result d))) s))
   | PutInner k b \<Rightarrow> (case on_inner (\<lambda>i. bs_put (ce_inner E) i k b) (sy_tier s) of
         (ti, Inr _) \<Rightarrow> Some (goto t (enter_populate E k b (PutNext k)) (with_tier ti s))
       | (ti, Inl e) \<Rightarrow> Some (goto t (Returned (WasPut k (Inl e))) (with_tier ti s)))
   | DelInner k \<Rightarrow> (case on_inner (\<lambda>i. bs_delete (ce_inner E) i k) (sy_tier s) of
         (ti, Inr _) \<Rightarrow> Some (goto t (DelCache k) (with_tier ti s))
       | (ti, Inl e) \<Rightarrow> Some (goto t (Returned (WasDeleted k (Inl e))) (with_tier ti s)))
   | DelCache k \<Rightarrow> (case on_cache (\<lambda>c. so_delete (ce_ops E) c k) (sy_tier s) of
         (ti, r) \<Rightarrow> Some (goto t (Returned (WasDeleted k (Inr ()))) (with_tier ti s)))
   | Returned out \<Rightarrow> None)"

definition tick :: "('i, 'c) cache_env \<Rightarrow> nat \<Rightarrow> ('i, 'c) system \<Rightarrow> ('i, 'c) system option" where
  "tick E t s = step_pc E t (sy_pcs s t) s"

definition at_rest :: "pc \<Rightarrow> bool" where
  "at_rest p \<longleftrightarrow> (case p of Idle \<Rightarrow> True | Returned out \<Rightarrow> True | _ \<Rightarrow> False)"

text \<open>A step that writes to a leg takes one unit of the room there.\<close>

definition writes :: "pc \<Rightarrow> nat" where
  "writes p = (case p of PopPut k b a \<Rightarrow> 1 | PutInner k b \<Rightarrow> 1 | ReadInner f k \<Rightarrow> 1 | _ \<Rightarrow> 0)"

text \<open>\<open>reach E A s0 w s\<close>: from \<open>s0\<close>, by calls that satisfy \<open>A\<close> and steps of the threads, \<open>w\<close> of them writing, to \<open>s\<close>.\<close>

inductive reach :: "('i, 'c) cache_env \<Rightarrow> (call \<Rightarrow> bool) \<Rightarrow> ('i, 'c) system \<Rightarrow> nat \<Rightarrow> ('i, 'c) system \<Rightarrow> bool"
  for E A s0 where
  reach_start: "reach E A s0 0 s0"
| reach_call: "reach E A s0 w s \<Longrightarrow> at_rest (sy_pcs s t) \<Longrightarrow> A c \<Longrightarrow> reach E A s0 w (goto t (start_call c) s)"
| reach_tick: "reach E A s0 w s \<Longrightarrow> tick E t s = Some s' \<Longrightarrow> reach E A s0 (w + writes (sy_pcs s t)) s'"

inductive_cases reachE: "reach E A s0 w s"

section \<open>The protocol of flights\<close>

text \<open>
  The tier seen from its flights alone: a thread leads a flight (with its result once that is published), waits for one, or neither.
\<close>

datatype role = NoRole | Leader nat block_key "bytes domain_result option" | Waiter nat block_key

record flights =
  fl_role :: "nat \<Rightarrow> role"
  fl_inflight :: "block_key \<rightharpoonup> nat"
  fl_done :: "nat \<Rightarrow> (string + bytes) option"
  fl_next :: nat

inductive flight_step :: "flights \<Rightarrow> flights \<Rightarrow> bool" where
  join: "fl_role F t = NoRole \<Longrightarrow> fl_inflight F k = Some f \<Longrightarrow> flight_step F (F\<lparr>fl_role := (fl_role F)(t := Waiter f k)\<rparr>)"
| lead: "fl_role F t = NoRole \<Longrightarrow> fl_inflight F k = None \<Longrightarrow>
    flight_step F (F\<lparr>fl_role := (fl_role F)(t := Leader (fl_next F) k None),
      fl_inflight := (fl_inflight F)(k \<mapsto> fl_next F), fl_next := fl_next F + 1\<rparr>)"
| publish: "fl_role F t = Leader f k None \<Longrightarrow>
    flight_step F (F\<lparr>fl_role := (fl_role F)(t := Leader f k (Some r)), fl_done := (fl_done F)(f \<mapsto> flight_result r)\<rparr>)"
| retire: "fl_role F t = Leader f k (Some r) \<Longrightarrow>
    flight_step F (F\<lparr>fl_role := (fl_role F)(t := NoRole), fl_inflight := (fl_inflight F)(k := None)\<rparr>)"
| answer: "fl_role F t = Waiter f k \<Longrightarrow> fl_done F f = Some d \<Longrightarrow> flight_step F (F\<lparr>fl_role := (fl_role F)(t := NoRole)\<rparr>)"

inductive_cases flight_stepE: "flight_step F F'"

definition flight_inv :: "flights \<Rightarrow> bool" where
  "flight_inv F \<longleftrightarrow>
     (\<forall>k f. fl_inflight F k = Some f \<longrightarrow> f < fl_next F \<and> (\<exists>t r. fl_role F t = Leader f k r)) \<and>
     (\<forall>t f k r. fl_role F t = Leader f k r \<longrightarrow> fl_inflight F k = Some f \<and> fl_done F f = map_option flight_result r) \<and>
     (\<forall>t t' f f' k r r'. fl_role F t = Leader f k r \<longrightarrow> fl_role F t' = Leader f' k r' \<longrightarrow> t = t') \<and>
     (\<forall>k k' f. fl_inflight F k = Some f \<longrightarrow> fl_inflight F k' = Some f \<longrightarrow> k = k') \<and>
     (\<forall>t f k. fl_role F t = Waiter f k \<longrightarrow> f < fl_next F \<and> (fl_done F f = None \<longrightarrow> fl_inflight F k = Some f)) \<and>
     (\<forall>f \<ge> fl_next F. fl_done F f = None)"

lemma flight_invD:
  assumes "flight_inv F"
  shows "fl_inflight F k = Some f \<Longrightarrow> f < fl_next F" "fl_inflight F k = Some f \<Longrightarrow> \<exists>t r. fl_role F t = Leader f k r"
    "fl_role F t = Leader f k r \<Longrightarrow> fl_inflight F k = Some f" "fl_role F t = Leader f k r \<Longrightarrow> fl_done F f = map_option flight_result r"
    "fl_role F t = Leader f k r \<Longrightarrow> fl_role F t' = Leader f' k r' \<Longrightarrow> t = t'"
    "fl_inflight F k = Some f \<Longrightarrow> fl_inflight F k' = Some f \<Longrightarrow> k = k'"
    "fl_role F t = Waiter f k \<Longrightarrow> f < fl_next F" "fl_role F t = Waiter f k \<Longrightarrow> fl_done F f = None \<Longrightarrow> fl_inflight F k = Some f"
    "fl_next F \<le> f \<Longrightarrow> fl_done F f = None"
  using assms unfolding flight_inv_def by blast+

lemma flight_inv_step:
  assumes "flight_step F F'" and inv: "flight_inv F"
  shows "flight_inv F'"
  using assms(1)
proof (cases rule: flight_step.cases)
  case (join t k f)
  note d = flight_invD [OF inv]
  show ?thesis unfolding flight_inv_def join(1)
    using join(2,3) d by (auto split: if_splits) (metis role.distinct(1))+
next
  case (lead t k)
  note d = flight_invD [OF inv]
  show ?thesis unfolding flight_inv_def lead(1)
    using lead(2,3) d by (auto split: if_splits) (metis role.distinct(1) less_SucI less_irrefl option.distinct(1))+
next
  case (publish t f k r)
  note d = flight_invD [OF inv]
  show ?thesis unfolding flight_inv_def publish(1)
    using publish(2) d by (auto split: if_splits) (metis role.inject(1) leD)+
next
  case (retire t f k r)
  note d = flight_invD [OF inv]
  have others: "\<exists>ta. ta \<noteq> t \<and> (\<exists>r. fl_role F ta = Leader fa ka r)" if "ka \<noteq> k" "fl_inflight F ka = Some fa" for ka fa
    using d(2) [OF that(2)] that(1) retire(2) by (metis role.inject(1))
  have answered: "\<exists>y. fl_done F fa = Some y" if "fl_role F ta = Waiter fa k" for ta fa
    using d(8) [OF that] d(3) [OF retire(2)] d(4) [OF retire(2)] by (cases "fl_done F fa") auto
  show ?thesis unfolding flight_inv_def retire(1)
    using retire(2) d(1,3-9) others answered by (auto split: if_splits) (metis (no_types))
next
  case (answer t f k d)
  note d = flight_invD [OF inv]
  show ?thesis unfolding flight_inv_def answer(1)
    using answer(2,3) d by (auto split: if_splits) (metis role.distinct(5))
qed

section \<open>The tier follows the protocol\<close>

fun after_role :: "after_populate \<Rightarrow> role" where
  "after_role (LeadNext f k b) = Leader f k None"
| "after_role (PutNext k) = NoRole"

fun role_of :: "pc \<Rightarrow> role" where
  "role_of (ReadCache f k) = Leader f k None"
| "role_of (HealCache f k) = Leader f k None"
| "role_of (ReadInner f k) = Leader f k None"
| "role_of (PopPut k b a) = after_role a"
| "role_of (PopCount n a) = after_role a"
| "role_of (EvTest a) = after_role a"
| "role_of (EvCall a) = after_role a"
| "role_of (EvLoad n a) = after_role a"
| "role_of (EvStore v n a) = after_role a"
| "role_of (EvLow a) = after_role a"
| "role_of (Publish f k r) = Leader f k None"
| "role_of (Retire f k r) = Leader f k (Some r)"
| "role_of (Waiting f k) = Waiter f k"
| "role_of _ = NoRole"

definition flights_of :: "('i, 'c) system \<Rightarrow> flights" where
  "flights_of s = \<lparr>fl_role = (\<lambda>t. role_of (sy_pcs s t)), fl_inflight = sy_inflight s, fl_done = sy_done s, fl_next = sy_next s\<rparr>"

lemma role_populated [simp]: "role_of (populated a) = after_role a"
  by (cases a) simp_all

lemma role_enter [simp]: "role_of (enter_populate E k b a) = after_role a"
  by (simp add: enter_populate_def)

lemma role_start [simp]: "role_of (start_call c) = NoRole"
  by (cases c) (simp_all add: start_call_def)

lemma flights_of_simps [simp]:
  "fl_role (flights_of s) t = role_of (sy_pcs s t)" "fl_inflight (flights_of s) = sy_inflight s"
  "fl_done (flights_of s) = sy_done s" "fl_next (flights_of s) = sy_next s"
  by (simp_all add: flights_of_def)

lemma flights_of_goto: "flights_of (goto t p s) = (flights_of s)\<lparr>fl_role := (fl_role (flights_of s))(t := role_of p)\<rparr>"
  by (auto simp: flights_of_def goto_def)

lemma flights_of_with_tier [simp]: "flights_of (with_tier ti s) = flights_of s"
  by (simp add: flights_of_def with_tier_def)

text \<open>A thread that keeps its role does not show.\<close>

lemma flights_same: "role_of p = role_of (sy_pcs s t) \<Longrightarrow> flights_of (goto t p s) = flights_of s"
  by (auto simp: flights_of_def goto_def)

lemma sy_pcs_with_tier [simp]: "sy_pcs (with_tier ti s) = sy_pcs s"
  by (simp add: with_tier_def)

lemma sy_pcs_goto [simp]: "sy_pcs (goto t p s) = (sy_pcs s)(t := p)"
  by (simp add: goto_def)

lemma tick_refines:
  assumes "tick E t s = Some s'"
  shows "flights_of s' = flights_of s \<or> flight_step (flights_of s) (flights_of s')"
proof (cases "sy_pcs s t")
  case (Enter k)
  show ?thesis
  proof (cases "sy_inflight s k")
    case None
    with assms Enter have s': "s' = goto t (ReadCache (sy_next s) k)
        (s\<lparr>sy_inflight := (sy_inflight s)(k \<mapsto> sy_next s), sy_next := sy_next s + 1\<rparr>)"
      by (simp add: tick_def step_pc_def)
    have "flights_of s' = (flights_of s)\<lparr>fl_role := (fl_role (flights_of s))(t := Leader (fl_next (flights_of s)) k None),
        fl_inflight := (fl_inflight (flights_of s))(k \<mapsto> fl_next (flights_of s)), fl_next := fl_next (flights_of s) + 1\<rparr>"
      by (auto simp: s' flights_of_def goto_def)
    moreover have "flight_step (flights_of s) \<dots>"
      using Enter None by (intro flight_step.lead) simp_all
    ultimately show ?thesis by simp
  next
    case (Some f)
    with assms Enter have "s' = goto t (Waiting f k) (with_tier (ct_tally CacheCoalesced 1 (sy_tier s)) s)"
      by (simp add: tick_def step_pc_def)
    with Enter Some show ?thesis
      by (auto simp: flights_of_goto intro!: flight_step.join)
  qed
next
  case (Publish f k r)
  with assms have s': "s' = goto t (Retire f k r) (s\<lparr>sy_done := (sy_done s)(f := Some (flight_result r))\<rparr>)"
    by (simp add: tick_def step_pc_def)
  have "flights_of s' = (flights_of s)\<lparr>fl_role := (fl_role (flights_of s))(t := Leader f k (Some r)),
      fl_done := (fl_done (flights_of s))(f \<mapsto> flight_result r)\<rparr>"
    by (auto simp: s' flights_of_def goto_def)
  moreover have "flight_step (flights_of s) \<dots>"
    using Publish by (intro flight_step.publish) simp
  ultimately show ?thesis by simp
next
  case (Retire f k r)
  with assms have s': "s' = goto t (Returned (GotBody k r)) (s\<lparr>sy_inflight := (sy_inflight s)(k := None)\<rparr>)"
    by (simp add: tick_def step_pc_def)
  have "flights_of s' = (flights_of s)\<lparr>fl_role := (fl_role (flights_of s))(t := NoRole),
      fl_inflight := (fl_inflight (flights_of s))(k := None)\<rparr>"
    by (auto simp: s' flights_of_def goto_def)
  moreover have "flight_step (flights_of s) \<dots>"
    using Retire by (intro flight_step.retire) simp
  ultimately show ?thesis by simp
next
  case (Waiting f k)
  with assms obtain d where "sy_done s f = Some d" "s' = goto t (Returned (GotBody k (waiter_result d))) s"
    by (auto simp: tick_def step_pc_def split: option.splits)
  with Waiting show ?thesis
    by (auto simp: flights_of_goto intro!: flight_step.answer)
qed (use assms in \<open>auto simp: tick_def step_pc_def Let_def flights_same split: prod.splits sum.splits if_splits\<close>)

lemma flight_inv_start: "flight_inv (flights_of (system_start t))"
  by (auto simp: flight_inv_def system_start_def)

lemma reach_flight_inv:
  assumes "reach E A (system_start t0) w s"
  shows "flight_inv (flights_of s)"
  using assms
proof (induction rule: reach.induct)
  case reach_start
  show ?case by (rule flight_inv_start)
next
  case (reach_call w s t c)
  then have "flights_of (goto t (start_call c) s) = flights_of s"
    by (auto simp: at_rest_def intro!: flights_same split: pc.splits)
  with reach_call show ?case by simp
next
  case (reach_tick w s t s')
  then show ?case using tick_refines flight_inv_step by metis
qed

section \<open>What concurrent calls answer\<close>

text \<open>
  \<open>G k b\<close>: the body may be answered for the key; \<open>K\<close>: keys that are there all the time. \<open>allowed\<close> is what a get may return.
\<close>

definition allowed :: "(block_key \<Rightarrow> bytes \<Rightarrow> bool) \<Rightarrow> block_key set \<Rightarrow> block_key \<Rightarrow> bytes domain_result \<Rightarrow> bool" where
  "allowed G K k r \<longleftrightarrow> (case r of Inr b \<Rightarrow> G k b | Inl e \<Rightarrow> k \<notin> K)"

fun after_good :: "(block_key \<Rightarrow> bytes \<Rightarrow> bool) \<Rightarrow> after_populate \<Rightarrow> bool" where
  "after_good G (LeadNext f k b) = G k b"
| "after_good G (PutNext k) = True"

fun pc_good :: "(block_key \<Rightarrow> bytes \<Rightarrow> bool) \<Rightarrow> block_key set \<Rightarrow> (nat \<Rightarrow> (string + bytes) option) \<Rightarrow> pc \<Rightarrow> bool" where
  "pc_good G K D (PopPut k b a) = (G k b \<and> after_good G a)"
| "pc_good G K D (PopCount n a) = after_good G a"
| "pc_good G K D (EvTest a) = after_good G a"
| "pc_good G K D (EvCall a) = after_good G a"
| "pc_good G K D (EvLoad n a) = after_good G a"
| "pc_good G K D (EvStore v n a) = after_good G a"
| "pc_good G K D (EvLow a) = after_good G a"
| "pc_good G K D (Publish f k r) = allowed G K k r"
| "pc_good G K D (Retire f k r) = allowed G K k r"
| "pc_good G K D (Waiting f k) = (\<forall>d. D f = Some d \<longrightarrow> allowed G K k (waiter_result d))"
| "pc_good G K D (PutInner k b) = G k b"
| "pc_good G K D (DelInner k) = (k \<notin> K)"
| "pc_good G K D (DelCache k) = (k \<notin> K)"
| "pc_good G K D (Returned (GotBody k r)) = allowed G K k r"
| "pc_good G K D _ = True"

lemma pc_good_populated [simp]: "pc_good G K D (populated a) = after_good G a"
  by (cases a) (simp_all add: allowed_def)

lemma pc_good_enter [simp]: "after_good G a \<Longrightarrow> G k b \<Longrightarrow> pc_good G K D (enter_populate E k b a)"
  by (simp add: enter_populate_def)

lemma allowed_waiter: "allowed G K k r \<Longrightarrow> allowed G K k (waiter_result (flight_result r))"
  by (simp add: allowed_def waiter_result_def flight_result_def split: sum.splits)

lemma after_role_simps [simp]:
  "after_role a = Leader f k None \<longleftrightarrow> (\<exists>b. a = LeadNext f k b)" "after_role a \<noteq> Leader f k (Some r)" "after_role a \<noteq> Waiter f k"
  by (cases a; auto)+

lemma role_retire: "role_of p = Leader f k (Some r) \<Longrightarrow> p = Retire f k r"
  by (cases p) simp_all

lemma tick_others: "tick E t s = Some s' \<Longrightarrow> t' \<noteq> t \<Longrightarrow> sy_pcs s' t' = sy_pcs s t'"
  by (auto simp: tick_def step_pc_def Let_def goto_def with_tier_def split: pc.splits prod.splits sum.splits option.splits if_splits)

text \<open>Without a bound on the bytes no thread ever comes to evict.\<close>

lemma populated_not_evict [simp]: "populated a \<noteq> EvCall a'" "enter_populate E k b a \<noteq> EvCall a'" "start_call c \<noteq> EvCall a'"
proof -
  show p: "populated a \<noteq> EvCall a'" for a by (cases a) simp_all
  show "enter_populate E k b a \<noteq> EvCall a'" using p by (simp add: enter_populate_def)
  show "start_call c \<noteq> EvCall a'" by (cases c) (simp_all add: start_call_def)
qed

lemma tick_evicts: "tick E t s = Some s' \<Longrightarrow> sy_pcs s' t = EvCall a \<Longrightarrow> 0 < cc_max_bytes (ce_cfg E)"
  by (auto simp: tick_def step_pc_def Let_def goto_def with_tier_def split: pc.splits prod.splits sum.splits option.splits if_splits)

lemma reach_evicts: "reach E A (system_start t0) w s \<Longrightarrow> sy_pcs s t = EvCall a \<Longrightarrow> 0 < cc_max_bytes (ce_cfg E)"
proof (induction rule: reach.induct)
  case (reach_tick w s u s')
  then show ?case using tick_evicts [OF reach_tick.hyps(2)] tick_others [OF reach_tick.hyps(2), of t] by (cases "t = u") simp_all
qed (auto simp: system_start_def goto_def split: if_splits)

text \<open>One access to a leg keeps the tier good.\<close>

context cached_store
begin

definition tier_good :: "(block_key \<Rightarrow> bytes \<Rightarrow> bool) \<Rightarrow> block_key set \<Rightarrow> nat \<Rightarrow> ('i, 'c) cache_tier \<Rightarrow> bool" where
  "tier_good G K n t \<longleftrightarrow> tier_ok ok leg_ok V n t \<and> (\<forall>k b. tier_holds H V t k b \<longrightarrow> G k b) \<and> (\<forall>k \<in> K. L (ct_inner t) k)"

lemma tier_goodD:
  assumes "tier_good G K n t"
  shows "ok n (ct_inner t)" "leg_ok n (ct_cache t)" "H (ct_inner t) k b \<Longrightarrow> G k b" "V (ct_cache t) k = Some b \<Longrightarrow> G k b"
    "k \<in> K \<Longrightarrow> L (ct_inner t) k"
  using assms by (simp_all add: tier_good_def tier_ok_def tier_holds_def)

lemma tier_good_fields: "ct_inner t' = ct_inner t \<Longrightarrow> ct_cache t' = ct_cache t \<Longrightarrow> tier_good G K n t' = tier_good G K n t"
  by (simp add: tier_good_def tier_ok_def tier_holds_def)

lemma tier_good_cache:
  assumes t: "tier_good G K m t" and c: "leg_ok n c" "n \<le> m"
    and v: "\<And>k b. V c k = Some b \<Longrightarrow> V (ct_cache t) k = Some b \<or> G k b" and fit: "\<And>k b. G k b \<Longrightarrow> fits k b"
  shows "tier_good G K n (t\<lparr>ct_cache := c\<rparr>)"
  using t c v fit store_mono [of m "ct_inner t" n] unfolding tier_good_def tier_ok_def tier_holds_def by simp blast

lemma tier_good_inner:
  assumes t: "tier_good G K m t" and i: "ok n i" "n \<le> m"
    and h: "\<And>k b. H i k b \<Longrightarrow> H (ct_inner t) k b \<or> G k b" and l: "\<And>k. k \<in> K \<Longrightarrow> L (ct_inner t) k \<Longrightarrow> L i k"
  shows "tier_good G K n (t\<lparr>ct_inner := i\<rparr>)"
  using t i h l leg_mono [of m "ct_cache t" n] unfolding tier_good_def tier_ok_def tier_holds_def by simp blast

lemma cache_get_good:
  assumes t: "tier_good G K n t" and fit: "\<And>k b. G k b \<Longrightarrow> fits k b" and g: "on_cache (\<lambda>c. so_get (ce_ops E) c k) t = (t', r)"
  shows "tier_good G K n t'" "r = Inr b \<Longrightarrow> G k b"
proof -
  obtain c where c: "so_get C (ct_cache t) k = (c, r)" "t' = t\<lparr>ct_cache := c\<rparr>"
    using g by (auto simp: on_cache_def leg_ops split: prod.splits)
  note l = leg_get [OF tier_goodD(2) [OF t], of k, unfolded c(1)]
  then have "leg_ok n c" "V c = V (ct_cache t)" by (cases r; simp)+
  then show "tier_good G K n t'" unfolding c(2) by (intro tier_good_cache [OF t _ _ _ fit]) simp_all
  show "r = Inr b \<Longrightarrow> G k b" using l tier_goodD(4) [OF t] by simp
qed

lemma cache_delete_good:
  assumes t: "tier_good G K n t" and fit: "\<And>k b. G k b \<Longrightarrow> fits k b" and g: "on_cache (\<lambda>c. so_delete (ce_ops E) c k) t = (t', r)"
  shows "tier_good G K n t'"
proof -
  obtain c where c: "so_delete C (ct_cache t) k = (c, r)" "t' = t\<lparr>ct_cache := c\<rparr>"
    using g by (auto simp: on_cache_def leg_ops split: prod.splits)
  note l = leg_delete [OF tier_goodD(2) [OF t], of k, unfolded c(1)]
  then have "leg_ok n c" "\<forall>k b. V c k = Some b \<longrightarrow> V (ct_cache t) k = Some b" by (cases r; auto)+
  then show ?thesis unfolding c(2) by (intro tier_good_cache [OF t _ _ _ fit]) simp_all
qed

lemma cache_put_good:
  assumes t: "tier_good G K (Suc n) t" and fit: "\<And>k b. G k b \<Longrightarrow> fits k b" and b: "G k b"
    and g: "on_cache (\<lambda>c. so_put (ce_ops E) c k b) t = (t', r)"
  shows "tier_good G K n t'"
proof -
  obtain c where c: "so_put C (ct_cache t) k b = (c, r)" "t' = t\<lparr>ct_cache := c\<rparr>"
    using g by (auto simp: on_cache_def leg_ops split: prod.splits)
  note l = leg_put [OF tier_goodD(2) [OF t] fit [OF b], unfolded c(1)]
  then have "leg_ok n c" "\<forall>k' b'. V c k' = Some b' \<longrightarrow> V (ct_cache t) k' = Some b' \<or> G k' b'"
    using b by (cases r; auto split: if_splits)+
  then show ?thesis unfolding c(2) by (intro tier_good_cache [OF t _ _ _ fit]) simp_all
qed

lemma cache_evict_good:
  assumes t: "tier_good G K n t" and fit: "\<And>k b. G k b \<Longrightarrow> fits k b" and g: "on_cache (so_evict_oldest_segment (ce_ops E)) t = (t', r)"
    and ev: "0 < cc_max_bytes (ce_cfg E)"
  shows "tier_good G K n t'"
proof -
  obtain c where c: "so_evict_oldest_segment C (ct_cache t) = (c, r)" "t' = t\<lparr>ct_cache := c\<rparr>"
    using g by (auto simp: on_cache_def leg_ops split: prod.splits)
  note l = leg_evict [OF tier_goodD(2) [OF t] bounded [OF ev], unfolded c(1)]
  then obtain S where "leg_ok n c" "V c = V (ct_cache t) |` S" by (cases r) auto
  then show ?thesis unfolding c(2) by (intro tier_good_cache [OF t _ _ _ fit]) (simp_all add: restrict_map_def split: if_splits)
qed

lemma inner_get_good:
  assumes t: "tier_good G K (Suc n) t" and g: "on_inner (\<lambda>i. bs_get (ce_inner E) i k) t = (t', r)"
  shows "tier_good G K n t'" "allowed G K k r"
proof -
  obtain i where i: "bs_get B (ct_inner t) k = (i, r)" "t' = t\<lparr>ct_inner := i\<rparr>"
    using g by (auto simp: on_inner_def inner_ops split: prod.splits)
  note l = store_get [OF tier_goodD(1) [OF t], of k, unfolded i(1)]
  then have "ok n i" "store_cached H L fine (ct_inner t) i" by (cases r; simp)+
  then show "tier_good G K n t'" unfolding i(2) by (intro tier_good_inner [OF t]) (simp_all add: store_cached_def)
  show "allowed G K k r" using l tier_goodD(3,5) [OF t] by (cases r) (auto simp: allowed_def)
qed

lemma inner_put_good:
  assumes t: "tier_good G K (Suc n) t" and fit: "\<And>k b. G k b \<Longrightarrow> fits k b" and b: "G k b"
    and g: "on_inner (\<lambda>i. bs_put (ce_inner E) i k b) t = (t', r)"
  shows "tier_good G K n t'"
proof -
  obtain i where i: "bs_put B (ct_inner t) k b = (i, r)" "t' = t\<lparr>ct_inner := i\<rparr>"
    using g by (auto simp: on_inner_def inner_ops split: prod.splits)
  note l = store_put [OF tier_goodD(1) [OF t] fit [OF b], unfolded i(1)]
  then have "ok n i" "store_wrote H L fine k b (ct_inner t) i" by (cases r; simp)+
  then show ?thesis unfolding i(2) by (intro tier_good_inner [OF t]) (use b in \<open>auto simp: store_wrote_def\<close>)
qed

lemma inner_delete_good:
  assumes t: "tier_good G K n t" and k: "k \<notin> K" and g: "on_inner (\<lambda>i. bs_delete (ce_inner E) i k) t = (t', r)"
  shows "tier_good G K n t'"
proof -
  obtain i where i: "bs_delete B (ct_inner t) k = (i, r)" "t' = t\<lparr>ct_inner := i\<rparr>"
    using g by (auto simp: on_inner_def inner_ops split: prod.splits)
  note l = store_delete [OF tier_goodD(1) [OF t], of k, unfolded i(1)]
  then have "ok n i" "store_removed H L fine k (ct_inner t) i" by (cases r; simp)+
  then show ?thesis unfolding i(2) by (intro tier_good_inner [OF t]) (use k in \<open>auto simp: store_removed_def\<close>)
qed

lemma tier_good_tally [simp]: "tier_good G K n (ct_tally c m t) = tier_good G K n t"
  by (rule tier_good_fields) simp_all

lemma tier_good_bytes [simp]: "tier_good G K n (t\<lparr>ct_bytes := m\<rparr>) = tier_good G K n t"
  by (rule tier_good_fields) simp_all

definition sys_good :: "(block_key \<Rightarrow> bytes \<Rightarrow> bool) \<Rightarrow> block_key set \<Rightarrow> nat \<Rightarrow> ('i, 'c) system \<Rightarrow> bool" where
  "sys_good G K n s \<longleftrightarrow> tier_good G K n (sy_tier s) \<and> (\<forall>t. pc_good G K (sy_done s) (sy_pcs s t))"

lemma sys_goodD: "sys_good G K n s \<Longrightarrow> tier_good G K n (sy_tier s)" "sys_good G K n s \<Longrightarrow> pc_good G K (sy_done s) (sy_pcs s t)"
  by (simp_all add: sys_good_def)

lemma sys_good_goto:
  assumes "\<forall>t. pc_good G K (sy_done s) (sy_pcs s t)" and "tier_good G K n ti" and "pc_good G K (sy_done s) p"
  shows "sys_good G K n (goto t p (with_tier ti s))"
  using assms by (simp add: sys_good_def goto_def with_tier_def)

lemma sys_good_goto0:
  assumes "sys_good G K n s" and "pc_good G K (sy_done s) p"
  shows "sys_good G K n (goto t p s)"
  using assms by (simp add: sys_good_def goto_def)

text \<open>A thread that meets a flight with a result meets it between its publication and its removal.\<close>

lemma joined_good:
  assumes "sys_good G K n s" and inv: "flight_inv (flights_of s)" and f: "sy_inflight s k = Some f" and d: "sy_done s f = Some d"
  shows "allowed G K k (waiter_result d)"
proof -
  obtain t r where r: "role_of (sy_pcs s t) = Leader f k r" using flight_invD(2) [OF inv, of k f] f by auto
  with flight_invD(4) [OF inv, of t f k r] d obtain r' where "r = Some r'" "d = flight_result r'" by (cases r) auto
  with r have "sy_pcs s t = Retire f k r'" using role_retire by blast
  with assms(1) have "allowed G K k r'" using sys_goodD(2) [of G K n s t] by simp
  then show ?thesis unfolding \<open>d = flight_result r'\<close> by (rule allowed_waiter)
qed

lemma publish_good:
  assumes s: "sys_good G K n s" and inv: "flight_inv (flights_of s)" and p: "sy_pcs s t = Publish f k r"
  shows "sys_good G K n (goto t (Retire f k r) (s\<lparr>sy_done := (sy_done s)(f := Some (flight_result r))\<rparr>))"
proof -
  have ok: "allowed G K k r" using sys_goodD(2) [OF s, of t] p by simp
  have lead: "sy_inflight s k = Some f" "sy_done s f = None"
    using flight_invD(3,4) [OF inv, of t f k None] p by simp_all
  have "pc_good G K ((sy_done s)(f := Some (flight_result r))) (sy_pcs s t')" for t'
  proof (cases "sy_pcs s t'")
    case (Waiting f' k')
    have "allowed G K k' (waiter_result (flight_result r))" if "f' = f"
      using flight_invD(8) [OF inv, of t' f' k'] flight_invD(6) [OF inv, of k f k'] Waiting that lead allowed_waiter [OF ok] by simp
    with sys_goodD(2) [OF s, of t'] Waiting show ?thesis by auto
  next
    case (Returned out)
    then show ?thesis using sys_goodD(2) [OF s, of t'] by (cases out) simp_all
  qed (use sys_goodD(2) [OF s, of t'] in simp_all)
  then show ?thesis using s ok by (simp add: sys_good_def goto_def)
qed

lemma tick_good:
  assumes s: "sys_good G K (n + writes (sy_pcs s t)) s" and inv: "flight_inv (flights_of s)" and step: "tick E t s = Some s'"
    and fit: "\<And>k b. G k b \<Longrightarrow> fits k b" and ev: "\<And>a. sy_pcs s t = EvCall a \<Longrightarrow> 0 < cc_max_bytes (ce_cfg E)"
  shows "sys_good G K n s'"
proof -
  note ti = sys_goodD(1) [OF s] and me = sys_goodD(2) [OF s, of t]
  have all: "\<forall>t. pc_good G K (sy_done s) (sy_pcs s t)" using s by (simp add: sys_good_def)
  note go = sys_good_goto [OF all]
  show ?thesis
  proof (cases "sy_pcs s t")
    case (Enter k)
    with s have s0: "sys_good G K n s" by (simp add: writes_def)
    then show ?thesis using step Enter joined_good [OF s0 inv, of k]
      by (auto simp: tick_def step_pc_def sys_good_def goto_def with_tier_def split: option.splits)
  next
    case (ReadCache f k)
    then have t0: "tier_good G K n (sy_tier s)" using ti by (simp add: writes_def)
    obtain u r where u: "on_cache (\<lambda>c. so_get (ce_ops E) c k) (sy_tier s) = (u, r)" by fastforce
    note g = cache_get_good [OF t0 fit u]
    show ?thesis using step ReadCache u g
      by (auto simp: tick_def step_pc_def allowed_def intro!: go split: sum.splits if_splits)
  next
    case (HealCache f k)
    then have t0: "tier_good G K n (sy_tier s)" using ti by (simp add: writes_def)
    obtain u r where u: "on_cache (\<lambda>c. so_delete (ce_ops E) c k) (sy_tier s) = (u, r)" by fastforce
    show ?thesis using step HealCache u cache_delete_good [OF t0 fit u]
      by (auto simp: tick_def step_pc_def intro!: go)
  next
    case (ReadInner f k)
    then have t0: "tier_good G K (Suc n) (sy_tier s)" using ti by (simp add: writes_def)
    obtain u r where u: "on_inner (\<lambda>i. bs_get (ce_inner E) i k) (sy_tier s) = (u, r)" by fastforce
    note g = inner_get_good [OF t0 u]
    show ?thesis using step ReadInner u g
      by (auto simp: tick_def step_pc_def allowed_def intro!: go pc_good_enter split: sum.splits)
  next
    case (PopPut k b a)
    then have t0: "tier_good G K (Suc n) (sy_tier s)" "G k b" using ti me by (simp_all add: writes_def)
    obtain u r where u: "on_cache (\<lambda>c. so_put (ce_ops E) c k b) (sy_tier s) = (u, r)" by fastforce
    show ?thesis using step PopPut u cache_put_good [OF t0(1) fit t0(2) u] me
      by (auto simp: tick_def step_pc_def intro!: go split: sum.splits)
  next
    case (EvCall a)
    then have t0: "tier_good G K n (sy_tier s)" using ti by (simp add: writes_def)
    obtain u r where u: "on_cache (so_evict_oldest_segment (ce_ops E)) (sy_tier s) = (u, r)" by fastforce
    show ?thesis using step EvCall u cache_evict_good [OF t0 fit u ev [OF EvCall]] me
      by (auto simp: tick_def step_pc_def intro!: go split: sum.splits)
  next
    case (Publish f k r)
    then show ?thesis using step publish_good [OF _ inv Publish, of G K n] s by (simp add: tick_def step_pc_def writes_def)
  next
    case (Retire f k r)
    then show ?thesis using step s me by (auto simp: tick_def step_pc_def writes_def sys_good_def goto_def)
  next
    case (Waiting f k)
    then show ?thesis using step s me
      by (auto simp: tick_def step_pc_def writes_def intro!: sys_good_goto0 split: option.splits)
  next
    case (PutInner k b)
    then have t0: "tier_good G K (Suc n) (sy_tier s)" "G k b" using ti me by (simp_all add: writes_def)
    obtain u r where u: "on_inner (\<lambda>i. bs_put (ce_inner E) i k b) (sy_tier s) = (u, r)" by fastforce
    show ?thesis using step PutInner u inner_put_good [OF t0(1) fit t0(2) u] t0(2)
      by (auto simp: tick_def step_pc_def intro!: go pc_good_enter split: sum.splits)
  next
    case (DelInner k)
    then have t0: "tier_good G K n (sy_tier s)" "k \<notin> K" using ti me by (simp_all add: writes_def)
    obtain u r where u: "on_inner (\<lambda>i. bs_delete (ce_inner E) i k) (sy_tier s) = (u, r)" by fastforce
    show ?thesis using step DelInner u inner_delete_good [OF t0 u] t0(2)
      by (auto simp: tick_def step_pc_def intro!: go split: sum.splits)
  next
    case (DelCache k)
    then have t0: "tier_good G K n (sy_tier s)" using ti by (simp add: writes_def)
    obtain u r where u: "on_cache (\<lambda>c. so_delete (ce_ops E) c k) (sy_tier s) = (u, r)" by fastforce
    show ?thesis using step DelCache u cache_delete_good [OF t0 fit u]
      by (auto simp: tick_def step_pc_def intro!: go)
  next
    case (PopCount m a)
    then show ?thesis using step ti me by (auto simp: tick_def step_pc_def writes_def Let_def intro!: go)
  next
    case (EvStore v m a)
    then show ?thesis using step ti me by (auto simp: tick_def step_pc_def writes_def intro!: go)
  qed (use step s me in \<open>auto simp: tick_def step_pc_def writes_def intro!: sys_good_goto0\<close>)
qed

lemma reach_good:
  assumes "reach E A (system_start t0) w s" and t0: "tier_good G K (w + n) t0"
    and A: "\<And>k b. A (CallPut k b) \<Longrightarrow> G k b" "\<And>k. A (CallDelete k) \<Longrightarrow> k \<notin> K" and fit: "\<And>k b. G k b \<Longrightarrow> fits k b"
  shows "sys_good G K n s"
  using assms(1) t0
proof (induction arbitrary: n rule: reach.induct)
  case reach_start
  then show ?case by (simp add: sys_good_def system_start_def)
next
  case (reach_call w s t c)
  then show ?case using A by (cases c) (auto simp: start_call_def intro!: sys_good_goto0)
next
  case (reach_tick w s t s')
  have "tier_good G K (w + (n + writes (sy_pcs s t))) t0" using reach_tick.prems by (simp add: ac_simps)
  then have "sys_good G K (n + writes (sy_pcs s t)) s" by (rule reach_tick.IH)
  with reach_tick(1,2) reach_flight_inv reach_evicts [OF reach_tick(1)] show ?case by (intro tick_good [OF _ _ reach_tick(2) fit])
qed

lemma concurrent_answers:
  assumes t0: "tier_ok ok leg_ok V w t0" and A: "\<And>k b. A (CallPut k b) \<Longrightarrow> fits k b"
    and reach: "reach E A (system_start t0) w s" and ret: "sy_pcs s t = Returned (GotBody k r)"
  shows "case r of Inr b \<Rightarrow> tier_holds H V t0 k b \<or> A (CallPut k b) | Inl e \<Rightarrow> \<not> L (ct_inner t0) k \<or> A (CallDelete k)"
proof -
  let ?G = "\<lambda>k b. tier_holds H V t0 k b \<or> A (CallPut k b)" and ?K = "{k. L (ct_inner t0) k \<and> \<not> A (CallDelete k)}"
  have "tier_good ?G ?K (w + 0) t0" using t0 by (simp add: tier_good_def)
  then have "sys_good ?G ?K 0 s"
    by (rule reach_good [OF reach]) (use A tier.store_fits [OF t0] in auto)
  from sys_goodD(2) [OF this, of t] ret show ?thesis by (auto simp: allowed_def split: sum.splits)
qed

end

section \<open>A leader gets its answer out\<close>

fun run_alone :: "('i, 'c) cache_env \<Rightarrow> nat \<Rightarrow> nat \<Rightarrow> ('i, 'c) system \<Rightarrow> ('i, 'c) system option" where
  "run_alone E t 0 s = Some s"
| "run_alone E t (Suc n) s = (case tick E t s of None \<Rightarrow> None | Some s' \<Rightarrow> run_alone E t n s')"

definition runs_to :: "('i, 'c) cache_env \<Rightarrow> nat \<Rightarrow> ('i, 'c) system \<Rightarrow> ('i, 'c) system \<Rightarrow> bool" where
  "runs_to E t s s' \<longleftrightarrow> (\<exists>n. run_alone E t n s = Some s')"

lemma runs_to_refl: "runs_to E t s s"
  unfolding runs_to_def by (rule exI [of _ 0]) simp

lemma runs_to_step:
  assumes "tick E t s = Some s1" and "runs_to E t s1 s'"
  shows "runs_to E t s s'"
proof -
  obtain n where "run_alone E t n s1 = Some s'" using assms(2) by (auto simp: runs_to_def)
  then have "run_alone E t (Suc n) s = Some s'" using assms(1) by simp
  then show ?thesis unfolding runs_to_def by blast
qed

lemma run_alone_others: "run_alone E t n s = Some s' \<Longrightarrow> t' \<noteq> t \<Longrightarrow> sy_pcs s' t' = sy_pcs s t'"
  by (induction n arbitrary: s) (auto simp: tick_others split: option.splits)

text \<open>The steps of an eviction, and what is left of it as a number.\<close>

fun ev_after :: "pc \<Rightarrow> after_populate option" where
  "ev_after (EvTest a) = Some a"
| "ev_after (EvCall a) = Some a"
| "ev_after (EvLoad n a) = Some a"
| "ev_after (EvStore v n a) = Some a"
| "ev_after (EvLow a) = Some a"
| "ev_after _ = None"

definition low_rank :: "('i, 'c) cache_env \<Rightarrow> nat \<Rightarrow> nat" where
  "low_rank E v = (if v \<le> low_water (ce_cfg E) then 1 else 6 * v + 6)"

fun ev_rank :: "('i, 'c) cache_env \<Rightarrow> nat \<Rightarrow> pc \<Rightarrow> nat" where
  "ev_rank E b (EvTest a) = 6 * b + 5"
| "ev_rank E b (EvCall a) = 6 * b + 4"
| "ev_rank E b (EvLoad n a) = low_rank E (b - n) + 2"
| "ev_rank E b (EvStore v n a) = low_rank E v + 1"
| "ev_rank E b (EvLow a) = low_rank E b"
| "ev_rank E b p = 0"

lemma ev_step:
  assumes "ev_after (sy_pcs s t) = Some a"
  shows "\<exists>s1. tick E t s = Some s1 \<and> (sy_pcs s1 t = populated a \<or>
    ev_after (sy_pcs s1 t) = Some a \<and> ev_rank E (ct_bytes (sy_tier s1)) (sy_pcs s1 t) < ev_rank E (ct_bytes (sy_tier s)) (sy_pcs s t))"
proof (cases "sy_pcs s t")
  case (EvCall a')
  then have a: "a' = a" using assms by simp
  obtain c r where c: "so_evict_oldest_segment (ce_ops E) (ct_cache (sy_tier s)) = (c, r)" by fastforce
  have less: "low_rank E (ct_bytes (sy_tier s) - freed) + 2 < 6 * ct_bytes (sy_tier s) + 4" if "0 < freed" for freed
    using that by (auto simp: low_rank_def)
  show ?thesis using EvCall a less
    by (cases r) (auto simp: tick_def step_pc_def on_cache_def c goto_def with_tier_def)
qed (use assms in \<open>auto simp: tick_def step_pc_def goto_def with_tier_def ct_tally_def low_rank_def\<close>)

lemma ev_runs:
  assumes "ev_after (sy_pcs s t) = Some a"
  shows "\<exists>s'. runs_to E t s s' \<and> sy_pcs s' t = populated a"
  using assms
proof (induction "ev_rank E (ct_bytes (sy_tier s)) (sy_pcs s t)" arbitrary: s rule: less_induct)
  case less
  from ev_step [OF less.prems, of E] obtain s1 where s1: "tick E t s = Some s1" "sy_pcs s1 t = populated a \<or>
    ev_after (sy_pcs s1 t) = Some a \<and> ev_rank E (ct_bytes (sy_tier s1)) (sy_pcs s1 t) < ev_rank E (ct_bytes (sy_tier s)) (sy_pcs s t)"
    by blast
  show ?case
  proof (cases "sy_pcs s1 t = populated a")
    case True
    then show ?thesis using runs_to_step [OF s1(1) runs_to_refl] by blast
  next
    case False
    with s1(2) less.hyps [of s1] show ?thesis using runs_to_step [OF s1(1)] by blast
  qed
qed

text \<open>A populate comes to its end, whatever the leg answers.\<close>

definition populating :: "pc \<Rightarrow> after_populate \<Rightarrow> bool" where
  "populating p a \<longleftrightarrow> (\<exists>k b. p = PopPut k b a) \<or> (\<exists>n. p = PopCount n a) \<or> ev_after p = Some a \<or> p = populated a"

lemma populating_simps [simp]:
  "populating (PopPut k b a) a" "populating (PopCount n a) a" "populating (EvTest a) a" "populating (EvCall a) a" "populating (EvLoad n a) a"
  "populating (EvStore v n a) a" "populating (EvLow a) a" "populating (populated a) a"
  by (simp_all add: populating_def)

lemma role_leading:
  "role_of p = Leader f k None \<Longrightarrow> p = ReadCache f k \<or> p = HealCache f k \<or> p = ReadInner f k \<or> (\<exists>r. p = Publish f k r) \<or> (\<exists>b. populating p (LeadNext f k b))"
  by (cases p) (auto intro: populating_simps)

lemma populate_runs:
  assumes "populating (sy_pcs s t) a"
  shows "\<exists>s'. runs_to E t s s' \<and> sy_pcs s' t = populated a"
proof -
  have count: "\<exists>s'. runs_to E t s s' \<and> sy_pcs s' t = populated a" if p: "sy_pcs s t = PopCount n a" for s n
  proof -
    obtain s1 where s1: "tick E t s = Some s1" "ev_after (sy_pcs s1 t) = Some a"
      using p by (auto simp: tick_def step_pc_def Let_def)
    from ev_runs [OF s1(2)] runs_to_step [OF s1(1)] show ?thesis by blast
  qed
  have put: "\<exists>s'. runs_to E t s s' \<and> sy_pcs s' t = populated a" if "sy_pcs s t = PopPut k b a" for s k b
  proof -
    obtain c r where c: "on_cache (\<lambda>c. so_put (ce_ops E) c k b) (sy_tier s) = (c, r)" by fastforce
    show ?thesis
    proof (cases r)
      case (Inl e)
      then have "tick E t s = Some (goto t (populated a) (with_tier c s))" using that c by (simp add: tick_def step_pc_def)
      from runs_to_step [OF this runs_to_refl] show ?thesis by auto
    next
      case (Inr u)
      then have t: "tick E t s = Some (goto t (PopCount (length b) a) (with_tier c s))" using that c by (simp add: tick_def step_pc_def)
      from count [of "goto t (PopCount (length b) a) (with_tier c s)"] runs_to_step [OF t] show ?thesis by auto
    qed
  qed
  from assms show ?thesis using put count ev_runs runs_to_refl unfolding populating_def by blast
qed

lemma runs_to_trans:
  assumes "runs_to E t s s1" and "runs_to E t s1 s2"
  shows "runs_to E t s s2"
proof -
  obtain n where "run_alone E t n s = Some s1" using assms(1) by (auto simp: runs_to_def)
  then show ?thesis using assms(2)
    by (induction n arbitrary: s) (auto split: option.splits intro: runs_to_step)
qed

lemma leader_publishes:
  assumes "role_of (sy_pcs s t) = Leader f k None"
  shows "\<exists>s' r. runs_to E t s s' \<and> sy_pcs s' t = Publish f k r"
proof -
  let ?P = "\<lambda>s. \<exists>s' r. runs_to E t s s' \<and> sy_pcs s' t = Publish f k r"
  have pop: "?P s" if "populating (sy_pcs s t) (LeadNext f k b)" for s b
    using populate_runs [OF that, of E] by auto
  have inner: "?P s" if "sy_pcs s t = ReadInner f k" for s
  proof -
    obtain i r where i: "on_inner (\<lambda>i. bs_get (ce_inner E) i k) (sy_tier s) = (i, r)" by fastforce
    show ?thesis
    proof (cases r)
      case (Inl e)
      then have "tick E t s = Some (goto t (Publish f k (Inl e)) (with_tier i s))" using that i by (simp add: tick_def step_pc_def)
      from runs_to_step [OF this runs_to_refl] show ?thesis by auto
    next
      case (Inr v)
      then have "tick E t s = Some (goto t (enter_populate E k v (LeadNext f k v)) (with_tier i s))" using that i by (simp add: tick_def step_pc_def)
      moreover have "?P (goto t (enter_populate E k v (LeadNext f k v)) (with_tier i s))" by (rule pop [of _ v]) (simp add: enter_populate_def populating_def)
      ultimately show ?thesis using runs_to_step by blast
    qed
  qed
  have heal: "?P s" if p: "sy_pcs s t = HealCache f k" for s
  proof -
    obtain s1 where s1: "tick E t s = Some s1" "sy_pcs s1 t = ReadInner f k"
      using p by (cases "on_cache (\<lambda>c. so_delete (ce_ops E) c k) (sy_tier s)") (auto simp: tick_def step_pc_def)
    from inner [OF s1(2)] runs_to_step [OF s1(1)] show ?thesis by blast
  qed
  have cache: "?P s" if p: "sy_pcs s t = ReadCache f k" for s
  proof -
    obtain c r where c: "on_cache (\<lambda>c. so_get (ce_ops E) c k) (sy_tier s) = (c, r)" by fastforce
    have "\<exists>s1. tick E t s = Some s1 \<and> (sy_pcs s1 t = ReadInner f k \<or> sy_pcs s1 t = HealCache f k \<or> (\<exists>r. sy_pcs s1 t = Publish f k r))"
      using p c by (cases r) (simp_all add: tick_def step_pc_def)
    then obtain s1 where s1: "tick E t s = Some s1"
      "sy_pcs s1 t = ReadInner f k \<or> sy_pcs s1 t = HealCache f k \<or> (\<exists>r. sy_pcs s1 t = Publish f k r)" by blast
    then have "?P s1" using inner heal runs_to_refl by blast
    with runs_to_step [OF s1(1)] show ?thesis by blast
  qed
  from role_leading [OF assms] show ?thesis using cache heal inner pop runs_to_refl by blast
qed

section \<open>How much a thread writes\<close>

text \<open>A get or a put writes at most once to each leg.\<close>

fun to_write :: "pc \<Rightarrow> nat" where
  "to_write (Enter k) = 2"
| "to_write (ReadCache f k) = 2"
| "to_write (HealCache f k) = 2"
| "to_write (ReadInner f k) = 2"
| "to_write (PutInner k b) = 2"
| "to_write (PopPut k b a) = 1"
| "to_write _ = 0"

lemma to_write_populated [simp]: "to_write (populated a) = 0"
  by (cases a) simp_all

lemma to_write_enter: "to_write (enter_populate E k b a) \<le> 1"
  by (simp add: enter_populate_def)

lemma tick_writes: "tick E t s = Some s' \<Longrightarrow> writes (sy_pcs s t) + to_write (sy_pcs s' t) \<le> to_write (sy_pcs s t)"
  using to_write_enter [of E]
  by (cases "sy_pcs s t") (auto simp: tick_def step_pc_def writes_def Let_def split: option.splits prod.splits sum.splits)

lemma reach_alone:
  assumes "run_alone E t n s = Some s'" and "reach E A s0 w s"
  shows "\<exists>w'. reach E A s0 w' s' \<and> w' + to_write (sy_pcs s' t) \<le> w + to_write (sy_pcs s t)"
  using assms
proof (induction n arbitrary: s w)
  case 0
  then show ?case by auto
next
  case (Suc n)
  then obtain s1 where s1: "tick E t s = Some s1" "run_alone E t n s1 = Some s'" by (auto split: option.splits)
  from Suc.IH [OF s1(2) reach_tick [OF Suc.prems(2) s1(1)]] tick_writes [OF s1(1)] show ?case by force
qed

lemma get_alone:
  assumes "sy_pcs s t = Enter k" and "sy_inflight s k = None"
  shows "\<exists>s' r. runs_to E t s s' \<and> sy_pcs s' t = Returned (GotBody k r)"
proof -
  obtain s1 where s1: "tick E t s = Some s1" "sy_pcs s1 t = ReadCache (sy_next s) k"
    using assms by (auto simp: tick_def step_pc_def)
  have "role_of (sy_pcs s1 t) = Leader (sy_next s) k None" by (simp add: s1)
  from leader_publishes [OF this, of E] obtain s2 r where s2: "runs_to E t s1 s2" "sy_pcs s2 t = Publish (sy_next s) k r" by blast
  obtain s3 where s3: "tick E t s2 = Some s3" "sy_pcs s3 t = Retire (sy_next s) k r" using s2(2) by (auto simp: tick_def step_pc_def)
  obtain s4 where s4: "tick E t s3 = Some s4" "sy_pcs s4 t = Returned (GotBody k r)" using s3(2) by (auto simp: tick_def step_pc_def)
  from runs_to_trans [OF runs_to_step [OF s1(1) s2(1)] runs_to_step [OF s3(1) runs_to_step [OF s4(1) runs_to_refl]]] s4(2)
  show ?thesis by blast
qed

section \<open>Flights are answered\<close>

lemma leader_unique:
  assumes "reach E A (system_start t0) w s" and "role_of (sy_pcs s t) = Leader f k r" and "role_of (sy_pcs s t') = Leader f' k r'"
  shows "t = t'"
  using flight_invD(5) [OF reach_flight_inv [OF assms(1)], of t f k r t' f' r'] assms(2,3) by simp

lemma waiter_has_leader:
  assumes r: "reach E A (system_start t0) w s" and p: "sy_pcs s t = Waiting f k" and d: "sy_done s f = None"
  shows "\<exists>t'. t' \<noteq> t \<and> role_of (sy_pcs s t') = Leader f k None"
proof -
  note inv = reach_flight_inv [OF r]
  have "sy_inflight s k = Some f" using flight_invD(8) [OF inv, of t f k] p d by simp
  then obtain t' r' where l: "role_of (sy_pcs s t') = Leader f k r'" using flight_invD(2) [OF inv, of k f] by auto
  with flight_invD(4) [OF inv, of t' f k r'] d have "r' = None" by simp
  moreover from l p have "t' \<noteq> t" by auto
  ultimately show ?thesis using l by blast
qed

lemma leader_answers:
  assumes l: "role_of (sy_pcs s t') = Leader f k None" and p: "sy_pcs s t = Waiting f k"
  shows "\<exists>n s' r. run_alone E t' n s = Some s' \<and> sy_done s' f = Some (flight_result r) \<and> sy_pcs s' t = Waiting f k \<and>
    map_option (\<lambda>s. sy_pcs s t) (tick E t s') = Some (Returned (GotBody k (waiter_result (flight_result r))))"
proof -
  obtain s1 r where s1: "runs_to E t' s s1" "sy_pcs s1 t' = Publish f k r" using leader_publishes [OF l] by blast
  obtain s2 where s2: "tick E t' s1 = Some s2" "sy_done s2 f = Some (flight_result r)"
    using s1(2) by (auto simp: tick_def step_pc_def goto_def)
  obtain n where n: "run_alone E t' n s = Some s2" using runs_to_trans [OF s1(1) runs_to_step [OF s2(1) runs_to_refl]] by (auto simp: runs_to_def)
  have "t \<noteq> t'" using l p by auto
  then have "sy_pcs s2 t = Waiting f k" using run_alone_others [OF n] p by simp
  with n s2(2) show ?thesis by (intro exI [of _ n] exI [of _ s2] exI [of _ r]) (simp add: tick_def step_pc_def)
qed

end
