(* ===== verification/Pool_Repair_Thms.thy ===== *)
theory Pool_Repair_Thms
  imports Pool_Repair_Laws Pool_Thms
begin

text \<open>
  Repair and resilver of a mirrored pool over disk engines.
\<close>

lemma mirror_repaired:
  assumes "engine_laws EE" and "disk_pool EE pol xxh3 PE" and "mirror_cfg (pe_cfg PE)" and "pool_ok (engine_ok EE) (length (po_shards p)) p"
    and "all_fit (views (view EE) p)" and "repair_key PE k p = (p', r)"
  shows "let desired = set (snd (replicas_for PE k p)) in
    \<exists>S d. S \<subseteq> desired \<and> views (view EE) p' = write_at S k d (views (view EE) p) \<and>
      (S \<noteq> {} \<longrightarrow> (\<exists>j < length (po_shards p). (views (view EE) p ! j) k = Some d)) \<and>
      (\<forall>i \<in> S. (views (view EE) p ! i) k \<noteq> None \<longrightarrow> \<not> engine_fine (po_shards p ! i)) \<and>
      (case r of
         Inr (n, l) \<Rightarrow> n = card S \<and> (\<forall>i \<in> desired. engine_fine (po_shards p ! i) \<longrightarrow> (views (view EE) p' ! i) k \<noteq> None) \<and>
           (if l = 0 then \<forall>i \<in> desired. (views (view EE) p' ! i) k \<noteq> None else \<exists>i \<in> desired. \<not> engine_fine (po_shards p ! i))
       | Inl e \<Rightarrow> S = {} \<and> (\<forall>i < length (po_shards p). engine_fine (po_shards p ! i) \<longrightarrow> (views (view EE) p ! i) k = None))"
proof -
  note laws = disk_pool_laws [OF assms(1,2)]
  obtain p0 desired where rep: "replicas_for PE k p = (p0, desired)" by fastforce
  have "repair_key_mirror PE k None p = (p', r)" using assms(3,6) by (simp add: repair_key_def mirror_cfg_def)
  from pool_laws.repair_key_mirror_step [OF laws assms(4,5) this rep] obtain S d where
    S: "pool_step (engine_ok EE) (view EE) engine_fine (length (po_shards p)) (write_at S k d (views (view EE) p)) p p'"
    "S \<noteq> {} \<longrightarrow> held_by (view EE) p {0..<length (po_shards p)} k d" "S \<subseteq> set desired"
    "\<forall>i \<in> S. (views (view EE) p ! i) k \<noteq> None \<longrightarrow> \<not> engine_fine (po_shards p ! i)"
    "case r of
       Inr (n, l) \<Rightarrow> n = card S \<and> (if l = 0 then \<forall>i \<in> set desired. (views (view EE) p' ! i) k \<noteq> None
           else \<exists>i \<in> set desired. \<not> engine_fine (po_shards p ! i)) \<and>
         (\<forall>i \<in> set desired. engine_fine (po_shards p ! i) \<longrightarrow> (views (view EE) p' ! i) k \<noteq> None)
     | Inl e \<Rightarrow> S = {} \<and> \<not> sure (view EE) engine_fine p {0..<length (po_shards p)} k" by (elim exE conjE) (rule that)
  show ?thesis unfolding Let_def rep snd_conv
    by (intro exI [of _ S] exI [of _ d] conjI)
      (use S pool_step_views [OF S(1)] in \<open>auto simp: held_by_def sure_def split: sum.splits prod.splits\<close>)
qed

text \<open>C8: repair of a mirrored key. Every desired shard without a fault holds the key afterwards, unless the repair fails, which it does only when no
  fault-free shard holds the key, and then it changes nothing. It copies one body, which some shard holds, to desired shards alone, and never
  to a fault-free shard that has the key (a shard whose read fails is taken for one without it and may be overwritten). The first number it
  reports is the copies made, and a zero for the rest means that every desired shard holds the key, while a positive one betrays a fault.\<close>

theorem repair_restores:
  assumes "engine_laws EE" and "disk_pool EE pol xxh3 PE" and "mirror_cfg (pe_cfg PE)" and "pool_ok (engine_ok EE) (length (po_shards p)) p"
    and "all_fit (views (view EE) p)" and "repair_key PE k p = (p', r)"
  shows "let desired = set (snd (replicas_for PE k p)) in
    \<exists>S d. S \<subseteq> desired \<and> views (view EE) p' = write_at S k d (views (view EE) p) \<and>
      (S \<noteq> {} \<longrightarrow> (\<exists>j < length (po_shards p). (views (view EE) p ! j) k = Some d)) \<and>
      (\<forall>i \<in> S. (views (view EE) p ! i) k \<noteq> None \<longrightarrow> \<not> engine_fine (po_shards p ! i)) \<and>
      (case r of
         Inr (n, l) \<Rightarrow> n = card S \<and> (\<forall>i \<in> desired. engine_fine (po_shards p ! i) \<longrightarrow> (views (view EE) p' ! i) k \<noteq> None) \<and>
           (if l = 0 then \<forall>i \<in> desired. (views (view EE) p' ! i) k \<noteq> None else \<exists>i \<in> desired. \<not> engine_fine (po_shards p ! i))
       | Inl e \<Rightarrow> S = {} \<and> (\<forall>i < length (po_shards p). engine_fine (po_shards p ! i) \<longrightarrow> (views (view EE) p ! i) k = None))"
  using assms by (rule mirror_repaired)


section \<open>A pool with one copy\<close>

text \<open>The sample pool after puts that reached shard 0 only: one body, or two.\<close>

definition pool_on :: "((bytes \<times> bytes) list, (bytes \<times> u64) list) engine \<Rightarrow> ((bytes \<times> bytes) list, (bytes \<times> u64) list) engine pool" where
  "pool_on e = ref_pool\<lparr>po_shards := [e, fresh_engine, fresh_engine]\<rparr>"

definition pool_with :: "block_key \<Rightarrow> bytes \<Rightarrow> ((bytes \<times> bytes) list, (bytes \<times> u64) list) engine pool" where
  "pool_with k b = pool_on (engine_with k b)"

definition pool_pair :: "block_key \<Rightarrow> bytes \<Rightarrow> block_key \<Rightarrow> bytes \<Rightarrow> ((bytes \<times> bytes) list, (bytes \<times> u64) list) engine pool" where
  "pool_pair k b k' b' = pool_on (engine_pair k b k' b')"

lemma pool_on:
  assumes "engine_ok ref_env m e" and "m \<le> 400" and "engine_fine e" and "\<And>k b. view ref_env e k = Some b \<Longrightarrow> fits k b"
  shows "length (po_shards (pool_on e)) = 3" "views (view ref_env) (pool_on e) = [view ref_env e, Map.empty, Map.empty]"
    "n \<le> m \<Longrightarrow> pool_ok (engine_ok ref_env) n (pool_on e)" "i < 3 \<Longrightarrow> engine_fine (po_shards (pool_on e) ! i)"
    "all_fit (views (view ref_env) (pool_on e))" "pool_keys (views (view ref_env) (pool_on e)) = dom (view ref_env e)"
    "snd (replicas_for ref_pool_env k' (pool_on e)) = snd (replicas_for ref_pool_env k' ref_pool)"
proof -
  show v: "views (view ref_env) (pool_on e) = [view ref_env e, Map.empty, Map.empty]"
    by (simp add: views_def pool_on_def fresh_engine_view)
  show "n \<le> m \<Longrightarrow> pool_ok (engine_ok ref_env) n (pool_on e)"
    using ref_env.disk.port_mono [OF assms(1)] fresh_engine_inv assms(2)
    by (auto simp: pool_ok_def pool_on_def ref_pool_fields topo_ok_def sample_shards_def engine_ok_def room_def less_Suc_eq nth_Cons' upt_rec)
  show "i < 3 \<Longrightarrow> engine_fine (po_shards (pool_on e) ! i)"
    using assms(3) fresh_engine_fine by (auto simp: pool_on_def nth_Cons')
  show "all_fit (views (view ref_env) (pool_on e))" "pool_keys (views (view ref_env) (pool_on e)) = dom (view ref_env e)"
    unfolding v using assms(4) by (auto simp: all_fit_def pool_keys_def nth_Cons' lessThan_Suc numeral_3_eq_3 split: if_splits)
  show "length (po_shards (pool_on e)) = 3" by (simp add: pool_on_def)
  show "snd (replicas_for ref_pool_env k' (pool_on e)) = snd (replicas_for ref_pool_env k' ref_pool)"
    by (simp add: replicas_for_def ranking_for_def pool_topology_def pool_on_def ref_pool_fields ref_pool_env_def pool_config_default_def)
qed

lemma pool_with:
  assumes "fits k b"
  shows "length (po_shards (pool_with k b)) = 3" "views (view ref_env) (pool_with k b) = [[k \<mapsto> b], Map.empty, Map.empty]"
    "n \<le> 400 \<Longrightarrow> pool_ok (engine_ok ref_env) n (pool_with k b)" "i < 3 \<Longrightarrow> engine_fine (po_shards (pool_with k b) ! i)"
    "all_fit (views (view ref_env) (pool_with k b))" "pool_keys (views (view ref_env) (pool_with k b)) = {k}"
    "snd (replicas_for ref_pool_env k' (pool_with k b)) = snd (replicas_for ref_pool_env k' ref_pool)"
proof -
  have f: "fits k' b'" if "view ref_env (engine_with k b) k' = Some b'" for k' b'
    using that assms by (simp add: engine_with(2) [OF assms] split: if_splits)
  note p = pool_on [OF engine_with(1) [OF assms] order_refl engine_with(3) [OF assms] f, folded pool_with_def]
  show "length (po_shards (pool_with k b)) = 3" by (rule p(1))
  show "n \<le> 400 \<Longrightarrow> pool_ok (engine_ok ref_env) n (pool_with k b)" by (rule p(3))
  show "i < 3 \<Longrightarrow> engine_fine (po_shards (pool_with k b) ! i)" by (rule p(4))
  show "all_fit (views (view ref_env) (pool_with k b))" by (rule p(5))
  show "snd (replicas_for ref_pool_env k' (pool_with k b)) = snd (replicas_for ref_pool_env k' ref_pool)" by (rule p(7))
  have v: "views (view ref_env) (pool_with k b) = [view ref_env (engine_with k b), Map.empty, Map.empty]" by (rule p(2))
  then show "views (view ref_env) (pool_with k b) = [[k \<mapsto> b], Map.empty, Map.empty]" unfolding engine_with(2) [OF assms] .
  have "pool_keys (views (view ref_env) (pool_with k b)) = dom (view ref_env (engine_with k b))" by (rule p(6))
  then show "pool_keys (views (view ref_env) (pool_with k b)) = {k}" unfolding engine_with(2) [OF assms] by simp
qed

lemma pool_pair:
  assumes "fits k b" and "fits k' b'"
  shows "length (po_shards (pool_pair k b k' b')) = 3" "views (view ref_env) (pool_pair k b k' b') = [[k \<mapsto> b, k' \<mapsto> b'], Map.empty, Map.empty]"
    "n \<le> 399 \<Longrightarrow> pool_ok (engine_ok ref_env) n (pool_pair k b k' b')" "i < 3 \<Longrightarrow> engine_fine (po_shards (pool_pair k b k' b') ! i)"
proof -
  have f: "fits c d" if "view ref_env (engine_pair k b k' b') c = Some d" for c d
    using that assms by (simp add: engine_pair(2) [OF assms] split: if_splits)
  have le: "(399 :: nat) \<le> 400" by simp
  note p = pool_on [OF engine_pair(1) [OF assms] le engine_pair(3) [OF assms] f, folded pool_pair_def]
  show "length (po_shards (pool_pair k b k' b')) = 3" by (rule p(1))
  show "n \<le> 399 \<Longrightarrow> pool_ok (engine_ok ref_env) n (pool_pair k b k' b')" by (rule p(3))
  show "i < 3 \<Longrightarrow> engine_fine (po_shards (pool_pair k b k' b') ! i)" by (rule p(4))
  have "views (view ref_env) (pool_pair k b k' b') = [view ref_env (engine_pair k b k' b'), Map.empty, Map.empty]" by (rule p(2))
  then show "views (view ref_env) (pool_pair k b k' b') = [[k \<mapsto> b, k' \<mapsto> b'], Map.empty, Map.empty]" unfolding engine_pair(2) [OF assms] .
qed

text \<open>The sample with the body \<open>[1, 2, 3]\<close> under the key \<open>[7]\<close>.\<close>

definition lone_engine :: "((bytes \<times> bytes) list, (bytes \<times> u64) list) engine" where
  "lone_engine = engine_with [7] [1, 2, 3]"

definition lone_pool :: "((bytes \<times> bytes) list, (bytes \<times> u64) list) engine pool" where
  "lone_pool = pool_with [7] [1, 2, 3]"

lemma lone_fits: "fits [7] [1, 2, 3]"
  by (simp add: fits_def)

lemmas lone_engine = engine_with [OF lone_fits, folded lone_engine_def]
lemmas lone_pool = pool_with [OF lone_fits, folded lone_pool_def]

theorem repair_restores_witness:
  "\<exists>q n. repair_key ref_pool_env [7] lone_pool = (q, Inr (n, 0)) \<and>
     list_all (\<lambda>i. (views (view ref_env) q ! i) [7] \<noteq> None) (snd (replicas_for ref_pool_env [7] lone_pool))"
proof -
  obtain q r where g: "repair_key ref_pool_env [7] lone_pool = (q, r)" by fastforce
  have fine: "engine_fine (po_shards lone_pool ! i)" if "i \<in> set (snd (replicas_for ref_pool_env [7] lone_pool))" for i
    using that lone_pool(4) ref_pool_reps(2) [of "[7]"] by (auto simp: lone_pool(7))
  from repair_restores [OF ref_env.engine_laws_axioms ref_disk_pool ref_pool_fields(5) lone_pool(3) lone_pool(5) g]
  show ?thesis using fine lone_pool(4) [of 0] g
    by (cases r) (auto simp: lone_pool(1,2) Let_def list_all_iff dest: spec [of _ 0] split: if_splits)
qed



end
