(* ===== verification/Pool_Ec_Put_Laws.thy ===== *)
theory Pool_Ec_Put_Laws
  imports Pool_Get_Laws
begin

text \<open>
  What an erasure-coded write does to the shards: the pieces land on distinct shards, each piece at most once, on its own
  target or on a spare shard, and the quorum counts the pieces that landed.
\<close>

section \<open>Placements of pieces\<close>

text \<open>A placement maps shards to the ranks of the pieces they received.\<close>

definition place_at :: "bytes list \<Rightarrow> (nat \<rightharpoonup> nat) \<Rightarrow> block_key \<Rightarrow> (block_key \<rightharpoonup> bytes) list \<Rightarrow> (block_key \<rightharpoonup> bytes) list" where
  "place_at pieces f k vs = map (\<lambda>i. case f i of Some r \<Rightarrow> (vs ! i)(k \<mapsto> pieces ! r) | None \<Rightarrow> vs ! i) [0..<length vs]"

lemma length_place_at [simp]: "length (place_at pieces f k vs) = length vs"
  by (simp add: place_at_def)

lemma nth_place_at [simp]:
  "i < length vs \<Longrightarrow> place_at pieces f k vs ! i = (case f i of Some r \<Rightarrow> (vs ! i)(k \<mapsto> pieces ! r) | None \<Rightarrow> vs ! i)"
  by (simp add: place_at_def split: option.split)

lemma place_at_empty [simp]: "place_at pieces Map.empty k vs = vs"
  by (rule nth_equalityI) simp_all

lemma place_at_single: "i < length vs \<Longrightarrow> vs[i := (vs ! i)(k \<mapsto> pieces ! r)] = place_at pieces [i \<mapsto> r] k vs"
  by (rule nth_equalityI) (auto simp: nth_list_update)

lemma place_at_add [simp]: "place_at pieces g k (place_at pieces f k vs) = place_at pieces (f ++ g) k vs"
  by (rule nth_equalityI) (auto simp: map_add_def split: option.split)

text \<open>A placement that uses no rank twice, from a set of shards to a set of ranks.\<close>

definition placement :: "(nat \<rightharpoonup> nat) \<Rightarrow> nat set \<Rightarrow> nat set \<Rightarrow> bool" where
  "placement f S R \<longleftrightarrow> dom f \<subseteq> S \<and> ran f \<subseteq> R \<and> inj_on f (dom f)"

lemma placement_empty [simp]: "placement Map.empty S R"
  by (simp add: placement_def)

lemma placement_mono: "placement f S R \<Longrightarrow> S \<subseteq> S' \<Longrightarrow> R \<subseteq> R' \<Longrightarrow> placement f S' R'"
  by (auto simp: placement_def)

lemma placement_single: "i \<in> S \<Longrightarrow> r \<in> R \<Longrightarrow> placement [i \<mapsto> r] S R"
  by (simp add: placement_def)

lemma placement_add:
  assumes "placement f S R" and "placement g S' R'" and "S \<inter> S' = {}" and "ran f \<inter> R' = {}" and "finite S" and "finite S'"
  shows "placement (f ++ g) (S \<union> S') (R \<union> R')" "card (dom (f ++ g)) = card (dom f) + card (dom g)"
proof -
  have d: "dom f \<inter> dom g = {}" using assms(1-3) by (auto simp: placement_def)
  have r: "ran f \<inter> ran g = {}" using assms(2,4) by (auto simp: placement_def)
  have inj: "x = y" if "(f ++ g) x = Some z" "(f ++ g) y = Some z" for x y z
  proof -
    have "x \<in> dom f \<longrightarrow> g x = None" "y \<in> dom f \<longrightarrow> g y = None" using d by auto
    then have "(f x = Some z \<and> f y = Some z) \<or> (g x = Some z \<and> g y = Some z)"
      using that r by (auto simp: map_add_Some_iff ran_def)
    then show ?thesis using assms(1,2) unfolding placement_def inj_on_def by (metis domI)
  qed
  have ran: "ran (f ++ g) = ran f \<union> ran g" using ran_map_add [OF d] by simp
  show "placement (f ++ g) (S \<union> S') (R \<union> R')"
    unfolding placement_def
  proof (intro conjI)
    show "dom (f ++ g) \<subseteq> S \<union> S'" using assms(1,2) by (auto simp: placement_def)
    show "ran (f ++ g) \<subseteq> R \<union> R'" using assms(1,2) by (auto simp: ran placement_def)
    show "inj_on (f ++ g) (dom (f ++ g))" by (rule inj_onI) (metis domD inj)
  qed
  have "finite (dom f)" "finite (dom g)" using assms(1,2,5,6) by (auto simp: placement_def intro: finite_subset)
  then show "card (dom (f ++ g)) = card (dom f) + card (dom g)" using d by (simp add: card_Un_disjoint Un_commute Int_commute)
qed

lemma placement_ranks: "placement f S R \<Longrightarrow> finite S \<Longrightarrow> card (ran f) = card (dom f)"
proof -
  assume p: "placement f S R" "finite S"
  have "ran f = (\<lambda>i. the (f i)) ` dom f" by (auto simp: ran_def dom_def image_iff) (metis option.sel)+
  moreover have "inj_on (\<lambda>i. the (f i)) (dom f)" using p(1) by (auto simp: placement_def inj_on_def dom_def)
  ultimately show ?thesis by (simp add: card_image)
qed

context pool_laws
begin

lemma put_meta_place:
  assumes "pool_ok ok 1 p" and "i < length (po_shards p)" and "fits k (pieces ! r)" and "sh_put_meta E i k (pieces ! r) obj p = (q, res)"
  shows "\<exists>f. step 1 (place_at pieces f k (views V p)) p q \<and> f = (if isl res then Map.empty else [i \<mapsto> r]) \<and>
    (isl res \<longrightarrow> \<not> fine (po_shards p ! i))"
  using sh_put_meta_step [OF assms(1-3), of obj] assms(2,4)
  by (cases res) (simp_all add: place_at_single)

section \<open>The pieces on their targets\<close>

lemma put_pieces_step:
  assumes "pool_ok ok (length order) p" and "set order \<subseteq> {0..<length targets}" and "distinct order"
    and "set targets \<subseteq> {0..<length (po_shards p)}" and "distinct targets" and "\<forall>r < length targets. fits k (pieces ! r)"
    and "put_pieces E k targets pieces obj order (ok0, failed0, le0) p = (p', ok1, failed1, le1)"
  shows "\<exists>f. placement f ((!) targets ` set order) (set order) \<and> step (length order) (place_at pieces f k (views V p)) p p' \<and>
    ok1 = ok0 + card (dom f) \<and> failed1 = failed0 @ filter (\<lambda>r. r \<notin> ran f) order \<and> (\<forall>s r. f s = Some r \<longrightarrow> targets ! r = s) \<and>
    (\<forall>r \<in> set order - ran f. \<not> fine (po_shards p ! (targets ! r)))"
  using assms
proof (induction order arbitrary: p ok0 failed0 le0)
  case Nil
  then show ?case using pool_step_refl by (intro exI [of _ Map.empty]) simp
next
  case (Cons r order)
  let ?i = "targets ! r"
  have i: "?i < length (po_shards p)" "r < length targets" "r \<notin> set order" and ok1: "pool_ok ok 1 p"
    using Cons.prems(1-4) ok_weaken [of "Suc (length order)" p 1] by auto (metis atLeastLessThan_iff nth_mem subsetD)
  obtain q res where c: "sh_put_meta E ?i k (pieces ! r) (Some obj) p = (q, res)" by fastforce
  define g where "g = (if isl res then Map.empty else [?i \<mapsto> r])"
  have g: "step 1 (place_at pieces g k (views V p)) p q" "isl res \<longrightarrow> \<not> fine (po_shards p ! ?i)"
    using put_meta_place [OF ok1 i(1) _ c] Cons.prems(6) i(2) by (auto simp: g_def)
  have q: "pool_ok ok (length order) q" "set targets \<subseteq> {0..<length (po_shards q)}"
    and fq: "\<And>j. j < length (po_shards p) \<Longrightarrow> fine (po_shards p ! j) \<Longrightarrow> fine (po_shards q ! j)"
    using Cons.prems(1,4) pool_step_ok [OF g(1), of "length order"] g(1) by (simp_all add: pool_step_def frame_def)
  have lt: "targets ! j < length (po_shards p)" if "j \<in> set order" for j
    using that Cons.prems(2,4) by (metis atLeastLessThan_iff list.set_intros(2) nth_mem subsetD)
  have rest: "put_pieces E k targets pieces obj order
      (if isl res then ok0 else ok0 + 1, if isl res then failed0 @ [r] else failed0, if isl res then Some (projl res) else le0) q = (p', ok1, failed1, le1)"
    using Cons.prems(7) by (cases res) (simp_all add: c)
  from Cons.IH [OF q(1) _ _ q(2) Cons.prems(5,6) rest] Cons.prems(2,3) obtain f where
    f: "placement f ((!) targets ` set order) (set order)" "step (length order) (place_at pieces f k (views V q)) q p'"
      "ok1 = (if isl res then ok0 else ok0 + 1) + card (dom f)"
      "failed1 = (if isl res then failed0 @ [r] else failed0) @ filter (\<lambda>r. r \<notin> ran f) order"
      "\<forall>s r. f s = Some r \<longrightarrow> targets ! r = s" "\<forall>r \<in> set order - ran f. \<not> fine (po_shards q ! (targets ! r))"
    by auto
  have new: "?i \<notin> (!) targets ` set order" using Cons.prems(2,3,5) i by (auto simp: nth_eq_iff_index_eq)
  have gp: "placement g {?i} {r}" by (simp add: g_def placement_single)
  have add: "placement (g ++ f) ({?i} \<union> (!) targets ` set order) ({r} \<union> set order)" "card (dom (g ++ f)) = card (dom g) + card (dom f)"
    using placement_add [OF gp f(1)] new i(3) by (auto simp: g_def)
  have st: "step (length (r # order)) (place_at pieces (g ++ f) k (views V p)) p p'"
    using pool_step_trans [OF g(1) f(2)] pool_step_views [OF g(1)] by simp
  have rf: "r \<notin> ran f" using f(1) i(3) by (auto simp: placement_def)
  have gf: "dom g \<inter> dom f = {}" using f(1) new by (auto simp: placement_def g_def split: if_splits)
  have ran: "ran (g ++ f) = ran g \<union> ran f" using ran_map_add [OF gf] .
  have o: "ok1 = ok0 + card (dom (g ++ f))" unfolding add(2) f(3) by (simp add: g_def)
  have fl: "failed1 = failed0 @ filter (\<lambda>j. j \<notin> ran (g ++ f)) (r # order)"
    using i(3) rf unfolding f(4) ran by (auto simp: g_def intro: filter_cong)
  have at: "\<forall>s j. (g ++ f) s = Some j \<longrightarrow> targets ! j = s" using f(5) by (auto simp: map_add_Some_iff g_def split: if_splits)
  have bad: "\<forall>j \<in> set (r # order) - ran (g ++ f). \<not> fine (po_shards p ! (targets ! j))"
    using f(6) g(2) fq lt unfolding ran by (auto simp: g_def split: if_splits)
  from add(1) st o fl at bad show ?case by (intro exI [of _ "g ++ f"]) simp
qed

section \<open>The pieces on spare shards\<close>

lemma place_piece_step:
  assumes "pool_ok ok (length spares) p" and "set spares \<subseteq> {0..<length (po_shards p)}" and "fits k (pieces ! r)"
    and "place_piece E k (pieces ! r) obj spares (ok0, le0) p = (p', rest, ok1, le1)"
  shows "\<exists>tried f. spares = tried @ rest \<and> placement f (set tried) {r} \<and> ok1 = ok0 + card (dom f) \<and>
    step (length tried) (place_at pieces f k (views V p)) p p'"
  using assms
proof (induction spares arbitrary: p le0)
  case Nil
  then show ?case using pool_step_refl by (intro exI [of _ "[]"] exI [of _ Map.empty]) simp
next
  case (Cons i spares)
  have i: "i < length (po_shards p)" and ok1: "pool_ok ok 1 p" using Cons.prems ok_weaken [of "Suc (length spares)" p 1] by auto
  obtain q res where c: "sh_put_meta E i k (pieces ! r) (Some obj) p = (q, res)" by fastforce
  from put_meta_place [OF ok1 i Cons.prems(3) c]
  have s: "step 1 (place_at pieces (if isl res then Map.empty else [i \<mapsto> r]) k (views V p)) p q" by auto
  show ?case
  proof (cases res)
    case (Inr u)
    then have e: "p' = tally HandoffWrites 1 q" "rest = spares" "ok1 = ok0 + 1" using Cons.prems(4) by (simp_all add: c)
    have st: "step 1 (place_at pieces [i \<mapsto> r] k (views V p)) p p'"
      by (rule pool_step_after [where q = q]) (use s in \<open>simp_all add: Inr e\<close>)
    show ?thesis
      by (intro exI [of _ "[i]"] exI [of _ "[i \<mapsto> r]"] conjI)
        (use e st placement_single [of i "{i}" r "{r}"] in \<open>simp_all del: fun_upd_apply\<close>)
  next
    case (Inl er)
    then have c': "place_piece E k (pieces ! r) obj spares (ok0, Some er) q = (p', rest, ok1, le1)" using Cons.prems(4) by (simp add: c)
    have e: "step 1 (views V p) p q" using s by (simp add: Inl)
    have "pool_ok ok (length spares) q" using pool_step_ok [OF e, of "length spares"] Cons.prems(1) by simp
    moreover have "set spares \<subseteq> {0..<length (po_shards q)}" using Cons.prems(2) frame_length [OF pool_step_frame [OF e]] by auto
    ultimately obtain tried f where t: "spares = tried @ rest" "placement f (set tried) {r}" "ok1 = ok0 + card (dom f)"
        "step (length tried) (place_at pieces f k (views V q)) q p'"
      using Cons.IH [OF _ _ Cons.prems(3) c'] by auto
    have "step (length (i # tried)) (place_at pieces f k (views V p)) p p'"
      using pool_step_trans [OF e t(4)] pool_step_views [OF e] by simp
    then show ?thesis using t by (intro exI [of _ "i # tried"] exI [of _ f]) (auto intro: placement_mono)
  qed
qed

lemma handoff_pieces_step:
  assumes "pool_ok ok (length spares) p" and "set spares \<subseteq> {0..<length (po_shards p)}" and "distinct spares" and "distinct failed"
    and "\<forall>r \<in> set failed. fits k (pieces ! r)" and "handoff_pieces E k pieces obj failed spares (ok0, le0) p = (p', ok1, le1)"
  shows "\<exists>f. placement f (set spares) (set failed) \<and> step (length spares) (place_at pieces f k (views V p)) p p' \<and> ok1 = ok0 + card (dom f)"
  using assms
proof (induction failed arbitrary: spares p ok0 le0)
  case Nil
  then show ?case using step_mono [OF pool_step_refl [of ok V fine p], of "length spares"] by (intro exI [of _ Map.empty]) simp
next
  case (Cons r failed)
  obtain q rest ok2 le where c: "place_piece E k (pieces ! r) obj spares (ok0, le0) p = (q, rest, ok2, le)" by (metis prod_cases4)
  from place_piece_step [OF Cons.prems(1,2) _ c] Cons.prems(5) obtain tried f where t: "spares = tried @ rest"
      "placement f (set tried) {r}" "ok2 = ok0 + card (dom f)" "step (length tried) (place_at pieces f k (views V p)) p q" by auto
  have r1: "pool_ok ok (length rest) q" using pool_step_ok [OF t(4), of "length rest"] Cons.prems(1) by (simp add: t(1))
  have r2: "set rest \<subseteq> {0..<length (po_shards q)}" using Cons.prems(2) frame_length [OF pool_step_frame [OF t(4)]] by (auto simp: t(1))
  have r3: "distinct rest" "distinct failed" "\<forall>r \<in> set failed. fits k (pieces ! r)" using Cons.prems(3-5) by (simp_all add: t(1))
  have h: "handoff_pieces E k pieces obj failed rest (ok2, le) q = (p', ok1, le1)" using Cons.prems(6) by (simp add: c)
  from Cons.IH [OF r1 r2 r3 h] obtain g where g: "placement g (set rest) (set failed)"
      "step (length rest) (place_at pieces g k (views V q)) q p'" "ok1 = ok2 + card (dom g)" by (elim exE conjE) (rule that)
  have "set tried \<inter> set rest = {}" "ran f \<inter> set failed = {}"
    using Cons.prems(3,4) t(2) by (auto simp: t(1) placement_def)
  note a = placement_add [OF t(2) g(1) this]
  have "step (length spares) (place_at pieces (f ++ g) k (views V p)) p p'"
    using pool_step_trans [OF t(4) g(2)] pool_step_views [OF t(4)] by (simp add: t(1))
  then show ?case using a t(3) g(3) by (intro exI [of _ "f ++ g"]) (simp add: t(1))
qed

section \<open>The whole write\<close>

lemma put_ec_step:
  assumes ok: "pool_ok ok (length (po_shards p)) p" and put: "put_ec E k data ec p = (p', r)"
    and rank: "ranking_for E k (ec_total ec) p = (p0, targets)" and enc: "ec_encode (pe_rs E) data ec = Inr pieces"
    and fit: "\<forall>j < ec_total ec. fits k (pieces ! j)"
  shows "\<exists>f. placement f {0..<length (po_shards p)} {0..<length targets} \<and>
    stepq (length (po_shards p)) (place_at pieces f k (views V p)) p p' \<and> (isl r \<longleftrightarrow> card (dom f) < ec_write_quorum ec) \<and>
    (\<forall>s j. f s = Some j \<longrightarrow> targets ! j = s \<or> s \<notin> set targets) \<and>
    (ec_write_quorum ec \<le> length targets \<longrightarrow> (\<forall>t \<in> set targets - dom f. \<not> fine (po_shards p ! t)) \<and>
       po_mrf p' = (if set targets \<subseteq> dom f then po_mrf p else hq_push (po_mrf p) k Normal))"
proof -
  let ?N = "length (po_shards p)" and ?W = "ec_write_quorum ec" and ?T = "length targets"
  have ok0: "pool_ok ok 0 p" using ok by (rule ok_weaken) simp
  note s0 = ranking_step [OF ok0 rank]
  show ?thesis
  proof (cases "?T < ?W")
    case True
    then have e: "p' = p0" "r = Inl (QuorumNotReached 0 ?W)" using put by (simp_all add: put_ec_def rank Let_def)
    have "step ?N (views V p) p p0" by (rule step_mono [OF s0(1)]) simp
    then show ?thesis using True e by (intro exI [of _ Map.empty]) (auto intro: pool_step_stepq)
  next
    case False
    obtain p1 order where a: "arrivals E [0..<?T] p0 = (p1, order)" by fastforce
    note s1 = arrivals_step [OF a]
    have ord: "distinct order" "set order = {0..<?T}" "length order = ?T"
      using s1(2) mset_eq_setD mset_eq_imp_distinct_iff mset_eq_length [OF s1(2)] by (fastforce simp: atLeast_upt)+
    have s01: "step 0 (views V p) p p1" using pool_step_trans [OF s0(1) s1(1)] pool_step_views [OF s0(1)] by simp
    have N1: "length (po_shards p1) = ?N" using frame_length [OF pool_step_frame [OF s01]] .
    have lr: "?T \<le> ?N" using disjoint_lengths [of targets "[]"] s0(2,3) by simp
    have ok1: "pool_ok ok (length order) p1" using ok_weaken [OF pool_step_ok0 [OF s01 ok] lr] ord(3) by simp
    obtain p2 ok2 failed le2 where c: "put_pieces E k targets pieces (word_of_nat (length data)) order (0, [], None) p1 = (p2, ok2, failed, le2)"
      by (metis prod_cases4)
    have fit': "\<forall>j < ?T. fits k (pieces ! j)" using fit s0(4) by simp
    from put_pieces_step [OF ok1 _ ord(1) _ s0(2) fit' c] s0(3) N1 ord(2) obtain f where
      f: "placement f ((!) targets ` set order) {0..<?T}" "step (length order) (place_at pieces f k (views V p1)) p1 p2"
        "ok2 = card (dom f)" "failed = filter (\<lambda>j. j \<notin> ran f) order" "\<forall>s j. f s = Some j \<longrightarrow> targets ! j = s"
        "\<forall>j \<in> set order - ran f. \<not> fine (po_shards p1 ! (targets ! j))" by auto
    have im: "(!) targets ` set order = set targets" unfolding ord(2) by (auto simp: set_conv_nth)
    note fp = f(1) [unfolded im]
    have s02: "step ?T (place_at pieces f k (views V p)) p p2"
      using pool_step_trans [OF s01 f(2)] pool_step_views [OF s01] ord(3) by simp
    have ranf: "j \<in> ran f \<longleftrightarrow> targets ! j \<in> dom f" if "j < ?T" for j
    proof
      show "targets ! j \<in> dom f" if "j \<in> ran f" using that f(5) by (auto simp: ran_def)
      assume "targets ! j \<in> dom f"
      then obtain j' where j': "f (targets ! j) = Some j'" by auto
      then have "targets ! j' = targets ! j" "j' < ?T" using f(5) fp by (auto simp: placement_def ran_def)
      then have "j' = j" using s0(2) \<open>j < ?T\<close> by (simp add: nth_eq_iff_index_eq)
      with j' show "j \<in> ran f" by (auto simp: ran_def)
    qed
    have bad: "\<forall>t \<in> set targets - dom f. \<not> fine (po_shards p ! t)"
    proof
      fix t assume t: "t \<in> set targets - dom f"
      then obtain j where j: "j < ?T" "t = targets ! j" by (auto simp: in_set_conv_nth)
      then have "\<not> fine (po_shards p1 ! t)" using f(6) t ranf ord(2) by auto
      moreover have "t < ?N" using t s0(3) by auto
      ultimately show "\<not> fine (po_shards p ! t)" using pool_step_frame [OF s01] by (auto simp: frame_def)
    qed
    have all: "failed = [] \<longleftrightarrow> set targets \<subseteq> dom f"
    proof -
      have "failed = [] \<longleftrightarrow> (\<forall>j < ?T. targets ! j \<in> dom f)" using ranf by (auto simp: f(4) filter_empty_conv ord(2))
      also have "\<dots> \<longleftrightarrow> (\<forall>t \<in> set targets. t \<in> dom f)" by (simp add: all_set_conv_all_nth)
      finally show ?thesis by blast
    qed
    have res: "isl (quorum_result n ?W ?W le) \<longleftrightarrow> n < ?W" for n le by (auto simp: quorum_result_def)
    show ?thesis
    proof (cases "failed = []")
      case True
      then have e: "p' = tally EcPuts 1 p2" "r = quorum_result ok2 ?W ?W le2" using put False enc by (simp_all add: put_ec_def rank Let_def a c)
      have "stepq ?N (place_at pieces f k (views V p)) p p2" by (rule pool_step_stepq, rule step_mono [OF s02 lr])
      then have "stepq ?N (place_at pieces f k (views V p)) p p'" by (rule pool_stepq_after) (simp_all add: e(1))
      moreover have "po_mrf p' = po_mrf p" using pool_step_frame [OF s02] by (simp add: frame_def e)
      moreover have "placement f {0..<?N} {0..<?T}" by (rule placement_mono [OF fp]) (use s0(3) in auto)
      ultimately show ?thesis using bad all True f(5) by (intro exI [of _ f]) (auto simp: e(2) res f(3))
    next
      case fail: False
      obtain p3 rk where rk: "ranking_for E k (length (po_shards p2)) p2 = (p3, rk)" by fastforce
      have N2: "length (po_shards p2) = ?N" using frame_length [OF pool_step_frame [OF s02]] .
      have ok2: "pool_ok ok (?N - ?T) p2" using pool_step_ok [OF s02, of "?N - ?T"] ok lr by simp
      note s3 = ranking_step [OF ok_weaken [OF ok2 le0] rk]
      let ?spares = "filter (\<lambda>s. s \<notin> set targets) rk"
      have s03: "step ?T (place_at pieces f k (views V p)) p p3"
        using pool_step_trans [OF s02 s3(1)] pool_step_views [OF s02] by simp
      have sp: "set ?spares \<subseteq> {0..<?N}" "distinct ?spares" using s3(2,3) N2 by auto
      have tot: "?T + length ?spares \<le> ?N" using disjoint_lengths [of targets ?spares ?N] s0(2,3) sp by auto
      have N3: "length (po_shards p3) = ?N" using frame_length [OF pool_step_frame [OF s03]] .
      have ok3: "pool_ok ok (length ?spares) p3" using pool_step_ok [OF s03, of "length ?spares"] ok_weaken [OF ok tot] by simp
      have fd: "distinct failed" "set failed = {0..<?T} - ran f"
        unfolding f(4) using ord(1) by (simp, simp only: set_filter ord(2)) blast
      obtain p4 ok4 le4 where h: "handoff_pieces E k pieces (word_of_nat (length data)) failed ?spares (ok2, le2) p3 = (p4, ok4, le4)"
        by (metis prod_cases3)
      from handoff_pieces_step [OF ok3 _ sp(2) fd(1) _ h] sp(1) N3 fit' fd(2) obtain g where
        g: "placement g (set ?spares) (set failed)" "step (length ?spares) (place_at pieces g k (views V p3)) p3 p4" "ok4 = ok2 + card (dom g)"
        by auto
      have s04: "step (?T + length ?spares) (place_at pieces (f ++ g) k (views V p)) p p4"
        using pool_step_trans [OF s03 g(2)] pool_step_views [OF s03] by simp
      have "set targets \<inter> set ?spares = {}" "ran f \<inter> set failed = {}" using fd(2) by auto
      note add = placement_add [OF fp g(1) this finite_set finite_set]
      have e: "p' = tally EcPuts 1 (enqueue_heal k Normal p4)" "r = quorum_result ok4 ?W ?W le4"
        using put False fail enc by (simp_all add: put_ec_def rank Let_def a c rk h)
      have "stepq ?N (place_at pieces (f ++ g) k (views V p)) p p4" by (rule pool_step_stepq, rule step_mono [OF s04 tot])
      then have st: "stepq ?N (place_at pieces (f ++ g) k (views V p)) p p'" by (rule pool_stepq_after) (simp_all add: e(1))
      have m: "po_mrf p' = hq_push (po_mrf p) k Normal" using pool_step_frame [OF s04] by (simp add: frame_def e)
      have "dom g \<inter> set targets = {}" using g(1) by (auto simp: placement_def)
      then have dom: "set targets - dom (f ++ g) = set targets - dom f" "set targets \<subseteq> dom (f ++ g) \<longleftrightarrow> set targets \<subseteq> dom f"
        unfolding dom_map_add by blast+
      have at: "\<forall>s j. (f ++ g) s = Some j \<longrightarrow> targets ! j = s \<or> s \<notin> set targets"
        using f(5) g(1) by (auto simp: map_add_Some_iff placement_def)
      have "placement (f ++ g) {0..<?N} {0..<?T}" by (rule placement_mono [OF add(1)]) (use s0(3) sp(1) fd(2) in auto)
      moreover have "isl r \<longleftrightarrow> card (dom (f ++ g)) < ?W" unfolding e(2) res add(2) by (simp add: g(3) f(3))
      moreover have "\<not> set targets \<subseteq> dom (f ++ g)" using dom(2) all fail by blast
      ultimately show ?thesis using st m at bad dom(1) by (intro exI [of _ "f ++ g"]) (simp del: dom_map_add)
    qed
  qed
qed

end

end
