(* ===== verification/Pool_Ec_Get_Laws.thy ===== *)
theory Pool_Ec_Get_Laws
  imports Pool_Ec_Put_Laws
begin

text \<open>
  What an erasure-coded read returns: as long as the shards hold pieces of one object, each target nothing but its own, a read
  returns the body or an error, and it returns the body whenever fault-free shards hold enough distinct pieces.
\<close>

section \<open>The pieces of one object\<close>

definition ec_object :: "rs_ops \<Rightarrow> nat \<Rightarrow> nat \<Rightarrow> bytes \<Rightarrow> bytes list \<Rightarrow> bool" where
  "ec_object rs k m body pieces \<longleftrightarrow> 0 < k \<and> k + m < 256 \<and> length pieces = k + m \<and>
     (\<forall>j < k + m. \<exists>h. parse_piece_header (pieces ! j) = Some h \<and> unat (ph_k h) = k \<and> unat (ph_m h) = m \<and> piece_idx h = j) \<and>
     (\<forall>slots. slots_of pieces slots \<longrightarrow>
        (if k \<le> present slots then ec_decode rs slots k m = Inr body else isl (ec_decode rs slots k m)))"

lemma parse_ec_piece_header:
  assumes "0 < k" and "0 < m" and "k + m < 256" and "i < k + m" and "l < 2 ^ 64" and "length s = div_ceil l k"
  shows "parse_piece_header (ec_piece k m l i s) =
    Some \<lparr>ph_k = word_of_nat k, ph_m = word_of_nat m, ph_idx = word_of_nat i, ph_logical_len = word_of_nat l\<rparr>"
  using parse_ec_piece [OF assms] by (auto simp: ec_piece_def parse_piece_header_encode split: if_splits)

lemma ec_object_encode:
  assumes "rs_contract rs (ec_data cfg) (ec_parity cfg)" and "ec_params (ec_data cfg) (ec_parity cfg) body"
    and "ec_encode rs body cfg = Inr pieces"
  shows "ec_object rs (ec_data cfg) (ec_parity cfg) body pieces"
proof -
  let ?k = "ec_data cfg" and ?m = "ec_parity cfg"
  have par: "0 < ?k" "0 < ?m" "?k + ?m < 256" "body \<noteq> []" "length body < 2 ^ 64" using assms(2) by (auto simp: ec_params_def)
  obtain parity where e: "pieces = map2 (ec_piece ?k ?m (length body)) [0..<?k + ?m] (data_stripes body ?k @ parity)"
      "length parity = ?m" "uniform (ec_stripe body ?k) (data_stripes body ?k @ parity)"
    using ec_encode_pieces [OF assms(1), of body] assms(3) by auto
  have hdr: "parse_piece_header (pieces ! j) = Some \<lparr>ph_k = word_of_nat ?k, ph_m = word_of_nat ?m, ph_idx = word_of_nat j,
      ph_logical_len = word_of_nat (length body)\<rparr>" if "j < ?k + ?m" for j
  proof -
    have "length ((data_stripes body ?k @ parity) ! j) = div_ceil (length body) ?k"
      using e(2,3) that ec_stripe_nonempty [OF par(4,1)] by (simp add: uniform_def list_all_length)
    from parse_ec_piece_header [OF par(1-3) that par(5) this] show ?thesis using that e(2) by (simp add: e(1))
  qed
  have few: "isl (ec_decode rs slots ?k ?m)" if sl: "slots_of pieces slots" and p: "present slots < ?k" for slots
  proof -
    have l: "length slots = ?k + ?m" using sl e(2) by (auto simp: slots_of_def e(1) dest: list_all2_lengthD)
    have "decode_slots 0 None slots = Inr (if present slots = 0 then None else Some (word_of_nat (length body)),
        map (map_option (drop EC_HEADER_LEN)) slots)"
    proof (intro decode_slots_ok allI impI)
      fix j q assume j: "j < length slots" "slots ! j = Some q"
      then have "q = pieces ! j" using sl by (auto simp: slots_of_def list_all2_conv_all_nth)
      then show "\<exists>h. parse_piece_header q = Some h \<and> unat (ph_idx h) = 0 + j \<and> ph_logical_len h = word_of_nat (length body)"
        using hdr [of j] j(1) l par(3) by (simp add: unat_of_nat)
    qed
    then show ?thesis
      using p present_map [of "drop EC_HEADER_LEN" slots] by (auto simp: ec_decode_def l present_def)
  qed
  have "length pieces = ?k + ?m" using e(2) by (simp add: e(1))
  then show ?thesis
    using par hdr few ec_decode_pieces [OF assms(1,2) refl refl assms(3)]
    by (simp add: ec_object_def piece_idx_def unat_of_nat)
qed

lemma ec_objectD:
  assumes "ec_object rs k m body pieces"
  shows "0 < k" "k + m < 256" "length pieces = k + m"
    "j < k + m \<Longrightarrow> \<exists>h. parse_piece_header (pieces ! j) = Some h \<and> unat (ph_k h) = k \<and> unat (ph_m h) = m \<and> piece_idx h = j"
    "slots_of pieces slots \<Longrightarrow> k \<le> present slots \<Longrightarrow> ec_decode rs slots k m = Inr body"
    "slots_of pieces slots \<Longrightarrow> present slots < k \<Longrightarrow> isl (ec_decode rs slots k m)"
  using assms by (auto simp: ec_object_def split: if_splits)

lemma ec_object_inj: "ec_object rs k m body pieces \<Longrightarrow> i < k + m \<Longrightarrow> j < k + m \<Longrightarrow> pieces ! i = pieces ! j \<Longrightarrow> i = j"
  using ec_objectD(4) by (metis option.sel)

section \<open>Slots\<close>

definition filled :: "'a option list \<Rightarrow> nat set" where
  "filled slots = {j. j < length slots \<and> slots ! j \<noteq> None}"

lemma present_filled: "present slots = card (filled slots)"
  by (simp add: present_def filled_def length_filter_conv_card)

lemma finite_filled [simp]: "finite (filled slots)"
  by (simp add: filled_def)

lemma filled_replicate [simp]: "filled (replicate n None) = {}"
  by (auto simp: filled_def)

lemma slots_of_none: "slots_of xs (replicate (length xs) None)"
  by (simp add: slots_of_def list_all2_conv_all_nth)

lemma slots_of_length: "slots_of xs slots \<Longrightarrow> length slots = length xs"
  by (simp add: slots_of_def list_all2_conv_all_nth)

lemma slots_of_set: "slots_of xs slots \<Longrightarrow> j < length xs \<Longrightarrow> slots_of xs (slots[j := Some (xs ! j)])"
  by (auto simp: slots_of_def list_all2_conv_all_nth nth_list_update)

lemma fill_slot_spec:
  assumes "slots_of xs slots" and "j < length xs"
  shows "slots_of xs (fill_slot j (xs ! j) slots)" "filled (fill_slot j (xs ! j) slots) = insert j (filled slots)"
  using assms slots_of_length [OF assms(1)] slots_of_set [OF assms]
  by (auto simp: fill_slot_def filled_def nth_list_update split: if_splits)

section \<open>Pieces on the shards\<close>

definition pieces_only :: "(block_key \<rightharpoonup> bytes) list \<Rightarrow> block_key \<Rightarrow> bytes list \<Rightarrow> nat set \<Rightarrow> bool" where
  "pieces_only vs key pieces S \<longleftrightarrow> (\<forall>i \<in> S. (vs ! i) key = None \<or> (\<exists>j < length pieces. (vs ! i) key = Some (pieces ! j)))"

text \<open>Each target holds nothing but its own piece; shards outside the targets may hold any piece.\<close>

definition ec_layout :: "(block_key \<rightharpoonup> bytes) list \<Rightarrow> block_key \<Rightarrow> bytes list \<Rightarrow> shard_id list \<Rightarrow> bool" where
  "ec_layout vs key pieces targets \<longleftrightarrow> length targets \<le> length pieces \<and>
     (\<forall>r < length targets. (vs ! (targets ! r)) key \<in> {None, Some (pieces ! r)}) \<and>
     pieces_only vs key pieces ({0..<length vs} - set targets)"

text \<open>The ranks of the pieces that fault-free shards of a set hold.\<close>

definition avail :: "('s \<Rightarrow> block_key \<rightharpoonup> bytes) \<Rightarrow> ('s \<Rightarrow> bool) \<Rightarrow> 's pool \<Rightarrow> block_key \<Rightarrow> bytes list \<Rightarrow> nat set \<Rightarrow> nat set" where
  "avail V fine p key pieces S =
     {j. j < length pieces \<and> (\<exists>i \<in> S. fine (po_shards p ! i) \<and> (views V p ! i) key = Some (pieces ! j))}"

lemma avail_Un [simp]: "avail V fine p key pieces (S \<union> T) = avail V fine p key pieces S \<union> avail V fine p key pieces T"
  by (auto simp: avail_def)

lemma avail_mono: "S \<subseteq> T \<Longrightarrow> avail V fine p key pieces S \<subseteq> avail V fine p key pieces T"
  by (auto simp: avail_def)

lemma finite_avail [simp]: "finite (avail V fine p key pieces S)"
  by (simp add: avail_def)

lemma avail_step:
  assumes "pool_step ok V fine 0 (views V p) p q" and "S \<subseteq> {0..<length (po_shards p)}"
  shows "avail V fine p key pieces S \<subseteq> avail V fine q key pieces S"
proof -
  have "\<forall>i \<in> S. fine (po_shards p ! i) \<longrightarrow> fine (po_shards q ! i)"
    using assms by (auto simp: pool_step_def frame_def)
  moreover have "views V q = views V p" using assms(1) by (rule pool_step_views)
  ultimately show ?thesis by (auto simp: avail_def)
qed

lemma avail_not_sure: "\<not> sure V fine p S key \<Longrightarrow> avail V fine p key pieces S = {}"
  by (auto simp: avail_def sure_def)

lemma pieces_only_target:
  assumes "ec_layout vs key pieces targets" and "r < length targets"
  shows "(vs ! (targets ! r)) key \<in> {None, Some (pieces ! r)}" "r < length pieces"
  using assms by (auto simp: ec_layout_def)

lemma ec_layout_only: "ec_layout vs key pieces targets \<Longrightarrow> S \<subseteq> {0..<length vs} \<Longrightarrow> pieces_only vs key pieces S"
  unfolding pieces_only_def
proof
  fix i assume a: "ec_layout vs key pieces targets" "S \<subseteq> {0..<length vs}" "i \<in> S"
  show "(vs ! i) key = None \<or> (\<exists>j < length pieces. (vs ! i) key = Some (pieces ! j))"
  proof (cases "i \<in> set targets")
    case True
    then obtain r where "r < length targets" "targets ! r = i" by (auto simp: in_set_conv_nth)
    then show ?thesis using pieces_only_target [OF a(1)] by auto
  next
    case False
    then show ?thesis using a by (auto simp: ec_layout_def pieces_only_def)
  qed
qed

context pool_laws
begin

section \<open>Reading pieces\<close>

lemma read_pieces_spec:
  assumes "pool_ok ok 0 p" and "set sids \<subseteq> {0..<length (po_shards p)}" and "ec_object rs k m body pieces"
    and "pieces_only (views V p) key pieces (set sids)" and "slots_of pieces slots" and "read_pieces E key sids slots p = (q, slots')"
  shows "step 0 (views V p) p q \<and> slots_of pieces slots' \<and> filled slots \<union> avail V fine p key pieces (set sids) \<subseteq> filled slots'"
  using assms
proof (induction sids arbitrary: p slots)
  case Nil
  then show ?case using pool_step_refl by (auto simp: avail_def)
next
  case (Cons i sids)
  obtain p1 r where g: "sh_get E i key p = (p1, r)" by fastforce
  from sh_get_answers [OF Cons.prems(1) _ g] Cons.prems(2)
  have s: "step 0 (views V p) p p1" "answers V fine p {i} key r" by auto
  note v1 = pool_step_views [OF s(1)]
  have r1: "pool_ok ok 0 p1" "set sids \<subseteq> {0..<length (po_shards p1)}" "pieces_only (views V p1) key pieces (set sids)"
    using pool_step_ok0 [OF s(1) Cons.prems(1)] Cons.prems(2,4) frame_length [OF pool_step_frame [OF s(1)]]
    by (auto simp: v1 pieces_only_def)
  have later: "avail V fine p key pieces (set sids) \<subseteq> avail V fine p1 key pieces (set sids)"
    by (rule avail_step [OF s(1)]) (use Cons.prems(2) in auto)
  have split: "avail V fine p key pieces (set (i # sids)) = avail V fine p key pieces {i} \<union> avail V fine p key pieces (set sids)"
    unfolding avail_Un [symmetric] by simp
  show ?case
  proof (cases r)
    case (Inl e)
    have "read_pieces E key sids slots p1 = (q, slots')" using Cons.prems(6) by (simp add: g Inl)
    note ih = Cons.IH [OF r1(1,2) Cons.prems(3) r1(3) Cons.prems(5) this]
    have "avail V fine p key pieces {i} = {}" using s(2) by (intro avail_not_sure) (simp add: Inl)
    then show ?thesis using ih later pool_step_trans [OF s(1), of 0 _ q] unfolding split v1 by auto
  next
    case (Inr b)
    obtain j where j: "j < length pieces" "b = pieces ! j"
      using Cons.prems(4) s(2) by (auto simp: Inr held_by_def pieces_only_def)
    obtain h where h: "parse_piece_header b = Some h" "piece_idx h = j"
      using ec_objectD(3,4) [OF Cons.prems(3)] j by metis
    let ?slots = "fill_slot j (pieces ! j) slots"
    note fs = fill_slot_spec [OF Cons.prems(5) j(1)]
    have "read_pieces E key sids ?slots p1 = (q, slots')" using Cons.prems(6) h by (simp add: g Inr j(2))
    note ih = Cons.IH [OF r1(1,2) Cons.prems(3) r1(3) fs(1) this]
    have "avail V fine p key pieces {i} \<subseteq> {j}"
      using s(2) j ec_object_inj [OF Cons.prems(3)] ec_objectD(3) [OF Cons.prems(3)] by (auto simp: avail_def Inr held_by_def)
    then show ?thesis using ih later pool_step_trans [OF s(1), of 0 _ q] unfolding split v1 fs(2) by auto
  qed
qed

lemma read_ranks_spec:
  assumes ok: "pool_ok ok 0 p" and t: "set targets \<subseteq> {0..<length (po_shards p)}" and obj: "ec_object rs k m body pieces"
    and lay: "ec_layout (views V p) key pieces targets" and sl: "slots_of pieces slots"
    and read: "read_ranks E key targets ranks slots p = (q, slots')"
  shows "step 0 (views V p) p q \<and> slots_of pieces slots' \<and> filled slots \<subseteq> filled slots' \<and>
    (\<forall>r \<in> set ranks. r < length targets \<longrightarrow> fine (po_shards p ! (targets ! r)) \<longrightarrow> (views V p ! (targets ! r)) key \<noteq> None \<longrightarrow> r \<in> filled slots')"
proof -
  let ?rs = "filter (\<lambda>r. r < length targets) ranks"
  obtain p1 order where a: "arrivals E ?rs p = (p1, order)" by fastforce
  note s1 = arrivals_step [OF a]
  have o: "set order = set ?rs" using mset_eq_setD [OF s1(2)] .
  let ?sids = "map (\<lambda>r. targets ! r) order"
  have sids: "set ?sids \<subseteq> {0..<length (po_shards p)}" using t by (auto simp: o)
  note v1 = pool_step_views [OF s1(1)] and l1 = frame_length [OF pool_step_frame [OF s1(1)]]
  have "read_pieces E key ?sids slots p1 = (q, slots')" using read by (simp add: read_ranks_def a)
  with read_pieces_spec [OF pool_step_ok0 [OF s1(1) ok] _ obj _ sl, of ?sids key q slots'] sids
    ec_layout_only [OF lay, of "set ?sids"]
  have r: "step 0 (views V p1) p1 q" "slots_of pieces slots'" "filled slots \<union> avail V fine p1 key pieces (set ?sids) \<subseteq> filled slots'"
    by (simp_all add: v1 l1)
  have "r \<in> filled slots'" if "r \<in> set ranks" "r < length targets" "fine (po_shards p ! (targets ! r))"
    "(views V p ! (targets ! r)) key \<noteq> None" for r
  proof -
    have "r \<in> avail V fine p key pieces (set ?sids)"
      using that pieces_only_target [OF lay that(2)] by (auto simp: avail_def o)
    then show ?thesis using avail_step [OF s1(1) sids] r(3) by blast
  qed
  then show ?thesis using r pool_step_trans [OF s1(1), of 0 _ q] unfolding v1 by auto
qed

section \<open>Collecting the pieces of an object\<close>

definition ec_answer :: "'s pool \<Rightarrow> block_key \<Rightarrow> bytes list \<Rightarrow> nat \<Rightarrow> bytes \<Rightarrow> bytes domain_result \<Rightarrow> bool" where
  "ec_answer p key pieces k body r \<longleftrightarrow>
     r = Inr body \<or> isl r \<and> card (avail V fine p key pieces {0..<length (po_shards p)}) < k"

lemma decode_answer:
  assumes "ec_object (pe_rs E) k m body pieces" and "slots_of pieces slots"
    and "k \<le> present slots \<or> avail V fine p key pieces {0..<length (po_shards p)} \<subseteq> filled slots"
  shows "ec_answer p key pieces k body (ec_decode (pe_rs E) slots k m)"
proof (cases "k \<le> present slots")
  case True
  then show ?thesis using ec_objectD(5) [OF assms(1,2)] by (simp add: ec_answer_def)
next
  case False
  then have "card (avail V fine p key pieces {0..<length (po_shards p)}) \<le> present slots"
    using assms(3) unfolding present_filled by (auto intro: card_mono)
  then show ?thesis using False ec_objectD(6) [OF assms(1,2)] by (simp add: ec_answer_def)
qed

lemma ec_answer_earlier:
  "step 0 (views V p) p q \<Longrightarrow> ec_answer q key pieces k body r \<Longrightarrow> ec_answer p key pieces k body r"
  using avail_step [where S = "{0..<length (po_shards p)}" and p = p and q = q and key = key and pieces = pieces]
    card_mono [OF finite_avail] frame_length [OF pool_step_frame]
  unfolding ec_answer_def by (metis le_less_trans order_refl)

lemma gather_ec_spec:
  assumes ok: "pool_ok ok 0 p" and t: "set targets \<subseteq> {0..<length (po_shards p)}" and obj: "ec_object (pe_rs E) k m body pieces"
    and lay: "ec_layout (views V p) key pieces targets" and pr: "pr < length targets" "parse_piece_header (pieces ! pr) = Some h"
    and gather: "gather_ec E key targets pr (pieces ! pr) h p = (q, r)"
  shows "step 0 (views V p) p q \<and> ec_answer p key pieces k body r"
proof -
  let ?N = "{0..<length (po_shards p)}"
  have lt: "length targets \<le> k + m" and lp: "length pieces = k + m" using lay ec_objectD(3) [OF obj] by (auto simp: ec_layout_def)
  have h: "unat (ph_k h) = k" "unat (ph_m h) = m" "piece_idx h = pr"
    using ec_objectD(4) [OF obj, of pr] pr lt by auto
  define slots0 where "slots0 = (replicate (k + m) None)[pr := Some (pieces ! pr)]"
  have s0: "slots_of pieces slots0" using slots_of_set [OF slots_of_none, of pr pieces] pr(1) lt by (simp add: slots0_def lp)
  have f0: "pr \<in> filled slots0" using pr(1) lt by (simp add: filled_def slots0_def)
  define want1 where "want1 = filter (\<lambda>r. r \<noteq> pr \<and> slots0 ! r = None) [0..<k]"
  obtain p1 slots1 where r1: "read_ranks E key targets want1 slots0 p = (p1, slots1)" by fastforce
  from read_ranks_spec [OF ok t obj lay s0 r1] have s1: "step 0 (views V p) p p1" "slots_of pieces slots1" "filled slots0 \<subseteq> filled slots1"
    and got1: "\<And>r. r \<in> set want1 \<Longrightarrow> r < length targets \<Longrightarrow> fine (po_shards p ! (targets ! r)) \<Longrightarrow>
        (views V p ! (targets ! r)) key \<noteq> None \<Longrightarrow> r \<in> filled slots1" by auto
  have l1: "length slots1 = k + m" using slots_of_length [OF s1(2)] lp by simp
  note v1 = pool_step_views [OF s1(1)] and n1 = frame_length [OF pool_step_frame [OF s1(1)]]
  show ?thesis
  proof (cases "list_all (\<lambda>s. s \<noteq> None) (take k slots1)")
    case True
    then have e: "q = p1" "r = ec_decode (pe_rs E) slots1 k m"
      using gather by (simp_all add: gather_ec_def h slots0_def [symmetric] want1_def [symmetric] r1 Let_def)
    have "{0..<k} \<subseteq> filled slots1" using True by (auto simp: filled_def list_all_length l1)
    from card_mono [OF finite_filled this] have "k \<le> present slots1" by (simp add: present_filled)
    then show ?thesis using s1(1) decode_answer [OF obj s1(2)] by (simp add: e)
  next
    case False
    define want2 where "want2 = filter (\<lambda>r. r \<noteq> pr \<and> slots1 ! r = None) [k..<k + m]"
    obtain p2 slots2 where r2: "read_ranks E key targets want2 slots1 p1 = (p2, slots2)" by fastforce
    from read_ranks_spec [OF pool_step_ok0 [OF s1(1) ok] _ obj _ s1(2) r2] t lay
    have s2: "step 0 (views V p1) p1 p2" "slots_of pieces slots2" "filled slots1 \<subseteq> filled slots2"
      and got2: "\<And>r. r \<in> set want2 \<Longrightarrow> r < length targets \<Longrightarrow> fine (po_shards p1 ! (targets ! r)) \<Longrightarrow>
          (views V p ! (targets ! r)) key \<noteq> None \<Longrightarrow> r \<in> filled slots2" by (auto simp: v1 n1)
    have s02: "step 0 (views V p) p p2" using pool_step_trans [OF s1(1) s2(1)] v1 by simp
    have fine1: "fine (po_shards p1 ! i)" if "i < length (po_shards p)" "fine (po_shards p ! i)" for i
      using pool_step_frame [OF s1(1)] that by (simp add: frame_def)
    have targets: "avail V fine p key pieces (set targets) \<subseteq> filled slots2"
    proof
      fix j assume "j \<in> avail V fine p key pieces (set targets)"
      then obtain r where r: "r < length targets" "fine (po_shards p ! (targets ! r))" "j < k + m"
          "(views V p ! (targets ! r)) key = Some (pieces ! j)" by (auto simp: avail_def in_set_conv_nth lp)
      then have "pieces ! j = pieces ! r" using pieces_only_target [OF lay r(1)] by auto
      then have j: "j = r" using ec_object_inj [OF obj r(3)] r(1) lt by simp
      have tr: "targets ! r < length (po_shards p)" using t r(1) by (metis atLeastLessThan_iff nth_mem subsetD)
      consider "r = pr" | "r \<in> set want1" | "r < k" "slots0 ! r \<noteq> None" | "r \<in> set want2" | "k \<le> r" "slots1 ! r \<noteq> None"
        using r(3) j unfolding want1_def want2_def by fastforce
      then have "r \<in> filled slots0 \<union> filled slots1 \<union> filled slots2"
      proof cases
        case 3
        then show ?thesis using r(3) j by (simp add: filled_def slots0_def)
      next
        case 5
        then show ?thesis using r(3) j l1 by (simp add: filled_def)
      qed (use f0 got1 got2 r fine1 [OF tr] in auto)
      then show "j \<in> filled slots2" using j s1(3) s2(3) by auto
    qed
    obtain p3 slots3 where r3: "(if present slots2 < k then read_pieces E key (others p2 targets) slots2 p2 else (p2, slots2)) = (p3, slots3)"
      by fastforce
    have e: "q = tally EcReconstructs 1 p3" "r = ec_decode (pe_rs E) slots3 k m"
      using gather False by (simp_all add: gather_ec_def h slots0_def [symmetric] want1_def [symmetric] want2_def [symmetric] r1 r2 r3 Let_def)
    show ?thesis
    proof (cases "present slots2 < k")
      case True
      note v2 = pool_step_views [OF s02] and n2 = frame_length [OF pool_step_frame [OF s02]]
      have o: "set (others p2 targets) \<subseteq> ?N" by (auto simp: others_def n2)
      have "read_pieces E key (others p2 targets) slots2 p2 = (p3, slots3)" using r3 True by simp
      from read_pieces_spec [OF pool_step_ok0 [OF s02 ok] _ obj _ s2(2) this] o ec_layout_only [OF lay, of "set (others p2 targets)"]
      have s3: "step 0 (views V p2) p2 p3" "slots_of pieces slots3"
          "filled slots2 \<union> avail V fine p2 key pieces (set (others p2 targets)) \<subseteq> filled slots3" by (auto simp: v2 n2)
      have "avail V fine p key pieces ?N = avail V fine p key pieces (set targets) \<union> avail V fine p key pieces (set (others p2 targets))"
        unfolding avail_Un [symmetric] using set_others [of targets p2] t n2 by (metis sup.absorb_iff2)
      then have "avail V fine p key pieces ?N \<subseteq> filled slots3" using s3(3) targets avail_step [OF s02 o] by blast
      moreover have "step 0 (views V p) p p3" using pool_step_trans [OF s02 s3(1)] v2 by simp
      then have "step 0 (views V p) p q" by (rule pool_step_after) (simp_all add: e)
      ultimately show ?thesis using decode_answer [OF obj s3(2)] by (simp add: e)
    next
      case False
      then have e3: "p3 = p2" "slots3 = slots2" using r3 by simp_all
      have "step 0 (views V p) p q" by (rule pool_step_after [OF s02]) (simp_all add: e e3)
      then show ?thesis using decode_answer [OF obj s2(2)] False by (simp add: e e3)
    qed
  qed
qed

section \<open>The whole read\<close>

definition scan_inv :: "nat \<Rightarrow> nat \<Rightarrow> bytes list \<Rightarrow> bytes option list \<Rightarrow> piece_header option \<Rightarrow> bool" where
  "scan_inv k m pieces slots hdr \<longleftrightarrow> slots = [] \<and> hdr = None \<or>
     slots_of pieces slots \<and> (\<exists>h. hdr = Some h \<and> unat (ph_k h) = k \<and> unat (ph_m h) = m)"

lemma scan_strays_spec:
  assumes "pool_ok ok 0 p" and "set is \<subseteq> {0..<length (po_shards p)}" and "ec_object (pe_rs E) k m body pieces"
    and "pieces_only (views V p) key pieces (set is)" and "scan_inv k m pieces slots hdr" and "scan_strays E key is slots hdr p = (q, res)"
  shows "step 0 (views V p) p q \<and> (\<exists>slots' hdr'. res = Inr (slots', hdr') \<and> scan_inv k m pieces slots' hdr' \<and>
    filled slots \<union> avail V fine p key pieces (set is) \<subseteq> filled slots')"
  using assms
proof (induction "is" arbitrary: p slots hdr)
  case Nil
  then show ?case using pool_step_refl by (auto simp: avail_def)
next
  case (Cons i "is")
  obtain p1 r where g: "sh_get E i key p = (p1, r)" by fastforce
  from sh_get_answers [OF Cons.prems(1) _ g] Cons.prems(2)
  have s: "step 0 (views V p) p p1" "answers V fine p {i} key r" by auto
  note v1 = pool_step_views [OF s(1)]
  have r1: "pool_ok ok 0 p1" "set is \<subseteq> {0..<length (po_shards p1)}" "pieces_only (views V p1) key pieces (set is)"
    using pool_step_ok0 [OF s(1) Cons.prems(1)] Cons.prems(2,4) frame_length [OF pool_step_frame [OF s(1)]]
    by (auto simp: v1 pieces_only_def)
  have later: "avail V fine p key pieces (set is) \<subseteq> avail V fine p1 key pieces (set is)"
    by (rule avail_step [OF s(1)]) (use Cons.prems(2) in auto)
  have split: "avail V fine p key pieces (set (i # is)) = avail V fine p key pieces {i} \<union> avail V fine p key pieces (set is)"
    unfolding avail_Un [symmetric] by simp
  show ?case
  proof (cases r)
    case (Inl e)
    have "scan_strays E key is slots hdr p1 = (q, res)" using Cons.prems(6) by (simp add: g Inl)
    note ih = Cons.IH [OF r1(1,2) Cons.prems(3) r1(3) Cons.prems(5) this]
    have "avail V fine p key pieces {i} = {}" using s(2) by (intro avail_not_sure) (simp add: Inl)
    then show ?thesis using ih later pool_step_trans [OF s(1), of 0 _ q] unfolding split v1 by fastforce
  next
    case (Inr b)
    note od = ec_objectD [OF Cons.prems(3)]
    obtain j where j: "j < length pieces" "b = pieces ! j"
      using Cons.prems(4) s(2) by (auto simp: Inr held_by_def pieces_only_def)
    obtain h where h: "parse_piece_header b = Some h" "piece_idx h = j" "unat (ph_k h) = k" "unat (ph_m h) = m"
      using od(3,4) j by metis
    have t: "unat (ph_k h + ph_m h) = k + m" using od(2) by (simp add: unat_word_ariths h(3,4))
    define base where "base = (if length slots \<noteq> k + m then replicate (k + m) None else slots)"
    have b: "slots_of pieces base" "filled slots \<subseteq> filled base"
      using Cons.prems(5) slots_of_none [of pieces] slots_of_length [of pieces slots] od(1,3)
      by (auto simp: scan_inv_def base_def filled_def)
    note fs = fill_slot_spec [OF b(1) j(1)]
    have inv: "scan_inv k m pieces (fill_slot j (pieces ! j) base) (Some h)" using fs(1) h(3,4) by (simp add: scan_inv_def)
    have "scan_strays E key is (fill_slot j (pieces ! j) base) (Some h) p1 = (q, res)"
      using Cons.prems(6) h(1,2) t by (simp add: g Inr j(2) base_def Let_def)
    note ih = Cons.IH [OF r1(1,2) Cons.prems(3) r1(3) inv this]
    have "avail V fine p key pieces {i} \<subseteq> {j}"
      using s(2) j ec_object_inj [OF Cons.prems(3)] od(3) by (auto simp: avail_def Inr held_by_def)
    with ih later b(2) obtain slots' hdr' where o: "step 0 (views V p1) p1 q" "res = Inr (slots', hdr')" "scan_inv k m pieces slots' hdr'"
        "filled slots \<union> (avail V fine p key pieces {i} \<union> avail V fine p key pieces (set is)) \<subseteq> filled slots'"
      unfolding fs(2) by (elim conjE exE) (rule that, assumption+, blast)
    show ?thesis using pool_step_trans [OF s(1) o(1)] o(2-4) unfolding split v1 by simp
  qed
qed

lemma probe_targets_spec:
  assumes "pool_ok ok 0 p" and "set targets \<subseteq> {0..<length (po_shards p)}" and "ec_object (pe_rs E) k m body pieces"
    and "ec_layout (views V p) key pieces targets" and "targets = pre @ sids"
    and "probe_targets E key targets (length pre) sids le p = (q, res)"
  shows "step 0 (views V p) p q \<and> (case res of Inr r \<Rightarrow> ec_answer p key pieces k body r | Inl e \<Rightarrow> avail V fine p key pieces (set sids) = {})"
  using assms
proof (induction sids arbitrary: p pre le)
  case Nil
  then show ?case using pool_step_refl by (auto simp: avail_def)
next
  case (Cons i sids)
  let ?pr = "length pre"
  have pr: "?pr < length targets" "targets ! ?pr = i" using Cons.prems(5) by (simp_all add: nth_append)
  have i: "i < length (po_shards p)" using Cons.prems(2,5) by auto
  obtain p1 r where g: "sh_get E i key p = (p1, r)" by fastforce
  from sh_get_answers [OF Cons.prems(1) i g] have s: "step 0 (views V p) p p1" "answers V fine p {i} key r" by auto
  note v1 = pool_step_views [OF s(1)] and n1 = frame_length [OF pool_step_frame [OF s(1)]]
  have p1: "pool_ok ok 0 p1" "set targets \<subseteq> {0..<length (po_shards p1)}" "ec_layout (views V p1) key pieces targets"
    using pool_step_ok0 [OF s(1) Cons.prems(1)] Cons.prems(2,4) by (simp_all add: v1 n1)
  show ?case
  proof (cases r)
    case (Inl e)
    have "probe_targets E key targets (length (pre @ [i])) sids (note_error le e) p1 = (q, res)" using Cons.prems(6) by (simp add: g Inl)
    note ih = Cons.IH [OF p1(1,2) Cons.prems(3) p1(3) _ this]
    have "avail V fine p key pieces (set (i # sids)) = avail V fine p key pieces {i} \<union> avail V fine p key pieces (set sids)"
      unfolding avail_Un [symmetric] by simp
    moreover have "avail V fine p key pieces {i} = {}" using s(2) by (intro avail_not_sure) (simp add: Inl)
    moreover have "avail V fine p key pieces (set sids) \<subseteq> avail V fine p1 key pieces (set sids)"
      by (rule avail_step [OF s(1)]) (use Cons.prems(2,5) in auto)
    ultimately have none: "avail V fine p1 key pieces (set sids) = {} \<longrightarrow> avail V fine p key pieces (set (i # sids)) = {}" by auto
    have "step 0 (views V p) p1 q" using ih Cons.prems(5) by (simp add: v1)
    from pool_step_trans [OF s(1) this] show ?thesis
      using ih Cons.prems(5) none ec_answer_earlier [OF s(1)] by (cases res) simp_all
  next
    case (Inr b)
    have b: "b = pieces ! ?pr" using s(2) pieces_only_target [OF Cons.prems(4) pr(1)] pr(2) by (auto simp: Inr held_by_def)
    obtain h where h: "parse_piece_header (pieces ! ?pr) = Some h"
      using ec_objectD(3,4) [OF Cons.prems(3)] pieces_only_target(2) [OF Cons.prems(4) pr(1)] by metis
    obtain q' r' where ga: "gather_ec E key targets ?pr (pieces ! ?pr) h p1 = (q', r')" by fastforce
    have e: "q = q'" "res = Inr r'" using Cons.prems(6) by (simp_all add: g Inr b h ga)
    from gather_ec_spec [OF p1(1,2) Cons.prems(3) p1(3) pr(1) h ga]
    show ?thesis using ec_answer_earlier [OF s(1)] pool_step_trans [OF s(1), of 0 _ q'] by (simp add: e v1)
  qed
qed

lemma get_ec_aware_spec:
  assumes ok: "pool_ok ok 0 p" and obj: "ec_object (pe_rs E) k m body pieces"
    and rank: "ranking_for E key (max (ec_total ec) (pc_replicas (pe_cfg E))) p = (p0, targets)"
    and lay: "ec_layout (views V p) key pieces targets" and get: "get_ec_aware E key ec p = (q, r)"
  shows "step 0 (views V p) p q \<and> ec_answer p key pieces k body r"
proof -
  note s0 = ranking_step [OF ok rank]
  note v0 = pool_step_views [OF s0(1)] and n0 = frame_length [OF pool_step_frame [OF s0(1)]]
  obtain p1 res where pt: "probe_targets E key targets 0 targets NotFound p0 = (p1, res)" by fastforce
  have pt': "probe_targets E key targets (length []) targets NotFound p0 = (p1, res)" using pt by simp
  from probe_targets_spec [OF pool_step_ok0 [OF s0(1) ok] _ obj _ _ pt']
  have s1: "step 0 (views V p) p0 p1" "case res of Inr r \<Rightarrow> ec_answer p0 key pieces k body r | Inl e \<Rightarrow> avail V fine p0 key pieces (set targets) = {}"
    using s0(3) lay by (simp_all add: v0 n0)
  have s01: "step 0 (views V p) p p1" using pool_step_trans [OF s0(1) s1(1)] by simp
  show ?thesis
  proof (cases res)
    case (Inr r')
    then have "q = p1" "r = r'" using get by (simp_all add: get_ec_aware_def rank pt)
    then show ?thesis using s01 s1(2) ec_answer_earlier [OF s0(1)] by (simp add: Inr)
  next
    case (Inl le)
    let ?N = "{0..<length (po_shards p)}"
    note v1 = pool_step_views [OF s01] and n1 = frame_length [OF pool_step_frame [OF s01]]
    have o: "set (others p1 targets) \<subseteq> ?N" by (auto simp: others_def n1)
    obtain p2 res2 where sc: "scan_strays E key (others p1 targets) [] None p1 = (p2, res2)" by fastforce
    have inv0: "scan_inv k m pieces [] None" by (simp add: scan_inv_def)
    from scan_strays_spec [OF pool_step_ok0 [OF s01 ok] _ obj _ inv0 sc] o ec_layout_only [OF lay, of "set (others p1 targets)"]
    obtain slots hdr where s2: "step 0 (views V p) p1 p2" "res2 = Inr (slots, hdr)" "scan_inv k m pieces slots hdr"
        "avail V fine p1 key pieces (set (others p1 targets)) \<subseteq> filled slots" by (auto simp: v1 n1)
    have s02: "step 0 (views V p) p p2" using pool_step_trans [OF s01 s2(1)] by simp
    have "avail V fine p key pieces (set targets) = {}" using s1(2) avail_step [OF s0(1) s0(3)] by (auto simp: Inl)
    moreover have "avail V fine p key pieces ?N = avail V fine p key pieces (set targets) \<union> avail V fine p key pieces (set (others p1 targets))"
      unfolding avail_Un [symmetric] using set_others [of targets p1] s0(3) n1 by (metis sup.absorb_iff2)
    ultimately have sub: "avail V fine p key pieces ?N \<subseteq> filled slots" using s2(4) avail_step [OF s01 o] by blast
    have few: "card (avail V fine p key pieces ?N) \<le> present slots" unfolding present_filled by (rule card_mono [OF finite_filled sub])
    show ?thesis
    proof (cases hdr)
      case None
      then have e: "q = p2" "r = Inl le" using get by (simp_all add: get_ec_aware_def rank pt Inl sc s2(2))
      have "present slots = 0" using s2(3) None by (simp add: scan_inv_def present_def)
      then show ?thesis using s02 few ec_objectD(1) [OF obj] by (simp add: e ec_answer_def)
    next
      case (Some h)
      then have h: "unat (ph_k h) = k" "unat (ph_m h) = m" "slots_of pieces slots" using s2(3) by (auto simp: scan_inv_def)
      show ?thesis
      proof (cases "k \<le> present slots")
        case True
        then have e: "q = tally EcReconstructs 1 p2" "r = ec_decode (pe_rs E) slots k m"
          using get by (simp_all add: get_ec_aware_def rank pt Inl sc s2(2) Some h)
        have "step 0 (views V p) p q" by (rule pool_step_after [OF s02]) (simp_all add: e)
        then show ?thesis using decode_answer [OF obj h(3)] True by (simp add: e)
      next
        case False
        then have "q = p2" "r = Inl le" using get by (simp_all add: get_ec_aware_def rank pt Inl sc s2(2) Some h)
        then show ?thesis using s02 few False by (simp add: ec_answer_def)
      qed
    qed
  qed
qed

end

end
