(* ===== verification/Pool_Ec_Thms.thy ===== *)
theory Pool_Ec_Thms
  imports Pool_Ec_Get_Laws Pool_Thms
begin

text \<open>
  The erasure-coded pool over disk engines: what a write places, and that an acknowledged object outlives as many
  failing shards as its quorum exceeds the number of data pieces.
\<close>

section \<open>Configuration\<close>

text \<open>Bodies of this size are coded by \<open>ec\<close>, without outboard records.\<close>

definition coded_cfg :: "pool_config \<Rightarrow> ec_config \<Rightarrow> bool" where
  "coded_cfg cfg ec \<longleftrightarrow> pc_ec cfg = Some ec \<and> pc_outboard cfg = None"

text \<open>The code library keeps its contract for \<open>ec\<close>, and key and body are in the range the engine stores.\<close>

definition codable :: "rs_ops \<Rightarrow> ec_config \<Rightarrow> block_key \<Rightarrow> bytes \<Rightarrow> bool" where
  "codable rs ec k b \<longleftrightarrow> rs_contract rs (ec_data ec) (ec_parity ec) \<and> ec_params (ec_data ec) (ec_parity ec) b \<and>
     ec_min_size ec \<le> length b \<and> length k < 2 ^ 16 \<and> length b + EC_HEADER_LEN < 2 ^ 32"

lemma div_ceil_le: "0 < k \<Longrightarrow> div_ceil n k \<le> n"
proof (cases "n mod k = 0")
  case False
  moreover assume "0 < k"
  ultimately have "1 < k" "0 < n" by (cases "k = 1", simp_all) (cases "n = 0", simp_all)
  from div_less_dividend [OF this] show ?thesis by (simp add: div_ceil_def)
qed (simp add: div_ceil_def)

lemma ranking_tally: "snd (ranking_for E k n (tally c m p)) = snd (ranking_for E k n p)"
  by (simp add: ranking_for_def tally_def topology_metrics Let_def split_beta)

lemma codable_pieces:
  assumes "codable rs ec k b"
  obtains pieces where "ec_encode rs b ec = Inr pieces" "length pieces = ec_total ec"
    "\<forall>j < ec_total ec. fits k (pieces ! j)" "ec_object rs (ec_data ec) (ec_parity ec) b pieces"
proof -
  have c: "rs_contract rs (ec_data ec) (ec_parity ec)" "ec_params (ec_data ec) (ec_parity ec) b" "length k < 2 ^ 16"
      "length b + EC_HEADER_LEN < 2 ^ 32" and par: "0 < ec_data ec" "b \<noteq> []"
    using assms by (auto simp: codable_def ec_params_def)
  obtain parity where e: "ec_encode rs b ec = Inr (map2 (ec_piece (ec_data ec) (ec_parity ec) (length b)) [0..<ec_total ec]
        (data_stripes b (ec_data ec) @ parity))"
      "length parity = ec_parity ec" "uniform (ec_stripe b (ec_data ec)) (data_stripes b (ec_data ec) @ parity)"
    using ec_encode_pieces [OF c(1), of b] unfolding ec_total_def by blast
  let ?code = "data_stripes b (ec_data ec) @ parity"
  let ?pieces = "map2 (ec_piece (ec_data ec) (ec_parity ec) (length b)) [0..<ec_total ec] ?code"
  have l: "length ?code = ec_total ec" using e(2) by (simp add: ec_total_def)
  have "fits k (?pieces ! j)" if j: "j < ec_total ec" for j
  proof -
    have "length (?code ! j) = ec_stripe b (ec_data ec)" using e(3) j l unfolding uniform_def list_all_length by metis
    also have "\<dots> \<le> length b" using ec_stripe_nonempty [OF par(2,1)] div_ceil_le [OF par(1)] by simp
    finally have "EC_HEADER_LEN + length (?code ! j) < 2 ^ 32" using c(4) by simp
    moreover have "length (?pieces ! j) = EC_HEADER_LEN + length (?code ! j)"
      using j l by (simp only: nth_map length_zip length_upt nth_zip) (simp add: ec_piece_def)
    ultimately show ?thesis using c(3) by (simp only: fits_def)
  qed
  then show ?thesis using that [of ?pieces] e(1) l ec_object_encode [OF c(1,2) e(1)] by (simp del: length_append)
qed

lemma pool_put_coded:
  assumes "coded_cfg (pe_cfg E) ec" and "codable (pe_rs E) ec k b" and "\<not> po_shutting_down p" and "pool_put E k b p = (p', r)"
  obtains q where "put_ec E k b ec (tally InflightPuts 1 p) = (q, r)" "po_shards p' = po_shards q" "po_topo p' = po_topo q"
    "po_mrf p' = po_mrf q" "po_shutting_down p' = po_shutting_down q"
proof -
  obtain q r' where q: "put_ec E k b ec (tally InflightPuts 1 p) = (q, r')" by fastforce
  have "put_inner E k b (tally InflightPuts 1 p) = (q, r')" using assms(1,2) q by (simp add: put_inner_def put_body_def coded_cfg_def codable_def)
  then show ?thesis using assms(3,4) that [of q] q by (cases r') (auto simp: pool_put_def is_shutting_down_def Let_def)
qed

lemma pool_get_coded:
  assumes "coded_cfg (pe_cfg E) ec" and "pool_get E k p = (p', r)"
  obtains q where "get_ec_aware E k ec (tally InflightGets 1 p) = (q, r)" "po_shards p' = po_shards q" "po_topo p' = po_topo q"
    "po_mrf p' = po_mrf q" "po_shutting_down p' = po_shutting_down q"
proof -
  obtain q r' where q: "get_ec_aware E k ec (tally InflightGets 1 p) = (q, r')" by fastforce
  have "get_inner E k (tally InflightGets 1 p) = (q, r')" using assms(1) q by (simp add: get_inner_def coded_cfg_def)
  then show ?thesis using assms(2) that [of q] q
    by (cases r') (auto simp: pool_get_def Let_def split: domain_error.splits)
qed

section \<open>Writing\<close>

text \<open>What an erasure-coded put does to the maps of the shards.\<close>

lemma coded_put_placed:
  assumes "engine_laws EE" and "disk_pool EE pol xxh3 PE" and "coded_cfg (pe_cfg PE) ec" and "codable (pe_rs PE) ec k b"
    and "\<not> po_shutting_down p" and "pool_ok (engine_ok EE) (length (po_shards p)) p" and "pool_put PE k b p = (p', r)"
  shows "let targets = snd (ranking_for PE k (ec_total ec) p); pieces = projr (ec_encode (pe_rs PE) b ec) in
    \<exists>f. placement f {0..<length (po_shards p)} {0..<length targets} \<and>
      views (view EE) p' = place_at pieces f k (views (view EE) p) \<and> (isl r \<longleftrightarrow> card (dom f) < ec_write_quorum ec) \<and>
      (\<forall>s j. f s = Some j \<longrightarrow> targets ! j = s \<or> s \<notin> set targets) \<and>
      (ec_write_quorum ec \<le> length targets \<longrightarrow> (\<forall>t \<in> set targets - dom f. \<not> engine_fine (po_shards p ! t)) \<and>
         po_mrf p' = (if set targets \<subseteq> dom f then po_mrf p else hq_push (po_mrf p) k Normal)) \<and>
      pool_ok (engine_ok EE) 0 p' \<and> (\<forall>i < length (po_shards p). engine_fine (po_shards p ! i) \<longrightarrow> engine_fine (po_shards p' ! i))"
proof -
  note laws = disk_pool_laws [OF assms(1,2)]
  let ?p = "tally InflightPuts 1 p"
  obtain q where q: "put_ec PE k b ec ?p = (q, r)" "po_shards p' = po_shards q" "po_topo p' = po_topo q" "po_mrf p' = po_mrf q"
      "po_shutting_down p' = po_shutting_down q" using pool_put_coded [OF assms(3,4,5,7)] .
  obtain pieces where pieces: "ec_encode (pe_rs PE) b ec = Inr pieces" "\<forall>j < ec_total ec. fits k (pieces ! j)"
    using codable_pieces [OF assms(4)] .
  obtain p0 targets where rank: "ranking_for PE k (ec_total ec) ?p = (p0, targets)" by fastforce
  have t: "snd (ranking_for PE k (ec_total ec) p) = targets" using ranking_tally [of PE k "ec_total ec" InflightPuts 1 p] unfolding rank by simp
  have "pool_ok (engine_ok EE) (length (po_shards ?p)) ?p" using assms(6) by simp
  from pool_laws.put_ec_step [OF laws this q(1) rank pieces] obtain f where f: "placement f {0..<length (po_shards p)} {0..<length targets}"
      "pool_stepq (engine_ok EE) (view EE) engine_fine (length (po_shards p)) (place_at pieces f k (views (view EE) p)) ?p q"
      "isl r \<longleftrightarrow> card (dom f) < ec_write_quorum ec" "\<forall>s j. f s = Some j \<longrightarrow> targets ! j = s \<or> s \<notin> set targets"
      "ec_write_quorum ec \<le> length targets \<longrightarrow> (\<forall>t \<in> set targets - dom f. \<not> engine_fine (po_shards p ! t)) \<and>
         po_mrf q = (if set targets \<subseteq> dom f then po_mrf p else hq_push (po_mrf p) k Normal)"
    unfolding tally_irrelevant tally_fields by (elim exE conjE) (rule that)
  note d = pool_stepqD [OF f(2)]
  have "pool_ok (engine_ok EE) 0 q" using d(1) [of 0] assms(6) by simp
  then have "pool_ok (engine_ok EE) 0 p'" by (simp add: pool_ok_def q)
  moreover have "views (view EE) p' = place_at pieces f k (views (view EE) p)" using d(2) by (simp add: views_def q)
  moreover have "\<forall>i < length (po_shards p). engine_fine (po_shards p ! i) \<longrightarrow> engine_fine (po_shards p' ! i)" using d(5) by (simp add: q)
  ultimately show ?thesis unfolding Let_def t pieces(1) sum.sel using f q(4) by (intro exI [of _ f]) simp
qed

text \<open>An erasure-coded put places pieces of the body on distinct shards, no piece twice: each on its own target, or handed off to
  a shard that is no target. It succeeds exactly when as many distinct pieces as the quorum asks are placed, and, unless
  there are too few targets to begin with, every target left without its piece has a fault and the key is queued for repair.\<close>

theorem pool_put_pieces:
  assumes "engine_laws EE" and "disk_pool EE pol xxh3 PE" and "coded_cfg (pe_cfg PE) ec" and "codable (pe_rs PE) ec k b"
    and "\<not> po_shutting_down p" and "pool_ok (engine_ok EE) (length (po_shards p)) p" and "pool_put PE k b p = (p', r)"
  shows "let targets = snd (ranking_for PE k (ec_total ec) p); pieces = projr (ec_encode (pe_rs PE) b ec) in
    \<exists>f. placement f {0..<length (po_shards p)} {0..<length targets} \<and>
      views (view EE) p' = place_at pieces f k (views (view EE) p) \<and> (isl r \<longleftrightarrow> card (dom f) < ec_write_quorum ec) \<and>
      (\<forall>s j. f s = Some j \<longrightarrow> targets ! j = s \<or> s \<notin> set targets) \<and>
      (ec_write_quorum ec \<le> length targets \<longrightarrow> (\<forall>t \<in> set targets - dom f. \<not> engine_fine (po_shards p ! t)) \<and>
         po_mrf p' = (if set targets \<subseteq> dom f then po_mrf p else hq_push (po_mrf p) k Normal)) \<and>
      pool_ok (engine_ok EE) 0 p' \<and> (\<forall>i < length (po_shards p). engine_fine (po_shards p ! i) \<longrightarrow> engine_fine (po_shards p' ! i))"
  using assms by (rule coded_put_placed)

section \<open>Surviving failures\<close>

text \<open>The layout a placement leaves where no shard held the key before.\<close>

lemma layout_of_placement:
  assumes p: "placement f {0..<length vs} {0..<length targets}" and t: "distinct targets" "set targets \<subseteq> {0..<length vs}" "length targets \<le> length pieces"
    and at: "\<forall>s j. f s = Some j \<longrightarrow> targets ! j = s \<or> s \<notin> set targets" and fresh: "\<forall>i < length vs. (vs ! i) k = None"
  shows "ec_layout (place_at pieces f k vs) k pieces targets"
proof -
  have held: "(place_at pieces f k vs ! i) k = map_option ((!) pieces) (f i)" if "i < length vs" for i
    using that fresh by (simp split: option.split)
  have rank: "f i = Some j \<Longrightarrow> j < length pieces" for i j using p t(3) by (fastforce simp: placement_def ran_def)
  have own: "f (targets ! r) \<in> {None, Some r}" if r: "r < length targets" for r
  proof (cases "f (targets ! r)")
    case (Some j)
    then have "targets ! j = targets ! r" "j < length targets" using at nth_mem [OF r] p by (blast, auto simp: placement_def ran_def)
    then show ?thesis using t(1) r Some by (simp add: nth_eq_iff_index_eq)
  qed simp
  have "(place_at pieces f k vs ! (targets ! r)) k \<in> {None, Some (pieces ! r)}" if r: "r < length targets" for r
  proof -
    have "targets ! r < length vs" using t(2) nth_mem [OF r] by auto
    then show ?thesis using own [OF r] held by auto
  qed
  moreover have "pieces_only (place_at pieces f k vs) k pieces ({0..<length (place_at pieces f k vs)} - set targets)"
    unfolding pieces_only_def
  proof
    fix i assume "i \<in> {0..<length (place_at pieces f k vs)} - set targets"
    then have "(place_at pieces f k vs ! i) k = map_option ((!) pieces) (f i)" using held by simp
    then show "(place_at pieces f k vs ! i) k = None \<or> (\<exists>j < length pieces. (place_at pieces f k vs ! i) k = Some (pieces ! j))"
      using rank [of i] by (cases "f i") auto
  qed
  ultimately show ?thesis using t(3) unfolding ec_layout_def by blast
qed

lemma avail_of_placement:
  assumes "placement f {0..<length (po_shards p)} {0..<length pieces}" and "views V p = place_at pieces f k vs" and "length vs = length (po_shards p)"
    and "card {i. i < length (po_shards p) \<and> \<not> fine (po_shards p ! i)} + n \<le> card (dom f)"
  shows "n \<le> card (avail V fine p k pieces {0..<length (po_shards p)})"
proof -
  let ?bad = "{i. i < length (po_shards p) \<and> \<not> fine (po_shards p ! i)}"
  have fin: "finite (dom f)" using assms(1) by (auto simp: placement_def intro: finite_subset)
  have "n \<le> card (dom f - ?bad)" using assms(4) diff_card_le_card_Diff [of ?bad "dom f"] by simp
  also have "\<dots> = card ((\<lambda>i. the (f i)) ` (dom f - ?bad))"
    using assms(1) by (intro card_image [symmetric]) (auto simp: placement_def inj_on_def dom_def)
  also have "\<dots> \<le> card (avail V fine p k pieces {0..<length (po_shards p)})"
  proof (rule card_mono [OF finite_avail], rule subsetI)
    fix j assume "j \<in> (\<lambda>i. the (f i)) ` (dom f - ?bad)"
    then obtain i where i: "f i = Some j" "i < length (po_shards p)" "fine (po_shards p ! i)" "j < length pieces"
      using assms(1) by (fastforce simp: placement_def ran_def)
    then have "(views V p ! i) k = Some (pieces ! j)" by (simp add: assms(2,3))
    then show "j \<in> avail V fine p k pieces {0..<length (po_shards p)}" using i by (auto simp: avail_def)
  qed
  finally show ?thesis .
qed

text \<open>C18: durability of an acknowledged erasure-coded write of a fresh key (no shard has it). While the ranking of the key is the one it was written
  under and no more mirror copies than pieces are configured, a read returns the body as long as the failing shards are no more than the write
  quorum exceeds the number of data pieces, wherever the pieces went.\<close>

theorem pool_pieces_survive:
  assumes "engine_laws EE" and "disk_pool EE pol xxh3 PE" and "coded_cfg (pe_cfg PE) ec" and "codable (pe_rs PE) ec k b"
    and "\<not> po_shutting_down p" and "pool_ok (engine_ok EE) (length (po_shards p)) p" and "pool_put PE k b p = (p1, Inr u)"
    and fresh: "\<forall>i < length (po_shards p). (views (view EE) p ! i) k = None"
    and later: "pool_ok (engine_ok EE) 0 p2" "views (view EE) p2 = views (view EE) p1"
    and same: "pc_replicas (pe_cfg PE) \<le> ec_total ec" "snd (ranking_for PE k (ec_total ec) p2) = snd (ranking_for PE k (ec_total ec) p)"
    and failed: "card {i. i < length (po_shards p) \<and> \<not> engine_fine (po_shards p2 ! i)} + ec_data ec \<le> ec_write_quorum ec"
  shows "\<exists>p3. pool_get PE k p2 = (p3, Inr b)"
proof -
  note laws = disk_pool_laws [OF assms(1,2)]
  obtain pieces where pieces: "ec_encode (pe_rs PE) b ec = Inr pieces" "length pieces = ec_total ec"
      "ec_object (pe_rs PE) (ec_data ec) (ec_parity ec) b pieces" using codable_pieces [OF assms(4)] .
  obtain p0 targets where rank: "ranking_for PE k (ec_total ec) p = (p0, targets)" by fastforce
  have ok0: "pool_ok (engine_ok EE) 0 p" using assms(6) pool_laws.ok_weaken [OF laws] by blast
  note s0 = pool_laws.ranking_step [OF laws ok0 rank]
  from coded_put_placed [OF assms(1-7)] obtain f where f: "placement f {0..<length (po_shards p)} {0..<length targets}"
      "views (view EE) p1 = place_at pieces f k (views (view EE) p)" "ec_write_quorum ec \<le> card (dom f)"
      "\<forall>s j. f s = Some j \<longrightarrow> targets ! j = s \<or> s \<notin> set targets"
    by (auto simp: rank pieces(1) Let_def not_less)
  have v2: "views (view EE) p2 = place_at pieces f k (views (view EE) p)" using later(2) f(2) by simp
  have n2: "length (po_shards p2) = length (po_shards p)" using arg_cong [OF v2, of length] by simp
  let ?p = "tally InflightGets 1 p2"
  obtain p3 r where g: "pool_get PE k p2 = (p3, r)" by fastforce
  obtain q where q: "get_ec_aware PE k ec ?p = (q, r)" using pool_get_coded [OF assms(3) g] by metis
  have "max (ec_total ec) (pc_replicas (pe_cfg PE)) = ec_total ec" using same(1) by simp
  then obtain p0' where rank2: "ranking_for PE k (max (ec_total ec) (pc_replicas (pe_cfg PE))) ?p = (p0', targets)"
    using same(2) rank ranking_tally [of PE k "ec_total ec" InflightGets 1 p2] by (metis prod.collapse snd_conv)
  have lay: "ec_layout (views (view EE) ?p) k pieces targets"
    unfolding tally_irrelevant v2 by (rule layout_of_placement) (use f(1,4) s0(2-4) fresh pieces(2) in simp_all)
  have "pool_ok (engine_ok EE) 0 ?p" using later(1) by simp
  from pool_laws.get_ec_aware_spec [OF laws this pieces(3) rank2 lay q]
  have "pool_laws.ec_answer (view EE) engine_fine ?p k pieces (ec_data ec) b r" by blast
  moreover have "ec_data ec \<le> card (avail (view EE) engine_fine ?p k pieces {0..<length (po_shards ?p)})"
  proof (rule avail_of_placement)
    show "placement f {0..<length (po_shards ?p)} {0..<length pieces}" by (rule placement_mono [OF f(1)]) (use s0(4) n2 pieces(2) in auto)
    show "views (view EE) ?p = place_at pieces f k (views (view EE) p)" "length (views (view EE) p) = length (po_shards ?p)"
      using v2 n2 by simp_all
    show "card {i. i < length (po_shards ?p) \<and> \<not> engine_fine (po_shards ?p ! i)} + ec_data ec \<le> card (dom f)"
      using failed f(3) by (simp add: n2)
  qed
  ultimately have "r = Inr b" unfolding pool_laws.ec_answer_def [OF laws] by simp
  with g show ?thesis by blast
qed

section \<open>A concrete erasure-coded pool\<close>

definition ec_sample :: ec_config where
  "ec_sample = ec_config_default\<lparr>ec_data := 2, ec_parity := 1, ec_write_quorum := 3, ec_min_size := 4\<rparr>"

definition ec_pool_env :: "((bytes \<times> bytes) list, (bytes \<times> u64) list) engine pool_env" where
  "ec_pool_env = ref_pool_env\<lparr>pe_cfg := pool_config_default\<lparr>pc_ec := Some ec_sample\<rparr>\<rparr>"

lemma ec_disk_pool: "disk_pool ref_env rendezvous_default (\<lambda>key seed. seed) ec_pool_env"
  by (simp add: disk_pool_def ref_pool_env_def ec_pool_env_def)

lemma ec_pool_cfg: "coded_cfg (pe_cfg ec_pool_env) ec_sample" "pc_replicas (pe_cfg ec_pool_env) \<le> ec_total ec_sample"
  "ec_total ec_sample = 3" "ec_write_quorum ec_sample = 3" "ec_data ec_sample = 2"
  by (simp_all add: coded_cfg_def ec_pool_env_def pool_config_default_def ec_sample_def ec_total_def)

lemma ec_pool_codable: "codable (pe_rs ec_pool_env) ec_sample [7] [1, 2, 3, 4, 5]"
  using xor_rs_contract by (simp add: codable_def ec_pool_env_def ref_pool_env_def ec_sample_def ec_params_def EC_HEADER_LEN_def)

text \<open>While the cached topology is the sample one, all three shards are targets.\<close>

lemma ec_pool_ranking:
  assumes "po_topo p = Some (po_clock p, sample_shards)"
  shows "ranking_for ec_pool_env k 3 p = (p, select rendezvous_default (\<lambda>key seed. seed) k sample_shards 3)"
    "length (select rendezvous_default (\<lambda>key seed. seed) k sample_shards 3) = 3"
    "set (select rendezvous_default (\<lambda>key seed. seed) k sample_shards 3) \<subseteq> {0..<3}"
proof -
  show "ranking_for ec_pool_env k 3 p = (p, select rendezvous_default (\<lambda>key seed. seed) k sample_shards 3)"
    using assms by (simp add: ranking_for_def pool_topology_def ec_pool_env_def ref_pool_env_def pool_config_default_def)
  have "filter (\<lambda>(_, cap, st). eligible rendezvous_default cap st) sample_shards = sample_shards"
    by (simp add: sample_shards_def eligible_def capacity_default_def)
  then have "length (ranking rendezvous_default (\<lambda>key seed. seed) k sample_shards) = 3"
    unfolding length_ranking by (simp add: sample_shards_def)
  then show "length (select rendezvous_default (\<lambda>key seed. seed) k sample_shards 3) = 3" by (simp add: select_def)
  have "distinct (map fst sample_shards)" by (simp add: sample_shards_def)
  from select_laws(1) [OF this, of rendezvous_default "\<lambda>key seed. seed" k 3]
  show "set (select rendezvous_default (\<lambda>key seed. seed) k sample_shards 3) \<subseteq> {0..<3}" by (auto simp: sample_shards_def)
qed

text \<open>A placement as the write leaves it on the sample shards holds all three pieces.\<close>

lemma sample_placed:
  assumes "placement f {0..<3} {0..<3}" and "isl r \<longleftrightarrow> card (dom f) < 3"
    and "\<forall>t \<in> set (select rendezvous_default (\<lambda>key seed. seed) [7] sample_shards 3) - dom f. \<not> engine_fine (po_shards ref_pool ! t)"
  shows "card (dom f) = 3 \<and> r = Inr ()"
proof -
  let ?t = "select rendezvous_default (\<lambda>key seed. seed) [7] sample_shards 3"
  have topo: "po_topo ref_pool = Some (po_clock ref_pool, sample_shards)" by (simp add: ref_pool_fields)
  note rk = ec_pool_ranking [OF topo, of "[7]"]
  have "engine_fine (po_shards ref_pool ! t)" if "t \<in> set ?t" for t
    using that rk(3) by (intro ref_pool_all_fine) (auto simp: ref_pool_fields)
  then have "set ?t \<subseteq> dom f" using assms(3) by blast
  moreover have "finite (dom f)" using assms(1) by (auto simp: placement_def intro: finite_subset)
  moreover have "card (set ?t) = 3" using rk(2) select_laws(2) [of sample_shards] by (simp add: distinct_card sample_shards_def)
  ultimately have "3 \<le> card (dom f)" using card_mono [of "dom f" "set ?t"] by simp
  moreover have "card (dom f) \<le> 3" using assms(1) card_mono [of "{0..<3}" "dom f"] by (simp add: placement_def)
  ultimately show ?thesis using assms(2) by (cases r) simp_all
qed

lemma sample_put:
  obtains p1 r where "pool_put ec_pool_env [7] [1, 2, 3, 4, 5] ref_pool = (p1, r)" 
    "pool_ok (engine_ok ref_env) (length (po_shards ref_pool)) ref_pool" "length (po_shards ref_pool) = 3"
    "ranking_for ec_pool_env [7] 3 ref_pool = (ref_pool, select rendezvous_default (\<lambda>key seed. seed) [7] sample_shards 3)"
    "length (select rendezvous_default (\<lambda>key seed. seed) [7] sample_shards 3) = 3"
proof -
  have "pool_ok (engine_ok ref_env) (length (po_shards ref_pool)) ref_pool" by (rule ref_pool_ok) (simp add: ref_pool_fields)
  moreover have "po_topo ref_pool = Some (po_clock ref_pool, sample_shards)" "length (po_shards ref_pool) = 3" by (simp_all add: ref_pool_fields)
  ultimately show ?thesis using that ec_pool_ranking [of ref_pool "[7]"] by (cases "pool_put ec_pool_env [7] [1, 2, 3, 4, 5] ref_pool") simp
qed

theorem pool_put_pieces_witness:
  "\<exists>p1 f. pool_put ec_pool_env [7] [1, 2, 3, 4, 5] ref_pool = (p1, Inr ()) \<and> card (dom f) = 3 \<and> inj_on f (dom f) \<and>
     views (view ref_env) p1 = place_at (projr (ec_encode xor_rs [1, 2, 3, 4, 5] ec_sample)) f [7] (views (view ref_env) ref_pool)"
proof -
  obtain p1 r where s: "pool_put ec_pool_env [7] [1, 2, 3, 4, 5] ref_pool = (p1, r)"
    "pool_ok (engine_ok ref_env) (length (po_shards ref_pool)) ref_pool" "length (po_shards ref_pool) = 3"
    "ranking_for ec_pool_env [7] 3 ref_pool = (ref_pool, select rendezvous_default (\<lambda>key seed. seed) [7] sample_shards 3)"
    "length (select rendezvous_default (\<lambda>key seed. seed) [7] sample_shards 3) = 3" by (rule sample_put)
  from pool_put_pieces [OF ref_env.engine_laws_axioms ec_disk_pool ec_pool_cfg(1) ec_pool_codable ref_pool_fields(3) s(2,1),
      unfolded Let_def ec_pool_cfg s(3,4,5) snd_conv]
  obtain f where f: "placement f {0..<3} {0..<3}" "isl r \<longleftrightarrow> card (dom f) < 3"
    "\<forall>t \<in> set (select rendezvous_default (\<lambda>key seed. seed) [7] sample_shards 3) - dom f. \<not> engine_fine (po_shards ref_pool ! t)"
    "views (view ref_env) p1 = place_at (projr (ec_encode (pe_rs ec_pool_env) [1, 2, 3, 4, 5] ec_sample)) f [7] (views (view ref_env) ref_pool)"
    by (elim exE conjE) (rule that, assumption+, simp, assumption)
  have "card (dom f) = 3 \<and> r = Inr ()" using f(1-3) by (rule sample_placed)
  then show ?thesis using s(1) f(1,4) by (intro exI [of _ p1] exI [of _ f]) (simp add: placement_def ec_pool_env_def ref_pool_env_def)
qed

lemma sample_written:
  obtains p1 where "pool_put ec_pool_env [7] [1, 2, 3, 4, 5] ref_pool = (p1, Inr ())" "pool_ok (engine_ok ref_env) 0 p1"
    "\<forall>i < 3. engine_fine (po_shards p1 ! i)" "length (po_shards p1) = 3"
proof -
  obtain p1 r where s: "pool_put ec_pool_env [7] [1, 2, 3, 4, 5] ref_pool = (p1, r)"
    "pool_ok (engine_ok ref_env) (length (po_shards ref_pool)) ref_pool" "length (po_shards ref_pool) = 3"
    "ranking_for ec_pool_env [7] 3 ref_pool = (ref_pool, select rendezvous_default (\<lambda>key seed. seed) [7] sample_shards 3)"
    "length (select rendezvous_default (\<lambda>key seed. seed) [7] sample_shards 3) = 3" by (rule sample_put)
  from coded_put_placed [OF ref_env.engine_laws_axioms ec_disk_pool ec_pool_cfg(1) ec_pool_codable ref_pool_fields(3) s(2,1),
      unfolded Let_def ec_pool_cfg s(3,4,5) snd_conv]
  obtain f where f: "placement f {0..<3} {0..<3}" "isl r \<longleftrightarrow> card (dom f) < 3"
    "\<forall>t \<in> set (select rendezvous_default (\<lambda>key seed. seed) [7] sample_shards 3) - dom f. \<not> engine_fine (po_shards ref_pool ! t)"
    "views (view ref_env) p1 = place_at (projr (ec_encode (pe_rs ec_pool_env) [1, 2, 3, 4, 5] ec_sample)) f [7] (views (view ref_env) ref_pool)"
    "pool_ok (engine_ok ref_env) 0 p1" "\<forall>i < 3. engine_fine (po_shards ref_pool ! i) \<longrightarrow> engine_fine (po_shards p1 ! i)"
    by (elim exE conjE) (rule that, assumption+, simp, assumption+)
  have "card (dom f) = 3 \<and> r = Inr ()" using f(1-3) by (rule sample_placed)
  moreover have "length (po_shards p1) = 3" using arg_cong [OF f(4), of length] s(3) by simp
  ultimately show ?thesis using that [of p1] s(1,3) f(5,6) ref_pool_all_fine by simp
qed

theorem pool_pieces_survive_witness:
  "\<exists>p1 p3. pool_put ec_pool_env [7] [1, 2, 3, 4, 5] ref_pool = (p1, Inr ()) \<and>
     pool_get ec_pool_env [7] (p1\<lparr>po_topo := Some (po_clock p1, sample_shards)\<rparr>) = (p3, Inr [1, 2, 3, 4, 5])"
proof -
  obtain p1 where p1: "pool_put ec_pool_env [7] [1, 2, 3, 4, 5] ref_pool = (p1, Inr ())" "pool_ok (engine_ok ref_env) 0 p1"
      "\<forall>i < 3. engine_fine (po_shards p1 ! i)" "length (po_shards p1) = 3"
    by (rule sample_written)
  let ?p2 = "p1\<lparr>po_topo := Some (po_clock p1, sample_shards)\<rparr>"
  have none: "{i. i < length (po_shards ref_pool) \<and> \<not> engine_fine (po_shards ?p2 ! i)} = {}" using p1(3) by (simp add: ref_pool_fields(1))
  have "\<exists>p3. pool_get ec_pool_env [7] ?p2 = (p3, Inr [1, 2, 3, 4, 5])"
  proof (rule pool_pieces_survive [OF ref_env.engine_laws_axioms ec_disk_pool ec_pool_cfg(1) ec_pool_codable ref_pool_fields(3) _ p1(1) _ _ _ ec_pool_cfg(2)])
    show "pool_ok (engine_ok ref_env) (length (po_shards ref_pool)) ref_pool" by (rule ref_pool_ok) (simp add: ref_pool_fields)
    show "\<forall>i < length (po_shards ref_pool). (views (view ref_env) ref_pool ! i) [7] = None" by (simp add: ref_pool_fields(1) ref_pool_views)
    show "pool_ok (engine_ok ref_env) 0 ?p2" using p1(2,4) by (simp add: pool_ok_def topo_ok_def sample_shards_def upt_rec)
    show "views (view ref_env) ?p2 = views (view ref_env) p1" by (simp add: views_def)
    show "snd (ranking_for ec_pool_env [7] (ec_total ec_sample) ?p2) = snd (ranking_for ec_pool_env [7] (ec_total ec_sample) ref_pool)"
      using ec_pool_ranking(1) [of ref_pool "[7]"] ec_pool_ranking(1) [of ?p2 "[7]"] by (simp add: ec_pool_cfg ref_pool_fields)
    show "card {i. i < length (po_shards ref_pool) \<and> \<not> engine_fine (po_shards ?p2 ! i)} + ec_data ec_sample \<le> ec_write_quorum ec_sample"
      unfolding none by (simp add: ec_pool_cfg)
  qed
  with p1(1) show ?thesis by blast
qed

end
