(* ===== verification/Cache_Thms.thy ===== *)
theory Cache_Thms
  imports Cache_Flight Pool_Repair_Thms Pool_Ec_Thms
begin

text \<open>
  What the cache tier guarantees: the answers concurrent calls get, one reader of the legs per key, no waiter left behind, the effect of
  the eviction loop, and a small overwrite that the cache does not see.
\<close>

section \<open>Concurrent calls\<close>

text \<open>C7: under any interleaving of gets, puts and deletes by any number of threads, a get of the cache tier over a mirrored pool returns
  only a body the tier had for that key at the start or a call put under that key, and it fails only when no fault-free shard of the pool had the
  key at the start or a delete of that key is among the calls (\<open>A\<close> says which calls are made). A fault of the cache leg is no reason to fail: a
  tier without a byte bound answers from the pool whatever reads of the leg fail, and a tier that evicts needs a leg that reads without faults.\<close>

theorem cache_answers:
  assumes "engine_laws EE" and "disk_pool EE pol xxh3 PE" and "mirror_cfg (pe_cfg PE)" and "0 < pc_write_quorum (pe_cfg PE)"
    and "engine_laws CE" and "ce_inner E = pool_store PE" and "ce_ops E = disk_ops CE"
    and "tier_ok (pool_room EE) (disk_leg_ok (0 < cc_max_bytes (ce_cfg E)) CE) (view CE) w t0" and "\<And>k b. A (CallPut k b) \<Longrightarrow> fits k b"
    and "reach E A (system_start t0) w s" and "sy_pcs s t = Returned (GotBody k r)"
  shows "case r of Inr b \<Rightarrow> tier_holds (pool_holds EE) (view CE) t0 k b \<or> A (CallPut k b)
    | Inl e \<Rightarrow> \<not> pool_live EE (ct_inner t0) k \<or> A (CallDelete k)"
  by (rule cached_store.concurrent_answers [OF disk_cached_store [OF assms(1-7)] assms(8-11)])

text \<open>The samples: the tier over the pool that has one body, and a tier without a bound whose cache has the body but does not answer the first read.\<close>

definition lone_tier :: "(((bytes \<times> bytes) list, (bytes \<times> u64) list) engine pool, ((bytes \<times> bytes) list, (bytes \<times> u64) list) engine) cache_tier" where
  "lone_tier = ref_tier\<lparr>ct_inner := lone_pool\<rparr>"

definition broken_leg :: "((bytes \<times> bytes) list, (bytes \<times> u64) list) engine" where
  "broken_leg = lone_engine\<lparr>en_index_faults := [Fault NoSuchFile 0]\<rparr>"

definition broken_env :: "(((bytes \<times> bytes) list, (bytes \<times> u64) list) engine pool, ((bytes \<times> bytes) list, (bytes \<times> u64) list) engine) cache_env" where
  "broken_env = ref_cache_env\<lparr>ce_cfg := \<lparr>cc_max_bytes = 0, cc_min_size = 2\<rparr>\<rparr>"

definition broken_tier :: "(((bytes \<times> bytes) list, (bytes \<times> u64) list) engine pool, ((bytes \<times> bytes) list, (bytes \<times> u64) list) engine) cache_tier" where
  "broken_tier = lone_tier\<lparr>ct_cache := broken_leg\<rparr>"

lemma broken_tier:
  "tier_ok (pool_room ref_env) (disk_leg_ok False ref_env) (view ref_env) 2 broken_tier" "pool_live ref_env lone_pool [7]"
  "tier_holds (pool_holds ref_env) (view ref_env) broken_tier [7] b \<Longrightarrow> b = [1, 2, 3]"
proof -
  have leg: "engine_ok ref_env n broken_leg" "view ref_env broken_leg = [[7] \<mapsto> [1, 2, 3]]" if "n \<le> 400" for n
    using ref_env.disk.port_mono [OF lone_engine(1) that] lone_engine(2)
    by (simp_all add: broken_leg_def engine_ok_def engine_inv_def room_def view_def)
  show "tier_ok (pool_room ref_env) (disk_leg_ok False ref_env) (view ref_env) 2 broken_tier"
    using lone_pool(3) [of 6] lone_pool(5) leg [of 2] lone_fits
    by (auto simp: tier_ok_def broken_tier_def lone_tier_def disk_leg_ok_def pool_room_def lone_pool(1) split: if_splits)
  show "pool_live ref_env lone_pool [7]"
    using lone_pool(4) [of 0] unfolding pool_live_def by (intro exI [of _ 0]) (simp add: lone_pool(1,2))
  show "tier_holds (pool_holds ref_env) (view ref_env) broken_tier [7] b \<Longrightarrow> b = [1, 2, 3]"
    by (auto simp: tier_holds_def broken_tier_def lone_tier_def pool_holds_def lone_pool(1,2) leg(2) [OF le0] less_Suc_eq numeral_3_eq_3)
qed

theorem cache_answers_witness:
  "\<exists>w s. isl (snd (so_get (ce_ops broken_env) broken_leg [7])) \<and>
     reach broken_env (\<lambda>c. c = CallGet [7]) (system_start broken_tier) w s \<and> sy_pcs s 0 = Returned (GotBody [7] (Inr [1, 2, 3]))"
proof -
  let ?A = "\<lambda>c. c = CallGet [7]" and ?s0 = "system_start broken_tier"
  let ?s1 = "goto 0 (start_call (CallGet [7])) ?s0"
  have "isl (snd (engine_get ref_env broken_leg [7]))" by code_simp
  then have leg: "isl (snd (so_get (ce_ops broken_env) broken_leg [7]))" by (simp add: broken_env_def ref_cache_env_def disk_ops_def)
  have r1: "reach broken_env ?A ?s0 0 ?s1" by (rule reach_call [OF reach_start]) (simp_all add: at_rest_def system_start_def)
  have "\<exists>s' r. runs_to broken_env 0 ?s1 s' \<and> sy_pcs s' 0 = Returned (GotBody [7] r)"
    by (rule get_alone) (simp_all add: start_call_def system_start_def goto_def)
  then obtain n s r where s: "run_alone broken_env 0 n ?s1 = Some s" "sy_pcs s 0 = Returned (GotBody [7] r)" by (auto simp: runs_to_def)
  obtain w where w: "reach broken_env ?A ?s0 w s" "w \<le> 2" using reach_alone [OF s(1) r1] by (auto simp: start_call_def)
  have cfg: "cc_max_bytes (ce_cfg broken_env) = 0" by (simp add: broken_env_def)
  have ok: "tier_ok (pool_room ref_env) (disk_leg_ok (0 < cc_max_bytes (ce_cfg broken_env)) ref_env) (view ref_env) w broken_tier"
  proof -
    have "disk_leg_ok False ref_env w (ct_cache broken_tier)" if "disk_leg_ok False ref_env 2 (ct_cache broken_tier)"
      using that w(2) by (auto simp: disk_leg_ok_def engine_ok_def room_def)
    then show ?thesis using broken_tier(1) ref_store.store_mono [OF _ w(2), of lone_pool]
      by (simp add: cfg tier_ok_def broken_tier_def lone_tier_def)
  qed
  have "case r of Inr b \<Rightarrow> tier_holds (pool_holds ref_env) (view ref_env) broken_tier [7] b \<or> False | Inl e \<Rightarrow> \<not> pool_live ref_env (ct_inner broken_tier) [7] \<or> False"
    using cache_answers [OF ref_env.engine_laws_axioms ref_disk_pool ref_pool_fields(5) _ ref_env.engine_laws_axioms _ _ ok _ w(1) s(2)]
    by (auto simp: ref_pool_fields ref_cache_env_def broken_env_def split: sum.splits)
  with broken_tier(2,3) have "r = Inr [1, 2, 3]" by (cases r) (auto simp: broken_tier_def lone_tier_def)
  with leg w(1) s(2) show ?thesis by blast
qed

section \<open>Coalesced reads\<close>

text \<open>C33: at any time and under any interleaving, at most one thread reads the legs for a key: of two threads that lead a flight of
  one key, from entering the in-flight map to leaving it, each is the other.\<close>

theorem single_flight:
  assumes "reach E A (system_start t0) w s" and "role_of (sy_pcs s t) = Leader f k r" and "role_of (sy_pcs s t') = Leader f' k r'"
  shows "t = t'"
  using assms by (rule leader_unique)

lemma enter_twice:
  fixes E :: "('i, 'c) cache_env"
  shows "\<exists>s. reach E (\<lambda>c. c = CallGet [7]) (system_start t0) 0 s \<and> sy_pcs s 0 = ReadCache 0 [7] \<and> sy_pcs s 1 = Waiting 0 [7]"
proof -
  let ?A = "\<lambda>c. c = CallGet [7]" and ?s0 = "system_start t0 :: ('i, 'c) system"
  let ?s1 = "goto 1 (start_call (CallGet [7])) (goto 0 (start_call (CallGet [7])) ?s0)"
  have s1: "reach E ?A ?s0 0 ?s1"
    by (rule reach_call [OF reach_call [OF reach_start]]) (simp_all add: at_rest_def system_start_def)
  obtain s2 where s2: "tick E 0 ?s1 = Some s2" "sy_pcs s2 = (sy_pcs ?s1)(0 := ReadCache 0 [7])" "sy_inflight s2 = [[7] \<mapsto> 0]"
    by (simp add: tick_def step_pc_def start_call_def system_start_def goto_def)
  have r2: "reach E ?A ?s0 0 s2" using reach_tick [OF s1 s2(1)] by (simp add: writes_def start_call_def)
  obtain s3 where s3: "tick E 1 s2 = Some s3" "sy_pcs s3 = (sy_pcs s2)(1 := Waiting 0 [7])"
    using s2(2,3) by (simp add: tick_def step_pc_def start_call_def goto_def with_tier_def)
  have "reach E ?A ?s0 0 s3" using reach_tick [OF r2 s3(1)] by (simp add: writes_def start_call_def s2(2))
  then show ?thesis using s2(2) s3(2) by (intro exI [of _ s3]) simp
qed

theorem single_flight_witness:
  "\<exists>s. reach ref_cache_env (\<lambda>c. c = CallGet [7]) (system_start lone_tier) 0 s \<and> role_of (sy_pcs s 0) = Leader 0 [7] None \<and>
     list_all (\<lambda>t. role_of (sy_pcs s t) = Leader 0 [7] None \<longleftrightarrow> t = 0) [0, 1, 2]"
proof -
  obtain s where s: "reach ref_cache_env (\<lambda>c. c = CallGet [7]) (system_start lone_tier) 0 s" "sy_pcs s 0 = ReadCache 0 [7]"
    using enter_twice by blast
  then have "role_of (sy_pcs s t) = Leader 0 [7] None \<longleftrightarrow> t = 0" for t
    using single_flight [OF s(1), of 0 0 "[7]" None t 0 None] by auto
  with s show ?thesis by (intro exI [of _ s]) simp
qed

text \<open>C19: a waiter is never left behind: as long as its flight has no result another thread leads that flight, and that thread, run alone, brings the
  result out in finitely many steps, through whatever errors and evictions, after which the waiter returns the leader's answer.\<close>

theorem waiter_answered:
  assumes "reach E A (system_start t0) w s" and "sy_pcs s t = Waiting f k" and "sy_done s f = None"
  shows "\<exists>t' n s' r. t' \<noteq> t \<and> role_of (sy_pcs s t') = Leader f k None \<and> run_alone E t' n s = Some s' \<and> sy_done s' f = Some (flight_result r) \<and>
    map_option (\<lambda>s. sy_pcs s t) (tick E t s') = Some (Returned (GotBody k (waiter_result (flight_result r))))"
  using waiter_has_leader [OF assms] leader_answers [OF _ assms(2)] by blast

theorem waiter_answered_witness:
  "\<exists>s n s' r. reach ref_cache_env (\<lambda>c. c = CallGet [7]) (system_start lone_tier) 0 s \<and> sy_pcs s 1 = Waiting 0 [7] \<and>
     run_alone ref_cache_env 0 n s = Some s' \<and>
     map_option (\<lambda>s. sy_pcs s 1) (tick ref_cache_env 1 s') = Some (Returned (GotBody [7] r))"
proof -
  obtain s where s: "reach ref_cache_env (\<lambda>c. c = CallGet [7]) (system_start lone_tier) 0 s" "sy_pcs s 0 = ReadCache 0 [7]" "sy_pcs s 1 = Waiting 0 [7]"
    using enter_twice by blast
  note inv = flight_invD [OF reach_flight_inv [OF s(1)]]
  have "sy_done s 0 = None" using inv(4) [of 0 0 "[7]" None] s(2) by simp
  from waiter_answered [OF s(1,3) this] obtain t' n s' r where w: "role_of (sy_pcs s t') = Leader 0 [7] None"
    "run_alone ref_cache_env t' n s = Some s'" "map_option (\<lambda>s. sy_pcs s 1) (tick ref_cache_env 1 s') = Some (Returned (GotBody [7] r))" by blast
  have "t' = 0" using inv(5) [of t' 0 "[7]" None 0 0 None] w(1) s(2) by simp
  with s w show ?thesis by blast
qed

section \<open>Eviction\<close>

text \<open>The loop without its low-water test.\<close>

function evict_plain :: "('i, 'c) cache_env \<Rightarrow> ('i, 'c) cache_tier \<Rightarrow> ('i, 'c) cache_tier" where
  "evict_plain E t =
     (if ct_bytes t \<le> cc_max_bytes (ce_cfg E) then t
      else (case on_cache (so_evict_oldest_segment (ce_ops E)) t of
          (t, Inl e) \<Rightarrow> t
        | (t, Inr (freed, keys)) \<Rightarrow>
            if freed = 0 then t
            else evict_plain E (ct_tally CacheEvictedBytes freed (ct_tally CacheEvictedSegments 1 (t\<lparr>ct_bytes := ct_bytes t - freed\<rparr>)))))"
  by pat_completeness auto

termination
  by (relation "measure (\<lambda>(E, t). ct_bytes t)") (auto simp: on_cache_def ct_tally_def split: prod.splits)

declare evict_plain.simps [simp del]

lemma low_water_le: "low_water cfg \<le> cc_max_bytes cfg"
  by (simp add: low_water_def)

text \<open>The low-water mark at 90 percent has no effect: the eviction loop does the same as the loop that stops as soon as the counter is back
  at the maximum, because the loop's own condition is tested after every eviction and fails first.\<close>

theorem low_water_dead: "evict_loop E t = evict_plain E t"
proof (induction "ct_bytes t" arbitrary: t rule: less_induct)
  case less
  obtain c r where c: "so_evict_oldest_segment (ce_ops E) (ct_cache t) = (c, r)" by fastforce
  have stop: "evict_plain E u = u" if "ct_bytes u \<le> low_water (ce_cfg E)" for u
    using that low_water_le [of "ce_cfg E"] by (subst evict_plain.simps) simp
  show ?case
    by (subst evict_loop.simps, subst evict_plain.simps)
      (auto simp: on_cache_def c Let_def stop less.hyps split: sum.split)
qed

section \<open>Overwriting\<close>

text \<open>A put of a body below the caching threshold does not reach the cache: when the cache leg has an older body for the key, the put
  succeeds and the next get still answers the older body.\<close>

theorem small_overwrite_unseen:
  assumes "ce_ops E = disk_ops CE" and "engine_inv CE (ct_cache t)" and "readable (ct_cache t)"
    and "view CE (ct_cache t) k = Some old" and "length b < cc_min_size (ce_cfg E)" and "bs_put (ce_inner E) (ct_inner t) k b = (i, Inr ())"
  shows "\<exists>t1. tier_put E t k b = (t1, Inr ()) \<and> snd (tier_get E t1 k) = Inr old"
proof -
  have put: "tier_put E t k b = (t\<lparr>ct_inner := i\<rparr>, Inr ())"
    using assms(5,6) by (simp add: tier_put_def on_inner_def populate_def)
  obtain c r where c: "engine_get CE (ct_cache t) k = (c, r)" by fastforce
  from get_spec [OF assms(2), of k] c assms(3,4) have "r = Inr old"
    by (cases r) (auto simp: readable_def split: if_splits)
  with c have "snd (tier_get E (t\<lparr>ct_inner := i\<rparr>) k) = Inr old"
    by (simp add: tier_get_def read_through_def on_cache_def assms(1) disk_ops_def)
  with put show ?thesis by blast
qed

definition stale_env :: "(((bytes \<times> bytes) list, (bytes \<times> u64) list) engine pool, ((bytes \<times> bytes) list, (bytes \<times> u64) list) engine) cache_env" where
  "stale_env = ref_cache_env\<lparr>ce_inner := pool_store ec_pool_env, ce_cfg := \<lparr>cc_max_bytes = 40, cc_min_size = 6\<rparr>\<rparr>"

theorem small_overwrite_unseen_witness:
  "\<exists>t1. tier_put stale_env (ref_tier\<lparr>ct_cache := lone_engine\<rparr>) [7] [1, 2, 3, 4, 5] = (t1, Inr ()) \<and> snd (tier_get stale_env t1 [7]) = Inr [1, 2, 3]"
proof -
  obtain p1 where p: "pool_put ec_pool_env [7] [1, 2, 3, 4, 5] ref_pool = (p1, Inr ())" using sample_written by metis
  show ?thesis
    by (rule small_overwrite_unseen [where CE = ref_env and i = p1])
      (use p lone_engine in
        \<open>simp_all add: stale_env_def ref_cache_env_def ref_tier_def pool_store_def engine_ok_def engine_fine_def readable_def\<close>)
qed

end
