(* ===== verification/Car_Codec.thy ===== *)
theory Car_Codec
  imports Domain
begin

text \<open>
  The encodings of the CAR transfer (\<open>ozd-app/src/car.rs\<close>, first half): base32 without padding, unsigned varints on a stream and in a
  slice, content identifiers, and the key of a multihash. The readers and writers of the standard library are a byte source and a byte
  sink with a stream of injected faults.
\<close>

section \<open>Base32\<close>

definition B32 :: bytes where
  "B32 = map (\<lambda>c. word_of_nat (of_char c)) ''ABCDEFGHIJKLMNOPQRSTUVWXYZ234567''"

fun b32_emit :: "u64 \<Rightarrow> nat \<Rightarrow> bytes \<Rightarrow> nat \<times> bytes" where
  "b32_emit buf bits out =
     (if bits < 5 then (bits, out)
      else b32_emit buf (bits - 5) (out @ [B32 ! unat (drop_bit (bits - 5) buf AND 31)]))"

declare b32_emit.simps [simp del]

fun b32_bytes :: "bytes \<Rightarrow> u64 \<Rightarrow> nat \<Rightarrow> bytes \<Rightarrow> u64 \<times> nat \<times> bytes" where
  "b32_bytes [] buf bits out = (buf, bits, out)"
| "b32_bytes (b # data) buf bits out =
     (let buf = push_bit 8 buf OR ucast b in
      case b32_emit buf (bits + 8) out of (bits, out) \<Rightarrow> b32_bytes data buf bits out)"

definition base32_nopad :: "bytes \<Rightarrow> bytes" where
  "base32_nopad data =
     (case b32_bytes data 0 0 [] of (buf, bits, out) \<Rightarrow>
        if 0 < bits then out @ [B32 ! unat (push_bit (5 - bits) buf AND 31)] else out)"

definition b32_value :: "byte \<Rightarrow> byte option" where
  "b32_value c = (if 65 \<le> c \<and> c \<le> 90 then Some (c - 65) else if 50 \<le> c \<and> c \<le> 55 then Some (c - 50 + 26) else None)"

fun b32_chars :: "bytes \<Rightarrow> u64 \<Rightarrow> nat \<Rightarrow> bytes \<Rightarrow> bytes option" where
  "b32_chars [] buf bits out = Some out"
| "b32_chars (c # s) buf bits out =
     (case b32_value c of None \<Rightarrow> None
      | Some v \<Rightarrow>
          let buf = push_bit 5 buf OR ucast v; bits = bits + 5 in
          if 8 \<le> bits then b32_chars s buf (bits - 8) (out @ [ucast (drop_bit (bits - 8) buf AND 255)])
          else b32_chars s buf bits out)"

definition base32_decode :: "bytes \<Rightarrow> bytes option" where
  "base32_decode s = b32_chars s 0 0 []"

text \<open>The most significant bit first: the \<open>n\<close> low bits of a number.\<close>

definition bitsn :: "nat \<Rightarrow> 'a::semiring_bits \<Rightarrow> bool list" where
  "bitsn n x = map (\<lambda>i. bit x (n - 1 - i)) [0..<n]"

lemma length_bitsn [simp]: "length (bitsn n x) = n"
  by (simp add: bitsn_def)

lemma nth_bitsn: "i < n \<Longrightarrow> bitsn n x ! i = bit x (n - 1 - i)"
  by (simp add: bitsn_def)

lemma bitsn_eqI: "(\<And>i. i < n \<Longrightarrow> bit x i = bit y i) \<Longrightarrow> bitsn n x = bitsn n y"
  by (simp add: bitsn_def)

lemma bitsn_split: "bitsn (m + n) x = bitsn m (drop_bit n x) @ bitsn n x"
  by (rule nth_equalityI) (auto simp: nth_bitsn nth_append bit_drop_bit_eq algebra_simps intro!: arg_cong [of _ _ "bit x"])

lemma bitsn_inject: "bitsn LENGTH('a) (x :: 'a::len word) = bitsn LENGTH('a) y \<Longrightarrow> x = y"
proof (rule bit_word_eqI)
  fix i assume e: "bitsn LENGTH('a) x = bitsn LENGTH('a) y" and i: "i < LENGTH('a)"
  then have "bitsn LENGTH('a) x ! (LENGTH('a) - 1 - i) = bitsn LENGTH('a) y ! (LENGTH('a) - 1 - i)" by simp
  with i show "bit x i = bit y i" by (simp add: nth_bitsn)
qed

lemma bitsn_unat [simp]: "bitsn n (unat (w :: 'a::len word)) = bitsn n w"
  by (rule bitsn_eqI) (simp add: bit_unsigned_iff)

lemma bitsn_push:
  fixes buf :: u64 and b :: byte
  assumes "m + n \<le> 64" and "n \<le> 8" and "unat b < 2 ^ n"
  shows "bitsn (m + n) (push_bit n buf OR ucast b) = bitsn m buf @ bitsn n b"
proof -
  have high: "\<not> bit b i" if "n \<le> i" for i
  proof -
    have "unat b < 2 ^ i" using assms(3) that by (meson less_le_trans power_increasing one_le_numeral)
    then have "\<not> bit (unat b) i" by (simp add: bit_iff_odd)
    then show ?thesis by (simp add: bit_unsigned_iff)
  qed
  have "bitsn m (drop_bit n (push_bit n buf OR ucast b)) = bitsn m buf"
    by (rule bitsn_eqI) (use assms(1) high in \<open>auto simp: bit_simps\<close>)
  moreover have "bitsn n (push_bit n buf OR (ucast b :: u64)) = bitsn n b"
    by (rule bitsn_eqI) (use assms(1) in \<open>auto simp: bit_simps\<close>)
  ultimately show ?thesis by (simp add: bitsn_split)
qed

text \<open>What the encoder puts out are groups of five bits of what it takes in.\<close>

abbreviation bits_of :: "nat \<Rightarrow> 'a::semiring_bits list \<Rightarrow> bool list" where
  "bits_of n xs \<equiv> concat (map (bitsn n) xs)"

abbreviation b32_text :: "nat list \<Rightarrow> bytes" where
  "b32_text vs \<equiv> map (\<lambda>v. B32 ! v) vs"

lemma and_31: "(x :: u64) AND 31 = take_bit 5 x"
  by (simp add: take_bit_eq_mask mask_eq_exp_minus_1)

lemma unat_and_31: "unat ((x :: u64) AND 31) < 32"
  using take_bit_nat_less_exp [of 5 "unat x"] by (simp add: and_31 unsigned_take_bit_eq)

lemma b32_emit_bits:
  assumes "b32_emit buf bits out = (bits', out')"
  shows "bits' < 5 \<and> (\<exists>vs. out' = out @ b32_text vs \<and> (\<forall>v \<in> set vs. v < 32) \<and> bits_of 5 vs @ bitsn bits' buf = bitsn bits buf)"
  using assms
proof (induction buf bits out rule: b32_emit.induct)
  case (1 buf bits out)
  show ?case
  proof (cases "bits < 5")
    case True
    with 1(2) show ?thesis by (auto simp: b32_emit.simps [of buf bits] intro!: exI [of _ "[]"])
  next
    case False
    let ?v = "unat (drop_bit (bits - 5) buf AND 31)"
    have v: "?v < 32" by (rule unat_and_31)
    have "bitsn 5 ?v = bitsn 5 (drop_bit (bits - 5) buf)"
      unfolding bitsn_unat by (rule bitsn_eqI) (simp add: and_31 bit_simps)
    moreover have "bitsn bits buf = bitsn 5 (drop_bit (bits - 5) buf) @ bitsn (bits - 5) buf"
      using bitsn_split [of 5 "bits - 5" buf] False by simp
    ultimately have b: "bitsn bits buf = bitsn 5 ?v @ bitsn (bits - 5) buf" by simp
    from 1(2) False have "b32_emit buf (bits - 5) (out @ [B32 ! ?v]) = (bits', out')" by (simp add: b32_emit.simps [of buf bits])
    from 1(1) [OF False this] obtain vs where "bits' < 5" "out' = (out @ [B32 ! ?v]) @ b32_text vs" "\<forall>v \<in> set vs. v < 32"
      "bits_of 5 vs @ bitsn bits' buf = bitsn (bits - 5) buf" by blast
    then show ?thesis using v b by (intro conjI exI [of _ "?v # vs"]) simp_all
  qed
qed

lemma b32_bytes_bits:
  assumes "b32_bytes data buf bits out = (buf', bits', out')" and "bits < 5"
  shows "bits' < 5 \<and> (\<exists>vs. out' = out @ b32_text vs \<and> (\<forall>v \<in> set vs. v < 32) \<and> bits_of 5 vs @ bitsn bits' buf' = bitsn bits buf @ bits_of 8 data)"
  using assms
proof (induction data arbitrary: buf bits out)
  case Nil
  then show ?case by (auto intro!: exI [of _ "[]"])
next
  case (Cons b data)
  let ?buf = "push_bit 8 buf OR ucast b"
  obtain n o1 where e: "b32_emit ?buf (bits + 8) out = (n, o1)" by fastforce
  have in8: "bitsn (bits + 8) ?buf = bitsn bits buf @ bitsn 8 b"
    by (rule bitsn_push) (use Cons.prems(2) unsigned_less [of b, where ?'a = nat] in simp_all)
  from b32_emit_bits [OF e] obtain us where us: "n < 5" "o1 = out @ b32_text us" "\<forall>v \<in> set us. v < 32"
    "bits_of 5 us @ bitsn n ?buf = bitsn (bits + 8) ?buf" by blast
  have "b32_bytes data ?buf n o1 = (buf', bits', out')" using Cons.prems(1) e by (simp add: Let_def)
  from Cons.IH [OF this us(1)] obtain vs where "bits' < 5" "out' = o1 @ b32_text vs" "\<forall>v \<in> set vs. v < 32"
    "bits_of 5 vs @ bitsn bits' buf' = bitsn n ?buf @ bits_of 8 data" by blast
  then show ?case using us in8 append_assoc [of "bits_of 5 us" "bits_of 5 vs"] by (intro conjI exI [of _ "us @ vs"]) auto
qed

lemma base32_nopad_bits:
  "\<exists>vs p. base32_nopad data = b32_text vs \<and> (\<forall>v \<in> set vs. v < 32) \<and> bits_of 5 vs = bits_of 8 data @ replicate p False \<and> p < 5"
proof -
  obtain buf bits out where e: "b32_bytes data 0 0 [] = (buf, bits, out)" by (metis prod_cases3)
  from b32_bytes_bits [OF e] obtain vs where v: "bits < 5" "out = b32_text vs" "\<forall>v \<in> set vs. v < 32" "bits_of 5 vs @ bitsn bits buf = bits_of 8 data"
    by (auto simp: bitsn_def)
  show ?thesis
  proof (cases "bits = 0")
    case True
    with e v show ?thesis by (intro exI [of _ vs] exI [of _ 0]) (simp add: base32_nopad_def bitsn_def)
  next
    case False
    let ?v = "unat (push_bit (5 - bits) buf AND 31)"
    have lt: "?v < 32" by (rule unat_and_31)
    have "bitsn 5 ?v = bitsn (bits + (5 - bits)) (push_bit (5 - bits) buf OR (ucast (0 :: byte) :: u64))"
    proof -
      have "bits + (5 - bits) = 5" using v(1) by simp
      then show ?thesis unfolding bitsn_unat by (simp only:) (rule bitsn_eqI, simp add: and_31 bit_simps)
    qed
    also have "\<dots> = bitsn bits buf @ bitsn (5 - bits) (0 :: byte)"
      by (rule bitsn_push) (use v(1) in auto)
    also have "bitsn (5 - bits) (0 :: byte) = replicate (5 - bits) False"
      by (rule nth_equalityI) (simp_all add: nth_bitsn)
    finally have "bits_of 5 (vs @ [?v]) = bits_of 8 data @ replicate (5 - bits) False" using v(4) by simp
    then show ?thesis using e v False lt
      by (intro exI [of _ "vs @ [?v]"] exI [of _ "5 - bits"]) (auto simp: base32_nopad_def)
  qed
qed

text \<open>The decoder regroups them by eight.\<close>

lemma b32_value_char:
  assumes "v < 32"
  shows "b32_value (B32 ! v) = Some (word_of_nat v)"
proof -
  have "list_all (\<lambda>v. b32_value (B32 ! v) = Some (word_of_nat v)) [0..<32]" by code_simp
  with assms show ?thesis by (simp add: list_all_iff)
qed

lemma b32_chars_bits:
  assumes "bits < 8" and "\<forall>v \<in> set vs. v < 32"
  shows "\<exists>ds rest. b32_chars (b32_text vs) buf bits out = Some (out @ ds) \<and> length rest < 8 \<and> bits_of 8 ds @ rest = bitsn bits buf @ bits_of 5 vs"
  using assms
proof (induction vs arbitrary: buf bits out)
  case Nil
  then show ?case by (intro exI [of _ "[]"] exI [of _ "bitsn bits buf"]) simp
next
  case (Cons v vs)
  let ?v = "word_of_nat v :: byte" and ?buf = "push_bit 5 buf OR ucast (word_of_nat v :: byte)"
  have v: "v < 32" "unat ?v = v" using Cons.prems(2) by (simp_all add: unat_of_nat)
  have "bitsn 5 ?v = bitsn 5 v" using bitsn_unat [of 5 ?v] v(2) by simp
  moreover have "bitsn (bits + 5) ?buf = bitsn bits buf @ bitsn 5 ?v"
    by (rule bitsn_push) (use Cons.prems(1) v in simp_all)
  ultimately have in5: "bitsn (bits + 5) ?buf = bitsn bits buf @ bitsn 5 v" by simp
  show ?case
  proof (cases "8 \<le> bits + 5")
    case False
    then have "bits + 5 < 8" by simp
    from Cons.IH [OF this, of ?buf out] Cons.prems(2) obtain ds rest where
      "b32_chars (b32_text vs) ?buf (bits + 5) out = Some (out @ ds)" "length rest < 8" "bits_of 8 ds @ rest = bitsn (bits + 5) ?buf @ bits_of 5 vs" by auto
    then show ?thesis using False v(1) in5
      by (intro exI [of _ ds] exI [of _ rest]) (simp add: b32_value_char Let_def)
  next
    case True
    define n where "n = bits + 5 - 8"
    let ?d = "ucast (drop_bit n ?buf AND 255) :: byte"
    have n: "n < 8" "bits + 5 = 8 + n" using True Cons.prems(1) by (simp_all add: n_def)
    have "(drop_bit n ?buf AND 255 :: u64) = take_bit 8 (drop_bit n ?buf)" by (simp add: take_bit_eq_mask mask_eq_exp_minus_1)
    then have "bitsn 8 ?d = bitsn 8 (drop_bit n ?buf)" by (intro bitsn_eqI) (simp add: bit_simps)
    with in5 have d: "bitsn bits buf @ bitsn 5 v = bitsn 8 ?d @ bitsn n ?buf" using bitsn_split [of 8 n ?buf] n(2) by simp
    from Cons.IH [OF n(1), of ?buf "out @ [?d]"] Cons.prems(2) obtain ds rest where
      "b32_chars (b32_text vs) ?buf n (out @ [?d]) = Some ((out @ [?d]) @ ds)" "length rest < 8" "bits_of 8 ds @ rest = bitsn n ?buf @ bits_of 5 vs" by auto
    then show ?thesis using True v(1) d append_assoc [of "bitsn bits buf" "bitsn 5 v"]
      by (intro exI [of _ "?d # ds"] exI [of _ rest]) (simp add: b32_value_char Let_def n_def)
  qed
qed

lemma bits_of_bytes_inject:
  assumes "bits_of 8 (ds :: bytes) @ rest = bits_of 8 data @ pad" and "length rest < 8" and "length pad < 8"
  shows "ds = data"
  using assms
proof (induction ds arbitrary: data)
  case Nil
  then show ?case by (cases data) (auto dest: arg_cong [of _ _ length])
next
  case (Cons d ds)
  then show ?case
  proof (cases data)
    case Nil
    with Cons.prems show ?thesis by (auto dest: arg_cong [of _ _ length])
  next
    case (Cons e data')
    with Cons.prems(1) have "bitsn 8 d = bitsn 8 e" "bits_of 8 ds @ rest = bits_of 8 data' @ pad" by simp_all
    with Cons.IH [of data'] Cons.prems(2,3) bitsn_inject [of d e] Cons show ?thesis by simp
  qed
qed

lemma base32_decode_nopad: "base32_decode (base32_nopad data) = Some data"
proof -
  obtain vs p where e: "base32_nopad data = b32_text vs" "\<forall>v \<in> set vs. v < 32" "bits_of 5 vs = bits_of 8 data @ replicate p False" "p < 5"
    using base32_nopad_bits by blast
  from b32_chars_bits [OF _ e(2), of 0 0 "[]"] obtain ds rest where
    d: "b32_chars (b32_text vs) 0 0 [] = Some ds" "length rest < 8" "bits_of 8 ds @ rest = bits_of 5 vs" by (auto simp: bitsn_def)
  from bits_of_bytes_inject [of ds rest data "replicate p False"] d e have "ds = data" by simp
  with d(1) e(1) show ?thesis by (simp add: base32_decode_def)
qed

lemma base32_nopad_inject: "base32_nopad a = base32_nopad b \<Longrightarrow> a = b"
  by (metis base32_decode_nopad option.inject)

section \<open>Readers and writers\<close>

text \<open>
  \<open>Read::read_exact\<close>: a short source ends in \<open>UnexpectedEof\<close>; \<open>True\<close> in the stream of faults makes a call fail with another kind.
  \<open>Write::write_all\<close>: \<open>Some n\<close> in the stream makes a call fail after \<open>n\<close> bytes.
\<close>

datatype read_error = UnexpectedEof | OtherKind

record source =
  sr_data :: bytes
  sr_faults :: "bool list"

record sink =
  sk_out :: bytes
  sk_faults :: "nat option list"

definition read_exact :: "nat \<Rightarrow> source \<Rightarrow> source \<times> (read_error + bytes)" where
  "read_exact n r =
     (let r' = r\<lparr>sr_faults := tl (sr_faults r)\<rparr> in
      if sr_faults r \<noteq> [] \<and> hd (sr_faults r) then (r', Inl OtherKind)
      else if length (sr_data r) < n then (r'\<lparr>sr_data := []\<rparr>, Inl UnexpectedEof)
      else (r'\<lparr>sr_data := drop n (sr_data r)\<rparr>, Inr (take n (sr_data r))))"

definition sink_write_all :: "bytes \<Rightarrow> sink \<Rightarrow> (sink, unit) op" where
  "sink_write_all data w =
     (case sk_faults w of
        Some n # fs \<Rightarrow> (w\<lparr>sk_out := sk_out w @ take n data, sk_faults := fs\<rparr>, Inl (Io ''write''))
      | fs \<Rightarrow> (w\<lparr>sk_out := sk_out w @ data, sk_faults := tl fs\<rparr>, Inr ()))"

definition flush_sink :: "sink \<Rightarrow> (sink, unit) op" where
  "flush_sink w = sink_write_all [] w"

section \<open>Varints\<close>

function read_varint_loop :: "u64 \<Rightarrow> nat \<Rightarrow> bool \<Rightarrow> source \<Rightarrow> (source, u64 option) op" where
  "read_varint_loop x shift first r =
     (case read_exact 1 r of
        (r, Inl k) \<Rightarrow> (r, if k = UnexpectedEof \<and> first then Inr None else Inl (Io ''car varint''))
      | (r, Inr bs) \<Rightarrow>
          if 63 \<le> shift then (r, Inl (Io ''car varint overflow''))
          else
            let b = hd bs; x = x OR push_bit shift (ucast (b AND 127)) in
            if b AND 128 = 0 then (r, Inr (Some x)) else read_varint_loop x (shift + 7) False r)"
  by pat_completeness auto

termination
  by (relation "measure (\<lambda>(x, shift, first, r). 63 - shift)") auto

declare read_varint_loop.simps [simp del]

definition read_varint :: "source \<Rightarrow> (source, u64 option) op" where
  "read_varint r = read_varint_loop 0 0 True r"

lemma drop_7_less:
  assumes "drop_bit 7 (x :: u64) \<noteq> 0"
  shows "unat (drop_bit 7 x) < unat x"
proof -
  from assms have "x \<noteq> 0" by auto
  then have "0 < unat x" by (simp add: unat_gt_0)
  moreover have "unat (drop_bit 7 x) = unat x div 2 ^ 7" by (simp add: drop_bit_eq_div unat_div)
  ultimately show ?thesis by simp
qed

function write_varint :: "u64 \<Rightarrow> sink \<Rightarrow> (sink, unit) op" where
  "write_varint x w =
     (let b = ucast (x AND 127); x = drop_bit 7 x; b = (if x \<noteq> 0 then b OR 128 else b) in
      and_then (sink_write_all [b] w) (\<lambda>_ w. if x = 0 then (w, Inr ()) else write_varint x w))"
  by pat_completeness auto

termination
  by (relation "measure (\<lambda>(x, w). unat x)") (simp_all add: drop_7_less)

declare write_varint.simps [simp del]

function slice_varint_loop :: "bytes \<Rightarrow> nat \<Rightarrow> u64 \<Rightarrow> nat \<Rightarrow> nat \<times> u64 option" where
  "slice_varint_loop buf pos x shift =
     (if pos < length buf \<and> shift < 63 then
        let b = buf ! pos; x = x OR push_bit shift (ucast (b AND 127)) in
        if b AND 128 = 0 then (pos + 1, Some x) else slice_varint_loop buf (pos + 1) x (shift + 7)
      else (pos, None))"
  by pat_completeness auto

termination
  by (relation "measure (\<lambda>(buf, pos, x, shift). length buf - pos)") auto

declare slice_varint_loop.simps [simp del]

definition slice_varint :: "bytes \<Rightarrow> nat \<Rightarrow> nat \<times> u64 option" where
  "slice_varint buf pos = slice_varint_loop buf pos 0 0"

section \<open>Content identifiers\<close>

definition parse_cid :: "bytes \<Rightarrow> (nat \<times> bytes) option" where
  "parse_cid buf =
     (if 34 \<le> length buf \<and> buf ! 0 = 0x12 \<and> buf ! 1 = 0x20 then Some (34, take 34 buf)
      else (case slice_varint buf 0 of (pos, None) \<Rightarrow> None | (pos, Some ver) \<Rightarrow>
        if ver \<noteq> 1 then None
        else (case slice_varint buf pos of (pos, None) \<Rightarrow> None | (mh_start, Some codec) \<Rightarrow>
          (case slice_varint buf mh_start of (pos, None) \<Rightarrow> None | (pos, Some code) \<Rightarrow>
          (case slice_varint buf pos of (pos, None) \<Rightarrow> None | (pos, Some dlen) \<Rightarrow>
             let stop = pos + unat dlen in
             if 2 ^ 64 \<le> stop then None
             else if length buf < stop then None
             else Some (stop, bslice buf mh_start stop))))))"

definition key_for_multihash :: "bytes \<Rightarrow> bytes \<Rightarrow> block_key" where
  "key_for_multihash prefix mh = prefix @ base32_nopad mh"

section \<open>Varints are read back\<close>

text \<open>The bytes of a varint.\<close>

function varint :: "u64 \<Rightarrow> bytes" where
  "varint x = (let b = ucast (x AND 127) in if drop_bit 7 x = 0 then [b] else (b OR 128) # varint (drop_bit 7 x))"
  by pat_completeness auto

termination
  by (relation "measure unat") (simp_all add: drop_7_less)

declare varint.simps [simp del]

lemma varint_not_Nil [simp]: "varint x \<noteq> []"
  by (subst varint.simps) (simp add: Let_def)

lemma write_varint_out:
  "sk_faults w = [] \<Longrightarrow> write_varint x w = (w\<lparr>sk_out := sk_out w @ varint x\<rparr>, Inr ())"
proof (induction x arbitrary: w rule: varint.induct)
  case (1 x)
  let ?b = "ucast (x AND 127) :: byte"
  obtain out where w: "w = \<lparr>sk_out = out, sk_faults = []\<rparr>" using 1(2) by (cases w) simp
  show ?case
  proof (cases "drop_bit 7 x = 0")
    case True
    then show ?thesis unfolding w by (subst write_varint.simps, subst varint.simps) (simp add: sink_write_all_def Let_def)
  next
    case False
    from 1(1) [OF refl False, of "\<lparr>sk_out = out @ [?b OR 128], sk_faults = []\<rparr>"] False show ?thesis
      unfolding w by (subst write_varint.simps, subst varint.simps) (simp add: sink_write_all_def Let_def)
  qed
qed

text \<open>One byte more is read: seven bits at their place.\<close>

lemma and_127: "(x :: u64) AND 127 = take_bit 7 x" "(b :: byte) AND 127 = take_bit 7 b"
  by (simp_all add: take_bit_eq_mask mask_eq_exp_minus_1)

lemma and_128: "(b :: byte) AND 128 = 0 \<longleftrightarrow> \<not> bit b 7"
  using and_exp_eq_0_iff_not_bit [of b 7] by simp

lemma or_128: "(b :: byte) OR 128 = Bit_Operations.set_bit 7 b"
  by (simp add: set_bit_eq_or)

lemma low_7: "ucast (ucast ((x :: u64) AND 127) AND 127 :: byte) = x AND 127" "(ucast (x AND 127) :: byte) AND 128 = 0"
  "ucast ((ucast (x AND 127) OR 128) AND 127 :: byte) = x AND 127" "((ucast (x AND 127) :: byte) OR 128) AND 128 \<noteq> 0" for x :: u64
  unfolding and_128 unfolding and_127 or_128 by (auto simp: bit_simps intro!: bit_eqI)

lemma varint_step: "push_bit n (x AND 127) OR push_bit (n + 7) (drop_bit 7 x) = push_bit n (x :: u64)"
proof -
  have "(x AND 127) OR push_bit 7 (drop_bit 7 x) = x"
    unfolding and_127 by (rule bit_eqI) (auto simp: bit_simps not_less, metis le_add_diff_inverse not_less)
  then show ?thesis by (metis push_bit_or push_bit_push_bit add.commute)
qed
lemma push_fits:
  assumes "unat x * 2 ^ n < 2 ^ 63" and "drop_bit 7 (x :: u64) \<noteq> 0"
  shows "n + 7 < 63" and "unat (drop_bit 7 x) * 2 ^ (n + 7) < 2 ^ 63"
proof -
  have d: "unat (drop_bit 7 x) = unat x div 128" by (simp add: drop_bit_eq_div unat_div)
  have "0 < unat (drop_bit 7 x)" using assms(2) unat_gt_0 by blast
  then have "0 < unat x div 128" unfolding d .
  then have "128 \<le> unat x" by (simp add: div_greater_zero_iff)
  then have "2 ^ (n + 7) \<le> unat x * 2 ^ n" by (simp add: power_add)
  with assms(1) have "(2 :: nat) ^ (n + 7) < 2 ^ 63" by linarith
  then show "n + 7 < 63" by (rule power_less_imp_less_exp [rotated]) simp
  have "unat x div 128 * 2 ^ (n + 7) = (unat x div 128 * 128) * 2 ^ n" by (simp add: power_add)
  also have "\<dots> \<le> unat x * 2 ^ n" by simp
  finally have "unat (drop_bit 7 x) * 2 ^ (n + 7) \<le> unat x * 2 ^ n" unfolding d .
  then show "unat (drop_bit 7 x) * 2 ^ (n + 7) < 2 ^ 63" using assms(1) by (rule le_less_trans)
qed

lemma read_exact_one: "sr_data r = b # bs \<Longrightarrow> sr_faults r = [] \<Longrightarrow> read_exact (Suc 0) r = (r\<lparr>sr_data := bs\<rparr>, Inr [b])"
  by (cases r) (simp add: read_exact_def)

lemma read_varint_loop_back:
  assumes "unat x * 2 ^ n < 2 ^ 63" and "n < 63" and "sr_data r = varint x @ bs" and "sr_faults r = []"
  shows "read_varint_loop y n first r = (r\<lparr>sr_data := bs\<rparr>, Inr (Some (y OR push_bit n x)))"
  using assms
proof (induction x arbitrary: y n first r rule: varint.induct)
  case (1 x)
  let ?b = "ucast (x AND 127) :: byte"
  show ?case
  proof (cases "drop_bit 7 x = 0")
    case True
    then have d: "sr_data r = ?b # bs" using 1(4) by (subst (asm) varint.simps) simp
    have x: "push_bit n (x AND 127) = push_bit n x" using varint_step [of n x] unfolding True by (simp only: push_bit_of_0 or.right_neutral)
    have "read_varint_loop y n first r = (r\<lparr>sr_data := bs\<rparr>, Inr (Some (y OR push_bit n (x AND 127))))"
      using 1(3) by (subst read_varint_loop.simps) (simp add: read_exact_one [OF d 1(5)] low_7 Let_def)
    then show ?thesis unfolding x .
  next
    case False
    then have d: "sr_data r = (?b OR 128) # varint (drop_bit 7 x) @ bs" using 1(4) by (subst (asm) varint.simps) (simp add: Let_def)
    note f = push_fits [OF 1(2) False]
    have "read_varint_loop y n first r = read_varint_loop (y OR push_bit n (x AND 127)) (n + 7) False (r\<lparr>sr_data := varint (drop_bit 7 x) @ bs\<rparr>)"
      using 1(3) by (subst read_varint_loop.simps) (simp add: read_exact_one [OF d 1(5)] low_7 Let_def)
    also have "\<dots> = (r\<lparr>sr_data := bs\<rparr>, Inr (Some ((y OR push_bit n (x AND 127)) OR push_bit (n + 7) (drop_bit 7 x))))"
      using 1(1) [OF refl False f(2,1)] 1(5) by simp
    finally show ?thesis unfolding or.assoc varint_step .
  qed
qed

lemma read_varint_back:
  assumes "unat x < 2 ^ 63" and "sr_data r = varint x @ bs" and "sr_faults r = []"
  shows "read_varint r = (r\<lparr>sr_data := bs\<rparr>, Inr (Some x))"
  using read_varint_loop_back [OF _ _ assms(2,3), of 0 0 True] assms(1) by (simp add: read_varint_def)

lemma slice_varint_loop_back:
  assumes "unat x * 2 ^ n < 2 ^ 63" and "n < 63" and "drop pos buf = varint x @ bs"
  shows "slice_varint_loop buf pos y n = (pos + length (varint x), Some (y OR push_bit n x))"
  using assms
proof (induction x arbitrary: y n pos rule: varint.induct)
  case (1 x)
  let ?b = "ucast (x AND 127) :: byte"
  have pos: "pos < length buf" using arg_cong [OF 1(4), of length] by (cases "pos < length buf") auto
  show ?case
  proof (cases "drop_bit 7 x = 0")
    case True
    then have v: "varint x = [?b]" by (subst varint.simps) simp
    have b: "buf ! pos = ?b" using 1(4) v nth_via_drop [of pos buf] by simp
    have x: "push_bit n (x AND 127) = push_bit n x" using varint_step [of n x] unfolding True by (simp only: push_bit_of_0 or.right_neutral)
    have "slice_varint_loop buf pos y n = (pos + length (varint x), Some (y OR push_bit n (x AND 127)))"
      using 1(3) pos v by (subst slice_varint_loop.simps) (simp add: b low_7 Let_def)
    then show ?thesis unfolding x .
  next
    case False
    then have v: "varint x = (?b OR 128) # varint (drop_bit 7 x)" by (subst varint.simps) (simp add: Let_def)
    have b: "buf ! pos = ?b OR 128" "drop (Suc pos) buf = varint (drop_bit 7 x) @ bs"
      using 1(4) v nth_via_drop [of pos buf] by (simp_all add: drop_Suc drop_tl)
    note f = push_fits [OF 1(2) False]
    have "slice_varint_loop buf pos y n = slice_varint_loop buf (pos + 1) (y OR push_bit n (x AND 127)) (n + 7)"
      using 1(3) pos by (subst slice_varint_loop.simps) (simp add: b(1) low_7 Let_def)
    also have "\<dots> = (pos + 1 + length (varint (drop_bit 7 x)), Some ((y OR push_bit n (x AND 127)) OR push_bit (n + 7) (drop_bit 7 x)))"
      using 1(1) [OF refl False f(2,1)] b(2) by simp
    finally show ?thesis unfolding or.assoc varint_step using v by simp
  qed
qed

lemma slice_varint_back:
  assumes "unat x < 2 ^ 63" and "drop pos buf = varint x @ bs"
  shows "slice_varint buf pos = (pos + length (varint x), Some x)"
  using slice_varint_loop_back [OF _ _ assms(2), of 0 0] assms(1) by (simp add: slice_varint_def)

section \<open>Content identifiers and multihashes\<close>

lemma slice_varint_loop_pos: "slice_varint_loop buf pos x n = (pos', r) \<Longrightarrow> pos \<le> pos' \<and> (pos \<le> length buf \<longrightarrow> pos' \<le> length buf)"
proof (induction buf pos x n arbitrary: pos' r rule: slice_varint_loop.induct)
  case (1 buf pos x n)
  show ?case
  proof (cases "pos < length buf \<and> n < 63")
    case True
    then show ?thesis using 1(1) [OF True refl refl] 1(2)
      by (subst (asm) (2) slice_varint_loop.simps) (fastforce simp: Let_def split: if_splits)
  next
    case False
    then show ?thesis using 1(2) by (subst (asm) slice_varint_loop.simps) auto
  qed
qed

lemma slice_varint_pos: "slice_varint buf pos = (pos', r) \<Longrightarrow> pos \<le> pos'" "slice_varint buf pos = (pos', r) \<Longrightarrow> pos \<le> length buf \<Longrightarrow> pos' \<le> length buf"
  using slice_varint_loop_pos unfolding slice_varint_def by blast+

text \<open>A byte without a continuation bit is a varint of its own.\<close>

lemma slice_varint_small:
  assumes "pos < length buf" and "buf ! pos AND 128 = 0"
  shows "slice_varint buf pos = (pos + 1, Some (ucast (buf ! pos AND 127)))"
  unfolding slice_varint_def by (subst slice_varint_loop.simps) (use assms in \<open>simp add: Let_def\<close>)

lemma parse_cid_parts:
  assumes "parse_cid buf = Some (n, mh)"
  shows "n \<le> length buf \<and> (\<exists>i \<le> n. mh = bslice buf i n) \<and>
    (n = 34 \<and> mh = take 34 buf \<or>
     (\<exists>i pos dlen code. slice_varint buf i = (pos, Some code) \<and> (\<exists>pos2. slice_varint buf pos = (pos2, Some dlen) \<and> n = pos2 + unat dlen) \<and> mh = bslice buf i n))"
proof (cases "34 \<le> length buf \<and> buf ! 0 = 0x12 \<and> buf ! 1 = 0x20")
  case True
  with assms have "n = 34" "mh = take 34 buf" by (simp_all add: parse_cid_def)
  with True show ?thesis by (auto simp: bslice_def intro!: exI [of _ 0])
next
  case False
  with assms obtain p0 i pos p2 code codec dlen where p: "slice_varint buf 0 = (p0, Some 1)" "slice_varint buf p0 = (i, Some codec)"
    "slice_varint buf i = (pos, Some code)" "slice_varint buf pos = (p2, Some dlen)" "n = p2 + unat dlen" "n \<le> length buf" "mh = bslice buf i n"
    unfolding parse_cid_def by (auto simp: Let_def not_less split: prod.splits option.splits if_splits)
  have "i \<le> n" using slice_varint_pos(1) [OF p(3)] slice_varint_pos(1) [OF p(4)] p(5) by simp
  then show ?thesis using p(3-7) by blast
qed

text \<open>A multihash that says sha2-256 has its 32 bytes: the slice of the digest is in range.\<close>

lemma parse_cid_sha256:
  assumes c: "parse_cid buf = Some (n, mh)" and l: "2 \<le> length mh" and h: "mh ! 0 = 0x12" "mh ! 1 = 0x20"
  shows "length mh = 34"
  using parse_cid_parts [OF c]
proof (elim conjE disjE exE)
  assume "n = 34" "mh = take 34 buf" "n \<le> length buf"
  then show ?thesis by simp
next
  fix i pos dlen code pos2
  assume s: "slice_varint buf i = (pos, Some code)" "slice_varint buf pos = (pos2, Some dlen)" "n = pos2 + unat dlen" "mh = bslice buf i n" and n: "n \<le> length buf"
  have i: "i + 1 < length buf" "length mh = n - i" using l n s(4) by (auto simp: bslice_def)
  have b: "buf ! i = 0x12" "buf ! (i + 1) = 0x20" using h l s(4) n by (auto simp: bslice_def)
  have "pos = i + 1" using slice_varint_small [of i buf] b(1) i(1) s(1) by simp
  then have "pos2 = i + 2" "dlen = 0x20" using slice_varint_small [of "i + 1" buf] b(2) i(1) s(2) by simp_all
  then show ?thesis using s(3) i(2) by simp
qed

text \<open>A well-formed multihash: code, length, digest.\<close>

definition multihash :: "bytes \<Rightarrow> bool" where
  "multihash mh \<longleftrightarrow> (\<exists>code d. unat code < 2 ^ 63 \<and> length d < 2 ^ 62 \<and> mh = varint code @ varint (word_of_nat (length d)) @ d)"

lemma parse_cid_back:
  assumes mh: "multihash mh" and fit: "length mh < 2 ^ 63" and codec: "c AND 128 = 0"
  shows "parse_cid ([0x01, c] @ mh @ b) = Some (2 + length mh, mh)"
proof -
  obtain code d where m: "unat code < 2 ^ 63" "length d < 2 ^ 62" "mh = varint code @ varint (word_of_nat (length d)) @ d"
    using mh by (auto simp: multihash_def)
  let ?l = "word_of_nat (length d) :: u64"
  define buf where "buf = [0x01, c] @ mh @ b"
  have l: "unat ?l = length d" using m(2) by (simp add: unat_of_nat)
  have buf: "buf ! 0 = 1" "buf ! Suc 0 = c" "drop 2 buf = mh @ b" "length buf = 2 + length mh + length b" by (simp_all add: buf_def)
  have "slice_varint buf 0 = (0 + 1, Some (ucast (buf ! 0 AND 127)))" by (rule slice_varint_small) (simp_all add: buf)
  then have v0: "slice_varint buf 0 = (1, Some 1)" by (simp add: buf)
  have "slice_varint buf 1 = (1 + 1, Some (ucast (buf ! 1 AND 127)))" by (rule slice_varint_small) (simp_all add: buf codec)
  then have v1: "slice_varint buf 1 = (2, Some (ucast (c AND 127)))" by (simp add: buf)
  have c: "slice_varint buf 2 = (2 + length (varint code), Some code)"
    by (rule slice_varint_back [OF m(1), of _ _ "varint ?l @ d @ b"]) (simp add: buf m(3))
  have "drop (2 + length (varint code)) buf = drop (length (varint code)) (drop 2 buf)" by (simp add: add.commute)
  then have "drop (2 + length (varint code)) buf = varint ?l @ d @ b" unfolding buf by (simp add: m(3))
  then have dl: "slice_varint buf (2 + length (varint code)) = (2 + length (varint code) + length (varint ?l), Some ?l)"
    by (rule slice_varint_back [rotated]) (use m(2) in \<open>simp add: l\<close>)
  have n: "2 + length (varint code) + length (varint ?l) + unat ?l = 2 + length mh" by (simp add: m(3) l)
  have "bslice buf 2 (2 + length mh) = mh" unfolding bslice_def buf by simp
  then have "parse_cid buf = Some (2 + length mh, mh)"
    using v0 v1 c dl n fit buf(1,4) unfolding parse_cid_def by (simp add: Let_def)
  then show ?thesis unfolding buf_def .
qed

lemma parse_cid_v0: "length d = 32 \<Longrightarrow> parse_cid ([0x12, 0x20] @ d @ b) = Some (34, [0x12, 0x20] @ d)"
  by (simp add: parse_cid_def)

end
