(* ===== verification/Car.thy ===== *)
theory Car
  imports Store Car_Codec
begin

text \<open>
  CAR import and export over a block store (\<open>ozd-app/src/car.rs\<close>, second half). The import is a pipeline: a reader cuts the stream into
  frames and sends them through a bounded channel to workers, which check for the key and put the body. A schedule is a list of moves
  of the reader and the workers; a move that would block has no result. SHA-256 is a parameter.
\<close>

section \<open>Reports and parameters\<close>

record car_import_report =
  ci_blocks :: nat
  ci_bytes :: nat
  ci_skipped :: nat
  ci_corrupt :: nat
  ci_errors :: nat

definition car_import_report_default :: car_import_report where
  "car_import_report_default = \<lparr>ci_blocks = 0, ci_bytes = 0, ci_skipped = 0, ci_corrupt = 0, ci_errors = 0\<rparr>"

record car_export_report =
  cx_blocks :: nat
  cx_bytes :: nat

definition car_export_report_default :: car_export_report where
  "car_export_report_default = \<lparr>cx_blocks = 0, cx_bytes = 0\<rparr>"

record car_job =
  cj_sha256 :: "bytes \<Rightarrow> bytes"
  cj_prefix :: bytes
  cj_parallelism :: nat
  cj_verify :: bool

definition CARV2_PRAGMA :: bytes where
  "CARV2_PRAGMA = [0xa1, 0x67, 0x76, 0x65, 0x72, 0x73, 0x69, 0x6f, 0x6e, 0x02]"

section \<open>The stream\<close>

definition car_header :: "source \<Rightarrow> (source, unit) op" where
  "car_header r =
     and_then (read_varint r) (\<lambda>h r. case h of None \<Rightarrow> (r, Inl (Io ''car: empty file'')) | Some hlen \<Rightarrow>
       if 2 ^ 20 < unat hlen then (r, Inl (Io ''car: header too large''))
       else (case read_exact (unat hlen) r of
           (r, Inl _) \<Rightarrow> (r, Inl (Io ''car header''))
         | (r, Inr hdr) \<Rightarrow> if hdr = CARV2_PRAGMA then (r, Inl (Io ''car: CARv2'')) else (r, Inr ())))"

text \<open>One round of the reader's loop: the end, a frame that is dropped, or a body with its key.\<close>

datatype car_frame = EndOfCar | BadFrame | GoodFrame block_key bytes

definition read_frame :: "car_job \<Rightarrow> source \<Rightarrow> (source, car_frame) op" where
  "read_frame J r =
     and_then (read_varint r) (\<lambda>h r. case h of None \<Rightarrow> (r, Inr EndOfCar) | Some flen \<Rightarrow>
       if flen = 0 \<or> 2 ^ 30 < unat flen then (r, Inl (Io ''car: bad frame len''))
       else (case read_exact (unat flen) r of
           (r, Inl _) \<Rightarrow> (r, Inl (Io ''car frame''))
         | (r, Inr fr) \<Rightarrow> (case parse_cid fr of
               None \<Rightarrow> (r, Inr BadFrame)
             | Some (cid_len, mh) \<Rightarrow>
                 let body = drop cid_len fr in
                 if cj_verify J \<and> 2 \<le> length mh \<and> mh ! 0 = 0x12 \<and> mh ! 1 = 0x20 \<and> cj_sha256 J body \<noteq> bslice mh 2 34 then (r, Inr BadFrame)
                 else (r, Inr (GoodFrame (key_for_multihash (cj_prefix J) mh) body)))))"

section \<open>The pipeline\<close>

datatype worker = WFree | WTaken block_key bytes | WAbsent block_key bytes

record 'i import_state =
  im_store :: 'i
  im_src :: source
  im_reader :: "unit domain_result option"
  im_queue :: "(block_key \<times> bytes) list"
  im_worker :: "nat \<Rightarrow> worker"
  im_report :: car_import_report

definition car_workers :: "car_job \<Rightarrow> nat" where
  "car_workers J = max 1 (min 64 (cj_parallelism J))"

datatype import_move = Reader | Worker nat

definition reader_step :: "car_job \<Rightarrow> 'i import_state \<Rightarrow> 'i import_state option" where
  "reader_step J st =
     (if im_reader st \<noteq> None \<or> car_workers J * 8 \<le> length (im_queue st) then None
      else (case read_frame J (im_src st) of
          (r, Inl e) \<Rightarrow> Some (st\<lparr>im_src := r, im_reader := Some (Inl e)\<rparr>)
        | (r, Inr EndOfCar) \<Rightarrow> Some (st\<lparr>im_src := r, im_reader := Some (Inr ())\<rparr>)
        | (r, Inr BadFrame) \<Rightarrow> Some (st\<lparr>im_src := r, im_report := (im_report st)\<lparr>ci_corrupt := ci_corrupt (im_report st) + 1\<rparr>\<rparr>)
        | (r, Inr (GoodFrame k b)) \<Rightarrow> Some (st\<lparr>im_src := r, im_queue := im_queue st @ [(k, b)]\<rparr>)))"

definition worker_step :: "'i block_store \<Rightarrow> car_job \<Rightarrow> nat \<Rightarrow> 'i import_state \<Rightarrow> 'i import_state option" where
  "worker_step B J i st =
     (if car_workers J \<le> i then None
      else (case im_worker st i of
          WFree \<Rightarrow> (case im_queue st of [] \<Rightarrow> None
            | (k, b) # q \<Rightarrow> Some (st\<lparr>im_queue := q, im_worker := (im_worker st)(i := WTaken k b)\<rparr>))
        | WTaken k b \<Rightarrow> (case bs_has B (im_store st) k of
              (s, Inr True) \<Rightarrow> Some (st\<lparr>im_store := s, im_worker := (im_worker st)(i := WFree),
                im_report := (im_report st)\<lparr>ci_skipped := ci_skipped (im_report st) + 1\<rparr>\<rparr>)
            | (s, _) \<Rightarrow> Some (st\<lparr>im_store := s, im_worker := (im_worker st)(i := WAbsent k b)\<rparr>))
        | WAbsent k b \<Rightarrow> (case bs_put B (im_store st) k b of
              (s, Inr _) \<Rightarrow> Some (st\<lparr>im_store := s, im_worker := (im_worker st)(i := WFree),
                im_report := (im_report st)\<lparr>ci_blocks := ci_blocks (im_report st) + 1, ci_bytes := (ci_bytes (im_report st) + length b) mod 2 ^ 64\<rparr>\<rparr>)
            | (s, Inl _) \<Rightarrow> Some (st\<lparr>im_store := s, im_worker := (im_worker st)(i := WFree),
                im_report := (im_report st)\<lparr>ci_errors := ci_errors (im_report st) + 1\<rparr>\<rparr>))))"

fun import_step :: "'i block_store \<Rightarrow> car_job \<Rightarrow> import_move \<Rightarrow> 'i import_state \<Rightarrow> 'i import_state option" where
  "import_step B J Reader st = reader_step J st"
| "import_step B J (Worker i) st = worker_step B J i st"

fun import_run :: "'i block_store \<Rightarrow> car_job \<Rightarrow> import_move list \<Rightarrow> 'i import_state \<Rightarrow> 'i import_state option" where
  "import_run B J [] st = Some st"
| "import_run B J (mv # ms) st = (case import_step B J mv st of None \<Rightarrow> None | Some st \<Rightarrow> import_run B J ms st)"

definition import_done :: "car_job \<Rightarrow> 'i import_state \<Rightarrow> bool" where
  "import_done J st \<longleftrightarrow> im_reader st \<noteq> None \<and> im_queue st = [] \<and> (\<forall>i < car_workers J. im_worker st i = WFree)"

definition import_start :: "'i \<Rightarrow> source \<Rightarrow> 'i import_state" where
  "import_start s r = \<lparr>im_store = s, im_src = r, im_reader = None, im_queue = [], im_worker = (\<lambda>_. WFree), im_report = car_import_report_default\<rparr>"

text \<open>\<open>None\<close> for a schedule that blocks or ends before the threads are joined.\<close>

definition car_import ::
  "'i block_store \<Rightarrow> car_job \<Rightarrow> import_move list \<Rightarrow> source \<Rightarrow> 'i \<Rightarrow> ('i, car_import_report) op option" where
  "car_import B J ms r s =
     (case car_header r of
        (r, Inl e) \<Rightarrow> Some (s, Inl e)
      | (r, Inr _) \<Rightarrow> (case import_run B J ms (import_start s r) of
            None \<Rightarrow> None
          | Some st \<Rightarrow> if import_done J st then
                Some (im_store st, case im_reader st of Some (Inl e) \<Rightarrow> Inl e | _ \<Rightarrow> Inr (im_report st))
              else None))"

section \<open>Export\<close>

definition CAR_HEADER :: bytes where
  "CAR_HEADER = [0xA2, 0x65, 0x72, 0x6f, 0x6f, 0x74, 0x73, 0x80, 0x67, 0x76, 0x65, 0x72, 0x73, 0x69, 0x6f, 0x6e, 0x01]"

definition EXPORT_PAGE :: nat where
  "EXPORT_PAGE = 1024"

definition write_frame :: "bytes \<Rightarrow> bytes \<Rightarrow> sink \<Rightarrow> (sink, unit) op" where
  "write_frame mh b w =
     (let cid = [0x01, 0x55] @ mh in
      and_then (write_varint (word_of_nat (length cid + length b)) w) (\<lambda>_ w.
        and_then (sink_write_all cid w) (\<lambda>_ w. sink_write_all b w)))"

text \<open>The keys of one page; a key that is gone is skipped.\<close>

fun export_keys :: "'i block_store \<Rightarrow> bytes \<Rightarrow> block_key list \<Rightarrow> car_export_report \<Rightarrow> 'i \<times> sink \<Rightarrow> ('i \<times> sink, car_export_report) op" where
  "export_keys B pre [] rep (i, w) = ((i, w), Inr rep)"
| "export_keys B pre (k # ks) rep (i, w) =
     (case bs_get B i k of
        (i, Inl NotFound) \<Rightarrow> export_keys B pre ks rep (i, w)
      | (i, Inl e) \<Rightarrow> ((i, w), Inl e)
      | (i, Inr b) \<Rightarrow> (case base32_decode (drop (length pre) k) of
            None \<Rightarrow> ((i, w), Inl (Io ''car export''))
          | Some mh \<Rightarrow>
              (case write_frame mh b w of
                 (w, Inl e) \<Rightarrow> ((i, w), Inl e)
               | (w, Inr _) \<Rightarrow> export_keys B pre ks (rep\<lparr>cx_blocks := cx_blocks rep + 1, cx_bytes := (cx_bytes rep + length b) mod 2 ^ 64\<rparr>) (i, w))))"

partial_function (option) export_loop ::
  "'i block_store \<Rightarrow> bytes \<Rightarrow> block_key option \<Rightarrow> car_export_report \<Rightarrow> 'i \<times> sink \<Rightarrow> ('i \<times> sink, car_export_report) op option" where
  "export_loop B pre after rep iw =
     (case bs_list B (fst iw) pre after EXPORT_PAGE of
        (i, Inl e) \<Rightarrow> Some ((i, snd iw), Inl e)
      | (i, Inr keys) \<Rightarrow> (case export_keys B pre (map fst keys) rep (i, snd iw) of
            (iw, Inl e) \<Rightarrow> Some (iw, Inl e)
          | (iw, Inr rep) \<Rightarrow>
              if length keys < EXPORT_PAGE \<or> keys = [] then Some (iw, Inr rep)
              else export_loop B pre (Some (fst (last keys))) rep iw))"

definition car_export :: "'i block_store \<Rightarrow> bytes \<Rightarrow> 'i \<times> sink \<Rightarrow> ('i \<times> sink, car_export_report) op option" where
  "car_export B pre iw =
     (case and_then (write_varint (word_of_nat (length CAR_HEADER)) (snd iw)) (\<lambda>_ w. sink_write_all CAR_HEADER w) of
        (w, Inl e) \<Rightarrow> Some ((fst iw, w), Inl e)
      | (w, Inr _) \<Rightarrow> (case export_loop B pre None car_export_report_default (fst iw, w) of
            None \<Rightarrow> None
          | Some (iw, Inl e) \<Rightarrow> Some (iw, Inl e)
          | Some (iw, Inr rep) \<Rightarrow> (case flush_sink (snd iw) of
                (w, Inl e) \<Rightarrow> Some ((fst iw, w), Inl e)
              | (w, Inr _) \<Rightarrow> Some ((fst iw, w), Inr rep))))"

end
