(* ===== verification/Car_Laws.thy ===== *)
theory Car_Laws
  imports Car "HOL-Library.Multiset"
begin

text \<open>
  The import pipeline against its reference: the frames of a stream in their order. An invariant ties every state of the pipeline to
  that list, a measure shows that every schedule ends, and a reader or a worker can always move before the end.
\<close>

section \<open>Reading makes progress\<close>

lemma read_exact_data: "read_exact n r = (r', Inr bs) \<Longrightarrow> sr_data r = bs @ sr_data r' \<and> length bs = n"
  by (auto simp: read_exact_def Let_def split: if_splits)

lemma read_exact_le: "length (sr_data (fst (read_exact n r))) \<le> length (sr_data r)"
  by (auto simp: read_exact_def Let_def)

lemma read_varint_loop_shrinks:
  "read_varint_loop x n first r = (r', Inr (Some y)) \<Longrightarrow> length (sr_data r') < length (sr_data r)"
proof (induction x n first r rule: read_varint_loop.induct)
  case (1 x n first r)
  obtain r1 q where r1: "read_exact 1 r = (r1, q)" by fastforce
  show ?case
  proof (cases q)
    case (Inl k)
    then show ?thesis using 1(2) r1 by (subst (asm) read_varint_loop.simps) (auto split: if_splits)
  next
    case (Inr bs)
    then have less: "length (sr_data r1) < length (sr_data r)" using read_exact_data [of 1 r] r1 by fastforce
    show ?thesis
    proof (cases "n < 63 \<and> hd bs AND 128 \<noteq> 0")
      case True
      then have "length (sr_data r') < length (sr_data r1)"
        using 1(1) [OF r1 [symmetric] Inr] 1(2) r1 Inr by (subst (asm) (2) read_varint_loop.simps) (auto simp: Let_def not_le)
      with less show ?thesis by simp
    next
      case False
      then show ?thesis using 1(2) r1 Inr less by (subst (asm) read_varint_loop.simps) (auto simp: Let_def split: if_splits)
    qed
  qed
qed

lemma read_frame_shrinks:
  assumes "read_frame J r = (r', Inr f)" and "f \<noteq> EndOfCar"
  shows "length (sr_data r') < length (sr_data r)"
proof -
  obtain r1 h where r1: "read_varint r = (r1, h)" by fastforce
  from assms r1 obtain n where h: "h = Inr (Some n)" by (cases h) (auto simp: read_frame_def split: option.splits)
  then have l: "length (sr_data r1) < length (sr_data r)" using r1 read_varint_loop_shrinks by (simp add: read_varint_def)
  obtain r2 q where r2: "read_exact (unat n) r1 = (r2, q)" by fastforce
  from assms r1 h r2 have "r' = r2"
    by (cases q) (auto simp: read_frame_def Let_def split: if_splits option.splits prod.splits)
  with l r2 read_exact_le [of "unat n" r1] show ?thesis by simp
qed

function car_frames :: "car_job \<Rightarrow> source \<Rightarrow> car_frame list \<times> unit domain_result" where
  "car_frames J r =
     (case read_frame J r of
        (r, Inl e) \<Rightarrow> ([], Inl e)
      | (r, Inr f) \<Rightarrow> if f = EndOfCar then ([], Inr ()) else (case car_frames J r of (fs, e) \<Rightarrow> (f # fs, e)))"
  by pat_completeness auto

termination
  by (relation "measure (\<lambda>(J, r). length (sr_data r))") (auto dest!: sym [of _ "read_frame _ _"] read_frame_shrinks)

declare car_frames.simps [simp del]

fun good_frames :: "car_frame list \<Rightarrow> (block_key \<times> bytes) list" where
  "good_frames [] = []"
| "good_frames (GoodFrame k b # fs) = (k, b) # good_frames fs"
| "good_frames (f # fs) = good_frames fs"

lemma good_frames_append [simp]: "good_frames (fs @ gs) = good_frames fs @ good_frames gs"
  by (induction fs rule: good_frames.induct) simp_all

definition car_content :: "car_job \<Rightarrow> source \<Rightarrow> car_frame list \<times> unit domain_result" where
  "car_content J r = (case car_header r of (r, Inl e) \<Rightarrow> ([], Inl e) | (r, Inr _) \<Rightarrow> car_frames J r)"

definition bad_frames :: "car_frame list \<Rightarrow> nat" where
  "bad_frames fs = length (filter (\<lambda>f. f = BadFrame) fs)"

section \<open>What the workers hold\<close>

fun worker_items :: "worker \<Rightarrow> (block_key \<times> bytes) multiset" where
  "worker_items WFree = {#}"
| "worker_items (WTaken k b) = {#(k, b)#}"
| "worker_items (WAbsent k b) = {#(k, b)#}"

definition busy_items :: "car_job \<Rightarrow> (nat \<Rightarrow> worker) \<Rightarrow> (block_key \<times> bytes) multiset" where
  "busy_items J ws = (\<Sum>i<car_workers J. worker_items (ws i))"

lemma busy_items_upd:
  assumes "i < car_workers J"
  shows "busy_items J (ws(i := w)) + worker_items (ws i) = busy_items J ws + worker_items w"
proof -
  have "(\<Sum>j \<in> {..<car_workers J} - {i}. worker_items ((ws(i := w)) j)) = (\<Sum>j \<in> {..<car_workers J} - {i}. worker_items (ws j))"
    by (rule sum.cong) auto
  then show ?thesis unfolding busy_items_def using assms
    by (simp add: sum.remove [of "{..<car_workers J}" i])
qed

lemma busy_items_free: "\<forall>i < car_workers J. ws i = WFree \<Longrightarrow> busy_items J ws = {#}"
  by (simp add: busy_items_def)

lemma car_workers_pos [simp]: "0 < car_workers J"
  by (simp add: car_workers_def)

section \<open>Every schedule ends\<close>

fun worker_weight :: "worker \<Rightarrow> nat" where
  "worker_weight WFree = 0"
| "worker_weight (WTaken k b) = 2"
| "worker_weight (WAbsent k b) = 1"

definition import_left :: "car_job \<Rightarrow> 'i import_state \<Rightarrow> nat" where
  "import_left J st = 4 * length (sr_data (im_src st)) + (if im_reader st = None then 1 else 0) + 3 * length (im_queue st) +
     (\<Sum>i<car_workers J. worker_weight (im_worker st i))"

lemma weight_upd:
  assumes "i < car_workers J"
  shows "(\<Sum>j<car_workers J. worker_weight ((ws(i := w)) j)) + worker_weight (ws i) = (\<Sum>j<car_workers J. worker_weight (ws j)) + worker_weight w"
proof -
  have "(\<Sum>j \<in> {..<car_workers J} - {i}. worker_weight ((ws(i := w)) j)) = (\<Sum>j \<in> {..<car_workers J} - {i}. worker_weight (ws j))"
    by (rule sum.cong) auto
  then show ?thesis using assms by (simp add: sum.remove [of "{..<car_workers J}" i])
qed

lemma read_varint_loop_le: "read_varint_loop x n first r = (r', q) \<Longrightarrow> length (sr_data r') \<le> length (sr_data r)"
proof (induction x n first r rule: read_varint_loop.induct)
  case (1 x n first r)
  obtain r1 q1 where r1: "read_exact 1 r = (r1, q1)" by fastforce
  have le: "length (sr_data r1) \<le> length (sr_data r)" using read_exact_le [of 1 r] r1 by simp
  show ?case
  proof (cases "\<exists>bs. q1 = Inr bs \<and> n < 63 \<and> hd bs AND 128 \<noteq> 0")
    case True
    then obtain bs where bs: "q1 = Inr bs" "n < 63" "hd bs AND 128 \<noteq> 0" by blast
    then have "length (sr_data r') \<le> length (sr_data r1)"
      using 1(1) [OF r1 [symmetric] bs(1)] 1(2) r1 by (subst (asm) (2) read_varint_loop.simps) (auto simp: Let_def not_le)
    with le show ?thesis by simp
  next
    case False
    then show ?thesis using 1(2) r1 le by (cases q1; subst (asm) read_varint_loop.simps) (auto simp: Let_def split: if_splits)
  qed
qed

lemma read_frame_le:
  assumes "read_frame J r = (r', q)"
  shows "length (sr_data r') \<le> length (sr_data r)"
proof -
  obtain r1 h where r1: "read_varint r = (r1, h)" by fastforce
  then have l: "length (sr_data r1) \<le> length (sr_data r)" using read_varint_loop_le by (simp add: read_varint_def)
  show ?thesis
  proof (cases "\<exists>n. h = Inr (Some n)")
    case False
    then show ?thesis using assms r1 l by (cases h) (auto simp: read_frame_def split: option.splits)
  next
    case True
    then obtain n where h: "h = Inr (Some n)" by blast
    obtain r2 p where r2: "read_exact (unat n) r1 = (r2, p)" by fastforce
    from assms r1 h r2 have "r' = r1 \<or> r' = r2"
      by (cases p) (auto simp: read_frame_def Let_def split: if_splits option.splits prod.splits)
    with l r2 read_exact_le [of "unat n" r1] show ?thesis by auto
  qed
qed

lemma reader_step_left:
  assumes "reader_step J st = Some st'"
  shows "import_left J st' < import_left J st"
proof -
  obtain r q where f: "read_frame J (im_src st) = (r, q)" by fastforce
  have n: "im_reader st = None" using assms by (auto simp: reader_step_def split: if_splits)
  note le = read_frame_le [OF f]
  show ?thesis
  proof (cases q)
    case (Inl e)
    then show ?thesis using assms f n le by (auto simp: reader_step_def import_left_def split: if_splits)
  next
    case (Inr fr)
    show ?thesis
    proof (cases "fr = EndOfCar")
      case True
      then show ?thesis using assms f n le Inr by (auto simp: reader_step_def import_left_def split: if_splits)
    next
      case False
      with read_frame_shrinks [of J "im_src st" r fr] f Inr have "length (sr_data r) < length (sr_data (im_src st))" by simp
      then show ?thesis using assms f n Inr False by (cases fr) (auto simp: reader_step_def import_left_def split: if_splits)
    qed
  qed
qed

lemma worker_step_left:
  assumes "worker_step B J i st = Some st'"
  shows "import_left J st' < import_left J st"
proof -
  have i: "i < car_workers J" using assms by (auto simp: worker_step_def split: if_splits)
  note u = weight_upd [OF i, of "im_worker st"]
  show ?thesis
  proof (cases "im_worker st i")
    case WFree
    then obtain k b q where "im_queue st = (k, b) # q" "st' = st\<lparr>im_queue := q, im_worker := (im_worker st)(i := WTaken k b)\<rparr>"
      using assms i by (auto simp: worker_step_def split: list.splits)
    then show ?thesis using u [of "WTaken k b"] WFree by (simp add: import_left_def)
  next
    case (WTaken k b)
    obtain s r where "bs_has B (im_store st) k = (s, r)" by fastforce
    then show ?thesis using assms i WTaken u [of WFree] u [of "WAbsent k b"]
      by (auto simp: worker_step_def import_left_def split: sum.splits bool.splits)
  next
    case (WAbsent k b)
    obtain s r where "bs_put B (im_store st) k b = (s, r)" by fastforce
    then show ?thesis using assms i WAbsent u [of WFree]
      by (auto simp: worker_step_def import_left_def split: sum.splits)
  qed
qed

lemma import_step_left: "import_step B J mv st = Some st' \<Longrightarrow> import_left J st' < import_left J st"
  by (cases mv) (auto intro: reader_step_left worker_step_left)

lemma import_run_length: "import_run B J ms st = Some st' \<Longrightarrow> length ms + import_left J st' \<le> import_left J st"
  by (induction ms arbitrary: st) (force dest: import_step_left split: option.splits)+

text \<open>Nobody waits for ever: as long as the import is not over, the reader or a worker can move.\<close>

lemma import_moves:
  assumes "\<not> import_done J st"
  shows "\<exists>mv st'. import_step B J mv st = Some st'"
proof -
  consider "im_reader st = None" "length (im_queue st) < car_workers J * 8"
    | i where "i < car_workers J" "im_worker st i \<noteq> WFree"
    | "\<forall>i < car_workers J. im_worker st i = WFree" "im_queue st \<noteq> []"
    using assms car_workers_pos [of J] unfolding import_done_def by (cases "im_queue st") fastforce+
  then show ?thesis
  proof cases
    case 1
    obtain r q where "read_frame J (im_src st) = (r, q)" by fastforce
    with 1 have "\<exists>st'. reader_step J st = Some st'"
      by (auto simp: reader_step_def split: sum.split car_frame.split)
    then show ?thesis using import_step.simps(1) by metis
  next
    case 2
    have "\<exists>st'. worker_step B J i st = Some st'"
    proof (cases "im_worker st i")
      case (WTaken k b)
      obtain s r where "bs_has B (im_store st) k = (s, r)" by fastforce
      with 2 WTaken show ?thesis by (auto simp: worker_step_def split: sum.split bool.split)
    next
      case (WAbsent k b)
      obtain s r where "bs_put B (im_store st) k b = (s, r)" by fastforce
      with 2 WAbsent show ?thesis by (auto simp: worker_step_def split: sum.split)
    qed (use 2 in simp)
    then show ?thesis using import_step.simps(2) by metis
  next
    case 3
    obtain k b q where "im_queue st = (k, b) # q" using 3(2) by (metis list.exhaust surj_pair)
    with 3(1) have "\<exists>st'. worker_step B J 0 st = Some st'"
      by (auto simp: worker_step_def not_le)
    then show ?thesis using import_step.simps(2) by metis
  qed
qed

lemma import_run_append: "import_run B J (ms @ ms') st = (case import_run B J ms st of None \<Rightarrow> None | Some st \<Rightarrow> import_run B J ms' st)"
  by (induction ms arbitrary: st) (auto split: option.splits)

lemma import_completes: "\<exists>ms st'. import_run B J ms st = Some st' \<and> import_done J st'"
proof (induction "import_left J st" arbitrary: st rule: less_induct)
  case less
  show ?case
  proof (cases "import_done J st")
    case True
    then show ?thesis by (intro exI [of _ "[]"]) simp
  next
    case False
    from import_moves [OF this, of B] obtain mv st1 where s: "import_step B J mv st = Some st1" by blast
    from less [OF import_step_left [OF s]] obtain ms st' where "import_run B J ms st1 = Some st'" "import_done J st'" by blast
    with s show ?thesis by (intro exI [of _ "mv # ms"]) simp
  qed
qed

section \<open>The invariant of the pipeline\<close>

text \<open>
  \<open>import_inv\<close>: the frames read so far are those in the channel, those with a worker and those done (\<open>C\<close>); the counters count them; the
  store has nothing but what it had and the bodies of frames, and, while no put failed, a body for every key that is done.
\<close>

context listed_store
begin

definition import_inv ::
  "car_job \<Rightarrow> car_frame list \<Rightarrow> unit domain_result \<Rightarrow> 'a \<Rightarrow> (block_key \<times> bytes) multiset \<Rightarrow> car_frame list \<Rightarrow> car_frame list \<Rightarrow> 'a import_state \<Rightarrow> bool" where
  "import_inv J fs0 e0 i0 C fs rest st \<longleftrightarrow>
     fs0 = fs @ rest \<and>
     (case im_reader st of None \<Rightarrow> car_frames J (im_src st) = (rest, e0) | Some e \<Rightarrow> rest = [] \<and> e = e0) \<and>
     ci_corrupt (im_report st) = bad_frames fs \<and>
     mset (good_frames fs) = mset (im_queue st) + busy_items J (im_worker st) + C \<and>
     ci_blocks (im_report st) + ci_skipped (im_report st) + ci_errors (im_report st) = size C \<and>
     ok (length (good_frames rest) + length (im_queue st) + size (busy_items J (im_worker st))) (im_store st) \<and>
     (\<forall>k b. H (im_store st) k b \<longrightarrow> H i0 k b \<or> (k, b) \<in> set (good_frames fs0)) \<and>
     (ci_errors (im_report st) = 0 \<longrightarrow> (\<forall>k. (\<exists>b. H i0 k b) \<or> (\<exists>b. (k, b) \<in># C) \<longrightarrow> (\<exists>b. H (im_store st) k b)))"

lemma import_invD:
  assumes "import_inv J fs0 e0 i0 C fs rest st"
  shows "fs0 = fs @ rest" "im_reader st = None \<Longrightarrow> car_frames J (im_src st) = (rest, e0)" "im_reader st = Some e \<Longrightarrow> rest = [] \<and> e = e0"
    "ci_corrupt (im_report st) = bad_frames fs" "mset (good_frames fs) = mset (im_queue st) + busy_items J (im_worker st) + C"
    "ci_blocks (im_report st) + ci_skipped (im_report st) + ci_errors (im_report st) = size C"
    "ok (length (good_frames rest) + length (im_queue st) + size (busy_items J (im_worker st))) (im_store st)"
    "H (im_store st) k b \<Longrightarrow> H i0 k b \<or> (k, b) \<in> set (good_frames fs0)"
    "ci_errors (im_report st) = 0 \<Longrightarrow> (\<exists>b. H i0 k b) \<or> (\<exists>b. (k, b) \<in># C) \<Longrightarrow> \<exists>b. H (im_store st) k b"
  using assms unfolding import_inv_def by (auto split: option.splits; blast)+

lemma import_inv_reader:
  assumes inv: "import_inv J fs0 e0 i0 C fs rest st" and step: "reader_step J st = Some st'"
  shows "\<exists>fs rest. import_inv J fs0 e0 i0 C fs rest st'"
proof -
  note d = import_invD [OF inv]
  obtain r q where f: "read_frame J (im_src st) = (r, q)" by fastforce
  have n: "im_reader st = None" using step by (auto simp: reader_step_def split: if_splits)
  note cf = d(2) [OF n]
  show ?thesis
  proof (cases q)
    case (Inl e)
    then have st': "st' = st\<lparr>im_src := r, im_reader := Some (Inl e)\<rparr>" using step f n by (simp add: reader_step_def split: if_splits)
    have "rest = [] \<and> e0 = Inl e" using cf f Inl by (subst (asm) car_frames.simps) simp
    with inv n have "import_inv J fs0 e0 i0 C fs [] st'" unfolding st' import_inv_def by (auto; blast)
    then show ?thesis by blast
  next
    case (Inr fr)
    show ?thesis
    proof (cases "fr = EndOfCar")
      case True
      then have st': "st' = st\<lparr>im_src := r, im_reader := Some (Inr ())\<rparr>" using step f n Inr by (simp add: reader_step_def split: if_splits)
      have "rest = [] \<and> e0 = Inr ()" using cf f Inr True by (subst (asm) car_frames.simps) simp
      with inv n have "import_inv J fs0 e0 i0 C fs [] st'" unfolding st' import_inv_def by (auto; blast)
      then show ?thesis by blast
    next
      case False
      obtain gs where rest: "rest = fr # gs" "car_frames J r = (gs, e0)"
        using cf f Inr False by (subst (asm) car_frames.simps) (auto split: prod.splits)
      show ?thesis
      proof (cases fr)
        case BadFrame
        then have st': "st' = st\<lparr>im_src := r, im_report := (im_report st)\<lparr>ci_corrupt := ci_corrupt (im_report st) + 1\<rparr>\<rparr>"
          using step f n Inr by (simp add: reader_step_def split: if_splits)
        have "import_inv J fs0 e0 i0 C (fs @ [fr]) gs st'"
          using inv n rest BadFrame unfolding st' import_inv_def by (auto simp: bad_frames_def; blast)
        then show ?thesis by blast
      next
        case (GoodFrame k b)
        then have st': "st' = st\<lparr>im_src := r, im_queue := im_queue st @ [(k, b)]\<rparr>"
          using step f n Inr by (simp add: reader_step_def split: if_splits)
        have "import_inv J fs0 e0 i0 C (fs @ [fr]) gs st'"
          using inv n rest GoodFrame unfolding st' import_inv_def by (auto simp: bad_frames_def; blast)
        then show ?thesis by blast
      qed (use False in simp)
    qed
  qed
qed

lemma import_inv_worker:
  assumes inv: "import_inv J fs0 e0 i0 C fs rest st" and step: "worker_step B J i st = Some st'"
    and fit: "\<forall>(k, b) \<in> set (good_frames fs0). fits k b"
  shows "\<exists>C. import_inv J fs0 e0 i0 C fs rest st'"
proof -
  note d = import_invD [OF inv]
  have i: "i < car_workers J" using step by (auto simp: worker_step_def split: if_splits)
  note u = busy_items_upd [OF i, of "im_worker st"]
  show ?thesis
  proof (cases "im_worker st i")
    case WFree
    then obtain k b q where q: "im_queue st = (k, b) # q" "st' = st\<lparr>im_queue := q, im_worker := (im_worker st)(i := WTaken k b)\<rparr>"
      using step i by (auto simp: worker_step_def split: list.splits)
    have "busy_items J ((im_worker st)(i := WTaken k b)) = add_mset (k, b) (busy_items J (im_worker st))" using u [of "WTaken k b"] WFree by simp
    then have "import_inv J fs0 e0 i0 C fs rest st'" using inv q unfolding import_inv_def by (auto split: option.splits; blast)
    then show ?thesis by blast
  next
    case (WTaken k b)
    obtain s r where h: "bs_has B (im_store st) k = (s, r)" by fastforce
    note l = store_has [OF d(7), of k, unfolded h]
    have s: "ok (length (good_frames rest) + length (im_queue st) + size (busy_items J (im_worker st))) s" "H s = H (im_store st)"
      using l by (cases r; simp add: store_kept_def)+
    have old: "busy_items J (im_worker st) = add_mset (k, b) (busy_items J ((im_worker st)(i := WFree)))" using u [of WFree] WTaken by simp
    show ?thesis
    proof (cases "r = Inr True")
      case True
      then have st': "st' = st\<lparr>im_store := s, im_worker := (im_worker st)(i := WFree),
          im_report := (im_report st)\<lparr>ci_skipped := ci_skipped (im_report st) + 1\<rparr>\<rparr>"
        using step i WTaken h by (simp add: worker_step_def)
      have held: "\<exists>b. H s k b" using l True s(2) by simp
      have "import_inv J fs0 e0 i0 (add_mset (k, b) C) fs rest st'"
        using inv s held old store_mono [OF s(1)] unfolding st' import_inv_def by (auto split: option.splits; blast)
      then show ?thesis by blast
    next
      case False
      then have st': "st' = st\<lparr>im_store := s, im_worker := (im_worker st)(i := WAbsent k b)\<rparr>"
        using step i WTaken h by (auto simp: worker_step_def split: sum.splits bool.splits)
      have "busy_items J ((im_worker st)(i := WAbsent k b)) = busy_items J (im_worker st)" using u [of "WAbsent k b"] WTaken by simp
      then have "import_inv J fs0 e0 i0 C fs rest st'" using inv s unfolding st' import_inv_def by (auto split: option.splits; blast)
      then show ?thesis by blast
    qed
  next
    case (WAbsent k b)
    obtain s r where h: "bs_put B (im_store st) k b = (s, r)" by fastforce
    have old: "busy_items J (im_worker st) = add_mset (k, b) (busy_items J ((im_worker st)(i := WFree)))" using u [of WFree] WAbsent by simp
    have mem: "(k, b) \<in> set (good_frames fs0)"
    proof -
      have "(k, b) \<in># mset (good_frames fs)" using d(5) old by simp
      then show ?thesis using d(1) by simp
    qed
    let ?n = "length (good_frames rest) + length (im_queue st) + size (busy_items J ((im_worker st)(i := WFree)))"
    have okS: "ok (Suc ?n) (im_store st)" using d(7) old by simp
    have f: "fits k b" using fit mem by auto
    note l = store_put [OF okS f, unfolded h]
    have s: "ok ?n s" "store_wrote H L fine k b (im_store st) s" using l by (cases r; simp)+
    have new: "H s k' b' \<Longrightarrow> H i0 k' b' \<or> (k', b') \<in> set (good_frames fs0)" for k' b'
      using s(2) d(8) mem by (auto simp: store_wrote_def)
    show ?thesis
    proof (cases r)
      case (Inl e)
      then have st': "st' = st\<lparr>im_store := s, im_worker := (im_worker st)(i := WFree),
          im_report := (im_report st)\<lparr>ci_errors := ci_errors (im_report st) + 1\<rparr>\<rparr>"
        using step i WAbsent h by (simp add: worker_step_def)
      have "import_inv J fs0 e0 i0 (add_mset (k, b) C) fs rest st'"
        using inv s new old unfolding st' import_inv_def by (auto split: option.splits; blast)
      then show ?thesis by blast
    next
      case (Inr x)
      then have st': "st' = st\<lparr>im_store := s, im_worker := (im_worker st)(i := WFree),
          im_report := (im_report st)\<lparr>ci_blocks := ci_blocks (im_report st) + 1, ci_bytes := (ci_bytes (im_report st) + length b) mod 2 ^ 64\<rparr>\<rparr>"
        using step i WAbsent h by (simp add: worker_step_def)
      have kept: "\<exists>b'. H s k' b'" if "k' = k \<or> (\<exists>b'. H (im_store st) k' b')" for k'
        using that l Inr store_others [OF okS f, of k'] h by (cases "k' = k") auto
      have "import_inv J fs0 e0 i0 (add_mset (k, b) C) fs rest st'"
        using inv s new old kept unfolding st' import_inv_def by (auto split: option.splits; blast)
      then show ?thesis by blast
    qed
  qed
qed

lemma import_inv_run:
  assumes "import_run B J ms st = Some st'" and "import_inv J fs0 e0 i0 C fs rest st" and fit: "\<forall>(k, b) \<in> set (good_frames fs0). fits k b"
  shows "\<exists>C fs rest. import_inv J fs0 e0 i0 C fs rest st'"
  using assms(1,2)
proof (induction ms arbitrary: st C fs rest)
  case Nil
  then show ?case by auto
next
  case (Cons mv ms)
  then obtain st1 where st1: "import_step B J mv st = Some st1" "import_run B J ms st1 = Some st'" by (auto split: option.splits)
  have "\<exists>C fs rest. import_inv J fs0 e0 i0 C fs rest st1"
    using import_inv_reader [OF Cons.prems(2)] import_inv_worker [OF Cons.prems(2) _ fit] st1(1) by (cases mv) (simp; blast)+
  with Cons.IH [OF st1(2)] show ?case by blast
qed

text \<open>Whatever the import returns, also when the reader meets an error half-way: nothing but bodies of frames comes in.\<close>

lemma car_import_sound:
  assumes imp: "car_import B J ms r i = Some (i', res)" and content: "car_content J r = (fs, e)"
    and ok: "ok (length (good_frames fs)) i" and fit: "\<forall>(k, b) \<in> set (good_frames fs). fits k b" and h: "H i' k b"
  shows "H i k b \<or> (k, b) \<in> set (good_frames fs)"
proof -
  obtain r1 q where q: "car_header r = (r1, q)" by fastforce
  show ?thesis
  proof (cases q)
    case (Inl e')
    then show ?thesis using imp q h by (simp add: car_import_def)
  next
    case (Inr u)
    with imp q obtain st where st: "import_run B J ms (import_start i r1) = Some st" "i' = im_store st"
      by (auto simp: car_import_def split: option.splits if_splits)
    have "car_frames J r1 = (fs, e)" using content q Inr by (simp add: car_content_def)
    then have "import_inv J fs e i {#} [] fs (import_start i r1)"
      using ok by (simp add: import_inv_def import_start_def car_import_report_default_def bad_frames_def busy_items_free)
    from import_inv_run [OF st(1) this fit] h st(2) import_invD(8) show ?thesis by blast
  qed
qed

lemma car_import_ends:
  assumes content: "car_content J r = (fs, Inr ())" and ok: "ok (length (good_frames fs)) i" and fit: "\<forall>(k, b) \<in> set (good_frames fs). fits k b"
  shows "\<exists>ms i' rep. car_import B J ms r i = Some (i', Inr rep)"
proof -
  obtain r1 u where q: "car_header r = (r1, Inr u)" "car_frames J r1 = (fs, Inr ())"
    using content by (auto simp: car_content_def split: prod.splits sum.splits)
  obtain ms st where st: "import_run B J ms (import_start i r1) = Some st" "import_done J st" using import_completes by blast
  have "import_inv J fs (Inr ()) i {#} [] fs (import_start i r1)"
    using ok q(2) by (simp add: import_inv_def import_start_def car_import_report_default_def bad_frames_def busy_items_free)
  from import_inv_run [OF st(1) this fit] obtain C fs1 rest where "import_inv J fs (Inr ()) i C fs1 rest st" by blast
  from import_invD(3) [OF this] st(2) have "im_reader st = Some (Inr ())" by (cases "im_reader st") (auto simp: import_done_def)
  then have "car_import B J ms r i = Some (im_store st, Inr (im_report st))" using q(1) st by (simp add: car_import_def)
  then show ?thesis by blast
qed

text \<open>The whole import, on every schedule.\<close>

lemma car_import_spec:
  assumes imp: "car_import B J ms r i = Some (i', Inr rep)" and content: "car_content J r = (fs, e)"
    and ok: "ok (length (good_frames fs)) i" and fit: "\<forall>(k, b) \<in> set (good_frames fs). fits k b"
  shows "e = Inr () \<and> ci_corrupt rep = bad_frames fs \<and> ci_blocks rep + ci_skipped rep + ci_errors rep = length (good_frames fs) \<and>
    (\<forall>k b. H i' k b \<longrightarrow> H i k b \<or> (k, b) \<in> set (good_frames fs)) \<and>
    (ci_errors rep = 0 \<longrightarrow> (\<forall>k. (\<exists>b. H i k b) \<or> (\<exists>b. (k, b) \<in> set (good_frames fs)) \<longrightarrow> (\<exists>b. H i' k b)))"
proof -
  obtain r1 u where h: "car_header r = (r1, Inr u)" using imp by (auto simp: car_import_def split: prod.splits sum.splits)
  obtain st where st: "import_run B J ms (import_start i r1) = Some st" "import_done J st" "i' = im_store st"
      "(case im_reader st of Some (Inl e) \<Rightarrow> Inl e | _ \<Rightarrow> Inr (im_report st)) = Inr rep"
    using imp h by (auto simp: car_import_def split: option.splits if_splits)
  have cf: "car_frames J r1 = (fs, e)" using content h by (simp add: car_content_def)
  have "import_inv J fs e i {#} [] fs (import_start i r1)"
    using ok cf by (simp add: import_inv_def import_start_def car_import_report_default_def bad_frames_def busy_items_free)
  from import_inv_run [OF st(1) this fit] obtain C fs1 rest where inv: "import_inv J fs e i C fs1 rest st" by blast
  note d = import_invD [OF inv]
  obtain q where q: "im_reader st = Some q" "im_queue st = []" "busy_items J (im_worker st) = {#}"
    using st(2) busy_items_free [of J "im_worker st"] by (auto simp: import_done_def)
  have r: "rest = []" "q = e" using d(3) [OF q(1)] by simp_all
  have fs: "fs = fs1" using d(1) r by simp
  have C: "mset (good_frames fs) = C" using d(5) q fs by simp
  have rep: "e = Inr ()" "rep = im_report st" using st(4) q(1) r(2) by (cases e; simp)+
  have n: "size C = length (good_frames fs)" unfolding C [symmetric] by simp
  have mem: "(k, b) \<in># C \<longleftrightarrow> (k, b) \<in> set (good_frames fs)" for k b unfolding C [symmetric] by simp
  show ?thesis unfolding st(3) rep(2) using rep(1) d(4,6,8,9) unfolding fs [symmetric] n mem by blast
qed

end

text \<open>With verification, a frame under a sha2-256 multihash is good only if its body has that digest.\<close>

lemma read_frame_good:
  assumes "read_frame J r = (r', Inr (GoodFrame k b))"
  shows "\<exists>mh. k = key_for_multihash (cj_prefix J) mh \<and>
    (cj_verify J \<and> 2 \<le> length mh \<and> mh ! 0 = 0x12 \<and> mh ! 1 = 0x20 \<longrightarrow> mh = [0x12, 0x20] @ cj_sha256 J b)"
proof -
  obtain r1 h where r1: "read_varint r = (r1, h)" by fastforce
  from assms r1 obtain l where h: "h = Inr (Some l)" by (cases h) (auto simp: read_frame_def split: option.splits)
  have l: "\<not> (l = 0 \<or> 2 ^ 30 < unat l)" using assms r1 h by (cases "l = 0 \<or> 2 ^ 30 < unat l") (simp_all add: read_frame_def)
  obtain r2 x where r2: "read_exact (unat l) r1 = (r2, x)" by fastforce
  from assms r1 h l r2 obtain fr where x: "x = Inr fr" by (cases x) (simp_all add: read_frame_def)
  from assms r1 h l r2 x obtain n mh where p: "parse_cid fr = Some (n, mh)" by (cases "parse_cid fr") (auto simp: read_frame_def)
  have ok: "\<not> (cj_verify J \<and> 2 \<le> length mh \<and> mh ! 0 = 0x12 \<and> mh ! 1 = 0x20 \<and> cj_sha256 J (drop n fr) \<noteq> bslice mh 2 34)"
    (is "\<not> ?bad") using assms r1 h l r2 x p by (cases ?bad) (simp_all add: read_frame_def Let_def)
  with assms r1 h l r2 x p have kb: "k = key_for_multihash (cj_prefix J) mh" "b = drop n fr" by (simp_all add: read_frame_def Let_def split: if_splits)
  have "mh = [0x12, 0x20] @ bslice mh 2 34" if "2 \<le> length mh" "mh ! 0 = 0x12" "mh ! 1 = 0x20"
  proof -
    have "mh = mh ! 0 # mh ! 1 # drop 2 mh" using that(1) by (cases mh; cases "tl mh") auto
    moreover have "bslice mh 2 34 = drop 2 mh" using parse_cid_sha256 [OF p that] by (simp add: bslice_def)
    ultimately show ?thesis using that(2,3) by simp
  qed
  with ok kb show ?thesis by auto
qed

lemma car_frames_good:
  "car_frames J r = (fs, e) \<Longrightarrow> (k, b) \<in> set (good_frames fs) \<Longrightarrow> \<exists>mh. k = key_for_multihash (cj_prefix J) mh \<and>
    (cj_verify J \<and> 2 \<le> length mh \<and> mh ! 0 = 0x12 \<and> mh ! 1 = 0x20 \<longrightarrow> mh = [0x12, 0x20] @ cj_sha256 J b)"
proof (induction J r arbitrary: fs e rule: car_frames.induct)
  case (1 J r)
  obtain r1 q where f: "read_frame J r = (r1, q)" by fastforce
  show ?case
  proof (cases "\<exists>fr. q = Inr fr \<and> fr \<noteq> EndOfCar")
    case False
    then show ?thesis using 1(2,3) f by (subst (asm) car_frames.simps) (auto split: sum.splits if_splits)
  next
    case True
    then obtain fr where fr: "q = Inr fr" "fr \<noteq> EndOfCar" by blast
    obtain gs e' where g: "car_frames J r1 = (gs, e')" by fastforce
    have fs: "fs = fr # gs" using 1(2) f fr g by (subst (asm) car_frames.simps) simp
    show ?thesis
    proof (cases "(k, b) \<in> set (good_frames gs)")
      case True
      then show ?thesis using 1(1) [OF f [symmetric] fr(1) fr(2) g] by blast
    next
      case False
      then have "fr = GoodFrame k b" using 1(3) fs by (cases fr) auto
      then show ?thesis using read_frame_good f fr by blast
    qed
  qed
qed

end
