(* ===== verification/Paging.thy ===== *)
theory Paging
  imports Store Pool_Repair_Thms
begin

text \<open>
  Listings in pages: what follows the last key of a page of a sorted listing, shared by the CAR export and the gateway's listing; and
  the pool that holds one body, on which their statements are instantiated.
\<close>

lemma starts_with_le: "starts_with k pre \<Longrightarrow> pre \<le> (k :: bytes)"
proof (induction pre arbitrary: k)
  case (Cons p pre)
  then show ?case by (cases k) (auto simp: starts_with_def)
qed simp

text \<open>Keys of a sorted list after its first page.\<close>

lemma page_next:
  fixes S :: "block_key set"
  assumes "finite S" and ks: "ks = take n (sorted_list_of_set S)" "ks \<noteq> []"
  shows "sorted_list_of_set S = ks @ sorted_list_of_set {k \<in> S. last ks < k}" "card {k \<in> S. last ks < k} < card S"
proof -
  let ?L = "sorted_list_of_set S" and ?R = "drop n (sorted_list_of_set S)"
  have L: "sorted_wrt (<) ?L" "set ?L = S" "distinct ?L" using assms(1) by simp_all
  have split: "?L = ks @ ?R" unfolding ks(1) by simp
  have srt: "sorted_wrt (<) ks" "sorted_wrt (<) ?R" "\<forall>x \<in> set ks. \<forall>y \<in> set ?R. x < y"
    using L(1) split sorted_wrt_append by metis+
  have top: "x \<le> last ks" if "x \<in> set ks" for x
    using srt(1) that ks(2) by (cases ks rule: rev_cases) (auto simp: sorted_wrt_append)
  have lst: "last ks \<in> set ks" using ks(2) by simp
  have mem: "S = set ks \<union> set ?R" using L(2) split by (metis set_append)
  have "set ?R = {k \<in> S. last ks < k}" using mem srt(3) lst top by (auto simp: not_le [symmetric])
  then have "sorted_list_of_set {k \<in> S. last ks < k} = ?R"
    using srt(2) sorted_list_of_set.idem_if_sorted_distinct [of ?R] by (simp add: strict_sorted_iff)
  then show "?L = ks @ sorted_list_of_set {k \<in> S. last ks < k}" using split by simp
  have "{k \<in> S. last ks < k} \<subset> S" using lst mem by blast
  then show "card {k \<in> S. last ks < k} < card S" using assms(1) by (simp add: psubset_card_mono)
qed

lemma pool_with_store:
  assumes "fits k0 b0"
  shows "pool_holds ref_env (pool_with k0 b0) k b \<longleftrightarrow> k = k0 \<and> b = b0" "pool_fine (pool_with k0 b0)"
    "n \<le> 100 \<Longrightarrow> pool_room ref_env n (pool_with k0 b0)"
proof -
  note pw = pool_with [OF assms]
  show "pool_holds ref_env (pool_with k0 b0) k b \<longleftrightarrow> k = k0 \<and> b = b0"
    unfolding pool_holds_def pw(1,2) by (auto simp: less_Suc_eq numeral_3_eq_3 split: if_splits)
  show "pool_fine (pool_with k0 b0)" "n \<le> 100 \<Longrightarrow> pool_room ref_env n (pool_with k0 b0)"
    using pw(1,3-5) by (simp_all add: pool_room_def pool_fine_def)
qed

lemma pool_pair_store:
  assumes "fits k0 b0" and "fits k1 b1" and "k0 \<noteq> k1"
  shows "pool_holds ref_env (pool_pair k0 b0 k1 b1) k b \<longleftrightarrow> k = k0 \<and> b = b0 \<or> k = k1 \<and> b = b1" "pool_fine (pool_pair k0 b0 k1 b1)"
    "n \<le> 100 \<Longrightarrow> pool_room ref_env n (pool_pair k0 b0 k1 b1)" "pool_live ref_env (pool_pair k0 b0 k1 b1) k \<longleftrightarrow> k \<in> {k0, k1}"
proof -
  note pw = pool_pair [OF assms(1,2)]
  have all: "engine_fine (po_shards (pool_pair k0 b0 k1 b1) ! i)" if "i < 3" for i using pw(4) that .
  show "pool_holds ref_env (pool_pair k0 b0 k1 b1) k b \<longleftrightarrow> k = k0 \<and> b = b0 \<or> k = k1 \<and> b = b1"
    unfolding pool_holds_def pw(1,2) using assms(3) by (auto simp: less_Suc_eq numeral_3_eq_3 split: if_splits)
  show "pool_live ref_env (pool_pair k0 b0 k1 b1) k \<longleftrightarrow> k \<in> {k0, k1}"
    unfolding pool_live_def pw(1,2) using all [of 0] by (auto simp: less_Suc_eq numeral_3_eq_3 split: if_splits)
  have "pool_ok (engine_ok ref_env) (3 * n) (pool_pair k0 b0 k1 b1)" if "n \<le> 100" by (rule pw(3)) (use that in simp)
  moreover have "all_fit (views (view ref_env) (pool_pair k0 b0 k1 b1))"
    unfolding pw(2) using assms by (auto simp: all_fit_def less_Suc_eq numeral_3_eq_3 split: if_splits)
  ultimately show "pool_fine (pool_pair k0 b0 k1 b1)" "n \<le> 100 \<Longrightarrow> pool_room ref_env n (pool_pair k0 b0 k1 b1)"
    using all by (simp_all add: pool_room_def pool_fine_def pw(1))
qed

end
