(* ===== verification/Car_Thms.thy ===== *)
theory Car_Thms
  imports Car_Laws Paging Pool_Repair_Thms
begin

text \<open>
  What CAR transfer guarantees: the text forms are read back, an import puts exactly the bodies of the stream's frames whatever the
  schedule of its threads and always comes to an end, and an export read by an import gives the same blocks.
\<close>

section \<open>The exported stream\<close>

definition car_cid :: "bytes \<Rightarrow> block_key \<Rightarrow> bytes" where
  "car_cid pre k = [0x01, 0x55] @ the (base32_decode (drop (length pre) k))"

definition frame_bytes :: "bytes \<Rightarrow> block_key \<times> bytes \<Rightarrow> bytes" where
  "frame_bytes pre kb = varint (word_of_nat (length (car_cid pre (fst kb)) + length (snd kb))) @ car_cid pre (fst kb) @ snd kb"

definition car_bytes :: "bytes \<Rightarrow> (block_key \<times> bytes) list \<Rightarrow> bytes" where
  "car_bytes pre kbs = concat (map (frame_bytes pre) kbs)"

lemma car_bytes_simps [simp]: "car_bytes pre [] = []" "car_bytes pre (kb # kbs) = frame_bytes pre kb @ car_bytes pre kbs"
  "car_bytes pre (xs @ ys) = car_bytes pre xs @ car_bytes pre ys"
  by (simp_all add: car_bytes_def)

lemma frame_written:
  assumes "base32_decode (drop (length pre) k) = Some mh" and "sk_faults w = []"
  shows "write_frame mh b w = (w\<lparr>sk_out := sk_out w @ frame_bytes pre (k, b)\<rparr>, Inr ())"
proof -
  obtain out where w: "w = \<lparr>sk_out = out, sk_faults = []\<rparr>" using assms(2) by (cases w) simp
  show ?thesis using assms(1) unfolding w
    by (simp add: write_frame_def Let_def write_varint_out sink_write_all_def frame_bytes_def car_cid_def add.assoc)
qed

section \<open>Export\<close>

context listed_store
begin

text \<open>\<open>M\<close>: what the store has, with one body for a key.\<close>

definition holds_map :: "'a \<Rightarrow> (block_key \<rightharpoonup> bytes) \<Rightarrow> bool" where
  "holds_map i M \<longleftrightarrow> (\<forall>k b. H i k b \<longleftrightarrow> M k = Some b)"

lemma fine_get:
  assumes "ok (Suc 0) i" and "fine i" and "holds_map i M" and "M k = Some b"
  shows "\<exists>i'. bs_get B i k = (i', Inr b) \<and> ok (Suc 0) i' \<and> fine i' \<and> holds_map i' M"
proof -
  obtain i' r where g: "bs_get B i k = (i', r)" by fastforce
  have "L i k" using store_live [OF assms(2), of k b] assms(3,4) by (simp add: holds_map_def)
  with store_get [OF assms(1), of k, unfolded g] store_read [OF assms(1), of k, unfolded g] assms(2,3,4) g show ?thesis
    by (cases r) (auto simp: holds_map_def store_kept_def)
qed

lemma export_keys_out:
  assumes "ok (Suc 0) i" and "fine i" and "holds_map i M" and "sk_faults w = []"
    and "\<forall>k \<in> set ks. M k \<noteq> None \<and> base32_decode (drop (length pre) k) \<noteq> None"
  shows "\<exists>i' rep'. export_keys B pre ks rep (i, w) = ((i', w\<lparr>sk_out := sk_out w @ car_bytes pre (map (\<lambda>k. (k, the (M k))) ks)\<rparr>), Inr rep') \<and>
    ok (Suc 0) i' \<and> fine i' \<and> holds_map i' M \<and> cx_blocks rep' = cx_blocks rep + length ks"
  using assms
proof (induction ks arbitrary: i w rep)
  case Nil
  then show ?case by auto
next
  case (Cons k ks)
  obtain b mh where b: "M k = Some b" "base32_decode (drop (length pre) k) = Some mh" using Cons.prems(5) by auto
  obtain i1 where i1: "bs_get B i k = (i1, Inr b)" "ok (Suc 0) i1" "fine i1" "holds_map i1 M" using fine_get [OF Cons.prems(1-3) b(1)] by blast
  let ?w = "w\<lparr>sk_out := sk_out w @ frame_bytes pre (k, b)\<rparr>"
  let ?rep = "rep\<lparr>cx_blocks := cx_blocks rep + 1, cx_bytes := (cx_bytes rep + length b) mod 2 ^ 64\<rparr>"
  have "export_keys B pre (k # ks) rep (i, w) = export_keys B pre ks ?rep (i1, ?w)"
    using frame_written [OF b(2) Cons.prems(4), of b] by (simp add: i1(1) b(2) Let_def)
  moreover obtain i' rep' where "export_keys B pre ks ?rep (i1, ?w) = ((i', ?w\<lparr>sk_out := sk_out ?w @ car_bytes pre (map (\<lambda>k. (k, the (M k))) ks)\<rparr>), Inr rep')"
      "ok (Suc 0) i'" "fine i'" "holds_map i' M" "cx_blocks rep' = cx_blocks ?rep + length ks"
    using Cons.IH [OF i1(2-4), of ?w ?rep] Cons.prems(4,5) by auto
  ultimately show ?case using b(1) by (intro exI [of _ i'] exI [of _ rep']) simp
qed

lemma export_loop_out:
  assumes "ok (Suc 0) i" and "fine i" and "holds_map i M" and "sk_faults w = []"
    and "\<forall>k. M k \<noteq> None \<and> starts_with k pre \<longrightarrow> base32_decode (drop (length pre) k) \<noteq> None" and "\<forall>a. after = Some a \<longrightarrow> starts_with a pre"
  shows "\<exists>i' rep' ks. export_loop B pre after rep (i, w) = Some ((i', w\<lparr>sk_out := sk_out w @ car_bytes pre (map (\<lambda>k. (k, the (M k))) ks)\<rparr>), Inr rep') \<and>
    finite (stored_keys H i pre after) \<and> ks = sorted_list_of_set (stored_keys H i pre after) \<and>
    ok (Suc 0) i' \<and> fine i' \<and> holds_map i' M \<and> cx_blocks rep' = cx_blocks rep + length ks"
  using assms
proof (induction "card (stored_keys H i pre after)" arbitrary: i w rep after rule: less_induct)
  case less
  have pre_le: "\<forall>a. after = Some a \<longrightarrow> pre \<le> a"
    using less.prems(6) starts_with_le by blast
  obtain i1 r where l: "bs_list B i pre after EXPORT_PAGE = (i1, r)" by fastforce
  note sl = store_list [OF less.prems(1) pre_le, of EXPORT_PAGE, unfolded l]
  with less.prems(2) obtain rows where r: "r = Inr rows" by (cases r) auto
  let ?S = "stored_keys H i pre after"
  define ks where "ks = take EXPORT_PAGE (sorted_list_of_set ?S)"
  have i1: "ok (Suc 0) i1" "fine i1" "holds_map i1 M" "finite ?S" "map fst rows = ks"
    using sl less.prems(2,3) by (simp_all add: r store_kept_def holds_map_def ks_def)
  have sub: "set ks \<subseteq> ?S" using i1(4) by (auto simp: ks_def dest: in_set_takeD)
  have dec: "\<forall>k \<in> set ks. M k \<noteq> None \<and> base32_decode (drop (length pre) k) \<noteq> None"
    using sub less.prems(3,5) by (auto simp: stored_keys_def holds_map_def)
  obtain i2 rep2 where e: "export_keys B pre ks rep (i1, w) = ((i2, w\<lparr>sk_out := sk_out w @ car_bytes pre (map (\<lambda>k. (k, the (M k))) ks)\<rparr>), Inr rep2)"
      "ok (Suc 0) i2" "fine i2" "holds_map i2 M" "cx_blocks rep2 = cx_blocks rep + length ks"
    using export_keys_out [OF i1(1-3) less.prems(4) dec, of rep] by blast
  have n: "length rows = length ks" using arg_cong [OF i1(5), of length] by simp
  show ?case
  proof (cases "length ks < EXPORT_PAGE \<or> ks = []")
    case True
    then have "ks = sorted_list_of_set ?S" using i1(4) by (auto simp: ks_def EXPORT_PAGE_def min_def split: if_splits)
    moreover have "rows = [] \<longleftrightarrow> ks = []" using n by auto
    then have "export_loop B pre after rep (i, w) = Some ((i2, w\<lparr>sk_out := sk_out w @ car_bytes pre (map (\<lambda>k. (k, the (M k))) ks)\<rparr>), Inr rep2)"
      using True n by (subst export_loop.simps) (auto simp: l r i1(5) e(1))
    ultimately show ?thesis using e(2-5) i1(4) by blast
  next
    case False
    then have ks: "ks \<noteq> []" "rows \<noteq> []" using n by auto
    let ?a = "Some (last ks)" and ?w = "w\<lparr>sk_out := sk_out w @ car_bytes pre (map (\<lambda>k. (k, the (M k))) ks)\<rparr>"
    have "H i2 = H i" using e(4) less.prems(3) by (intro ext) (simp add: holds_map_def)
    moreover have "last ks \<in> ?S" using sub last_in_set [OF ks(1)] by blast
    ultimately have S': "stored_keys H i2 pre ?a = {k \<in> ?S. last ks < k}"
      by (cases after) (auto simp: stored_keys_def)
    note pg = page_next [OF i1(4) ks_def ks(1), folded S']
    have a: "\<forall>a. ?a = Some a \<longrightarrow> starts_with a pre" using sub last_in_set [OF ks(1)] by (auto simp: stored_keys_def)
    have "export_loop B pre after rep (i, w) = export_loop B pre ?a rep2 (i2, ?w)"
      using False n ks last_map [OF ks(2), of fst] by (subst export_loop.simps) (simp add: l r i1(5) e(1))
    moreover from less.hyps [OF pg(2) e(2-4) _ less.prems(5) a, of ?w rep2] less.prems(4) obtain i' rep' ks' where
      "export_loop B pre ?a rep2 (i2, ?w) = Some ((i', ?w\<lparr>sk_out := sk_out ?w @ car_bytes pre (map (\<lambda>k. (k, the (M k))) ks')\<rparr>), Inr rep')"
      "ks' = sorted_list_of_set (stored_keys H i2 pre ?a)" "ok (Suc 0) i'" "fine i'" "holds_map i' M" "cx_blocks rep' = cx_blocks rep2 + length ks'" by auto
    ultimately show ?thesis using pg(1) e(5) i1(4)
      by (intro exI [of _ i'] exI [of _ rep'] exI [of _ "ks @ ks'"]) simp
  qed
qed

lemma car_export_out:
  assumes "ok (Suc 0) i" and "fine i" and "holds_map i M"
    and "\<forall>k. M k \<noteq> None \<and> starts_with k pre \<longrightarrow> base32_decode (drop (length pre) k) \<noteq> None"
  shows "\<exists>i' rep ks. car_export B pre (i, \<lparr>sk_out = [], sk_faults = []\<rparr>) =
      Some ((i', \<lparr>sk_out = varint 17 @ CAR_HEADER @ car_bytes pre (map (\<lambda>k. (k, the (M k))) ks), sk_faults = []\<rparr>), Inr rep) \<and>
    finite (stored_keys H i pre None) \<and> ks = sorted_list_of_set (stored_keys H i pre None) \<and> cx_blocks rep = length ks"
proof -
  have n: "length CAR_HEADER = 17" by (simp add: CAR_HEADER_def)
  let ?w = "\<lparr>sk_out = varint 17 @ CAR_HEADER, sk_faults = []\<rparr>"
  obtain i' rep ks where l: "export_loop B pre None car_export_report_default (i, ?w) =
      Some ((i', ?w\<lparr>sk_out := sk_out ?w @ car_bytes pre (map (\<lambda>k. (k, the (M k))) ks)\<rparr>), Inr rep)"
      "finite (stored_keys H i pre None)" "ks = sorted_list_of_set (stored_keys H i pre None)" "cx_blocks rep = length ks"
    using export_loop_out [OF assms(1-3) _ assms(4), of ?w None car_export_report_default]
    by (auto simp: car_export_report_default_def)
  have "car_export B pre (i, \<lparr>sk_out = [], sk_faults = []\<rparr>) =
      Some ((i', \<lparr>sk_out = varint 17 @ CAR_HEADER @ car_bytes pre (map (\<lambda>k. (k, the (M k))) ks), sk_faults = []\<rparr>), Inr rep)"
    using l(1) by (simp add: car_export_def n write_varint_out sink_write_all_def flush_sink_def)
  then show ?thesis using l(2-4) by blast
qed

end

section \<open>The stream is read back\<close>

text \<open>A block that a CAR stream can carry: its key is that of a multihash, the frame is within the limit, and a sha2-256 digest is right.\<close>

definition exportable :: "car_job \<Rightarrow> block_key \<Rightarrow> bytes \<Rightarrow> bool" where
  "exportable J k b \<longleftrightarrow> (\<exists>mh. multihash mh \<and> k = cj_prefix J @ base32_nopad mh \<and> 2 + length mh + length b \<le> 2 ^ 30 \<and>
     (cj_verify J \<and> mh ! 0 = 0x12 \<and> mh ! 1 = 0x20 \<longrightarrow> cj_sha256 J b = bslice mh 2 34))"

lemma read_varint_end: "sr_data r = [] \<Longrightarrow> sr_faults r = [] \<Longrightarrow> read_varint r = (r, Inr None)"
  by (cases r) (simp add: read_varint_def read_varint_loop.simps read_exact_def)

lemma read_frame_back:
  assumes x: "exportable J k b" and r: "sr_data r = frame_bytes (cj_prefix J) (k, b) @ rest" "sr_faults r = []"
  shows "read_frame J r = (r\<lparr>sr_data := rest\<rparr>, Inr (GoodFrame k b))"
proof -
  obtain mh where mh: "multihash mh" "k = cj_prefix J @ base32_nopad mh" "2 + length mh + length b \<le> 2 ^ 30"
      "cj_verify J \<and> mh ! 0 = 0x12 \<and> mh ! 1 = 0x20 \<longrightarrow> cj_sha256 J b = bslice mh 2 34"
    using x by (auto simp: exportable_def)
  let ?n = "word_of_nat (2 + length mh + length b) :: u64" and ?f = "[0x01, 0x55] @ mh @ b"
  have n: "unat ?n = 2 + length mh + length b" using mh(3) by (simp only: unat_of_nat) simp
  have "frame_bytes (cj_prefix J) (k, b) = varint ?n @ ?f"
    by (simp add: frame_bytes_def car_cid_def mh(2) base32_decode_nopad)
  then have "read_varint r = (r\<lparr>sr_data := ?f @ rest\<rparr>, Inr (Some ?n))"
    using r n mh(3) by (intro read_varint_back) simp_all
  moreover have "read_exact (unat ?n) (r\<lparr>sr_data := ?f @ rest\<rparr>) = (r\<lparr>sr_data := rest\<rparr>, Inr ?f)"
    unfolding n using r(2) by (cases r) (simp add: read_exact_def)
  moreover have "?n \<noteq> 0" using n by (metis add_is_0 unsigned_0 zero_neq_numeral)
  moreover have "parse_cid ?f = Some (2 + length mh, mh)" using parse_cid_back [OF mh(1), of "0x55" b] mh(3) by simp
  ultimately show ?thesis using n mh by (simp add: read_frame_def Let_def key_for_multihash_def)
qed

lemma car_frames_back:
  "\<forall>(k, b) \<in> set kbs. exportable J k b \<Longrightarrow>
    car_frames J \<lparr>sr_data = car_bytes (cj_prefix J) kbs, sr_faults = []\<rparr> = (map (\<lambda>(k, b). GoodFrame k b) kbs, Inr ())"
proof (induction kbs)
  case Nil
  then show ?case by (subst car_frames.simps) (simp add: read_frame_def read_varint_end)
next
  case (Cons kb kbs)
  obtain k b where kb: "kb = (k, b)" by fastforce
  with Cons.prems have "exportable J k b" by simp
  from read_frame_back [OF this, of "\<lparr>sr_data = car_bytes (cj_prefix J) (kb # kbs), sr_faults = []\<rparr>" "car_bytes (cj_prefix J) kbs"] Cons kb
  show ?case by (subst car_frames.simps) simp
qed

lemma good_frames_back: "good_frames (map (\<lambda>(k, b). GoodFrame k b) kbs) = kbs" "bad_frames (map (\<lambda>(k, b). GoodFrame k b) kbs) = 0"
  by (induction kbs) (auto simp: bad_frames_def filter_empty_conv)

lemma car_content_back:
  assumes "\<forall>(k, b) \<in> set kbs. exportable J k b"
  shows "car_content J \<lparr>sr_data = varint 17 @ CAR_HEADER @ car_bytes (cj_prefix J) kbs, sr_faults = []\<rparr> = (map (\<lambda>(k, b). GoodFrame k b) kbs, Inr ())"
proof -
  let ?r = "\<lparr>sr_data = varint 17 @ CAR_HEADER @ car_bytes (cj_prefix J) kbs, sr_faults = []\<rparr>"
  have "read_varint ?r = (?r\<lparr>sr_data := CAR_HEADER @ car_bytes (cj_prefix J) kbs\<rparr>, Inr (Some 17))"
    by (rule read_varint_back) simp_all
  moreover have "length CAR_HEADER = 17" "CAR_HEADER \<noteq> CARV2_PRAGMA" by (simp_all add: CAR_HEADER_def CARV2_PRAGMA_def)
  ultimately have "car_header ?r = (\<lparr>sr_data = car_bytes (cj_prefix J) kbs, sr_faults = []\<rparr>, Inr ())"
    by (simp add: car_header_def read_exact_def)
  then show ?thesis using car_frames_back [OF assms] by (simp add: car_content_def)
qed

context listed_store
begin

lemma car_transfer:
  assumes src: "ok (Suc 0) i" "fine i" "holds_map i M"
    and blocks: "\<forall>k b. M k = Some b \<and> starts_with k (cj_prefix J) \<longrightarrow> exportable J k b"
    and dst: "ok (card (stored_keys H i (cj_prefix J) None)) j" "\<forall>k b. \<not> H j k b"
  shows "\<exists>i' w rep. car_export B (cj_prefix J) (i, \<lparr>sk_out = [], sk_faults = []\<rparr>) = Some ((i', w), Inr rep) \<and>
    cx_blocks rep = card (stored_keys H i (cj_prefix J) None) \<and>
    (\<forall>ms j' rep'. car_import B J ms \<lparr>sr_data = sk_out w, sr_faults = []\<rparr> j = Some (j', Inr rep') \<longrightarrow>
       ci_corrupt rep' = 0 \<and> ci_blocks rep' + ci_skipped rep' + ci_errors rep' = cx_blocks rep \<and>
       (ci_errors rep' = 0 \<longrightarrow> (\<forall>k b. H j' k b \<longleftrightarrow> M k = Some b \<and> starts_with k (cj_prefix J))))"
proof -
  let ?pre = "cj_prefix J" and ?S = "stored_keys H i (cj_prefix J) None"
  have dec: "\<forall>k. M k \<noteq> None \<and> starts_with k ?pre \<longrightarrow> base32_decode (drop (length ?pre) k) \<noteq> None"
  proof (intro allI impI)
    fix k assume k: "M k \<noteq> None \<and> starts_with k ?pre"
    then obtain b where "M k = Some b" by auto
    with k blocks obtain mh where "k = ?pre @ base32_nopad mh" by (auto simp: exportable_def)
    then show "base32_decode (drop (length ?pre) k) \<noteq> None" by (simp add: base32_decode_nopad)
  qed
  obtain i' rep ks where e: "car_export B ?pre (i, \<lparr>sk_out = [], sk_faults = []\<rparr>) =
      Some ((i', \<lparr>sk_out = varint 17 @ CAR_HEADER @ car_bytes ?pre (map (\<lambda>k. (k, the (M k))) ks), sk_faults = []\<rparr>), Inr rep)"
    "finite ?S" "ks = sorted_list_of_set ?S" "cx_blocks rep = length ks" using car_export_out [OF src dec] by blast
  define kbs where "kbs = map (\<lambda>k. (k, the (M k))) ks"
  have n: "length kbs = card ?S" using e(2,3) by (simp add: kbs_def)
  have mem: "(k, b) \<in> set kbs \<longleftrightarrow> M k = Some b \<and> starts_with k ?pre" for k b
    using e(2,3) src(3) by (auto simp: kbs_def stored_keys_def holds_map_def)
  have x: "\<forall>(k, b) \<in> set kbs. exportable J k b" using mem blocks by auto
  have fit: "\<forall>(k, b) \<in> set kbs. fits k b" using mem src store_fits [OF src(1)] by (auto simp: holds_map_def)
  note c = car_content_back [OF x]
  have imp: "ci_corrupt rep' = 0 \<and> ci_blocks rep' + ci_skipped rep' + ci_errors rep' = cx_blocks rep \<and>
      (ci_errors rep' = 0 \<longrightarrow> (\<forall>k b. H j' k b \<longleftrightarrow> M k = Some b \<and> starts_with k ?pre))"
    if "car_import B J ms \<lparr>sr_data = varint 17 @ CAR_HEADER @ car_bytes ?pre kbs, sr_faults = []\<rparr> j = Some (j', Inr rep')" for ms j' rep'
  proof -
    note s = car_import_spec [OF that c, unfolded good_frames_back, OF _ fit, unfolded n, OF dst(1)]
    have "H j' k b \<longleftrightarrow> M k = Some b \<and> starts_with k ?pre" if none: "ci_errors rep' = 0" for k b
    proof
      assume "H j' k b"
      then show "M k = Some b \<and> starts_with k ?pre" using s dst(2) mem by blast
    next
      assume "M k = Some b \<and> starts_with k ?pre"
      moreover from this obtain b' where b': "H j' k b'" using s none mem by blast
      moreover from b' have "M k = Some b'" using s dst(2) mem by blast
      ultimately show "H j' k b" by simp
    qed
    with s e(4) n show ?thesis by (simp add: kbs_def)
  qed
  show ?thesis using e(1,4) n imp unfolding kbs_def by (intro exI [of _ i'] exI [of _ "\<lparr>sk_out = varint 17 @ CAR_HEADER @ car_bytes ?pre kbs, sk_faults = []\<rparr>"] exI [of _ rep]) (simp add: kbs_def)
qed

end

section \<open>CAR files\<close>

















section \<open>A sample\<close>

text \<open>The identity multihash of one byte, its key without a prefix, and the stream that has this one block.\<close>

definition sample_key :: block_key where
  "sample_key = base32_nopad [0, 1, 5]"

definition sample_job :: car_job where
  "sample_job = \<lparr>cj_sha256 = (\<lambda>b. []), cj_prefix = [], cj_parallelism = 4, cj_verify = True\<rparr>"

definition sample_car :: source where
  "sample_car = \<lparr>sr_data = varint 17 @ CAR_HEADER @ car_bytes [] [(sample_key, [1, 2, 3])], sr_faults = []\<rparr>"

lemma sample_block: "exportable sample_job sample_key [1, 2, 3]" "fits sample_key [1, 2, 3]" "cj_prefix sample_job = []"
  "cj_verify sample_job"
proof -
  have "varint 0 = [0]" "varint 1 = [1]" by (subst varint.simps; simp)+
  then have "multihash [0, 1, 5]" unfolding multihash_def by (intro exI [of _ 0] exI [of _ "[5]"]) simp
  then show "exportable sample_job sample_key [1, 2, 3]"
    unfolding exportable_def by (intro exI [of _ "[0, 1, 5]"]) (simp add: sample_job_def sample_key_def)
  have "length sample_key = 5" unfolding sample_key_def by code_simp
  then show "fits sample_key [1, 2, 3]" by (simp add: fits_def)
  show "cj_prefix sample_job = []" "cj_verify sample_job" by (simp_all add: sample_job_def)
qed

lemma sample_read: "read_frame sample_job \<lparr>sr_data = car_bytes [] [(sample_key, [1, 2, 3])], sr_faults = []\<rparr> =
    (\<lparr>sr_data = [], sr_faults = []\<rparr>, Inr (GoodFrame sample_key [1, 2, 3]))"
  using read_frame_back [OF sample_block(1), of "\<lparr>sr_data = car_bytes [] [(sample_key, [1, 2, 3])], sr_faults = []\<rparr>" "[]"] sample_block(3) by simp

lemma sample_content: "car_content sample_job sample_car = ([GoodFrame sample_key [1, 2, 3]], Inr ())"
  using car_content_back [of "[(sample_key, [1, 2, 3])]" sample_job] sample_block(1,3) by (simp add: sample_car_def)

text \<open>Presence checks do not move the clock nor the topology, so the sample pool takes a put after one.\<close>

lemma first_has_fields: "first_has E k is p = (q, r) \<Longrightarrow> po_topo q = po_topo p \<and> po_clock q = po_clock p"
proof (induction "is" arbitrary: p)
  case (Cons i "is")
  obtain p1 r1 where h: "sh_has E i k p = (p1, r1)" by fastforce
  then have "po_topo p1 = po_topo p \<and> po_clock p1 = po_clock p" by (auto simp: sh_has_def shard_call_def split: prod.splits)
  then show ?case using Cons by (cases r1) (auto simp: h split: if_splits)
qed simp

lemma ref_pool_has_put:
  assumes "fits k b"
  shows "\<exists>p1 p2. pool_has ref_pool_env k ref_pool = (p1, Inr False) \<and> pool_put ref_pool_env k b p1 = (p2, Inr ())"
proof -
  obtain p1 r1 where h: "pool_has ref_pool_env k ref_pool = (p1, r1)" by fastforce
  obtain reps where reps: "replicas_for ref_pool_env k ref_pool = (ref_pool, reps)"
    by (simp add: replicas_for_def ranking_for_def pool_topology_def ref_pool_fields ref_pool_env_def pool_config_default_def)
  from h have "po_topo p1 = po_topo ref_pool \<and> po_clock p1 = po_clock ref_pool"
    by (cases "first_has ref_pool_env k reps ref_pool"; cases "snd (first_has ref_pool_env k reps ref_pool)")
      (auto simp: pool_has_def reps Let_def dest!: first_has_fields split: if_splits)
  then have same: "snd (replicas_for ref_pool_env k p1) = reps"
    using reps by (auto simp: replicas_for_def ranking_for_def pool_topology_def ref_pool_fields ref_pool_env_def pool_config_default_def)
  have ok: "pool_room ref_env 100 ref_pool" by (rule ref_pool_store(1))
  from ref_store.store_has [OF ok, of k] h ref_pool_store(2,3) have s: "r1 = Inr False" "pool_room ref_env 100 p1" "pool_fine p1"
    by (cases r1; auto simp: pool_store_def store_kept_def)+
  obtain p2 r2 where put: "pool_put ref_pool_env k b p1 = (p2, r2)" by fastforce
  have shut: "\<not> po_shutting_down p1"
  proof -
    have "pool_step (engine_ok ref_env) (view ref_env) engine_fine 0 (views (view ref_env) ref_pool) ref_pool p1"
      using pool_laws.pool_has_spec [OF disk_pool_laws [OF ref_env.engine_laws_axioms ref_disk_pool] ref_pool_ok [of 0], of k] h s(1) by simp
    from pool_step_frame [OF this] show ?thesis using ref_pool_fields(3) by (simp add: frame_def)
  qed
  have "pool_ok (engine_ok ref_env) (length (po_shards p1)) p1"
    using s(2) pool_laws.ok_weaken [OF disk_pool_laws [OF ref_env.engine_laws_axioms ref_disk_pool], of "length (po_shards p1) * 100" p1 "length (po_shards p1)"]
    by (simp add: pool_room_def)
  from mirror_put_placed [OF ref_env.engine_laws_axioms ref_disk_pool ref_pool_fields(5) shut this assms put, unfolded Let_def same] obtain S where
    S: "S \<subseteq> {0..<length (po_shards p1)}" "isl r2 \<longleftrightarrow> reps = [] \<or> card S < min (pc_write_quorum (pe_cfg ref_pool_env)) (length reps)"
      "\<forall>i \<in> set reps - S. \<not> engine_fine (po_shards p1 ! i)" by blast
  have rk: "length reps = 2" "distinct reps" "set reps \<subseteq> {0..<length (po_shards p1)}"
  proof -
    show "length reps = 2" using ref_pool_reps(1) [of k] reps by simp
    have "pool_ok (engine_ok ref_env) 0 p1" using s(2) pool_laws.ok_weaken [OF disk_pool_laws [OF ref_env.engine_laws_axioms ref_disk_pool]] by (metis le0 pool_room_def)
    from pool_laws.ranking_step [OF disk_pool_laws [OF ref_env.engine_laws_axioms ref_disk_pool] this] same
    show "distinct reps" "set reps \<subseteq> {0..<length (po_shards p1)}" unfolding replicas_for_def by (metis prod.collapse)+
  qed
  have "set reps \<subseteq> S" using S(3) s(3) rk(3) by (force simp: pool_fine_def)
  then have "card (set reps) \<le> card S" by (rule card_mono [OF finite_subset [OF S(1) finite_atLeastLessThan]])
  then have "\<not> isl r2" using S(2) rk(1,2) by (auto simp: ref_pool_fields(6) distinct_card)
  then show ?thesis using h s(1) put by (cases r2) auto
qed

text \<open>One block goes through the pipeline: the reader, one worker's three moves, the reader at the end.\<close>

definition sample_moves :: "import_move list" where
  "sample_moves = [Reader, Worker 0, Worker 0, Worker 0, Reader]"

lemma sample_import:
  "\<exists>p' rep. car_import (pool_store ref_pool_env) sample_job sample_moves sample_car ref_pool = Some (p', Inr rep) \<and> ci_blocks rep = 1 \<and> ci_errors rep = 0"
proof -
  obtain p1 p2 where hp: "pool_has ref_pool_env sample_key ref_pool = (p1, Inr False)" "pool_put ref_pool_env sample_key [1, 2, 3] p1 = (p2, Inr ())"
    using ref_pool_has_put [OF sample_block(2)] by blast
  have n: "length CAR_HEADER = 17" "CAR_HEADER \<noteq> CARV2_PRAGMA" by (simp_all add: CAR_HEADER_def CARV2_PRAGMA_def)
  have "read_varint sample_car = (\<lparr>sr_data = CAR_HEADER @ car_bytes [] [(sample_key, [1, 2, 3])], sr_faults = []\<rparr>, Inr (Some 17))"
    using read_varint_back [of 17 sample_car] by (simp add: sample_car_def)
  then have hd: "car_header sample_car = (\<lparr>sr_data = car_bytes [] [(sample_key, [1, 2, 3])], sr_faults = []\<rparr>, Inr ())"
    using n by (simp add: car_header_def read_exact_def)
  have e: "read_frame sample_job \<lparr>sr_data = [], sr_faults = []\<rparr> = (\<lparr>sr_data = [], sr_faults = []\<rparr>, Inr EndOfCar)"
    by (simp add: read_frame_def read_varint_end)
  have w: "car_workers sample_job = 4" by (simp add: car_workers_def sample_job_def)
  show ?thesis
    using hp by (simp del: car_bytes_simps add: car_import_def hd sample_moves_def import_start_def reader_step_def worker_step_def w sample_read e pool_store_def
        import_done_def car_import_report_default_def)
qed

section \<open>Properties\<close>

text \<open>Base32 without padding is read back: the text form of any bytes decodes to those bytes, for every length.\<close>

theorem base32_roundtrip: "base32_decode (base32_nopad data) = Some data"
  by (rule base32_decode_nopad)






text \<open>A block under the key of its multihash, with the right digest if that is a sha2-256 multihash.\<close>

definition verified_block :: "car_job \<Rightarrow> block_key \<Rightarrow> bytes \<Rightarrow> bool" where
  "verified_block J k b \<longleftrightarrow> (\<exists>mh. k = key_for_multihash (cj_prefix J) mh \<and>
     (2 \<le> length mh \<and> mh ! 0 = 0x12 \<and> mh ! 1 = 0x20 \<longrightarrow> mh = [0x12, 0x20] @ cj_sha256 J b))"

text \<open>With verification on, an import cannot poison the pool: whatever it returns and on every schedule, a body it brought in is stored under
  the key of its multihash, and if that is a sha2-256 multihash its digest is the SHA-256 of the body.\<close>

theorem car_import_verified:
  assumes "engine_laws EE" and "disk_pool EE pol xxh3 PE" and "mirror_cfg (pe_cfg PE)" and "0 < pc_write_quorum (pe_cfg PE)"
    and "car_import (pool_store PE) J ms r p = Some (p', res)" and "cj_verify J"
    and "pool_room EE (length (good_frames (fst (car_content J r)))) p" and "list_all (\<lambda>(k, b). fits k b) (good_frames (fst (car_content J r)))"
  shows "{(k, b). pool_holds EE p' k b} \<subseteq> {(k, b). pool_holds EE p k b} \<union> {(k, b). verified_block J k b}"
proof -
  obtain fs e where c: "car_content J r = (fs, e)" by fastforce
  have "pool_holds EE p k b \<or> (k, b) \<in> set (good_frames fs)" if "pool_holds EE p' k b" for k b
    using listed_store.car_import_sound [OF pool_listed_store [OF assms(1-4)] assms(5) c _ _ that] assms(7,8) c by (simp add: list_all_iff)
  moreover have "verified_block J k b" if "(k, b) \<in> set (good_frames fs)" for k b
    using car_frames_good [of J _ fs e k b] c assms(6) that
    by (auto simp: car_content_def verified_block_def split: prod.splits sum.splits)
  ultimately show ?thesis by blast
qed

theorem car_import_verified_witness:
  "\<exists>ms p' rep. car_import (pool_store ref_pool_env) sample_job ms sample_car ref_pool = Some (p', Inr rep) \<and>
     {(k, b). pool_holds ref_env p' k b} \<subseteq> {(k, b). verified_block sample_job k b}"
proof -
  obtain ms p' rep where i: "car_import (pool_store ref_pool_env) sample_job ms sample_car ref_pool = Some (p', Inr rep)" using sample_import by blast
  from car_import_verified [OF ref_env.engine_laws_axioms ref_disk_pool ref_pool_fields(5) _ i] ref_pool_store(1,3)
    ref_store.store_mono [of 100 ref_pool 1] sample_block(2,4)
  have "{(k, b). pool_holds ref_env p' k b} \<subseteq> {(k, b). verified_block sample_job k b}"
    by (simp add: ref_pool_fields sample_content)
  with i show ?thesis by blast
qed

text \<open>C10: transfer by CAR is faithful, for blocks that a CAR file can carry: \<open>exportable\<close> says that the key is the prefix with the base32 text of a multihash,
  that a sha2-256 digest is that of the body, and that the frame is at most \<open>2^30\<close> bytes long. An export of a mirrored pool without faults, with one
  such body for every key under the prefix, ends with a report of all of them, and any import of that stream into an empty pool that runs to its end
  counts each block once and none as corrupt; if it reports no errors, it leaves exactly the exported keys with their bodies.\<close>

theorem car_roundtrip:
  assumes "engine_laws EE" and "disk_pool EE pol xxh3 PE" and "mirror_cfg (pe_cfg PE)" and "0 < pc_write_quorum (pe_cfg PE)"
    and "pool_room EE 1 p" and "pool_fine p" and "\<And>k b. pool_holds EE p k b \<longleftrightarrow> M k = Some b"
    and "\<And>k b. M k = Some b \<Longrightarrow> starts_with k (cj_prefix J) \<Longrightarrow> exportable J k b"
    and "pool_room EE (card (stored_keys (pool_holds EE) p (cj_prefix J) None)) q" and "\<And>k b. \<not> pool_holds EE q k b"
  shows "\<exists>p' w rep. car_export (pool_store PE) (cj_prefix J) (p, \<lparr>sk_out = [], sk_faults = []\<rparr>) = Some ((p', w), Inr rep) \<and>
    cx_blocks rep = card (stored_keys (pool_holds EE) p (cj_prefix J) None) \<and>
    (\<forall>ms q' rep'. car_import (pool_store PE) J ms \<lparr>sr_data = sk_out w, sr_faults = []\<rparr> q = Some (q', Inr rep') \<longrightarrow>
       ci_corrupt rep' = 0 \<and> ci_blocks rep' + ci_skipped rep' + ci_errors rep' = cx_blocks rep \<and>
       (ci_errors rep' = 0 \<longrightarrow> (\<forall>k b. pool_holds EE q' k b \<longleftrightarrow> M k = Some b \<and> starts_with k (cj_prefix J))))"
proof -
  have hm: "listed_store.holds_map (pool_holds EE) p M"
    using assms(7) by (simp add: listed_store.holds_map_def [OF pool_listed_store [OF assms(1-4)]])
  show ?thesis
    by (rule listed_store.car_transfer [OF pool_listed_store [OF assms(1-4)] _ assms(6) hm]) (use assms(5,8-10) in simp_all)
qed

theorem car_roundtrip_witness:
  "\<exists>p' w rep q' rep'. car_export (pool_store ref_pool_env) [] (pool_with sample_key [1, 2, 3], \<lparr>sk_out = [], sk_faults = []\<rparr>) = Some ((p', w), Inr rep) \<and>
     car_import (pool_store ref_pool_env) sample_job sample_moves \<lparr>sr_data = sk_out w, sr_faults = []\<rparr> ref_pool = Some (q', Inr rep') \<and>
     ci_errors rep' = 0 \<and> {(k, b). pool_holds ref_env q' k b} = {(sample_key, [1, 2, 3])}"
proof -
  let ?p = "pool_with sample_key [1, 2, 3]" and ?M = "[sample_key \<mapsto> [1, 2, 3]]"
  note ps = pool_with_store [OF sample_block(2)]
  have h: "pool_holds ref_env ?p k b \<longleftrightarrow> ?M k = Some b" for k b unfolding ps(1) by auto
  have s: "stored_keys (pool_holds ref_env) ?p [] None = {sample_key}"
    by (auto simp: stored_keys_def h starts_with_def split: if_splits)
  have room: "pool_room ref_env 1 ?p" "pool_fine ?p" using ps by simp_all
  have x: "?M k = Some b \<Longrightarrow> starts_with k (cj_prefix sample_job) \<Longrightarrow> exportable sample_job k b" for k b
    using sample_block(1) by (auto split: if_splits)
  have "pool_room ref_env (card (stored_keys (pool_holds ref_env) ?p (cj_prefix sample_job) None)) ref_pool"
    using ref_pool_store(1) ref_store.store_mono [of 100 ref_pool 1] by (simp add: s sample_block(3))
  from car_roundtrip [OF ref_env.engine_laws_axioms ref_disk_pool ref_pool_fields(5) _ room h x this] ref_pool_store(3) obtain p' w rep where
    e: "car_export (pool_store ref_pool_env) [] (?p, \<lparr>sk_out = [], sk_faults = []\<rparr>) = Some ((p', w), Inr rep)"
    and all: "\<And>ms q' rep'. car_import (pool_store ref_pool_env) sample_job ms \<lparr>sr_data = sk_out w, sr_faults = []\<rparr> ref_pool = Some (q', Inr rep') \<Longrightarrow>
       ci_errors rep' = 0 \<longrightarrow> (\<forall>k b. pool_holds ref_env q' k b \<longleftrightarrow> ?M k = Some b \<and> starts_with k [])"
    by (auto simp: ref_pool_fields sample_block(3))
  have "ref_store.holds_map ?p ?M" by (simp add: ref_store.holds_map_def h)
  moreover have "\<forall>k. ?M k \<noteq> None \<and> starts_with k [] \<longrightarrow> base32_decode (drop (length ([] :: bytes)) k) \<noteq> None"
    by (auto simp: sample_key_def base32_decode_nopad split: if_splits)
  ultimately have "\<exists>i' rep ks. car_export (pool_store ref_pool_env) [] (?p, \<lparr>sk_out = [], sk_faults = []\<rparr>) =
      Some ((i', \<lparr>sk_out = varint 17 @ CAR_HEADER @ car_bytes [] (map (\<lambda>k. (k, the (?M k))) ks), sk_faults = []\<rparr>), Inr rep) \<and>
      ks = sorted_list_of_set (stored_keys (pool_holds ref_env) ?p [] None)"
    using ref_store.car_export_out [of ?p ?M "[]"] room by (simp del: car_bytes_simps) blast
  then have w: "\<lparr>sr_data = sk_out w, sr_faults = []\<rparr> = sample_car" using e by (auto simp: sample_car_def s)
  obtain q' rep' where i: "car_import (pool_store ref_pool_env) sample_job sample_moves sample_car ref_pool = Some (q', Inr rep')" "ci_errors rep' = 0"
    using sample_import by blast
  from all [of sample_moves q' rep'] i w have "{(k, b). pool_holds ref_env q' k b} = {(sample_key, [1, 2, 3])}"
    by (auto simp: starts_with_def split: if_splits)
  with e i w show ?thesis by (intro exI [of _ p'] exI [of _ w] exI [of _ rep] exI [of _ q'] exI [of _ rep']) simp
qed

text \<open>C35: an import always comes to an end: a schedule takes at most four steps for each byte of the stream and one more, and until the
  threads are done the reader or a worker can move, whatever the block store answers.\<close>

theorem car_import_progress:
  assumes "import_run B J ms (import_start s r) = Some st"
  shows "length ms \<le> 4 * length (sr_data r) + 1 \<and> (import_done J st \<or> (\<exists>mv st'. import_step B J mv st = Some st'))"
  using import_run_length [OF assms] import_moves [of J st B] by (auto simp: import_left_def import_start_def)

theorem car_import_progress_witness:
  "\<exists>ms st. import_run (pool_store ref_pool_env) sample_job ms (import_start ref_pool sample_car) = Some st \<and> import_done sample_job st \<and>
     length ms \<le> 4 * length (sr_data sample_car) + 1"
proof -
  obtain ms st where r: "import_run (pool_store ref_pool_env) sample_job ms (import_start ref_pool sample_car) = Some st" "import_done sample_job st"
    using import_completes by blast
  with car_import_progress [OF r(1)] show ?thesis by blast
qed

end
