(* ===== verification/Pool_Migrate.thy ===== *)
theory Pool_Migrate
  imports Pool_Repair
begin

text \<open>
  Migration of mirrored bodies to erasure coding (\<open>ozd-app/src/pool.rs\<close>): one key, one batch, and the whole
  walk with its persistent cursor. Like the resilver walk, the loop is a partial function.
\<close>

datatype migrate_outcome = Migrated | SkippedSmall | SkippedEc | CanaryFailed

record migrate_report =
  mg_scanned :: nat
  mg_migrated :: nat
  mg_skipped_small :: nat
  mg_skipped_ec :: nat
  mg_canary_failed :: nat
  mg_errors :: nat
  mg_last_key :: "block_key option"
  mg_done :: bool

definition migrate_report_default :: migrate_report where
  "migrate_report_default = \<lparr>mg_scanned = 0, mg_migrated = 0, mg_skipped_small = 0, mg_skipped_ec = 0, mg_canary_failed = 0,
     mg_errors = 0, mg_last_key = None, mg_done = False\<rparr>"

fun any_holds :: "'s pool_env \<Rightarrow> block_key \<Rightarrow> shard_id list \<Rightarrow> 's pool \<Rightarrow> 's pool \<times> bool" where
  "any_holds E key [] p = (p, False)"
| "any_holds E key (i # is) p = (let (p, b) = holds_key E i key p in if b then (p, True) else any_holds E key is p)"

text \<open>Pieces written before rows carried the object size get it without rewriting the body; the result is the bytes read.\<close>

fun era_backfill :: "'s pool_env \<Rightarrow> block_key \<Rightarrow> shard_id list \<Rightarrow> nat \<Rightarrow> 's pool \<Rightarrow> 's pool \<times> nat" where
  "era_backfill E key [] bytes_read p = (p, bytes_read)"
| "era_backfill E key (i # is) bytes_read p =
     (case sh_stat_obj E i key p of
        (p, Inr (_, None)) \<Rightarrow> (case sh_get E i key p of
            (p, Inr b) \<Rightarrow> (case parse_piece_header b of
                Some h \<Rightarrow> (case shard_call (\<lambda>s. so_set_obj_logical (pe_ops E) s key (ph_logical_len h)) i p of
                    (p, Inr True) \<Rightarrow> era_backfill E key is (bytes_read + length b) (tally MigrateEraBackfilled 1 p)
                  | (p, _) \<Rightarrow> era_backfill E key is (bytes_read + length b) p)
              | None \<Rightarrow> era_backfill E key is (bytes_read + length b) p)
          | (p, Inl _) \<Rightarrow> era_backfill E key is bytes_read p)
      | (p, _) \<Rightarrow> era_backfill E key is bytes_read p)"

text \<open>Phase 1: the tail pieces to their new places, each read back; \<open>Inr False\<close> is a mismatch.\<close>

fun write_tail :: "'s pool_env \<Rightarrow> block_key \<Rightarrow> u64 \<Rightarrow> (shard_id \<times> bytes) list \<Rightarrow> 's pool \<Rightarrow> ('s pool, bool) op" where
  "write_tail E key obj [] p = (p, Inr True)"
| "write_tail E key obj ((i, piece) # tail) p =
     and_then (sh_put_meta E i key piece (Some obj) p) (\<lambda>_ p.
     and_then (sh_get E i key p) (\<lambda>back p.
       if back \<noteq> piece then (p, Inr False) else write_tail E key obj tail p))"

text \<open>Phase 2: the head pieces over the mirrored copies.\<close>

fun write_heads :: "'s pool_env \<Rightarrow> block_key \<Rightarrow> u64 \<Rightarrow> (shard_id \<times> bytes) list \<Rightarrow> 's pool \<Rightarrow> 's pool" where
  "write_heads E key obj [] p = p"
| "write_heads E key obj ((i, piece) # heads) p =
     (case sh_put_meta E i key piece (Some obj) p of
        (p, Inr _) \<Rightarrow> (case sh_get E i key p of
            (p, Inr back) \<Rightarrow> write_heads E key obj heads (if back \<noteq> piece then enqueue_heal key High p else p)
          | (p, Inl _) \<Rightarrow> write_heads E key obj heads p)
      | (p, Inl _) \<Rightarrow> write_heads E key obj heads (enqueue_heal key High p))"

text \<open>The move itself, once the mirrored body is in hand.\<close>

definition migrate_body :: "'s pool_env \<Rightarrow> block_key \<Rightarrow> ec_config \<Rightarrow> shard_id list \<Rightarrow> nat \<Rightarrow> bytes \<Rightarrow> 's pool \<Rightarrow>
    ('s pool, migrate_outcome) op" where
  "migrate_body E key ec targets r_legs body p =
     (case ec_encode (pe_rs E) body ec of
        Inl e \<Rightarrow> (p, Inl e)
      | Inr pieces \<Rightarrow>
          let obj = word_of_nat (length body); placed = zip targets pieces in
          (case write_tail E key obj (drop r_legs placed) p of
             (p, Inl e) \<Rightarrow> (delete_everywhere E key (drop r_legs targets) p, Inl e)
           | (p, Inr False) \<Rightarrow> (delete_everywhere E key (drop r_legs targets) p, Inr CanaryFailed)
           | (p, Inr True) \<Rightarrow>
               let p = write_heads E key obj (take r_legs placed) p;
                   p = delete_everywhere E key (others p targets) p in
               (bg_pay (length body * 4) p, Inr Migrated)))"

definition migrate_key :: "'s pool_env \<Rightarrow> block_key \<Rightarrow> ec_config \<Rightarrow> 's pool \<Rightarrow> ('s pool, migrate_outcome) op" where
  "migrate_key E key ec p =
     (let n = ec_total ec; (p, targets) = ranking_for E key n p in
      if length targets < n then (p, Inl (Io ''migrate: too few alive disks''))
      else
        let r_legs = min (pc_replicas (pe_cfg E)) n;
            (p, tail_held) = any_holds E key (drop r_legs targets) p in
        if tail_held then
          let (p, bytes_read) = era_backfill E key (take n targets) 0 p in
          (if 0 < bytes_read then bg_pay bytes_read p else p, Inr SkippedEc)
        else
          let (p, holders, _) = split_holders E key (take r_legs targets) p in
          if holders = [] then (p, Inl (Io ''migrate: no mirror source on top-R''))
          else
            let (p, sz) = sh_stat E (hd holders) key p in
            if (case sz of Inr n \<Rightarrow> n < ec_min_size ec | Inl _ \<Rightarrow> False) then (p, Inr SkippedSmall)
            else (case get_any E key holders NotFound p of
                (p, Inl _) \<Rightarrow> (p, Inl (Io ''migrate: mirror body unreadable''))
              | (p, Inr body) \<Rightarrow>
                  if parse_piece_header body \<noteq> None then (p, Inr SkippedEc)
                  else if length body < ec_min_size ec then (p, Inr SkippedSmall)
                  else migrate_body E key ec targets r_legs body p))"

fun migrate_keys :: "'s pool_env \<Rightarrow> ec_config \<Rightarrow> block_key list \<Rightarrow> migrate_report \<Rightarrow> 's pool \<Rightarrow> 's pool \<times> migrate_report" where
  "migrate_keys E ec [] rep p = (p, rep)"
| "migrate_keys E ec (key # keys) rep p =
     (let (p, r) = migrate_key E key ec p in
      migrate_keys E ec keys
        (case r of
           Inr Migrated \<Rightarrow> rep\<lparr>mg_migrated := mg_migrated rep + 1\<rparr>
         | Inr SkippedSmall \<Rightarrow> rep\<lparr>mg_skipped_small := mg_skipped_small rep + 1\<rparr>
         | Inr SkippedEc \<Rightarrow> rep\<lparr>mg_skipped_ec := mg_skipped_ec rep + 1\<rparr>
         | Inr CanaryFailed \<Rightarrow> rep\<lparr>mg_canary_failed := mg_canary_failed rep + 1\<rparr>
         | Inl _ \<Rightarrow> rep\<lparr>mg_errors := mg_errors rep + 1\<rparr>) p)"

definition migrate_step :: "'s pool_env \<Rightarrow> block_key option \<Rightarrow> nat \<Rightarrow> 's pool \<Rightarrow> ('s pool, migrate_report) op" where
  "migrate_step E after batch p =
     (case pc_ec (pe_cfg E) of
        None \<Rightarrow> (p, Inl (Io ''migrate: redundancy=erasure is off''))
      | Some ec \<Rightarrow> and_then (pool_list E [] after batch p) (\<lambda>rows p.
          let keys = map fst rows;
              rep = migrate_report_default\<lparr>mg_scanned := length keys, mg_done := (length keys < batch)\<rparr>;
              (p, rep) = migrate_keys E ec keys rep p;
              p = tally MigrateErrors (mg_errors rep) (tally MigrateCanaryFailed (mg_canary_failed rep)
                    (tally MigrateMigrated (mg_migrated rep) p)) in
          (p, Inr (rep\<lparr>mg_last_key := (if keys = [] then None else Some (last keys))\<rparr>))))"

definition add_migrate :: "migrate_report \<Rightarrow> migrate_report \<Rightarrow> migrate_report" where
  "add_migrate acc r = acc\<lparr>mg_scanned := mg_scanned acc + mg_scanned r, mg_migrated := mg_migrated acc + mg_migrated r,
     mg_skipped_small := mg_skipped_small acc + mg_skipped_small r, mg_skipped_ec := mg_skipped_ec acc + mg_skipped_ec r,
     mg_canary_failed := mg_canary_failed acc + mg_canary_failed r, mg_errors := mg_errors acc + mg_errors r,
     mg_last_key := mg_last_key r\<rparr>"

partial_function (option) migrate_loop ::
  "'s pool_env \<Rightarrow> nat \<Rightarrow> block_key option \<Rightarrow> migrate_report \<Rightarrow> 's pool \<Rightarrow> ('s pool, migrate_report) op option" where
  "migrate_loop E batch after acc p =
     (case migrate_step E after batch p of
        (p, Inl e) \<Rightarrow> Some (p, Inl e)
      | (p, Inr r) \<Rightarrow>
          let acc = add_migrate acc r in
          if mg_done r \<or> mg_last_key r = None
          then Some (save_cursor0 E ''migrate'' None p, Inr (acc\<lparr>mg_done := True\<rparr>))
          else migrate_loop E batch (mg_last_key r) acc (save_cursor0 E ''migrate'' (mg_last_key r) p))"

definition migrate_full :: "'s pool_env \<Rightarrow> nat \<Rightarrow> 's pool \<Rightarrow> ('s pool, migrate_report) op option" where
  "migrate_full E batch p =
     (case shard_call (\<lambda>s. so_load_cursor (pe_ops E) s ''migrate'') 0 p of
        (p, Inl e) \<Rightarrow> Some (p, Inl e)
      | (p, Inr after) \<Rightarrow>
          (case migrate_loop E batch after migrate_report_default p of
             None \<Rightarrow> None
           | Some res \<Rightarrow> Some (and_then res (\<lambda>rep p. and_then (flush_all E p) (\<lambda>_ p. (p, Inr rep))))))"

end
