(* ===== verification/Sigv4.thy ===== *)
theory Sigv4
  imports Rust_Text "HOL-Library.Char_ord" "HOL-Library.Product_Lexorder"
begin

text \<open>
  The check of AWS Signature V4 (\<open>ozd-ipfs/src/sigv4.rs\<close>) and the signer its clients use. SHA-256 and HMAC-SHA256 are parameters, the
  clock is an argument. A header map is an association list whose names are in lower case; looking up a name ignores its case.
\<close>

section \<open>The data\<close>

record sig_hash =
  sh_sha256 :: "bytes \<Rightarrow> bytes"
  sh_hmac :: "bytes \<Rightarrow> bytes \<Rightarrow> bytes"

record sigv4_config =
  sc_access_key :: string
  sc_secret_key :: string
  sc_max_skew_secs :: int

definition sigv4_config_new :: "string \<Rightarrow> string \<Rightarrow> sigv4_config" where
  "sigv4_config_new access_key secret_key =
     \<lparr>sc_access_key = access_key, sc_secret_key = secret_key, sc_max_skew_secs = 15 * 60\<rparr>"

record auth_header =
  ah_access_key :: string
  ah_date :: string
  ah_region :: string
  ah_service :: string
  ah_signed_headers :: "string list"
  ah_signature_hex :: string

text \<open>\<open>HeaderMap::get\<close> followed by \<open>to_str\<close>, which refuses bytes other than visible ASCII and tabs.\<close>

type_synonym header_map = "(string \<times> string) list"

definition visible :: "char \<Rightarrow> bool" where
  "visible c \<longleftrightarrow> 32 \<le> (of_char c :: nat) \<and> (of_char c :: nat) < 127 \<or> of_char c = (9 :: nat)"

definition header_str :: "header_map \<Rightarrow> string \<Rightarrow> string option" where
  "header_str H name =
     (case map_of H (to_lower name) of None \<Rightarrow> None | Some v \<Rightarrow> if list_all visible v then Some v else None)"

text \<open>\<open>ok_or\<close> and the \<open>?\<close> operator on plain results.\<close>

fun ok_or :: "'a option \<Rightarrow> 'e \<Rightarrow> 'e + 'a" where
  "ok_or None e = Inl e"
| "ok_or (Some x) e = Inr x"

fun if_ok :: "'e + 'a \<Rightarrow> ('a \<Rightarrow> 'e + 'b) \<Rightarrow> 'e + 'b" where
  "if_ok (Inl e) f = Inl e"
| "if_ok (Inr x) f = f x"

lemma ok_or_Inr [simp]: "ok_or x e = Inr v \<longleftrightarrow> x = Some v"
  by (cases x) auto

lemma if_ok_Inr [simp]: "if_ok x f = Inr v \<longleftrightarrow> (\<exists>u. x = Inr u \<and> f u = Inr v)"
  by (cases x) auto

section \<open>Hexadecimal text\<close>

definition nibble :: "nat \<Rightarrow> char" where
  "nibble d = char_of (if d < 10 then 48 + d else 87 + d)"

definition hex :: "bytes \<Rightarrow> string" where
  "hex b = concat (map (\<lambda>x. [nibble (unat x div 16), nibble (unat x mod 16)]) b)"

definition nibble_value :: "char \<Rightarrow> nat option" where
  "nibble_value c =
     (let n = of_char c in
      if 48 \<le> n \<and> n \<le> 57 then Some (n - 48) else if 97 \<le> n \<and> n \<le> 102 then Some (n - 87)
      else if 65 \<le> n \<and> n \<le> 70 then Some (n - 55) else None)"

text \<open>\<open>u8::from_str_radix\<close> on two characters: a plus sign may stand before the last digit.\<close>

definition byte_of_hex :: "char \<Rightarrow> char \<Rightarrow> byte option" where
  "byte_of_hex a b =
     (if a = CHR ''+'' then map_option word_of_nat (nibble_value b)
      else case nibble_value a of None \<Rightarrow> None | Some x \<Rightarrow> map_option (\<lambda>y. word_of_nat (16 * x + y)) (nibble_value b))"

fun hex_decode :: "string \<Rightarrow> bytes option" where
  "hex_decode [] = Some []"
| "hex_decode [a] = None"
| "hex_decode (a # b # s) =
     (case hex_decode s of None \<Rightarrow> None | Some bs \<Rightarrow> map_option (\<lambda>x. x # bs) (byte_of_hex a b))"

section \<open>Parsing\<close>

fun auth_part :: "string option \<times> string option \<times> string option \<Rightarrow> string \<Rightarrow> string option \<times> string option \<times> string option" where
  "auth_part (credential, signed_headers, signature) part =
     (case strip_prefix ''Credential='' part of
        Some c \<Rightarrow> (Some c, signed_headers, signature)
      | None \<Rightarrow>
          (case strip_prefix ''SignedHeaders='' part of
             Some s \<Rightarrow> (credential, Some s, signature)
           | None \<Rightarrow>
               (case strip_prefix ''Signature='' part of
                  Some s \<Rightarrow> (credential, signed_headers, Some s)
                | None \<Rightarrow> (credential, signed_headers, signature))))"

definition parse_auth_header :: "string \<Rightarrow> string + auth_header" where
  "parse_auth_header v =
     if_ok (ok_or (strip_prefix ''AWS4-HMAC-SHA256'' v) ''unsupported auth scheme'') (\<lambda>rest.
     let (credential, signed_headers, signature) =
           foldl auth_part (None, None, None) (map trim (split_on CHR '','' (trim rest))) in
     if_ok (ok_or credential ''missing Credential'') (\<lambda>credential.
     let cp = split_on CHR ''/'' credential in
     if length cp \<noteq> 5 \<or> cp ! 4 \<noteq> ''aws4_request'' then Inl ''bad credential scope''
     else
       if_ok (ok_or signed_headers ''missing SignedHeaders'') (\<lambda>signed_headers.
       if_ok (ok_or signature ''missing Signature'') (\<lambda>signature.
         Inr \<lparr>ah_access_key = cp ! 0, ah_date = cp ! 1, ah_region = cp ! 2, ah_service = cp ! 3,
              ah_signed_headers = map to_lower (split_on CHR '';'' signed_headers), ah_signature_hex = signature\<rparr>))))"

text \<open>\<open>x-amz-date\<close> to seconds; the text is ASCII. With the era counted in floors the other quotients are of natural numbers.\<close>

definition civil_days :: "int \<Rightarrow> int \<Rightarrow> int \<Rightarrow> int" where
  "civil_days y mo d =
     (let y_adj = (if mo \<le> 2 then y - 1 else y);
          era = y_adj div 400;
          yoe = y_adj - era * 400;
          mp = (mo + 9) mod 12;
          doy = (153 * mp + 2) div 5 + d - 1;
          doe = yoe * 365 + yoe div 4 - yoe div 100 + doy in
      era * 146097 + doe - 719468)"

definition parse_amz_date :: "string \<Rightarrow> int option" where
  "parse_amz_date s =
     (if length s \<noteq> 16 \<or> last s \<noteq> CHR ''Z'' \<or> s ! 8 \<noteq> CHR ''T'' then None
      else
        (case (parse_signed 64 (bslice s 0 4), parse_signed 64 (bslice s 4 6), parse_signed 64 (bslice s 6 8)) of
           (Some y, Some mo, Some d) \<Rightarrow>
             (case (parse_signed 64 (bslice s 9 11), parse_signed 64 (bslice s 11 13), parse_signed 64 (bslice s 13 15)) of
                (Some h, Some mi, Some sec) \<Rightarrow> Some (civil_days y mo d * 86400 + h * 3600 + mi * 60 + sec)
              | _ \<Rightarrow> None)
         | _ \<Rightarrow> None))"

section \<open>The canonical request and the signature\<close>

definition query_pairs :: "string \<Rightarrow> (string \<times> string) list" where
  "query_pairs q = map (\<lambda>p. case split_once CHR ''='' p of Some kv \<Rightarrow> kv | None \<Rightarrow> (p, [])) (filter (\<lambda>s. s \<noteq> []) (split_on CHR ''&'' q))"

definition canon_query :: "string \<Rightarrow> string" where
  "canon_query q = join_with ''&'' (map (\<lambda>(k, v). k @ ''='' @ v) (sort (query_pairs q)))"

abbreviation newline :: char where
  "newline \<equiv> CHR 0x0A"

definition collapse :: "string \<Rightarrow> string" where
  "collapse v = trim (join_with '' '' (split_ws v))"

definition header_line :: "string \<Rightarrow> string \<Rightarrow> string" where
  "header_line name value = name @ '':'' @ value @ [newline]"

fun canon_headers :: "header_map \<Rightarrow> string list \<Rightarrow> string + string" where
  "canon_headers H [] = Inr []"
| "canon_headers H (name # names) =
     if_ok (ok_or (header_str H name) (''signed header '' @ [CHR 0x27] @ name @ [CHR 0x27] @ '' missing'')) (\<lambda>val.
     if_ok (canon_headers H names) (\<lambda>rest. Inr (header_line name (collapse val) @ rest)))"

definition canonical_request :: "string \<Rightarrow> string \<Rightarrow> string \<Rightarrow> string \<Rightarrow> string \<Rightarrow> string \<Rightarrow> string" where
  "canonical_request method raw_path cquery headers signed_join content_sha =
     method @ newline # raw_path @ newline # cquery @ newline # headers @ newline # signed_join @ newline # content_sha"

definition credential_scope :: "string \<Rightarrow> string \<Rightarrow> string \<Rightarrow> string" where
  "credential_scope date region service = date @ ''/'' @ region @ ''/'' @ service @ ''/aws4_request''"

definition string_to_sign :: "sig_hash \<Rightarrow> string \<Rightarrow> string \<Rightarrow> string \<Rightarrow> string" where
  "string_to_sign C amz_date scope creq =
     ''AWS4-HMAC-SHA256'' @ newline # amz_date @ newline # scope @ newline # hex (sh_sha256 C (str_bytes creq))"

definition signing_key :: "sig_hash \<Rightarrow> string \<Rightarrow> string \<Rightarrow> string \<Rightarrow> string \<Rightarrow> bytes" where
  "signing_key C secret date region service =
     (let k_date = sh_hmac C (str_bytes (''AWS4'' @ secret)) (str_bytes date);
          k_region = sh_hmac C k_date (str_bytes region);
          k_service = sh_hmac C k_region (str_bytes service) in
      sh_hmac C k_service (str_bytes ''aws4_request''))"

definition unsigned_payload :: string where
  "unsigned_payload = ''UNSIGNED-PAYLOAD''"

definition content_sha :: "header_map \<Rightarrow> string" where
  "content_sha H = (case header_str H ''x-amz-content-sha256'' of None \<Rightarrow> unsigned_payload | Some v \<Rightarrow> v)"

section \<open>The check\<close>

definition date_check :: "sigv4_config \<Rightarrow> int \<Rightarrow> string \<Rightarrow> string + unit" where
  "date_check cfg now amz_date =
     (if sc_max_skew_secs cfg > 0 then
        if_ok (ok_or (parse_amz_date amz_date) ''bad x-amz-date'') (\<lambda>t.
        if \<bar>now - t\<bar> > sc_max_skew_secs cfg then Inl ''request time too skewed'' else Inr ())
      else Inr ())"

definition verify :: "sig_hash \<Rightarrow> int \<Rightarrow> sigv4_config \<Rightarrow> string \<Rightarrow> string \<Rightarrow> string \<Rightarrow> header_map \<Rightarrow> string \<Rightarrow> string + unit" where
  "verify C now cfg method raw_path raw_query H body_sha256_hex =
     if_ok (ok_or (header_str H ''authorization'') ''missing Authorization'') (\<lambda>auth.
     if_ok (parse_auth_header auth) (\<lambda>auth.
     if ah_access_key auth \<noteq> sc_access_key cfg then Inl ''unknown access key''
     else
     if_ok (ok_or (header_str H ''x-amz-date'') ''missing x-amz-date'') (\<lambda>amz_date.
     if \<not> starts_with amz_date (ah_date auth) then Inl ''x-amz-date / credential date mismatch''
     else
     if_ok (date_check cfg now amz_date) (\<lambda>_.
     if content_sha H \<noteq> unsigned_payload \<and> to_lower (content_sha H) \<noteq> to_lower body_sha256_hex
     then Inl ''x-amz-content-sha256 does not match body''
     else
     if_ok (canon_headers H (ah_signed_headers auth)) (\<lambda>headers.
     let creq = canonical_request method raw_path (canon_query raw_query) headers (join_with '';'' (ah_signed_headers auth)) (content_sha H);
         scope = credential_scope (ah_date auth) (ah_region auth) (ah_service auth);
         sts = string_to_sign C amz_date scope creq;
         k = signing_key C (sc_secret_key cfg) (ah_date auth) (ah_region auth) (ah_service auth) in
     if_ok (ok_or (hex_decode (ah_signature_hex auth)) ''bad signature hex'') (\<lambda>provided.
     if sh_hmac C k (str_bytes sts) = provided then Inr () else Inl ''signature mismatch''))))))"

section \<open>The signer\<close>

text \<open>The slice \<open>amz_date[..8]\<close> of a shorter text panics, which is \<open>None\<close>.\<close>

definition sign_header :: "header_map \<Rightarrow> string \<Rightarrow> string" where
  "sign_header H name = header_line (to_lower name) (trim (case header_str H name of None \<Rightarrow> [] | Some v \<Rightarrow> v))"

definition sign_for_test :: "sig_hash \<Rightarrow> sigv4_config \<Rightarrow> string \<Rightarrow> string \<Rightarrow> string \<Rightarrow> header_map \<Rightarrow> string list \<Rightarrow> string \<Rightarrow> string \<Rightarrow> string option" where
  "sign_for_test C cfg method raw_path raw_query H names amz_date region =
     (if length amz_date < 8 then None
      else
      let date = take 8 amz_date;
          shj = to_lower (join_with '';'' names);
          creq = canonical_request method raw_path (canon_query raw_query) (concat (map (sign_header H) names)) shj (content_sha H);
          scope = credential_scope date region ''s3'';
          sts = string_to_sign C amz_date scope creq;
          sig = hex (sh_hmac C (signing_key C (sc_secret_key cfg) date region ''s3'') (str_bytes sts)) in
      Some (''AWS4-HMAC-SHA256 Credential='' @ sc_access_key cfg @ ''/'' @ scope @ '', SignedHeaders='' @ shj @ '', Signature='' @ sig))"

section \<open>Lemmas\<close>

lemma nibble_value_nibble [simp]: "d < 16 \<Longrightarrow> nibble_value (nibble d) = Some d"
  by (auto simp: nibble_value_def nibble_def Let_def)

lemma nibble_plain: "d < 16 \<Longrightarrow> nibble d \<noteq> CHR ''+'' \<and> nibble d \<noteq> CHR '','' \<and> \<not> is_ws (nibble d) \<and> visible (nibble d) \<and> lower_char (nibble d) = nibble d"
proof -
  have "list_all (\<lambda>d. nibble d \<noteq> CHR ''+'' \<and> nibble d \<noteq> CHR '','' \<and> \<not> is_ws (nibble d) \<and> visible (nibble d) \<and> lower_char (nibble d) = nibble d) [0..<16]"
    by code_simp
  then show "d < 16 \<Longrightarrow> ?thesis" by (simp add: list_all_iff)
qed

lemma nibbles: "unat (x :: byte) div 16 < 16" "unat x mod 16 < 16"
  using unsigned_less [of x, where ?'a = nat] by (simp_all add: less_mult_imp_div_less)

lemma hex_Cons: "hex (x # b) = nibble (unat x div 16) # nibble (unat x mod 16) # hex b"
  by (simp add: hex_def)

lemma hex_Nil [simp]: "hex [] = []"
  by (simp add: hex_def)

lemma hex_decode_hex [simp]: "hex_decode (hex b) = Some b"
proof (induction b)
  case (Cons x b)
  have "byte_of_hex (nibble (unat x div 16)) (nibble (unat x mod 16)) = Some x"
    using nibble_plain [OF nibbles(1), of x] by (simp add: byte_of_hex_def nibbles del: of_nat_add of_nat_mult)
  then show ?case using Cons by (simp add: hex_Cons)
qed simp

lemma hex_inject [simp]: "hex a = hex b \<longleftrightarrow> a = b"
  by (metis hex_decode_hex option.inject)

lemma hex_plain: "\<forall>c \<in> set (hex b). visible c \<and> c \<noteq> CHR '','' \<and> \<not> is_ws c \<and> lower_char c = c"
proof (induction b)
  case (Cons x b)
  then show ?case unfolding hex_Cons list.set ball_simps(7) using nibble_plain [OF nibbles(1), of x] nibble_plain [OF nibbles(2), of x] by blast
qed simp

lemma hex_lower [simp]: "to_lower (hex b) = hex b"
  using hex_plain [of b] by (simp add: to_lower_def map_idI)

lemma trim_set: "set (trim s) \<subseteq> set s"
  by (auto simp: trim_def trim_start_def trim_end_def dest!: set_dropWhileD)

lemma split_on_set: "p \<in> set (split_on c s) \<Longrightarrow> set p \<subseteq> set s - {c}"
proof (induction s arbitrary: p)
  case (Cons x s)
  obtain h t where ht: "split_on c s = h # t" by (cases "split_on c s") simp_all
  with Cons.IH [of h] Cons.IH [of p] Cons.prems show ?case by (auto split: if_splits)
qed simp

lemma ws_pieces_set: "p \<in> set (ws_pieces s) \<Longrightarrow> set p \<subseteq> set s"
proof (induction s arbitrary: p)
  case (Cons x s)
  obtain h t where ht: "ws_pieces s = h # t" by (cases "ws_pieces s") simp_all
  with Cons.IH [of h] Cons.IH [of p] Cons.prems show ?case by (auto split: if_splits)
qed simp

lemma join_with_set: "set (join_with sep ss) \<subseteq> set sep \<union> (\<Union>s \<in> set ss. set s)"
  by (induction sep ss rule: join_with.induct) auto

lemma collapse_set: "set (collapse v) \<subseteq> insert CHR '' '' (set v)"
  using trim_set join_with_set [of "'' ''" "split_ws v"] ws_pieces_set [of _ v]
  by (fastforce simp: collapse_def split_ws_def)

lemma split_once_set: "split_once c s = Some (a, b) \<Longrightarrow> set a \<union> set b \<subseteq> set s"
  by (induction s arbitrary: a) (auto split: if_splits)

lemma canon_query_set: "set (canon_query q) \<subseteq> set ''&='' \<union> set q"
proof -
  have "set k \<union> set v \<subseteq> set q" if "(k, v) \<in> set (query_pairs q)" for k v
    using that split_on_set [of _ "CHR ''&''" q] split_once_set [of "CHR ''=''" _ k v]
    by (fastforce simp: query_pairs_def split: option.splits)
  then show ?thesis
    using join_with_set [of "''&''" "map (\<lambda>(k, v). k @ ''='' @ v) (sort (query_pairs q))"]
    by (fastforce simp: canon_query_def)
qed

lemma visible_newline [simp]: "\<not> visible newline"
  by (simp add: visible_def)

lemma visible_no_newline: "list_all visible s \<Longrightarrow> newline \<notin> set s"
  by (auto simp: list_all_iff)

lemma header_str_visible: "header_str H n = Some v \<Longrightarrow> list_all visible v"
  by (auto simp: header_str_def split: option.splits if_splits)

text \<open>The header block of a fixed list of names determines the values.\<close>

definition collapsed :: "header_map \<Rightarrow> string \<Rightarrow> string" where
  "collapsed H name = (case header_str H name of None \<Rightarrow> [] | Some v \<Rightarrow> collapse v)"

lemma canon_headers_lines:
  "canon_headers H names = Inr t \<Longrightarrow> t = concat (map (\<lambda>n. header_line n (collapsed H n)) names) \<and> list_all (\<lambda>n. header_str H n \<noteq> None) names"
  by (induction names arbitrary: t) (auto simp: collapsed_def split: option.splits sum.splits)

lemma collapsed_line: "newline \<notin> set (collapsed H n)"
proof (cases "header_str H n")
  case (Some v)
  then show ?thesis
    using collapse_set [of v] visible_no_newline [OF header_str_visible [OF Some]] by (auto simp: collapsed_def)
qed (simp add: collapsed_def)

lemma header_block_inject:
  "concat (map (\<lambda>n. header_line n (collapsed H n)) names) @ x = concat (map (\<lambda>n. header_line n (collapsed H' n)) names) @ y \<Longrightarrow>
   map (collapsed H) names = map (collapsed H') names \<and> x = y"
proof (induction names)
  case (Cons n names)
  from Cons.prems have "collapsed H n @ newline # concat (map (\<lambda>n. header_line n (collapsed H n)) names) @ x =
    collapsed H' n @ newline # concat (map (\<lambda>n. header_line n (collapsed H' n)) names) @ y"
    by (simp add: header_line_def)
  note eq = line_inject [OF collapsed_line collapsed_line this]
  show ?case using conjunct1 [OF eq] Cons.IH [OF conjunct2 [OF eq]] unfolding list.map by blast
qed simp

text \<open>What an accepted request was checked for.\<close>

definition request_text :: "string \<Rightarrow> string \<Rightarrow> string \<Rightarrow> header_map \<Rightarrow> string list \<Rightarrow> string" where
  "request_text method raw_path raw_query H names =
     canonical_request method raw_path (canon_query raw_query) (concat (map (\<lambda>n. header_line n (collapsed H n)) names))
       (join_with '';'' names) (content_sha H)"

definition auth_scope :: "auth_header \<Rightarrow> string" where
  "auth_scope a = credential_scope (ah_date a) (ah_region a) (ah_service a)"

definition auth_key :: "sig_hash \<Rightarrow> sigv4_config \<Rightarrow> auth_header \<Rightarrow> bytes" where
  "auth_key C cfg a = signing_key C (sc_secret_key cfg) (ah_date a) (ah_region a) (ah_service a)"

lemma verify_accepts:
  assumes "verify C now cfg method raw_path raw_query H body_hash = Inr ()"
  shows "\<exists>v a date. header_str H ''authorization'' = Some v \<and> parse_auth_header v = Inr a \<and> ah_access_key a = sc_access_key cfg \<and>
    header_str H ''x-amz-date'' = Some date \<and> date_check cfg now date = Inr () \<and>
    (content_sha H = unsigned_payload \<or> to_lower (content_sha H) = to_lower body_hash) \<and>
    list_all (\<lambda>n. header_str H n \<noteq> None) (ah_signed_headers a) \<and>
    hex_decode (ah_signature_hex a) = Some (sh_hmac C (auth_key C cfg a)
      (str_bytes (string_to_sign C date (auth_scope a) (request_text method raw_path raw_query H (ah_signed_headers a)))))"
  using assms
  by (auto simp: verify_def auth_key_def auth_scope_def request_text_def Let_def dest!: canon_headers_lines split: if_splits)

lemma request_text_inject:
  assumes "request_text m p q H names = request_text m' p' q' H' names"
    and "newline \<notin> set (m @ p @ q @ m' @ p' @ q')"
  shows "m = m' \<and> p = p' \<and> canon_query q = canon_query q' \<and> map (collapsed H) names = map (collapsed H') names \<and> content_sha H = content_sha H'"
proof -
  have nq: "newline \<notin> set (canon_query q)" "newline \<notin> set (canon_query q')"
    using assms(2) canon_query_set [of q] canon_query_set [of q'] by auto
  note eq = assms(1) [unfolded request_text_def canonical_request_def]
  have 1: "m = m'" and e1: "p @ newline # canon_query q @ newline # concat (map (\<lambda>n. header_line n (collapsed H n)) names) @ newline # join_with '';'' names @ newline # content_sha H =
    p' @ newline # canon_query q' @ newline # concat (map (\<lambda>n. header_line n (collapsed H' n)) names) @ newline # join_with '';'' names @ newline # content_sha H'"
    using line_inject [OF _ _ eq] assms(2) by auto
  have 2: "p = p'" and e2: "canon_query q @ newline # concat (map (\<lambda>n. header_line n (collapsed H n)) names) @ newline # join_with '';'' names @ newline # content_sha H =
    canon_query q' @ newline # concat (map (\<lambda>n. header_line n (collapsed H' n)) names) @ newline # join_with '';'' names @ newline # content_sha H'"
    using line_inject [OF _ _ e1] assms(2) by auto
  have 3: "canon_query q = canon_query q'" and e3: "concat (map (\<lambda>n. header_line n (collapsed H n)) names) @ newline # join_with '';'' names @ newline # content_sha H =
    concat (map (\<lambda>n. header_line n (collapsed H' n)) names) @ newline # join_with '';'' names @ newline # content_sha H'"
    using line_inject [OF nq e2] by auto
  from header_block_inject [OF e3] 1 2 3 show ?thesis by simp
qed

lemma string_to_sign_inject:
  assumes "string_to_sign C date scope r = string_to_sign C date' scope r'" "newline \<notin> set date" "newline \<notin> set date'"
  shows "date = date' \<and> sh_sha256 C (str_bytes r) = sh_sha256 C (str_bytes r')"
proof -
  have "date @ newline # scope @ newline # hex (sh_sha256 C (str_bytes r)) = date' @ newline # scope @ newline # hex (sh_sha256 C (str_bytes r'))"
    using assms(1) by (simp add: string_to_sign_def)
  from line_inject [OF assms(2,3) this] show ?thesis by simp
qed

lemma ascii_set: "a \<noteq> b \<Longrightarrow> str_bytes a \<noteq> str_bytes b"
  by simp

definition collision :: "(bytes \<Rightarrow> bytes) \<Rightarrow> bytes \<Rightarrow> bytes \<Rightarrow> bool" where
  "collision f x y \<longleftrightarrow> x \<noteq> y \<and> f x = f y"

text \<open>Two accepted requests agree on all that was signed, or exhibit a collision of the MAC under the signing key or of the hash.\<close>

definition signed_alike :: "header_map \<Rightarrow> bytes \<Rightarrow> header_map \<Rightarrow> bytes \<Rightarrow> auth_header \<Rightarrow> bool" where
  "signed_alike H body H' body' a \<longleftrightarrow> map (collapsed H) (ah_signed_headers a) = map (collapsed H') (ah_signed_headers a) \<and>
     header_str H ''x-amz-date'' = header_str H' ''x-amz-date'' \<and>
     content_sha H = content_sha H' \<and> (content_sha H = unsigned_payload \<or> body = body')"

definition broken_crypto :: "sig_hash \<Rightarrow> sigv4_config \<Rightarrow> auth_header \<Rightarrow> string \<Rightarrow> string \<Rightarrow> string \<Rightarrow> string \<Rightarrow> bytes \<Rightarrow> bytes \<Rightarrow> bool" where
  "broken_crypto C cfg a date date' r r' body body' \<longleftrightarrow>
     collision (sh_hmac C (auth_key C cfg a)) (str_bytes (string_to_sign C date (auth_scope a) r)) (str_bytes (string_to_sign C date' (auth_scope a) r')) \<or>
     collision (sh_sha256 C) (str_bytes r) (str_bytes r') \<or> collision (sh_sha256 C) body body'"

lemma accepted_agree:
  assumes "verify C now cfg m p q H (hex (sh_sha256 C body)) = Inr ()" and "verify C now' cfg m' p' q' H' (hex (sh_sha256 C body')) = Inr ()"
    and "header_str H ''authorization'' = header_str H' ''authorization''" and "newline \<notin> set (m @ p @ q @ m' @ p' @ q')"
  shows "\<exists>v a date date'. header_str H ''authorization'' = Some v \<and> parse_auth_header v = Inr a \<and>
    header_str H ''x-amz-date'' = Some date \<and> header_str H' ''x-amz-date'' = Some date' \<and>
    (m = m' \<and> p = p' \<and> canon_query q = canon_query q' \<and> signed_alike H body H' body' a \<or>
     broken_crypto C cfg a date date' (request_text m p q H (ah_signed_headers a)) (request_text m' p' q' H' (ah_signed_headers a)) body body')"
proof -
  obtain v a date where 1: "header_str H ''authorization'' = Some v" "parse_auth_header v = Inr a" "header_str H ''x-amz-date'' = Some date"
    "content_sha H = unsigned_payload \<or> to_lower (content_sha H) = to_lower (hex (sh_sha256 C body))"
    "hex_decode (ah_signature_hex a) = Some (sh_hmac C (auth_key C cfg a)
      (str_bytes (string_to_sign C date (auth_scope a) (request_text m p q H (ah_signed_headers a)))))"
    using verify_accepts [OF assms(1)] by blast
  obtain v' a' date' where 2: "header_str H' ''authorization'' = Some v'" "parse_auth_header v' = Inr a'" "header_str H' ''x-amz-date'' = Some date'"
    "content_sha H' = unsigned_payload \<or> to_lower (content_sha H') = to_lower (hex (sh_sha256 C body'))"
    "hex_decode (ah_signature_hex a') = Some (sh_hmac C (auth_key C cfg a')
      (str_bytes (string_to_sign C date' (auth_scope a') (request_text m' p' q' H' (ah_signed_headers a')))))"
    using verify_accepts [OF assms(2)] by blast
  have a: "a' = a" using 1(1,2) 2(1,2) assms(3) by simp
  let ?r = "request_text m p q H (ah_signed_headers a)" and ?r' = "request_text m' p' q' H' (ah_signed_headers a)"
  have nl: "newline \<notin> set date" "newline \<notin> set date'"
    using visible_no_newline [OF header_str_visible] 1(3) 2(3) by blast+
  have h: "sh_hmac C (auth_key C cfg a) (str_bytes (string_to_sign C date (auth_scope a) ?r)) =
    sh_hmac C (auth_key C cfg a) (str_bytes (string_to_sign C date' (auth_scope a) ?r'))" using 1(5) 2(5) by (simp add: a)
  have bodies: "content_sha H = unsigned_payload \<or> collision (sh_sha256 C) body body' \<or> body = body'" if "content_sha H = content_sha H'"
    using 1(4) 2(4) that unfolding hex_lower collision_def by auto
  have dates: "header_str H ''x-amz-date'' = header_str H' ''x-amz-date'' \<longleftrightarrow> date = date'" using 1(3) 2(3) by simp
  have "m = m' \<and> p = p' \<and> canon_query q = canon_query q' \<and> signed_alike H body H' body' a \<or> broken_crypto C cfg a date date' ?r ?r' body body'"
    using h bodies string_to_sign_inject [OF _ nl] request_text_inject [OF _ assms(4)]
    unfolding broken_crypto_def signed_alike_def collision_def ascii_inject dates by metis
  with 1(1-3) 2(3) show ?thesis by blast
qed

lemma trim_tail: "\<not> is_ws c \<Longrightarrow> \<not> is_ws (last (c # s)) \<Longrightarrow> trim (c # s) = c # s"
  by (rule trim_id) auto

lemma to_lower_append [simp]: "to_lower (s @ t) = to_lower s @ to_lower t"
  by (simp add: to_lower_def)

lemma to_lower_join: "to_lower (join_with '';'' names) = join_with '';'' (map to_lower names)"
  by (induction "'';''" names rule: join_with.induct) (simp_all add: to_lower_def lower_char_def)

text \<open>What a name and a part of the credential must be for the header to be read back.\<close>

definition plain_char :: "char \<Rightarrow> bool" where
  "plain_char c \<longleftrightarrow> visible c \<and> c \<noteq> CHR '','' \<and> c \<noteq> CHR '';'' \<and> \<not> is_ws c"

definition plain_name :: "string \<Rightarrow> bool" where
  "plain_name n \<longleftrightarrow> n \<noteq> [] \<and> list_all plain_char n"

definition plain_part :: "string \<Rightarrow> bool" where
  "plain_part s \<longleftrightarrow> list_all (\<lambda>c. visible c \<and> c \<noteq> CHR '','' \<and> c \<noteq> CHR ''/'') s"

lemma plain_lower_char: "plain_char c \<Longrightarrow> plain_char (lower_char c)"
proof (cases "65 \<le> (of_char c :: nat) \<and> (of_char c :: nat) \<le> 90")
  case True
  then have "97 \<le> (of_char (lower_char c) :: nat) \<and> (of_char (lower_char c) :: nat) \<le> 122" by (simp add: lower_char_def)
  then show ?thesis by (auto simp: plain_char_def visible_def is_ws_def)
next
  case False
  then have "lower_char c = c" by (auto simp: lower_char_def)
  then show "plain_char c \<Longrightarrow> plain_char (lower_char c)" by simp
qed

lemma plain_lower: "plain_name n \<Longrightarrow> plain_name (to_lower n)"
  by (simp add: plain_name_def to_lower_def list_all_iff plain_lower_char)

lemma join_plain:
  assumes "list_all plain_name names" "names \<noteq> []"
  shows "\<forall>c \<in> set (join_with '';'' names). visible c \<and> c \<noteq> CHR '',''" "split_on CHR '';'' (join_with '';'' names) = names"
    "join_with '';'' names \<noteq> [] \<and> \<not> is_ws (last (join_with '';'' names))"
proof -
  have semi: "visible CHR '';''" "CHR '';'' \<noteq> CHR '',''" "\<not> is_ws CHR '';''" by (simp_all add: visible_def is_ws_def)
  have pl: "plain_char c" if "s \<in> set names" "c \<in> set s" for s c
    using assms(1) that by (auto simp: list_all_iff plain_name_def)
  have all: "\<forall>c \<in> set (join_with '';'' names). visible c \<and> c \<noteq> CHR '','' \<and> \<not> is_ws c"
  proof
    fix c assume "c \<in> set (join_with '';'' names)"
    then have "c = CHR '';'' \<or> (\<exists>s \<in> set names. c \<in> set s)" using join_with_set [of "'';''" names] by auto
    then show "visible c \<and> c \<noteq> CHR '','' \<and> \<not> is_ws c"
      using semi pl unfolding plain_char_def by blast
  qed
  have ne: "join_with '';'' names \<noteq> []"
    using assms by (cases names; cases "tl names") (auto simp: plain_name_def)
  show "\<forall>c \<in> set (join_with '';'' names). visible c \<and> c \<noteq> CHR '',''" using all by blast
  show "join_with '';'' names \<noteq> [] \<and> \<not> is_ws (last (join_with '';'' names))"
    using ne all last_in_set by blast
  show "split_on CHR '';'' (join_with '';'' names) = names"
    by (rule split_on_join) (use pl assms(2) in \<open>unfold plain_char_def, blast+\<close>)
qed

lemma strip_prefix_miss: "take (length p) s \<noteq> p \<Longrightarrow> strip_prefix p s = None"
  by (simp add: strip_prefix_def starts_with_def)

lemma auth_parts:
  "auth_part (c, s, g) (''Credential='' @ x) = (Some x, s, g)" "auth_part (c, s, g) (''SignedHeaders='' @ x) = (c, Some x, g)"
  "auth_part (c, s, g) (''Signature='' @ x) = (c, s, Some x)"
  by (simp_all add: strip_prefix_def starts_with_def)

lemma credential_split:
  assumes "CHR ''/'' \<notin> set ak" "CHR ''/'' \<notin> set date" "CHR ''/'' \<notin> set region"
  shows "split_on CHR ''/'' (ak @ ''/'' @ credential_scope date region ''s3'') = [ak, date, region, ''s3'', ''aws4_request'']"
proof -
  have s3: "CHR ''/'' \<notin> set ''s3''" "CHR ''/'' \<notin> set ''aws4_request''" by simp_all
  have "split_on CHR ''/'' (ak @ CHR ''/'' # date @ CHR ''/'' # region @ CHR ''/'' # ''s3'' @ CHR ''/'' # ''aws4_request'') = [ak, date, region, ''s3'', ''aws4_request'']"
    unfolding split_on_cons [OF assms(1)] split_on_cons [OF assms(2)] split_on_cons [OF assms(3)] split_on_cons [OF s3(1)] split_on_none [OF s3(2)] ..
  then show ?thesis unfolding credential_scope_def append.simps .
qed

lemma plain_part_not: "plain_part s \<Longrightarrow> CHR '','' \<notin> set s \<and> CHR ''/'' \<notin> set s \<and> list_all visible s"
  unfolding plain_part_def list_all_iff by blast

lemma parse_auth_parts:
  assumes "strip_prefix ''AWS4-HMAC-SHA256'' v = Some rest" "split_on CHR ''/'' c = [ak, date, region, service, ''aws4_request'']"
    and "foldl auth_part (None, None, None) (map trim (split_on CHR '','' (trim rest))) = (Some c, Some s, Some g)"
  shows "parse_auth_header v = Inr \<lparr>ah_access_key = ak, ah_date = date, ah_region = region, ah_service = service,
    ah_signed_headers = map to_lower (split_on CHR '';'' s), ah_signature_hex = g\<rparr>"
  by (simp add: parse_auth_header_def assms)

lemma parse_auth_back:
  assumes plain: "plain_part ak" "plain_part date" "plain_part region" and names: "list_all plain_name names" "names \<noteq> []"
  shows "parse_auth_header (''AWS4-HMAC-SHA256 Credential='' @ ak @ ''/'' @ credential_scope date region ''s3'' @
      '', SignedHeaders='' @ join_with '';'' names @ '', Signature='' @ hex sig) =
    Inr \<lparr>ah_access_key = ak, ah_date = date, ah_region = region, ah_service = ''s3'', ah_signed_headers = map to_lower names, ah_signature_hex = hex sig\<rparr>"
proof -
  let ?c = "''Credential='' @ ak @ ''/'' @ credential_scope date region ''s3''"
  let ?s = "''SignedHeaders='' @ join_with '';'' names" and ?g = "''Signature='' @ hex sig"
  have cs: "CHR '','' \<notin> set (credential_scope date region ''s3'')" and ak: "CHR '','' \<notin> set ak"
    and sl: "CHR ''/'' \<notin> set ak" "CHR ''/'' \<notin> set date" "CHR ''/'' \<notin> set region"
    using plain [THEN plain_part_not] by (simp_all add: credential_scope_def)
  have nc: "CHR '','' \<notin> set ?c" "CHR '','' \<notin> set ('' '' @ ?s)" "CHR '','' \<notin> set ('' '' @ ?g)"
    using cs ak bspec [OF join_plain(1) [OF names], of "CHR '',''"] bspec [OF hex_plain, of "CHR '',''" sig] by auto
  have lg: "\<not> is_ws (last ?g)"
    using hex_plain [of sig] by (cases "hex sig") (auto simp: is_ws_def)
  have ls: "\<not> is_ws (last ?s)" using join_plain(3) [OF names] by simp
  have lc: "\<not> is_ws (last ?c)" by (simp add: credential_scope_def is_ws_def)
  have w: "\<not> is_ws CHR ''C''" "\<not> is_ws CHR ''S''" "is_ws CHR '' ''" by (simp_all add: is_ws_def)
  have t: "trim ?c = ?c" "trim ('' '' @ ?s) = ?s" "trim ('' '' @ ?g) = ?g"
    using lc ls lg w by (simp_all add: trim_tail)
  have "last (?c @ '', '' @ ?s @ '', '' @ ?g) = last ?g" by simp
  then have rest: "trim ('' '' @ ?c @ '', '' @ ?s @ '', '' @ ?g) = ?c @ CHR '','' # ('' '' @ ?s) @ CHR '','' # ('' '' @ ?g)"
    using lg w by (simp add: trim_tail)
  have parts: "map trim (split_on CHR '','' (?c @ CHR '','' # ('' '' @ ?s) @ CHR '','' # ('' '' @ ?g))) = [?c, ?s, ?g]"
    unfolding split_on_cons [OF nc(1)] split_on_cons [OF nc(2)] split_on_none [OF nc(3)] list.map t ..
  have v: "strip_prefix ''AWS4-HMAC-SHA256'' (''AWS4-HMAC-SHA256'' @ '' '' @ ?c @ '', '' @ ?s @ '', '' @ ?g) = Some ('' '' @ ?c @ '', '' @ ?s @ '', '' @ ?g)"
    by (rule strip_prefix_hit)
  have f: "foldl auth_part (None, None, None) (map trim (split_on CHR '','' (trim ('' '' @ ?c @ '', '' @ ?s @ '', '' @ ?g)))) =
    (Some (ak @ ''/'' @ credential_scope date region ''s3''), Some (join_with '';'' names), Some (hex sig))"
    unfolding rest parts foldl.simps auth_parts ..
  note parse_auth_parts [OF v credential_split [OF sl] f, unfolded join_plain(2) [OF names]]
  then show ?thesis by simp
qed

text \<open>A header the signer and the check canonicalise alike.\<close>

definition signable :: "header_map \<Rightarrow> string \<Rightarrow> bool" where
  "signable H n \<longleftrightarrow> plain_name n \<and> to_lower n \<noteq> ''authorization'' \<and>
     (case header_str H n of None \<Rightarrow> False | Some v \<Rightarrow> collapse v = trim v)"

lemma collapse_plain: "list_all (\<lambda>c. \<not> is_ws c) v \<Longrightarrow> collapse v = trim v"
proof -
  assume v: "list_all (\<lambda>c. \<not> is_ws c) v"
  then show ?thesis by (cases "v = []") (simp_all add: collapse_def split_ws_def ws_pieces_plain)
qed

lemma signable_plain:
  assumes "plain_name n" "to_lower n \<noteq> ''authorization''" "header_str H n = Some v" "list_all (\<lambda>c. \<not> is_ws c) v"
  shows "signable H n"
  using assms collapse_plain by (simp add: signable_def)

lemma header_str_lower [simp]: "header_str H (to_lower n) = header_str H n"
  by (simp add: header_str_def)

lemma header_str_other: "to_lower n \<noteq> ''authorization'' \<Longrightarrow> header_str ((''authorization'', a) # H) n = header_str H n"
  by (simp add: header_str_def)

lemma canon_headers_signed:
  "list_all (signable H) names \<Longrightarrow>
   canon_headers ((''authorization'', a) # H) (map to_lower names) = Inr (concat (map (sign_header H) names))"
  by (induction names) (auto simp: signable_def sign_header_def header_str_other split: option.splits)

lemma other_headers:
  "header_str ((''authorization'', a) # H) ''x-amz-date'' = header_str H ''x-amz-date''"
  "content_sha ((''authorization'', a) # H) = content_sha H"
  by (simp_all add: header_str_other content_sha_def to_lower_def lower_char_def)

lemma header_str_authorization:
  "list_all visible a \<Longrightarrow> header_str ((''authorization'', a) # H) ''authorization'' = Some a"
  by (simp add: header_str_def to_lower_def lower_char_def)

lemma signed_header_visible:
  assumes "plain_part ak" "plain_part date" "plain_part region" "list_all plain_name names" "names \<noteq> []"
  shows "list_all visible (''AWS4-HMAC-SHA256 Credential='' @ ak @ ''/'' @ credential_scope date region ''s3'' @
      '', SignedHeaders='' @ join_with '';'' names @ '', Signature='' @ hex sig)"
proof -
  have lit: "list_all visible ''AWS4-HMAC-SHA256 Credential=''" "list_all visible ''/''" "list_all visible ''s3''" "list_all visible ''/aws4_request''"
    "list_all visible '', SignedHeaders=''" "list_all visible '', Signature=''"
    by (simp_all add: visible_def)
  have "list_all visible (join_with '';'' names)" "list_all visible (hex sig)"
    using join_plain(1) [OF assms(4,5)] hex_plain [of sig] by (simp_all add: list_all_iff)
  with plain_part_not [OF assms(1)] plain_part_not [OF assms(2)] plain_part_not [OF assms(3)] lit show ?thesis
    unfolding credential_scope_def list_all_append by blast
qed

lemma signed_accepted:
  assumes sig: "sign_for_test C cfg m p q H names date region = Some a"
    and plain: "plain_part (sc_access_key cfg)" "plain_part date" "plain_part region" and names: "list_all (signable H) names" "names \<noteq> []"
    and date: "header_str H ''x-amz-date'' = Some date" "date_check cfg now date = Inr ()"
    and sha: "content_sha H = unsigned_payload \<or> to_lower (content_sha H) = to_lower b"
  shows "verify C now cfg m p q ((''authorization'', a) # H) b = Inr ()"
proof -
  let ?names = "map to_lower names" and ?date = "take 8 date"
  have pd: "plain_part ?date" using plain(2) by (auto simp: plain_part_def list_all_iff dest: in_set_takeD)
  have pn: "list_all plain_name ?names" "?names \<noteq> []" using names by (auto simp: list_all_iff signable_def plain_lower)
  define creq where "creq = canonical_request m p (canon_query q) (concat (map (sign_header H) names)) (join_with '';'' ?names) (content_sha H)"
  define k where "k = signing_key C (sc_secret_key cfg) ?date region ''s3''"
  define sg where "sg = sh_hmac C k (str_bytes (string_to_sign C date (credential_scope ?date region ''s3'') creq))"
  have a: "a = ''AWS4-HMAC-SHA256 Credential='' @ sc_access_key cfg @ ''/'' @ credential_scope ?date region ''s3'' @
      '', SignedHeaders='' @ join_with '';'' ?names @ '', Signature='' @ hex sg"
    using sig unfolding sign_for_test_def Let_def to_lower_join creq_def k_def sg_def by (simp split: if_splits)
  have au: "header_str ((''authorization'', a) # H) ''authorization'' = Some a"
    unfolding a by (rule header_str_authorization [OF signed_header_visible [OF plain(1) pd plain(3) pn]])
  have pa: "parse_auth_header a = Inr \<lparr>ah_access_key = sc_access_key cfg, ah_date = ?date, ah_region = region, ah_service = ''s3'',
      ah_signed_headers = ?names, ah_signature_hex = hex sg\<rparr>"
    unfolding a using parse_auth_back [OF plain(1) pd plain(3) pn] by (simp add: comp_def)
  have sw: "starts_with date ?date" by (cases "length date \<le> 8") (simp_all add: starts_with_def min_def)
  show ?thesis
    unfolding verify_def au ok_or.simps if_ok.simps pa
    using sw date sha by (simp add: other_headers canon_headers_signed [OF names(1)] creq_def [symmetric] k_def [symmetric] sg_def [symmetric])
qed

section \<open>Properties\<close>

text \<open>C36: a request signed by the client's signer is accepted, for any hash and MAC, if the credential's parts can be carried by the header
  (\<open>plain_part\<close>), every signed header is present with a value that has no run of inner spaces (\<open>signable\<close>), the date is the present one and the
  declared digest is that of the body or \<open>UNSIGNED-PAYLOAD\<close>.\<close>

theorem sigv4_accepts_signed:
  assumes "sign_for_test C cfg m p q H names date region = Some a"
    and "plain_part (sc_access_key cfg)" and "plain_part date" and "plain_part region" and "list_all (signable H) names" and "names \<noteq> []"
    and "header_str H ''x-amz-date'' = Some date" and "date_check cfg now date = Inr ()"
    and "content_sha H \<in> {unsigned_payload, hex (sh_sha256 C body)}"
  shows "verify C now cfg m p q ((''authorization'', a) # H) (hex (sh_sha256 C body)) = Inr ()"
  by (rule signed_accepted [OF assms(1-8)]) (use assms(9) in auto)

definition sample_hash :: sig_hash where
  "sample_hash = \<lparr>sh_sha256 = (\<lambda>b. take 1 b), sh_hmac = (\<lambda>k b. take 1 (rev b))\<rparr>"

definition sample_date :: string where
  "sample_date = ''20250102T030405Z''"

definition sample_headers :: header_map where
  "sample_headers = [(''host'', ''localhost:9100''), (''x-amz-date'', sample_date), (''x-amz-content-sha256'', ''07'')]"

definition sample_signature :: "string option" where
  "sample_signature = sign_for_test sample_hash (sigv4_config_new ''AK'' ''secret'') ''PUT'' ''/kubo/blocks/K'' ''x=1'' sample_headers
     [''host'', ''x-amz-content-sha256'', ''x-amz-date''] sample_date ''us-east-1''"

lemma sample_time: "parse_amz_date sample_date = Some 1735787045"
proof -
  have b: "bslice sample_date 0 4 = ''2025''" "bslice sample_date 4 6 = ''01''" "bslice sample_date 6 8 = ''02''"
    "bslice sample_date 9 11 = ''03''" "bslice sample_date 11 13 = ''04''" "bslice sample_date 13 15 = ''05''"
    "length sample_date = 16" "last sample_date = CHR ''Z''" "sample_date ! 8 = CHR ''T''"
    by (simp_all add: sample_date_def bslice_def)
  have v: "parse_signed 64 ''2025'' = Some 2025" "parse_signed 64 ''01'' = Some 1" "parse_signed 64 ''02'' = Some 2"
    "parse_signed 64 ''03'' = Some 3" "parse_signed 64 ''04'' = Some 4" "parse_signed 64 ''05'' = Some 5"
    by (simp_all add: parse_signed_def digits_value_def is_digit_def digit_value_def)
  have "civil_days 2025 1 2 = 20090" by (simp add: civil_days_def)
  then show ?thesis by (simp add: parse_amz_date_def b v)
qed

lemma sample_request:
  "plain_part (sc_access_key (sigv4_config_new ''AK'' ''secret''))" "plain_part sample_date" "plain_part ''us-east-1''"
  "list_all (signable sample_headers) [''host'', ''x-amz-content-sha256'', ''x-amz-date'']"
  "header_str sample_headers ''x-amz-date'' = Some sample_date" "date_check (sigv4_config_new ''AK'' ''secret'') 1735787100 sample_date = Inr ()"
  "content_sha sample_headers \<in> {unsigned_payload, hex (sh_sha256 sample_hash [7])}"
proof -
  show "plain_part (sc_access_key (sigv4_config_new ''AK'' ''secret''))" "plain_part sample_date" "plain_part ''us-east-1''" by code_simp+
  have h: "header_str sample_headers ''host'' = Some ''localhost:9100''" "header_str sample_headers ''x-amz-content-sha256'' = Some ''07''"
    "header_str sample_headers ''x-amz-date'' = Some sample_date"
    by code_simp+
  have w: "list_all (\<lambda>c. \<not> is_ws c) ''localhost:9100''" "list_all (\<lambda>c. \<not> is_ws c) ''07''" "list_all (\<lambda>c. \<not> is_ws c) sample_date"
    by (simp_all add: is_ws_def sample_date_def)
  have n: "plain_name ''host''" "plain_name ''x-amz-content-sha256''" "plain_name ''x-amz-date''"
    by (simp_all add: plain_name_def plain_char_def visible_def is_ws_def)
  have l: "to_lower ''host'' \<noteq> ''authorization''" "to_lower ''x-amz-content-sha256'' \<noteq> ''authorization''" "to_lower ''x-amz-date'' \<noteq> ''authorization''"
    by (simp_all add: to_lower_def lower_char_def)
  show "list_all (signable sample_headers) [''host'', ''x-amz-content-sha256'', ''x-amz-date'']"
    using signable_plain [OF n(1) l(1) h(1) w(1)] signable_plain [OF n(2) l(2) h(2) w(2)] signable_plain [OF n(3) l(3) h(3) w(3)] by simp
  show "header_str sample_headers ''x-amz-date'' = Some sample_date" by (rule h)
  show "date_check (sigv4_config_new ''AK'' ''secret'') 1735787100 sample_date = Inr ()"
    by (simp add: date_check_def sigv4_config_new_def sample_time)
  show "content_sha sample_headers \<in> {unsigned_payload, hex (sh_sha256 sample_hash [7])}"
  proof -
    have "hex [7] = ''07''" by code_simp
    then show ?thesis by (simp add: content_sha_def h sample_hash_def)
  qed
qed

theorem sigv4_accepts_signed_witness:
  "\<exists>a. sample_signature = Some a \<and>
     verify sample_hash 1735787100 (sigv4_config_new ''AK'' ''secret'') ''PUT'' ''/kubo/blocks/K'' ''x=1'' ((''authorization'', a) # sample_headers) (hex (sh_sha256 sample_hash [7])) = Inr ()"
proof -
  have "length sample_date = 16" by code_simp
  then obtain a where a: "sample_signature = Some a" unfolding sample_signature_def sign_for_test_def Let_def by simp
  from sigv4_accepts_signed [OF this [unfolded sample_signature_def] sample_request(1-4) _ sample_request(5-7)] a show ?thesis by blast
qed

text \<open>C12: a signature covers what it should: two requests accepted with the same Authorization header, whenever they arrive, agree in method, path,
  canonical query, date, the values of all signed headers, the declared digest and, unless the payload is declared unsigned, in the body, or they
  exhibit a collision of HMAC under the signing key or of SHA-256.\<close>

theorem sigv4_binds_request:
  assumes "verify C now cfg m p q H (hex (sh_sha256 C body)) = Inr ()" and "verify C now' cfg m' p' q' H' (hex (sh_sha256 C body')) = Inr ()"
    and "header_str H ''authorization'' = header_str H' ''authorization''" and "newline \<notin> set (m @ p @ q @ m' @ p' @ q')"
  shows "\<exists>v a date date'. header_str H ''authorization'' = Some v \<and> parse_auth_header v = Inr a \<and>
    header_str H ''x-amz-date'' = Some date \<and> header_str H' ''x-amz-date'' = Some date' \<and>
    (m = m' \<and> p = p' \<and> canon_query q = canon_query q' \<and> signed_alike H body H' body' a \<or>
     broken_crypto C cfg a date date' (request_text m p q H (ah_signed_headers a)) (request_text m' p' q' H' (ah_signed_headers a)) body body')"
  by (rule accepted_agree [OF assms])

theorem sigv4_binds_request_witness:
  "\<exists>x v a. sample_signature = Some x \<and> header_str ((''authorization'', x) # sample_headers) ''authorization'' = Some v \<and> parse_auth_header v = Inr a \<and>
     signed_alike ((''authorization'', x) # sample_headers) [7] ((''authorization'', x) # sample_headers) [7] a"
proof -
  have "length sample_date = 16" by code_simp
  then obtain x where x: "sample_signature = Some x" unfolding sample_signature_def sign_for_test_def Let_def by simp
  have "verify sample_hash 1735787100 (sigv4_config_new ''AK'' ''secret'') ''PUT'' ''/kubo/blocks/K'' ''x=1''
      ((''authorization'', x) # sample_headers) (hex (sh_sha256 sample_hash [7])) = Inr ()"
    by (rule signed_accepted [OF x [unfolded sample_signature_def] sample_request(1-4) _ sample_request(5,6)]) (use sample_request(7) in auto)
  from sigv4_binds_request [OF this this refl] x show ?thesis by (fastforce simp: signed_alike_def)
qed

end
