(* ===== verification/Ratelimit.thy ===== *)
theory Ratelimit
  imports Ozd_Prelude
begin

text \<open>
  The limiter of requests per client address (\<open>ozd-ipfs/src/ratelimit.rs\<close>): a token bucket per address, with idle buckets dropped at
  every 256th request. Addresses are a type parameter, times are seconds and token counts exact rationals where the code has \<open>Instant\<close>
  and \<open>f64\<close>. \<open>duration_since\<close> saturates at zero.
\<close>

record bucket =
  bk_tokens :: rat
  bk_last :: rat

record 'ip limiter =
  li_max_rps :: rat
  li_buckets :: "'ip \<rightharpoonup> bucket"
  li_request_count :: u64

definition limiter_new :: "nat \<Rightarrow> 'ip limiter" where
  "limiter_new max_rps = \<lparr>li_max_rps = of_nat max_rps, li_buckets = Map.empty, li_request_count = 0\<rparr>"

definition since :: "rat \<Rightarrow> rat \<Rightarrow> rat" where
  "since now t = max 0 (now - t)"

definition retain_recent :: "rat \<Rightarrow> ('ip \<rightharpoonup> bucket) \<Rightarrow> 'ip \<rightharpoonup> bucket" where
  "retain_recent now m ip = (case m ip of None \<Rightarrow> None | Some b \<Rightarrow> if \<lfloor>since now (bk_last b)\<rfloor> < 60 then Some b else None)"

definition limiter_check :: "'ip limiter \<Rightarrow> 'ip \<Rightarrow> rat \<Rightarrow> 'ip limiter \<times> bool" where
  "limiter_check L ip now =
     (let buckets = (if li_request_count L mod 256 = 0 then retain_recent now (li_buckets L) else li_buckets L);
          bucket = (case buckets ip of Some b \<Rightarrow> b | None \<Rightarrow> \<lparr>bk_tokens = li_max_rps L, bk_last = now\<rparr>);
          elapsed = since now (bk_last bucket);
          tokens = min (bk_tokens bucket + elapsed * li_max_rps L) (li_max_rps L);
          allowed = (1 \<le> tokens) in
      (L\<lparr>li_buckets := buckets(ip \<mapsto> \<lparr>bk_tokens = (if allowed then tokens - 1 else tokens), bk_last = now\<rparr>),
         li_request_count := li_request_count L + 1\<rparr>, allowed))"

text \<open>The middleware: a refused request gets status 429, an allowed one the answer of the next handler.\<close>

definition rate_limit_mw :: "'ip limiter \<Rightarrow> 'ip \<Rightarrow> rat \<Rightarrow> ('s \<Rightarrow> 's \<times> 'r) \<Rightarrow> 'r \<Rightarrow> 's \<Rightarrow> ('ip limiter \<times> 's) \<times> 'r" where
  "rate_limit_mw L ip now run too_many s =
     (case limiter_check L ip now of
        (L', True) \<Rightarrow> (case run s of (s', r) \<Rightarrow> ((L', s'), r))
      | (L', False) \<Rightarrow> ((L', s), too_many))"

text \<open>A sequence of calls and their answers.\<close>

fun limiter_run :: "'ip limiter \<Rightarrow> ('ip \<times> rat) list \<Rightarrow> 'ip limiter \<times> bool list" where
  "limiter_run L [] = (L, [])"
| "limiter_run L ((ip, now) # calls) =
     (case limiter_check L ip now of (L', a) \<Rightarrow> (case limiter_run L' calls of (L'', as) \<Rightarrow> (L'', a # as)))"

section \<open>Lemmas\<close>

text \<open>The tokens an address would have at a time.\<close>

definition balance :: "'ip limiter \<Rightarrow> 'ip \<Rightarrow> rat \<Rightarrow> rat" where
  "balance L ip now =
     (case li_buckets L ip of None \<Rightarrow> li_max_rps L | Some b \<Rightarrow> min (bk_tokens b + since now (bk_last b) * li_max_rps L) (li_max_rps L))"

definition limiter_ok :: "'ip limiter \<Rightarrow> bool" where
  "limiter_ok L \<longleftrightarrow> 0 \<le> li_max_rps L \<and> (\<forall>ip b. li_buckets L ip = Some b \<longrightarrow> 0 \<le> bk_tokens b)"

text \<open>The cleanup drops only full buckets.\<close>

lemma retain_recent_balance:
  assumes "limiter_ok L"
    and "now \<le> t"
  shows "balance (L\<lparr>li_buckets := retain_recent now (li_buckets L)\<rparr>) ip t = balance L ip t"
proof (cases "li_buckets L ip")
  case (Some b)
  have "li_max_rps L \<le> bk_tokens b + since t (bk_last b) * li_max_rps L" if "60 \<le> \<lfloor>since now (bk_last b)\<rfloor>"
  proof -
    have "60 \<le> since t (bk_last b)" using that assms(2) by (simp add: le_floor_iff since_def)
    then have "1 * li_max_rps L \<le> since t (bk_last b) * li_max_rps L"
      by (intro mult_right_mono) (use assms in \<open>simp_all add: limiter_ok_def\<close>)
    then show ?thesis using assms Some by (simp add: limiter_ok_def add_increasing)
  qed
  with Some show ?thesis by (simp add: balance_def retain_recent_def)
qed (simp add: balance_def retain_recent_def)

text \<open>The answer and the balances after a call, whether or not it cleans up.\<close>

lemma limiter_check_balance:
  assumes "limiter_ok L" "limiter_check L ip now = (L', a)"
  shows "a \<longleftrightarrow> 1 \<le> balance L ip now" "balance L' ip now = balance L ip now - (if a then 1 else 0)"
    "li_max_rps L' = li_max_rps L" "limiter_ok L'"
    "\<And>other t. other \<noteq> ip \<Longrightarrow> now \<le> t \<Longrightarrow> balance L' other t = balance L other t"
    "\<And>t. now \<le> t \<Longrightarrow> balance L' ip t = min (balance L' ip now + (t - now) * li_max_rps L) (li_max_rps L)"
proof -
  define m where "m = (if li_request_count L mod 256 = 0 then retain_recent now (li_buckets L) else li_buckets L)"
  define bk where "bk = (case m ip of Some b \<Rightarrow> b | None \<Rightarrow> \<lparr>bk_tokens = li_max_rps L, bk_last = now\<rparr>)"
  define tk where "tk = min (bk_tokens bk + since now (bk_last bk) * li_max_rps L) (li_max_rps L)"
  have L': "L' = L\<lparr>li_buckets := m(ip \<mapsto> \<lparr>bk_tokens = (if 1 \<le> tk then tk - 1 else tk), bk_last = now\<rparr>), li_request_count := li_request_count L + 1\<rparr>"
    and a: "a \<longleftrightarrow> 1 \<le> tk"
    using assms(2) unfolding limiter_check_def m_def [symmetric] Let_def bk_def [symmetric] tk_def [symmetric] by auto
  have "tk = balance (L\<lparr>li_buckets := m\<rparr>) ip now"
    by (auto simp: tk_def bk_def balance_def since_def split: option.splits)
  then have tk: "tk = balance L ip now" unfolding m_def using retain_recent_balance [OF assms(1)] by simp
  have ok: "0 \<le> li_max_rps L" "\<And>i b. m i = Some b \<Longrightarrow> 0 \<le> bk_tokens b"
    using assms(1) unfolding limiter_ok_def m_def retain_recent_def by (auto split: option.splits if_splits)
  have z: "0 \<le> since now t" for t by (simp add: since_def)
  have "0 \<le> bk_tokens bk" using ok unfolding bk_def by (auto split: option.splits)
  then have b: "0 \<le> tk \<and> tk \<le> li_max_rps L"
    unfolding tk_def using ok z by simp
  show "a \<longleftrightarrow> 1 \<le> balance L ip now" using a tk by simp
  show "balance L' ip now = balance L ip now - (if a then 1 else 0)"
    using a b tk by (auto simp: L' balance_def since_def)
  show "li_max_rps L' = li_max_rps L" by (simp add: L')
  show "limiter_ok L'" using ok b by (auto simp: limiter_ok_def L' split: if_splits)
  show "balance L' ip t = min (balance L' ip now + (t - now) * li_max_rps L) (li_max_rps L)" if "now \<le> t" for t
    using b that by (auto simp: L' balance_def since_def)
  show "balance L' other t = balance L other t" if "other \<noteq> ip" "now \<le> t" for other t
  proof -
    have "balance L' other t = balance (L\<lparr>li_buckets := m\<rparr>) other t" using that by (auto simp: L' balance_def split: option.splits)
    then show ?thesis using retain_recent_balance [OF assms(1) that(2)] by (simp add: m_def)
  qed
qed

text \<open>Balances grow with the time, and never above the limit.\<close>

lemma balance_grows:
  assumes "limiter_ok L" "t \<le> u"
  shows "balance L ip t \<le> balance L ip u" "balance L ip u \<le> balance L ip t + li_max_rps L * (u - t)"
    "balance L ip t \<le> li_max_rps L" "0 \<le> balance L ip t"
proof -
  have s: "since t x \<le> since u x" "since u x \<le> since t x + (u - t)" "0 \<le> since t x" for x
    using assms(2) by (auto simp: since_def)
  have r: "0 \<le> li_max_rps L" using assms(1) by (simp add: limiter_ok_def)
  show "balance L ip t \<le> balance L ip u"
    unfolding balance_def using mult_right_mono [OF s(1) r] by (auto split: option.splits simp: min_le_iff_disj add_left_mono)
  show "balance L ip u \<le> balance L ip t + li_max_rps L * (u - t)"
  proof (cases "li_buckets L ip")
    case None
    then show ?thesis using r assms(2) by (simp add: balance_def)
  next
    case (Some b)
    have "since u (bk_last b) * li_max_rps L \<le> since t (bk_last b) * li_max_rps L + li_max_rps L * (u - t)"
      using mult_right_mono [OF s(2) r, of "bk_last b"] by (simp add: algebra_simps)
    moreover have "0 \<le> li_max_rps L * (u - t)" using r assms(2) by simp
    ultimately show ?thesis using Some by (auto simp: balance_def min_def)
  qed
  show "balance L ip t \<le> li_max_rps L" by (simp add: balance_def split: option.splits)
  show "0 \<le> balance L ip t"
    using assms(1) s(3) by (auto simp: balance_def limiter_ok_def split: option.splits)
qed

text \<open>The requests of one address that were let through.\<close>

definition let_through :: "'ip \<Rightarrow> ('ip \<times> rat) list \<Rightarrow> bool list \<Rightarrow> nat" where
  "let_through a calls answers = length (filter (\<lambda>((ip, t), ok). ip = a \<and> ok) (zip calls answers))"

definition answers_to :: "'ip \<Rightarrow> ('ip \<times> rat) list \<Rightarrow> bool list \<Rightarrow> bool list" where
  "answers_to a calls answers = map snd (filter (\<lambda>((ip, t), ok). ip = a) (zip calls answers))"

lemma limiter_run_Cons:
  "limiter_run L ((ip, now) # calls) =
     (let (L1, a) = limiter_check L ip now; (L2, as) = limiter_run L1 calls in (L2, a # as))"
  by (simp split: prod.splits)

lemma limiter_run_append:
  "limiter_run L (xs @ ys) = (case limiter_run L xs of (L1, as) \<Rightarrow> (case limiter_run L1 ys of (L2, bs) \<Rightarrow> (L2, as @ bs)))"
  by (induction xs arbitrary: L) (auto split: prod.splits)

lemma limiter_run_ok: "limiter_ok L \<Longrightarrow> limiter_run L calls = (L', as) \<Longrightarrow> limiter_ok L' \<and> li_max_rps L' = li_max_rps L \<and> length as = length calls"
proof (induction calls arbitrary: L as)
  case (Cons c calls)
  obtain ip now L1 a where c: "c = (ip, now)" "limiter_check L ip now = (L1, a)" by (cases c) fastforce
  obtain bs where r: "limiter_run L1 calls = (L', bs)" "as = a # bs" using Cons.prems(2) c by (auto split: prod.splits)
  from limiter_check_balance(3,4) [OF Cons.prems(1) c(2)] Cons.IH [OF _ r(1)] show ?case
    by (simp add: r(2))
qed simp

lemma let_through_bound:
  assumes "limiter_ok L" "limiter_run L calls = (L', as)" "sorted (map snd calls)" "\<forall>c \<in> set calls. t0 \<le> snd c \<and> snd c \<le> t1" "t0 \<le> t1"
  shows "of_nat (let_through a calls as) + balance L' a t1 \<le> balance L a t0 + li_max_rps L * (t1 - t0)"
  using assms
proof (induction calls arbitrary: L as t0)
  case Nil
  then show ?case using balance_grows(2) [OF Nil.prems(1) Nil.prems(5)] by (simp add: let_through_def)
next
  case (Cons c calls)
  obtain ip now L1 ok where c: "c = (ip, now)" "limiter_check L ip now = (L1, ok)" by (cases c) fastforce
  obtain bs where r: "limiter_run L1 calls = (L', bs)" "as = ok # bs" using Cons.prems(2) c by (auto split: prod.splits)
  note b = limiter_check_balance [OF Cons.prems(1) c(2)]
  have t: "t0 \<le> now" "now \<le> t1" using Cons.prems(4) c by auto
  have "of_nat (let_through a calls bs) + balance L' a t1 \<le> balance L1 a now + li_max_rps L * (t1 - now)"
    using Cons.IH [OF b(4) r(1), of now] Cons.prems(3,4) t c b(3) by auto
  moreover have "balance L1 a now = balance L a now - (if ip = a \<and> ok then 1 else 0)"
    by (cases "ip = a") (use b(2) b(5) [of a now] in auto)
  moreover have "balance L a now \<le> balance L a t0 + li_max_rps L * (now - t0)"
    by (rule balance_grows(2) [OF Cons.prems(1) t(1)])
  ultimately show ?case by (auto simp: c r(2) let_through_def algebra_simps)
qed

lemma answers_isolated:
  assumes "limiter_ok L" "limiter_ok M" "li_max_rps L = li_max_rps M" "limiter_run L calls = (L', as)"
    "sorted (map snd calls)" "\<And>t c. c \<in> set calls \<Longrightarrow> snd c \<le> t \<Longrightarrow> balance L a t = balance M a t"
  shows "answers_to a calls as = snd (limiter_run M (filter (\<lambda>c. fst c = a) calls))"
  using assms
proof (induction calls arbitrary: L M as)
  case Nil
  then show ?case by (simp add: answers_to_def)
next
  case (Cons c calls)
  obtain ip now L1 ok where c: "c = (ip, now)" "limiter_check L ip now = (L1, ok)" by (cases c) fastforce
  obtain bs where r: "limiter_run L1 calls = (L', bs)" "as = ok # bs" using Cons.prems(4) c by (auto split: prod.splits)
  note b = limiter_check_balance [OF Cons.prems(1) c(2)]
  have later: "now \<le> t" if "d \<in> set calls" "snd d \<le> t" for d t
    using Cons.prems(5) that c(1) by (fastforce intro: order_trans)
  have same: "balance L a t = balance M a t" if "now \<le> t" for t using Cons.prems(6) [of c t] that c by simp
  have srt: "sorted (map snd calls)" using Cons.prems(5) by simp
  show ?case
  proof (cases "ip = a")
    case False
    have "balance L1 a t = balance M a t" if "now \<le> t" for t using b(5) [OF _ that, of a] False same [OF that] by simp
    then have "answers_to a calls bs = snd (limiter_run M (filter (\<lambda>c. fst c = a) calls))"
      by (intro Cons.IH [OF b(4) Cons.prems(2) _ r(1) srt]) (use b(3) Cons.prems(3) later in auto)
    then show ?thesis using False by (simp add: c r(2) answers_to_def)
  next
    case True
    obtain M1 ok' where m: "limiter_check M a now = (M1, ok')" by fastforce
    note b' = limiter_check_balance [OF Cons.prems(2) m]
    have ok: "ok' = ok" using b(1) b'(1) True same [of now] by simp
    have "balance L1 a now = balance M1 a now" using b(2) b'(2) True same [of now] ok by simp
    then have f: "balance L1 a t = balance M1 a t" if "now \<le> t" for t
      using b(6) [OF that] b'(6) [OF that] True Cons.prems(3) by simp
    have "answers_to a calls bs = snd (limiter_run M1 (filter (\<lambda>c. fst c = a) calls))"
      by (intro Cons.IH [OF b(4) b'(4) _ r(1) srt]) (use b(3) b'(3) Cons.prems(3) later f in auto)
    then show ?thesis using True m ok by (simp add: c r(2) answers_to_def split: prod.splits)
  qed
qed

lemma limiter_new_ok [simp]: "limiter_ok (limiter_new n)" "li_max_rps (limiter_new n) = of_nat n"
  by (simp_all add: limiter_ok_def limiter_new_def)

section \<open>Properties\<close>

text \<open>C37: the rate is kept: in any stretch of a run of the limiter, whatever other addresses do, an address gets at most the limit's worth of
  requests for each second of the stretch and one second's worth at once.\<close>

theorem rate_limit_bound:
  assumes "limiter_run (limiter_new n) (before @ (a, t0) # calls) = (L, answers)" and "sorted (map snd (before @ (a, t0) # calls))"
    and "list_all (\<lambda>c. snd c \<le> t1) ((a, t0) # calls)"
  shows "of_nat (let_through a ((a, t0) # calls) (drop (length before) answers)) \<le> of_nat n + of_nat n * (t1 - t0)"
proof -
  obtain L1 as where r1: "limiter_run (limiter_new n) before = (L1, as)" by fastforce
  obtain L2 bs where r2: "limiter_run L1 ((a, t0) # calls) = (L2, bs)" by fastforce
  note ok1 = limiter_run_ok [OF limiter_new_ok(1) r1]
  have "limiter_run (limiter_new n) (before @ (a, t0) # calls) = (L2, as @ bs)" by (simp only: limiter_run_append r1 r2 prod.case)
  with assms(1) have "answers = as @ bs" "L2 = L" by (simp_all only: prod.inject)
  then have bs: "drop (length before) answers = bs" using ok1 by simp
  have st: "sorted (map snd ((a, t0) # calls))" using assms(2) by (simp add: sorted_append)
  have "of_nat (let_through a ((a, t0) # calls) bs) + balance L2 a t1 \<le> balance L1 a t0 + li_max_rps L1 * (t1 - t0)"
    by (rule let_through_bound [OF _ r2 st]) (use ok1 st assms(3) in \<open>auto simp: list_all_iff\<close>)
  moreover have "balance L1 a t0 \<le> of_nat n" "0 \<le> balance L2 a t1"
    using balance_grows(3) [of L1 t0 t0 a] balance_grows(4) [of L2 t1 t1 a] ok1 limiter_run_ok [OF conjunct1 [OF ok1] r2] by simp_all
  ultimately show ?thesis using ok1 bs by simp
qed

theorem rate_limit_bound_witness:
  "of_nat (let_through (7 :: nat) [(7, 5), (7, 5), (8, 5), (7, 5)] (drop 1 (snd (limiter_run (limiter_new 2) [(8 :: nat, 0), (7, 5), (7, 5), (8, 5), (7, 5)])))) \<le> (2 :: rat)"
  using rate_limit_bound [of 2 "[(8, 0)]" "7 :: nat" 5 "[(7, 5), (8, 5), (7, 5)]" _ _ 5, OF prod.collapse [symmetric]] by (simp del: limiter_run.simps)

text \<open>Clients do not disturb each other: the answers an address gets are those it would get alone, so neither the requests of others nor the
  cleanup of idle buckets they trigger is visible.\<close>

theorem rate_limit_isolated:
  assumes "limiter_run (limiter_new n) calls = (L, answers)" and "sorted (map snd calls)"
  shows "answers_to a calls answers = snd (limiter_run (limiter_new n) (filter (\<lambda>c. fst c = a) calls))"
  by (rule answers_isolated [OF limiter_new_ok(1) limiter_new_ok(1) _ assms]) simp_all

theorem rate_limit_isolated_witness:
  "answers_to (7 :: nat) [(8, 0), (7, 1), (8, 1), (7, 1)] (snd (limiter_run (limiter_new 1) [(8 :: nat, 0), (7, 1), (8, 1), (7, 1)])) =
     snd (limiter_run (limiter_new 1) [(7 :: nat, 1), (7, 1)])"
  using rate_limit_isolated [of 1 "[(8 :: nat, 0), (7, 1), (8, 1), (7, 1)]", OF prod.collapse [symmetric], of 7] by (simp del: limiter_run.simps)

end
