(* ===== verification/Gateway.thy ===== *)
theory Gateway
  imports Store Sigv4 Ratelimit
begin

text \<open>
  The S3 gateway (\<open>ozd-ipfs/src/lib.rs\<close>): handlers over a block store, the signature middleware, and the router with its layers. Requests
  reach a handler as \<open>axum\<close> hands them over: the matched endpoint with its path parameters, the header map, the query parameters as a
  map, the body. Text is a list of characters 0 to 255, its bytes are \<open>str_bytes\<close> of it. A handler returns its response with the new state of the store;
  the panics that \<open>spawn_blocking\<close> would turn into an error do not occur in the model's stores.
\<close>

section \<open>Responses\<close>

record response =
  rs_status :: nat
  rs_headers :: "(string \<times> string) list"
  rs_body :: bytes

definition in_quotes :: "string \<Rightarrow> string" where
  "in_quotes s = CHR 0x22 # s @ [CHR 0x22]"

definition xml_declaration :: string where
  "xml_declaration = ''<?xml version='' @ in_quotes ''1.0'' @ '' encoding='' @ in_quotes ''UTF-8'' @ ''?>''"

definition s3_error :: "nat \<Rightarrow> string \<Rightarrow> string \<Rightarrow> response" where
  "s3_error code s3code msg =
     \<lparr>rs_status = code, rs_headers = [(''content-type'', ''application/xml'')],
      rs_body = str_bytes (xml_declaration @ ''<Error><Code>'' @ s3code @ ''</Code><Message>'' @ msg @ ''</Message></Error>'')\<rparr>"

fun error_response :: "domain_error \<Rightarrow> response" where
  "error_response NotFound = s3_error 404 ''NoSuchKey'' ''not found''"
| "error_response (IntegrityViolation m) = s3_error 500 ''InternalError'' m"
| "error_response Shutdown = s3_error 503 ''ServiceUnavailable'' ''shutting down''"
| "error_response other = s3_error 500 ''InternalError'' (error_text other)"

definition bkey :: "string \<Rightarrow> block_key" where
  "bkey key = str_bytes (if starts_with key ''/'' then key else ''/'' @ key)"

section \<open>PUT, HEAD, DELETE\<close>

definition put_object :: "'i block_store \<Rightarrow> string \<Rightarrow> bytes \<Rightarrow> 'i \<Rightarrow> 'i \<times> response" where
  "put_object B key data s =
     (case bs_put B s (bkey key) data of
        (s, Inr _) \<Rightarrow> (s, \<lparr>rs_status = 200, rs_headers = [(''etag'', in_quotes ''ozd'')], rs_body = []\<rparr>)
      | (s, Inl e) \<Rightarrow> (s, error_response e))"

definition head_object :: "'i block_store \<Rightarrow> string \<Rightarrow> 'i \<Rightarrow> 'i \<times> response" where
  "head_object B key s =
     (case bs_stat B s (bkey key) of
        (s, Inr len) \<Rightarrow> (s, \<lparr>rs_status = 200, rs_headers = [(''content-length'', show_nat len)], rs_body = []\<rparr>)
      | (s, Inl e) \<Rightarrow> (s, if e = NotFound then \<lparr>rs_status = 404, rs_headers = [], rs_body = []\<rparr> else error_response e))"

definition delete_object :: "'i block_store \<Rightarrow> string \<Rightarrow> 'i \<Rightarrow> 'i \<times> response" where
  "delete_object B key s =
     (case bs_delete B s (bkey key) of
        (s, Inr _) \<Rightarrow> (s, \<lparr>rs_status = 204, rs_headers = [], rs_body = []\<rparr>)
      | (s, Inl e) \<Rightarrow> (s, error_response e))"

section \<open>GET with ranges\<close>

datatype range_spec =
    From nat "nat option"
  | Suffix nat

definition parse_range :: "string \<Rightarrow> range_spec option" where
  "parse_range v =
     (case strip_prefix ''bytes='' v of
        None \<Rightarrow> None
      | Some spec \<Rightarrow>
          (case split_once CHR ''-'' spec of
             None \<Rightarrow> None
           | Some (a, b) \<Rightarrow>
               if a = [] then
                 (case parse_unsigned 64 b of None \<Rightarrow> None | Some n \<Rightarrow> if n = 0 then None else Some (Suffix n))
               else
                 (case parse_unsigned 64 a of
                    None \<Rightarrow> None
                  | Some start \<Rightarrow>
                      if b = [] then Some (From start None)
                      else (case parse_unsigned 64 b of
                              None \<Rightarrow> None
                            | Some e \<Rightarrow> if e < start then None else Some (From start (Some e))))))"

datatype get_out =
    Full bytes
  | Range bytes string bool
  | Bao bytes string string

text \<open>The first and last byte asked for; \<open>None\<close> is the whole body.\<close>

fun range_bounds :: "range_spec option \<Rightarrow> bool \<Rightarrow> nat \<Rightarrow> (nat \<times> nat) option domain_result" where
  "range_bounds None want_bao tot = Inr (if want_bao then Some (0, tot - 1) else None)"
| "range_bounds (Some (From start end_opt)) want_bao tot =
     (if tot \<le> start then Inl (Io ''range start beyond EOF'')
      else Inr (Some (start, min (case end_opt of Some e \<Rightarrow> e | None \<Rightarrow> tot - 1) (tot - 1))))"
| "range_bounds (Some (Suffix n)) want_bao tot =
     (if tot = 0 then Inl (Io ''range on empty body'') else Inr (Some (tot - n, tot - 1)))"

definition content_range :: "nat \<Rightarrow> nat \<Rightarrow> nat \<Rightarrow> string" where
  "content_range start end tot = ''bytes '' @ show_nat start @ ''-'' @ show_nat end @ ''/'' @ show_nat tot"

definition read_range :: "'i block_store \<Rightarrow> abao_ops \<Rightarrow> block_key \<Rightarrow> range_spec option \<Rightarrow> bool \<Rightarrow> 'i \<Rightarrow> ('i, get_out) op" where
  "read_range B ab k rspec want_bao s =
     and_then (bs_get B s k) (\<lambda>data s.
     case range_bounds rspec want_bao (length data) of
       Inl e \<Rightarrow> (s, Inl e)
     | Inr None \<Rightarrow> (s, Inr (Full data))
     | Inr (Some (start, end)) \<Rightarrow>
         let len = end - start + 1; cr = content_range start end (length data) in
         (case bs_get B s (ob_key k) of
            (s, Inr ob) \<Rightarrow>
              if want_bao then
                (case bao_slice ab data ob start len of
                   Inl e \<Rightarrow> (s, Inl e)
                 | Inr (sl, rt) \<Rightarrow> (s, Inr (Bao sl (hex32 rt) cr)))
              else
                (case verified_slice ab data ob start len of
                   Inl e \<Rightarrow> (s, Inl e)
                 | Inr v \<Rightarrow> (s, Inr (Range v cr True)))
          | (s, Inl e) \<Rightarrow>
              if e = NotFound \<and> want_bao then (s, Inl (Io ''bao requested but no outboard for key''))
              else if e = NotFound then (s, Inr (Range (bslice data start (end + 1)) cr False))
              else (s, Inl e)))"

fun get_response :: "get_out domain_result \<Rightarrow> response" where
  "get_response (Inr (Full data)) =
     \<lparr>rs_status = 200, rs_headers = [(''content-type'', ''application/octet-stream'')], rs_body = data\<rparr>"
| "get_response (Inr (Range data cr verified)) =
     \<lparr>rs_status = 206, rs_headers = [(''content-type'', ''application/octet-stream''), (''content-range'', cr),
        (''x-ozd-verified'', if verified then ''blake3'' else ''none'')], rs_body = data\<rparr>"
| "get_response (Inr (Bao sl rt cr)) =
     \<lparr>rs_status = 206, rs_headers = [(''content-type'', ''application/vnd.ozd.bao-slice''), (''content-range'', cr),
        (''x-ozd-bao-root'', rt)], rs_body = sl\<rparr>"
| "get_response (Inl e) = error_response e"

definition wants_bao :: "header_map \<Rightarrow> bool" where
  "wants_bao H = (case header_str H ''x-ozd-bao'' of None \<Rightarrow> False | Some v \<Rightarrow> v = ''1'' \<or> to_lower v = ''true'')"

definition get_object :: "'i block_store \<Rightarrow> abao_ops \<Rightarrow> string \<Rightarrow> header_map \<Rightarrow> 'i \<Rightarrow> 'i \<times> response" where
  "get_object B ab key H s =
     (let rspec = (case header_str H ''range'' of None \<Rightarrow> None | Some v \<Rightarrow> parse_range v) in
      case read_range B ab (bkey key) rspec (wants_bao H) s of (s, out) \<Rightarrow> (s, get_response out))"

section \<open>Listing\<close>

definition replace_char :: "char \<Rightarrow> string \<Rightarrow> string \<Rightarrow> string" where
  "replace_char c t s = concat (map (\<lambda>x. if x = c then t else [x]) s)"

definition xml_escape :: "string \<Rightarrow> string" where
  "xml_escape s = replace_char CHR ''>'' ''&gt;'' (replace_char CHR ''<'' ''&lt;'' (replace_char CHR ''&'' ''&amp;'' s))"

text \<open>\<open>String::from_utf8_lossy\<close>: the length of the next chunk and whether it is a well-formed character; an ill-formed chunk is replaced by U+FFFD.\<close>

definition cont_byte :: "bytes \<Rightarrow> nat \<Rightarrow> bool" where
  "cont_byte b i \<longleftrightarrow> i < length b \<and> 0x80 \<le> b ! i \<and> b ! i \<le> 0xBF"

definition second_byte :: "bytes \<Rightarrow> bool" where
  "second_byte b \<longleftrightarrow> cont_byte b 1 \<and>
     (b ! 0 = 0xE0 \<longrightarrow> 0xA0 \<le> b ! 1) \<and> (b ! 0 = 0xED \<longrightarrow> b ! 1 \<le> 0x9F) \<and> (b ! 0 = 0xF0 \<longrightarrow> 0x90 \<le> b ! 1) \<and> (b ! 0 = 0xF4 \<longrightarrow> b ! 1 \<le> 0x8F)"

definition utf8_chunk :: "bytes \<Rightarrow> nat \<times> bool" where
  "utf8_chunk b =
     (let x = b ! 0 in
      if x < 0x80 then (1, True)
      else if 0xC2 \<le> x \<and> x \<le> 0xDF then (if cont_byte b 1 then (2, True) else (1, False))
      else if 0xE0 \<le> x \<and> x \<le> 0xEF then
        (if \<not> second_byte b then (1, False) else if \<not> cont_byte b 2 then (2, False) else (3, True))
      else if 0xF0 \<le> x \<and> x \<le> 0xF4 then
        (if \<not> second_byte b then (1, False) else if \<not> cont_byte b 2 then (2, False) else if \<not> cont_byte b 3 then (3, False) else (4, True))
      else (1, False))"

lemma utf8_chunk_pos: "0 < fst (utf8_chunk b)"
  by (simp add: utf8_chunk_def Let_def)

function utf8_lossy :: "bytes \<Rightarrow> bytes" where
  "utf8_lossy b =
     (if b = [] then []
      else (case utf8_chunk b of (n, ok) \<Rightarrow> (if ok then take n b else [0xEF, 0xBF, 0xBD]) @ utf8_lossy (drop n b)))"
  by auto
termination
  by (relation "measure length") (use utf8_chunk_pos in \<open>auto dest: arg_cong [of _ _ fst] simp: neq_Nil_conv\<close>)

declare utf8_lossy.simps [simp del]

definition slash_prefix :: "string \<Rightarrow> string" where
  "slash_prefix p = (if starts_with p ''/'' then p else ''/'' @ p)"

definition max_keys_of :: "(string \<rightharpoonup> string) \<Rightarrow> nat" where
  "max_keys_of q = min (case q ''max-keys'' of None \<Rightarrow> 1000 | Some s \<Rightarrow> (case parse_unsigned 64 s of None \<Rightarrow> 1000 | Some n \<Rightarrow> n)) 10000"

definition list_token :: "(string \<rightharpoonup> string) \<Rightarrow> string option" where
  "list_token q = (case q ''continuation-token'' of Some t \<Rightarrow> Some t | None \<Rightarrow> q ''start-after'')"

definition prefix_param :: "(string \<rightharpoonup> string) \<Rightarrow> string" where
  "prefix_param q = (case q ''prefix'' of None \<Rightarrow> [] | Some p \<Rightarrow> p)"

text \<open>The page a listing shows: its items, whether more follow, and the token to continue with.\<close>

record list_page =
  lp_items :: "(block_key \<times> nat) list"
  lp_truncated :: bool
  lp_token :: "string option"

definition key_str_of :: "block_key \<Rightarrow> string" where
  "key_str_of k = text_of (utf8_lossy k)"

definition page_of :: "nat \<Rightarrow> (block_key \<times> nat) list \<Rightarrow> list_page" where
  "page_of max_keys items =
     (let truncated = max_keys < length items; shown = take max_keys items in
      \<lparr>lp_items = shown, lp_truncated = truncated,
       lp_token = (if truncated \<and> shown \<noteq> [] then Some (key_str_of (fst (last shown))) else None)\<rparr>)"

definition list_item_xml :: "block_key \<times> nat \<Rightarrow> string" where
  "list_item_xml item =
     (let key_str = key_str_of (fst item);
          key_no_slash = (case strip_prefix ''/'' key_str of Some t \<Rightarrow> t | None \<Rightarrow> key_str) in
      ''<Contents>'' @ ''<Key>'' @ xml_escape key_no_slash @ ''</Key>'' @ ''<Size>'' @ show_nat (snd item) @ ''</Size>'' @
      ''<StorageClass>STANDARD</StorageClass>'' @ ''</Contents>'')"

definition list_xml :: "string \<Rightarrow> string \<Rightarrow> nat \<Rightarrow> list_page \<Rightarrow> string" where
  "list_xml bucket prefix_raw max_keys pg =
     xml_declaration @ ''<ListBucketResult xmlns='' @ in_quotes ''http://s3.amazonaws.com/doc/2006-03-01/'' @ ''>'' @
     ''<Name>'' @ bucket @ ''</Name>'' @ ''<Prefix>'' @ xml_escape prefix_raw @ ''</Prefix>'' @
     ''<KeyCount>'' @ show_nat (length (lp_items pg)) @ ''</KeyCount>'' @ ''<MaxKeys>'' @ show_nat max_keys @ ''</MaxKeys>'' @
     ''<IsTruncated>'' @ (if lp_truncated pg then ''true'' else ''false'') @ ''</IsTruncated>'' @
     (case lp_token pg of None \<Rightarrow> [] | Some t \<Rightarrow> ''<NextContinuationToken>'' @ xml_escape t @ ''</NextContinuationToken>'') @
     concat (map list_item_xml (lp_items pg)) @ ''</ListBucketResult>''"

definition list_listing :: "'i block_store \<Rightarrow> (string \<rightharpoonup> string) \<Rightarrow> 'i \<Rightarrow> ('i, list_page) op" where
  "list_listing B q s =
     (case bs_list B s (str_bytes (slash_prefix (prefix_param q))) (map_option bkey (list_token q)) (max_keys_of q + 1) of
        (s, Inr items) \<Rightarrow> (s, Inr (page_of (max_keys_of q) items))
      | (s, Inl e) \<Rightarrow> (s, Inl e))"

definition list_objects :: "'i block_store \<Rightarrow> string \<Rightarrow> (string \<rightharpoonup> string) \<Rightarrow> 'i \<Rightarrow> 'i \<times> response" where
  "list_objects B bucket q s =
     (case list_listing B q s of
        (s, Inr pg) \<Rightarrow> (s, \<lparr>rs_status = 200, rs_headers = [(''content-type'', ''application/xml'')],
           rs_body = str_bytes (list_xml bucket (prefix_param q) (max_keys_of q) pg)\<rparr>)
      | (s, Inl e) \<Rightarrow> (s, error_response e))"

section \<open>Health\<close>

definition healthz :: "'s pool option \<Rightarrow> response" where
  "healthz po =
     (let (status_str, shards, faulted, down) =
        (case po of
           Some p \<Rightarrow>
             let n = shard_count p;
                 f = length (filter (\<lambda>i. pool_shard_status p i = Some Faulted) [0..<n]);
                 sd = po_shutting_down p in
             (if sd then ''shutting_down'' else ''ok'', n, f, sd)
         | None \<Rightarrow> (''ok'', 0, 0, False)) in
      \<lparr>rs_status = (if down then 503 else 200), rs_headers = [(''content-type'', ''application/json'')],
       rs_body = str_bytes (''{'' @ in_quotes ''status'' @ '':'' @ in_quotes status_str @ '','' @ in_quotes ''shards'' @ '':'' @ show_nat shards @
         '','' @ in_quotes ''faulted'' @ '':'' @ show_nat faulted @ '','' @ in_quotes ''shutting_down'' @ '':'' @
         (if down then ''true'' else ''false'') @ ''}'')\<rparr>)"

section \<open>The layers\<close>

datatype endpoint =
    ListBucket string
  | GetObject string
  | PutObject string
  | HeadObject string
  | DeleteObject string

record request =
  rq_method :: string
  rq_path :: string
  rq_query :: "string option"
  rq_headers :: header_map
  rq_body :: bytes
  rq_params :: "string \<rightharpoonup> string"
  rq_endpoint :: endpoint

definition s3_handler :: "'i block_store \<Rightarrow> abao_ops \<Rightarrow> request \<Rightarrow> 'i \<Rightarrow> 'i \<times> response" where
  "s3_handler B ab rq s =
     (case rq_endpoint rq of
        ListBucket bucket \<Rightarrow> list_objects B bucket (rq_params rq) s
      | GetObject key \<Rightarrow> get_object B ab key (rq_headers rq) s
      | PutObject key \<Rightarrow> put_object B key (rq_body rq) s
      | HeadObject key \<Rightarrow> head_object B key s
      | DeleteObject key \<Rightarrow> delete_object B key s)"

definition sigv4_mw :: "sig_hash \<Rightarrow> int \<Rightarrow> sigv4_config \<Rightarrow> request \<Rightarrow> (request \<Rightarrow> 'i \<Rightarrow> 'i \<times> response) \<Rightarrow> 'i \<Rightarrow> 'i \<times> response" where
  "sigv4_mw C now cfg rq run s =
     (if 256 * 1024 * 1024 < length (rq_body rq) then (s, s3_error 403 ''AccessDenied'' ''body: length limit exceeded'')
      else
        case verify C now cfg (rq_method rq) (rq_path rq) (case rq_query rq of None \<Rightarrow> [] | Some q \<Rightarrow> q) (rq_headers rq)
            (hex (sh_sha256 C (rq_body rq))) of
          Inr _ \<Rightarrow> run rq s
        | Inl e \<Rightarrow> (s, s3_error 403 ''SignatureDoesNotMatch'' e))"

definition too_many :: response where
  "too_many = \<lparr>rs_status = 429, rs_headers = [(''retry-after'', ''1'')], rs_body = str_bytes ''429 Too Many Requests''\<rparr>"

text \<open>The client's address: the first entry of X-Forwarded-For, else the peer of the connection, else the loopback address. The text
  syntax of addresses is a parameter.\<close>

definition extract_ip :: "(string \<Rightarrow> 'ip option) \<Rightarrow> 'ip \<Rightarrow> header_map \<Rightarrow> 'ip option \<Rightarrow> 'ip" where
  "extract_ip parse_ip loopback H peer =
     (let fallback = (case peer of Some a \<Rightarrow> a | None \<Rightarrow> loopback) in
      case header_str H ''x-forwarded-for'' of
        None \<Rightarrow> fallback
      | Some v \<Rightarrow> (case parse_ip (trim (hd (split_on CHR '','' v))) of Some ip \<Rightarrow> ip | None \<Rightarrow> fallback))"

record 'ip gateway_config =
  gc_auth :: "sigv4_config option"
  gc_hash :: sig_hash
  gc_abao :: abao_ops
  gc_parse_ip :: "string \<Rightarrow> 'ip option"
  gc_loopback :: 'ip

text \<open>The S3 routes with their layers: the rate limit outside, then the signature check.\<close>

definition s3_router ::
  "'i block_store \<Rightarrow> 'ip gateway_config \<Rightarrow> 'ip option \<Rightarrow> int \<Rightarrow> rat \<Rightarrow> request \<Rightarrow> 'ip limiter option \<times> 'i \<Rightarrow> ('ip limiter option \<times> 'i) \<times> response" where
  "s3_router B G peer wall now rq ls =
     (let inner = (case gc_auth G of
                     None \<Rightarrow> s3_handler B (gc_abao G) rq
                   | Some cfg \<Rightarrow> sigv4_mw (gc_hash G) wall cfg rq (s3_handler B (gc_abao G))) in
      case ls of
        (None, s) \<Rightarrow> (case inner s of (s, r) \<Rightarrow> ((None, s), r))
      | (Some L, s) \<Rightarrow> (case rate_limit_mw L (extract_ip (gc_parse_ip G) (gc_loopback G) (rq_headers rq) peer) now inner too_many s of ((L, s), r) \<Rightarrow> ((Some L, s), r)))"

end
