(* ===== verification/Gateway_Thms.thy ===== *)
theory Gateway_Thms
  imports Gateway Paging
begin

text \<open>
  What the gateway promises its clients: the block store behind the HTTP responses, exact ranges, listings that lose nothing from page
  to page, and no effect of a request whose signature fails.
\<close>

section \<open>Keys as text\<close>

lemma bkey_text:
  assumes "starts_with k (str_bytes (slash_prefix p))"
  shows "bkey (text_of k) = k"
proof -
  have "\<exists>u. slash_prefix p = ''/'' @ u" by (auto simp: slash_prefix_def starts_with_iff)
  then obtain u t where "k = str_bytes (''/'' @ u) @ t" using assms by (auto simp: starts_with_iff)
  then have "text_of k = ''/'' @ u @ text_of t" using text_of_ascii [of "''/'' @ u"] by (simp add: text_of_def)
  then have "starts_with (text_of k) ''/''" by (simp add: starts_with_def)
  then show ?thesis by (simp add: bkey_def)
qed

section \<open>The handlers on a block store\<close>

lemma error_status: "rs_status (error_response e) \<in> {404, 500, 503}"
  by (cases e) (simp_all add: s3_error_def)

lemma error_not_ok [simp]: "rs_status (error_response e) \<noteq> 200" "rs_status (error_response e) \<noteq> 206" "rs_status (error_response e) \<noteq> 204"
  using error_status [of e] by auto

lemma range_bounds_in:
  assumes "parse_range v = Some rg" "range_bounds (Some rg) wb n = Inr (Some (st, en))"
  shows "st \<le> en \<and> en < n"
  using assms by (cases rg) (auto simp: parse_range_def split: option.splits prod.splits if_splits)

lemma range_bounds_None: "range_bounds rg wb n = Inr None \<Longrightarrow> rg = None"
  by (cases "(rg, wb, n)" rule: range_bounds.cases) (auto split: if_splits)

context listed_store
begin

lemma put_object_spec:
  assumes "ok (Suc n) s" "fits (bkey key) d" "put_object B key d s = (s', r)"
  shows "ok n s' \<and> store_wrote H L fine (bkey key) d s s' \<and> (rs_status r = 200 \<longrightarrow> H s' (bkey key) d)"
proof (cases "bs_put B s (bkey key) d")
  case (Pair t o1)
  then show ?thesis using store_put [OF assms(1,2)] assms(3)
    by (cases o1) (auto simp: put_object_def split: if_splits)
qed

lemma read_range_spec:
  assumes "ok (Suc n) s" "read_range B ab k rg wb s = (s', out)"
  shows "ok (Suc n) s' \<and> store_kept H L fine s s' \<and>
    (case out of
       Inr (Full d) \<Rightarrow> rg = None \<and> H s k d
     | Inr (Range v cr ver) \<Rightarrow> \<not> wb \<and> (\<exists>d st en. H s k d \<and> range_bounds rg wb (length d) = Inr (Some (st, en)) \<and> cr = content_range st en (length d) \<and>
          (if ver then \<exists>ob. H s (ob_key k) ob \<and> verified_slice ab d ob st (en - st + 1) = Inr v else v = bslice d st (en + 1)))
     | Inr (Bao sl rt cr) \<Rightarrow> wb
     | Inl e \<Rightarrow> rg = None \<and> \<not> wb \<longrightarrow> \<not> L s k)"
proof -
  obtain s1 o1 where g: "bs_get B s k = (s1, o1)" by fastforce
  have g1: "ok (Suc n) s1 \<and> store_kept H L fine s s1 \<and> (case o1 of Inr d \<Rightarrow> H s k d | Inl e \<Rightarrow> \<not> L s k)"
    using store_read [OF assms(1), of k] store_get [OF assms(1), of k] by (cases o1) (auto simp: g)
  show ?thesis
  proof (cases o1)
    case (Inl e)
    then show ?thesis using g1 assms(2) by (auto simp: read_range_def g)
  next
    case (Inr d)
    obtain s2 o2 where g': "bs_get B s1 (ob_key k) = (s2, o2)" by fastforce
    have g2: "ok (Suc n) s2 \<and> store_kept H L fine s1 s2 \<and> (case o2 of Inr d \<Rightarrow> H s1 (ob_key k) d | Inl e \<Rightarrow> True)"
      using store_read [of "Suc n" s1 "ob_key k"] store_get [of n s1 "ob_key k"] g1 by (cases o2) (auto simp: g')
    have k2: "store_kept H L fine s s2" "H s1 = H s" using g1 g2 by (auto simp: store_kept_def)
    consider (err) e where "range_bounds rg wb (length d) = Inl e" | (full) "range_bounds rg wb (length d) = Inr None"
      | (part) st en where "range_bounds rg wb (length d) = Inr (Some (st, en))"
      by (metis sum.exhaust option.exhaust prod.exhaust)
    then show ?thesis
    proof cases
      case err
      then have "rg \<noteq> None" by (cases rg) auto
      then show ?thesis using err g1 assms(2) Inr by (auto simp: read_range_def g)
    next
      case full
      then show ?thesis using g1 assms(2) Inr range_bounds_None [OF full] by (auto simp: read_range_def g)
    next
      case part
      have w: "\<not> wb \<Longrightarrow> rg \<noteq> None" using part by (cases rg) auto
      show ?thesis
      proof (cases o2)
        case (Inl e)
        then show ?thesis using part g1 g2 k2 assms(2) Inr w by (auto simp: read_range_def g g' split: if_splits) blast
      next
        case (Inr ob)
        show ?thesis
        proof (cases wb)
          case True
          then show ?thesis using part g1 g2 k2 assms(2) \<open>o1 = Inr d\<close> Inr
            by (auto simp: read_range_def g g' split: sum.splits prod.splits)
        next
          case False
          then show ?thesis using part g1 g2 k2 assms(2) \<open>o1 = Inr d\<close> Inr w
            by (auto simp: read_range_def g g' split: sum.splits) blast
        qed
      qed
    qed
  qed
qed

end

text \<open>The byte ranges of a request, their text, the bytes each asks for, and the first of them in a body of a given length.\<close>

datatype byte_range = Between nat nat | FromByte nat | LastBytes nat

fun range_text :: "byte_range \<Rightarrow> string" where
  "range_text (Between a b) = ''bytes='' @ show_nat a @ ''-'' @ show_nat b"
| "range_text (FromByte a) = ''bytes='' @ show_nat a @ ''-''"
| "range_text (LastBytes n) = ''bytes=-'' @ show_nat n"

fun well_formed :: "byte_range \<Rightarrow> bool" where
  "well_formed (Between a b) \<longleftrightarrow> a \<le> b \<and> b < 2 ^ 64"
| "well_formed (FromByte a) \<longleftrightarrow> a < 2 ^ 64"
| "well_formed (LastBytes n) \<longleftrightarrow> 0 < n \<and> n < 2 ^ 64"

fun bytes_asked :: "byte_range \<Rightarrow> bytes \<Rightarrow> bytes" where
  "bytes_asked (Between a b) d = drop a (take (b + 1) d)"
| "bytes_asked (FromByte a) d = drop a d"
| "bytes_asked (LastBytes n) d = rev (take n (rev d))"

fun first_asked :: "byte_range \<Rightarrow> nat \<Rightarrow> nat" where
  "first_asked (Between a b) tot = a"
| "first_asked (FromByte a) tot = a"
| "first_asked (LastBytes n) tot = tot - n"

lemma parse_range_text:
  assumes "well_formed rg"
  shows "parse_range (range_text rg) = Some (case rg of Between a b \<Rightarrow> From a (Some b) | FromByte a \<Rightarrow> From a None | LastBytes n \<Rightarrow> Suffix n)"
proof -
  have no: "CHR ''-'' \<notin> set (show_nat n)" for n
    using show_nat_digits [of n] by (auto simp: list_all_iff is_digit_def)
  have split: "split_once CHR ''-'' (show_nat a @ CHR ''-'' # t) = Some (show_nat a, t)" for a t
    by (rule split_once_hit [OF no])
  have strip: "strip_prefix ''bytes='' (''bytes='' @ t) = Some t" for t by (rule strip_prefix_hit)
  show ?thesis
  proof (cases rg)
    case (Between a b)
    then show ?thesis using assms split [of a "show_nat b"] strip [of "show_nat a @ CHR ''-'' # show_nat b"]
      by (simp add: parse_range_def)
  next
    case (FromByte a)
    then show ?thesis using assms split [of a "[]"] strip [of "show_nat a @ ''-''"] by (simp add: parse_range_def)
  next
    case (LastBytes n)
    then show ?thesis using assms strip [of "CHR ''-'' # show_nat n"] by (simp add: parse_range_def)
  qed
qed

text \<open>The bounds the handler computes for them, against the bytes asked for.\<close>

lemma range_bounds_asked:
  assumes "well_formed rg" and "parse_range (range_text rg) = Some spec"
  shows "(\<exists>e. range_bounds (Some spec) False (length d) = Inl e) \<and> bytes_asked rg d = [] \<or>
    (\<exists>en. range_bounds (Some spec) False (length d) = Inr (Some (first_asked rg (length d), en)) \<and> bytes_asked rg d \<noteq> [] \<and>
       first_asked rg (length d) \<le> en \<and> en = first_asked rg (length d) + length (bytes_asked rg d) - 1 \<and>
       bytes_asked rg d = bslice d (first_asked rg (length d)) (en + 1))"
proof (cases rg)
  case (Between a b)
  then have "spec = From a (Some b)" using assms parse_range_text [OF assms(1)] by simp
  then show ?thesis using assms(1) Between by (cases "length d \<le> a") (auto simp: bslice_def min_def drop_take)
next
  case (FromByte a)
  then have "spec = From a None" using assms parse_range_text [OF assms(1)] by simp
  then show ?thesis using FromByte by (cases "length d \<le> a") (auto simp: bslice_def)
next
  case (LastBytes n)
  then have "spec = Suffix n" using assms parse_range_text [OF assms(1)] by simp
  moreover have "\<not> length d \<le> length d - n" if "d \<noteq> []" using that assms(1) LastBytes by (cases d) auto
  ultimately show ?thesis using assms(1) LastBytes by (cases "d = []") (auto simp: bslice_def rev_take)
qed

text \<open>A client that follows the continuation tokens, for at most as many pages as its first argument of type \<open>nat\<close> after the page size.\<close>

fun follow_pages :: "'i block_store \<Rightarrow> string \<Rightarrow> nat \<Rightarrow> nat \<Rightarrow> string option \<Rightarrow> 'i \<Rightarrow> 'i \<times> block_key list option" where
  "follow_pages B pre n 0 t s = (s, None)"
| "follow_pages B pre n (Suc m) t s =
     (case list_listing B ([''prefix'' \<mapsto> pre, ''max-keys'' \<mapsto> show_nat n](''continuation-token'' := t)) s of
        (s, Inl e) \<Rightarrow> (s, None)
      | (s, Inr pg) \<Rightarrow>
          (case lp_token pg of
             None \<Rightarrow> (s, Some (map fst (lp_items pg)))
           | Some t \<Rightarrow> (case follow_pages B pre n m (Some t) s of (s, r) \<Rightarrow> (s, map_option (\<lambda>ks. map fst (lp_items pg) @ ks) r))))"

context listed_store
begin

lemma follow_pages_all:
  assumes "ok n s" "fine s" "1 \<le> N" "N \<le> 10000" "\<forall>a. after = Some a \<longrightarrow> starts_with a (str_bytes (slash_prefix pre))"
    and "\<forall>k \<in> stored_keys H s (str_bytes (slash_prefix pre)) after. utf8_lossy k = k"
    and "card (stored_keys H s (str_bytes (slash_prefix pre)) after) < m"
  shows "\<exists>s'. follow_pages B pre N m (map_option text_of after) s = (s', Some (sorted_list_of_set (stored_keys H s (str_bytes (slash_prefix pre)) after)))"
  using assms
proof (induction m arbitrary: s after)
  case (Suc m)
  let ?P = "str_bytes (slash_prefix pre)"
  let ?S = "stored_keys H s ?P after"
  let ?q = "[''prefix'' \<mapsto> pre, ''max-keys'' \<mapsto> show_nat N](''continuation-token'' := map_option text_of after)"
  have q: "prefix_param ?q = pre" "max_keys_of ?q = N" "map_option bkey (list_token ?q) = after"
    using Suc.prems(4,5) bkey_text [of _ pre]
    by (auto simp: prefix_param_def max_keys_of_def list_token_def option.map_comp comp_def split: option.splits intro: option.map_ident_strong)
  obtain s1 o1 where l: "bs_list B s ?P after (N + 1) = (s1, o1)" by fastforce
  have le: "\<forall>a. after = Some a \<longrightarrow> ?P \<le> a" using Suc.prems(5) starts_with_le by blast
  have "\<exists>items. o1 = Inr items \<and> ok n s1 \<and> store_kept H L fine s s1 \<and> finite ?S \<and> map fst items = take (N + 1) (sorted_list_of_set ?S)"
    using store_list [OF Suc.prems(1) le, of "N + 1"] Suc.prems(2) unfolding l by (cases o1) auto
  then obtain items where
    o1: "o1 = Inr items" "ok n s1" "store_kept H L fine s s1" "finite ?S" "map fst items = take (N + 1) (sorted_list_of_set ?S)" by blast
  let ?L = "sorted_list_of_set ?S"
  define ks where "ks = take N ?L"
  have shown: "map fst (take N items) = ks" by (simp add: ks_def take_map [symmetric] o1(5) min_def)
  have len: "length items = min (N + 1) (length ?L)" using arg_cong [OF o1(5), of length] by simp
  have page: "list_listing B ?q s = (s1, Inr (page_of N items))" unfolding list_listing_def q l o1(1) prod.case sum.case ..
  show ?case
  proof (cases "length items \<le> N")
    case True
    then have "length ?L \<le> N" using len by simp
    then have "ks = ?L" by (simp add: ks_def)
    then show ?thesis using page True shown by (auto simp: page_of_def Let_def)
  next
    case False
    have "N < length ?L" using False unfolding len by linarith
    then have "length ks = N" unfolding ks_def length_take by linarith
    then have ne: "ks \<noteq> []" using Suc.prems(3) by auto
    note pg = page_next [OF o1(4) ks_def ne]
    have ks: "set ks \<subseteq> ?S" unfolding ks_def using set_take_subset [of N ?L] o1(4) by simp
    have a: "starts_with (last ks) ?P" "utf8_lossy (last ks) = last ks"
      using subsetD [OF ks last_in_set [OF ne]] Suc.prems(6) by (auto simp: stored_keys_def)
    have S': "stored_keys H s1 ?P (Some (last ks)) = {k \<in> ?S. last ks < k}"
      using o1(3) subsetD [OF ks last_in_set [OF ne]] by (cases after) (auto simp: stored_keys_def store_kept_def)
    have tok: "lp_token (page_of N items) = Some (text_of (last ks))" "lp_items (page_of N items) = take N items"
      using False ne shown last_map [of "take N items" fst] a(2) by (auto simp: page_of_def Let_def key_str_of_def)
    have "fine s1" using o1(3) Suc.prems(2) by (simp add: store_kept_def)
    from Suc.IH [OF o1(2) this Suc.prems(3,4), of "Some (last ks)"] obtain s' where
      "follow_pages B pre N m (Some (text_of (last ks))) s1 = (s', Some (sorted_list_of_set {k \<in> ?S. last ks < k}))"
      unfolding S' using a(1) Suc.prems(6,7) pg(2) by auto
    then show ?thesis using page tok shown pg(1) by simp
  qed
qed simp

end

context listed_store
begin

lemma get_object_full:
  assumes "ok (Suc n) s" "get_object B ab key h s = (s', r)" "header_str h ''range'' = None" "\<not> wants_bao h"
  shows "ok (Suc n) s' \<and> store_kept H L fine s s' \<and>
    (rs_status r = 200 \<and> H s (bkey key) (rs_body r) \<or> rs_status r \<notin> {200, 206} \<and> \<not> L s (bkey key))"
proof -
  obtain s1 out where r: "read_range B ab (bkey key) None False s = (s1, out)" by fastforce
  have "s' = s1" "r = get_response out" using assms(2-4) r by (simp_all add: get_object_def)
  then show ?thesis using read_range_spec [OF assms(1) r] error_not_ok
    by (cases out) (auto split: get_out.splits)
qed

lemma object_lifecycle:
  assumes "ok (Suc (Suc n)) s" "fine s" "fits (bkey key) d" "\<forall>b. H s (bkey key) b \<longrightarrow> b = d" "header_str h ''range'' = None" "\<not> wants_bao h"
    and "put_object B key d s = (s1, r1)" "rs_status r1 = 200" "get_object B ab key h s1 = (s2, r2)"
    and "delete_object B key s2 = (s3, r3)" "rs_status r3 = 204" "get_object B ab key h s3 = (s4, r4)"
  shows "rs_status r2 = 200 \<and> rs_body r2 = d \<and> rs_status r4 \<notin> {200, 206}"
proof -
  note p = put_object_spec [OF assms(1,3,7)]
  have h1: "H s1 (bkey key) d" "\<forall>b. H s1 (bkey key) b \<longrightarrow> b = d" "fine s1"
    using p assms(2,4,8) unfolding store_wrote_def by blast+
  have "ok (Suc n) s1" using p by blast
  note g = get_object_full [OF this assms(9,5,6)]
  have f2: "fine s2" "ok (Suc n) s2" using g h1 by (auto simp: store_kept_def)
  obtain t o3 where d: "bs_delete B s2 (bkey key) = (t, o3)" by fastforce
  have t: "t = s3" "o3 = Inr ()"
    using assms(10,11) d by (cases o3; auto simp: delete_object_def)+
  have s3: "ok (Suc n) s3" "\<forall>b. \<not> H s3 (bkey key) b"
    using store_delete [OF f2(2), of "bkey key"] f2(1) d t by auto
  note g4 = get_object_full [OF s3(1) assms(12,5,6)]
  show ?thesis using g g4 h1 s3(2) store_live by blast
qed

lemma get_object_exact:
  assumes "ok (Suc n) s" "get_object B ab key h s = (s', r)" "\<forall>b. H s (bkey key) b \<longrightarrow> b = d"
    and "\<forall>ob. H s (ob_key (bkey key)) ob \<longrightarrow> ob = make_outboard ab d" "abao_contract ab {d}" "\<not> wants_bao h"
    and h: "header_str h ''range'' = Some (range_text rg)" "well_formed rg"
  shows "store_kept H L fine s s' \<and>
    (rs_status r = 206 \<and> bytes_asked rg d \<noteq> [] \<and> rs_body r = bytes_asked rg d \<and>
       map_of (rs_headers r) ''content-range'' =
         Some (content_range (first_asked rg (length d)) (first_asked rg (length d) + length (bytes_asked rg d) - 1) (length d)) \<or>
     rs_status r \<notin> {200, 206} \<and> (bytes_asked rg d = [] \<or> \<not> L s (bkey key) \<or> \<not> L s (ob_key (bkey key))))"
proof -
  obtain spec where spec: "parse_range (range_text rg) = Some spec" using parse_range_text [OF h(2)] by blast
  obtain s1 out where r: "read_range B ab (bkey key) (Some spec) False s = (s1, out)" by fastforce
  have e: "s' = s1" "r = get_response out" using assms(2,6) r h(1) spec by (simp_all add: get_object_def)
  note kept = conjunct1 [OF conjunct2 [OF read_range_spec [OF assms(1) r]]]
  obtain s2 o1 where g: "bs_get B s (bkey key) = (s2, o1)" by fastforce
  have g1: "ok (Suc n) s2" "store_kept H L fine s s2" "case o1 of Inr d \<Rightarrow> H s (bkey key) d | Inl e \<Rightarrow> \<not> L s (bkey key)"
    using store_read [OF assms(1), of "bkey key"] store_get [OF assms(1), of "bkey key"] by (cases o1; auto simp: g)+
  show ?thesis
  proof (cases o1)
    case (Inl er)
    then have "out = Inl er" using r by (simp add: read_range_def g)
    then show ?thesis using e kept g1(3) Inl by simp
  next
    case (Inr b)
    then have b: "o1 = Inr d" using g1(3) assms(3) by simp
    obtain s3 o2 where g': "bs_get B s2 (ob_key (bkey key)) = (s3, o2)" by fastforce
    have g2: "case o2 of Inr ob \<Rightarrow> ob = make_outboard ab d | Inl e \<Rightarrow> \<not> L s (ob_key (bkey key))"
      using store_get [OF g1(1), of "ob_key (bkey key)"] g1(2) assms(4) by (cases o2) (auto simp: g' store_kept_def)
    from range_bounds_asked [OF h(2) spec, of d] show ?thesis
    proof (elim disjE conjE exE)
      fix er assume "range_bounds (Some spec) False (length d) = Inl er" "bytes_asked rg d = []"
      moreover from this have "out = Inl er" using r by (simp add: read_range_def g b)
      ultimately show ?thesis using e kept by simp
    next
      fix en assume a: "range_bounds (Some spec) False (length d) = Inr (Some (first_asked rg (length d), en))" "bytes_asked rg d \<noteq> []"
        "first_asked rg (length d) \<le> en" "en = first_asked rg (length d) + length (bytes_asked rg d) - 1"
        "bytes_asked rg d = bslice d (first_asked rg (length d)) (en + 1)"
      let ?st = "first_asked rg (length d)" and ?len = "en - first_asked rg (length d) + 1"
      have len: "?st + ?len = en + 1" using a(3) by linarith
      have "verified_slice ab d (make_outboard ab d) ?st ?len = Inr (bslice d ?st (?st + ?len))"
        by (rule verified_slice_intact [OF assms(5)]) simp
      then have v: "verified_slice ab d (make_outboard ab d) ?st ?len = Inr (bytes_asked rg d)" unfolding len a(5) .
      have out: "out = (case o2 of Inr ob \<Rightarrow> (case verified_slice ab d ob ?st ?len of Inl e \<Rightarrow> Inl e | Inr v \<Rightarrow> Inr (Range v (content_range ?st en (length d)) True))
          | Inl er \<Rightarrow> if er = NotFound then Inr (Range (bytes_asked rg d) (content_range ?st en (length d)) False) else Inl er)"
        using r a(1) unfolding a(5) by (auto simp: read_range_def g g' b Let_def split: sum.splits)
      show ?thesis
      proof (cases o2)
        case (Inl er)
        then show ?thesis using out e kept a(2,4) g2 by simp
      next
        case (Inr ob)
        then have "out = Inr (Range (bytes_asked rg d) (content_range ?st en (length d)) True)" using out g2 v by simp
        then show ?thesis using e kept a(2,4) by simp
      qed
    qed
  qed
qed

end

section \<open>The layers\<close>

lemma s3_router_guarded:
  assumes "gc_auth G = Some cfg" "s3_router B G peer wall now rq (lm, s) = ((lm', s'), r)"
  shows "verify (gc_hash G) wall cfg (rq_method rq) (rq_path rq) (case rq_query rq of None \<Rightarrow> [] | Some q \<Rightarrow> q) (rq_headers rq)
      (hex (sh_sha256 (gc_hash G) (rq_body rq))) = Inr () \<and> (\<forall>L. lm = Some L \<longrightarrow> snd (limiter_check L (extract_ip (gc_parse_ip G) (gc_loopback G) (rq_headers rq) peer) now)) \<or>
    s' = s \<and> rs_status r \<in> {403, 429}"
proof -
  have mw: "verify (gc_hash G) wall cfg (rq_method rq) (rq_path rq) (case rq_query rq of None \<Rightarrow> [] | Some q \<Rightarrow> q) (rq_headers rq)
      (hex (sh_sha256 (gc_hash G) (rq_body rq))) = Inr () \<or> s2 = s \<and> rs_status x = 403"
    if "sigv4_mw (gc_hash G) wall cfg rq run s = (s2, x)" for run s2 x
    using that by (auto simp: sigv4_mw_def s3_error_def split: if_splits sum.splits)
  show ?thesis
  proof (cases lm)
    case None
    then show ?thesis using assms mw by (auto simp: s3_router_def Let_def split: prod.splits)
  next
    case (Some L)
    obtain L2 a where c: "limiter_check L (extract_ip (gc_parse_ip G) (gc_loopback G) (rq_headers rq) peer) now = (L2, a)" by fastforce
    then show ?thesis using assms mw Some
      by (cases a) (auto simp: s3_router_def Let_def rate_limit_mw_def too_many_def split: prod.splits)
  qed
qed

section \<open>Properties\<close>

text \<open>C11: over a mirrored pool without faults an acknowledged PUT of a body (the only one ever stored under its key) is answered by every GET with
  status 200 and that body, and after an acknowledged DELETE no GET answers a body.\<close>

theorem s3_object_lifecycle:
  assumes "engine_laws EE" and "disk_pool EE pol xxh3 PE" and "mirror_cfg (pe_cfg PE)" and "0 < pc_write_quorum (pe_cfg PE)"
    and "pool_room EE 2 p" and "pool_fine p" and "fits (bkey key) d" and "\<And>b. pool_holds EE p (bkey key) b \<Longrightarrow> b = d"
    and "header_str h ''range'' = None" and "\<not> wants_bao h"
    and "put_object (pool_store PE) key d p = (p1, r1)" and "rs_status r1 = 200" and "get_object (pool_store PE) ab key h p1 = (p2, r2)"
    and "delete_object (pool_store PE) key p2 = (p3, r3)" and "rs_status r3 = 204" and "get_object (pool_store PE) ab key h p3 = (p4, r4)"
  shows "rs_status r2 = 200 \<and> rs_body r2 = d \<and> rs_status r4 \<notin> {200, 206}"
  by (rule listed_store.object_lifecycle [OF pool_listed_store [OF assms(1-4)] _ assms(6,7) _ assms(9-16)])
    (use assms(5,8) in \<open>auto simp: numeral_2_eq_2\<close>)

lemma ref_pool_put:
  assumes "fits k b"
  shows "\<exists>p1. pool_put ref_pool_env k b ref_pool = (p1, Inr ())"
proof -
  let ?reps = "snd (replicas_for ref_pool_env k ref_pool)"
  obtain p1 r where put: "pool_put ref_pool_env k b ref_pool = (p1, r)" by fastforce
  have ok: "pool_ok (engine_ok ref_env) (length (po_shards ref_pool)) ref_pool" by (rule ref_pool_ok) (simp add: ref_pool_fields)
  from mirror_put_placed [OF ref_env.engine_laws_axioms ref_disk_pool ref_pool_fields(5,3) ok assms put, unfolded Let_def] obtain S where
    S: "S \<subseteq> {0..<length (po_shards ref_pool)}" "isl r \<longleftrightarrow> ?reps = [] \<or> card S < min (pc_write_quorum (pe_cfg ref_pool_env)) (length ?reps)"
      "\<forall>i \<in> set ?reps - S. \<not> engine_fine (po_shards ref_pool ! i)" by blast
  have "distinct ?reps"
    using ref_pool.ranking_step(2) [OF ref_pool_ok [of 0]] unfolding replicas_for_def by (metis le0 prod.collapse)
  then have "card (set ?reps) = 2" using ref_pool_reps(1) distinct_card by metis
  moreover have "set ?reps \<subseteq> S"
    using S(3) ref_pool_all_fine ref_pool_reps(2) [of k] by (force simp: ref_pool_fields(1))
  ultimately have "2 \<le> card S" using card_mono [of S] finite_subset [OF S(1)] by (metis finite_atLeastLessThan)
  then have "\<not> isl r" using S(2) ref_pool_reps(1) [of k] by (auto simp: ref_pool_fields(6))
  then show ?thesis using put by (cases r) auto
qed

lemma sample_bkey: "bkey ''K'' = [0x2F, 0x4B]" "fits (bkey ''K'') [1, 2, 3]"
proof -
  show "bkey ''K'' = [0x2F, 0x4B]" by code_simp
  then show "fits (bkey ''K'') [1, 2, 3]" by (simp add: fits_def)
qed

theorem s3_object_lifecycle_witness:
  "\<exists>p1 r1 p2 r2. put_object (pool_store ref_pool_env) ''K'' [1, 2, 3] ref_pool = (p1, r1) \<and> rs_status r1 = 200 \<and>
     get_object (pool_store ref_pool_env) tiny_abao ''K'' [] p1 = (p2, r2) \<and> rs_status r2 = 200 \<and> rs_body r2 = [1, 2, 3]"
proof -
  obtain p1 where "pool_put ref_pool_env (bkey ''K'') [1, 2, 3] ref_pool = (p1, Inr ())" using ref_pool_put [OF sample_bkey(2)] by blast
  then have put: "put_object (pool_store ref_pool_env) ''K'' [1, 2, 3] ref_pool = (p1, \<lparr>rs_status = 200, rs_headers = [(''etag'', in_quotes ''ozd'')], rs_body = []\<rparr>)"
    by (simp add: put_object_def pool_store_def)
  obtain p2 r2 where get: "get_object (pool_store ref_pool_env) tiny_abao ''K'' [] p1 = (p2, r2)" by fastforce
  obtain p3 where "pool_delete ref_pool_env (bkey ''K'') p2 = (p3, Inr ())"
    by (simp add: pool_delete_def Let_def ref_pool_fields)
  then have del: "delete_object (pool_store ref_pool_env) ''K'' p2 = (p3, \<lparr>rs_status = 204, rs_headers = [], rs_body = []\<rparr>)"
    by (simp add: delete_object_def pool_store_def)
  obtain p4 r4 where "get_object (pool_store ref_pool_env) tiny_abao ''K'' [] p3 = (p4, r4)" by fastforce
  from s3_object_lifecycle [OF ref_env.engine_laws_axioms ref_disk_pool ref_pool_fields(5) _ _ ref_pool_store(2) sample_bkey(2) _ _ _ put _ get del _ this]
  have "rs_status r2 = 200 \<and> rs_body r2 = [1, 2, 3]"
    using ref_pool_store(1,3) ref_store.store_mono [of 100 ref_pool 2] by (simp add: ref_pool_fields header_str_def wants_bao_def)
  with put get show ?thesis by auto
qed

text \<open>C14: reads by range are exact: over a mirrored pool that has one body for the key, and no outboard for it but its own, a GET (that does not ask for
  a \<open>bao\<close> slice) of a well-formed range \<open>bytes=a-b\<close>, \<open>bytes=a-\<close> or \<open>bytes=-n\<close> answers 206 with exactly the bytes of that range and the Content-Range that
  names the first and the last of them, and one without a range answers 200 with the whole body. Otherwise it answers an error: when the range has
  no byte, or when no fault-free shard has the body or, for a range, its outboard. No body in the store changes.\<close>

theorem s3_get_exact:
  assumes "engine_laws EE" and "disk_pool EE pol xxh3 PE" and "mirror_cfg (pe_cfg PE)" and "0 < pc_write_quorum (pe_cfg PE)"
    and "pool_room EE 1 p" and "get_object (pool_store PE) ab key h p = (p', r)" and "\<And>b. pool_holds EE p (bkey key) b \<Longrightarrow> b = d"
    and "\<And>ob. pool_holds EE p (ob_key (bkey key)) ob \<Longrightarrow> ob = make_outboard ab d" and "abao_contract ab {d}" and "\<not> wants_bao h"
    and "header_str h ''range'' = map_option range_text asked" and "\<And>rg. asked = Some rg \<Longrightarrow> well_formed rg"
  shows "pool_holds EE p' = pool_holds EE p \<and>
    (case asked of
       None \<Rightarrow> rs_status r = 200 \<and> rs_body r = d \<or> rs_status r \<notin> {200, 206} \<and> \<not> pool_live EE p (bkey key)
     | Some rg \<Rightarrow> rs_status r = 206 \<and> bytes_asked rg d \<noteq> [] \<and> rs_body r = bytes_asked rg d \<and>
           map_of (rs_headers r) ''content-range'' = Some (''bytes '' @ show_nat (first_asked rg (length d)) @ ''-'' @
             show_nat (first_asked rg (length d) + length (bytes_asked rg d) - 1) @ ''/'' @ show_nat (length d)) \<or>
         rs_status r \<notin> {200, 206} \<and> (bytes_asked rg d = [] \<or> \<not> pool_live EE p (bkey key) \<or> \<not> pool_live EE p (ob_key (bkey key))))"
proof (cases asked)
  case None
  then show ?thesis
    using listed_store.get_object_full [OF pool_listed_store [OF assms(1-4)], of 0 p ab key h p' r] assms(5-7,10,11)
    by (auto simp: store_kept_def)
next
  case (Some rg)
  then show ?thesis
    using listed_store.get_object_exact [OF pool_listed_store [OF assms(1-4)], of 0 p ab key h p' r d rg] assms(5-12)
    by (simp add: store_kept_def content_range_def)
qed

theorem s3_get_exact_witness:
  "\<exists>p' r. get_object (pool_store ref_pool_env) tiny_abao ''K'' [(''range'', ''bytes=1-7'')]
       (pool_pair (bkey ''K'') [1, 2, 3] (ob_key (bkey ''K'')) (make_outboard tiny_abao [1, 2, 3])) = (p', r) \<and>
     rs_status r = 206 \<and> rs_body r = [2, 3] \<and> map_of (rs_headers r) ''content-range'' = Some ''bytes 1-2/3''"
proof -
  let ?ob = "make_outboard tiny_abao [1, 2, 3]"
  let ?p = "pool_pair (bkey ''K'') [1, 2, 3] (ob_key (bkey ''K'')) ?ob" and ?h = "[(''range'', ''bytes=1-7'')]"
  have fit: "fits (ob_key (bkey ''K'')) ?ob" by (simp add: sample_bkey(1) ob_key_def OB_PREFIX_def make_outboard_def tiny_abao_def fits_def)
  have ne: "bkey ''K'' \<noteq> ob_key (bkey ''K'')" by (simp add: ob_key_def OB_PREFIX_def)
  note ps = pool_pair_store [OF sample_bkey(2) fit ne]
  have rg: "range_text (Between 1 7) = ''bytes=1-7''" "well_formed (Between 1 7)" "header_str ?h ''range'' = Some ''bytes=1-7''" "\<not> wants_bao ?h"
    by code_simp+
  have c: "abao_contract tiny_abao {[1, 2, 3]}" using tiny_contract by (auto simp: abao_contract_def)
  obtain p' r where g: "get_object (pool_store ref_pool_env) tiny_abao ''K'' ?h ?p = (p', r)" by fastforce
  have "case Some (Between 1 7) of
       None \<Rightarrow> rs_status r = 200 \<and> rs_body r = [1, 2, 3] \<or> rs_status r \<notin> {200, 206} \<and> \<not> pool_live ref_env ?p (bkey ''K'')
     | Some rg \<Rightarrow> rs_status r = 206 \<and> bytes_asked rg [1, 2, 3] \<noteq> [] \<and> rs_body r = bytes_asked rg [1, 2, 3] \<and>
           map_of (rs_headers r) ''content-range'' = Some (''bytes '' @ show_nat (first_asked rg (length [1, 2, 3 :: byte])) @ ''-'' @
             show_nat (first_asked rg (length [1, 2, 3 :: byte]) + length (bytes_asked rg [1, 2, 3]) - 1) @ ''/'' @ show_nat (length [1, 2, 3 :: byte])) \<or>
         rs_status r \<notin> {200, 206} \<and> (bytes_asked rg [1, 2, 3] = [] \<or> \<not> pool_live ref_env ?p (bkey ''K'') \<or> \<not> pool_live ref_env ?p (ob_key (bkey ''K'')))"
  proof (rule conjunct2 [OF s3_get_exact [OF ref_env.engine_laws_axioms ref_disk_pool ref_pool_fields(5) _ _ g _ _ c rg(4)]])
    show "pool_room ref_env 1 ?p" by (rule ps(3)) (use fit ne in simp_all)
  qed (use ps(1) fit ne rg in \<open>auto simp: ref_pool_fields\<close>)
  moreover have "''bytes '' @ show_nat 1 @ ''-'' @ show_nat 2 @ ''/'' @ show_nat 3 = ''bytes 1-2/3''" by code_simp
  ultimately show ?thesis using g ps(4) \<open>fits (ob_key (bkey ''K'')) ?ob\<close> ne by (simp add: numeral_2_eq_2 numeral_3_eq_3)
qed

text \<open>C13: listing loses and repeats nothing: on a mirrored pool without faults, whose keys under the prefix are UTF-8 text, a client that asks for pages
  of any size from 1 to 10000 and follows the continuation tokens gets exactly the keys under its prefix, in their order, after at most one page
  more than there are keys.\<close>

theorem s3_listing_complete:
  assumes "engine_laws EE" and "disk_pool EE pol xxh3 PE" and "mirror_cfg (pe_cfg PE)" and "0 < pc_write_quorum (pe_cfg PE)"
    and "pool_room EE 0 p" and "pool_fine p" and "1 \<le> N" and "N \<le> 10000"
    and "\<And>k. k \<in> stored_keys (pool_holds EE) p (str_bytes (slash_prefix pre)) None \<Longrightarrow> utf8_lossy k = k"
    and "card (stored_keys (pool_holds EE) p (str_bytes (slash_prefix pre)) None) < pages"
  shows "\<exists>p'. follow_pages (pool_store PE) pre N pages None p = (p', Some (sorted_list_of_set (stored_keys (pool_holds EE) p (str_bytes (slash_prefix pre)) None)))"
  using listed_store.follow_pages_all [OF pool_listed_store [OF assms(1-4)] assms(5-8), of None pre pages] assms(9,10) by simp

theorem s3_listing_complete_witness:
  "\<exists>p'. follow_pages (pool_store ref_pool_env) [] 1 3 None (pool_pair (bkey ''L'') [4, 5] (bkey ''K'') [1, 2, 3]) = (p', Some [bkey ''K'', bkey ''L''])"
proof -
  have L: "bkey ''L'' = [0x2F, 0x4C]" by code_simp
  then have "fits (bkey ''L'') [4, 5]" "bkey ''L'' \<noteq> bkey ''K''" by (simp_all add: sample_bkey(1) fits_def)
  note ps = pool_pair_store [OF this(1) sample_bkey(2) this(2)]
  have pre: "starts_with (bkey ''K'') (str_bytes (slash_prefix []))" "starts_with (bkey ''L'') (str_bytes (slash_prefix []))" by code_simp+
  have s: "stored_keys (pool_holds ref_env) (pool_pair (bkey ''L'') [4, 5] (bkey ''K'') [1, 2, 3]) (str_bytes (slash_prefix [])) None = {bkey ''K'', bkey ''L''}"
    using pre by (auto simp: stored_keys_def ps(1))
  have u: "utf8_lossy (bkey ''K'') = bkey ''K''" "utf8_lossy (bkey ''L'') = bkey ''L''"
    unfolding sample_bkey L by (subst utf8_lossy.simps; simp add: utf8_chunk_def)+
  have "bkey ''K'' < bkey ''L''" by (simp add: sample_bkey(1) L)
  then have l: "sorted_list_of_set {bkey ''K'', bkey ''L''} = [bkey ''K'', bkey ''L'']" "card {bkey ''K'', bkey ''L''} = 2"
    by (auto intro!: sorted_list_of_set_unique [THEN iffD1])
  have "\<exists>p'. follow_pages (pool_store ref_pool_env) [] 1 3 None (pool_pair (bkey ''L'') [4, 5] (bkey ''K'') [1, 2, 3]) =
      (p', Some (sorted_list_of_set (stored_keys (pool_holds ref_env) (pool_pair (bkey ''L'') [4, 5] (bkey ''K'') [1, 2, 3]) (str_bytes (slash_prefix [])) None)))"
    by (rule s3_listing_complete [OF ref_env.engine_laws_axioms ref_disk_pool ref_pool_fields(5) _ ps(3,2)]) (use u l(2) in \<open>auto simp: ref_pool_fields s\<close>)
  then show ?thesis unfolding s l(1) .
qed

text \<open>C15: with authentication on, a request reaches the store only if its signature verifies (over the SHA-256 of the body it carries) and its
  address is within its rate; otherwise the store is as before and the status is 403 or 429.\<close>

theorem s3_router_guards:
  assumes "gc_auth G = Some cfg" and "s3_router B G peer wall now rq (lm, s) = ((lm', s'), r)"
  shows "verify (gc_hash G) wall cfg (rq_method rq) (rq_path rq) (case rq_query rq of None \<Rightarrow> [] | Some q \<Rightarrow> q) (rq_headers rq)
      (hex (sh_sha256 (gc_hash G) (rq_body rq))) = Inr () \<and> (\<forall>L. lm = Some L \<longrightarrow> snd (limiter_check L (extract_ip (gc_parse_ip G) (gc_loopback G) (rq_headers rq) peer) now)) \<or>
    s' = s \<and> rs_status r \<in> {403, 429}"
  by (rule s3_router_guarded [OF assms])

definition sample_gateway :: "nat gateway_config" where
  "sample_gateway = \<lparr>gc_auth = Some (sigv4_config_new ''AK'' ''secret''), gc_hash = sample_hash, gc_abao = tiny_abao,
     gc_parse_ip = (\<lambda>s. parse_unsigned 32 s), gc_loopback = 0\<rparr>"

definition sample_anonymous :: request where
  "sample_anonymous = \<lparr>rq_method = ''DELETE'', rq_path = ''/kubo/K'', rq_query = None, rq_headers = [], rq_body = [], rq_params = Map.empty,
     rq_endpoint = DeleteObject ''K''\<rparr>"

theorem s3_router_guards_witness:
  "\<exists>r lm'. s3_router (pool_store ref_pool_env) sample_gateway (Some 1) 0 0 sample_anonymous (Some (limiter_new 5), ref_pool) = ((lm', ref_pool), r) \<and>
     rs_status r \<in> {403, 429}"
proof -
  obtain lm' s' r where g: "s3_router (pool_store ref_pool_env) sample_gateway (Some 1) 0 0 sample_anonymous (Some (limiter_new 5), ref_pool) = ((lm', s'), r)"
    by (metis prod.exhaust)
  have a: "gc_auth sample_gateway = Some (sigv4_config_new ''AK'' ''secret'')" by (simp add: sample_gateway_def)
  have "verify C w cfg m p q (rq_headers sample_anonymous) b \<noteq> Inr ()" for C w cfg m p q b
    by (simp add: verify_def sample_anonymous_def header_str_def)
  with s3_router_guards [OF a g] g show ?thesis by auto
qed

end
