(* ===== verification/Zfs.thy ===== *)
theory Zfs
  imports Rust_Text
begin

text \<open>
  The adapter to ZFS (\<open>ozd-zfs\<close>): the parsers of \<open>zpool status\<close> and \<open>zfs get\<close>, typed properties with their sources, the runner port,
  and the operations on one pool. A runner is a function on a state of the world; the commands themselves are not modelled. \<open>f64\<close> values
  are exact rationals besides the infinities and NaN, sums of \<open>u64\<close> wrap.
\<close>

section \<open>Text\<close>

text \<open>\<open>str::lines\<close>: a final line without newline counts if it is not empty, a carriage return before a newline belongs to the line end.\<close>

definition strip_cr :: "string \<Rightarrow> string" where
  "strip_cr s = (if s \<noteq> [] \<and> last s = CHR 0x0D then butlast s else s)"

definition lines_of :: "string \<Rightarrow> string list" where
  "lines_of s =
     (let ps = split_on CHR 0x0A s in map strip_cr (butlast ps) @ (if last ps = [] then [] else [last ps]))"

fun contains :: "string \<Rightarrow> string \<Rightarrow> bool" where
  "contains [] p \<longleftrightarrow> p = []"
| "contains (c # s) p \<longleftrightarrow> starts_with (c # s) p \<or> contains s p"

text \<open>The text before the first occurrence of a pattern.\<close>

fun before :: "string \<Rightarrow> string \<Rightarrow> string" where
  "before p [] = []"
| "before p (c # s) = (if starts_with (c # s) p then [] else c # before p s)"

definition trim_end_chars :: "char set \<Rightarrow> string \<Rightarrow> string" where
  "trim_end_chars cs s = rev (dropWhile (\<lambda>c. c \<in> cs) (rev s))"

definition ends_with :: "string \<Rightarrow> char \<Rightarrow> bool" where
  "ends_with s c \<longleftrightarrow> s \<noteq> [] \<and> last s = c"

text \<open>\<open>str::parse::<f64>\<close>, without rounding.\<close>

datatype f64 = Fin rat | Inf bool | NaN

definition digits_nat :: "string \<Rightarrow> nat" where
  "digits_nat s = fold (\<lambda>c n. 10 * n + digit_value c) s 0"

definition exponent_of :: "string \<Rightarrow> int option" where
  "exponent_of r =
     (case r of
        [] \<Rightarrow> Some 0
      | c # t \<Rightarrow>
          if c \<noteq> CHR ''e'' \<and> c \<noteq> CHR ''E'' then None
          else
            let neg = (t \<noteq> [] \<and> hd t = CHR ''-'');
                d = (if t \<noteq> [] \<and> (hd t = CHR ''-'' \<or> hd t = CHR ''+'') then tl t else t) in
            if d = [] \<or> \<not> list_all is_digit d then None else Some (if neg then - int (digits_nat d) else int (digits_nat d)))"

definition power10 :: "int \<Rightarrow> rat" where
  "power10 e = (if 0 \<le> e then 10 ^ nat e else 1 / 10 ^ nat (- e))"

definition decimal_value :: "string \<Rightarrow> rat option" where
  "decimal_value s =
     (let ip = takeWhile is_digit s; r = dropWhile is_digit s;
          fp = (case r of c # t \<Rightarrow> if c = CHR ''.'' then takeWhile is_digit t else [] | [] \<Rightarrow> []);
          r = (case r of c # t \<Rightarrow> if c = CHR ''.'' then dropWhile is_digit t else r | [] \<Rightarrow> []) in
      if ip = [] \<and> fp = [] then None
      else map_option (\<lambda>e. of_nat (digits_nat (ip @ fp)) * power10 (e - int (length fp))) (exponent_of r))"

definition parse_f64 :: "string \<Rightarrow> f64 option" where
  "parse_f64 s =
     (let neg = (s \<noteq> [] \<and> hd s = CHR ''-'');
          t = (if s \<noteq> [] \<and> (hd s = CHR ''-'' \<or> hd s = CHR ''+'') then tl s else s);
          l = to_lower t in
      if l = ''inf'' \<or> l = ''infinity'' then Some (Inf neg)
      else if l = ''nan'' then Some NaN
      else map_option (\<lambda>q. Fin (if neg then - q else q)) (decimal_value t))"

text \<open>The cast \<open>as u64\<close> saturates.\<close>

fun f64_as_u64 :: "f64 \<Rightarrow> nat" where
  "f64_as_u64 (Fin q) = min (nat \<lfloor>q\<rfloor>) (2 ^ 64 - 1)"
| "f64_as_u64 (Inf neg) = (if neg then 0 else 2 ^ 64 - 1)"
| "f64_as_u64 NaN = 0"

definition add64 :: "nat \<Rightarrow> nat \<Rightarrow> nat" where
  "add64 a b = (a + b) mod 2 ^ 64"

section \<open>zpool status\<close>

datatype pool_state = ONLINE | DEGRADED | FAULTED | OFFLINE | UNAVAIL | REMOVED | UNKNOWN

definition pool_state_parse :: "string \<Rightarrow> pool_state" where
  "pool_state_parse s =
     (if s = ''ONLINE'' then ONLINE else if s = ''DEGRADED'' then DEGRADED else if s = ''FAULTED'' then FAULTED
      else if s = ''OFFLINE'' then OFFLINE else if s = ''UNAVAIL'' then UNAVAIL else if s = ''REMOVED'' then REMOVED else UNKNOWN)"

fun pool_state_text :: "pool_state \<Rightarrow> string" where
  "pool_state_text ONLINE = ''ONLINE''"
| "pool_state_text DEGRADED = ''DEGRADED''"
| "pool_state_text FAULTED = ''FAULTED''"
| "pool_state_text OFFLINE = ''OFFLINE''"
| "pool_state_text UNAVAIL = ''UNAVAIL''"
| "pool_state_text REMOVED = ''REMOVED''"
| "pool_state_text UNKNOWN = ''UNKNOWN''"

record device_status =
  dv_name :: string
  dv_state :: pool_state
  dv_read_errors :: nat
  dv_write_errors :: nat
  dv_cksum_errors :: nat

record scrub_info =
  si_in_progress :: bool
  si_percent_done :: "f64 option"
  si_raw :: string

definition scrub_info_default :: scrub_info where
  "scrub_info_default = \<lparr>si_in_progress = False, si_percent_done = None, si_raw = []\<rparr>"

record pool_health =
  ph_pool :: string
  ph_state :: pool_state
  ph_devices :: "device_status list"
  ph_scrub :: scrub_info

definition total_errors :: "pool_health \<Rightarrow> nat \<times> nat \<times> nat" where
  "total_errors h =
     foldl (\<lambda>(r, w, c) d. (add64 r (dv_read_errors d), add64 w (dv_write_errors d), add64 c (dv_cksum_errors d))) (0, 0, 0) (ph_devices h)"

definition pool_is_healthy :: "pool_health \<Rightarrow> bool" where
  "pool_is_healthy h \<longleftrightarrow> ph_state h = ONLINE \<and>
     list_all (\<lambda>d. dv_state d = ONLINE \<and> dv_read_errors d = 0 \<and> dv_write_errors d = 0 \<and> dv_cksum_errors d = 0) (ph_devices h)"

record status_parse = pool_health +
  sp_in_config :: bool
  sp_in_scan :: bool

definition status_parse_start :: status_parse where
  "status_parse_start = \<lparr>ph_pool = [], ph_state = UNKNOWN, ph_devices = [], ph_scrub = scrub_info_default, sp_in_config = False, sp_in_scan = False\<rparr>"

text \<open>A continuation line of the scan entry.\<close>

definition scan_line :: "string \<Rightarrow> scrub_info \<Rightarrow> scrub_info" where
  "scan_line t sc =
     (let sc = sc\<lparr>si_raw := si_raw sc @ '' '' @ t\<rparr> in
      case find (\<lambda>w. ends_with w CHR ''%'') (split_ws t) of
        None \<Rightarrow> sc
      | Some p \<Rightarrow>
          (case parse_f64 (trim_end_chars {CHR '',''} (trim_end_chars {CHR ''%''} p)) of
             None \<Rightarrow> sc
           | Some f \<Rightarrow> sc\<lparr>si_percent_done := Some f\<rparr>))"

text \<open>A row of the table of devices.\<close>

definition device_line :: "string \<Rightarrow> device_status option" where
  "device_line t =
     (let cols = split_ws t; p = (\<lambda>s. case parse_unsigned 64 s of Some n \<Rightarrow> n | None \<Rightarrow> 0) in
      if length cols < 5 then None
      else
        let st = pool_state_parse (cols ! 1) in
        if st = UNKNOWN \<and> cols ! 1 \<noteq> ''UNKNOWN'' then None
        else Some \<lparr>dv_name = cols ! 0, dv_state = st, dv_read_errors = p (cols ! 2), dv_write_errors = p (cols ! 3), dv_cksum_errors = p (cols ! 4)\<rparr>)"

definition table_line :: "string \<Rightarrow> status_parse \<Rightarrow> status_parse" where
  "table_line t h =
     (if starts_with t ''config:'' then h\<lparr>sp_in_config := True, sp_in_scan := False\<rparr>
      else if starts_with t ''errors:'' then h\<lparr>sp_in_config := False\<rparr>
      else if \<not> sp_in_config h then h
      else if t = [] \<or> starts_with t ''NAME'' then h
      else case device_line t of None \<Rightarrow> h | Some d \<Rightarrow> h\<lparr>ph_devices := ph_devices h @ [d]\<rparr>)"

definition status_line :: "status_parse \<Rightarrow> string \<Rightarrow> status_parse" where
  "status_line h line =
     (let t = trim line in
      case strip_prefix ''pool:'' t of
        Some v \<Rightarrow> h\<lparr>ph_pool := trim v\<rparr>
      | None \<Rightarrow>
          (case strip_prefix ''state:'' t of
             Some v \<Rightarrow> h\<lparr>ph_state := pool_state_parse (trim v)\<rparr>
           | None \<Rightarrow>
               (case strip_prefix ''scan:'' t of
                  Some v \<Rightarrow> h\<lparr>sp_in_scan := True, ph_scrub := (ph_scrub h)\<lparr>si_raw := trim v,
                    si_in_progress := si_in_progress (ph_scrub h) \<or> contains v ''scrub in progress''\<rparr>\<rparr>
                | None \<Rightarrow>
                    if sp_in_scan h \<and> \<not> sp_in_config h \<and> \<not> starts_with t ''config:'' \<and> t \<noteq> [] then
                      h\<lparr>ph_scrub := scan_line t (ph_scrub h)\<rparr>
                    else table_line t h)))"

definition parse_zpool_status :: "string \<Rightarrow> pool_health option" where
  "parse_zpool_status output =
     (let h = foldl status_line status_parse_start (lines_of output) in
      if ph_pool h = [] \<and> ph_devices h = [] then None else Some (pool_health.truncate h))"

definition capacity_line :: "nat option \<times> nat option \<Rightarrow> string \<Rightarrow> nat option \<times> nat option" where
  "capacity_line ua line =
     (case split_ws line of
        k # v # _ \<Rightarrow>
          if k = ''used'' then (parse_unsigned 64 v, snd ua)
          else if k = ''available'' then (fst ua, parse_unsigned 64 v) else ua
      | _ \<Rightarrow> ua)"

definition parse_zfs_capacity :: "string \<Rightarrow> (nat \<times> nat) option" where
  "parse_zfs_capacity output =
     (case foldl capacity_line (None, None) (lines_of output) of (Some used, Some avail) \<Rightarrow> Some (used, avail) | _ \<Rightarrow> None)"

section \<open>Properties with their sources\<close>

datatype property_source =
    Local
  | Default
  | Inherited string
  | NoSource
  | Other string

definition property_source_parse :: "string \<Rightarrow> property_source" where
  "property_source_parse s =
     (if s = ''local'' then Local else if s = ''default'' then Default else if s = ''-'' then NoSource
      else case strip_prefix ''inherited from '' s of Some f \<Rightarrow> Inherited f | None \<Rightarrow> Other s)"

record property =
  pr_value :: string
  pr_source :: property_source

type_synonym properties = "string \<rightharpoonup> property"

definition property_line :: "properties \<Rightarrow> string \<Rightarrow> properties" where
  "property_line m line =
     (let cols = split_on CHR 0x09 line in
      if 3 \<le> length cols then m(cols ! 0 \<mapsto> \<lparr>pr_value = cols ! 1, pr_source = property_source_parse (cols ! 2)\<rparr>) else m)"

definition properties_parse :: "string \<Rightarrow> properties" where
  "properties_parse output = foldl property_line Map.empty (lines_of output)"

definition prop_string :: "properties \<Rightarrow> string \<Rightarrow> string option" where
  "prop_string m name = (case m name of None \<Rightarrow> None | Some p \<Rightarrow> if pr_value p \<noteq> ''-'' then Some (pr_value p) else None)"

definition iec_mult :: "string \<Rightarrow> nat option" where
  "iec_mult s =
     (if s = '''' then Some 1 else if s = ''K'' \<or> s = ''k'' then Some (2 ^ 10) else if s = ''M'' \<or> s = ''m'' then Some (2 ^ 20)
      else if s = ''G'' \<or> s = ''g'' then Some (2 ^ 30) else if s = ''T'' \<or> s = ''t'' then Some (2 ^ 40)
      else if s = ''P'' \<or> s = ''p'' then Some (2 ^ 50) else None)"

fun f64_times :: "f64 \<Rightarrow> nat \<Rightarrow> f64" where
  "f64_times (Fin q) n = Fin (q * of_nat n)"
| "f64_times x n = x"

definition parse_size :: "string \<Rightarrow> nat option" where
  "parse_size s =
     (let s = trim s in
      case parse_unsigned 64 s of
        Some v \<Rightarrow> Some v
      | None \<Rightarrow>
          let digits = takeWhile (\<lambda>c. is_digit c \<or> c = CHR ''.'') s;
              suff = trim_end_chars {CHR ''B'', CHR ''b'', CHR ''i''} (trim (drop (length digits) s)) in
          case iec_mult suff of
            None \<Rightarrow> None
          | Some mult \<Rightarrow> map_option (\<lambda>x. f64_as_u64 (f64_times x mult)) (parse_f64 digits))"

definition prop_bytes :: "properties \<Rightarrow> string \<Rightarrow> nat option" where
  "prop_bytes m name = Option.bind (prop_string m name) parse_size"

definition prop_percent :: "properties \<Rightarrow> string \<Rightarrow> nat option" where
  "prop_percent m name = Option.bind (prop_string m name) (\<lambda>v. parse_unsigned 64 (trim_end_chars {CHR ''%''} v))"

definition prop_ratio :: "properties \<Rightarrow> string \<Rightarrow> f64 option" where
  "prop_ratio m name = Option.bind (prop_string m name) (\<lambda>v. parse_f64 (trim_end_chars {CHR ''x''} v))"

definition prop_bool :: "properties \<Rightarrow> string \<Rightarrow> bool option" where
  "prop_bool m name = map_option (\<lambda>v. v = ''on'' \<or> v = ''enabled'' \<or> v = ''yes'') (prop_string m name)"

definition prop_source :: "properties \<Rightarrow> string \<Rightarrow> property_source option" where
  "prop_source m name = map_option pr_source (m name)"

definition EXPECTED_TUNING :: "(string \<times> string) list" where
  "EXPECTED_TUNING = [(''recordsize'', ''1048576''), (''compression'', ''lz4''), (''atime'', ''off'')]"

record drift_issue =
  di_property :: string
  di_expected :: string
  di_actual :: string
  di_source :: property_source

definition drift_of :: "properties \<Rightarrow> string \<times> string \<Rightarrow> drift_issue list" where
  "drift_of m nw =
     (let actual = (case prop_string m (fst nw) of Some v \<Rightarrow> v | None \<Rightarrow> ''<absent>'');
          source = (case prop_source m (fst nw) of Some s \<Rightarrow> s | None \<Rightarrow> Other ''absent'') in
      if actual \<noteq> snd nw \<or> source \<noteq> Local
      then [\<lparr>di_property = fst nw, di_expected = snd nw, di_actual = actual, di_source = source\<rparr>] else [])"

definition audit_drift :: "properties \<Rightarrow> (string \<times> string) list \<Rightarrow> drift_issue list" where
  "audit_drift m expected = concat (map (drift_of m) expected)"

section \<open>Runners\<close>

record cmd_output =
  co_stdout :: string
  co_stderr :: string
  co_success :: bool

text \<open>A runner executes a program with arguments; \<open>Inl\<close> is the text of an input-output error.\<close>

type_synonym 'w runner = "string \<Rightarrow> string list \<Rightarrow> 'w \<Rightarrow> 'w \<times> (string + cmd_output)"

definition sudo_runner :: "'w runner \<Rightarrow> 'w runner" where
  "sudo_runner local_run program args = local_run ''sudo'' (''-n'' # program # args)"

text \<open>The runner of the tests: a queue of answers and a journal of calls.\<close>

record fake_world =
  fw_responses :: "cmd_output list"
  fw_calls :: "string list"

definition fake_new :: "cmd_output list \<Rightarrow> fake_world" where
  "fake_new responses = \<lparr>fw_responses = responses, fw_calls = []\<rparr>"

definition fake_ok :: "string \<Rightarrow> cmd_output" where
  "fake_ok out = \<lparr>co_stdout = out, co_stderr = [], co_success = True\<rparr>"

definition fake_fail :: "string \<Rightarrow> cmd_output" where
  "fake_fail err = \<lparr>co_stdout = [], co_stderr = err, co_success = False\<rparr>"

definition fake_run :: "fake_world runner" where
  "fake_run program args w =
     (let w = w\<lparr>fw_calls := fw_calls w @ [program @ '' '' @ join_with '' '' args]\<rparr> in
      case fw_responses w of
        [] \<Rightarrow> (w, Inl ''FakeRunner: no more queued responses'')
      | r # rs \<Rightarrow> (w\<lparr>fw_responses := rs\<rparr>, Inr r))"

section \<open>Operations on a pool\<close>

datatype zfs_error =
    ZNotFound string
  | CommandFailed string
  | ParseFailed
  | ZIo string

fun zfs_error_text :: "zfs_error \<Rightarrow> string" where
  "zfs_error_text (ZNotFound m) = ''zfs: not found: '' @ m"
| "zfs_error_text (CommandFailed m) = ''zfs command failed: '' @ m"
| "zfs_error_text ParseFailed = ''failed to parse zfs output''"
| "zfs_error_text (ZIo m) = ''zfs io: '' @ m"

definition clean_up_stderr :: "string \<Rightarrow> string" where
  "clean_up_stderr stderr =
     join_with '': '' (filter (\<lambda>l. l \<noteq> []) (map trim (lines_of (before (CHR 0x0A # ''usage:'') stderr))))"

definition NOT_FOUND_PATTERNS :: "string list" where
  "NOT_FOUND_PATTERNS = [''dataset does not exist'', ''parent does not exist'', ''no such pool'']"

record pool_metrics =
  pm_size :: nat
  pm_allocated :: nat
  pm_free :: nat
  pm_freeing :: nat
  pm_leaked :: nat
  pm_fragmentation_pct :: nat

definition pool_metrics_default :: pool_metrics where
  "pool_metrics_default = \<lparr>pm_size = 0, pm_allocated = 0, pm_free = 0, pm_freeing = 0, pm_leaked = 0, pm_fragmentation_pct = 0\<rparr>"

definition effective_free :: "pool_metrics \<Rightarrow> nat" where
  "effective_free m = add64 (pm_free m) (pm_freeing m)"

datatype identity_check =
    Initialized
  | Verified
  | Mismatch string string

record zfs_pool =
  zp_pool :: string
  zp_dataset :: string

definition zfs_run :: "'w runner \<Rightarrow> string \<Rightarrow> string list \<Rightarrow> 'w \<Rightarrow> 'w \<times> (zfs_error + string)" where
  "zfs_run R program args w =
     (case R program args w of
        (w, Inl e) \<Rightarrow> (w, Inl (ZIo (program @ '': '' @ e)))
      | (w, Inr out) \<Rightarrow>
          if \<not> co_success out then
            let clean = clean_up_stderr (co_stderr out) in
            if list_ex (contains clean) NOT_FOUND_PATTERNS then (w, Inl (ZNotFound clean))
            else (w, Inl (CommandFailed (program @ '' '' @ join_with '' '' args @ '': '' @ clean)))
          else (w, Inr (co_stdout out)))"

definition parsed :: "'a option \<Rightarrow> zfs_error + 'a" where
  "parsed x = (case x of None \<Rightarrow> Inl ParseFailed | Some v \<Rightarrow> Inr v)"

definition zfs_status :: "'w runner \<Rightarrow> zfs_pool \<Rightarrow> 'w \<Rightarrow> 'w \<times> (zfs_error + pool_health)" where
  "zfs_status R z w =
     and_then (zfs_run R ''zpool'' [''status'', ''-p'', zp_pool z] w) (\<lambda>out w. (w, parsed (parse_zpool_status out)))"

definition zfs_capacity :: "'w runner \<Rightarrow> zfs_pool \<Rightarrow> 'w \<Rightarrow> 'w \<times> (zfs_error + capacity)" where
  "zfs_capacity R z w =
     and_then (zfs_run R ''zfs'' [''get'', ''-Hp'', ''-o'', ''property,value'', ''used,available'', zp_dataset z] w) (\<lambda>out w.
     and_then (w, parsed (parse_zfs_capacity out)) (\<lambda>(used, avail) w.
     (w, Inr \<lparr>total_bytes = add64 used avail, free_bytes = avail\<rparr>)))"

definition metrics_line :: "pool_metrics \<Rightarrow> string \<Rightarrow> pool_metrics" where
  "metrics_line m line =
     (case split_ws line of
        k # v # _ \<Rightarrow>
          let n = (case parse_size (trim_end_chars {CHR ''%''} v) of Some n \<Rightarrow> n | None \<Rightarrow> 0) in
          if k = ''size'' then m\<lparr>pm_size := n\<rparr> else if k = ''allocated'' then m\<lparr>pm_allocated := n\<rparr>
          else if k = ''free'' then m\<lparr>pm_free := n\<rparr> else if k = ''freeing'' then m\<lparr>pm_freeing := n\<rparr>
          else if k = ''leaked'' then m\<lparr>pm_leaked := n\<rparr> else if k = ''fragmentation'' then m\<lparr>pm_fragmentation_pct := n\<rparr> else m
      | _ \<Rightarrow> m)"

definition zfs_pool_metrics :: "'w runner \<Rightarrow> zfs_pool \<Rightarrow> 'w \<Rightarrow> 'w \<times> (zfs_error + pool_metrics)" where
  "zfs_pool_metrics R z w =
     and_then (zfs_run R ''zpool'' [''get'', ''-Hp'', ''-o'', ''property,value'', ''size,allocated,free,freeing,leaked,fragmentation'', zp_pool z] w)
       (\<lambda>out w. (w, Inr (foldl metrics_line pool_metrics_default (lines_of out))))"

definition effective_capacity :: "'w runner \<Rightarrow> zfs_pool \<Rightarrow> 'w \<Rightarrow> 'w \<times> (zfs_error + capacity)" where
  "effective_capacity R z w =
     and_then (zfs_pool_metrics R z w) (\<lambda>m w. (w, Inr \<lparr>total_bytes = pm_size m, free_bytes = effective_free m\<rparr>))"

definition dataset_properties :: "'w runner \<Rightarrow> zfs_pool \<Rightarrow> 'w \<Rightarrow> 'w \<times> (zfs_error + properties)" where
  "dataset_properties R z w =
     and_then (zfs_run R ''zfs'' [''get'', ''-Hp'', ''-o'', ''property,value,source'', ''all'', zp_dataset z] w)
       (\<lambda>out w. (w, Inr (properties_parse out)))"

definition get_user_prop :: "'w runner \<Rightarrow> zfs_pool \<Rightarrow> string \<Rightarrow> 'w \<Rightarrow> 'w \<times> (zfs_error + string option)" where
  "get_user_prop R z name w =
     and_then (zfs_run R ''zfs'' [''get'', ''-Hp'', ''-o'', ''value'', name, zp_dataset z] w)
       (\<lambda>out w. let v = trim out in (w, Inr (if v = [] \<or> v = ''-'' then None else Some v)))"

definition set_user_props :: "'w runner \<Rightarrow> zfs_pool \<Rightarrow> (string \<times> string) list \<Rightarrow> 'w \<Rightarrow> 'w \<times> (zfs_error + unit)" where
  "set_user_props R z props w =
     and_then (zfs_run R ''zfs'' (''set'' # map (\<lambda>(k, v). k @ ''='' @ v) props @ [zp_dataset z]) w) (\<lambda>_ w. (w, Inr ()))"

definition ensure_identity :: "'w runner \<Rightarrow> zfs_pool \<Rightarrow> nat \<Rightarrow> string \<Rightarrow> 'w \<Rightarrow> 'w \<times> (zfs_error + identity_check)" where
  "ensure_identity R z shard format_version w =
     (let expected = show_nat shard in
      and_then (get_user_prop R z ''ozd:shard_id'' w) (\<lambda>found w.
      case found of
        None \<Rightarrow>
          and_then (set_user_props R z [(''ozd:shard_id'', expected), (''ozd:format_version'', format_version)] w)
            (\<lambda>_ w. (w, Inr Initialized))
      | Some found \<Rightarrow> (w, Inr (if found = expected then Verified else Mismatch found expected))))"

definition scrub_start :: "'w runner \<Rightarrow> zfs_pool \<Rightarrow> 'w \<Rightarrow> 'w \<times> (zfs_error + unit)" where
  "scrub_start R z w = and_then (zfs_run R ''zpool'' [''scrub'', zp_pool z] w) (\<lambda>_ w. (w, Inr ()))"

definition scrub_stop :: "'w runner \<Rightarrow> zfs_pool \<Rightarrow> 'w \<Rightarrow> 'w \<times> (zfs_error + unit)" where
  "scrub_stop R z w = and_then (zfs_run R ''zpool'' [''scrub'', ''-s'', zp_pool z] w) (\<lambda>_ w. (w, Inr ()))"

definition scrub_pause :: "'w runner \<Rightarrow> zfs_pool \<Rightarrow> 'w \<Rightarrow> 'w \<times> (zfs_error + unit)" where
  "scrub_pause R z w = and_then (zfs_run R ''zpool'' [''scrub'', ''-p'', zp_pool z] w) (\<lambda>_ w. (w, Inr ()))"

definition to_shard_status :: "pool_health \<Rightarrow> shard_status" where
  "to_shard_status h =
     (case ph_state h of
        ONLINE \<Rightarrow> (case total_errors h of (r, w, c) \<Rightarrow> if r = 0 \<and> w = 0 \<and> c = 0 then Online else Suspect)
      | DEGRADED \<Rightarrow> Suspect
      | _ \<Rightarrow> Faulted)"

end
