(* ===== verification/Zfs_Thms.thy ===== *)
theory Zfs_Thms
  imports Zfs
begin

text \<open>
  What the adapter to ZFS guarantees: a disk that carries another shard's identity is never taken over, the health reported to the pool
  and the audit of the tuning.
\<close>

section \<open>Identity\<close>

text \<open>
  The documented behaviour of \<open>zfs get\<close> and \<open>zfs set\<close> on user properties of a dataset: reading changes nothing and prints the value, or
  a dash; a successful write sets the properties, a failed one sets all of them or none.
\<close>

definition dataset_runner :: "'w runner \<Rightarrow> string \<Rightarrow> ('w \<Rightarrow> string \<rightharpoonup> string) \<Rightarrow> bool" where
  "dataset_runner R ds props \<longleftrightarrow>
     (\<forall>w name w' r. R ''zfs'' [''get'', ''-Hp'', ''-o'', ''value'', name, ds] w = (w', r) \<longrightarrow>
        props w' = props w \<and>
        (\<forall>out. r = Inr out \<and> co_success out \<longrightarrow> co_stdout out = (case props w name of None \<Rightarrow> ''-'' | Some v \<Rightarrow> v) @ [CHR 0x0A])) \<and>
     (\<forall>w kvs w' r. R ''zfs'' (''set'' # map (\<lambda>(k, v). k @ ''='' @ v) kvs @ [ds]) w = (w', r) \<longrightarrow>
        distinct (map fst kvs) \<longrightarrow> list_all (\<lambda>(k, v). CHR ''='' \<notin> set k) kvs \<longrightarrow>
        props w' \<in> {props w, props w ++ map_of kvs} \<and> (\<forall>out. r = Inr out \<and> co_success out \<longrightarrow> props w' = props w ++ map_of kvs))"

text \<open>A value that \<open>zfs get\<close> shows as it is.\<close>

definition shown_value :: "string \<Rightarrow> bool" where
  "shown_value v \<longleftrightarrow> v \<noteq> [] \<and> v \<noteq> ''-'' \<and> list_all (\<lambda>c. \<not> is_ws c) v"

lemma trim_line: "list_all (\<lambda>c. \<not> is_ws c) v \<Longrightarrow> trim (v @ [CHR 0x0A]) = v"
proof -
  assume v: "list_all (\<lambda>c. \<not> is_ws c) v"
  have nl: "is_ws CHR 0x0A" by (simp add: is_ws_def)
  have d: "dropWhile is_ws v = v" "dropWhile is_ws (rev v) = rev v"
    using v by (auto simp: dropWhile_eq_self_iff list_all_iff hd_rev)
  show ?thesis
  proof (cases v)
    case Nil
    then show ?thesis using nl by (simp add: trim_def trim_start_def trim_end_def)
  next
    case (Cons c t)
    then have "dropWhile is_ws (v @ [CHR 0x0A]) = v @ [CHR 0x0A]" using v by simp
    then show ?thesis using nl d by (simp add: trim_def trim_start_def trim_end_def)
  qed
qed

lemma zfs_run_Inr: "zfs_run R p args w = (w', Inr out) \<Longrightarrow> \<exists>o1. R p args w = (w', Inr o1) \<and> co_success o1 \<and> co_stdout o1 = out"
  by (auto simp: zfs_run_def Let_def split: prod.splits sum.splits if_splits)

lemma zfs_run_world: "zfs_run R p args w = (w', r) \<Longrightarrow> \<exists>o1. R p args w = (w', o1)"
  by (auto simp: zfs_run_def Let_def split: prod.splits sum.splits if_splits)

lemma get_user_prop_reads:
  assumes "dataset_runner R (zp_dataset z) props" "get_user_prop R z name w = (w', r)" "\<forall>v. props w name = Some v \<longrightarrow> shown_value v"
  shows "props w' = props w \<and> (\<forall>x. r = Inr x \<longrightarrow> x = props w name)"
proof -
  let ?args = "[''get'', ''-Hp'', ''-o'', ''value'', name, zp_dataset z]"
  obtain w1 r1 where z: "zfs_run R ''zfs'' ?args w = (w1, r1)" by fastforce
  have w1: "w' = w1" using assms(2) z by (cases r1) (auto simp: get_user_prop_def Let_def)
  have p: "props w' = props w"
    using zfs_run_world [OF z] assms(1) unfolding dataset_runner_def w1 by blast
  have "x = props w name" if rx: "r = Inr x" for x
  proof -
    have "\<exists>out. r1 = Inr out \<and> x = (if trim out = [] \<or> trim out = ''-'' then None else Some (trim out))"
      using assms(2) z rx by (cases r1) (auto simp: get_user_prop_def Let_def)
    then obtain out where out: "r1 = Inr out" "x = (if trim out = [] \<or> trim out = ''-'' then None else Some (trim out))" by blast
    from zfs_run_Inr [OF z [unfolded out(1)]] assms(1)
    have "out = (case props w name of None \<Rightarrow> ''-'' | Some v \<Rightarrow> v) @ [CHR 0x0A]" unfolding dataset_runner_def by blast
    then have "trim out = (case props w name of None \<Rightarrow> ''-'' | Some v \<Rightarrow> v)"
      using assms(3) trim_line by (auto simp: shown_value_def is_ws_def split: option.splits)
    then show ?thesis using out(2) assms(3) by (auto simp: shown_value_def split: option.splits if_splits)
  qed
  with p show ?thesis by blast
qed

lemma set_user_props_sets:
  assumes "dataset_runner R (zp_dataset z) props" "set_user_props R z kvs w = (w', r)"
    and kvs: "distinct (map fst kvs)" "list_all (\<lambda>(k, v). CHR ''='' \<notin> set k) kvs" and r: "r = Inr ()"
  shows "props w' = props w ++ map_of kvs"
proof -
  obtain w1 r1 where z: "zfs_run R ''zfs'' (''set'' # map (\<lambda>(k, v). k @ ''='' @ v) kvs @ [zp_dataset z]) w = (w1, r1)" by fastforce
  then have "w' = w1 \<and> (\<exists>out. r1 = Inr out)" using assms(2) r by (cases r1) (auto simp: set_user_props_def)
  then obtain out where o: "w' = w1" "r1 = Inr out" by blast
  with zfs_run_Inr [OF z [unfolded o(2)]] assms(1) kvs show "props w' = props w ++ map_of kvs"
    unfolding dataset_runner_def by blast
qed

text \<open>C24: the identity check never takes over a foreign disk: over a dataset whose properties \<open>zfs\<close> reads and writes as documented, whatever commands
  fail, the dataset is changed only if it had no shard id; the check answers Verified exactly for its own id, Mismatch with the id found, and after
  Initialized the dataset carries the id.\<close>

theorem identity_guard:
  assumes "dataset_runner R (zp_dataset z) props" and "ensure_identity R z shard ver w = (w', r)"
    and "\<And>v. props w ''ozd:shard_id'' = Some v \<Longrightarrow> shown_value v"
  shows "(props w ''ozd:shard_id'' \<noteq> None \<longrightarrow> props w' = props w) \<and>
    (case r of
       Inr Initialized \<Rightarrow> props w ''ozd:shard_id'' = None \<and> props w' ''ozd:shard_id'' = Some (show_nat shard)
     | Inr Verified \<Rightarrow> props w ''ozd:shard_id'' = Some (show_nat shard)
     | Inr (Mismatch found expected) \<Rightarrow> props w ''ozd:shard_id'' = Some found \<and> expected = show_nat shard \<and> found \<noteq> expected
     | Inl e \<Rightarrow> True)"
proof -
  obtain w1 r1 where g: "get_user_prop R z ''ozd:shard_id'' w = (w1, r1)" by fastforce
  note read = get_user_prop_reads [OF assms(1) g] 
  have p: "props w1 = props w" "\<And>x. r1 = Inr x \<Longrightarrow> x = props w ''ozd:shard_id''" using read assms(3) by blast+
  show ?thesis
  proof (cases r1)
    case (Inl e)
    then show ?thesis using assms(2) p by (auto simp: ensure_identity_def Let_def g)
  next
    case (Inr found)
    show ?thesis
    proof (cases found)
      case (Some v)
      then show ?thesis using assms(2) p Inr by (auto simp: ensure_identity_def Let_def g split: if_splits)
    next
      case None
      let ?kvs = "[(''ozd:shard_id'', show_nat shard), (''ozd:format_version'', ver)]"
      obtain w2 r2 where s: "set_user_props R z ?kvs w1 = (w2, r2)" by fastforce
      have none: "props w ''ozd:shard_id'' = None" using p Inr None by metis
      have r2: "r2 = Inr () \<Longrightarrow> props w2 ''ozd:shard_id'' = Some (show_nat shard)"
        using set_user_props_sets [OF assms(1) s] by (simp add: map_add_def)
      show ?thesis using assms(2) Inr None none s r2
        by (cases r2) (auto simp: ensure_identity_def Let_def g)
    qed
  qed
qed

text \<open>A dataset as a map.\<close>

definition map_runner :: "(string \<rightharpoonup> string) runner" where
  "map_runner program args w =
     (if hd args = ''set'' then (w ++ map_of (map (\<lambda>a. the (split_once CHR ''='' a)) (butlast (tl args))), Inr (fake_ok []))
      else (w, Inr (fake_ok ((case w (args ! 4) of None \<Rightarrow> ''-'' | Some v \<Rightarrow> v) @ [CHR 0x0A]))))"

lemma map_dataset_runner: "dataset_runner map_runner ds (\<lambda>w. w)"
proof -
  have "map (\<lambda>a. the (split_once CHR ''='' a)) (map (\<lambda>(k, v). k @ ''='' @ v) kvs) = kvs" if "list_all (\<lambda>(k, v). CHR ''='' \<notin> set k) kvs" for kvs
    using that by (induction kvs) auto
  then show ?thesis by (simp add: dataset_runner_def map_runner_def fake_ok_def butlast_append)
qed

theorem identity_guard_witness:
  "\<exists>w'. ensure_identity map_runner \<lparr>zp_pool = ''d'', zp_dataset = ''d/ozd''\<rparr> 7 ''v1'' [''ozd:shard_id'' \<mapsto> ''5''] = (w', Inr (Mismatch ''5'' (show_nat 7))) \<and>
     w' = [''ozd:shard_id'' \<mapsto> ''5'']"
proof -
  let ?w = "[''ozd:shard_id'' \<mapsto> ''5'']" and ?z = "\<lparr>zp_pool = ''d'', zp_dataset = ''d/ozd''\<rparr>"
  have t: "trim (''5'' @ [CHR 0x0A]) = ''5''" by (rule trim_line) (simp add: is_ws_def)
  have "\<exists>w' x. ensure_identity map_runner ?z 7 ''v1'' ?w = (w', Inr x)"
    by (simp add: t [simplified] ensure_identity_def get_user_prop_def zfs_run_def map_runner_def fake_ok_def Let_def)
  then obtain w' x where e: "ensure_identity map_runner ?z 7 ''v1'' ?w = (w', Inr x)" by blast
  have v: "\<And>v. ?w ''ozd:shard_id'' = Some v \<Longrightarrow> shown_value v" by (auto simp: shown_value_def is_ws_def)
  have "show_nat 7 = ''7''" by code_simp
  then show ?thesis using identity_guard [OF map_dataset_runner e v] e by (cases x) auto
qed

section \<open>Health\<close>

lemma total_errors_sum:
  "total_errors h = (sum_list (map dv_read_errors (ph_devices h)) mod 2 ^ 64, sum_list (map dv_write_errors (ph_devices h)) mod 2 ^ 64,
     sum_list (map dv_cksum_errors (ph_devices h)) mod 2 ^ 64)"
proof -
  have "foldl (\<lambda>(r, w, c) d. (add64 r (dv_read_errors d), add64 w (dv_write_errors d), add64 c (dv_cksum_errors d))) (r0 mod 2 ^ 64, w0 mod 2 ^ 64, c0 mod 2 ^ 64) ds =
    ((r0 + sum_list (map dv_read_errors ds)) mod 2 ^ 64, (w0 + sum_list (map dv_write_errors ds)) mod 2 ^ 64, (c0 + sum_list (map dv_cksum_errors ds)) mod 2 ^ 64)" for r0 w0 c0 ds
    by (induction ds arbitrary: r0 w0 c0) (simp_all add: add64_def mod_add_left_eq add.assoc)
  from this [of 0 0 0] show ?thesis by (simp add: total_errors_def)
qed

text \<open>The status of a shard follows its ZFS pool: while no sum of error counters reaches \<open>2^64\<close>, it is Online exactly if the pool is online
  and no device has an error, Suspect for errors or a degraded pool, and Faulted in every other state; a healthy pool is Online.\<close>

theorem shard_status_exact:
  assumes "sum_list (map dv_read_errors (ph_devices h)) < 2 ^ 64" and "sum_list (map dv_write_errors (ph_devices h)) < 2 ^ 64"
    and "sum_list (map dv_cksum_errors (ph_devices h)) < 2 ^ 64"
  shows "(to_shard_status h = Online \<longleftrightarrow> ph_state h = ONLINE \<and>
      list_all (\<lambda>d. dv_read_errors d = 0 \<and> dv_write_errors d = 0 \<and> dv_cksum_errors d = 0) (ph_devices h)) \<and>
    (to_shard_status h = Faulted \<longleftrightarrow> ph_state h \<notin> {ONLINE, DEGRADED}) \<and> (pool_is_healthy h \<longrightarrow> to_shard_status h = Online)"
  using assms by (auto simp: to_shard_status_def total_errors_sum pool_is_healthy_def list_all_iff split: pool_state.splits if_splits)

theorem shard_status_exact_witness:
  "to_shard_status \<lparr>ph_pool = ''d'', ph_state = ONLINE,
     ph_devices = [\<lparr>dv_name = ''sda'', dv_state = ONLINE, dv_read_errors = 0, dv_write_errors = 0, dv_cksum_errors = 5\<rparr>], ph_scrub = scrub_info_default\<rparr> = Suspect"
  using shard_status_exact [of "\<lparr>ph_pool = ''d'', ph_state = ONLINE,
     ph_devices = [\<lparr>dv_name = ''sda'', dv_state = ONLINE, dv_read_errors = 0, dv_write_errors = 0, dv_cksum_errors = 5\<rparr>], ph_scrub = scrub_info_default\<rparr>"]
  by (simp, metis shard_status.exhaust)

section \<open>Tuning\<close>

text \<open>The audit reports nothing exactly if every expected property is set on the dataset itself to its expected value.\<close>

theorem audit_drift_exact:
  assumes "list_all (\<lambda>(n, v). v \<noteq> ''-'' \<and> v \<noteq> ''<absent>'') expected"
  shows "audit_drift m expected = [] \<longleftrightarrow> list_all (\<lambda>(n, v). m n = Some \<lparr>pr_value = v, pr_source = Local\<rparr>) expected"
proof -
  have "drift_of m (n, v) = [] \<longleftrightarrow> m n = Some \<lparr>pr_value = v, pr_source = Local\<rparr>" if "v \<noteq> ''-''" "v \<noteq> ''<absent>''" for n v
    using that by (auto simp: drift_of_def prop_string_def prop_source_def Let_def split: option.splits if_splits)
  then show ?thesis using assms by (fastforce simp: audit_drift_def list_all_iff)
qed

theorem audit_drift_exact_witness:
  "audit_drift [''atime'' \<mapsto> \<lparr>pr_value = ''off'', pr_source = Local\<rparr>] [(''atime'', ''off'')] = []"
  using audit_drift_exact [of "[(''atime'', ''off'')]" "[''atime'' \<mapsto> \<lparr>pr_value = ''off'', pr_source = Local\<rparr>]"] by simp

end
