(* ===== verification/Daemon.thy ===== *)
theory Daemon
  imports Pool_Migrate Zfs
begin

text \<open>
  The daemon (\<open>ozd-daemon/src/main.rs\<close>): the configuration with its defaults, the start of the pool with the disks that open
  (a disk that does not is replaced by \<open>NullEngine\<close> and marked \<open>Faulted\<close>), the check of disk identities, and the background tasks, each as
  the work of one tick. A \<open>dyn ShardEngine\<close> is a disk engine or the null engine: \<open>boot_ops\<close> is the dispatch. What a tick cannot determine
  itself (the answers of \<open>zpool\<close>, the clock) is an argument. Reading and parsing the file, logging, sockets and the spawning of tasks are left out.
\<close>

section \<open>Configuration\<close>

record disk_cfg =
  dk_zfs_pool :: "string option"
  dk_zfs_dataset :: "string option"
  dk_failover_path :: "string option"

record engine_cfg =
  eg_segment_max_size :: "nat option"
  eg_inline_min :: "u32 option"
  eg_fsync_items :: "nat option"
  eg_compress :: "string option"
  eg_compress_min :: "nat option"
  eg_ballast_bytes :: "nat option"
  eg_fadvise_dontneed :: "bool option"

record daemon_cfg =
  dc_replicas :: nat
  dc_write_quorum :: nat
  dc_free_space_cache_ttl_secs :: nat
  dc_speculative_retry_ms :: nat
  dc_gc_discard_ratio :: rat
  dc_gc_interval_secs :: nat
  dc_zfs_health_interval_secs :: nat
  dc_drive_suspect_threshold :: nat
  dc_drive_recover_threshold :: nat
  dc_scrub_interval_secs :: nat
  dc_scrub_keys_per_cycle :: nat
  dc_heal_mrf :: bool
  dc_heal_parallelism :: nat
  dc_heal_max_per_shard :: nat
  dc_bg_max_bytes_per_sec :: nat
  dc_bg_min_bytes_per_sec :: nat
  dc_bg_fg_busy_ops :: rat
  dc_redundancy :: string
  dc_ec_data :: nat
  dc_ec_parity :: nat
  dc_ec_min_size :: nat
  dc_ec_write_quorum :: "nat option"
  dc_disk_slow_interval_secs :: nat
  dc_disk_slow_floor_ms :: nat
  dc_disk_slow_factor :: rat
  dc_adaptive_hedge :: bool
  dc_blake3_outboard :: bool
  dc_ob_min_size :: nat
  dc_migrate_interval_secs :: nat
  dc_migrate_keys_per_cycle :: nat
  dc_log_format :: string
  dc_rate_limit_rps :: nat
  dc_disks :: "disk_cfg list"
  dc_engine :: engine_cfg

text \<open>What a file that only lists its disks means.\<close>

definition engine_cfg_default :: engine_cfg where
  "engine_cfg_default =
     \<lparr>eg_segment_max_size = None, eg_inline_min = None, eg_fsync_items = None, eg_compress = None, eg_compress_min = None,
      eg_ballast_bytes = None, eg_fadvise_dontneed = None\<rparr>"

definition daemon_cfg_default :: "disk_cfg list \<Rightarrow> daemon_cfg" where
  "daemon_cfg_default disks =
     \<lparr>dc_replicas = 2, dc_write_quorum = 2, dc_free_space_cache_ttl_secs = 5, dc_speculative_retry_ms = 100,
      dc_gc_discard_ratio = 1 / 2, dc_gc_interval_secs = 300, dc_zfs_health_interval_secs = 30,
      dc_drive_suspect_threshold = 3, dc_drive_recover_threshold = 2, dc_scrub_interval_secs = 600,
      dc_scrub_keys_per_cycle = 5000, dc_heal_mrf = True, dc_heal_parallelism = 4, dc_heal_max_per_shard = 2,
      dc_bg_max_bytes_per_sec = 64 * 1024 * 1024, dc_bg_min_bytes_per_sec = 4 * 1024 * 1024, dc_bg_fg_busy_ops = 50,
      dc_redundancy = ''mirror'', dc_ec_data = 4, dc_ec_parity = 2, dc_ec_min_size = 64 * 1024, dc_ec_write_quorum = None,
      dc_disk_slow_interval_secs = 10, dc_disk_slow_floor_ms = 250, dc_disk_slow_factor = 4, dc_adaptive_hedge = True,
      dc_blake3_outboard = False, dc_ob_min_size = 256 * 1024, dc_migrate_interval_secs = 0, dc_migrate_keys_per_cycle = 2000,
      dc_log_format = ''text'', dc_rate_limit_rps = 0, dc_disks = disks, dc_engine = engine_cfg_default\<rparr>"

datatype start_error =
    No_Disks
  | Bad_Log_Format string
  | Replicas_Exceed_Disks
  | Quorum_Exceeds_Replicas
  | Zero_Replicas
  | Too_Few_Alive nat
  | Bad_Erasure
  | Too_Few_Disks_For_Erasure
  | Bad_Redundancy string
  | Identity_Mismatch string string string
  | Migration_Needs_Erasure
  | Pool_Panicked

text \<open>The checks before any disk is opened.\<close>

definition check_config :: "daemon_cfg \<Rightarrow> start_error + unit" where
  "check_config cfg =
     (if dc_disks cfg = [] then Inl No_Disks
      else if dc_log_format cfg \<notin> {''text'', ''json''} then Inl (Bad_Log_Format (dc_log_format cfg))
      else if \<not> dc_replicas cfg \<le> length (dc_disks cfg) then Inl Replicas_Exceed_Disks
      else if \<not> dc_write_quorum cfg \<le> dc_replicas cfg then Inl Quorum_Exceeds_Replicas
      else if \<not> (1 \<le> dc_replicas cfg \<and> 1 \<le> dc_write_quorum cfg) then Inl Zero_Replicas
      else Inr ())"

definition engine_config_for :: "daemon_cfg \<Rightarrow> disk_cfg \<Rightarrow> engine_config" where
  "engine_config_for cfg d =
     (let e = dc_engine cfg in
      \<lparr>ec_segment_max_size = unwrap_or (eg_segment_max_size e) (2 * 1024 * 1024 * 1024),
       ec_inline_min = unwrap_or (eg_inline_min e) 4096, ec_fsync_items = unwrap_or (eg_fsync_items e) 256,
       ec_compress_zstd = (eg_compress e = Some ''zstd''), ec_compress_min = unwrap_or (eg_compress_min e) 512,
       ec_ballast_bytes = unwrap_or (eg_ballast_bytes e) 0, ec_failover = (dk_failover_path d \<noteq> None),
       ec_fadvise_dontneed = unwrap_or (eg_fadvise_dontneed e) True\<rparr>)"

definition ec_of_config :: "daemon_cfg \<Rightarrow> start_error + ec_config option" where
  "ec_of_config cfg =
     (if dc_redundancy cfg = ''erasure'' then
        let k = dc_ec_data cfg; m = dc_ec_parity cfg in
        if \<not> (1 \<le> k \<and> 1 \<le> m) then Inl Bad_Erasure
        else if \<not> k + m \<le> length (dc_disks cfg) then Inl Too_Few_Disks_For_Erasure
        else Inr (Some \<lparr>ec_data = k, ec_parity = m, ec_min_size = dc_ec_min_size cfg,
                        ec_write_quorum = max k (min (unwrap_or (dc_ec_write_quorum cfg) (k + 1)) (k + m))\<rparr>)
      else if dc_redundancy cfg = ''mirror'' then Inr None
      else Inl (Bad_Redundancy (dc_redundancy cfg)))"

definition pool_config_of :: "daemon_cfg \<Rightarrow> ec_config option \<Rightarrow> pool_config" where
  "pool_config_of cfg ec =
     \<lparr>pc_replicas = dc_replicas cfg, pc_write_quorum = dc_write_quorum cfg,
      pc_free_space_cache_ttl = dc_free_space_cache_ttl_secs cfg * 1000000,
      pc_speculative_retry_after = (if 0 < dc_speculative_retry_ms cfg then Some (dc_speculative_retry_ms cfg * 1000) else None),
      pc_heal_parallelism = dc_heal_parallelism cfg, pc_heal_max_per_shard = dc_heal_max_per_shard cfg,
      pc_bg_throttle = \<lparr>bc_max_bytes_per_sec = dc_bg_max_bytes_per_sec cfg, bc_min_bytes_per_sec = dc_bg_min_bytes_per_sec cfg,
                        bc_fg_busy_ops_per_sec = dc_bg_fg_busy_ops cfg\<rparr>,
      pc_ec = ec,
      pc_outboard = (if dc_blake3_outboard cfg then Some \<lparr>ob_min_size = dc_ob_min_size cfg\<rparr> else None),
      pc_adaptive_hedge = dc_adaptive_hedge cfg,
      pc_disk_slow = \<lparr>ds_abs_floor_ms = dc_disk_slow_floor_ms cfg, ds_rel_factor = dc_disk_slow_factor cfg, ds_min_samples = 32\<rparr>\<rparr>"

section \<open>The engine of a disk that did not open\<close>

datatype 'e boot_shard = Disk_Engine (disk_engine: 'e) | Null_Engine

primrec is_null :: "'e boot_shard \<Rightarrow> bool" where
  "is_null (Disk_Engine e) = False"
| "is_null Null_Engine = True"

definition unavailable :: domain_error where
  "unavailable = Io ''shard unavailable (degraded start)''"

text \<open>One call through the trait object: the disk engine's, or the null engine's answer, which changes nothing.\<close>

fun dyn_call :: "('e \<Rightarrow> ('e, 'a) op) \<Rightarrow> 'a domain_result \<Rightarrow> 'e boot_shard \<Rightarrow> ('e boot_shard, 'a) op" where
  "dyn_call f r (Disk_Engine e) = (case f e of (e, x) \<Rightarrow> (Disk_Engine e, x))"
| "dyn_call f r Null_Engine = (Null_Engine, r)"

text \<open>Puts, gets, \<open>has\<close> and \<open>delete\<close> of the null engine fail; \<open>list\<close>, \<open>usage\<close> and \<open>flush\<close> do not, and the other
  operations are the defaults of the trait.\<close>

definition boot_ops :: "'e shard_ops \<Rightarrow> 'e boot_shard shard_ops" where
  "boot_ops D =
     \<lparr>so_put = (\<lambda>s k b. dyn_call (\<lambda>e. so_put D e k b) (Inl unavailable) s),
      so_put_meta = (\<lambda>s k b obj. dyn_call (\<lambda>e. so_put_meta D e k b obj) (Inl unavailable) s),
      so_get = (\<lambda>s k. dyn_call (\<lambda>e. so_get D e k) (Inl unavailable) s),
      so_has = (\<lambda>s k. dyn_call (\<lambda>e. so_has D e k) (Inl unavailable) s),
      so_delete = (\<lambda>s k. dyn_call (\<lambda>e. so_delete D e k) (Inl unavailable) s),
      so_list = (\<lambda>s pre after limit. dyn_call (\<lambda>e. so_list D e pre after limit) (Inr []) s),
      so_usage = dyn_call (so_usage D) (Inr \<lparr>total_bytes = 0, free_bytes = 0\<rparr>),
      so_flush = dyn_call (so_flush D) (Inr ()),
      so_gc = (\<lambda>s ratio. dyn_call (\<lambda>e. so_gc D e ratio) (Inr gc_report_default) s),
      so_verify_structure = dyn_call (so_verify_structure D)
        (Inr \<lparr>segments_referenced = 0, segments_missing = [], keys_at_risk = 0, orphan_segments = []\<rparr>),
      so_scrub_step = (\<lambda>s after limit. dyn_call (\<lambda>e. so_scrub_step D e after limit)
        (Inr \<lparr>ss_checked = 0, ss_bytes = 0, ss_corrupt = [], ss_last_key = None, ss_done = True\<rparr>) s),
      so_stat = (\<lambda>s k. dyn_call (\<lambda>e. so_stat D e k) (Inl unavailable) s),
      so_save_cursor = (\<lambda>s name pos. dyn_call (\<lambda>e. so_save_cursor D e name pos) (Inr ()) s),
      so_load_cursor = (\<lambda>s name. dyn_call (\<lambda>e. so_load_cursor D e name) (Inr None) s),
      so_ballast_released = (\<lambda>s. case s of Disk_Engine e \<Rightarrow> so_ballast_released D e | Null_Engine \<Rightarrow> False),
      so_release_ballast = dyn_call (so_release_ballast D) (Inr False),
      so_stat_obj = (\<lambda>s k. dyn_call (\<lambda>e. so_stat_obj D e k) (Inl unavailable) s),
      so_set_obj_logical = (\<lambda>s k obj. dyn_call (\<lambda>e. so_set_obj_logical D e k obj) (Inr False) s),
      so_data_bytes = dyn_call (so_data_bytes D) (Inr 0),
      so_evict_oldest_segment = dyn_call (so_evict_oldest_segment D) (Inr (0, 0))\<rparr>"

section \<open>Opening the disks and the pool\<close>

text \<open>What the operating system holds of a disk when the daemon starts: files, index and the faults to come.\<close>

type_synonym ('t, 'm) medium = "disk \<times> ('t, 'm) index \<times> outcome list"

definition open_shard ::
  "('t, 'm) engine_env \<Rightarrow> daemon_cfg \<Rightarrow> disk_cfg \<Rightarrow> ('t, 'm) medium \<Rightarrow> ('t, 'm) engine boot_shard" where
  "open_shard E cfg d = (\<lambda>(files, ix, faults).
     case engine_open E (engine_config_for cfg d) files ix faults of
       (e, Inr _) \<Rightarrow> Disk_Engine e
     | (e, Inl _) \<Rightarrow> Null_Engine)"

definition open_shards ::
  "('t, 'm) engine_env \<Rightarrow> daemon_cfg \<Rightarrow> (nat \<Rightarrow> ('t, 'm) medium) \<Rightarrow> ('t, 'm) engine boot_shard list" where
  "open_shards E cfg media = map (\<lambda>i. open_shard E cfg (dc_disks cfg ! i) (media i)) [0..<length (dc_disks cfg)]"

definition faulted_at_start :: "'e boot_shard list \<Rightarrow> nat list" where
  "faulted_at_start shards = filter (\<lambda>i. is_null (shards ! i)) [0..<length shards]"

definition mark_faulted :: "nat list \<Rightarrow> 's pool \<Rightarrow> 's pool" where
  "mark_faulted is p = fold (\<lambda>i. set_shard_status i Faulted) is p"

definition start_pool ::
  "('t, 'm) engine_env \<Rightarrow> daemon_cfg \<Rightarrow> (nat \<Rightarrow> ('t, 'm) medium) \<Rightarrow> start_error + ('t, 'm) engine boot_shard pool \<times> pool_config" where
  "start_pool E cfg media =
     (case check_config cfg of Inl er \<Rightarrow> Inl er | Inr _ \<Rightarrow>
        let shards = open_shards E cfg media; down = faulted_at_start shards; alive = length (dc_disks cfg) - length down in
        if \<not> dc_replicas cfg \<le> alive then Inl (Too_Few_Alive alive)
        else case ec_of_config cfg of Inl er \<Rightarrow> Inl er | Inr ec \<Rightarrow>
          (case pool_new shards (pool_config_of cfg ec) of
             None \<Rightarrow> Inl Pool_Panicked
           | Some p \<Rightarrow> Inr (mark_faulted down p, pool_config_of cfg ec)))"

text \<open>The datasets, and the check that each carries the id of its place. A \<open>zfs\<close> that does not answer does not stop the start;
  the index of a disk is truncated to 16 bits.\<close>

definition zfs_pools_of :: "daemon_cfg \<Rightarrow> zfs_pool option list" where
  "zfs_pools_of cfg = map (\<lambda>d. map_option (\<lambda>p. \<lparr>zp_pool = p, zp_dataset = unwrap_or (dk_zfs_dataset d) p\<rparr>) (dk_zfs_pool d)) (dc_disks cfg)"

fun check_identities :: "'w runner \<Rightarrow> (nat \<times> zfs_pool option) list \<Rightarrow> 'w \<Rightarrow> 'w \<times> (start_error + unit)" where
  "check_identities R [] w = (w, Inr ())"
| "check_identities R ((i, None) # zs) w = check_identities R zs w"
| "check_identities R ((i, Some z) # zs) w =
     (case ensure_identity R z (i mod 2 ^ 16) ''v1'' w of
        (w, Inr (Mismatch found expected)) \<Rightarrow> (w, Inl (Identity_Mismatch (zp_dataset z) found expected))
      | (w, _) \<Rightarrow> check_identities R zs w)"

definition daemon_start ::
  "('t, 'm) engine_env \<Rightarrow> 'w runner \<Rightarrow> daemon_cfg \<Rightarrow> (nat \<Rightarrow> ('t, 'm) medium) \<Rightarrow> 'w \<Rightarrow>
     'w \<times> (start_error + ('t, 'm) engine boot_shard pool \<times> pool_config)" where
  "daemon_start E R cfg media w =
     (case start_pool E cfg media of
        Inl er \<Rightarrow> (w, Inl er)
      | Inr (p, pc) \<Rightarrow>
          and_then (check_identities R (enumerate 0 (zfs_pools_of cfg)) w) (\<lambda>_ w.
            (w, if 0 < dc_migrate_interval_secs cfg \<and> pc_ec pc = None then Inl Migration_Needs_Erasure else Inr (p, pc))))"

section \<open>The monitor of ZFS health\<close>

text \<open>What came back from one disk: nothing within a minute, a panicked task, a \<open>zfs\<close> error, or the health of the pool with its capacity.\<close>

datatype probe =
    Timed_Out
  | Join_Failed
  | Probe_Failed zfs_error
  | Probed pool_health "zfs_error + capacity"

fun probe_observation :: "probe \<Rightarrow> observation" where
  "probe_observation (Probed h cap) = (case to_shard_status h of Online \<Rightarrow> Healthy | Suspect \<Rightarrow> Degraded | Faulted \<Rightarrow> Down)"
| "probe_observation _ = Down"

definition probe_zfs :: "'w runner \<Rightarrow> zfs_pool \<Rightarrow> 'w \<Rightarrow> 'w \<times> probe" where
  "probe_zfs R z w =
     (case zfs_status R z w of
        (w, Inl er) \<Rightarrow> (w, Probe_Failed er)
      | (w, Inr h) \<Rightarrow> (case effective_capacity R z w of (w, cap) \<Rightarrow> (w, Probed h cap)))"

definition monitor_shard :: "nat \<Rightarrow> probe \<Rightarrow> health_fsm list \<times> 's pool \<Rightarrow> health_fsm list \<times> 's pool" where
  "monitor_shard i pr = (\<lambda>(fsms, p).
     let (h, st) = health_observe (fsms ! i) (probe_observation pr);
         p = set_shard_status i st p in
     (fsms[i := h], case pr of Probed _ (Inr cap) \<Rightarrow> set_shard_capacity i cap p | _ \<Rightarrow> p))"

text \<open>One round; a disk without a ZFS pool is skipped.\<close>

fun monitor_tick :: "(nat \<times> probe option) list \<Rightarrow> health_fsm list \<times> 's pool \<Rightarrow> health_fsm list \<times> 's pool" where
  "monitor_tick [] st = st"
| "monitor_tick ((i, None) # ps) st = monitor_tick ps st"
| "monitor_tick ((i, Some pr) # ps) st = monitor_tick ps (monitor_shard i pr st)"

definition monitor_start :: "daemon_cfg \<Rightarrow> health_fsm list" where
  "monitor_start cfg = replicate (length (dc_disks cfg)) (health_new (dc_drive_suspect_threshold cfg) (dc_drive_recover_threshold cfg))"

definition monitor_run :: "probe option list list \<Rightarrow> health_fsm list \<times> 's pool \<Rightarrow> health_fsm list \<times> 's pool" where
  "monitor_run rounds st = fold (\<lambda>ps. monitor_tick (enumerate 0 ps)) rounds st"

section \<open>The monitor of slow disks\<close>

definition slow_observation :: "bool \<Rightarrow> observation" where
  "slow_observation slow = (if slow then Degraded else Healthy)"

fun slow_apply :: "(nat \<times> bool) list \<Rightarrow> health_fsm list \<times> 's pool \<Rightarrow> health_fsm list \<times> 's pool" where
  "slow_apply [] st = st"
| "slow_apply ((i, slow) # vs) (fsms, p) =
     (let (h, st) = health_observe (fsms ! i) (slow_observation slow) in
      slow_apply vs (fsms[i := h], set_shard_slow i (st \<noteq> Online) p))"

definition slow_tick :: "'s pool_env \<Rightarrow> health_fsm list \<times> 's pool \<Rightarrow> health_fsm list \<times> 's pool" where
  "slow_tick E st = slow_apply (enumerate 0 (disk_slow_verdicts E (snd st))) st"

section \<open>Repair, scrub and migration in the background\<close>

definition mrf_tick :: "'s pool_env \<Rightarrow> 's pool \<Rightarrow> 's pool" where
  "mrf_tick E p = (if mrf_len p = 0 then p else fst (mrf_drain E 256 p))"

text \<open>The pause before a scrub round, with jitter from the nanoseconds of the clock.\<close>

definition scrub_wait :: "nat \<Rightarrow> nat \<Rightarrow> nat" where
  "scrub_wait base nanos = (let jitter = max (base div 10) 1 in base - jitter div 2 + nanos mod max jitter 1)"

fun scrub_cursors :: "'s pool_env \<Rightarrow> nat list \<Rightarrow> 's pool \<Rightarrow> 's pool \<times> block_key option list" where
  "scrub_cursors E [] p = (p, [])"
| "scrub_cursors E (i # is) p =
     (let (p, r) = shard_call (\<lambda>s. so_load_cursor (pe_ops E) s ''scrub'') i p;
          c = (case r of Inr c \<Rightarrow> c | Inl _ \<Rightarrow> None);
          (p, cs) = scrub_cursors E is p in
      (p, c # cs))"

fun scrub_tick :: "'s pool_env \<Rightarrow> nat \<Rightarrow> nat list \<Rightarrow> block_key option list \<Rightarrow> 's pool \<Rightarrow> 's pool \<times> block_key option list" where
  "scrub_tick E batch [] cursors p = (p, cursors)"
| "scrub_tick E batch (i # is) cursors p =
     (case scrub_shard_step E i (cursors ! i) batch p of
        (p, Inr r) \<Rightarrow>
          let cur = (if sr_done r then None else sr_last_key r);
              (p, _) = shard_call (\<lambda>s. so_save_cursor (pe_ops E) s ''scrub'' cur) i p in
          scrub_tick E batch is (cursors[i := cur]) p
      | (p, Inl er) \<Rightarrow> scrub_tick E batch is cursors p)"

text \<open>A migration step resumes at the cursor that shard 0 keeps and stores the next one; the count is of the bodies migrated in this pass.\<close>

definition migrate_tick :: "'s pool_env \<Rightarrow> nat \<Rightarrow> nat \<Rightarrow> 's pool \<Rightarrow> 's pool \<times> nat" where
  "migrate_tick E batch pass_migrated p =
     (let (p, r) = shard_call (\<lambda>s. so_load_cursor (pe_ops E) s ''migrate'') 0 p;
          cur = (case r of Inr c \<Rightarrow> c | Inl _ \<Rightarrow> None) in
      case migrate_step E cur batch p of
        (p, Inl er) \<Rightarrow> (p, pass_migrated)
      | (p, Inr rep) \<Rightarrow>
          let (p, _) = shard_call (\<lambda>s. so_save_cursor (pe_ops E) s ''migrate'' (if mg_done rep then None else mg_last_key rep)) 0 p in
          (p, if mg_done rep then 0 else pass_migrated + mg_migrated rep))"

section \<open>Background collection\<close>

text \<open>One round over the shards. \<open>False\<close>: the task has panicked at \<open>r.victim_seg.unwrap()\<close> and collects nothing any more.\<close>

fun gc_tick :: "'s pool_env \<Rightarrow> rat \<Rightarrow> nat list \<Rightarrow> 's pool \<Rightarrow> 's pool \<times> bool" where
  "gc_tick E ratio [] p = (p, True)"
| "gc_tick E ratio (i # is) p =
     (case shard_call (\<lambda>s. so_gc (pe_ops E) s ratio) i p of
        (p, Inl er) \<Rightarrow> gc_tick E ratio is p
      | (p, Inr rep) \<Rightarrow>
          let p = bg_pay (reclaimed_bytes rep + orphan_bytes rep) p in
          if victim_seg rep \<noteq> None \<or> 0 < orphans_removed rep then
            let p = p\<lparr>po_metrics := record_gc (po_metrics p) rep\<rparr> in
            if victim_seg rep = None then (p, False) else gc_tick E ratio is p
          else gc_tick E ratio is p)"

section \<open>Reloading and stopping\<close>

definition reload_config :: "daemon_cfg \<Rightarrow> 's pool \<Rightarrow> 's pool" where
  "reload_config cfg p =
     (let (bg, m) = update_config (po_bg p) (po_metrics p)
        \<lparr>bc_max_bytes_per_sec = dc_bg_max_bytes_per_sec cfg, bc_min_bytes_per_sec = dc_bg_min_bytes_per_sec cfg,
         bc_fg_busy_ops_per_sec = dc_bg_fg_busy_ops cfg\<rparr> in
      p\<lparr>po_bg := bg, po_metrics := m\<rparr>)"

text \<open>Waiting for requests in flight: one look every 50 ms until none is left or 30 s have passed; the looks are what the other threads leave to see.\<close>

fun drain_wait :: "nat \<Rightarrow> nat list \<Rightarrow> nat" where
  "drain_wait waited [] = waited"
| "drain_wait waited (inflight # looks) =
     (if inflight = 0 \<or> 30000 \<le> waited then waited else drain_wait (waited + 50) looks)"

definition daemon_stop :: "'s pool_env \<Rightarrow> 's pool \<Rightarrow> 's pool" where
  "daemon_stop E p = fst (flush_all E (pool_shutdown p))"

end
