(* ===== verification/Daemon_Thms.thy ===== *)
theory Daemon_Thms
  imports Daemon Pool_Thms Pool_Repair_Laws
begin

text \<open>
  What the daemon guarantees: an accepted start leaves enough working disks for the copies of a mirrored body, the first writes after a degraded
  start reach them, and the monitor's statuses are the state machine's. Some theorems state what the code does where it does not mean to: a listing
  hides the loss of disks, the mark of a disk that did not open is undone by the first healthy probe, a coded pool can start with too few disks to
  write, and the background collector can stop for good.
\<close>

section \<open>The null engine satisfies the port\<close>

definition boot_ok :: "(nat \<Rightarrow> 'e \<Rightarrow> bool) \<Rightarrow> nat \<Rightarrow> 'e boot_shard \<Rightarrow> bool" where
  "boot_ok ok n s = (case s of Disk_Engine e \<Rightarrow> ok n e | Null_Engine \<Rightarrow> True)"

definition boot_view :: "('e \<Rightarrow> block_key \<rightharpoonup> bytes) \<Rightarrow> 'e boot_shard \<Rightarrow> block_key \<rightharpoonup> bytes" where
  "boot_view V s = (case s of Disk_Engine e \<Rightarrow> V e | Null_Engine \<Rightarrow> Map.empty)"

definition boot_fine :: "('e \<Rightarrow> bool) \<Rightarrow> 'e boot_shard \<Rightarrow> bool" where
  "boot_fine fine s = (case s of Disk_Engine e \<Rightarrow> fine e | Null_Engine \<Rightarrow> False)"

lemma boot_simps [simp]:
  "boot_ok ok n (Disk_Engine e) = ok n e" "boot_ok ok n Null_Engine"
  "boot_view V (Disk_Engine e) = V e" "boot_view V Null_Engine = Map.empty"
  "boot_fine fine (Disk_Engine e) = fine e" "\<not> boot_fine fine Null_Engine"
  by (simp_all add: boot_ok_def boot_view_def boot_fine_def)

lemma boot_step [simp]:
  "shard_step (boot_ok ok) (boot_view V) (boot_fine fine) m W (Disk_Engine e) (Disk_Engine e') = shard_step ok V fine m W e e'"
  "shard_step (boot_ok ok) (boot_view V) (boot_fine fine) m W Null_Engine Null_Engine \<longleftrightarrow> W = Map.empty"
  by (auto simp: shard_step_def)

lemma post_dyn_call:
  assumes "\<And>e. s = Disk_Engine e \<Longrightarrow> post (f e) (\<lambda>e'. P (Disk_Engine e')) (\<lambda>e'. Q (Disk_Engine e'))"
    and "s = Null_Engine \<Longrightarrow> post (Null_Engine, r) P Q"
  shows "post (dyn_call f r s) P Q"
proof (cases s)
  case (Disk_Engine e)
  obtain e' x where "f e = (e', x)" by fastforce
  with assms(1) [OF Disk_Engine] show ?thesis by (cases x) (simp_all add: Disk_Engine)
qed (use assms(2) in simp)

lemma listed_empty [simp]: "listed Map.empty pre after = {}"
  by (simp add: listed_def)

context shard_port
begin

lemma boot_port: "shard_port (boot_ops Op) (boot_ok ok) (boot_view V) (boot_fine fine)"
proof (unfold_locales, goal_cases)
  case (1 n s m)
  then show ?case using port_mono by (cases s) auto
next
  case (2 s k b)
  then show ?case unfolding boot_ops_def by (simp, intro post_dyn_call) (use port_put in \<open>auto simp: unavailable_def\<close>)
next
  case (3 s k b obj)
  then show ?case unfolding boot_ops_def by (simp, intro post_dyn_call) (use port_put_meta in \<open>auto simp: unavailable_def\<close>)
next
  case (4 s k)
  then show ?case unfolding boot_ops_def by (simp split del: if_split, intro post_dyn_call) (use port_get in \<open>auto simp: unavailable_def cong: if_cong split del: if_split\<close>)
next
  case (5 s k)
  then show ?case unfolding boot_ops_def by (simp, intro post_dyn_call) (use port_has in \<open>auto simp: unavailable_def\<close>)
next
  case (6 s k)
  then show ?case unfolding boot_ops_def by (simp, intro post_dyn_call) (use port_delete in \<open>auto simp: unavailable_def\<close>)
next
  case (7 s k)
  then show ?case unfolding boot_ops_def by (simp split del: if_split, intro post_dyn_call) (use port_stat in \<open>auto simp: unavailable_def cong: if_cong split del: if_split\<close>)
next
  case (8 s k)
  then show ?case unfolding boot_ops_def by (simp split del: if_split, intro post_dyn_call) (use port_stat_obj in \<open>auto simp: unavailable_def cong: if_cong split del: if_split\<close>)
next
  case (9 s k obj)
  then show ?case unfolding boot_ops_def by (simp, intro post_dyn_call) (use port_set_obj in auto)
next
  case (10 s pre after limit)
  then show ?case unfolding boot_ops_def by (simp, intro post_dyn_call) (use port_list [of _ pre after limit] in auto)
next
  case (11 s)
  then show ?case unfolding boot_ops_def by (simp, intro post_dyn_call) (use port_usage in auto)
next
  case (12 s)
  then show ?case unfolding boot_ops_def by (simp, intro post_dyn_call) (use port_flush in auto)
next
  case (13 s name pos)
  then show ?case unfolding boot_ops_def by (simp, intro post_dyn_call) (use port_save in auto)
next
  case (14 s name)
  then show ?case unfolding boot_ops_def by (simp, intro post_dyn_call) (use port_load in auto)
next
  case (15 s after limit)
  then show ?case unfolding boot_ops_def by (simp, intro post_dyn_call) (use port_scrub in auto)
qed

end

definition boot_pool ::
  "('t, 'm) engine_env \<Rightarrow> rendezvous_hrw \<Rightarrow> keyed_hash \<Rightarrow> ('t, 'm) engine boot_shard pool_env \<Rightarrow> bool" where
  "boot_pool EE pol xxh3 PE \<longleftrightarrow> pe_ops PE = boot_ops (disk_ops EE) \<and> pe_select PE = select pol xxh3 \<and>
     (\<forall>t legs. mset (pe_arrival PE t legs) = mset legs)"

lemma boot_pool_laws:
  assumes "engine_laws EE" and "boot_pool EE pol xxh3 PE"
  shows "pool_laws (boot_ops (disk_ops EE)) (boot_ok (engine_ok EE)) (boot_view (view EE)) (boot_fine engine_fine) PE"
  using assms(2)
  by (intro pool_laws.intro pool_laws_axioms.intro shard_port.boot_port [OF engine_laws.disk_port [OF assms(1)]])
    (auto simp: boot_pool_def select_laws(2,3) dest: subsetD [OF select_laws(1)])

section \<open>The start\<close>

lemma mark_faulted_fields [simp]:
  "po_shards (mark_faulted is p) = po_shards p" "po_cap_overrides (mark_faulted is p) = po_cap_overrides p"
  "po_slow_flags (mark_faulted is p) = po_slow_flags p" "po_shutting_down (mark_faulted is p) = po_shutting_down p"
  "po_mrf (mark_faulted is p) = po_mrf p"
  by (induction "is" arbitrary: p) (simp_all add: mark_faulted_def set_shard_status_def)

lemma mark_faulted_topo: "po_topo p = None \<Longrightarrow> po_topo (mark_faulted is p) = None"
  by (induction "is" arbitrary: p) (simp_all add: mark_faulted_def set_shard_status_def)

lemma mark_faulted_statuses:
  assumes "set is \<subseteq> {0..<length (po_statuses p)}"
  shows "po_statuses (mark_faulted is p) = map (\<lambda>i. if i \<in> set is then Faulted else po_statuses p ! i) [0..<length (po_statuses p)]"
  using assms
proof (induction "is" arbitrary: p)
  case (Cons i "is")
  have s: "po_statuses (set_shard_status i Faulted p) = (po_statuses p)[i := Faulted]"
    by (simp add: set_shard_status_def) (metis list_update_beyond list_update_id not_less)
  have e: "mark_faulted (i # is) p = mark_faulted is (set_shard_status i Faulted p)" by (simp add: mark_faulted_def)
  show ?case unfolding e
    by (subst Cons.IH) (use Cons.prems in \<open>auto simp: s nth_list_update intro!: nth_equalityI\<close>)
qed (simp add: mark_faulted_def map_nth)

definition live_shards :: "'e boot_shard pool \<Rightarrow> nat set" where
  "live_shards p = {i. i < length (po_shards p) \<and> \<not> is_null (po_shards p ! i)}"

lemma faulted_live: "length (faulted_at_start shards) + card {i. i < length shards \<and> \<not> is_null (shards ! i)} = length shards"
proof -
  let ?N = "{0..<length shards}"
  have d: "length (faulted_at_start shards) = card {i \<in> ?N. is_null (shards ! i)}"
    unfolding faulted_at_start_def by (subst distinct_card [symmetric]) (auto intro!: arg_cong [where f = card])
  have "{i. i < length shards \<and> \<not> is_null (shards ! i)} = {i \<in> ?N. \<not> is_null (shards ! i)}" by auto
  moreover have "{i \<in> ?N. is_null (shards ! i)} \<union> {i \<in> ?N. \<not> is_null (shards ! i)} = ?N" by auto
  then have "card {i \<in> ?N. is_null (shards ! i)} + card {i \<in> ?N. \<not> is_null (shards ! i)} = card ?N"
    by (subst card_Un_disjoint [symmetric]) auto
  ultimately show ?thesis by (simp add: d)
qed

lemma start_pool_parts:
  assumes "start_pool E cfg media = Inr (p, pc)"
  obtains ec where "check_config cfg = Inr ()" "ec_of_config cfg = Inr ec" "pc = pool_config_of cfg ec"
    "po_shards p = open_shards E cfg media" "dc_replicas cfg \<le> card (live_shards p)" "po_topo p = None" "\<not> po_shutting_down p"
    "po_statuses p = map (\<lambda>i. if is_null (po_shards p ! i) then Faulted else Online) [0..<length (po_shards p)]"
    "po_cap_overrides p = replicate (length (po_shards p)) None" "po_slow_flags p = replicate (length (po_shards p)) False"
proof -
  let ?shards = "open_shards E cfg media"
  from assms obtain ec p0 where s: "check_config cfg = Inr ()" "dc_replicas cfg \<le> length (dc_disks cfg) - length (faulted_at_start ?shards)"
      "ec_of_config cfg = Inr ec" "pc = pool_config_of cfg ec" "pool_new ?shards pc = Some p0" "p = mark_faulted (faulted_at_start ?shards) p0"
    by (auto simp: start_pool_def Let_def split: sum.splits if_splits option.splits)
  have n: "length ?shards = length (dc_disks cfg)" by (simp add: open_shards_def)
  from s(5) have p0: "po_shards p0 = ?shards" "po_topo p0 = None" "po_statuses p0 = replicate (length ?shards) Online"
      "po_cap_overrides p0 = replicate (length ?shards) None" "po_slow_flags p0 = replicate (length ?shards) False" "\<not> po_shutting_down p0"
    by (auto simp: pool_new_def Let_def split: if_splits prod.splits)
  have "po_statuses p = map (\<lambda>i. if i \<in> set (faulted_at_start ?shards) then Faulted else po_statuses p0 ! i) [0..<length (po_statuses p0)]"
    unfolding s(6) by (rule mark_faulted_statuses) (auto simp: p0 faulted_at_start_def)
  then have "po_statuses p = map (\<lambda>i. if is_null (po_shards p ! i) then Faulted else Online) [0..<length (po_shards p)]"
    by (auto simp: p0 s(6) faulted_at_start_def)
  moreover have "dc_replicas cfg \<le> card (live_shards p)"
    using s(2) faulted_live [of ?shards] n by (simp add: live_shards_def s(6) p0)
  ultimately show ?thesis using that [of ec] s p0 by (simp add: mark_faulted_topo)
qed

lemma start_copies:
  assumes "start_pool E cfg media = Inr (p, pc)"
  shows "1 \<le> pc_write_quorum pc \<and> pc_write_quorum pc \<le> pc_replicas pc \<and> pc_replicas pc \<le> card (live_shards p)"
proof -
  obtain ec where "check_config cfg = Inr ()" "pc = pool_config_of cfg ec" "dc_replicas cfg \<le> card (live_shards p)"
    using start_pool_parts [OF assms] by metis
  then show ?thesis by (simp add: pool_config_of_def check_config_def split: if_splits)
qed

text \<open>C16: an accepted start. The quorum lies between one and the number of copies, at least as many disks opened as a body has copies, exactly the
  disks that did not open are marked Faulted, and a code fits the number of disks.\<close>

theorem degraded_start_sound:
  assumes "start_pool E cfg media = Inr (p, pc)"
  shows "1 \<le> pc_write_quorum pc \<and> pc_write_quorum pc \<le> pc_replicas pc \<and> pc_replicas pc \<le> card (live_shards p) \<and>
    length (po_shards p) = length (dc_disks cfg) \<and>
    (\<forall>i < length (dc_disks cfg). pool_shard_status p i = Some (if isl (snd (engine_open E (engine_config_for cfg (dc_disks cfg ! i))
         (fst (media i)) (fst (snd (media i))) (snd (snd (media i))))) then Faulted else Online)) \<and>
    (\<forall>ec. pc_ec pc = Some ec \<longrightarrow> 1 \<le> ec_data ec \<and> 1 \<le> ec_parity ec \<and> ec_total ec \<le> length (po_shards p) \<and>
       ec_data ec \<le> ec_write_quorum ec \<and> ec_write_quorum ec \<le> ec_total ec)"
proof -
  obtain ec where s: "check_config cfg = Inr ()" "ec_of_config cfg = Inr ec" "pc = pool_config_of cfg ec"
      "po_shards p = open_shards E cfg media" "dc_replicas cfg \<le> card (live_shards p)"
      "po_statuses p = map (\<lambda>i. if is_null (po_shards p ! i) then Faulted else Online) [0..<length (po_shards p)]"
    using start_pool_parts [OF assms] by metis
  have n: "length (po_shards p) = length (dc_disks cfg)" by (simp add: s(4) open_shards_def)
  have null: "is_null (po_shards p ! i) \<longleftrightarrow> isl (snd (engine_open E (engine_config_for cfg (dc_disks cfg ! i))
         (fst (media i)) (fst (snd (media i))) (snd (snd (media i)))))" if "i < length (dc_disks cfg)" for i
    using that by (auto simp: s(4) open_shards_def open_shard_def split: prod.split sum.split)
  have "\<forall>ec. pc_ec pc = Some ec \<longrightarrow> 1 \<le> ec_data ec \<and> 1 \<le> ec_parity ec \<and> ec_total ec \<le> length (po_shards p) \<and>
       ec_data ec \<le> ec_write_quorum ec \<and> ec_write_quorum ec \<le> ec_total ec"
    using s(2) n by (auto simp: s(3) pool_config_of_def ec_of_config_def ec_total_def Let_def split: if_splits)
  then show ?thesis using start_copies [OF assms] n null by (simp add: pool_shard_status_def s(6))
qed

section \<open>Placement just after the start\<close>

definition engine_capacity :: "('t, 'm) engine \<Rightarrow> capacity" where
  "engine_capacity e = \<lparr>total_bytes = unwrap_or (fs_total_bytes (en_disk e)) 0, free_bytes = unwrap_or (fs_free_bytes (en_disk e)) 0\<rparr>"

definition boot_capacity :: "('t, 'm) engine boot_shard \<Rightarrow> capacity" where
  "boot_capacity s = (case s of Disk_Engine e \<Rightarrow> engine_capacity e | Null_Engine \<Rightarrow> \<lparr>total_bytes = 0, free_bytes = 0\<rparr>)"

text \<open>A live disk that is not too full to take part in placement.\<close>

definition takes_writes :: "rendezvous_hrw \<Rightarrow> ('t, 'm) engine boot_shard \<Rightarrow> bool" where
  "takes_writes pol s \<longleftrightarrow> (case s of Disk_Engine e \<Rightarrow> eligible pol (engine_capacity e) Online | Null_Engine \<Rightarrow> False)"

lemma boot_usage: "so_usage (boot_ops (disk_ops EE)) s = (s, Inr (boot_capacity s))"
  by (cases s) (simp_all add: boot_ops_def disk_ops_def engine_usage_def boot_capacity_def engine_capacity_def)

lemma effective_calm [simp]: "effective_status st False = st"
  by (cases st) simp_all

lemma boot_scan:
  assumes "pe_ops PE = boot_ops (disk_ops EE)" and "set is \<subseteq> {0..<length (po_shards p)}"
    and "po_cap_overrides p = replicate (length (po_shards p)) None" and "po_slow_flags p = replicate (length (po_shards p)) False"
  shows "scan_topology PE is p = (p, map (\<lambda>i. (i, boot_capacity (po_shards p ! i), po_statuses p ! i)) is)"
  using assms(2) by (induction "is") (simp_all add: assms(1,3,4) shard_capacity_def shard_call_def boot_usage Let_def)

definition just_started :: "'e boot_shard pool \<Rightarrow> bool" where
  "just_started p \<longleftrightarrow> po_topo p = None \<and>
     po_statuses p = map (\<lambda>i. if is_null (po_shards p ! i) then Faulted else Online) [0..<length (po_shards p)] \<and>
     po_cap_overrides p = replicate (length (po_shards p)) None \<and> po_slow_flags p = replicate (length (po_shards p)) False"

lemma just_started_tally [simp]: "just_started (tally c n p) = just_started p"
  by (simp add: just_started_def tally_def)

lemma start_just_started: "start_pool E cfg media = Inr (p, pc) \<Longrightarrow> just_started p"
  unfolding just_started_def by (elim start_pool_parts) simp

lemma started_ranking:
  assumes "boot_pool EE pol xxh3 PE" and "just_started p"
  shows "let rank = snd (ranking_for PE k n p) in set rank \<subseteq> {i \<in> live_shards p. takes_writes pol (po_shards p ! i)} \<and> distinct rank \<and>
    length rank = min n (card {i \<in> live_shards p. takes_writes pol (po_shards p ! i)})"
    and "po_shards (fst (ranking_for PE k n p)) = po_shards p"
proof -
  let ?st = "\<lambda>i. if is_null (po_shards p ! i) then Faulted else Online" and ?N = "[0..<length (po_shards p)]"
  let ?topo = "map (\<lambda>i. (i, boot_capacity (po_shards p ! i), ?st i)) ?N"
  let ?P = "\<lambda>i. takes_writes pol (po_shards p ! i)"
  note s = assms(2) [unfolded just_started_def, THEN conjunct1] assms(2) [unfolded just_started_def, THEN conjunct2, THEN conjunct1]
    assms(2) [unfolded just_started_def, THEN conjunct2, THEN conjunct2, THEN conjunct1]
    assms(2) [unfolded just_started_def, THEN conjunct2, THEN conjunct2, THEN conjunct2]
  have ops: "pe_ops PE = boot_ops (disk_ops EE)" "pe_select PE = select pol xxh3" using assms(1) by (simp_all add: boot_pool_def)
  have "scan_topology PE ?N p = (p, ?topo)" using boot_scan [OF ops(1) _ s(3,4), of ?N] by (simp add: s(2))
  then have e: "snd (ranking_for PE k n p) = select pol xxh3 k ?topo n" and same: "po_shards (fst (ranking_for PE k n p)) = po_shards p"
    by (simp_all add: ranking_for_def pool_topology_def s(1) Let_def ops)
  have d: "distinct (map fst ?topo)" by (simp add: comp_def)
  have el: "eligible pol (boot_capacity (po_shards p ! i)) (?st i) \<longleftrightarrow> ?P i" for i
    by (cases "po_shards p ! i") (simp_all add: takes_writes_def boot_capacity_def eligible_def)
  have live: "{i \<in> live_shards p. ?P i} = {i \<in> set ?N. ?P i}"
    by (auto simp: live_shards_def takes_writes_def split: boot_shard.splits)
  have "length (ranking pol xxh3 k ?topo) = length (filter ?P ?N)"
    unfolding length_ranking filter_map by (simp add: comp_def el)
  also have "\<dots> = card {i \<in> set ?N. ?P i}" by (subst distinct_card [symmetric]) (auto intro!: arg_cong [where f = card])
  finally have len: "length (ranking pol xxh3 k ?topo) = card {i \<in> live_shards p. ?P i}" unfolding live .
  have "i \<in> {i \<in> live_shards p. ?P i}" if "i \<in> set (select pol xxh3 k ?topo n)" for i
  proof -
    obtain c st where "(i, c, st) \<in> set (ranking pol xxh3 k ?topo)"
      using \<open>i \<in> _\<close> by (auto simp: select_def dest!: in_set_takeD)
    then show ?thesis unfolding live set_ranking using el by auto
  qed
  then have sub: "set (select pol xxh3 k ?topo n) \<subseteq> {i \<in> live_shards p. ?P i}" by blast
  have "length (select pol xxh3 k ?topo n) = min n (card {i \<in> live_shards p. ?P i})"
    unfolding select_def length_map length_take len by (rule min.commute)
  then show "let rank = snd (ranking_for PE k n p) in set rank \<subseteq> {i \<in> live_shards p. ?P i} \<and> distinct rank \<and>
      length rank = min n (card {i \<in> live_shards p. ?P i})"
    unfolding e Let_def using sub select_laws(2) [OF d, of pol xxh3 k n] by blast
  show "po_shards (fst (ranking_for PE k n p)) = po_shards p" by (rule same)
qed

text \<open>The puts of the pool take the way of the started placement, whatever their bookkeeping.\<close>

definition holders :: "('e \<Rightarrow> block_key \<rightharpoonup> bytes) \<Rightarrow> block_key \<Rightarrow> bytes \<Rightarrow> 'e boot_shard pool \<Rightarrow> nat set" where
  "holders V k b p = {i \<in> live_shards p. boot_view V (po_shards p ! i) k = Some b}"

text \<open>C9: a mirrored pool is writable after a degraded start. If the disks that opened are consistent, have room and are not too full, a put that is
  acknowledged has reached the full write quorum of live disks, however many disks are missing; and if those disks have no fault, the put
  is acknowledged with all its copies.\<close>

theorem degraded_start_writes:
  assumes "engine_laws EE" and "boot_pool EE pol xxh3 PE" and "start_pool EE cfg media = Inr (p, pe_cfg PE)" and "mirror_cfg (pe_cfg PE)"
    and live: "\<forall>i \<in> live_shards p. boot_ok (engine_ok EE) (length (po_shards p)) (po_shards p ! i) \<and> takes_writes pol (po_shards p ! i)"
    and "fits k b" and "pool_put PE k b p = (p', r)"
  shows "(isl r \<or> pc_write_quorum (pe_cfg PE) \<le> card (holders (view EE) k b p')) \<and>
    ((\<forall>i \<in> live_shards p. boot_fine engine_fine (po_shards p ! i)) \<longrightarrow> r = Inr () \<and> pc_replicas (pe_cfg PE) \<le> card (holders (view EE) k b p'))"
proof -
  let ?W = "pc_write_quorum (pe_cfg PE)" and ?R = "pc_replicas (pe_cfg PE)" and ?p = "tally InflightPuts 1 p"
  note laws = boot_pool_laws [OF assms(1,2)]
  note cfg = start_copies [OF assms(3)]
  obtain topo where st: "\<not> po_shutting_down p" "po_topo p = None" using start_pool_parts [OF assms(3)] by metis
  have "boot_ok (engine_ok EE) (length (po_shards p)) (po_shards p ! i)" if "i < length (po_shards p)" for i
    using live \<open>i < _\<close> by (cases "po_shards p ! i") (auto simp: live_shards_def)
  then have ok: "pool_ok (boot_ok (engine_ok EE)) (length (po_shards ?p)) ?p" by (simp add: pool_ok_def st(2))
  obtain q where q: "put_mirror PE k b ?p = (q, r)" "po_shards p' = po_shards q" using pool_put_mirror [OF assms(4) st(1) assms(7)] .
  obtain p0 reps where rep: "replicas_for PE k ?p = (p0, reps)" by fastforce
  have reps: "snd (ranking_for PE k ?R p) = reps" using replicas_tally [of PE k InflightPuts 1 p] unfolding rep by (simp add: replicas_for_def)
  have all: "{i \<in> live_shards p. takes_writes pol (po_shards p ! i)} = live_shards p" using live by blast
  have rs: "set reps \<subseteq> live_shards p" "distinct reps" "length reps = ?R"
    using started_ranking(1) [OF assms(2) start_just_started [OF assms(3)], of k ?R] cfg unfolding Let_def reps all by auto
  from pool_laws.put_mirror_step [OF laws ok assms(6) q(1) rep] obtain S where S: "S \<subseteq> {0..<length (po_shards p)}"
      "pool_stepq (boot_ok (engine_ok EE)) (boot_view (view EE)) (boot_fine engine_fine) (length (po_shards p)) (write_at S k b (views (boot_view (view EE)) p)) ?p q"
      "isl r \<longleftrightarrow> reps = [] \<or> card S < min ?W (length reps)" "\<forall>i \<in> set reps - S. \<not> boot_fine engine_fine (po_shards p ! i)"
    unfolding tally_irrelevant tally_fields by (elim exE conjE) (rule that)
  have v: "views (boot_view (view EE)) q = write_at S k b (views (boot_view (view EE)) p)" "length (po_shards q) = length (po_shards p)"
    using pool_stepqD(2,3) [OF S(2)] by simp_all
  have h: "boot_view (view EE) (po_shards p' ! i) k = Some b" if "i \<in> S" for i
  proof -
    have i: "i < length (po_shards p)" using S(1) \<open>i \<in> S\<close> by auto
    have "views (boot_view (view EE)) q ! i = (views (boot_view (view EE)) p ! i)(k \<mapsto> b)" using i \<open>i \<in> S\<close> by (simp add: v(1) write_at_def)
    then show ?thesis using i by (simp add: nth_views v(2) q(2))
  qed
  have sub: "S \<subseteq> holders (view EE) k b p'"
  proof
    fix i
    assume i: "i \<in> S"
    with h [OF i] show "i \<in> holders (view EE) k b p'"
      using S(1) v(2) by (cases "po_shards q ! i") (auto simp: holders_def live_shards_def q(2))
  qed
  have fin: "finite (holders (view EE) k b p')" by (simp add: holders_def live_shards_def)
  note holds = card_mono [OF fin sub]
  have min: "min ?W (length reps) = ?W" "reps \<noteq> []" using cfg rs(3) by auto
  have "r = Inr () \<and> ?R \<le> card (holders (view EE) k b p')" if f: "\<forall>i \<in> live_shards p. boot_fine engine_fine (po_shards p ! i)"
  proof -
    have "set reps \<subseteq> S" using S(4) rs(1) f by blast
    then have "?R \<le> card S" using card_mono [of S "set reps"] S(1) distinct_card [OF rs(2)] rs(3) finite_subset by fastforce
    then have "\<not> isl r" using S(3) min cfg by auto
    then show ?thesis using \<open>?R \<le> card S\<close> holds by (cases r) auto
  qed
  then show ?thesis using S(3) min holds by auto
qed

text \<open>An erasure-coded pool may start with too few disks to write. The start only asks for as many working disks as a mirrored body has copies;
  with fewer than the write quorum of the code, every put of a body large enough to be coded is refused and no disk is touched.\<close>

theorem degraded_erasure_refuses:
  assumes "boot_pool EE pol xxh3 PE" and "start_pool EE cfg media = Inr (p, pe_cfg PE)" and "pc_ec (pe_cfg PE) = Some ec"
    and "ec_min_size ec \<le> length b" and "card (live_shards p) < ec_write_quorum ec" and "pool_put PE k b p = (p', r)"
  shows "r = Inl (QuorumNotReached 0 (ec_write_quorum ec)) \<and> po_shards p' = po_shards p"
proof -
  let ?p = "tally InflightPuts 1 p" and ?n = "ec_total ec"
  have st: "\<not> po_shutting_down p" "just_started ?p" using start_pool_parts [OF assms(2)] start_just_started [OF assms(2)] by (metis, simp)
  obtain p0 targets where rank: "ranking_for PE k ?n ?p = (p0, targets)" by fastforce
  have live: "live_shards ?p = live_shards p" by (simp add: live_shards_def)
  have "card {i \<in> live_shards p. takes_writes pol (po_shards p ! i)} \<le> card (live_shards p)"
    by (rule card_mono) (auto simp: live_shards_def)
  then have few: "length targets < ec_write_quorum ec" "po_shards p0 = po_shards p"
    using started_ranking [OF assms(1) st(2), of k ?n, unfolded rank fst_conv snd_conv Let_def live tally_fields] assms(5) by auto
  have "put_body PE k b ?p = (p0, Inl (QuorumNotReached 0 (ec_write_quorum ec)))"
    using assms(3,4) few(1) rank by (simp add: put_body_def put_ec_def Let_def)
  then have "put_inner PE k b ?p = (p0, Inl (QuorumNotReached 0 (ec_write_quorum ec)))"
    by (simp add: put_inner_def split: option.split)
  then show ?thesis using assms(6) st(1) few(2) by (auto simp: pool_put_def is_shutting_down_def Let_def)
qed

section \<open>Listing\<close>

lemma boot_list_shards:
  assumes "engine_laws EE" and "pe_ops PE = boot_ops (disk_ops EE)" and "pool_ok (boot_ok (engine_ok EE)) 0 p"
    and "\<forall>i \<in> set is. i < length (po_shards p)"
    and "\<forall>i < length (po_shards p). is_null (po_shards p ! i) \<or> boot_fine engine_fine (po_shards p ! i)"
  shows "\<exists>q out. list_shards PE pre after limit is merged p = (q, Inr out)"
  using assms(3-5)
proof (induction "is" arbitrary: p merged)
  case (Cons i "is")
  have i: "i < length (po_shards p)" using Cons.prems(2) by simp
  let ?s = "po_shards p ! i"
  obtain s' r where c: "so_list (boot_ops (disk_ops EE)) ?s pre after limit = (s', r)" by fastforce
  have ok: "boot_ok (engine_ok EE) 0 ?s" using Cons.prems(1) i by (simp add: pool_ok_def)
  have "\<exists>rows. r = Inr rows \<and> boot_ok (engine_ok EE) 0 s' \<and> (is_null s' \<or> boot_fine engine_fine s')"
  proof (cases ?s)
    case Null_Engine
    then show ?thesis using c by (auto simp: boot_ops_def)
  next
    case (Disk_Engine e)
    have "boot_fine engine_fine ?s" using Cons.prems(3) i Disk_Engine by fastforce
    then show ?thesis
      using shard_port.port_list [OF shard_port.boot_port [OF engine_laws.disk_port [OF assms(1)]] ok, of pre after limit] ok
      by (cases r) (auto simp: c shard_step_def)
  qed
  then obtain rows where r: "r = Inr rows" "boot_ok (engine_ok EE) 0 s'" "is_null s' \<or> boot_fine engine_fine s'" by blast
  let ?q = "p\<lparr>po_shards := (po_shards p)[i := s']\<rparr>"
  have call: "shard_call (\<lambda>s. so_list (pe_ops PE) s pre after limit) i p = (?q, Inr rows)" by (simp add: shard_call_def assms(2) c r(1))
  have "pool_ok (boot_ok (engine_ok EE)) 0 ?q" using Cons.prems(1) r(2) i by (simp add: pool_ok_def nth_list_update)
  moreover have "\<forall>j < length (po_shards ?q). is_null (po_shards ?q ! j) \<or> boot_fine engine_fine (po_shards ?q ! j)"
    using Cons.prems(3) r(3) i by (simp add: nth_list_update)
  ultimately show ?case using Cons.IH [of ?q] Cons.prems(2) by (simp add: call)
qed simp

text \<open>A listing does not tell that disks are missing. If the disks that opened have no fault, it succeeds however many disks did not open, and
  shows exactly the keys that the disks that opened hold.\<close>

theorem degraded_list_silent:
  assumes "engine_laws EE" and "boot_pool EE pol xxh3 PE" and "pool_ok (boot_ok (engine_ok EE)) 0 p"
    and "\<forall>i \<in> live_shards p. boot_fine engine_fine (po_shards p ! i)" and "\<forall>a. after = Some a \<longrightarrow> pre \<le> a"
  shows "\<exists>p' out ks. pool_list PE pre after limit p = (p', Inr out) \<and> map fst out = take limit ks \<and> sorted_wrt (<) ks \<and>
    set ks = (\<Union>i \<in> live_shards p. listed (boot_view (view EE) (po_shards p ! i)) pre after)"
proof -
  let ?V = "boot_view (view EE)"
  have "pe_ops PE = boot_ops (disk_ops EE)" using assms(2) by (simp add: boot_pool_def)
  then have "\<exists>q out. list_shards PE pre after limit [0..<length (po_shards p)] [] p = (q, Inr out)"
    by (rule boot_list_shards [OF assms(1) _ assms(3)]) (use assms(4) in \<open>auto simp: live_shards_def\<close>)
  then obtain p' out where l: "pool_list PE pre after limit p = (p', Inr out)" by (auto simp: pool_list_def)
  let ?K = "\<Union>i < length (po_shards p). listed (views ?V p ! i) pre after"
  have "finite ?K" "map fst out = take limit (sorted_list_of_set ?K)"
    using pool_laws.pool_list_spec [OF boot_pool_laws [OF assms(1,2)] assms(3,5), of limit] by (simp_all add: l)
  moreover have "?K = (\<Union>i \<in> live_shards p. listed (?V (po_shards p ! i)) pre after)"
  proof -
    have "listed (?V (po_shards p ! i)) pre after = {}" if "is_null (po_shards p ! i)" for i
      using that by (cases "po_shards p ! i") simp_all
    then show ?thesis by (auto simp: live_shards_def nth_views)
  qed
  ultimately show ?thesis using l sorted_list_of_set.strict_sorted_key_list_of_set
    by (intro exI [of _ p'] exI [of _ out] exI [of _ "sorted_list_of_set ?K"]) simp
qed

section \<open>The health monitor\<close>

definition probed_fsm :: "probe option \<Rightarrow> health_fsm \<Rightarrow> health_fsm" where
  "probed_fsm pr h = (case pr of None \<Rightarrow> h | Some x \<Rightarrow> health_step h (probe_observation x))"

lemma set_shard_status_statuses: "po_statuses (set_shard_status i st p) = (po_statuses p)[i := st]"
  by (simp add: set_shard_status_def) (metis list_update_beyond list_update_id not_less)

lemma shard_setters [simp]:
  "po_shards (set_shard_status i st p) = po_shards p" "po_shards (set_shard_capacity i cap p) = po_shards p"
  "po_statuses (set_shard_capacity i cap p) = po_statuses p"
  by (simp_all add: set_shard_status_def set_shard_capacity_def)

lemma monitor_shard_fields:
  "fst (monitor_shard i pr (fsms, p)) = fsms[i := probed_fsm (Some pr) (fsms ! i)]"
  "po_statuses (snd (monitor_shard i pr (fsms, p))) = (po_statuses p)[i := health_status (probed_fsm (Some pr) (fsms ! i))]"
  "po_shards (snd (monitor_shard i pr (fsms, p))) = po_shards p"
  by (auto simp: monitor_shard_def health_observe_def probed_fsm_def Let_def set_shard_status_statuses split: probe.split sum.split)

text \<open>The effect of a round on shard \<open>j\<close>.\<close>

lemma monitor_tick_fields:
  assumes "length fsms = length (po_statuses p)" and "k + length ps \<le> length fsms" and "j < length fsms"
  shows "let (fsms', p') = monitor_tick (enumerate k ps) (fsms, p); pr = (if k \<le> j \<and> j < k + length ps then ps ! (j - k) else None) in
    length fsms' = length fsms \<and> length (po_statuses p') = length (po_statuses p) \<and> po_shards p' = po_shards p \<and>
    fsms' ! j = probed_fsm pr (fsms ! j) \<and>
    po_statuses p' ! j = (if pr = None then po_statuses p ! j else health_status (fsms' ! j))"
  using assms
proof (induction ps arbitrary: k fsms p)
  case (Cons pr ps)
  show ?case
  proof (cases pr)
    case None
    from Cons.IH [of fsms p "Suc k"] Cons.prems show ?thesis
      by (auto simp: None probed_fsm_def Let_def nth_Cons' split: prod.splits)
  next
    case (Some x)
    obtain fs q where m: "monitor_shard k x (fsms, p) = (fs, q)" by fastforce
    note f = monitor_shard_fields [of k x fsms p, unfolded m fst_conv snd_conv]
    from Cons.IH [of fs q "Suc k"] Cons.prems show ?thesis
      by (auto simp: Some m f Let_def nth_Cons' probed_fsm_def [of None] nth_list_update split: prod.splits)
  qed
qed (auto simp: probed_fsm_def Let_def)

text \<open>What the monitor has seen of shard \<open>i\<close>.\<close>

definition seen :: "nat \<Rightarrow> probe option list list \<Rightarrow> observation list" where
  "seen i rounds = concat (map (\<lambda>ps. case ps ! i of None \<Rightarrow> [] | Some pr \<Rightarrow> [probe_observation pr]) rounds)"

lemma monitor_run_fields:
  assumes "\<forall>ps \<in> set rounds. length ps = length fsms" and "length (po_statuses p) = length fsms" and "i < length fsms"
  shows "let (fsms', p') = monitor_run rounds (fsms, p) in
    length (po_statuses p') = length (po_statuses p) \<and> po_shards p' = po_shards p \<and>
    fsms' ! i = health_run (fsms ! i) (seen i rounds) \<and>
    po_statuses p' ! i = (if seen i rounds = [] then po_statuses p ! i else health_status (fsms' ! i))"
  using assms
proof (induction rounds arbitrary: fsms p)
  case (Cons ps rounds)
  obtain fs q where m: "monitor_tick (enumerate 0 ps) (fsms, p) = (fs, q)" by fastforce
  have t: "length fs = length fsms" "length (po_statuses q) = length (po_statuses p)" "po_shards q = po_shards p"
      "fs ! i = probed_fsm (ps ! i) (fsms ! i)" "po_statuses q ! i = (if ps ! i = None then po_statuses p ! i else health_status (fs ! i))"
    using monitor_tick_fields [of fsms p 0 ps i] Cons.prems by (auto simp: m Let_def)
  have r: "monitor_run (ps # rounds) (fsms, p) = monitor_run rounds (fs, q)" by (simp add: monitor_run_def m)
  have h: "health_run (fsms ! i) (seen i (ps # rounds)) = health_run (fs ! i) (seen i rounds)"
    by (cases "ps ! i") (simp_all add: seen_def t(4) probed_fsm_def health_run_def health_observe_def Let_def)
  have e: "health_run h [] = h" for h by (simp add: health_run_def)
  have ne: "seen i (ps # rounds) = [] \<longleftrightarrow> ps ! i = None \<and> seen i rounds = []" by (cases "ps ! i") (simp_all add: seen_def)
  from Cons.IH [of fs q] Cons.prems show ?case unfolding r h ne
    by (auto simp: t(1-3) t(5) e split: prod.splits)
qed (simp add: monitor_run_def seen_def health_run_def)

text \<open>C22: after any number of monitor rounds, the status of a shard in the pool is that of the health state machine run over exactly what the probes of this
  shard showed, whatever happened to the others; a shard without a ZFS pool keeps the status it had.\<close>

theorem monitor_status_exact:
  assumes "\<forall>ps \<in> set rounds. length ps = length (dc_disks cfg)" and "length (po_statuses p) = length (dc_disks cfg)"
    and "i < length (dc_disks cfg)" and "monitor_run rounds (monitor_start cfg, p) = (fsms, p')"
  shows "pool_shard_status p' i = Some (if seen i rounds = [] then po_statuses p ! i
    else health_status (health_run (health_new (dc_drive_suspect_threshold cfg) (dc_drive_recover_threshold cfg)) (seen i rounds)))"
  using monitor_run_fields [of rounds "monitor_start cfg" p i] assms by (simp add: monitor_start_def pool_shard_status_def)

text \<open>The mark of a disk that did not open does not last. The monitor starts from a fresh state machine, so the first round that finds its ZFS pool
  healthy makes the shard Online again, and it takes part in placement with an engine that refuses every call.\<close>

theorem degraded_mark_lost:
  assumes "start_pool E cfg media = Inr (p, pc)" and "i < length (dc_disks cfg)" and "is_null (po_shards p ! i)"
    and "length ps = length (dc_disks cfg)" and "ps ! i = Some (Probed h cap)" and "to_shard_status h = Online"
    and "monitor_run [ps] (monitor_start cfg, p) = (fsms, p')"
  shows "pool_shard_status p i = Some Faulted \<and> pool_shard_status p' i = Some Online \<and> is_null (po_shards p' ! i)"
proof -
  have n: "length (po_shards p) = length (dc_disks cfg)" by (rule start_pool_parts [OF assms(1)]) (simp add: open_shards_def)
  have st: "po_statuses p = map (\<lambda>i. if is_null (po_shards p ! i) then Faulted else Online) [0..<length (dc_disks cfg)]"
    using start_just_started [OF assms(1)] by (simp add: just_started_def n)
  have "seen i [ps] = [Healthy]" using assms(5,6) by (simp add: seen_def)
  moreover have "health_status (health_run (health_new s r) [Healthy]) = Online" for s r
    by (simp add: health_run_def health_observe_def health_step_def health_new_def health_status_def)
  ultimately show ?thesis
    using monitor_run_fields [of "[ps]" "monitor_start cfg" p i] assms(2-4,7) by (simp add: monitor_start_def pool_shard_status_def st)
qed

section \<open>Background collection\<close>

text \<open>When the collection of a shard removes orphaned segments and rewrites no victim, the background collector panics: the round ends there, and
  the shards behind it are not collected, in this round or later.\<close>

theorem gc_task_stops:
  assumes "i < length (po_shards p)" and "so_gc (pe_ops E) (po_shards p ! i) ratio = (s', Inr rep)" and "victim_seg rep = None"
    and "0 < orphans_removed rep" and "gc_tick E ratio (i # is) p = (p', alive)"
  shows "\<not> alive \<and> po_shards p' = (po_shards p)[i := s']"
  using assms by (auto simp: shard_call_def Let_def)

section \<open>A concrete start\<close>

text \<open>Three disks, of which the last one has a fault when it is opened.\<close>

definition sample_cfg :: daemon_cfg where
  "sample_cfg = (daemon_cfg_default (replicate 3 \<lparr>dk_zfs_pool = Some ''tank'', dk_zfs_dataset = None, dk_failover_path = None\<rparr>))
     \<lparr>dc_engine := \<lparr>eg_segment_max_size = Some 50, eg_inline_min = Some 4, eg_fsync_items = Some 2, eg_compress = Some ''zstd'',
        eg_compress_min = Some 8, eg_ballast_bytes = None, eg_fadvise_dontneed = Some False\<rparr>,
      dc_ec_data := 2, dc_ec_parity := 1, dc_ec_min_size := 1\<rparr>"

definition sample_media :: "nat \<Rightarrow> ((bytes \<times> bytes) list, (bytes \<times> u64) list) medium" where
  "sample_media i = (if i = 2 then blank_disk\<lparr>fs_faults := [Fault NoSuchFile 0]\<rparr> else blank_disk, empty_index ref_env, [])"

definition sample_boot_env :: "pool_config \<Rightarrow> ((bytes \<times> bytes) list, (bytes \<times> u64) list) engine boot_shard pool_env" where
  "sample_boot_env pc =
     \<lparr>pe_ops = boot_ops (disk_ops ref_env), pe_cfg = pc, pe_select = select rendezvous_default (\<lambda>key seed. seed), pe_rs = xor_rs,
      pe_abao = tiny_abao, pe_latency = (\<lambda>t. t), pe_arrival = (\<lambda>t legs. rev legs), pe_holds = (\<lambda>t. [0, 0, 0])\<rparr>"

lemma sample_boot_pool: "boot_pool ref_env rendezvous_default (\<lambda>key seed. seed) (sample_boot_env pc)"
  by (simp add: boot_pool_def sample_boot_env_def)

lemma sample_engine_config: "engine_config_for sample_cfg d = small_config\<lparr>ec_failover := (dk_failover_path d \<noteq> None)\<rparr>"
  by (simp add: engine_config_for_def sample_cfg_def small_config_def unwrap_or_def Let_def)

lemma sample_opens:
  "engine_open ref_env small_config blank_disk (empty_index ref_env) [] = (fresh_engine, Inr ())"
  "\<exists>e er. engine_open ref_env small_config (blank_disk\<lparr>fs_faults := [Fault NoSuchFile 0]\<rparr>) (empty_index ref_env) [] = (e, Inl er)"
proof -
  have "snd (engine_open ref_env small_config blank_disk (empty_index ref_env) []) = Inr ()" by code_simp
  then show "engine_open ref_env small_config blank_disk (empty_index ref_env) [] = (fresh_engine, Inr ())"
    by (simp add: fresh_engine_def prod_eq_iff)
  have "isl (snd (engine_open ref_env small_config (blank_disk\<lparr>fs_faults := [Fault NoSuchFile 0]\<rparr>) (empty_index ref_env) []))"
    by code_simp
  then show "\<exists>e er. engine_open ref_env small_config (blank_disk\<lparr>fs_faults := [Fault NoSuchFile 0]\<rparr>) (empty_index ref_env) [] = (e, Inl er)"
    by (auto simp: isl_def prod_eq_iff)
qed

lemma sample_shards_open:
  assumes "dc_disks cfg = dc_disks sample_cfg" and "dc_engine cfg = dc_engine sample_cfg"
  shows "open_shards ref_env cfg sample_media = [Disk_Engine fresh_engine, Disk_Engine fresh_engine, Null_Engine]"
proof -
  have c: "engine_config_for cfg d = engine_config_for sample_cfg d" for d using assms(2) by (simp add: engine_config_for_def Let_def)
  have d: "dc_disks cfg = replicate 3 \<lparr>dk_zfs_pool = Some ''tank'', dk_zfs_dataset = None, dk_failover_path = None\<rparr>"
    by (simp add: assms(1) sample_cfg_def daemon_cfg_default_def)
  have s: "small_config\<lparr>ec_failover := False\<rparr> = small_config" by (simp add: small_config_def)
  show ?thesis using sample_opens
    by (simp add: open_shards_def d open_shard_def c sample_engine_config s sample_media_def upt_rec numeral_3_eq_3 split: prod.splits sum.splits) auto
qed

lemma sample_start:
  assumes "cfg = sample_cfg \<or> cfg = sample_cfg\<lparr>dc_redundancy := ''erasure''\<rparr>"
  obtains p ec where "start_pool ref_env cfg sample_media = Inr (p, pool_config_of cfg ec)" "ec_of_config cfg = Inr ec"
    "po_shards p = [Disk_Engine fresh_engine, Disk_Engine fresh_engine, Null_Engine]" "live_shards p = {0, 1}"
proof -
  have d: "dc_disks cfg = replicate 3 \<lparr>dk_zfs_pool = Some ''tank'', dk_zfs_dataset = None, dk_failover_path = None\<rparr>"
      "dc_engine cfg = dc_engine sample_cfg" "dc_replicas cfg = 2" "dc_write_quorum cfg = 2" "dc_log_format cfg = ''text''"
    using assms by (auto simp: sample_cfg_def daemon_cfg_default_def)
  have o: "open_shards ref_env cfg sample_media = [Disk_Engine fresh_engine, Disk_Engine fresh_engine, Null_Engine]"
    by (rule sample_shards_open) (use assms in auto)
  have chk: "check_config cfg = Inr ()" by (simp add: check_config_def d)
  have ec: "\<exists>ec. ec_of_config cfg = Inr ec"
    using assms by (auto simp: ec_of_config_def sample_cfg_def daemon_cfg_default_def Let_def)
  then obtain ec where e: "ec_of_config cfg = Inr ec" by blast
  have down: "faulted_at_start [Disk_Engine fresh_engine, Disk_Engine fresh_engine, Null_Engine] = [2]"
    by (simp add: faulted_at_start_def upt_rec numeral_2_eq_2)
  have "\<exists>p. pool_new [Disk_Engine fresh_engine, Disk_Engine fresh_engine, Null_Engine] (pool_config_of cfg ec) = Some p"
    by (simp add: pool_new_def pool_config_of_def d Let_def split: prod.split)
  then obtain p where "start_pool ref_env cfg sample_media = Inr (p, pool_config_of cfg ec)"
    by (auto simp: start_pool_def chk o down e d Let_def)
  moreover from this have "po_shards p = [Disk_Engine fresh_engine, Disk_Engine fresh_engine, Null_Engine]"
    by (rule start_pool_parts) (simp add: o)
  moreover from this have "live_shards p = {0, 1}" by (auto simp: live_shards_def nth_Cons' less_Suc_eq)
  ultimately show ?thesis using that e by blast
qed

lemma sample_live:
  assumes "po_shards p = [Disk_Engine fresh_engine, Disk_Engine fresh_engine, Null_Engine]" and "live_shards p = {0, 1}" and "n \<le> 500"
  shows "\<forall>i \<in> live_shards p. boot_ok (engine_ok ref_env) n (po_shards p ! i) \<and> takes_writes rendezvous_default (po_shards p ! i)"
    and "\<forall>i \<in> live_shards p. boot_fine engine_fine (po_shards p ! i)"
proof -
  have "eligible rendezvous_default (engine_capacity fresh_engine) Online"
    by (simp add: eligible_def engine_capacity_def fresh_engine_eq blank_disk_def rendezvous_default_def fs_total_bytes_def fs_free_bytes_def unwrap_or_def)
  then show "\<forall>i \<in> live_shards p. boot_ok (engine_ok ref_env) n (po_shards p ! i) \<and> takes_writes rendezvous_default (po_shards p ! i)"
    using fresh_engine_inv assms(3) by (simp add: assms(1,2) engine_ok_def room_def takes_writes_def)
  show "\<forall>i \<in> live_shards p. boot_fine engine_fine (po_shards p ! i)" by (simp add: assms(1,2) fresh_engine_fine)
qed

theorem degraded_start_sound_witness:
  "\<exists>p pc. start_pool ref_env sample_cfg sample_media = Inr (p, pc) \<and> pool_shard_status p 2 = Some Faulted \<and>
     pool_shard_status p 1 = Some Online \<and> pc_replicas pc \<le> card (live_shards p)"
proof -
  obtain p ec where s: "start_pool ref_env sample_cfg sample_media = Inr (p, pool_config_of sample_cfg ec)" using sample_start by blast
  have f: "snd (snd (sample_media i)) = []" "fst (snd (sample_media i)) = empty_index ref_env"
    "fst (sample_media i) = (if i = 2 then blank_disk\<lparr>fs_faults := [Fault NoSuchFile 0]\<rparr> else blank_disk)" for i
    by (simp_all add: sample_media_def)
  have d: "dc_disks sample_cfg = replicate 3 \<lparr>dk_zfs_pool = Some ''tank'', dk_zfs_dataset = None, dk_failover_path = None\<rparr>"
    by (simp add: sample_cfg_def daemon_cfg_default_def)
  have c: "small_config\<lparr>ec_failover := False\<rparr> = small_config" by (simp add: small_config_def)
  show ?thesis
    using s degraded_start_sound [OF s] sample_opens by (auto simp: f d sample_engine_config c)
qed

theorem degraded_start_writes_witness:
  "\<exists>p p'. start_pool ref_env sample_cfg sample_media = Inr (p, pool_config_of sample_cfg None) \<and> is_null (po_shards p ! 2) \<and>
     pool_put (sample_boot_env (pool_config_of sample_cfg None)) [7] [1, 2, 3] p = (p', Inr ()) \<and> 2 \<le> card (holders (view ref_env) [7] [1, 2, 3] p')"
proof -
  let ?pc = "pool_config_of sample_cfg None"
  obtain p ec where s: "start_pool ref_env sample_cfg sample_media = Inr (p, pool_config_of sample_cfg ec)" "ec_of_config sample_cfg = Inr ec"
      "po_shards p = [Disk_Engine fresh_engine, Disk_Engine fresh_engine, Null_Engine]" "live_shards p = {0, 1}" using sample_start by blast
  have ec: "ec = None" using s(2) by (simp add: ec_of_config_def sample_cfg_def daemon_cfg_default_def)
  have pe: "pe_cfg (sample_boot_env ?pc) = ?pc" by (simp add: sample_boot_env_def)
  have m: "mirror_cfg ?pc" "pc_replicas ?pc = 2" by (simp_all add: mirror_cfg_def pool_config_of_def sample_cfg_def daemon_cfg_default_def)
  obtain p' r where put: "pool_put (sample_boot_env ?pc) [7] [1, 2, 3] p = (p', r)" by fastforce
  have fit: "fits [7] [1, 2, 3]" by (simp add: fits_def)
  have len: "length (po_shards p) \<le> 500" by (simp add: s(3))
  from degraded_start_writes [OF ref_env.engine_laws_axioms sample_boot_pool, of _ sample_media p ?pc, unfolded pe, OF s(1) [unfolded ec] m(1) sample_live(1) [OF s(3,4) len] fit put]
  show ?thesis using s(1,3) sample_live(2) [OF s(3,4) len] put by (intro exI [of _ p] exI [of _ p']) (simp add: ec m(2))
qed

theorem degraded_erasure_refuses_witness:
  "\<exists>p ec p'. start_pool ref_env (sample_cfg\<lparr>dc_redundancy := ''erasure''\<rparr>) sample_media
       = Inr (p, pool_config_of (sample_cfg\<lparr>dc_redundancy := ''erasure''\<rparr>) (Some ec)) \<and>
     pool_put (sample_boot_env (pool_config_of (sample_cfg\<lparr>dc_redundancy := ''erasure''\<rparr>) (Some ec))) [7] [1, 2, 3] p
       = (p', Inl (QuorumNotReached 0 3)) \<and> po_shards p' = po_shards p"
proof -
  let ?cfg = "sample_cfg\<lparr>dc_redundancy := ''erasure''\<rparr>"
  obtain p x where s: "start_pool ref_env ?cfg sample_media = Inr (p, pool_config_of ?cfg x)" "ec_of_config ?cfg = Inr x"
      "live_shards p = {0, 1}" using sample_start [of ?cfg] by blast
  obtain ec where ec: "x = Some ec" "ec_write_quorum ec = 3" "ec_min_size ec = 1"
    using s(2) by (auto simp: ec_of_config_def sample_cfg_def daemon_cfg_default_def unwrap_or_def Let_def)
  let ?pc = "pool_config_of ?cfg (Some ec)"
  have pe: "pe_cfg (sample_boot_env ?pc) = ?pc" by (simp add: sample_boot_env_def)
  have pc: "pc_ec ?pc = Some ec" by (simp add: pool_config_of_def)
  obtain p' r where put: "pool_put (sample_boot_env ?pc) [7] [1, 2, 3] p = (p', r)" by fastforce
  have c: "card (live_shards p) < ec_write_quorum ec" "ec_min_size ec \<le> length [1, 2, 3]" by (simp_all add: s(3) ec)
  from degraded_erasure_refuses [OF sample_boot_pool, of ?cfg sample_media p ?pc, unfolded pe, OF s(1) [unfolded ec] pc c(2,1) put] s(1) put
  show ?thesis by (intro exI [of _ p] exI [of _ ec] exI [of _ p']) (simp add: ec)
qed

theorem degraded_list_silent_witness:
  "\<exists>p p'. start_pool ref_env sample_cfg sample_media = Inr (p, pool_config_of sample_cfg None) \<and> is_null (po_shards p ! 2) \<and>
     pool_list (sample_boot_env (pool_config_of sample_cfg None)) [] None 10 p = (p', Inr [])"
proof -
  let ?E = "sample_boot_env (pool_config_of sample_cfg None)"
  obtain p ec where s: "start_pool ref_env sample_cfg sample_media = Inr (p, pool_config_of sample_cfg ec)" "ec_of_config sample_cfg = Inr ec"
      "po_shards p = [Disk_Engine fresh_engine, Disk_Engine fresh_engine, Null_Engine]" "live_shards p = {0, 1}" using sample_start by blast
  have ec: "ec = None" using s(2) by (simp add: ec_of_config_def sample_cfg_def daemon_cfg_default_def)
  have "po_topo p = None" using start_just_started [OF s(1)] by (simp add: just_started_def)
  then have ok: "pool_ok (boot_ok (engine_ok ref_env)) 0 p"
    using fresh_engine_inv by (simp add: pool_ok_def s(3) nth_Cons' engine_ok_def room_def)
  have empty: "listed (boot_view (view ref_env) (po_shards p ! i)) [] None = {}" if "i \<in> live_shards p" for i
    using that by (auto simp: s(3,4) fresh_engine_view)
  have "\<exists>p'. pool_list ?E [] None 10 p = (p', Inr [])"
    using degraded_list_silent [OF ref_env.engine_laws_axioms sample_boot_pool ok sample_live(2) [OF s(3,4), of 0], of None "[]" _ 10] empty by fastforce
  then show ?thesis using s(1,3) by (auto simp: ec)
qed

definition sample_health :: pool_health where
  "sample_health = \<lparr>ph_pool = ''tank'', ph_state = ONLINE, ph_devices = [], ph_scrub = scrub_info_default\<rparr>"

lemma sample_health_online: "to_shard_status sample_health = Online"
  by (simp add: to_shard_status_def sample_health_def total_errors_def)

theorem monitor_status_exact_witness:
  "\<exists>p fsms p'. start_pool ref_env sample_cfg sample_media = Inr (p, pool_config_of sample_cfg None) \<and>
     monitor_run (replicate 4 [Some Timed_Out, None, None]) (monitor_start sample_cfg, p) = (fsms, p') \<and>
     pool_shard_status p' 0 = Some Faulted \<and> pool_shard_status p' 1 = Some Online"
proof -
  let ?rounds = "replicate 4 [Some Timed_Out, None, None]"
  obtain p ec where s: "start_pool ref_env sample_cfg sample_media = Inr (p, pool_config_of sample_cfg ec)" "ec_of_config sample_cfg = Inr ec"
      "po_shards p = [Disk_Engine fresh_engine, Disk_Engine fresh_engine, Null_Engine]" using sample_start by blast
  have ec: "ec = None" using s(2) by (simp add: ec_of_config_def sample_cfg_def daemon_cfg_default_def)
  have st: "po_statuses p = [Online, Online, Faulted]" using start_just_started [OF s(1)] by (simp add: just_started_def s(3) upt_rec)
  obtain fsms p' where m: "monitor_run ?rounds (monitor_start sample_cfg, p) = (fsms, p')" by fastforce
  have d: "length (dc_disks sample_cfg) = 3" "dc_drive_suspect_threshold sample_cfg = 3" "dc_drive_recover_threshold sample_cfg = 2"
    by (simp_all add: sample_cfg_def daemon_cfg_default_def)
  have seen: "seen 0 ?rounds = [Down, Down, Down, Down]" "seen 1 ?rounds = []" by (simp_all add: seen_def numeral_eq_Suc)
  have run: "health_status (health_run (health_new 3 2) [Down, Down, Down, Down]) = Faulted" by code_simp
  have "pool_shard_status p' 0 = Some Faulted \<and> pool_shard_status p' 1 = Some Online"
    using monitor_status_exact [OF _ _ _ m, of 0, unfolded seen d run] monitor_status_exact [OF _ _ _ m, of 1, unfolded seen d run] by (simp add: st)
  then show ?thesis using s(1) m by (auto simp: ec)
qed

theorem degraded_mark_lost_witness:
  "\<exists>p fsms p'. start_pool ref_env sample_cfg sample_media = Inr (p, pool_config_of sample_cfg None) \<and>
     monitor_run [[None, None, Some (Probed sample_health (Inl ParseFailed))]] (monitor_start sample_cfg, p) = (fsms, p') \<and>
     pool_shard_status p 2 = Some Faulted \<and> pool_shard_status p' 2 = Some Online \<and> is_null (po_shards p' ! 2)"
proof -
  let ?ps = "[None, None, Some (Probed sample_health (Inl ParseFailed))]"
  obtain p ec where s: "start_pool ref_env sample_cfg sample_media = Inr (p, pool_config_of sample_cfg ec)" "ec_of_config sample_cfg = Inr ec"
      "po_shards p = [Disk_Engine fresh_engine, Disk_Engine fresh_engine, Null_Engine]" using sample_start by blast
  have ec: "ec = None" using s(2) by (simp add: ec_of_config_def sample_cfg_def daemon_cfg_default_def)
  obtain fsms p' where m: "monitor_run [?ps] (monitor_start sample_cfg, p) = (fsms, p')" by fastforce
  have d: "length (dc_disks sample_cfg) = 3" by (simp add: sample_cfg_def daemon_cfg_default_def)
  show ?thesis using degraded_mark_lost [OF s(1) _ _ _ _ sample_health_online m, of 2 "Inl ParseFailed"] s(1) m by (auto simp: d s(3) ec)
qed

text \<open>An engine with an orphaned segment file: no row points into it.\<close>

definition orphan_engine :: "((bytes \<times> bytes) list, (bytes \<times> u64) list) engine" where
  "orphan_engine = fresh_engine\<lparr>en_disk := (en_disk fresh_engine)\<lparr>fs_files := [((Primary, 0), []), ((Primary, 9), [1])]\<rparr>\<rparr>"

lemma orphan_gc: "\<exists>s' rep. engine_gc ref_env orphan_engine (1 / 2) = (s', Inr rep) \<and> victim_seg rep = None \<and> orphans_removed rep = 1"
proof -
  have "case snd (engine_gc ref_env orphan_engine (1 / 2)) of Inr rep \<Rightarrow> victim_seg rep = None \<and> orphans_removed rep = 1 | Inl e \<Rightarrow> False"
    by code_simp
  then show ?thesis by (auto simp: prod_eq_iff split: sum.splits)
qed

theorem gc_task_stops_witness:
  "\<exists>s' p'. gc_tick ref_pool_env (1 / 2) [0, 1, 2] (ref_pool\<lparr>po_shards := [orphan_engine, orphan_engine, orphan_engine]\<rparr>) = (p', False) \<and>
     po_shards p' = [s', orphan_engine, orphan_engine]"
proof -
  obtain s' rep where g: "engine_gc ref_env orphan_engine (1 / 2) = (s', Inr rep)" "victim_seg rep = None" "orphans_removed rep = 1"
    using orphan_gc by blast
  let ?p = "ref_pool\<lparr>po_shards := [orphan_engine, orphan_engine, orphan_engine]\<rparr>"
  obtain p' alive where t: "gc_tick ref_pool_env (1 / 2) [0, 1, 2] ?p = (p', alive)" by fastforce
  have gc: "so_gc (pe_ops ref_pool_env) (po_shards ?p ! 0) (1 / 2) = (s', Inr rep)" using g(1) by (simp add: ref_pool_env_def disk_ops_def)
  show ?thesis using gc_task_stops [OF _ gc g(2) _ t] t by (auto simp: g(3))
qed

end
