(* ===== verification/Snapshot.thy ===== *)
theory Snapshot
  imports Pool Sigv4
begin

text \<open>
  The snapshots of the admin API (\<open>ozd-admin/src/lib.rs\<close>): hard links to segment files, their listing, their removal and retention, and the
  time stamps that name them. The file system is a tree of paths; a file refers to an inode, which a hard link shares. Calls fail where an entry
  is missing or of the wrong kind; other failures of the file system are not modelled. The tree is apart from the disks of the engines.
\<close>

section \<open>A file system\<close>

type_synonym path = "string list"

datatype node = Dir | File nat

record tree =
  tr_nodes :: "(path \<times> node) list"
  tr_len :: "nat \<Rightarrow> nat"

definition node_at :: "tree \<Rightarrow> path \<Rightarrow> node option" where
  "node_at t p = map_of (tr_nodes t) p"

definition children :: "tree \<Rightarrow> path \<Rightarrow> string list" where
  "children t p = map last (filter (\<lambda>q. q \<noteq> [] \<and> butlast q = p) (map fst (tr_nodes t)))"

definition read_dir :: "tree \<Rightarrow> path \<Rightarrow> string list option" where
  "read_dir t p = (if node_at t p = Some Dir then Some (children t p) else None)"

fun create_dirs :: "path list \<Rightarrow> tree \<Rightarrow> tree option" where
  "create_dirs [] t = Some t"
| "create_dirs (p # ps) t =
     (case node_at t p of
        None \<Rightarrow> create_dirs ps (t\<lparr>tr_nodes := (p, Dir) # tr_nodes t\<rparr>)
      | Some Dir \<Rightarrow> create_dirs ps t
      | Some (File i) \<Rightarrow> None)"

text \<open>\<open>create_dir_all\<close>: the directory with its ancestors, the longest path last.\<close>

definition create_dir_all :: "path \<Rightarrow> tree \<Rightarrow> tree option" where
  "create_dir_all p t = create_dirs (map (\<lambda>n. take n p) [1..<length p + 1]) t"

definition hard_link :: "path \<Rightarrow> path \<Rightarrow> tree \<Rightarrow> tree option" where
  "hard_link src dst t =
     (case node_at t src of
        Some (File i) \<Rightarrow> if node_at t dst = None \<and> node_at t (butlast dst) = Some Dir then Some (t\<lparr>tr_nodes := (dst, File i) # tr_nodes t\<rparr>) else None
      | _ \<Rightarrow> None)"

definition delete_paths :: "(path \<Rightarrow> bool) \<Rightarrow> tree \<Rightarrow> tree" where
  "delete_paths P t = t\<lparr>tr_nodes := filter (\<lambda>(q, _). \<not> P q) (tr_nodes t)\<rparr>"

definition remove_file_at :: "path \<Rightarrow> tree \<Rightarrow> tree \<times> bool" where
  "remove_file_at p t = (case node_at t p of Some (File i) \<Rightarrow> (delete_paths (\<lambda>q. q = p) t, True) | _ \<Rightarrow> (t, False))"

definition remove_dir_at :: "path \<Rightarrow> tree \<Rightarrow> tree \<times> bool" where
  "remove_dir_at p t = (if node_at t p = Some Dir \<and> children t p = [] then (delete_paths (\<lambda>q. q = p) t, True) else (t, False))"

definition remove_dir_all :: "path \<Rightarrow> tree \<Rightarrow> tree" where
  "remove_dir_all p t = delete_paths (\<lambda>q. starts_with q p) t"

section \<open>Where snapshots are\<close>

definition snap_path_for :: "path option \<Rightarrow> path \<Rightarrow> string \<Rightarrow> nat \<Rightarrow> path" where
  "snap_path_for snapshot_dir data_path i shard =
     (case snapshot_dir of
        Some dir \<Rightarrow> dir @ [i, ''shard-'' @ show_nat shard]
      | None \<Rightarrow> data_path @ [''snapshots'', i])"

definition snap_root_for :: "path option \<Rightarrow> path \<Rightarrow> path" where
  "snap_root_for snapshot_dir data_path_0 = (case snapshot_dir of Some dir \<Rightarrow> dir | None \<Rightarrow> data_path_0 @ [''snapshots''])"

text \<open>The kernel drops the components \<open>.\<close> of a path; removing a directory by such a name is an error.\<close>

definition resolve :: "path \<Rightarrow> path" where
  "resolve p = filter (\<lambda>c. c \<noteq> ''.'') p"

section \<open>Time stamps\<close>

definition pad :: "nat \<Rightarrow> nat \<Rightarrow> string" where
  "pad w n = replicate (w - length (show_nat n)) CHR ''0'' @ show_nat n"

text \<open>Year, month and day of a day since 1970, as the code computes them.\<close>

definition civil_of_days :: "nat \<Rightarrow> nat \<times> nat \<times> nat" where
  "civil_of_days days =
     (let z = days + 719468; era = z div 146097; doe = z - era * 146097;
          yoe = (doe - doe div 1460 + doe div 36524 - doe div 146096) div 365;
          y = yoe + era * 400; doy = doe - (365 * yoe + yoe div 4 - yoe div 100);
          mp = (5 * doy + 2) div 153; d = doy - (153 * mp + 2) div 5 + 1;
          mo = (if mp < 10 then mp + 3 else mp - 9) in
      (if mo \<le> 2 then y + 1 else y, mo, d))"

definition chrono_lite :: "nat \<Rightarrow> string" where
  "chrono_lite secs =
     (let (yr, mo, d) = civil_of_days (secs div 86400); rem = secs mod 86400 in
      pad 4 yr @ pad 2 mo @ pad 2 d @ ''-'' @ pad 2 (rem div 3600) @ pad 2 ((rem mod 3600) div 60) @ pad 2 (rem mod 60))"

definition hex4 :: "nat \<Rightarrow> string" where
  "hex4 n = map nibble [n div 4096 mod 16, n div 256 mod 16, n div 16 mod 16, n mod 16]"

definition snapshot_id :: "nat \<Rightarrow> nat \<Rightarrow> string" where
  "snapshot_id secs nanos = chrono_lite secs @ ''-'' @ hex4 nanos"

section \<open>The handlers\<close>

record snapshot_response =
  sn_id :: string
  sn_shards :: nat
  sn_segments :: nat
  sn_bytes :: nat

record snapshot_item =
  si_id :: string
  si_segments :: nat
  si_bytes :: nat

record snapshot_delete =
  sd_id :: string
  sd_deleted_files :: nat
  sd_deleted_dirs :: nat

record snapshot_retention =
  sr_kept :: nat
  sr_deleted :: nat
  sr_deleted_ids :: "string list"

definition seg_name :: "string \<Rightarrow> bool" where
  "seg_name n \<longleftrightarrow> starts_with n ''seg.'' \<and> starts_with (rev n) (rev ''.dat'')"

definition file_len :: "tree \<Rightarrow> path \<Rightarrow> nat" where
  "file_len t p = (case node_at t p of Some (File i) \<Rightarrow> tr_len t i | _ \<Rightarrow> 0)"

subsection \<open>Creation\<close>

fun link_segments :: "path \<Rightarrow> path \<Rightarrow> string list \<Rightarrow> tree \<times> nat \<times> nat \<Rightarrow> tree \<times> nat \<times> nat" where
  "link_segments src dst [] acc = acc"
| "link_segments src dst (n # ns) (t, segs, sz) =
     (if \<not> seg_name n then link_segments src dst ns (t, segs, sz)
      else case hard_link (src @ [n]) (dst @ [n]) t of
        Some t' \<Rightarrow> link_segments src dst ns (t', segs + 1, sz + file_len t (src @ [n]))
      | None \<Rightarrow> link_segments src dst ns (t, segs, sz))"

fun snapshot_shards :: "path option \<Rightarrow> string \<Rightarrow> (nat \<times> path) list \<Rightarrow> tree \<times> nat \<times> nat \<Rightarrow> tree \<times> (string + nat \<times> nat)" where
  "snapshot_shards sd i [] (t, segs, sz) = (t, Inr (segs, sz))"
| "snapshot_shards sd i ((s, dp) # dps) (t, segs, sz) =
     (let dst = snap_path_for sd dp i s in
      case create_dir_all dst t of
        None \<Rightarrow> (t, Inl (''mkdir ''))
      | Some t \<Rightarrow> (case read_dir t dp of
          None \<Rightarrow> (t, Inl (''readdir shard '' @ show_nat s))
        | Some names \<Rightarrow> snapshot_shards sd i dps (link_segments dp dst names (t, segs, sz))))"

definition create_snapshot ::
  "'s pool_env \<Rightarrow> path option \<Rightarrow> path list \<Rightarrow> nat \<Rightarrow> nat \<Rightarrow> 's pool \<times> tree \<Rightarrow> ('s pool \<times> tree) \<times> (string + snapshot_response)" where
  "create_snapshot E sd dps secs nanos = (\<lambda>(p, t).
     let p = fst (flush_all E p); i = snapshot_id secs (nanos mod 65536) in
     case snapshot_shards sd i (enumerate 0 dps) (t, 0, 0) of
       (t, Inl er) \<Rightarrow> ((p, t), Inl er)
     | (t, Inr (segs, sz)) \<Rightarrow> ((p, t), Inr \<lparr>sn_id = i, sn_shards = length dps, sn_segments = segs, sn_bytes = sz\<rparr>))"

subsection \<open>Listing\<close>

text \<open>The directories under the root. The first data path alone is asked in the layout without a common directory.\<close>

definition snapshot_ids :: "path option \<Rightarrow> path list \<Rightarrow> tree \<Rightarrow> string list" where
  "snapshot_ids sd dps t =
     (let root = snap_root_for sd (dps ! 0) in
      case read_dir t root of None \<Rightarrow> [] | Some names \<Rightarrow> filter (\<lambda>n. node_at t (root @ [n]) = Some Dir) names)"

definition count_segments :: "tree \<Rightarrow> path \<Rightarrow> nat \<times> nat" where
  "count_segments t dir =
     (case read_dir t dir of
        None \<Rightarrow> (0, 0)
      | Some names \<Rightarrow> let segs = filter seg_name names in (length segs, sum_list (map (\<lambda>n. file_len t (dir @ [n])) segs)))"

definition snapshot_item_of :: "path option \<Rightarrow> path list \<Rightarrow> tree \<Rightarrow> string \<Rightarrow> snapshot_item" where
  "snapshot_item_of sd dps t i =
     (let counts = map (\<lambda>(s, dp). count_segments t (snap_path_for sd dp i s)) (enumerate 0 dps) in
      \<lparr>si_id = i, si_segments = sum_list (map fst counts), si_bytes = sum_list (map snd counts)\<rparr>)"

definition list_snapshots :: "path option \<Rightarrow> path list \<Rightarrow> tree \<Rightarrow> snapshot_item list" where
  "list_snapshots sd dps t = sort_key si_id (map (snapshot_item_of sd dps t) (snapshot_ids sd dps t))"

subsection \<open>Removal\<close>

fun remove_files :: "path \<Rightarrow> string list \<Rightarrow> tree \<times> nat \<Rightarrow> tree \<times> nat" where
  "remove_files dir [] acc = acc"
| "remove_files dir (n # ns) (t, k) = (let (t, gone) = remove_file_at (dir @ [n]) t in remove_files dir ns (t, if gone then k + 1 else k))"

text \<open>One shard: whether it has the snapshot, and what was removed.\<close>

definition delete_on_shard :: "path \<Rightarrow> tree \<Rightarrow> tree \<times> bool \<times> nat \<times> nat" where
  "delete_on_shard p t =
     (let dir = resolve p in
      if node_at t dir \<noteq> Some Dir then (t, False, 0, 0)
      else
        let (t, files) = remove_files dir (children t dir) (t, 0);
            (t, gone) = (if last p = ''.'' then (t, False) else remove_dir_at dir t) in
        (t, True, files, if gone then 1 else 0))"

fun delete_shards :: "path list \<Rightarrow> tree \<times> bool \<times> nat \<times> nat \<Rightarrow> tree \<times> bool \<times> nat \<times> nat" where
  "delete_shards [] acc = acc"
| "delete_shards (p # ps) (t, found, files, dirs) =
     (let (t, f, k, d) = delete_on_shard p t in delete_shards ps (t, found \<or> f, files + k, dirs + d))"

definition contains_dots :: "string \<Rightarrow> bool" where
  "contains_dots s \<longleftrightarrow> (\<exists>k < length s. starts_with (drop k s) ''..'')"

definition snapshot_paths :: "path option \<Rightarrow> path list \<Rightarrow> string \<Rightarrow> path list" where
  "snapshot_paths sd dps i = map (\<lambda>(s, dp). snap_path_for sd dp i s) (enumerate 0 dps)"

definition delete_snapshot ::
  "path option \<Rightarrow> path list \<Rightarrow> string option \<Rightarrow> tree \<Rightarrow> tree \<times> (nat \<times> string + snapshot_delete)" where
  "delete_snapshot sd dps param t =
     (case param of
        None \<Rightarrow> (t, Inl (400, ''id parameter required''))
      | Some i \<Rightarrow>
          if i = [] \<or> CHR ''/'' \<in> set i \<or> contains_dots i then (t, Inl (400, ''invalid snapshot id''))
          else case delete_shards (snapshot_paths sd dps i) (t, False, 0, 0) of (t, found, files, dirs) \<Rightarrow>
            if found then (t, Inr \<lparr>sd_id = i, sd_deleted_files = files, sd_deleted_dirs = dirs\<rparr>)
            else (t, Inl (404, ''snapshot not found'')))"

definition remove_snapshot :: "path option \<Rightarrow> path list \<Rightarrow> string \<Rightarrow> tree \<Rightarrow> tree" where
  "remove_snapshot sd dps i t = fold (\<lambda>p t. if node_at t p = Some Dir then remove_dir_all p t else t) (snapshot_paths sd dps i) t"

definition delete_old_snapshots ::
  "path option \<Rightarrow> path list \<Rightarrow> string option \<Rightarrow> tree \<Rightarrow> tree \<times> (nat \<times> string + snapshot_retention)" where
  "delete_old_snapshots sd dps param t =
     (case Option.bind param (parse_unsigned 64) of
        None \<Rightarrow> (t, Inl (400, ''keep parameter required (>=1)''))
      | Some keep \<Rightarrow>
          if keep = 0 then (t, Inl (400, ''keep parameter required (>=1)''))
          else
            let ids = sort (snapshot_ids sd dps t) in
            if length ids \<le> keep then (t, Inr \<lparr>sr_kept = length ids, sr_deleted = 0, sr_deleted_ids = []\<rparr>)
            else
              let old = take (length ids - keep) ids in
              (fold (remove_snapshot sd dps) old t, Inr \<lparr>sr_kept = keep, sr_deleted = length old, sr_deleted_ids = old\<rparr>))"

end
