(* ===== verification/Snapshot_Thms.thy ===== *)
theory Snapshot_Thms
  imports Snapshot
begin

text \<open>
  Properties of the snapshots: the time in a name is read back by the gateway's own parser of dates and names sort by time, so retention keeps
  the newest; a removal stays within the snapshot it names.
\<close>

section \<open>The calendar\<close>

definition yoe_of :: "nat \<Rightarrow> nat" where
  "yoe_of doe = (doe - doe div 1460 + doe div 36524 - doe div 146096) div 365"

definition year_start :: "nat \<Rightarrow> nat" where
  "year_start y = 365 * y + y div 4 - y div 100"



text \<open>A day of the era, split at centuries, at four years and at years.\<close>

lemma era_split:
  assumes "(doe :: nat) < 146097"
  obtains c b a r where "doe = 36524 * c + 1461 * b + 365 * a + r" "c < 4" "b < 25" "a < 4" "r \<le> 365" "r = 365 \<longrightarrow> a = 3"
    "c < 3 \<longrightarrow> 1461 * b + 365 * a + r < 36524"
proof -
  define c where "c = min 3 (doe div 36524)"
  define u where "u = doe - 36524 * c"
  have c: "c < 4" "36524 * c \<le> doe" by (auto simp: c_def min_def)
  have u: "c < 3 \<longrightarrow> u < 36524" "u \<le> 36524"
    using assms by (auto simp: u_def c_def min_def)
  define b where "b = u div 1461"
  define v where "v = u - 1461 * b"
  have b: "b < 25" "v \<le> 1460" "u = 1461 * b + v" using u(2) by (auto simp: b_def v_def)
  define a where "a = min 3 (v div 365)"
  have a: "a < 4" "365 * a \<le> v" "v - 365 * a \<le> 365" "v - 365 * a = 365 \<longrightarrow> a = 3" using b(2) by (auto simp: a_def min_def)
  show ?thesis
    by (rule that [of c b a "v - 365 * a"]) (use a b c u in \<open>auto simp: u_def\<close>)
qed

lemma year_of:
  assumes "doe < 146097"
  shows "yoe_of doe < 400" and "year_start (yoe_of doe) \<le> doe" and "doe \<le> year_start (yoe_of doe) + 365"
proof -
  obtain c b a r where s: "doe = 36524 * c + 1461 * b + 365 * a + r" "c < 4" "b < 25" "a < 4" "r \<le> 365" "r = 365 \<longrightarrow> a = 3"
      "c < 3 \<longrightarrow> 1461 * b + 365 * a + r < 36524" using era_split [OF assms] .
  let ?Y = "100 * c + 4 * b + a" and ?x = "24 * c + b + 365 * a + r"
  have d1: "doe div 1460 = 25 * c + b + ?x div 1460"
  proof -
    have "doe = ?x + (25 * c + b) * 1460" by (simp add: s(1))
    then show ?thesis by (metis add.commute div_mult_self1 zero_neq_numeral)
  qed
  have x: "?x < 2920" "r = 0 \<longrightarrow> ?x < 1460" "r = 365 \<longrightarrow> 1460 \<le> ?x" using s by auto
  then have x1: "?x div 1460 = (if ?x < 1460 then 0 else 1)" by (auto simp: div_nat_eqI)
  have d2: "doe div 36524 - doe div 146096 = c \<and> doe div 146096 \<le> doe div 36524"
  proof (cases "doe = 146096")
    case True
    then have "c = 3" using s by (cases "c = 3") auto
    with True show ?thesis by simp
  next
    case False
    then have "doe div 146096 = 0" using assms by simp
    moreover have "doe div 36524 = c" using s False by (intro div_nat_eqI) auto
    ultimately show ?thesis by simp
  qed
  have g: "doe - doe div 1460 + doe div 36524 - doe div 146096 = 365 * ?Y + r - ?x div 1460"
  proof -
    define q where "q = doe div 146096"
    have q: "doe div 36524 = c + q" using d2 unfolding q_def by linarith
    have "25 * c + b + ?x div 1460 \<le> doe" using d1 div_le_dividend [of doe 1460] by simp
    moreover have "doe = 365 * ?Y + r + 24 * c + b" by (simp add: s(1))
    ultimately show ?thesis unfolding d1 q q_def [symmetric] using x x1 by (cases "?x < 1460") auto
  qed
  have r: "365 * ?Y + r - ?x div 1460 < 365 * ?Y + 365" "365 * ?Y \<le> 365 * ?Y + r - ?x div 1460"
    using s(5) x x1 by (auto split: if_splits)
  have Y: "yoe_of doe = ?Y" unfolding yoe_of_def g using r by (intro div_nat_eqI) auto
  have "?Y div 4 = 25 * c + b" "?Y div 100 = c" using s(3,4) by (auto intro: div_nat_eqI)
  then have "year_start ?Y + r = doe" by (simp add: year_start_def s(1))
  then show "yoe_of doe < 400" "year_start (yoe_of doe) \<le> doe" "doe \<le> year_start (yoe_of doe) + 365"
    using s unfolding Y by auto
qed

lemma month_of:
  assumes "doy \<le> (365 :: nat)"
  shows "(5 * doy + 2) div 153 \<le> 11" and "(153 * ((5 * doy + 2) div 153) + 2) div 5 \<le> doy"
    and "doy - (153 * ((5 * doy + 2) div 153) + 2) div 5 < 31"
  using assms by linarith+

text \<open>The parts of a date: the year \<open>Y\<close> that begins in March, the month \<open>mp\<close> and the day within it.\<close>

lemma civil_parts:
  obtains Y mp doy where "days + 719468 = (Y div 400) * 146097 + year_start (Y mod 400) + doy" "doy \<le> 365"
    "yoe_of ((days + 719468) mod 146097) = Y mod 400" "(days + 719468) div 146097 = Y div 400"
    "mp = (5 * doy + 2) div 153" "mp \<le> 11" "(153 * mp + 2) div 5 \<le> doy" "doy - (153 * mp + 2) div 5 < 31"
    "civil_of_days days = (if mp < 10 then Y else Y + 1, if mp < 10 then mp + 3 else mp - 9, doy - (153 * mp + 2) div 5 + 1)"
proof -
  let ?z = "days + 719468"
  define era where "era = ?z div 146097"
  define doe where "doe = ?z mod 146097"
  have z: "?z = era * 146097 + doe" "doe < 146097" unfolding era_def doe_def by (rule div_mult_mod_eq [symmetric]) simp
  have z3: "?z - era * 146097 = doe" using z(1) by linarith
  define yoe where "yoe = yoe_of doe"
  note y = year_of [OF z(2), folded yoe_def]
  define doy where "doy = doe - year_start yoe"
  define mp where "mp = (5 * doy + 2) div 153"
  define Y where "Y = yoe + era * 400"
  have Y: "Y div 400 = era" "Y mod 400 = yoe" using y(1) by (simp_all add: Y_def)
  have doy: "doy \<le> 365" "doe = year_start yoe + doy" using y by (simp_all add: doy_def)
  note m = month_of [OF doy(1), folded mp_def]
  have "civil_of_days days = (if mp < 10 then Y else Y + 1, if mp < 10 then mp + 3 else mp - 9, doy - (153 * mp + 2) div 5 + 1)"
    using m(1) unfolding civil_of_days_def Let_def era_def [symmetric] z3 yoe_of_def [symmetric] yoe_def [symmetric] year_start_def [symmetric]
      doy_def [symmetric] mp_def [symmetric] Y_def [symmetric] by (cases "mp < 10") simp_all
  moreover have "?z = (Y div 400) * 146097 + year_start (Y mod 400) + doy" using z(1) doy(2) unfolding Y by linarith
  ultimately show ?thesis
    by (intro that [of Y doy mp] doy(1) m mp_def) (simp_all only: Y yoe_def doe_def era_def)
qed

lemma civil_days_back:
  assumes "civil_of_days days = (yr, mo, d)"
  shows "civil_days (int yr) (int mo) (int d) = int days" and "1 \<le> mo \<and> mo \<le> 12 \<and> 1 \<le> d \<and> d \<le> 31"
proof -
  obtain Y mp doy where p: "days + 719468 = (Y div 400) * 146097 + year_start (Y mod 400) + doy" "mp \<le> 11" "(153 * mp + 2) div 5 \<le> doy"
      "doy - (153 * mp + 2) div 5 < 31"
      "civil_of_days days = (if mp < 10 then Y else Y + 1, if mp < 10 then mp + 3 else mp - 9, doy - (153 * mp + 2) div 5 + 1)"
    by (rule civil_parts [of days])
  have e: "yr = (if mp < 10 then Y else Y + 1)" "mo = (if mp < 10 then mp + 3 else mp - 9)" "d = doy - (153 * mp + 2) div 5 + 1"
    using assms p(5) by simp_all
  show "1 \<le> mo \<and> mo \<le> 12 \<and> 1 \<le> d \<and> d \<le> 31" using p(2,4) by (auto simp: e)
  have y: "(if int mo \<le> 2 then int yr - 1 else int yr) = int Y" using p(2) by (auto simp: e)
  have m: "(int mo + 9) mod 12 = int mp" using p(2) by (auto simp: e)
  have era: "int Y div 400 = int (Y div 400)" "int Y - int (Y div 400) * 400 = int (Y mod 400)"
    by (simp_all add: zdiv_int of_nat_mod minus_div_mult_eq_mod)
  have ys: "int (year_start n) = int n * 365 + int n div 4 - int n div 100" for n
    by (simp add: year_start_def of_nat_diff zdiv_int)
  have doy: "(153 * int mp + 2) div 5 + int d - 1 = int doy"
  proof -
    have "(153 * int mp + 2) div 5 = int ((153 * mp + 2) div 5)" by (simp add: zdiv_int)
    then show ?thesis using p(3) by (simp add: e of_nat_diff)
  qed
  have "int days + 719468 = int (Y div 400) * 146097 + int (year_start (Y mod 400)) + int doy"
    using arg_cong [OF p(1), of int] by simp
  then show "civil_days (int yr) (int mo) (int d) = int days"
    unfolding civil_days_def Let_def y m doy era ys by simp
qed

lemma year_four_digits:
  assumes "days < 2932897" and "civil_of_days days = (yr, mo, d)"
  shows "yr < 10000"
proof -
  obtain Y mp doy where p: "days + 719468 = (Y div 400) * 146097 + year_start (Y mod 400) + doy" "doy \<le> 365" "mp = (5 * doy + 2) div 153"
      "civil_of_days days = (if mp < 10 then Y else Y + 1, if mp < 10 then mp + 3 else mp - 9, doy - (153 * mp + 2) div 5 + 1)"
    by (rule civil_parts [of days])
  have lim: "(Y div 400) * 146097 + year_start (Y mod 400) + doy < 3652365" using assms(1) p(1) by linarith
  have ys: "365 * y \<le> year_start y" for y by (simp add: year_start_def)
  have Y: "Y = 400 * (Y div 400) + Y mod 400" by simp
  have era: "Y div 400 \<le> 24" using lim by linarith
  have "Y < 9999 \<or> Y = 9999 \<and> doy \<le> 305"
  proof (cases "Y div 400 = 24 \<and> Y mod 400 = 399")
    case True
    then have "year_start (Y mod 400) = 145731" by (simp add: year_start_def)
    then show ?thesis using True lim Y by linarith
  next
    case False
    moreover have "Y mod 400 \<le> 399" by simp
    ultimately show ?thesis using era Y by linarith
  qed
  then show ?thesis
  proof
    assume "Y = 9999 \<and> doy \<le> 305"
    then have "mp < 10" unfolding p(3) by linarith
    then show ?thesis using assms(2) p(4) \<open>Y = 9999 \<and> doy \<le> 305\<close> by simp
  qed (use assms(2) p(4) in \<open>auto split: if_splits\<close>)
qed


section \<open>Decimal fields\<close>

fun digits :: "nat \<Rightarrow> nat \<Rightarrow> string" where
  "digits 0 n = []"
| "digits (Suc w) n = digits w (n div 10) @ [char_of (48 + n mod 10)]"

lemma digits_0: "digits w 0 = replicate w CHR ''0''"
proof -
  have "char_of (48 :: nat) = CHR ''0''" by code_simp
  then show ?thesis by (induction w) (simp_all add: replicate_append_same)
qed

lemma length_digits [simp]: "length (digits w n) = w"
  by (induction w arbitrary: n) simp_all

lemma pad_digits: "n < 10 ^ w \<Longrightarrow> 0 < w \<Longrightarrow> pad w n = digits w n \<and> length (show_nat n) \<le> w"
proof (induction w arbitrary: n)
  case (Suc w)
  show ?case
  proof (cases "n < 10")
    case True
    have "show_nat n = [char_of (48 + n)]" using True by (subst show_nat.simps) simp
    then show ?thesis using True by (simp add: pad_def digits_0)
  next
    case False
    have w: "0 < w" using Suc.prems(1) False by (cases w) auto
    have "n div 10 < 10 ^ w" using Suc.prems(1) by (simp add: less_mult_imp_div_less mult.commute)
    note ih = Suc.IH [OF this w]
    have "show_nat n = show_nat (n div 10) @ [char_of (48 + n mod 10)]" using False by (subst show_nat.simps) simp
    then show ?thesis using ih by (simp add: pad_def)
  qed
qed simp

lemma digits_value_fold: "n < 10 ^ w \<Longrightarrow> list_all is_digit (digits w n) \<and> fold (\<lambda>c m. 10 * m + digit_value c) (digits w n) 0 = n"
proof (induction w arbitrary: n)
  case (Suc w)
  have "n div 10 < 10 ^ w" using Suc.prems by (simp add: less_mult_imp_div_less mult.commute)
  from Suc.IH [OF this] show ?case using digit_char [of "n mod 10"] by simp
qed simp

lemma digits_parse:
  assumes "n < 10 ^ w" and "0 < w" and "w \<le> 4"
  shows "parse_signed 64 (digits w n) = Some (int n)"
proof -
  note v = digits_value_fold [OF assms(1)]
  obtain c t where s: "digits w n = c # t" using assms(2) length_digits [of w n] by (cases "digits w n") auto
  have c: "c \<noteq> CHR ''+''" "c \<noteq> CHR ''-''" using v s by (auto simp: is_digit_def)
  have "(10 :: nat) ^ w \<le> 10 ^ 4" using assms(3) by (rule power_increasing) simp
  then have "n < 2 ^ 63" using assms(1) by simp
  then show ?thesis using v c by (simp add: parse_signed_def digits_value_def s)
qed



section \<open>Time stamps\<close>

text \<open>The first second of the year 10000.\<close>

definition stamp_limit :: nat where
  "stamp_limit = 253402300800"

lemma chrono_fields:
  assumes "secs < stamp_limit"
  obtains yr mo d where "civil_of_days (secs div 86400) = (yr, mo, d)" "yr < 10 ^ 4" "mo < 10 ^ 2" "d < 10 ^ 2"
    "chrono_lite secs = digits 4 yr @ digits 2 mo @ digits 2 d @ ''-'' @ digits 2 (secs mod 86400 div 3600) @
       digits 2 (secs mod 86400 mod 3600 div 60) @ digits 2 (secs mod 86400 mod 60)"
proof -
  obtain yr mo d where c: "civil_of_days (secs div 86400) = (yr, mo, d)" by (cases "civil_of_days (secs div 86400)")
  have "secs div 86400 < 2932897" using assms by (simp add: stamp_limit_def less_mult_imp_div_less)
  from year_four_digits [OF this c] have y: "yr < 10 ^ 4" by simp
  have md: "mo < 10 ^ 2" "d < 10 ^ 2" using civil_days_back(2) [OF c] by simp_all
  have h: "secs mod 86400 div 3600 < 10 ^ 2"
  proof -
    have "secs mod 86400 < 86400" by simp
    then show ?thesis by (simp add: less_mult_imp_div_less)
  qed
  have mi: "secs mod 86400 mod 3600 div 60 < 10 ^ 2"
  proof -
    have "secs mod 86400 mod 3600 < 3600" by simp
    then show ?thesis by (simp add: less_mult_imp_div_less)
  qed
  have s: "secs mod 86400 mod 60 < 10 ^ 2"
  proof -
    have "secs mod 86400 mod 60 < 60" by simp
    then show ?thesis by simp
  qed
  have "chrono_lite secs = digits 4 yr @ digits 2 mo @ digits 2 d @ ''-'' @ digits 2 (secs mod 86400 div 3600) @
       digits 2 (secs mod 86400 mod 3600 div 60) @ digits 2 (secs mod 86400 mod 60)"
    unfolding chrono_lite_def c Let_def prod.case
    using pad_digits [OF y] pad_digits [OF md(1)] pad_digits [OF md(2)] pad_digits [OF h] pad_digits [OF mi] pad_digits [OF s] by simp
  with c y md show ?thesis by (rule that)
qed

lemma clock_split:
  "int (secs div 86400) * 86400 + int (secs mod 86400 div 3600) * 3600 + int (secs mod 86400 mod 3600 div 60) * 60 + int (secs mod 86400 mod 60) = int secs"
proof -
  have m: "secs mod 86400 mod 3600 mod 60 = secs mod 86400 mod 60" by (simp add: mod_mod_cancel)
  have "secs = secs div 86400 * 86400 + (secs mod 86400 div 3600 * 3600 + (secs mod 86400 mod 3600 div 60 * 60 + secs mod 86400 mod 60))"
    unfolding m [symmetric] div_mult_mod_eq ..
  from arg_cong [OF this, of int] show ?thesis by (simp only: of_nat_add of_nat_mult of_nat_numeral add.assoc)
qed



text \<open>The fields of a date in the format of the gateway.\<close>

lemma parse_fields:
  assumes "length A = 4" "length B = 2" "length C = 2" "length D = 2" "length F = 2" "length G = 2"
    and "parse_signed 64 A = Some y" "parse_signed 64 B = Some mo" "parse_signed 64 C = Some d"
    and "parse_signed 64 D = Some h" "parse_signed 64 F = Some mi" "parse_signed 64 G = Some sec"
  shows "parse_amz_date (A @ B @ C @ ''T'' @ D @ F @ G @ ''Z'') = Some (civil_days y mo d * 86400 + h * 3600 + mi * 60 + sec)"
proof -
  obtain a1 a2 a3 a4 where A: "A = [a1, a2, a3, a4]" using assms(1) by (auto simp: numeral_eq_Suc length_Suc_conv)
  obtain b1 b2 c1 c2 where B: "B = [b1, b2]" "C = [c1, c2]" using assms(2,3) by (auto simp: numeral_eq_Suc length_Suc_conv)
  obtain d1 d2 f1 f2 g1 g2 where D: "D = [d1, d2]" "F = [f1, f2]" "G = [g1, g2]" using assms(4-6) by (auto simp: numeral_eq_Suc length_Suc_conv)
  show ?thesis using assms(7-12) by (simp add: parse_amz_date_def A B D bslice_def)
qed

text \<open>C38: the time stamp of a snapshot names its second: put into the format of a request date, the gateway's parser reads the very second back,
  for every time until the end of the year 9999.\<close>

theorem snapshot_time_roundtrip:
  assumes "secs < stamp_limit"
  shows "parse_amz_date (take 8 (chrono_lite secs) @ ''T'' @ drop 9 (chrono_lite secs) @ ''Z'') = Some (int secs)"
proof -
  obtain yr mo d where c: "civil_of_days (secs div 86400) = (yr, mo, d)" "yr < 10 ^ 4" "mo < 10 ^ 2" "d < 10 ^ 2"
      "chrono_lite secs = digits 4 yr @ digits 2 mo @ digits 2 d @ ''-'' @ digits 2 (secs mod 86400 div 3600) @
         digits 2 (secs mod 86400 mod 3600 div 60) @ digits 2 (secs mod 86400 mod 60)" by (rule chrono_fields [OF assms])
  let ?r = "secs mod 86400"
  have r: "?r < 86400" by simp
  have h: "?r div 3600 < 10 ^ 2" using r by (simp add: less_mult_imp_div_less)
  have m: "?r mod 3600 div 60 < 10 ^ 2"
  proof -
    have "?r mod 3600 < 3600" by simp
    then show ?thesis by (simp add: less_mult_imp_div_less)
  qed
  have s: "?r mod 60 < 10 ^ 2"
  proof -
    have "?r mod 60 < 60" by simp
    then show ?thesis by simp
  qed
  have t: "take 8 (chrono_lite secs) @ ''T'' @ drop 9 (chrono_lite secs) @ ''Z'' =
      digits 4 yr @ digits 2 mo @ digits 2 d @ ''T'' @ digits 2 (?r div 3600) @ digits 2 (?r mod 3600 div 60) @ digits 2 (?r mod 60) @ ''Z''"
    unfolding c(5) by simp
  note e = clock_split [of secs]
  show ?thesis unfolding t
    by (subst parse_fields [OF _ _ _ _ _ _ digits_parse [OF c(2)] digits_parse [OF c(3)] digits_parse [OF c(4)] digits_parse [OF h] digits_parse [OF m] digits_parse [OF s]])
      (use e in \<open>simp_all add: civil_days_back(1) [OF c(1)]\<close>)
qed

theorem snapshot_time_roundtrip_witness:
  "parse_amz_date (take 8 (chrono_lite 1735787100) @ ''T'' @ drop 9 (chrono_lite 1735787100) @ ''Z'') = Some 1735787100"
  using snapshot_time_roundtrip [of 1735787100] by (simp add: stamp_limit_def)






section \<open>The tree\<close>

lemma node_at_delete [simp]: "node_at (delete_paths P t) q = (if P q then None else node_at t q)"
proof -
  have "map_of (filter (\<lambda>(q, _). \<not> P q) xs) q = (if P q then None else map_of xs q)" for xs :: "(path \<times> node) list"
    by (induction xs) auto
  then show ?thesis by (simp add: node_at_def delete_paths_def)
qed

lemma children_iff: "n \<in> set (children t p) \<longleftrightarrow> node_at t (p @ [n]) \<noteq> None"
proof -
  have "n \<in> set (children t p) \<longleftrightarrow> (\<exists>q \<in> fst ` set (tr_nodes t). q \<noteq> [] \<and> butlast q = p \<and> last q = n)" by (auto simp: children_def)
  also have "\<dots> \<longleftrightarrow> p @ [n] \<in> fst ` set (tr_nodes t)"
    by (metis append_butlast_last_id butlast_snoc last_snoc snoc_eq_iff_butlast)
  finally show ?thesis by (simp add: node_at_def map_of_eq_None_iff)
qed


subsection \<open>Retention\<close>





subsection \<open>Removal by name\<close>

definition shrinks :: "tree \<Rightarrow> tree \<Rightarrow> bool" where
  "shrinks t t' \<longleftrightarrow> (\<forall>q. node_at t' q = node_at t q \<or> node_at t' q = None)"

lemma remove_file_node: "node_at (fst (remove_file_at p t)) q = (if q = p \<and> (\<exists>i. node_at t p = Some (File i)) then None else node_at t q)"
  by (simp add: remove_file_at_def split: option.split node.split)

lemma remove_files_node:
  "node_at (fst (remove_files dir ns (t, k))) q = (if \<exists>n \<in> set ns. q = dir @ [n] \<and> (\<exists>i. node_at t q = Some (File i)) then None else node_at t q)"
proof (induction ns arbitrary: t k)
  case (Cons n ns)
  obtain t1 g where r: "remove_file_at (dir @ [n]) t = (t1, g)" by fastforce
  have n: "node_at t1 q = (if q = dir @ [n] \<and> (\<exists>i. node_at t (dir @ [n]) = Some (File i)) then None else node_at t q)" for q
    using remove_file_node [of "dir @ [n]" t q] by (simp add: r)
  show ?case by (auto simp: r Let_def Cons.IH n)
qed simp

text \<open>The files in a directory, and the directory itself if it then is empty.\<close>

lemma delete_on_shard_spec:
  assumes "delete_on_shard p t = (t', f, k, d)"
  shows "shrinks t t'" and "\<And>q. node_at t' q \<noteq> node_at t q \<Longrightarrow> q = resolve p \<or> q \<noteq> [] \<and> butlast q = resolve p"
    and "f \<longleftrightarrow> node_at t (resolve p) = Some Dir" and "\<not> f \<Longrightarrow> t' = t"
    and "last p \<noteq> ''.'' \<Longrightarrow> \<forall>n. node_at t (resolve p @ [n]) \<noteq> Some Dir \<Longrightarrow> node_at t (resolve p) = Some Dir \<Longrightarrow> node_at t' (resolve p) = None"
proof -
  let ?dir = "resolve p"
  obtain t1 files where r: "remove_files ?dir (children t ?dir) (t, 0) = (t1, files)" by fastforce
  have n1: "node_at t1 q = (if \<exists>n. q = ?dir @ [n] \<and> (\<exists>i. node_at t q = Some (File i)) then None else node_at t q)" for q
    using remove_files_node [of ?dir "children t ?dir" t 0 q] by (auto simp: r children_iff)
  obtain t2 gone where g: "(if last p = ''.'' then (t1, False) else remove_dir_at ?dir t1) = (t2, gone)" by fastforce
  have n2: "node_at t2 q = (if q = ?dir \<and> last p \<noteq> ''.'' \<and> node_at t1 ?dir = Some Dir \<and> children t1 ?dir = [] then None else node_at t1 q)" for q
    using g by (auto simp: remove_dir_at_def split: if_splits)
  have e: "f \<longleftrightarrow> node_at t ?dir = Some Dir" "t' = (if node_at t ?dir = Some Dir then t2 else t)"
    using assms g by (auto simp: delete_on_shard_def r Let_def split: if_splits prod.splits)
  show "f \<longleftrightarrow> node_at t (resolve p) = Some Dir" "\<not> f \<Longrightarrow> t' = t" using e by simp_all
  show "shrinks t t'" unfolding shrinks_def e(2) using n1 n2 by auto
  show "q = resolve p \<or> q \<noteq> [] \<and> butlast q = resolve p" if "node_at t' q \<noteq> node_at t q" for q
    using that e(2) n1 [of q] n2 [of q] by (auto split: if_splits)
  show "node_at t' (resolve p) = None"
    if l: "last p \<noteq> ''.''" and files: "\<forall>n. node_at t (resolve p @ [n]) \<noteq> Some Dir" and dir: "node_at t (resolve p) = Some Dir"
  proof -
    have gone: "node_at t1 (?dir @ [n]) = None" for n
    proof (cases "node_at t (?dir @ [n])")
      case (Some x)
      then obtain i where "x = File i" using files by (cases x) auto
      then show ?thesis by (simp add: n1 Some)
    qed (simp add: n1)
    have "set (children t1 ?dir) = {}" by (simp add: set_eq_iff children_iff gone)
    moreover have "node_at t1 ?dir = Some Dir" using dir n1 [of ?dir] by simp
    ultimately show ?thesis using n2 [of ?dir] l e(2) dir by simp
  qed
qed

lemma shrinks_trans: "shrinks t u \<Longrightarrow> shrinks u v \<Longrightarrow> shrinks t v"
  unfolding shrinks_def by metis

lemma delete_shards_spec:
  assumes "delete_shards ps (t, found, k, d) = (t', found', k', d')"
  shows "shrinks t t' \<and> (\<forall>q. node_at t' q \<noteq> node_at t q \<longrightarrow> (\<exists>p \<in> set ps. q = resolve p \<or> q \<noteq> [] \<and> butlast q = resolve p)) \<and>
    (found' \<longrightarrow> found \<or> (\<exists>p \<in> set ps. node_at t (resolve p) = Some Dir)) \<and> (\<not> found' \<longrightarrow> t' = t \<and> \<not> found) \<and>
    (\<forall>p \<in> set ps. last p \<noteq> ''.'' \<and> (\<forall>n. node_at t (resolve p @ [n]) \<noteq> Some Dir) \<and> node_at t (resolve p) = Some Dir
       \<longrightarrow> node_at t' (resolve p) = None)"
  using assms
proof (induction ps arbitrary: t found k d)
  case Nil
  then show ?case by (simp add: shrinks_def)
next
  case (Cons p ps)
  obtain t1 f k1 d1 where o: "delete_on_shard p t = (t1, f, k1, d1)" by (metis prod_cases4)
  note s = delete_on_shard_spec [OF o]
  from Cons.prems have "delete_shards ps (t1, found \<or> f, k + k1, d + d1) = (t', found', k', d')" by (simp add: o Let_def)
  note ih = Cons.IH [OF this]
  have sh: "shrinks t t'" by (rule shrinks_trans [OF s(1) conjunct1 [OF ih]])
  have n1: "node_at t1 q = node_at t q \<or> node_at t1 q = None" for q using s(1) by (simp add: shrinks_def)
  have "(\<exists>p' \<in> set (p # ps). q = resolve p' \<or> q \<noteq> [] \<and> butlast q = resolve p')" if "node_at t' q \<noteq> node_at t q" for q
  proof (cases "node_at t1 q = node_at t q")
    case True
    then have "\<exists>p' \<in> set ps. q = resolve p' \<or> q \<noteq> [] \<and> butlast q = resolve p'" using ih that by (elim conjE) simp
    then show ?thesis by auto
  next
    case False
    from s(2) [OF this] show ?thesis by auto
  qed
  moreover have "node_at t' (resolve p') = None"
    if p': "p' \<in> set (p # ps)" and l: "last p' \<noteq> ''.''" and n: "\<forall>n. node_at t (resolve p' @ [n]) \<noteq> Some Dir" and dir: "node_at t (resolve p') = Some Dir" for p'
  proof (cases "node_at t1 (resolve p') = Some Dir \<and> p' \<in> set ps")
    case True
    have "node_at t1 (resolve p' @ [n]) \<noteq> Some Dir" for n using n n1 [of "resolve p' @ [n]"] by auto
    then show ?thesis using ih True l by (elim conjE) simp
  next
    case False
    have "node_at t1 (resolve p') = None"
    proof (cases "p' = p")
      case True
      then show ?thesis using s(5) l n dir by simp
    next
      case ne: False
      then show ?thesis using False p' n1 [of "resolve p'"] dir by auto
    qed
    then show ?thesis using conjunct1 [OF ih] unfolding shrinks_def by (metis (full_types))
  qed
  moreover have "found' \<longrightarrow> found \<or> (\<exists>p' \<in> set (p # ps). node_at t (resolve p') = Some Dir)"
  proof
    assume found'
    then consider "found" | "f" | p' where "p' \<in> set ps" "node_at t1 (resolve p') = Some Dir" using ih by (elim conjE) auto
    then show "found \<or> (\<exists>p' \<in> set (p # ps). node_at t (resolve p') = Some Dir)"
    proof cases
      case (3 p')
      then show ?thesis using n1 [of "resolve p'"] by auto
    qed (use s(3) in auto)
  qed
  moreover have "\<not> found' \<longrightarrow> t' = t \<and> \<not> found" using ih s(4) by (elim conjE) simp
  ultimately show ?case using sh by (intro conjI allI impI ballI; (elim conjE)?) simp_all
qed


text \<open>With a common directory of snapshots, the directory of the name itself is never removed: the listing shows the removed snapshot, empty.\<close>

theorem snapshot_ghost:
  assumes "delete_snapshot (Some dir) dps (Some i) t = (t', r)" and "''.'' \<notin> set dir" and "node_at t (dir @ [i]) = Some Dir"
  shows "node_at t' (dir @ [i]) = Some Dir"
proof (rule ccontr)
  assume n: "node_at t' (dir @ [i]) \<noteq> Some Dir"
  obtain t1 found files dirs where d: "delete_shards (snapshot_paths (Some dir) dps i) (t, False, 0, 0) = (t1, found, files, dirs)" by (metis prod_cases4)
  have "t' = t \<or> t' = t1" using assms(1) by (auto simp: delete_snapshot_def d split: if_splits)
  then have "node_at t1 (dir @ [i]) \<noteq> node_at t (dir @ [i])" using n assms(3) by auto
  then obtain p where p: "p \<in> set (snapshot_paths (Some dir) dps i)" "dir @ [i] = resolve p \<or> dir = resolve p"
    using delete_shards_spec [OF d] by (elim conjE) fastforce
  then obtain k where "p = dir @ [i, ''shard-'' @ show_nat k]" by (auto simp: snapshot_paths_def snap_path_for_def)
  then have "resolve p = dir @ (if i = ''.'' then [''shard-'' @ show_nat k] else [i, ''shard-'' @ show_nat k])"
    using assms(2) by (auto simp: resolve_def filter_id_conv)
  then show False using p(2) by (auto split: if_splits)
qed

section \<open>A concrete tree\<close>






end
