(* ===== verification/Admin.thy ===== *)
theory Admin
  imports Daemon Car
begin

text \<open>
  The other handlers of the admin API (\<open>ozd-admin/src/lib.rs\<close>, \<open>types.rs\<close>): reports on shards and pools and manual runs of the background work.
  A query is a map from names to values. A handler returns its typed response; its rendering as JSON is \<open>serde\<close>. Percentages are exact rationals.
  An infinite or undefined collection ratio is the bound that makes the engine's comparison come out alike.
\<close>

type_synonym query = "string \<rightharpoonup> string"

definition param_nat :: "query \<Rightarrow> string \<Rightarrow> nat option" where
  "param_nat q name = Option.bind (q name) (parse_unsigned 64)"

text \<open>\<open>want.is_some_and(|w| w != i)\<close>: the shard is not asked for.\<close>

definition skipped :: "nat option \<Rightarrow> nat \<Rightarrow> bool" where
  "skipped want i = (case want of None \<Rightarrow> False | Some w \<Rightarrow> w \<noteq> i)"

section \<open>Scrub, collection, ballast\<close>

record scrub_item =
  it_shard :: nat
  it_report :: "string + nat \<times> nat \<times> nat \<times> nat"

fun scrub_items :: "'s pool_env \<Rightarrow> nat option \<Rightarrow> nat \<Rightarrow> nat list \<Rightarrow> 's pool \<Rightarrow> 's pool \<times> scrub_item list" where
  "scrub_items E want batch [] p = (p, [])"
| "scrub_items E want batch (i # is) p =
     (if skipped want i then scrub_items E want batch is p
      else
        let (p, r) = scrub_shard_step E i None batch p;
            it = \<lparr>it_shard = i, it_report = (case r of Inr r \<Rightarrow> Inr (sr_checked r, sr_corrupt r, sr_repaired r, sr_unrepairable r)
                                              | Inl er \<Rightarrow> Inl (error_text er))\<rparr>;
            (p, its) = scrub_items E want batch is p in
        (p, it # its))"

definition run_scrub :: "'s pool_env \<Rightarrow> query \<Rightarrow> 's pool \<Rightarrow> 's pool \<times> scrub_item list" where
  "run_scrub E q p = scrub_items E (param_nat q ''shard'') (unwrap_or (param_nat q ''batch'') 1000) [0..<length (po_shards p)] p"

record gc_item =
  gi_shard :: nat
  gi_report :: "string + gc_report"

text \<open>The collector run by hand records its report whatever it says; it does not pay the background budget.\<close>

fun gc_items :: "'s pool_env \<Rightarrow> rat \<Rightarrow> nat list \<Rightarrow> 's pool \<Rightarrow> 's pool \<times> gc_item list" where
  "gc_items E ratio [] p = (p, [])"
| "gc_items E ratio (i # is) p =
     (case shard_call (\<lambda>s. so_gc (pe_ops E) s ratio) i p of
        (p, Inr rep) \<Rightarrow>
          let (p, its) = gc_items E ratio is (p\<lparr>po_metrics := record_gc (po_metrics p) rep\<rparr>) in
          (p, \<lparr>gi_shard = i, gi_report = Inr rep\<rparr> # its)
      | (p, Inl er) \<Rightarrow>
          let (p, its) = gc_items E ratio is p in
          (p, \<lparr>gi_shard = i, gi_report = Inl (error_text er)\<rparr> # its))"

fun ratio_of :: "f64 \<Rightarrow> rat" where
  "ratio_of (Fin x) = x"
| "ratio_of (Inf neg) = (if neg then 0 else 2 ^ 64)"
| "ratio_of NaN = 0"

definition run_gc :: "'s pool_env \<Rightarrow> rat \<Rightarrow> query \<Rightarrow> 's pool \<Rightarrow> 's pool \<times> gc_item list" where
  "run_gc E gc_discard_ratio q p =
     gc_items E (case Option.bind (q ''ratio'') parse_f64 of Some x \<Rightarrow> ratio_of x | None \<Rightarrow> gc_discard_ratio) [0..<length (po_shards p)] p"

record ballast_item =
  bi_shard :: nat
  bi_released :: "string + bool"

fun ballast_items :: "'s pool_env \<Rightarrow> nat option \<Rightarrow> nat list \<Rightarrow> 's pool \<Rightarrow> 's pool \<times> ballast_item list" where
  "ballast_items E want [] p = (p, [])"
| "ballast_items E want (i # is) p =
     (if skipped want i then ballast_items E want is p
      else
        let (p, r) = shard_call (so_release_ballast (pe_ops E)) i p;
            it = \<lparr>bi_shard = i, bi_released = (case r of Inr b \<Rightarrow> Inr b | Inl er \<Rightarrow> Inl (error_text er))\<rparr>;
            (p, its) = ballast_items E want is p in
        (p, it # its))"

definition ballast_release :: "'s pool_env \<Rightarrow> query \<Rightarrow> 's pool \<Rightarrow> 's pool \<times> ballast_item list" where
  "ballast_release E q p = ballast_items E (param_nat q ''shard'') [0..<length (po_shards p)] p"

section \<open>Migration and resilver\<close>

record migrate_response =
  mr_scanned :: nat
  mr_migrated :: nat
  mr_skipped_small :: nat
  mr_skipped_ec :: nat
  mr_canary_failed :: nat
  mr_errors :: nat
  mr_done :: bool

definition run_migrate :: "'s pool_env \<Rightarrow> query \<Rightarrow> 's pool \<Rightarrow> 's pool \<times> (string + migrate_response)" where
  "run_migrate E q p =
     (let batch = unwrap_or (param_nat q ''batch'') 2000;
          (p, c) = shard_call (\<lambda>s. so_load_cursor (pe_ops E) s ''migrate'') 0 p;
          cur = (case c of Inr c \<Rightarrow> c | Inl _ \<Rightarrow> None) in
      case migrate_step E cur batch p of
        (p, Inl er) \<Rightarrow> (p, Inl (error_text er))
      | (p, Inr r) \<Rightarrow>
          let (p, _) = shard_call (\<lambda>s. so_save_cursor (pe_ops E) s ''migrate'' (if mg_done r then None else mg_last_key r)) 0 p in
          (p, Inr \<lparr>mr_scanned = mg_scanned r, mr_migrated = mg_migrated r, mr_skipped_small = mg_skipped_small r,
                   mr_skipped_ec = mg_skipped_ec r, mr_canary_failed = mg_canary_failed r, mr_errors = mg_errors r, mr_done = mg_done r\<rparr>))"

record resilver_response =
  rs_scanned :: nat
  rs_repaired :: nat
  rs_errors :: nat
  rs_done :: bool

text \<open>\<open>None\<close>: the resilver does not return.\<close>

definition run_resilver :: "'s pool_env \<Rightarrow> query \<Rightarrow> 's pool \<Rightarrow> ('s pool \<times> (string + resilver_response)) option" where
  "run_resilver E q p =
     (case resilver_full E (unwrap_or (param_nat q ''batch'') 1000) p of
        None \<Rightarrow> None
      | Some (p, Inl er) \<Rightarrow> Some (p, Inl (error_text er))
      | Some (p, Inr r) \<Rightarrow> Some (p, Inr \<lparr>rs_scanned = rr_scanned r, rs_repaired = rr_repaired r, rs_errors = rr_errors r, rs_done = rr_done r\<rparr>))"

section \<open>CAR files on the server\<close>

text \<open>\<open>open_file\<close> is what the file system answers for a path: the text of an error, or the file. The schedule of the import's threads is an argument.\<close>

definition car_prefix :: "query \<Rightarrow> bytes" where
  "car_prefix q = str_bytes (unwrap_or (q ''prefix'') ''/blocks/'')"

definition admin_car_import ::
  "'s pool_env \<Rightarrow> (bytes \<Rightarrow> bytes) \<Rightarrow> (string \<Rightarrow> string + source) \<Rightarrow> import_move list \<Rightarrow> query \<Rightarrow> 's pool \<Rightarrow>
     ('s pool \<times> (string + car_import_report)) option" where
  "admin_car_import E sha256 open_file ms q p =
     (case q ''path'' of
        None \<Rightarrow> Some (p, Inl ''path required'')
      | Some path \<Rightarrow>
          let verify = (case q ''verify'' of Some v \<Rightarrow> if v = ''true'' then True else if v = ''false'' then False else True | None \<Rightarrow> True);
              J = \<lparr>cj_sha256 = sha256, cj_prefix = car_prefix q, cj_parallelism = unwrap_or (param_nat q ''parallelism'') 8, cj_verify = verify\<rparr> in
          (case open_file path of
             Inl er \<Rightarrow> Some (p, Inl (error_text (Io (path @ '': '' @ er))))
           | Inr f \<Rightarrow> (case car_import (pool_store E) J ms f p of
               None \<Rightarrow> None
             | Some (p, Inl er) \<Rightarrow> Some (p, Inl (error_text er))
             | Some (p, Inr r) \<Rightarrow> Some (p, Inr r))))"

definition admin_car_export ::
  "'s pool_env \<Rightarrow> (string \<Rightarrow> string + sink) \<Rightarrow> query \<Rightarrow> 's pool \<Rightarrow> (('s pool \<times> sink option) \<times> (string + car_export_report)) option" where
  "admin_car_export E create_file q p =
     (case q ''path'' of
        None \<Rightarrow> Some ((p, None), Inl ''path required'')
      | Some path \<Rightarrow> (case create_file path of
          Inl er \<Rightarrow> Some ((p, None), Inl (error_text (Io (path @ '': '' @ er))))
        | Inr w \<Rightarrow> (case car_export (pool_store E) (car_prefix q) (p, w) of
            None \<Rightarrow> None
          | Some ((p, w), Inl er) \<Rightarrow> Some ((p, Some w), Inl (error_text er))
          | Some ((p, w), Inr r) \<Rightarrow> Some ((p, Some w), Inr r))))"

section \<open>Usage and capacity\<close>

text \<open>\<open>usage().unwrap_or_default()\<close> of every shard.\<close>

fun usages :: "'s pool_env \<Rightarrow> nat list \<Rightarrow> 's pool \<Rightarrow> 's pool \<times> capacity list" where
  "usages E [] p = (p, [])"
| "usages E (i # is) p =
     (let (p, r) = shard_call (so_usage (pe_ops E)) i p; (p, cs) = usages E is p in
      (p, (case r of Inr c \<Rightarrow> c | Inl _ \<Rightarrow> capacity_default) # cs))"

record usage_item =
  ui_shard :: nat
  ui_total :: nat
  ui_free :: nat

definition admin_usage :: "'s pool_env \<Rightarrow> 's pool \<Rightarrow> 's pool \<times> usage_item list" where
  "admin_usage E p =
     (let (p, cs) = usages E [0..<length (po_shards p)] p in
      (p, map (\<lambda>(i, c). \<lparr>ui_shard = i, ui_total = total_bytes c, ui_free = free_bytes c\<rparr>) (enumerate 0 cs)))"

definition tenths :: "rat \<Rightarrow> rat" where
  "tenths x = (if 0 \<le> x then of_int \<lfloor>x * 10 + 1 / 2\<rfloor> else of_int \<lceil>x * 10 - 1 / 2\<rceil>) / 10"

definition fill_pct :: "nat \<Rightarrow> nat \<Rightarrow> rat" where
  "fill_pct n free = (if 0 < n then 100 * (1 - of_nat free / of_nat n) else 0)"

record capacity_shard =
  cs_shard :: nat
  cs_total :: nat
  cs_free :: nat
  cs_fill_pct :: rat

record capacity_response =
  cr_total_bytes :: nat
  cr_free_bytes :: nat
  cr_fill_pct :: rat
  cr_bytes_written_total :: nat
  cr_free_until_95pct :: nat
  cr_shards :: "capacity_shard list"

definition capacity_report :: "'s pool_env \<Rightarrow> 's pool \<Rightarrow> 's pool \<times> capacity_response" where
  "capacity_report E p =
     (let (p, cs) = usages E [0..<length (po_shards p)] p;
          size_all = foldl (\<lambda>n c. add64 n (total_bytes c)) 0 cs;
          free_all = foldl (\<lambda>n c. add64 n (free_bytes c)) 0 cs in
      (p, \<lparr>cr_total_bytes = size_all, cr_free_bytes = free_all, cr_fill_pct = tenths (fill_pct size_all free_all),
           cr_bytes_written_total = om_counters (po_metrics p) BytesWritten, cr_free_until_95pct = free_all - size_all div 20,
           cr_shards = map (\<lambda>(i, c). \<lparr>cs_shard = i, cs_total = total_bytes c, cs_free = free_bytes c,
                                    cs_fill_pct = tenths (fill_pct (total_bytes c) (free_bytes c))\<rparr>) (enumerate 0 cs)\<rparr>))"

section \<open>Metrics\<close>

definition shard_gauge :: "string \<Rightarrow> nat \<Rightarrow> string \<Rightarrow> string" where
  "shard_gauge name i v = name @ ''{shard='' @ quoted (show_nat i) @ ''} '' @ v @ newline"

fun status_code :: "shard_status option \<Rightarrow> string" where
  "status_code (Some Online) = ''0''"
| "status_code (Some Suspect) = ''1''"
| "status_code (Some Faulted) = ''2''"
| "status_code None = ''-1''"

definition flag_text :: "bool \<Rightarrow> string" where
  "flag_text b = (if b then ''1'' else ''0'')"

definition shard_metrics :: "'s pool_env \<Rightarrow> 's pool \<Rightarrow> nat \<times> capacity \<Rightarrow> string" where
  "shard_metrics E p = (\<lambda>(i, cap).
     shard_gauge ''ozd_shard_total_bytes'' i (show_nat (total_bytes cap)) @
     shard_gauge ''ozd_shard_free_bytes'' i (show_nat (free_bytes cap)) @
     shard_gauge ''ozd_shard_status'' i (status_code (pool_shard_status p i)) @
     shard_gauge ''ozd_shard_ballast_released'' i (flag_text (so_ballast_released (pe_ops E) (po_shards p ! i))) @
     shard_gauge ''ozd_shard_lat_ewma_ms'' i (show_nat (shard_ewma_ms p i)) @
     shard_gauge ''ozd_shard_slow'' i (flag_text (shard_slow p i)))"

definition admin_metrics :: "'s pool_env \<Rightarrow> 's pool \<Rightarrow> 's pool \<times> string" where
  "admin_metrics E p =
     (let (p, cs) = usages E [0..<length (po_shards p)] p in
      (p, ''# TYPE ozd_shard_total_bytes gauge'' @ newline @ ''# TYPE ozd_shard_free_bytes gauge'' @ newline @
          ''# TYPE ozd_shard_status gauge'' @ newline @ concat (map (shard_metrics E p) (enumerate 0 cs)) @
          ''# TYPE ozd_mrf_queue gauge'' @ newline @ ''ozd_mrf_queue '' @ show_nat (mrf_len p) @ newline @ prometheus (po_metrics p)))"

section \<open>Structure and ZFS\<close>

record structure_item =
  ti_shard :: nat
  ti_healthy :: bool
  ti_report :: "string + structure_report"

fun structure_items :: "'s pool_env \<Rightarrow> nat list \<Rightarrow> 's pool \<Rightarrow> 's pool \<times> structure_item list" where
  "structure_items E [] p = (p, [])"
| "structure_items E (i # is) p =
     (let (p, r) = shard_call (so_verify_structure (pe_ops E)) i p; (p, its) = structure_items E is p in
      (p, (case r of
             Inr rep \<Rightarrow> \<lparr>ti_shard = i, ti_healthy = is_healthy rep, ti_report = Inr rep\<rparr>
           | Inl er \<Rightarrow> \<lparr>ti_shard = i, ti_healthy = False, ti_report = Inl (error_text er)\<rparr>) # its))"

definition admin_structure :: "'s pool_env \<Rightarrow> 's pool \<Rightarrow> 's pool \<times> structure_item list" where
  "admin_structure E p = structure_items E [0..<length (po_shards p)] p"

text \<open>The health of a pool, its metrics and its drift; only the failure of the first makes an error. The drift entries are kept as data.\<close>

record zfs_health_item =
  zh_shard :: nat
  zh_report :: "string + pool_health \<times> shard_status \<times> (nat \<times> nat \<times> nat) \<times> pool_metrics \<times> nat \<times> drift_issue list"

definition zfs_report ::
  "'w runner \<Rightarrow> zfs_pool \<Rightarrow> 'w \<Rightarrow> 'w \<times> (zfs_error + pool_health \<times> shard_status \<times> (nat \<times> nat \<times> nat) \<times> pool_metrics \<times> nat \<times> drift_issue list)" where
  "zfs_report R z w =
     and_then (zfs_status R z w) (\<lambda>h w.
       let (w, m) = zfs_pool_metrics R z w; m = (case m of Inr m \<Rightarrow> m | Inl _ \<Rightarrow> pool_metrics_default);
           (w, ps) = dataset_properties R z w;
           drift = (case ps of Inr ps \<Rightarrow> audit_drift ps EXPECTED_TUNING | Inl _ \<Rightarrow> []) in
       (w, Inr (h, to_shard_status h, total_errors h, m, effective_free m, drift)))"

fun zfs_health :: "'w runner \<Rightarrow> (nat \<times> zfs_pool option) list \<Rightarrow> 'w \<Rightarrow> 'w \<times> zfs_health_item list" where
  "zfs_health R [] w = (w, [])"
| "zfs_health R ((i, None) # zs) w = zfs_health R zs w"
| "zfs_health R ((i, Some z) # zs) w =
     (let (w, r) = zfs_report R z w; (w, its) = zfs_health R zs w in
      (w, \<lparr>zh_shard = i, zh_report = (case r of Inr x \<Rightarrow> Inr x | Inl er \<Rightarrow> Inl (zfs_error_text er))\<rparr> # its))"

record zfs_scrub_item =
  zi_shard :: nat
  zi_scrub :: "string + string"

fun zfs_scrub :: "'w runner \<Rightarrow> nat option \<Rightarrow> (nat \<times> zfs_pool option) list \<Rightarrow> 'w \<Rightarrow> 'w \<times> zfs_scrub_item list" where
  "zfs_scrub R want [] w = (w, [])"
| "zfs_scrub R want ((i, None) # zs) w = zfs_scrub R want zs w"
| "zfs_scrub R want ((i, Some z) # zs) w =
     (if skipped want i then zfs_scrub R want zs w
      else
        let (w, r) = scrub_start R z w; (w, its) = zfs_scrub R want zs w in
        (w, \<lparr>zi_shard = i, zi_scrub = (case r of Inr _ \<Rightarrow> Inr ''started'' | Inl er \<Rightarrow> Inl (zfs_error_text er))\<rparr> # its))"

section \<open>Configuration\<close>

record runtime_config =
  rc_replicas :: nat
  rc_write_quorum :: nat
  rc_redundancy :: string
  rc_ec_data :: nat
  rc_ec_parity :: nat
  rc_gc_discard_ratio :: rat
  rc_gc_interval_secs :: nat
  rc_scrub_interval_secs :: nat
  rc_bg_max_bytes_per_sec :: nat
  rc_bg_min_bytes_per_sec :: nat
  rc_rate_limit_rps :: nat
  rc_shards :: nat
  rc_adaptive_hedge :: bool
  rc_blake3_outboard :: bool

text \<open>What the daemon shows of its configuration. It is the one of the start: a reload does not change it.\<close>

definition runtime_config_of :: "daemon_cfg \<Rightarrow> runtime_config" where
  "runtime_config_of cfg =
     \<lparr>rc_replicas = dc_replicas cfg, rc_write_quorum = dc_write_quorum cfg, rc_redundancy = dc_redundancy cfg, rc_ec_data = dc_ec_data cfg,
      rc_ec_parity = dc_ec_parity cfg, rc_gc_discard_ratio = dc_gc_discard_ratio cfg, rc_gc_interval_secs = dc_gc_interval_secs cfg,
      rc_scrub_interval_secs = dc_scrub_interval_secs cfg, rc_bg_max_bytes_per_sec = dc_bg_max_bytes_per_sec cfg,
      rc_bg_min_bytes_per_sec = dc_bg_min_bytes_per_sec cfg, rc_rate_limit_rps = dc_rate_limit_rps cfg,
      rc_shards = length (dc_disks cfg),
      rc_adaptive_hedge = dc_adaptive_hedge cfg, rc_blake3_outboard = dc_blake3_outboard cfg\<rparr>"

end
