(* ===== verification/Spec2Isabelle.thy ===== *)
theory Spec2Isabelle
  imports Cache_Thms Car_Thms Pool_Migrate Gateway_Thms Zfs_Thms Daemon_Thms Snapshot_Thms Admin
begin

text \<open>
  Verification library of ozd, an object store that spreads blocks over many single-disk shards, written in Rust under \<open>src/crates\<close>.

  The program. A block is a byte string under a key. The lowest layer is the disk engine (\<open>ozd-engine\<close>): it appends bodies to segment
  files and keeps their addresses in an index of two \<open>redb\<close> tables, collects garbage by copying live records, and recovers the tail of
  its active segment after a crash. The application layer (\<open>ozd-app\<close>) combines engines into a pool: a rendezvous hash places each key, a write
  goes to several shards (copies, or pieces of an erasure code) and succeeds with a quorum, a read hedges against slow shards, and
  repair, scrub, resilver and migration run in the background under a byte budget. Around the pool stand a cache tier, the transfer of
  blocks as CAR streams, and the S3 gateway (\<open>ozd-ipfs\<close>) with signatures and a rate limit. The crates meet at two traits of
  \<open>ozd-domain\<close>: \<open>ShardEngine\<close>, which the engine provides to the pool, and \<open>BlockStore\<close>, which the pool provides to the cache tier, to the
  CAR transfer and to the gateway.

  How the model follows the code. Structs are records, enums datatypes with the constructors of the source, fields of serialised
  formats words of their width, sizes natural numbers. An operation with interior mutability takes the state and returns it with a sum of error
  and result (\<open>op\<close>), so that every early return is a branch; the \<open>?\<close> operator is \<open>and_then\<close>. A file is its list of bytes, and each access
  to the disk consumes the next entry of a stream of injected faults; theorems quantify over these streams, within the limits that
  their hypotheses state (the engine invariant excludes a failed data append and a failover directory). Where threads
  run, a schedule is an explicit list of moves (client operations at two points of each record of a GC pass, the import pipeline) or of threads
  (the cache tier), and theorems quantify over schedules. Floating-point quantities are exact rationals or reals. Code that is not in the repository is a
  parameter: \<open>redb\<close>, the checksum, the compressor, \<open>xxh3\<close>, the Reed-Solomon code, \<open>abao\<close>, SHA-256 and HMAC. What is assumed of them
  is a named hypothesis or a locale, with a concrete instance in \<open>Reference_Env\<close> (or next to the use) that the witnesses run on.

  The theories, by the part of the program they model.
  \<^item> \<open>Ozd_Prelude\<close>, \<open>Domain\<close>: words and little-endian codecs, sequencing of fallible operations, assertions \<open>post\<close> about their results;
    keys, errors, reports, the \<open>ShardEngine\<close> port, the header of an erasure-coded piece (\<open>ozd-domain\<close>).
  \<^item> \<open>Segment\<close>, \<open>Segment_Inv\<close>, \<open>Recovery\<close>: segment files, the writer with rotation and failover, tail recovery, scanning and reading
    (\<open>ozd-engine/src/segment.rs\<close>); the invariant that files are sequences of whole records and only grow; what a crash leaves.
  \<^item> \<open>Engine\<close>, \<open>Engine_Gc\<close>: the disk engine (\<open>ozd-engine/src/lib.rs\<close>), every operation of the port and garbage collection.
    \<open>Engine_Inv\<close>, \<open>Engine_Read\<close>, \<open>Engine_List\<close>, \<open>Gc_Inv\<close>, \<open>Evict_Inv\<close>: the locales \<open>kv_store\<close> and \<open>engine_laws\<close>, the invariant
    \<open>engine_inv\<close>, the abstraction \<open>view\<close> to a map from keys to bodies, and the refinement of the operations to that map.
    \<open>Engine_Thms\<close>, \<open>Gc_Thms\<close>: the properties. Index corruption beyond these laws is not considered.
  \<^item> \<open>Shard\<close>: the contract of the port as the locale \<open>shard_contract\<close>, interpreted on the disk engine.
  \<^item> \<open>Placement\<close>, \<open>Health\<close>, \<open>Monitor\<close>, \<open>Metrics\<close>, \<open>Throttle\<close>, \<open>Erasure\<close>, \<open>Verified\<close>, \<open>Heal_Queue\<close>: rendezvous placement, the health state
    machine, slow-disk detection and the latency percentile, counters and histograms, the byte budget, erasure coding, verified ranges, the
    repair queue (the files of the same purpose in \<open>ozd-app/src\<close>, the queue in \<open>pool.rs\<close>).
  \<^item> \<open>Pool\<close>, \<open>Pool_Read\<close>, \<open>Pool_Repair\<close>, \<open>Pool_Migrate\<close>: the pool (\<open>ozd-app/src/pool.rs\<close>): client operations, reads, repair and resilver,
    migration. \<open>Pool_Laws\<close> is the locale \<open>pool_laws\<close> (shards that keep the contract, a policy that returns distinct shards, replies each once);
    \<open>Pool_Put_Laws\<close>, \<open>Pool_Get_Laws\<close>, \<open>Pool_Meta_Laws\<close>, \<open>Pool_Repair_Laws\<close>, \<open>Pool_Ec_Put_Laws\<close>, \<open>Pool_Ec_Get_Laws\<close> give the effect of the operations on the
    maps of the shards; \<open>Pool_Thms\<close>, \<open>Pool_Repair_Thms\<close>, \<open>Pool_Ec_Thms\<close> are the properties of the pool over disk engines.
  \<^item> \<open>Store\<close>: the \<open>BlockStore\<close> port, its contract as the locales \<open>block_store\<close> and \<open>listed_store\<close>, and the mirrored pool as provider.
  \<^item> \<open>Cache\<close>, \<open>Cache_Flight\<close>, \<open>Cache_Thms\<close>: the cache tier for one thread, for many threads with coalesced reads, and its properties.
  \<^item> \<open>Car_Codec\<close>, \<open>Car\<close>, \<open>Car_Laws\<close>, \<open>Car_Thms\<close>: encodings, import pipeline and export of CAR streams, the invariant of the pipeline, the properties.
  \<^item> \<open>Rust_Text\<close>, \<open>Sigv4\<close>, \<open>Ratelimit\<close>, \<open>Gateway\<close>, \<open>Paging\<close>, \<open>Gateway_Thms\<close>: operations on \<open>str\<close>; AWS signatures, the rate limiter and the S3
    handlers (\<open>ozd-ipfs/src\<close>); listings in pages; the properties of the gateway.
  \<^item> \<open>Zfs\<close>, \<open>Zfs_Thms\<close>: the adapter to ZFS (\<open>ozd-zfs/src\<close>): parsers, typed properties, the runner port, operations; and its properties.
  \<^item> \<open>Daemon\<close>, \<open>Daemon_Thms\<close>: the start of the pool from a configuration (\<open>ozd-daemon/src/main.rs\<close>), with the null engine in place of disks that do
    not open, one tick of each background task; and its properties, through the contract of the port for the mix of both engines.
  \<^item> \<open>Snapshot\<close>, \<open>Snapshot_Thms\<close>, \<open>Admin\<close>: the admin API (\<open>ozd-admin/src\<close>): snapshots by hard links on a tree of paths, their listing, removal and
    retention, with their properties; the other handlers, which run the background work by hand and report on shards, pools and configuration.

  What the properties show. For the engine, without a failover directory and with data appends that succeed: each operation acts on the
  abstract map as its name says, or fails with a fault pending and changes nothing; a collection pass with atomic client operations between its steps
  leaves the map those operations leave; recovery finds exactly the whole records. For the pool: the copies a mirrored or erasure-coded put
  leaves and what they survive, availability of reads, sorted and complete listings, repair and its termination.
  For the clients: which bodies cached reads answer under all interleavings and progress of waiters, faithful transfer by CAR, the life of an
  object over HTTP, exact ranges, complete listings over pages, what a signature covers, the rate bound. For the ZFS adapter: the identity
  check never takes over a foreign disk. For the daemon: what an accepted start guarantees, that the pool is writable with disks
  missing, that the statuses are those of the health state machine. For the snapshots: names that sort by time, retention of the newest, removal
  confined to the snapshot named. The text at a theorem states the hypotheses under which it holds. Theorems about defects
  state what the code does where it departs from its comments. Races outside of the schedules above (a sweep against an append that is
  not indexed yet, writers during flush and unlink) and a failing rotation with a failover directory are known defects or open, and not covered.

  Bounds and fuel. Keys are shorter than \<open>2^16\<close> bytes and bodies than \<open>2^32\<close> (\<open>fits\<close>), as the record header stores these lengths. \<open>room\<close>,
  \<open>engine_ok n\<close>, \<open>pool_room n\<close> say that \<open>n\<close> more writes do not exhaust the 32-bit segment numbers and offsets. The loops of the resilver, the
  migration and the export are partial functions with proofs that they return; the listing client takes a number of pages, of which one more than
  there are keys is enough; the import pipeline has a bound on the length of every schedule.

  Not modelled. Of the daemon, the reading of the configuration file, the timers, signals and sockets, and the wiring of cache, authentication
  and routers; of the admin API the rendering of responses as JSON and the routes; the execution of a process with its time limit (\<open>LocalRunner\<close>) is input and
  output; the benchmark (\<open>ozd-bench\<close>) is a load
  generator; \<open>async_adapter.rs\<close> only forwards calls to a thread pool. Of the gateway, the matching of routes, percent decoding and the decoding of
  query strings are \<open>axum\<close>, and the text syntax of IP addresses is a parameter. Logging has no effect on the state and is left out.
\<close>

end
